(* ===== verification/Synapse_Prelude.thy ===== *)
theory Synapse_Prelude
  imports Main "HOL-Library.Word"
begin

text \<open>
  Shared vocabulary of the development: bytes and little-endian integers as Rust's
  \<^verbatim>\<open>to_le_bytes\<close>/\<^verbatim>\<open>from_le_bytes\<close> compute them, the reader that takes an exact number of
  bytes off a stream (\<^verbatim>\<open>Read::read_exact\<close>), keyed tables for the SQL statements
  \<^verbatim>\<open>INSERT OR REPLACE\<close>, \<^verbatim>\<open>DELETE\<close> and \<^verbatim>\<open>SELECT ... WHERE key = ?\<close>, the two interface
  locales that several components implement, and the lemma collections their proofs use.
\<close>

named_theorems codec_simps "length and round-trip facts of byte codecs"
named_theorems table_simps "lookup laws of keyed tables"

section \<open>Bytes and machine integers\<close>

type_synonym byte = "8 word"
type_synonym bytes = "byte list"
type_synonym u16 = "16 word"
type_synonym u32 = "32 word"
type_synonym u64 = "64 word"

text \<open>Rust strings are UTF-8 byte sequences: \<^typ>\<open>string\<close> is a list of 8-bit characters,
  and \<open>as_bytes\<close> is \<^verbatim>\<open>str::as_bytes\<close>.\<close>

definition as_bytes :: "string \<Rightarrow> bytes" where
  "as_bytes s = map (\<lambda>c. word_of_nat (of_char c)) s"

text \<open>\<open>le_bytes n v\<close>: the \<open>n\<close> low bytes of \<open>v\<close>, least significant first.\<close>

fun le_bytes :: "nat \<Rightarrow> nat \<Rightarrow> bytes" where
  "le_bytes 0 v = []"
| "le_bytes (Suc n) v = word_of_nat (v mod 256) # le_bytes n (v div 256)"

fun le_nat :: "bytes \<Rightarrow> nat" where
  "le_nat [] = 0"
| "le_nat (b # bs) = unat b + 256 * le_nat bs"

definition u16_le :: "u16 \<Rightarrow> bytes" where
  "u16_le w = le_bytes 2 (unat w)"

definition u32_le :: "u32 \<Rightarrow> bytes" where
  "u32_le w = le_bytes 4 (unat w)"

definition u64_le :: "u64 \<Rightarrow> bytes" where
  "u64_le w = le_bytes 8 (unat w)"

text \<open>An \<^verbatim>\<open>i64\<close> is kept as an \<^typ>\<open>int\<close>; its byte form is the two's complement one.\<close>

definition i64_le :: "int \<Rightarrow> bytes" where
  "i64_le i = u64_le (word_of_int i)"

definition is_i64 :: "int \<Rightarrow> bool" where
  "is_i64 i \<longleftrightarrow> - (2 ^ 63) \<le> i \<and> i < 2 ^ 63"

definition le_u16 :: "bytes \<Rightarrow> u16" where
  "le_u16 bs = word_of_nat (le_nat bs)"

definition le_u32 :: "bytes \<Rightarrow> u32" where
  "le_u32 bs = word_of_nat (le_nat bs)"

definition le_u64 :: "bytes \<Rightarrow> u64" where
  "le_u64 bs = word_of_nat (le_nat bs)"

text \<open>\<open>slice bs i j\<close> is \<^verbatim>\<open>bs[i..j]\<close> for \<open>i \<le> j \<le> length bs\<close>.\<close>

definition slice :: "'a list \<Rightarrow> nat \<Rightarrow> nat \<Rightarrow> 'a list" where
  "slice bs i j = take (j - i) (drop i bs)"

text \<open>\<^verbatim>\<open>read_exact\<close>: the next \<open>n\<close> bytes and the rest of the stream, or the
  \<^verbatim>\<open>UnexpectedEof\<close> error (None).\<close>

definition read_exact :: "nat \<Rightarrow> bytes \<Rightarrow> (bytes \<times> bytes) option" where
  "read_exact n s = (if n \<le> length s then Some (take n s, drop n s) else None)"

section \<open>Keyed tables\<close>

text \<open>
  A SQL table with a primary key, as the list of its rows in rowid order.
  \<open>tbl_put\<close> is \<^verbatim>\<open>INSERT OR REPLACE\<close> (the conflicting row is deleted, the new one gets a
  fresh rowid at the end), \<open>tbl_del\<close> is \<^verbatim>\<open>DELETE ... WHERE key = ?\<close> and \<open>tbl_get\<close> is
  \<^verbatim>\<open>SELECT ... WHERE key = ?\<close> with the first row kept.
\<close>

definition tbl_get :: "('r \<Rightarrow> 'k) \<Rightarrow> 'r list \<Rightarrow> 'k \<Rightarrow> 'r option" where
  "tbl_get key rows k = find (\<lambda>r. key r = k) rows"

definition tbl_del :: "('r \<Rightarrow> 'k) \<Rightarrow> 'k \<Rightarrow> 'r list \<Rightarrow> 'r list" where
  "tbl_del key k rows = filter (\<lambda>r. key r \<noteq> k) rows"

definition tbl_put :: "('r \<Rightarrow> 'k) \<Rightarrow> 'r \<Rightarrow> 'r list \<Rightarrow> 'r list" where
  "tbl_put key r rows = tbl_del key (key r) rows @ [r]"

definition tbl_unique :: "('r \<Rightarrow> 'k) \<Rightarrow> 'r list \<Rightarrow> bool" where
  "tbl_unique key rows \<longleftrightarrow> distinct (map key rows)"

section \<open>Interfaces\<close>

text \<open>
  A self-delimiting byte codec: \<open>enc\<close> writes a value, \<open>dec\<close> reads one off the front of a
  stream and returns the rest. \<open>ok\<close> marks the values the encoder represents faithfully.
\<close>

locale stream_codec =
  fixes enc :: "'a \<Rightarrow> bytes"
    and dec :: "bytes \<Rightarrow> ('a \<times> bytes) option"
    and ok :: "'a \<Rightarrow> bool"
  assumes dec_enc: "ok x \<Longrightarrow> dec (enc x @ rest) = Some (x, rest)"
begin

lemma dec_enc_nil: "ok x \<Longrightarrow> dec (enc x) = Some (x, [])"
  using dec_enc [of x "[]"] by simp

lemma enc_inj_on: "ok x \<Longrightarrow> ok y \<Longrightarrow> enc x = enc y \<Longrightarrow> x = y"
  using dec_enc_nil by (metis Pair_inject option.inject)

lemma enc_prefix_free: "ok x \<Longrightarrow> ok y \<Longrightarrow> enc x @ r = enc y @ s \<Longrightarrow> x = y \<and> r = s"
  using dec_enc by (metis Pair_inject option.inject)

text \<open>Reading back a sequence of encoded values one after the other.\<close>

fun dec_many :: "nat \<Rightarrow> bytes \<Rightarrow> ('a list \<times> bytes) option" where
  "dec_many 0 s = Some ([], s)"
| "dec_many (Suc n) s =
     (case dec s of
        None \<Rightarrow> None
      | Some (x, s') \<Rightarrow> map_option (\<lambda>(xs, t). (x # xs, t)) (dec_many n s'))"

lemma dec_many_concat:
  "list_all ok xs \<Longrightarrow> dec_many (length xs) (concat (map enc xs) @ rest) = Some (xs, rest)"
  by (induction xs) (auto simp: dec_enc)

end

text \<open>
  A keyed store: what a lookup returns after each update. The tables of the access-control
  and provenance components and the in-memory role cache all implement it.
\<close>

locale keyed_store =
  fixes get :: "'s \<Rightarrow> 'k \<Rightarrow> 'v option"
    and put :: "'k \<Rightarrow> 'v \<Rightarrow> 's \<Rightarrow> 's"
    and del :: "'k \<Rightarrow> 's \<Rightarrow> 's"
  assumes get_put: "get (put k v s) k' = (if k' = k then Some v else get s k')"
    and get_del: "get (del k s) k' = (if k' = k then None else get s k')"
begin

lemma get_put_same: "get (put k v s) k = Some v"
  by (simp add: get_put)

lemma get_put_other: "k' \<noteq> k \<Longrightarrow> get (put k v s) k' = get s k'"
  by (simp add: get_put)

lemma get_del_same: "get (del k s) k = None"
  by (simp add: get_del)

lemma put_put_get: "get (put k v (put k w s)) = get (put k v s)"
  by (rule ext) (simp add: get_put)

lemma del_put_get: "get (del k (put k v s)) = get (del k s)"
  by (rule ext) (simp add: get_put get_del)

lemma put_commute_get: "k \<noteq> j \<Longrightarrow> get (put k v (put j w s)) = get (put j w (put k v s))"
  by (rule ext) (simp add: get_put)

end

section \<open>Facts about bytes\<close>

lemma length_le_bytes [simp, codec_simps]: "length (le_bytes n v) = n"
  by (induction n arbitrary: v) auto

lemma length_uN_le [simp, codec_simps]:
  "length (u16_le a) = 2" "length (u32_le b) = 4" "length (u64_le c) = 8"
  "length (i64_le i) = 8"
  by (simp_all add: u16_le_def u32_le_def u64_le_def i64_le_def)

lemma length_as_bytes [simp]: "length (as_bytes s) = length s"
  by (simp add: as_bytes_def)

lemma as_bytes_append [simp]: "as_bytes (s @ t) = as_bytes s @ as_bytes t"
  by (simp add: as_bytes_def)

lemma unat_mod_256 [simp]: "unat (word_of_nat (v mod 256) :: byte) = v mod 256"
  by (simp add: unat_of_nat)

lemma le_nat_le_bytes: "le_nat (le_bytes n v) = v mod 256 ^ n"
proof (induction n arbitrary: v)
  case (Suc n)
  then show ?case by (simp add: mod_mult2_eq mult.commute add.commute)
qed simp

lemma le_nat_less: "le_nat bs < 256 ^ length bs"
proof (induction bs)
  case (Cons b bs)
  have "unat b < 256" using unsigned_less [of b] by simp
  with Cons show ?case by simp
qed simp

lemma le_bytes_le_nat: "le_bytes (length bs) (le_nat bs) = bs"
proof (induction bs)
  case (Cons b bs)
  have b: "unat b < 256" using unsigned_less [of b] by simp
  then have "(unat b + 256 * le_nat bs) mod 256 = unat b" by simp
  moreover have "(unat b + 256 * le_nat bs) div 256 = le_nat bs" using b by simp
  ultimately show ?case using Cons by simp
qed simp

lemma le_bytes_inj: "a < 256 ^ n \<Longrightarrow> b < 256 ^ n \<Longrightarrow> le_bytes n a = le_bytes n b \<Longrightarrow> a = b"
  by (metis le_nat_le_bytes mod_less)

lemma u16_roundtrip [simp, codec_simps]: "le_u16 (u16_le w) = w"
proof -
  have "unat w < 65536" using unsigned_less [of w] by simp
  then show ?thesis by (simp add: le_u16_def u16_le_def le_nat_le_bytes)
qed

lemma u32_roundtrip [simp, codec_simps]: "le_u32 (u32_le w) = w"
proof -
  have "unat w < 4294967296" using unsigned_less [of w] by simp
  then show ?thesis by (simp add: le_u32_def u32_le_def le_nat_le_bytes)
qed

lemma u64_roundtrip [simp, codec_simps]: "le_u64 (u64_le w) = w"
proof -
  have "unat w < 18446744073709551616" using unsigned_less [of w] by simp
  then show ?thesis by (simp add: le_u64_def u64_le_def le_nat_le_bytes)
qed

lemma unat_u32_of_nat: "n < 2 ^ 32 \<Longrightarrow> unat (word_of_nat n :: u32) = n"
  by (simp add: unat_of_nat)

lemma unat_u64_of_nat: "n < 2 ^ 64 \<Longrightarrow> unat (word_of_nat n :: u64) = n"
  by (simp add: unat_of_nat)

lemma unat_ucast_u64: "unat (ucast (w :: u32) :: u64) = unat w"
proof -
  have "unat w < 2 ^ LENGTH(32)" by (rule unsigned_less)
  then have "unat w < 2 ^ 64" by simp
  then show ?thesis by (simp add: unsigned_ucast_eq take_bit_nat_eq_self)
qed

lemma u64_le_inj: "u64_le a = u64_le b \<longleftrightarrow> a = b"
  by (metis u64_roundtrip)

lemma i64_le_inj: "is_i64 a \<Longrightarrow> is_i64 b \<Longrightarrow> i64_le a = i64_le b \<Longrightarrow> a = b"
proof -
  assume ab: "is_i64 a" "is_i64 b" "i64_le a = i64_le b"
  then have "(word_of_int a :: u64) = word_of_int b"
    by (simp add: i64_le_def u64_le_inj)
  then have "sint (word_of_int a :: u64) = sint (word_of_int b :: u64)" by simp
  with ab show "a = b"
    by (simp add: is_i64_def signed_of_int signed_take_bit_int_eq_self)
qed

lemma as_bytes_inj: "as_bytes s = as_bytes t \<longleftrightarrow> s = t"
proof -
  have "inj (\<lambda>c. word_of_nat (of_char c) :: byte)"
  proof (rule injI)
    fix x y :: char
    assume "word_of_nat (of_char x) = (word_of_nat (of_char y) :: byte)"
    then have "unat (word_of_nat (of_char x) :: byte) = unat (word_of_nat (of_char y) :: byte)"
      by simp
    then have "(of_char x :: nat) mod 256 = of_char y mod 256"
      by (simp only: unat_of_nat) simp
    then show "x = y" by (simp only: of_char_mod_256 of_char_eq_iff)
  qed
  then show ?thesis by (simp add: as_bytes_def inj_map_eq_map)
qed

section \<open>Facts about streams and slices\<close>

lemma read_exact_append [simp, codec_simps]:
  "length a = n \<Longrightarrow> read_exact n (a @ s) = Some (a, s)"
  by (simp add: read_exact_def)

lemma read_exact_SomeD: "read_exact n s = Some (a, t) \<Longrightarrow> s = a @ t \<and> length a = n"
  by (auto simp: read_exact_def split: if_splits)

lemma read_exact_None: "read_exact n s = None \<longleftrightarrow> length s < n"
  by (auto simp: read_exact_def)

lemma length_slice [simp]: "j \<le> length bs \<Longrightarrow> length (slice bs i j) = j - i"
  by (simp add: slice_def)

lemma slice_append_left [simp]: "j \<le> length a \<Longrightarrow> slice (a @ b) i j = slice a i j"
  by (simp add: slice_def)

lemma slice_append_right [simp]:
  "length a \<le> i \<Longrightarrow> slice (a @ b) i j = slice b (i - length a) (j - length a)"
  by (simp add: slice_def)

lemma slice_all [simp]: "length bs \<le> j \<Longrightarrow> slice bs 0 j = bs"
  by (simp add: slice_def)

section \<open>Facts about keyed tables\<close>

lemma find_append: "find P (xs @ ys) = (case find P xs of None \<Rightarrow> find P ys | Some x \<Rightarrow> Some x)"
  by (induction xs) auto

lemma find_filter_neq:
  "find (\<lambda>r. key r = k') (filter (\<lambda>r. key r \<noteq> k) rows) =
     (if k' = k then None else find (\<lambda>r. key r = k') rows)"
  by (induction rows) auto

lemma tbl_get_del [table_simps]:
  "tbl_get key (tbl_del key k rows) k' = (if k' = k then None else tbl_get key rows k')"
  by (simp add: tbl_get_def tbl_del_def find_filter_neq)

lemma tbl_get_put [table_simps]:
  "tbl_get key (tbl_put key r rows) k' = (if k' = key r then Some r else tbl_get key rows k')"
proof (cases "k' = key r")
  case True
  then have "find (\<lambda>x. key x = k') (filter (\<lambda>x. key x \<noteq> key r) rows) = None"
    by (simp add: find_filter_neq)
  with True show ?thesis
    by (simp add: tbl_put_def tbl_get_def tbl_del_def find_append)
next
  case False
  then have "find (\<lambda>x. key x = k') (filter (\<lambda>x. key x \<noteq> key r) rows)
      = find (\<lambda>x. key x = k') rows"
    by (simp add: find_filter_neq)
  with False show ?thesis
    by (simp add: tbl_put_def tbl_get_def tbl_del_def find_append split: option.split)
qed

lemma tbl_get_Nil [table_simps]: "tbl_get key [] k = None"
  by (simp add: tbl_get_def)

lemma tbl_get_snoc [table_simps]:
  "tbl_get key (rows @ [r]) k =
     (case tbl_get key rows k of None \<Rightarrow> if key r = k then Some r else None | Some x \<Rightarrow> Some x)"
  by (simp add: tbl_get_def find_append split: option.split)

lemma tbl_get_SomeD: "tbl_get key rows k = Some r \<Longrightarrow> r \<in> set rows \<and> key r = k"
  by (auto simp: tbl_get_def find_Some_iff)

lemma tbl_get_Some_iff:
  "tbl_unique key rows \<Longrightarrow> tbl_get key rows k = Some r \<longleftrightarrow> r \<in> set rows \<and> key r = k"
  unfolding tbl_unique_def tbl_get_def
  by (induction rows) (auto simp: image_iff)

lemma tbl_get_None_iff: "tbl_get key rows k = None \<longleftrightarrow> k \<notin> key ` set rows"
  by (auto simp: tbl_get_def find_None_iff)

lemma tbl_get_absent: "k \<notin> key ` set rows \<Longrightarrow> tbl_get key rows k = None"
  by (simp add: tbl_get_None_iff)

lemma tbl_unique_del [table_simps]: "tbl_unique key rows \<Longrightarrow> tbl_unique key (tbl_del key k rows)"
  by (simp add: tbl_unique_def tbl_del_def distinct_map_filter)

lemma tbl_unique_put [table_simps]: "tbl_unique key rows \<Longrightarrow> tbl_unique key (tbl_put key r rows)"
  using tbl_unique_del [of key rows "key r"]
  by (auto simp: tbl_put_def tbl_unique_def tbl_del_def)

lemma set_tbl_put: "set (tbl_put key r rows) = insert r {x \<in> set rows. key x \<noteq> key r}"
  by (auto simp: tbl_put_def tbl_del_def)

section \<open>Auto-increment keys\<close>

lemma fold_max_le:
  fixes m :: int
  shows "(\<forall>x \<in> set xs. x \<le> m) \<Longrightarrow> fold max xs m = m"
  by (induction xs) (auto simp: max_absorb2)

end
