(* ===== verification/Hash_Links.thy ===== *)
theory Hash_Links
  imports Synapse_Prelude
begin

text \<open>
  Hash-linked sequences, the shape shared by the audit trail and by the provenance chain.
  The digest (BLAKE3, an external crate) is a parameter \<open>H\<close> throughout. Nothing here assumes
  that it is injective, which no 32-byte digest is: a statement that would need it names the
  inputs that were hashed and assumes that no two of them, taken pairwise, collide.
\<close>

text \<open>
  Two hash inputs at the same position that differ and still have the same digest.
\<close>

definition collision_in :: "(bytes \<Rightarrow> bytes) \<Rightarrow> bytes list \<Rightarrow> bytes list \<Rightarrow> bool" where
  "collision_in H xs ys \<longleftrightarrow> (\<exists>(x, y) \<in> set (zip xs ys). x \<noteq> y \<and> H x = H y)"

text \<open>The bytes hashed in place of the previous digest: 32 zero bytes when there is none.\<close>

definition or_zero :: "bytes option \<Rightarrow> bytes" where
  "or_zero p = (case p of None \<Rightarrow> replicate 32 0 | Some h \<Rightarrow> h)"

definition wf32 :: "bytes option \<Rightarrow> bool" where
  "wf32 p \<longleftrightarrow> (case p of None \<Rightarrow> True | Some h \<Rightarrow> length h = 32)"

lemma or_zero_simps [simp]:
  "or_zero None = replicate 32 0" "or_zero (Some h) = h"
  by (simp_all add: or_zero_def)

lemma wf32_simps [simp]: "wf32 None" "wf32 (Some h) \<longleftrightarrow> length h = 32"
  by (simp_all add: wf32_def)

lemma length_or_zero [simp]: "wf32 p \<Longrightarrow> length (or_zero p) = 32"
  by (cases p) simp_all

lemma collision_in_snoc:
  "length xs = length ys \<Longrightarrow>
     collision_in H (xs @ [x]) (ys @ [y]) \<longleftrightarrow> collision_in H xs ys \<or> (x \<noteq> y \<and> H x = H y)"
  by (auto simp: collision_in_def)

text \<open>
  The interface: how an entry and the previous digest are laid out as hash input. The law
  says which parts of them the input determines.
\<close>

locale hash_linked =
  fixes link_input :: "bytes option \<Rightarrow> 'e \<Rightarrow> bytes"
    and payload :: "'e \<Rightarrow> bytes"
  assumes link_inj:
    "wf32 p \<Longrightarrow> wf32 q \<Longrightarrow> link_input p e = link_input q f \<Longrightarrow>
       or_zero p = or_zero q \<and> payload e = payload f"
begin

text \<open>A sequence of entries with their stored digests, linked from \<open>p\<close>.\<close>

fun chained :: "(bytes \<Rightarrow> bytes) \<Rightarrow> bytes option \<Rightarrow> ('e \<times> bytes) list \<Rightarrow> bool" where
  "chained H p [] = True"
| "chained H p ((e, h) # xs) =
     (h = H (link_input p e) \<and> length h = 32 \<and> chained H (Some h) xs)"

fun tip :: "bytes option \<Rightarrow> ('e \<times> bytes) list \<Rightarrow> bytes option" where
  "tip p [] = p"
| "tip p ((e, h) # xs) = tip (Some h) xs"

lemma tip_snoc [simp]: "tip p (xs @ [(e, h)]) = Some h"
  by (induction p xs rule: tip.induct) auto

lemma wf32_tip: "wf32 p \<Longrightarrow> chained H p xs \<Longrightarrow> wf32 (tip p xs)"
  by (induction H p xs rule: chained.induct) auto

lemma chained_append:
  "chained H p (xs @ ys) \<longleftrightarrow> chained H p xs \<and> chained H (tip p xs) ys"
  by (induction H p xs rule: chained.induct) auto

text \<open>The inputs the digest was applied to, oldest first.\<close>

fun inputs :: "bytes option \<Rightarrow> ('e \<times> bytes) list \<Rightarrow> bytes list" where
  "inputs p [] = []"
| "inputs p ((e, h) # xs) = link_input p e # inputs (Some h) xs"

lemma length_inputs [simp]: "length (inputs p xs) = length xs"
  by (induction p xs rule: inputs.induct) auto

lemma inputs_append: "inputs p (xs @ ys) = inputs p xs @ inputs (tip p xs) ys"
  by (induction p xs rule: inputs.induct) auto

text \<open>The newest digest fixes the whole history, unless two of the hashed inputs collide.\<close>

lemma tip_binds:
  assumes "wf32 p" and "wf32 q"
    and "length xs = length ys"
    and "chained H p xs" and "chained H q ys"
    and "or_zero (tip p xs) = or_zero (tip q ys)"
    and "\<not> collision_in H (inputs p xs) (inputs q ys)"
  shows "map (payload \<circ> fst) xs = map (payload \<circ> fst) ys \<and> map snd xs = map snd ys
    \<and> or_zero p = or_zero q"
  using assms(3-7)
proof (induction xs arbitrary: ys rule: rev_induct)
  case Nil
  then show ?case by simp
next
  case (snoc x xs)
  obtain e h where x: "x = (e, h)" by (cases x)
  obtain ys' y where "ys = ys' @ [y]"
    using snoc.prems(1) by (cases ys rule: rev_cases) auto
  moreover obtain f k where "y = (f, k)" by (cases y)
  ultimately have ys: "ys = ys' @ [(f, k)]" by simp
  from snoc.prems x ys have len: "length xs = length ys'"
    and cx: "chained H p xs" and cy: "chained H q ys'"
    and eqs: "h = H (link_input (tip p xs) e)" "k = H (link_input (tip q ys') f)" "h = k"
    by (auto simp: chained_append)
  from snoc.prems(5) x ys
  have "\<not> collision_in H (inputs p xs @ [link_input (tip p xs) e])
      (inputs q ys' @ [link_input (tip q ys') f])"
    by (simp add: inputs_append)
  with len eqs have nc: "\<not> collision_in H (inputs p xs) (inputs q ys')"
    and "link_input (tip p xs) e = link_input (tip q ys') f"
    by (simp_all add: collision_in_snoc)
  then have "or_zero (tip p xs) = or_zero (tip q ys') \<and> payload e = payload f"
    using link_inj [OF wf32_tip [OF assms(1) cx] wf32_tip [OF assms(2) cy]] by blast
  with snoc.IH [OF len cx cy _ nc] eqs(3) show ?case by (simp add: x ys)
qed

end

end
