(* ===== verification/Audit_Trail.thy ===== *)
theory Audit_Trail
  imports Hash_Links
begin

text \<open>
  The append-only audit trail of \<^verbatim>\<open>crates/synapse-audit/src/lib.rs\<close>. The table
  \<^verbatim>\<open>audit_events\<close> is the list of its rows together with SQLite's \<^verbatim>\<open>AUTOINCREMENT\<close> counter;
  columns keep their stored form (\<open>action\<close> is text, digests are byte strings of any length),
  so that a database edited behind the program's back is a value of the model too. The
  wall clock (\<^verbatim>\<open>Utc::now\<close>) and the digest (\<^verbatim>\<open>blake3\<close>) are arguments.
\<close>

section \<open>Data\<close>

datatype audit_action = ActRead | ActWrite | ActDelete | ActGrant | ActRevoke

fun action_as_str :: "audit_action \<Rightarrow> string" where
  "action_as_str ActRead = ''read''"
| "action_as_str ActWrite = ''write''"
| "action_as_str ActDelete = ''delete''"
| "action_as_str ActGrant = ''grant''"
| "action_as_str ActRevoke = ''revoke''"

definition action_from_str :: "string \<Rightarrow> audit_action option" where
  "action_from_str s =
     (if s = ''read'' then Some ActRead
      else if s = ''write'' then Some ActWrite
      else if s = ''delete'' then Some ActDelete
      else if s = ''grant'' then Some ActGrant
      else if s = ''revoke'' then Some ActRevoke
      else None)"

text \<open>\<open>APanic\<close> is the panic of \<^verbatim>\<open>copy_from_slice\<close> on a blob that is not 32 bytes long;
  \<open>ASqlite\<close> is the \<^verbatim>\<open>SQLITE_FULL\<close> error of an exhausted \<^verbatim>\<open>AUTOINCREMENT\<close> key.\<close>

datatype audit_error = ASqlite | BrokenChain int bytes bytes | AEmpty | APanic

record audit_row =
  ev_id :: int
  ev_ts :: int
  ev_actor :: string
  ev_action :: string
  ev_target :: string
  ev_space :: "string option"
  ev_meta :: "string option"
  ev_prev :: "bytes option"
  ev_hash :: bytes

record audit_event =
  ae_id :: int
  ae_ts :: int
  ae_actor :: string
  ae_action :: audit_action
  ae_target :: string
  ae_space :: "string option"
  ae_meta :: "string option"
  ae_prev :: "bytes option"
  ae_hash :: bytes

record audit_db =
  audit_events :: "audit_row list"
  audit_seq :: int

section \<open>Operations\<close>

definition audit_init_schema :: "audit_db option \<Rightarrow> audit_db" where
  "audit_init_schema existing =
     (case existing of None \<Rightarrow> \<lparr>audit_events = [], audit_seq = 0\<rparr> | Some db \<Rightarrow> db)"

definition opt_bytes :: "string option \<Rightarrow> bytes" where
  "opt_bytes s = (case s of None \<Rightarrow> [] | Some t \<Rightarrow> as_bytes t)"

definition event_input :: "int \<Rightarrow> string \<Rightarrow> string \<Rightarrow> string \<Rightarrow> string option \<Rightarrow> string option \<Rightarrow>
    bytes option \<Rightarrow> bytes" where
  "event_input ts actor action target spc meta prev =
     or_zero prev @ i64_le ts @ as_bytes actor @ as_bytes action @ as_bytes target @
     opt_bytes spc @ opt_bytes meta"

definition event_hash :: "(bytes \<Rightarrow> bytes) \<Rightarrow> int \<Rightarrow> string \<Rightarrow> string \<Rightarrow> string \<Rightarrow> string option \<Rightarrow>
    string option \<Rightarrow> bytes option \<Rightarrow> bytes" where
  "event_hash H ts actor action target spc meta prev =
     H (event_input ts actor action target spc meta prev)"

text \<open>\<^verbatim>\<open>ORDER BY id ASC\<close>.\<close>

definition rows_by_id :: "audit_db \<Rightarrow> audit_row list" where
  "rows_by_id db = sort_key ev_id (audit_events db)"

definition last_hash :: "audit_db \<Rightarrow> audit_error + bytes option" where
  "last_hash db =
     (case rev (rows_by_id db) of
        [] \<Rightarrow> Inr None
      | r # _ \<Rightarrow> if length (ev_hash r) = 32 then Inr (Some (ev_hash r)) else Inl APanic)"

text \<open>\<^verbatim>\<open>AUTOINCREMENT\<close>: one more than the largest key ever used.\<close>

definition audit_next_id :: "audit_db \<Rightarrow> int" where
  "audit_next_id db = fold max (map ev_id (audit_events db)) (audit_seq db) + 1"

definition audit_append :: "(bytes \<Rightarrow> bytes) \<Rightarrow> int \<Rightarrow> audit_db \<Rightarrow> string \<Rightarrow> audit_action \<Rightarrow> string \<Rightarrow>
    string option \<Rightarrow> string option \<Rightarrow> audit_error + (int \<times> audit_db)" where
  "audit_append H now db actor action target spc meta =
     (case last_hash db of
        Inl e \<Rightarrow> Inl e
      | Inr prev \<Rightarrow>
          let h = event_hash H now actor (action_as_str action) target spc meta prev;
              i = audit_next_id db
          in if i < 2 ^ 63 then
               Inr (i, db\<lparr>audit_events := audit_events db @
                      [\<lparr>ev_id = i, ev_ts = now, ev_actor = actor,
                        ev_action = action_as_str action, ev_target = target, ev_space = spc,
                        ev_meta = meta, ev_prev = prev, ev_hash = h\<rparr>],
                    audit_seq := i\<rparr>)
             else Inl ASqlite)"

definition row_to_event :: "audit_row \<Rightarrow> audit_error + audit_event" where
  "row_to_event r =
     (if length (ev_hash r) \<noteq> 32 \<or> \<not> wf32 (ev_prev r) then Inl APanic
      else Inr \<lparr>ae_id = ev_id r, ae_ts = ev_ts r, ae_actor = ev_actor r,
        ae_action = (case action_from_str (ev_action r) of None \<Rightarrow> ActRead | Some a \<Rightarrow> a),
        ae_target = ev_target r, ae_space = ev_space r, ae_meta = ev_meta r,
        ae_prev = ev_prev r, ae_hash = ev_hash r\<rparr>)"

fun collect_events :: "audit_row list \<Rightarrow> audit_error + audit_event list" where
  "collect_events [] = Inr []"
| "collect_events (r # rs) =
     (case row_to_event r of
        Inl e \<Rightarrow> Inl e
      | Inr ev \<Rightarrow> (case collect_events rs of Inl e \<Rightarrow> Inl e | Inr evs \<Rightarrow> Inr (ev # evs)))"

definition query_range :: "audit_db \<Rightarrow> int \<Rightarrow> int \<Rightarrow> audit_error + audit_event list" where
  "query_range db since until =
     collect_events (filter (\<lambda>r. since \<le> ev_ts r \<and> ev_ts r < until) (rows_by_id db))"

fun verify_rows :: "(bytes \<Rightarrow> bytes) \<Rightarrow> bytes option \<Rightarrow> audit_row list \<Rightarrow> audit_error + unit" where
  "verify_rows H prev [] = Inr ()"
| "verify_rows H prev (r # rs) =
     (if length (ev_hash r) \<noteq> 32 then Inl APanic
      else
        let got = ev_hash r;
            expected = event_hash H (ev_ts r) (ev_actor r) (ev_action r) (ev_target r)
              (ev_space r) (ev_meta r) prev
        in if expected \<noteq> got then Inl (BrokenChain (ev_id r) expected got)
           else if \<not> wf32 (ev_prev r) then Inl APanic
           else if ev_prev r \<noteq> prev
             then Inl (BrokenChain (ev_id r) (or_zero prev) (or_zero (ev_prev r)))
           else verify_rows H (Some got) rs)"

definition audit_verify_chain :: "(bytes \<Rightarrow> bytes) \<Rightarrow> audit_db \<Rightarrow> audit_error + unit" where
  "audit_verify_chain H db = verify_rows H None (rows_by_id db)"

definition audit_count :: "audit_db \<Rightarrow> int" where
  "audit_count db = int (length (audit_events db))"

text \<open>The databases the program itself can produce: a fresh schema and appends.\<close>

inductive audit_reachable :: "(bytes \<Rightarrow> bytes) \<Rightarrow> audit_db \<Rightarrow> bool" for H where
  fresh: "audit_reachable H (audit_init_schema None)"
| append: "audit_reachable H db \<Longrightarrow> is_i64 now \<Longrightarrow>
     audit_append H now db actor action target spc meta = Inr (i, db') \<Longrightarrow>
     audit_reachable H db'"

inductive_cases audit_reachableE: "audit_reachable H db"

text \<open>The hash inputs of a table in id order, and what one row contributes to its input.\<close>

fun audit_inputs :: "bytes option \<Rightarrow> audit_row list \<Rightarrow> bytes list" where
  "audit_inputs prev [] = []"
| "audit_inputs prev (r # rs) =
     event_input (ev_ts r) (ev_actor r) (ev_action r) (ev_target r) (ev_space r) (ev_meta r) prev
     # audit_inputs (Some (ev_hash r)) rs"

definition audit_payload :: "audit_row \<Rightarrow> bytes" where
  "audit_payload r = i64_le (ev_ts r) @ as_bytes (ev_actor r) @ as_bytes (ev_action r) @
     as_bytes (ev_target r) @ opt_bytes (ev_space r) @ opt_bytes (ev_meta r)"

definition audit_link :: "bytes option \<Rightarrow> audit_row \<Rightarrow> bytes" where
  "audit_link prev r = or_zero prev @ audit_payload r"

text \<open>The invariant of a table the program has written: keys ascend, the counter bounds
  them, every stored action is one of the five, and the chain verifies.\<close>

definition audit_inv :: "(bytes \<Rightarrow> bytes) \<Rightarrow> audit_db \<Rightarrow> bool" where
  "audit_inv H db \<longleftrightarrow>
     sorted_wrt (<) (map ev_id (audit_events db)) \<and>
     (\<forall>r \<in> set (audit_events db). 0 < ev_id r \<and> ev_id r \<le> audit_seq db \<and>
        action_from_str (ev_action r) \<noteq> None) \<and>
     0 \<le> audit_seq db \<and>
     verify_rows H None (audit_events db) = Inr ()"

section \<open>The chain\<close>

interpretation audit_chain: hash_linked audit_link audit_payload
  by unfold_locales (auto simp: audit_link_def dest: append_eq_append_conv [THEN iffD1, rotated])

lemma event_input_link:
  "event_input (ev_ts r) (ev_actor r) (ev_action r) (ev_target r) (ev_space r) (ev_meta r) prev
     = audit_link prev r"
  by (simp add: event_input_def audit_link_def audit_payload_def)

abbreviation linked :: "audit_row list \<Rightarrow> (audit_row \<times> bytes) list" where
  "linked rs \<equiv> map (\<lambda>r. (r, ev_hash r)) rs"

lemma audit_inputs_linked: "audit_inputs p rs = audit_chain.inputs p (linked rs)"
  by (induction p rs rule: audit_inputs.induct) (simp_all add: event_input_link)

lemma verify_rows_append:
  "verify_rows H p (rs @ ss) =
     (case verify_rows H p rs of
        Inl e \<Rightarrow> Inl e
      | Inr _ \<Rightarrow> verify_rows H (audit_chain.tip p (linked rs)) ss)"
  by (induction H p rs rule: verify_rows.induct) (auto simp: Let_def split: sum.split)

lemma verify_rows_chained:
  "verify_rows H p rs = Inr () \<Longrightarrow> audit_chain.chained H p (linked rs)"
  by (induction H p rs rule: verify_rows.induct)
    (auto simp: Let_def event_hash_def event_input_link split: if_splits)

lemma verify_rows_snocI:
  assumes "verify_rows H p rs = Inr ()" and "wf32 p" and "\<And>x. length (H x) = 32"
    and "ev_prev r = audit_chain.tip p (linked rs)"
    and "ev_hash r = H (audit_link (ev_prev r) r)"
  shows "verify_rows H p (rs @ [r]) = Inr ()"
proof -
  have "wf32 (ev_prev r)"
    using audit_chain.wf32_tip [OF assms(2) verify_rows_chained [OF assms(1)]] assms(4) by simp
  with assms show ?thesis
    by (simp add: verify_rows_append Let_def event_hash_def event_input_link)
qed

lemma rows_by_id_sorted:
  "sorted_wrt (<) (map ev_id (audit_events db)) \<Longrightarrow> rows_by_id db = audit_events db"
  by (simp add: rows_by_id_def sort_key_id_if_sorted strict_sorted_imp_sorted)

lemma audit_tip_last:
  "audit_chain.tip None (linked rs) = (if rs = [] then None else Some (ev_hash (last rs)))"
  by (cases rs rule: rev_cases) simp_all

lemma audit_inv_next_id: "audit_inv H db \<Longrightarrow> audit_next_id db = audit_seq db + 1"
  by (simp add: audit_next_id_def audit_inv_def fold_max_le)

lemma action_roundtrip [simp]: "action_from_str (action_as_str a) = Some a"
  by (cases a) (simp_all add: action_from_str_def)

lemma audit_inv_last_hash:
  assumes "audit_inv H db"
  shows "last_hash db = Inr (audit_chain.tip None (linked (audit_events db)))"
proof (cases "audit_events db" rule: rev_cases)
  case Nil
  then show ?thesis by (simp add: last_hash_def rows_by_id_def)
next
  case (snoc rs r)
  from assms have "verify_rows H None (rs @ [r]) = Inr ()"
    and rows: "rows_by_id db = rs @ [r]"
    using snoc by (simp_all add: audit_inv_def rows_by_id_sorted)
  then have "length (ev_hash r) = 32"
    by (auto simp: verify_rows_append Let_def split: sum.splits if_splits)
  with rows snoc show ?thesis by (simp add: last_hash_def)
qed

lemma audit_inv_fresh: "audit_inv H (audit_init_schema None)"
  by (simp add: audit_inv_def audit_init_schema_def)

lemma audit_append_inv:
  assumes inv: "audit_inv H db" and H: "\<And>x. length (H x) = 32"
    and app: "audit_append H now db actor action target spc meta = Inr (i, db')"
  shows "audit_inv H db'"
proof -
  let ?p = "audit_chain.tip None (linked (audit_events db))"
  let ?r = "\<lparr>ev_id = audit_seq db + 1, ev_ts = now, ev_actor = actor,
      ev_action = action_as_str action, ev_target = target, ev_space = spc, ev_meta = meta,
      ev_prev = ?p,
      ev_hash = event_hash H now actor (action_as_str action) target spc meta ?p\<rparr>"
  from app inv have db': "db' = db\<lparr>audit_events := audit_events db @ [?r], audit_seq := audit_seq db + 1\<rparr>"
    by (auto simp: audit_append_def audit_inv_last_hash audit_inv_next_id Let_def split: if_splits)
  from inv have "verify_rows H None (audit_events db) = Inr ()" by (simp add: audit_inv_def)
  then have "verify_rows H None (audit_events db @ [?r]) = Inr ()"
    by (rule verify_rows_snocI) (simp_all add: H event_hash_def event_input_link [symmetric])
  moreover have "\<forall>r \<in> set (audit_events db). ev_id r < audit_seq db + 1"
    using inv by (auto simp: audit_inv_def)
  ultimately show ?thesis
    using inv by (auto simp: audit_inv_def db' sorted_wrt_append)
qed

lemma audit_reachable_inv:
  assumes "audit_reachable H db" and "\<And>x. length (H x) = 32"
  shows "audit_inv H db"
  using assms(1)
  by (induction rule: audit_reachable.induct) (auto intro: audit_inv_fresh audit_append_inv assms(2))

lemma verify_chain_rows:
  "audit_verify_chain H db = Inr () \<Longrightarrow> last_hash db = last_hash db' \<Longrightarrow>
   audit_verify_chain H db' = Inr () \<Longrightarrow>
   audit_chain.tip None (linked (rows_by_id db)) = audit_chain.tip None (linked (rows_by_id db'))"
  by (cases "rows_by_id db" rule: rev_cases; cases "rows_by_id db'" rule: rev_cases)
    (auto simp: audit_verify_chain_def last_hash_def verify_rows_append Let_def
      split: sum.splits if_splits)

lemma verify_rows_prefix: "verify_rows H p (rs @ ss) = Inr () \<Longrightarrow> verify_rows H p rs = Inr ()"
  by (cases "verify_rows H p rs") (simp_all add: verify_rows_append)

lemma opt_bytes_simps [simp]: "opt_bytes None = []" "opt_bytes (Some t) = as_bytes t"
  by (simp_all add: opt_bytes_def)

text \<open>The fields of a row the verifier looks at.\<close>

definition same_check :: "audit_row \<Rightarrow> audit_row \<Rightarrow> bool" where
  "same_check r s \<longleftrightarrow> ev_id r = ev_id s \<and> audit_payload r = audit_payload s \<and>
     ev_prev r = ev_prev s \<and> ev_hash r = ev_hash s"

lemma verify_rows_same_check:
  "list_all2 same_check rs ss \<Longrightarrow> verify_rows H p rs = verify_rows H p ss"
proof (induction rs ss arbitrary: p rule: list_all2_induct)
  case (Cons r rs s ss)
  then show ?case
    by (auto simp: same_check_def Let_def event_hash_def event_input_link audit_link_def)
qed simp

lemma insort_key_same_check:
  "same_check r s \<Longrightarrow> list_all2 same_check rs ss \<Longrightarrow>
     list_all2 same_check (insort_key ev_id r rs) (insort_key ev_id s ss)"
proof (induction rs arbitrary: ss)
  case Nil
  then show ?case by simp
next
  case (Cons a rs)
  then obtain b ss' where "ss = b # ss'" "same_check a b" "list_all2 same_check rs ss'"
    by (auto simp: list_all2_Cons1)
  with Cons show ?case by (auto simp: same_check_def)
qed

lemma sort_key_same_check:
  "list_all2 same_check rs ss \<Longrightarrow>
     list_all2 same_check (sort_key ev_id rs) (sort_key ev_id ss)"
  unfolding sort_key_def
  by (induction rs ss rule: list_all2_induct) (auto intro: insort_key_same_check)

lemma collect_events_map:
  "(\<forall>r \<in> set rs. length (ev_hash r) = 32 \<and> wf32 (ev_prev r) \<and> row_to_event r = Inr (f r)) \<Longrightarrow>
     collect_events rs = Inr (map f rs)"
  by (induction rs) auto

lemma verify_rows_row_ok:
  "verify_rows H p rs = Inr () \<Longrightarrow> r \<in> set rs \<Longrightarrow> length (ev_hash r) = 32 \<and> wf32 (ev_prev r)"
  by (induction H p rs rule: verify_rows.induct) (auto simp: Let_def split: if_splits)

text \<open>What a well-formed row looks like to a caller of \<^verbatim>\<open>query_range\<close>.\<close>

definition event_of_row :: "audit_row \<Rightarrow> audit_event" where
  "event_of_row r =
     \<lparr>ae_id = ev_id r, ae_ts = ev_ts r, ae_actor = ev_actor r,
      ae_action = the (action_from_str (ev_action r)),
      ae_target = ev_target r, ae_space = ev_space r, ae_meta = ev_meta r,
      ae_prev = ev_prev r, ae_hash = ev_hash r\<rparr>"

lemma audit_inv_row_to_event:
  assumes "audit_inv H db" and "r \<in> set (audit_events db)"
  shows "row_to_event r = Inr (event_of_row r)"
  using assms verify_rows_row_ok [of H None "audit_events db" r]
  by (auto simp: audit_inv_def row_to_event_def event_of_row_def)

section \<open>Properties\<close>

text \<open>
  C3. Every database the program can produce by creating the schema and appending events, in
  any number and with any contents, passes \<^verbatim>\<open>verify_chain\<close>. The digest is only assumed to
  return 32 bytes.
\<close>

theorem audit_reachable_verifies:
  assumes "\<forall>x. length (H x) = 32" and "audit_reachable H db"
  shows "audit_verify_chain H db = Inr ()"
  using audit_reachable_inv [OF assms(2)] assms(1)
  by (simp add: audit_verify_chain_def rows_by_id_sorted audit_inv_def)

definition toy_digest :: "bytes \<Rightarrow> bytes" where
  "toy_digest x = replicate 32 (word_of_nat (length x))"

definition audit_db1 :: audit_db where
  "audit_db1 = snd (projr (audit_append toy_digest 1700000000 (audit_init_schema None)
     ''alice'' ActWrite ''doc1'' (Some ''acme'') None))"

lemma length_toy_digest [simp]: "length (toy_digest x) = 32"
  by (simp add: toy_digest_def)

lemmas audit_eval = audit_append_def audit_init_schema_def last_hash_def rows_by_id_def
  audit_next_id_def audit_verify_chain_def event_hash_def Let_def

lemma audit_db1_reachable: "audit_reachable toy_digest audit_db1"
proof (rule audit_reachable.append [OF audit_reachable.fresh])
  show "audit_append toy_digest 1700000000 (audit_init_schema None) ''alice'' ActWrite ''doc1''
      (Some ''acme'') None = Inr (1, audit_db1)"
    by (simp add: audit_db1_def audit_eval)
qed (simp add: is_i64_def)

theorem audit_reachable_verifies_witness:
  "(\<forall>x. length (toy_digest x) = 32) \<and> audit_reachable toy_digest audit_db1 \<and>
   audit_verify_chain toy_digest audit_db1 = Inr ()"
  using audit_reachable_verifies [OF _ audit_db1_reachable] audit_db1_reachable by simp

text \<open>
  C13. The newest digest commits to the whole trail. Two databases that both verify, hold the
  same number of events and end in the same digest carry, event by event, the same hashed
  content and the same digests, unless two of the inputs hashed at the same position are a
  collision of the digest.
\<close>

theorem audit_tip_commits:
  assumes "audit_verify_chain H db = Inr ()" and "audit_verify_chain H db' = Inr ()"
    and "audit_count db = audit_count db'"
    and "last_hash db = last_hash db'"
    and "\<not> collision_in H (audit_inputs None (rows_by_id db)) (audit_inputs None (rows_by_id db'))"
  shows "map audit_payload (rows_by_id db) = map audit_payload (rows_by_id db') \<and>
         map ev_hash (rows_by_id db) = map ev_hash (rows_by_id db')"
proof -
  have len: "length (linked (rows_by_id db)) = length (linked (rows_by_id db'))"
    using assms(3) by (simp add: audit_count_def rows_by_id_def)
  have ch: "audit_chain.chained H None (linked (rows_by_id db))"
    "audit_chain.chained H None (linked (rows_by_id db'))"
    using assms(1,2) by (simp_all add: audit_verify_chain_def verify_rows_chained)
  have tip: "or_zero (audit_chain.tip None (linked (rows_by_id db)))
      = or_zero (audit_chain.tip None (linked (rows_by_id db')))"
    using verify_chain_rows [OF assms(1,4,2)] by simp
  show ?thesis
    using audit_chain.tip_binds [OF _ _ len ch tip] assms(5)
    by (simp add: audit_inputs_linked comp_def)
qed

definition audit_db1' :: audit_db where
  "audit_db1' = audit_db1\<lparr>audit_events :=
     map (\<lambda>r. r\<lparr>ev_target := ''doc'', ev_space := Some ''1acme''\<rparr>) (audit_events audit_db1)\<rparr>"

theorem audit_tip_commits_witness:
  "map audit_payload (rows_by_id audit_db1) = map audit_payload (rows_by_id audit_db1') \<and>
   map ev_hash (rows_by_id audit_db1) = map ev_hash (rows_by_id audit_db1')"
  by (rule audit_tip_commits [where H = toy_digest])
    (simp_all add: audit_db1_def audit_db1'_def audit_eval audit_count_def collision_in_def
      event_input_def as_bytes_def)

text \<open>
  The hash input has no field separators, so the boundary between \<^verbatim>\<open>target\<close> and
  \<^verbatim>\<open>space\<close> is not covered by the chain: moving bytes from one to the other in any stored row
  of any database leaves the verdict of \<^verbatim>\<open>verify_chain\<close> as it was, for every digest.
\<close>

theorem audit_boundary_undetected:
  assumes "audit_events db = rs @ r # ss"
    and "ev_target r = t @ u" and "ev_space r = Some v"
  shows "audit_verify_chain H
      (db\<lparr>audit_events := rs @ r\<lparr>ev_target := t, ev_space := Some (u @ v)\<rparr> # ss\<rparr>)
    = audit_verify_chain H db"
proof -
  let ?r = "r\<lparr>ev_target := t, ev_space := Some (u @ v)\<rparr>"
  have "same_check ?r r" and refl: "same_check x x" for x
    using assms by (simp_all add: same_check_def audit_payload_def)
  then have "list_all2 same_check (rs @ ?r # ss) (rs @ r # ss)"
    by (intro list_all2_appendI list_all2_Cons [THEN iffD2] conjI list_all2_refl) auto
  then show ?thesis
    using verify_rows_same_check [OF sort_key_same_check]
    by (simp add: audit_verify_chain_def rows_by_id_def assms(1))
qed

theorem audit_boundary_undetected_witness:
  "audit_verify_chain toy_digest audit_db1' = Inr () \<and> audit_db1' \<noteq> audit_db1"
proof -
  obtain r where r: "audit_events audit_db1 = [] @ r # []" "ev_target r = ''doc'' @ ''1''"
    "ev_space r = Some ''acme''"
    by (simp add: audit_db1_def audit_eval)
  have "audit_verify_chain toy_digest audit_db1 = Inr ()"
    by (simp add: audit_db1_def audit_eval)
  then have "audit_verify_chain toy_digest audit_db1' = Inr ()"
    using audit_boundary_undetected [OF r, of toy_digest] r by (simp add: audit_db1'_def)
  moreover have "audit_events audit_db1' \<noteq> audit_events audit_db1"
    by (simp add: audit_db1_def audit_db1'_def audit_eval)
  then have "audit_db1' \<noteq> audit_db1" by auto
  ultimately show ?thesis ..
qed

text \<open>
  The chain has no anchor outside the table: dropping any number of the newest events of a
  database that verifies leaves a database that verifies.
\<close>

theorem audit_truncation_undetected:
  assumes "audit_verify_chain H db = Inr ()"
  shows "audit_verify_chain H (db\<lparr>audit_events := take n (rows_by_id db)\<rparr>) = Inr ()"
proof -
  have "sorted (map ev_id (take n (rows_by_id db)))"
    by (simp add: rows_by_id_def flip: take_map)
  then have "rows_by_id (db\<lparr>audit_events := take n (rows_by_id db)\<rparr>) = take n (rows_by_id db)"
    by (simp add: rows_by_id_def sort_key_id_if_sorted)
  moreover have "verify_rows H None (take n (rows_by_id db)) = Inr ()"
  proof (rule verify_rows_prefix)
    show "verify_rows H None (take n (rows_by_id db) @ drop n (rows_by_id db)) = Inr ()"
      using assms by (simp add: audit_verify_chain_def)
  qed
  ultimately show ?thesis by (simp add: audit_verify_chain_def)
qed

theorem audit_truncation_undetected_witness:
  "audit_verify_chain toy_digest (audit_db1\<lparr>audit_events := take 0 (rows_by_id audit_db1)\<rparr>) = Inr ()"
  by (rule audit_truncation_undetected) (simp add: audit_db1_def audit_eval)

text \<open>
  On a database the program has produced, \<^verbatim>\<open>query_range\<close> returns exactly the events with
  \<open>since \<le> ts < until\<close>, in id order, each with the action that was appended; ids ascend
  strictly and no row makes the reader panic.
\<close>

theorem audit_query_range_exact:
  assumes "\<forall>x. length (H x) = 32" and "audit_reachable H db"
  shows "query_range db since until =
      Inr (map event_of_row (filter (\<lambda>r. since \<le> ev_ts r \<and> ev_ts r < until) (audit_events db)))
    \<and> sorted_wrt (<) (map ev_id (audit_events db))
    \<and> (\<forall>r \<in> set (audit_events db). \<exists>a. ev_action r = action_as_str a \<and> ae_action (event_of_row r) = a)"
proof -
  have inv: "audit_inv H db" using audit_reachable_inv [OF assms(2)] assms(1) by simp
  then have sorted: "sorted_wrt (<) (map ev_id (audit_events db))" by (simp add: audit_inv_def)
  have "\<forall>r \<in> set (audit_events db). length (ev_hash r) = 32 \<and> wf32 (ev_prev r) \<and>
      row_to_event r = Inr (event_of_row r)"
    using audit_inv_row_to_event [OF inv] verify_rows_row_ok [of H None "audit_events db"] inv
    by (simp add: audit_inv_def)
  then have "query_range db since until =
      Inr (map event_of_row (filter (\<lambda>r. since \<le> ev_ts r \<and> ev_ts r < until) (audit_events db)))"
    by (simp add: query_range_def rows_by_id_sorted [OF sorted] collect_events_map)
  moreover have "\<exists>a. ev_action r = action_as_str a \<and> ae_action (event_of_row r) = a"
    if "r \<in> set (audit_events db)" for r
  proof -
    from inv that obtain a where a: "action_from_str (ev_action r) = Some a"
      by (auto simp: audit_inv_def)
    then have "ev_action r = action_as_str a"
      by (auto simp: action_from_str_def split: if_splits)
    with a show ?thesis by (auto simp: event_of_row_def)
  qed
  ultimately show ?thesis using sorted by blast
qed

theorem audit_query_range_exact_witness:
  "query_range audit_db1 0 2000000000 = Inr (map event_of_row (audit_events audit_db1)) \<and>
   length (audit_events audit_db1) = 1"
proof -
  have "query_range audit_db1 0 2000000000 = Inr (map event_of_row
      (filter (\<lambda>r. 0 \<le> ev_ts r \<and> ev_ts r < 2000000000) (audit_events audit_db1)))"
    using audit_query_range_exact [OF _ audit_db1_reachable] by simp
  then show ?thesis
    by (simp add: audit_db1_def audit_eval)
qed

end
