(* ===== verification/Access_Control.thy ===== *)
theory Access_Control
  imports Synapse_Prelude
begin

text \<open>
  Multi-tenant spaces and role-based access control, \<^verbatim>\<open>crates/synapse-rbac/src/lib.rs\<close>: the two
  SQL tables, the operations on them, the permission check \<^verbatim>\<open>enforce\<close>, and the in-memory role
  cache with \<^verbatim>\<open>enforce_cached\<close>. Roles are stored as text, as the schema has them. Whether the
  SQLite connection enforces foreign keys depends on how SQLite was built, so it is a field of
  the model. Each operation returns its result and the database it leaves behind, because a
  statement that fails after an earlier one succeeded does not undo it.
\<close>

section \<open>Data\<close>

datatype role = Owner | Editor | Reader
datatype permission = PermRead | PermWrite | PermDelete | PermAdmin

fun role_as_str :: "role \<Rightarrow> string" where
  "role_as_str Owner = ''owner''"
| "role_as_str Editor = ''editor''"
| "role_as_str Reader = ''reader''"

fun role_grants :: "role \<Rightarrow> permission \<Rightarrow> bool" where
  "role_grants Owner _ = True"
| "role_grants Editor PermRead = True"
| "role_grants Editor PermWrite = True"
| "role_grants Reader PermRead = True"
| "role_grants _ _ = False"

definition role_from_str :: "string \<Rightarrow> role option" where
  "role_from_str s =
     (if s = ''owner'' then Some Owner
      else if s = ''editor'' then Some Editor
      else if s = ''reader'' then Some Reader
      else None)"

datatype rbac_error =
    SpaceNotFound string
  | NoAccess string string
  | Denied permission string "role option"
  | RSqlite
  | InvalidRole string

record space =
  sp_id :: int
  sp_name :: string
  sp_owner :: string
  sp_created_at :: int

record role_row =
  rr_space_id :: int
  rr_user_id :: string
  rr_role :: string
  rr_granted_at :: int
  rr_granted_by :: string

record rbac_role =
  ro_space_id :: int
  ro_user_id :: string
  ro_role :: role
  ro_granted_at :: int
  ro_granted_by :: string

record rbac_db =
  spaces :: "space list"
  spaces_seq :: int
  rbac_roles :: "role_row list"
  foreign_keys :: bool

section \<open>Operations on the tables\<close>

definition rbac_init_schema :: "bool \<Rightarrow> rbac_db option \<Rightarrow> rbac_db" where
  "rbac_init_schema fk existing =
     (case existing of
        None \<Rightarrow> \<lparr>spaces = [], spaces_seq = 0, rbac_roles = [], foreign_keys = fk\<rparr>
      | Some db \<Rightarrow> db)"

definition role_key :: "role_row \<Rightarrow> int \<times> string" where
  "role_key r = (rr_space_id r, rr_user_id r)"

definition spaces_next_id :: "rbac_db \<Rightarrow> int" where
  "spaces_next_id db = fold max (map sp_id (spaces db)) (spaces_seq db) + 1"

definition create_space :: "int \<Rightarrow> rbac_db \<Rightarrow> string \<Rightarrow> string \<Rightarrow> (rbac_error + space) \<times> rbac_db" where
  "create_space now db name owner =
     (let i = spaces_next_id db;
          sp = \<lparr>sp_id = i, sp_name = name, sp_owner = owner, sp_created_at = now\<rparr>;
          row = \<lparr>rr_space_id = i, rr_user_id = owner, rr_role = ''owner'',
                 rr_granted_at = now, rr_granted_by = owner\<rparr>
      in if name \<in> sp_name ` set (spaces db) \<or> \<not> i < 2 ^ 63 then (Inl RSqlite, db)
         else
           let db1 = db\<lparr>spaces := spaces db @ [sp], spaces_seq := i\<rparr>
           in if role_key row \<in> role_key ` set (rbac_roles db1) then (Inl RSqlite, db1)
              else (Inr sp, db1\<lparr>rbac_roles := rbac_roles db1 @ [row]\<rparr>))"

definition lookup_space :: "rbac_db \<Rightarrow> string \<Rightarrow> space option" where
  "lookup_space db name = tbl_get sp_name (spaces db) name"

definition grant_role :: "int \<Rightarrow> rbac_db \<Rightarrow> int \<Rightarrow> string \<Rightarrow> role \<Rightarrow> string \<Rightarrow>
    (rbac_error + unit) \<times> rbac_db" where
  "grant_role now db space_id user_id r granted_by =
     (if foreign_keys db \<and> space_id \<notin> sp_id ` set (spaces db) then (Inl RSqlite, db)
      else (Inr (), db\<lparr>rbac_roles := tbl_put role_key
              \<lparr>rr_space_id = space_id, rr_user_id = user_id, rr_role = role_as_str r,
               rr_granted_at = now, rr_granted_by = granted_by\<rparr> (rbac_roles db)\<rparr>))"

definition revoke_role :: "rbac_db \<Rightarrow> int \<Rightarrow> string \<Rightarrow> rbac_db" where
  "revoke_role db space_id user_id =
     db\<lparr>rbac_roles := tbl_del role_key (space_id, user_id) (rbac_roles db)\<rparr>"

definition lookup_role :: "rbac_db \<Rightarrow> int \<Rightarrow> string \<Rightarrow> role option" where
  "lookup_role db space_id user_id =
     (case tbl_get role_key (rbac_roles db) (space_id, user_id) of
        None \<Rightarrow> None
      | Some r \<Rightarrow> role_from_str (rr_role r))"

fun rows_to_roles :: "role_row list \<Rightarrow> rbac_error + rbac_role list" where
  "rows_to_roles [] = Inr []"
| "rows_to_roles (r # rs) =
     (case role_from_str (rr_role r) of
        None \<Rightarrow> Inl RSqlite
      | Some k \<Rightarrow>
          (case rows_to_roles rs of
             Inl e \<Rightarrow> Inl e
           | Inr out \<Rightarrow> Inr (\<lparr>ro_space_id = rr_space_id r, ro_user_id = rr_user_id r, ro_role = k,
               ro_granted_at = rr_granted_at r, ro_granted_by = rr_granted_by r\<rparr> # out)))"

definition list_roles :: "rbac_db \<Rightarrow> int \<Rightarrow> rbac_error + rbac_role list" where
  "list_roles db space_id = rows_to_roles (filter (\<lambda>r. rr_space_id r = space_id) (rbac_roles db))"

definition enforce :: "rbac_db \<Rightarrow> string \<Rightarrow> string \<Rightarrow> permission \<Rightarrow> rbac_error + unit" where
  "enforce db space_name user_id perm =
     (case lookup_space db space_name of
        None \<Rightarrow> Inl (SpaceNotFound space_name)
      | Some sp \<Rightarrow>
          let r = lookup_role db (sp_id sp) user_id
          in case map_option (\<lambda>k. role_grants k perm) r of
               Some True \<Rightarrow> Inr ()
             | _ \<Rightarrow> Inl (Denied perm space_name r))"

section \<open>The role cache\<close>

type_synonym role_cache = "string \<times> string \<rightharpoonup> role"

definition cache_new :: role_cache where
  "cache_new = Map.empty"

definition cache_put :: "string \<times> string \<Rightarrow> role \<Rightarrow> role_cache \<Rightarrow> role_cache" where
  "cache_put k r c = c(k \<mapsto> r)"

definition cache_get :: "role_cache \<Rightarrow> string \<times> string \<Rightarrow> role option" where
  "cache_get c k = c k"

definition cache_invalidate :: "string \<times> string \<Rightarrow> role_cache \<Rightarrow> role_cache" where
  "cache_invalidate k c = c(k := None)"

definition cache_clear :: "role_cache \<Rightarrow> role_cache" where
  "cache_clear c = Map.empty"

definition enforce_cached :: "rbac_db \<Rightarrow> role_cache \<Rightarrow> string \<Rightarrow> string \<Rightarrow> permission \<Rightarrow>
    (rbac_error + unit) \<times> role_cache" where
  "enforce_cached db cache space_name user_id perm =
     (case cache_get cache (space_name, user_id) of
        Some r \<Rightarrow>
          (if role_grants r perm then Inr () else Inl (Denied perm space_name (Some r)), cache)
      | None \<Rightarrow>
          (case lookup_space db space_name of
             None \<Rightarrow> (Inl (SpaceNotFound space_name), cache)
           | Some sp \<Rightarrow>
               (case lookup_role db (sp_id sp) user_id of
                  Some r \<Rightarrow>
                    (if role_grants r perm then Inr () else Inl (Denied perm space_name (Some r)),
                     cache_put (space_name, user_id) r cache)
                | None \<Rightarrow> (Inl (Denied perm space_name None), cache))))"

section \<open>Specification\<close>

text \<open>The rights a database gives: for a space name and a user, the role, if any.\<close>

definition right_of :: "rbac_db \<Rightarrow> string \<times> string \<Rightarrow> role option" where
  "right_of db = (\<lambda>(name, user). case lookup_space db name of
     None \<Rightarrow> None | Some sp \<Rightarrow> lookup_role db (sp_id sp) user)"

text \<open>Every cached role is the one the database has.\<close>

definition cache_coherent :: "rbac_db \<Rightarrow> role_cache \<Rightarrow> bool" where
  "cache_coherent db c \<longleftrightarrow> (\<forall>k r. cache_get c k = Some r \<longrightarrow> right_of db k = Some r)"

text \<open>The invariant of databases written with foreign keys enforced.\<close>

definition rbac_inv :: "rbac_db \<Rightarrow> bool" where
  "rbac_inv db \<longleftrightarrow>
     foreign_keys db \<and>
     distinct (map sp_name (spaces db)) \<and> distinct (map sp_id (spaces db)) \<and>
     (\<forall>s \<in> set (spaces db). sp_id s \<le> spaces_seq db) \<and>
     tbl_unique role_key (rbac_roles db) \<and>
     (\<forall>r \<in> set (rbac_roles db). rr_space_id r \<in> sp_id ` set (spaces db) \<and>
        role_from_str (rr_role r) \<noteq> None)"

inductive rbac_reachable :: "rbac_db \<Rightarrow> bool" where
  fresh: "rbac_reachable (rbac_init_schema True None)"
| create: "rbac_reachable db \<Longrightarrow> rbac_reachable (snd (create_space now db name owner))"
| grant: "rbac_reachable db \<Longrightarrow> rbac_reachable (snd (grant_role now db i user r by_user))"
| revoke: "rbac_reachable db \<Longrightarrow> rbac_reachable (revoke_role db i user)"

section \<open>The interface: a store of roles with a permission check\<close>

locale role_decision = keyed_store get put del
  for get :: "'s \<Rightarrow> 'k \<Rightarrow> 'r option"
    and put :: "'k \<Rightarrow> 'r \<Rightarrow> 's \<Rightarrow> 's"
    and del :: "'k \<Rightarrow> 's \<Rightarrow> 's" +
  fixes grants :: "'r \<Rightarrow> 'p \<Rightarrow> bool"
begin

definition allowed :: "'s \<Rightarrow> 'k \<Rightarrow> 'p \<Rightarrow> bool" where
  "allowed s k p \<longleftrightarrow> (case get s k of None \<Rightarrow> False | Some r \<Rightarrow> grants r p)"

lemma allowed_put: "allowed (put k r s) k' p \<longleftrightarrow> (if k' = k then grants r p else allowed s k' p)"
  by (simp add: allowed_def get_put)

lemma allowed_del: "allowed (del k s) k' p \<longleftrightarrow> k' \<noteq> k \<and> allowed s k' p"
  by (simp add: allowed_def get_del)

end

text \<open>The role table as such a store, keyed by space id and user.\<close>

definition role_tbl_get :: "role_row list \<Rightarrow> int \<times> string \<Rightarrow> role option" where
  "role_tbl_get rows k =
     (case tbl_get role_key rows k of None \<Rightarrow> None | Some r \<Rightarrow> role_from_str (rr_role r))"

definition role_tbl_put :: "int \<Rightarrow> string \<Rightarrow> int \<times> string \<Rightarrow> role \<Rightarrow> role_row list \<Rightarrow> role_row list" where
  "role_tbl_put now granted_by k r rows = tbl_put role_key
     \<lparr>rr_space_id = fst k, rr_user_id = snd k, rr_role = role_as_str r,
      rr_granted_at = now, rr_granted_by = granted_by\<rparr> rows"

lemma role_roundtrip [simp]: "role_from_str (role_as_str r) = Some r"
  by (cases r) (simp_all add: role_from_str_def)

lemma role_key_simp [simp]:
  "role_key \<lparr>rr_space_id = i, rr_user_id = u, rr_role = s, rr_granted_at = n, rr_granted_by = g\<rparr> = (i, u)"
  by (simp add: role_key_def)

interpretation role_table:
  role_decision role_tbl_get "role_tbl_put now granted_by" "tbl_del role_key" role_grants
  for now granted_by
  by unfold_locales
    (auto simp: role_tbl_get_def role_tbl_put_def table_simps split: option.splits)

interpretation cached_roles: role_decision cache_get cache_put cache_invalidate role_grants
  by unfold_locales (auto simp: cache_get_def cache_put_def cache_invalidate_def)

section \<open>Lookups after updates\<close>

lemma lookup_role_tbl: "lookup_role db i u = role_tbl_get (rbac_roles db) (i, u)"
  by (simp add: lookup_role_def role_tbl_get_def)

lemma spaces_frame [simp]:
  "spaces (revoke_role db i u) = spaces db"
  "spaces (snd (grant_role now db i u r g)) = spaces db"
  "foreign_keys (revoke_role db i u) = foreign_keys db"
  "foreign_keys (snd (grant_role now db i u r g)) = foreign_keys db"
  by (simp_all add: revoke_role_def grant_role_def)

lemma lookup_space_frame [simp]:
  "lookup_space (revoke_role db i u) n = lookup_space db n"
  "lookup_space (snd (grant_role now db i u r g)) n = lookup_space db n"
  by (simp_all add: lookup_space_def)

lemma lookup_role_revoke:
  "lookup_role (revoke_role db i u) j v = (if (j, v) = (i, u) then None else lookup_role db j v)"
  using role_table.get_del [of "(i, u)" "rbac_roles db" "(j, v)"]
  by (simp add: lookup_role_tbl revoke_role_def)

lemma lookup_role_grant:
  "fst (grant_role now db i u r g) = Inr () \<Longrightarrow>
   lookup_role (snd (grant_role now db i u r g)) j v
     = (if (j, v) = (i, u) then Some r else lookup_role db j v)"
  using role_table.get_put [of now g "(i, u)" r "rbac_roles db" "(j, v)"]
  by (auto simp: lookup_role_tbl grant_role_def role_tbl_put_def split: if_splits)

lemma lookup_space_id_inj:
  assumes "rbac_inv db" "lookup_space db n = Some a" "lookup_space db m = Some b" "sp_id a = sp_id b"
  shows "n = m"
proof -
  from assms have "a \<in> set (spaces db)" "b \<in> set (spaces db)" "sp_name a = n" "sp_name b = m"
    by (auto simp: lookup_space_def dest: tbl_get_SomeD)
  with assms(1,4) show ?thesis
    by (auto simp: rbac_inv_def distinct_map inj_on_def)
qed

lemma right_of_revoke:
  assumes "rbac_inv db" and "lookup_space db n = Some sp"
  shows "right_of (revoke_role db (sp_id sp) u) = (right_of db)((n, u) := None)"
  using lookup_space_id_inj [OF assms(1)] assms(2)
  by (auto simp: right_of_def fun_eq_iff lookup_role_revoke split: option.splits)

lemma right_of_grant:
  assumes "rbac_inv db" and "lookup_space db n = Some sp"
    and "fst (grant_role now db (sp_id sp) u r g) = Inr ()"
  shows "right_of (snd (grant_role now db (sp_id sp) u r g)) = (right_of db)((n, u) \<mapsto> r)"
  using lookup_space_id_inj [OF assms(1)] assms(2) lookup_role_grant [OF assms(3)]
  by (auto simp: right_of_def fun_eq_iff split: option.splits)

lemma enforce_right:
  "enforce db n u p =
     (if lookup_space db n = None then Inl (SpaceNotFound n)
      else if \<exists>r. right_of db (n, u) = Some r \<and> role_grants r p then Inr ()
      else Inl (Denied p n (right_of db (n, u))))"
  by (auto simp: enforce_def right_of_def Let_def split: option.splits bool.splits)

section \<open>The invariant\<close>

lemma rbac_inv_next_id: "rbac_inv db \<Longrightarrow> spaces_next_id db = spaces_seq db + 1"
  by (simp add: spaces_next_id_def rbac_inv_def fold_max_le)


lemma rbac_inv_fresh: "rbac_inv (rbac_init_schema True None)"
  by (simp add: rbac_inv_def rbac_init_schema_def tbl_unique_def)

lemma rbac_inv_revoke: "rbac_inv db \<Longrightarrow> rbac_inv (revoke_role db i u)"
  by (auto simp: rbac_inv_def revoke_role_def tbl_unique_del) (auto simp: tbl_del_def)

lemma rbac_inv_grant: "rbac_inv db \<Longrightarrow> rbac_inv (snd (grant_role now db i u r g))"
  by (auto simp: rbac_inv_def grant_role_def tbl_unique_put set_tbl_put)

lemma create_space_inv:
  assumes "rbac_inv db"
  shows "create_space now db name owner =
     (if name \<in> sp_name ` set (spaces db) \<or> \<not> spaces_seq db + 1 < 2 ^ 63 then (Inl RSqlite, db)
      else
        let i = spaces_seq db + 1;
            sp = \<lparr>sp_id = i, sp_name = name, sp_owner = owner, sp_created_at = now\<rparr>
        in (Inr sp, db\<lparr>spaces := spaces db @ [sp], spaces_seq := i,
             rbac_roles := rbac_roles db @ [\<lparr>rr_space_id = i, rr_user_id = owner,
               rr_role = ''owner'', rr_granted_at = now, rr_granted_by = owner\<rparr>]\<rparr>))"
proof -
  have "(spaces_seq db + 1, owner) \<notin> role_key ` set (rbac_roles db)"
    using assms by (fastforce simp: rbac_inv_def role_key_def)
  then show ?thesis
    using assms by (simp add: create_space_def rbac_inv_next_id Let_def)
qed

lemma rbac_inv_create: "rbac_inv db \<Longrightarrow> rbac_inv (snd (create_space now db name owner))"
proof -
  assume inv: "rbac_inv db"
  then have "(spaces_seq db + 1, owner) \<notin> role_key ` set (rbac_roles db)"
    and "spaces_seq db + 1 \<notin> sp_id ` set (spaces db)"
    by (fastforce simp: rbac_inv_def role_key_def)+
  with inv show ?thesis
    by (auto simp: create_space_inv Let_def)
      (auto simp: rbac_inv_def tbl_unique_def role_from_str_def intro: order_trans)
qed

lemma rbac_reachable_inv: "rbac_reachable db \<Longrightarrow> rbac_inv db"
  by (induction rule: rbac_reachable.induct)
    (simp_all add: rbac_inv_fresh rbac_inv_create rbac_inv_grant rbac_inv_revoke)

lemma lookup_role_iff:
  assumes "tbl_unique role_key (rbac_roles db)"
  shows "lookup_role db i u = Some r \<longleftrightarrow>
    (\<exists>x \<in> set (rbac_roles db). role_key x = (i, u) \<and> role_from_str (rr_role x) = Some r)"
proof (cases "tbl_get role_key (rbac_roles db) (i, u)")
  case None
  then have "\<forall>x \<in> set (rbac_roles db). role_key x \<noteq> (i, u)"
    by (auto simp: tbl_get_None_iff image_iff)
  with None show ?thesis by (simp add: lookup_role_def)
next
  case (Some y)
  then have "x \<in> set (rbac_roles db) \<and> role_key x = (i, u) \<longleftrightarrow> x = y" for x
    using tbl_get_Some_iff [OF assms, of "(i, u)" x] by auto
  then have "(\<exists>x. (x \<in> set (rbac_roles db) \<and> role_key x = (i, u)) \<and> P x) \<longleftrightarrow> P y" for P
    by simp
  with Some show ?thesis by (simp add: lookup_role_def Bex_def conj_assoc)
qed

lemma rows_to_roles_ok:
  "(\<forall>r \<in> set rs. role_from_str (rr_role r) \<noteq> None) \<Longrightarrow>
     rows_to_roles rs = Inr (map (\<lambda>r. \<lparr>ro_space_id = rr_space_id r, ro_user_id = rr_user_id r,
       ro_role = the (role_from_str (rr_role r)), ro_granted_at = rr_granted_at r,
       ro_granted_by = rr_granted_by r\<rparr>) rs)"
  by (induction rs) auto

section \<open>Properties\<close>

text \<open>
  C17. In every database reachable by \<^verbatim>\<open>create_space\<close>, \<^verbatim>\<open>grant_role\<close> and \<^verbatim>\<open>revoke_role\<close> space names
  and ids are unique, a user has at most one role per space, every stored role belongs to an
  existing space, and every stored role text is one of the three roles.
\<close>

theorem rbac_reachable_wf:
  assumes "rbac_reachable db"
  shows "distinct (map sp_name (spaces db)) \<and> distinct (map sp_id (spaces db)) \<and>
    distinct (map role_key (rbac_roles db)) \<and>
    (\<forall>r \<in> set (rbac_roles db). rr_space_id r \<in> sp_id ` set (spaces db) \<and>
       (\<exists>k. rr_role r = role_as_str k))"
proof -
  have "\<exists>k. s = role_as_str k" if "role_from_str s \<noteq> None" for s
    using that by (auto simp: role_from_str_def split: if_splits intro: exI [of _ Owner]
        exI [of _ Editor] exI [of _ Reader])
  then show ?thesis
    using rbac_reachable_inv [OF assms] by (auto simp: rbac_inv_def tbl_unique_def)
qed

definition acme_db :: rbac_db where
  "acme_db = snd (create_space 10 (rbac_init_schema True None) ''acme'' ''alice'')"

definition acme2_db :: rbac_db where
  "acme2_db = snd (create_space 11 acme_db ''globex'' ''alice'')"

lemmas rbac_eval = acme_db_def acme2_db_def create_space_def rbac_init_schema_def spaces_next_id_def
  Let_def lookup_space_def tbl_get_def

lemma acme_reachable: "rbac_reachable acme_db" "rbac_reachable acme2_db"
  unfolding acme_db_def acme2_db_def by (intro rbac_reachable.intros)+

theorem rbac_reachable_wf_witness:
  "rbac_reachable acme2_db \<and> distinct (map sp_name (spaces acme2_db)) \<and> length (spaces acme2_db) = 2"
  using rbac_reachable_wf [OF acme_reachable(2)] acme_reachable(2) by (simp add: rbac_eval)

text \<open>
  C11. Granting a role on a space decides exactly that user's access to exactly that space:
  afterwards \<^verbatim>\<open>enforce\<close> admits the permissions of the granted role and no others, and every
  other user on any space, and this user on any other space, is treated as before.
\<close>

theorem grant_exact:
  assumes "rbac_reachable db" and "lookup_space db n = Some sp"
  shows "fst (grant_role now db (sp_id sp) u r g) = Inr () \<and>
    (enforce (snd (grant_role now db (sp_id sp) u r g)) n u p = Inr () \<longleftrightarrow> role_grants r p) \<and>
    ((m, v) \<noteq> (n, u) \<longrightarrow>
       enforce (snd (grant_role now db (sp_id sp) u r g)) m v q = enforce db m v q)"
proof -
  have inv: "rbac_inv db" using assms(1) by (rule rbac_reachable_inv)
  have ok: "fst (grant_role now db (sp_id sp) u r g) = Inr ()"
    using assms(2) by (auto simp: grant_role_def lookup_space_def dest: tbl_get_SomeD)
  show ?thesis
    using ok assms(2) right_of_grant [OF inv assms(2) ok] by (auto simp: enforce_right)
qed

theorem grant_exact_witness:
  "enforce (snd (grant_role 12 acme2_db 1 ''bob'' Reader ''alice'')) ''acme'' ''bob'' PermRead = Inr () \<and>
   enforce (snd (grant_role 12 acme2_db 1 ''bob'' Reader ''alice'')) ''acme'' ''bob'' PermWrite \<noteq> Inr () \<and>
   enforce (snd (grant_role 12 acme2_db 1 ''bob'' Reader ''alice'')) ''globex'' ''bob'' PermRead
     = enforce acme2_db ''globex'' ''bob'' PermRead"
proof -
  obtain sp where sp: "lookup_space acme2_db ''acme'' = Some sp" "sp_id sp = 1"
    by (simp add: rbac_eval)
  show ?thesis
    using grant_exact [OF acme_reachable(2) sp(1), of 12 "''bob''" Reader "''alice''" PermRead
        "''globex''" "''bob''" PermRead]
      grant_exact [OF acme_reachable(2) sp(1), of 12 "''bob''" Reader "''alice''" PermWrite
        "''globex''" "''bob''" PermRead] sp(2)
    by simp
qed

text \<open>
  Revoking a role denies that user every permission on that space and changes no other
  decision.
\<close>

theorem revoke_exact:
  assumes "rbac_reachable db" and "lookup_space db n = Some sp"
  shows "enforce (revoke_role db (sp_id sp) u) n u p = Inl (Denied p n None) \<and>
    ((m, v) \<noteq> (n, u) \<longrightarrow> enforce (revoke_role db (sp_id sp) u) m v q = enforce db m v q)"
  using right_of_revoke [OF rbac_reachable_inv [OF assms(1)] assms(2), of u] assms(2)
  by (auto simp: enforce_right)

theorem revoke_exact_witness:
  "enforce acme2_db ''acme'' ''alice'' PermAdmin = Inr () \<and>
   enforce (revoke_role acme2_db 1 ''alice'') ''acme'' ''alice'' PermAdmin
     = Inl (Denied PermAdmin ''acme'' None) \<and>
   enforce (revoke_role acme2_db 1 ''alice'') ''globex'' ''alice'' PermAdmin
     = enforce acme2_db ''globex'' ''alice'' PermAdmin"
proof -
  obtain sp where sp: "lookup_space acme2_db ''acme'' = Some sp" "sp_id sp = 1"
    by (simp add: rbac_eval)
  have "enforce acme2_db ''acme'' ''alice'' PermAdmin = Inr ()"
    by (simp add: enforce_def lookup_role_def role_from_str_def rbac_eval)
  then show ?thesis
    using revoke_exact [OF acme_reachable(2) sp(1), of "''alice''" PermAdmin "''globex''" "''alice''"
        PermAdmin] sp(2)
    by simp
qed

text \<open>
  \<^verbatim>\<open>create_space\<close> is all or nothing with foreign keys enforced: a taken name (or an exhausted
  key) is an error that leaves the database as it was; otherwise the new space exists, its owner
  may do everything on it, nobody else may do anything on it, and decisions about existing
  spaces are unchanged.
\<close>

theorem create_space_atomic:
  assumes "rbac_reachable db"
  shows "if name \<in> sp_name ` set (spaces db) \<or> \<not> spaces_seq db + 1 < 2 ^ 63
    then create_space now db name owner = (Inl RSqlite, db)
    else (\<exists>sp db'. create_space now db name owner = (Inr sp, db') \<and>
      lookup_space db' name = Some sp \<and> sp_name sp = name \<and> sp_owner sp = owner \<and>
      enforce db' name owner p = Inr () \<and>
      (v \<noteq> owner \<longrightarrow> enforce db' name v p = Inl (Denied p name None)) \<and>
      (m \<noteq> name \<longrightarrow> enforce db' m v p = enforce db m v p))"
proof (cases "name \<in> sp_name ` set (spaces db) \<or> \<not> spaces_seq db + 1 < 2 ^ 63")
  case True
  then show ?thesis using rbac_reachable_inv [OF assms] by (simp add: create_space_inv)
next
  case False
  have inv: "rbac_inv db" using assms by (rule rbac_reachable_inv)
  let ?i = "spaces_seq db + 1"
  let ?sp = "\<lparr>sp_id = ?i, sp_name = name, sp_owner = owner, sp_created_at = now\<rparr>"
  let ?db = "db\<lparr>spaces := spaces db @ [?sp], spaces_seq := ?i,
      rbac_roles := rbac_roles db @ [\<lparr>rr_space_id = ?i, rr_user_id = owner,
        rr_role = ''owner'', rr_granted_at = now, rr_granted_by = owner\<rparr>]\<rparr>"
  have eq: "create_space now db name owner = (Inr ?sp, ?db)"
    using False inv by (simp add: create_space_inv Let_def)
  have ls: "lookup_space ?db m = (if m = name then Some ?sp else lookup_space db m)" for m
    using False tbl_get_absent [of name sp_name "spaces db"]
    by (auto simp: lookup_space_def tbl_get_snoc split: option.split)
  have new: "tbl_get role_key (rbac_roles db) (?i, v) = None" for v
    using inv by (fastforce simp: tbl_get_None_iff role_key_def rbac_inv_def)
  have lr: "lookup_role ?db j v = (if j = ?i then (if v = owner then Some Owner else None)
      else lookup_role db j v)" for j v
    using new by (auto simp: lookup_role_def tbl_get_snoc role_from_str_def split: option.split)
  have old: "lookup_space db m = Some b \<Longrightarrow> sp_id b \<noteq> ?i" for m b
    using inv by (fastforce simp: lookup_space_def rbac_inv_def dest: tbl_get_SomeD)
  have "enforce ?db name owner p = Inr ()"
    "v \<noteq> owner \<longrightarrow> enforce ?db name v p = Inl (Denied p name None)"
    "m \<noteq> name \<longrightarrow> enforce ?db m v p = enforce db m v p"
    using old by (auto simp: enforce_def ls lr split: option.splits)
  then show ?thesis using False eq ls [of name] by simp
qed

theorem create_space_atomic_witness:
  "create_space 20 acme_db ''acme'' ''eve'' = (Inl RSqlite, acme_db) \<and>
   enforce (snd (create_space 11 acme_db ''globex'' ''alice'')) ''globex'' ''alice'' PermAdmin = Inr ()"
proof -
  have "''acme'' \<in> sp_name ` set (spaces acme_db)" "''globex'' \<notin> sp_name ` set (spaces acme_db)"
    "spaces_seq acme_db + 1 < 2 ^ 63"
    by (simp_all add: rbac_eval)
  then have "create_space 20 acme_db ''acme'' ''eve'' = (Inl RSqlite, acme_db)"
    and "\<exists>sp db'. create_space 11 acme_db ''globex'' ''alice'' = (Inr sp, db') \<and>
      lookup_space db' ''globex'' = Some sp \<and> sp_name sp = ''globex'' \<and> sp_owner sp = ''alice'' \<and>
      enforce db' ''globex'' ''alice'' PermAdmin = Inr () \<and>
      (''bob'' \<noteq> ''alice'' \<longrightarrow>
        enforce db' ''globex'' ''bob'' PermAdmin = Inl (Denied PermAdmin ''globex'' None)) \<and>
      (''acme'' \<noteq> ''globex'' \<longrightarrow>
        enforce db' ''acme'' ''bob'' PermAdmin = enforce acme_db ''acme'' ''bob'' PermAdmin)"
    using create_space_atomic [OF acme_reachable(1), of "''acme''" 20 "''eve''"]
      create_space_atomic [OF acme_reachable(1), of "''globex''" 11 "''alice''" PermAdmin "''bob''" "''acme''"]
    by (simp_all only: if_True if_False simp_thms)
  then show ?thesis by auto
qed

text \<open>
  C18. The cached check refines the direct one: with a coherent cache, \<^verbatim>\<open>enforce_cached\<close> returns
  exactly what \<^verbatim>\<open>enforce\<close> returns, errors included, and leaves a coherent cache.
\<close>

theorem enforce_cached_refines:
  assumes "cache_coherent db c"
  shows "fst (enforce_cached db c n u p) = enforce db n u p \<and>
    cache_coherent db (snd (enforce_cached db c n u p))"
proof (cases "cache_get c (n, u)")
  case None
  then show ?thesis
    using assms cached_roles.get_put
    by (auto simp: enforce_cached_def enforce_def cache_coherent_def right_of_def Let_def
        split: option.splits if_splits)
next
  case (Some r)
  then have "right_of db (n, u) = Some r" using assms by (simp add: cache_coherent_def)
  then have "enforce db n u p = (if role_grants r p then Inr () else Inl (Denied p n (Some r)))"
    by (auto simp: enforce_right right_of_def split: option.splits)
  with Some assms show ?thesis by (simp add: enforce_cached_def)
qed

theorem enforce_cached_refines_witness:
  "cache_coherent acme_db cache_new \<and>
   fst (enforce_cached acme_db cache_new ''acme'' ''alice'' PermAdmin)
     = enforce acme_db ''acme'' ''alice'' PermAdmin"
  using enforce_cached_refines [of acme_db cache_new]
  by (simp add: cache_coherent_def cache_new_def cache_get_def)

text \<open>
  \<^verbatim>\<open>revoke_role\<close> does not touch the cache. Until the entry is invalidated the cached check
  keeps admitting what the revoked role admitted, although the database denies it; with the
  entry invalidated the cache is coherent with the database again.
\<close>

theorem revoke_needs_invalidate:
  assumes "rbac_reachable db" and "lookup_space db n = Some sp" and "cache_coherent db c"
    and "cache_get c (n, u) = Some r" and "role_grants r p"
  shows "fst (enforce_cached (revoke_role db (sp_id sp) u) c n u p) = Inr () \<and>
    enforce (revoke_role db (sp_id sp) u) n u p = Inl (Denied p n None) \<and>
    cache_coherent (revoke_role db (sp_id sp) u) (cache_invalidate (n, u) c)"
proof -
  have rt: "right_of (revoke_role db (sp_id sp) u) = (right_of db)((n, u) := None)"
    using right_of_revoke [OF rbac_reachable_inv [OF assms(1)] assms(2)] .
  have "cache_coherent (revoke_role db (sp_id sp) u) (cache_invalidate (n, u) c)"
    using assms(3) cached_roles.get_del unfolding cache_coherent_def rt by (auto split: if_splits)
  then show ?thesis
    using assms rt by (simp add: enforce_cached_def enforce_right)
qed

theorem revoke_needs_invalidate_witness:
  "fst (enforce_cached (revoke_role acme_db 1 ''alice'')
     (cache_put (''acme'', ''alice'') Owner cache_new) ''acme'' ''alice'' PermDelete) = Inr () \<and>
   enforce (revoke_role acme_db 1 ''alice'') ''acme'' ''alice'' PermDelete
     = Inl (Denied PermDelete ''acme'' None)"
proof -
  let ?c = "cache_put (''acme'', ''alice'') Owner cache_new"
  obtain sp where sp: "lookup_space acme_db ''acme'' = Some sp" "sp_id sp = 1"
    by (simp add: rbac_eval)
  have get: "cache_get ?c (''acme'', ''alice'') = Some Owner"
    by (simp add: cache_get_def cache_put_def)
  have "right_of acme_db (''acme'', ''alice'') = Some Owner"
    by (simp add: right_of_def lookup_role_def role_from_str_def rbac_eval)
  then have "cache_coherent acme_db ?c"
    by (auto simp: cache_coherent_def cache_get_def cache_put_def cache_new_def split: if_splits)
  from revoke_needs_invalidate [OF acme_reachable(1) sp(1) this get, of PermDelete] sp(2)
  show ?thesis by simp
qed

text \<open>
  On reachable databases \<^verbatim>\<open>list_roles\<close> succeeds and agrees with \<^verbatim>\<open>lookup_role\<close>: a user is
  listed with a role exactly when looking the user up gives that role, and no user is listed
  twice.
\<close>

theorem list_roles_complete:
  assumes "rbac_reachable db"
  shows "\<exists>out. list_roles db i = Inr out \<and> distinct (map ro_user_id out) \<and>
    (\<forall>u r. (\<exists>x \<in> set out. ro_user_id x = u \<and> ro_role x = r) \<longleftrightarrow> lookup_role db i u = Some r)"
proof -
  let ?rows = "filter (\<lambda>r. rr_space_id r = i) (rbac_roles db)"
  have inv: "rbac_inv db" using assms by (rule rbac_reachable_inv)
  then have uniq: "tbl_unique role_key (rbac_roles db)"
    and ok: "\<forall>r \<in> set ?rows. role_from_str (rr_role r) \<noteq> None"
    by (auto simp: rbac_inv_def)
  from uniq have "distinct (map role_key ?rows)"
    by (simp add: tbl_unique_def distinct_map_filter)
  moreover have "map role_key ?rows = map (Pair i) (map rr_user_id ?rows)"
    by (simp add: role_key_def)
  ultimately have dist: "distinct (map rr_user_id ?rows)"
    by (simp only: distinct_map) 
  have look: "lookup_role db i u = Some r \<longleftrightarrow>
      (\<exists>x \<in> set ?rows. rr_user_id x = u \<and> role_from_str (rr_role x) = Some r)" for u r
    using lookup_role_iff [OF uniq, of i u r] by (auto simp: role_key_def)
  show ?thesis
    using rows_to_roles_ok [OF ok] dist ok
    by (auto simp: list_roles_def look comp_def)
qed

theorem list_roles_complete_witness:
  "rbac_reachable acme_db \<and> (\<exists>out. list_roles acme_db 1 = Inr out \<and>
     (\<exists>x \<in> set out. ro_user_id x = ''alice'' \<and> ro_role x = Owner))"
proof -
  have "lookup_role acme_db 1 ''alice'' = Some Owner"
    by (simp add: lookup_role_def role_from_str_def rbac_eval)
  then show ?thesis using list_roles_complete [OF acme_reachable(1), of 1] acme_reachable(1) by blast
qed

end
