(* ===== verification/Rust_Text.thy ===== *)
theory Rust_Text
  imports Synapse_Prelude "HOL-Library.Sublist"
begin

text \<open>
  Rust's \<^verbatim>\<open>str\<close> as the text-processing crates use it: a list of Unicode scalar values, with the
  methods of the standard library that the sources call. \<^verbatim>\<open>char::is_alphanumeric\<close> consults the
  Unicode tables beyond ASCII; those tables are an argument (\<open>uni\<close>) of the functions that need
  them, and the ASCII part is written out.
\<close>

type_synonym rchar = nat
type_synonym rstr = "nat list"

text \<open>An ASCII literal as a Rust string.\<close>

definition lit :: "string \<Rightarrow> rstr" where
  "lit s = map of_char s"

section \<open>Character classes\<close>

definition is_whitespace :: "rchar \<Rightarrow> bool" where
  "is_whitespace c \<longleftrightarrow> (9 \<le> c \<and> c \<le> 13) \<or> c = 32 \<or> c = 133 \<or> c = 160 \<or> c = 5760 \<or>
     (8192 \<le> c \<and> c \<le> 8202) \<or> c = 8232 \<or> c = 8233 \<or> c = 8239 \<or> c = 8287 \<or> c = 12288"

definition is_ascii_digit :: "rchar \<Rightarrow> bool" where
  "is_ascii_digit c \<longleftrightarrow> 48 \<le> c \<and> c \<le> 57"

definition is_ascii_uppercase :: "rchar \<Rightarrow> bool" where
  "is_ascii_uppercase c \<longleftrightarrow> 65 \<le> c \<and> c \<le> 90"

definition is_ascii_lowercase :: "rchar \<Rightarrow> bool" where
  "is_ascii_lowercase c \<longleftrightarrow> 97 \<le> c \<and> c \<le> 122"

definition is_ascii_alphanumeric :: "rchar \<Rightarrow> bool" where
  "is_ascii_alphanumeric c \<longleftrightarrow>
     is_ascii_digit c \<or> is_ascii_uppercase c \<or> is_ascii_lowercase c"

definition is_alphanumeric :: "(rchar \<Rightarrow> bool) \<Rightarrow> rchar \<Rightarrow> bool" where
  "is_alphanumeric uni c \<longleftrightarrow> (if c < 128 then is_ascii_alphanumeric c else uni c)"

definition ascii_lower :: "rchar \<Rightarrow> rchar" where
  "ascii_lower c = (if is_ascii_uppercase c then c + 32 else c)"

definition to_ascii_lowercase :: "rstr \<Rightarrow> rstr" where
  "to_ascii_lowercase s = map ascii_lower s"

section \<open>UTF-8\<close>

definition utf8_char :: "rchar \<Rightarrow> bytes" where
  "utf8_char c =
     (if c < 128 then [word_of_nat c]
      else if c < 2048 then [word_of_nat (192 + c div 64), word_of_nat (128 + c mod 64)]
      else if c < 65536 then
        [word_of_nat (224 + c div 4096), word_of_nat (128 + c div 64 mod 64),
         word_of_nat (128 + c mod 64)]
      else
        [word_of_nat (240 + c div 262144), word_of_nat (128 + c div 4096 mod 64),
         word_of_nat (128 + c div 64 mod 64), word_of_nat (128 + c mod 64)])"

definition utf8 :: "rstr \<Rightarrow> bytes" where
  "utf8 s = concat (map utf8_char s)"

text \<open>\<^verbatim>\<open>str::len\<close> counts UTF-8 bytes.\<close>

definition str_len :: "rstr \<Rightarrow> nat" where
  "str_len s = length (utf8 s)"

section \<open>Searching\<close>

definition starts_with :: "rstr \<Rightarrow> rstr \<Rightarrow> bool" where
  "starts_with p s \<longleftrightarrow> take (length p) s = p"

fun contains_str :: "rstr \<Rightarrow> rstr \<Rightarrow> bool" where
  "contains_str p [] = (p = [])"
| "contains_str p (c # s) = (starts_with p (c # s) \<or> contains_str p s)"

definition contains_char :: "rchar \<Rightarrow> rstr \<Rightarrow> bool" where
  "contains_char c s \<longleftrightarrow> c \<in> set s"

text \<open>\<^verbatim>\<open>matches(pat).count()\<close>: non-overlapping occurrences, left to right; \<open>p\<close> is not empty.\<close>

function count_matches :: "rstr \<Rightarrow> rstr \<Rightarrow> nat" where
  "count_matches p [] = 0"
| "count_matches p (c # s) =
     (if p \<noteq> [] \<and> starts_with p (c # s) then Suc (count_matches p (drop (length p) (c # s)))
      else count_matches p s)"
  by pat_completeness auto
termination
  by (relation "measure (\<lambda>(p, s). length s)") auto

section \<open>Lines and words\<close>

definition strip_cr :: "rstr \<Rightarrow> rstr" where
  "strip_cr l = (if l \<noteq> [] \<and> last l = 13 then butlast l else l)"

text \<open>\<^verbatim>\<open>str::lines\<close>: split at \<^verbatim>\<open>\n\<close>, each terminated line also losing a final \<^verbatim>\<open>\r\<close>; no empty
  last line after a final \<^verbatim>\<open>\n\<close>.\<close>

function str_lines :: "rstr \<Rightarrow> rstr list" where
  "str_lines [] = []"
| "str_lines (c # s) =
     (case dropWhile (\<lambda>x. x \<noteq> 10) (c # s) of
        [] \<Rightarrow> [c # s]
      | _ # rest \<Rightarrow> strip_cr (takeWhile (\<lambda>x. x \<noteq> 10) (c # s)) # str_lines rest)"
  by pat_completeness auto
termination
proof (relation "measure length", goal_cases)
  case (2 c s y rest)
  have "length (dropWhile (\<lambda>x. x \<noteq> 10) (c # s)) \<le> length (c # s)"
    by (rule length_dropWhile_le)
  with 2 show ?case by simp
qed simp

definition trim_start :: "rstr \<Rightarrow> rstr" where
  "trim_start s = dropWhile is_whitespace s"

definition trim :: "rstr \<Rightarrow> rstr" where
  "trim s = rev (trim_start (rev (trim_start s)))"

text \<open>\<^verbatim>\<open>str::split\<close> on a character predicate: the pieces between matches, empty ones included.\<close>

fun split_on :: "(rchar \<Rightarrow> bool) \<Rightarrow> rstr \<Rightarrow> rstr list" where
  "split_on P [] = [[]]"
| "split_on P (c # s) =
     (if P c then [] # split_on P s
      else (case split_on P s of [] \<Rightarrow> [[c]] | w # ws \<Rightarrow> (c # w) # ws))"

definition split_whitespace :: "rstr \<Rightarrow> rstr list" where
  "split_whitespace s = filter (\<lambda>w. w \<noteq> []) (split_on is_whitespace s)"

fun join_with :: "rstr \<Rightarrow> rstr list \<Rightarrow> rstr" where
  "join_with sep [] = []"
| "join_with sep [l] = l"
| "join_with sep (l # ls) = l @ sep @ join_with sep ls"

section \<open>Decimal display\<close>

fun show_nat :: "nat \<Rightarrow> rstr" where
  "show_nat n = (if n < 10 then [48 + n] else show_nat (n div 10) @ [48 + n mod 10])"

declare show_nat.simps [simp del]

definition show_int :: "int \<Rightarrow> rstr" where
  "show_int i = (if i < 0 then 45 # show_nat (nat (- i)) else show_nat (nat i))"

section \<open>Facts\<close>

lemma trim_sublist: "sublist (trim s) s"
proof -
  have "suffix (trim_start s) s" for s
    by (simp add: trim_start_def suffix_dropWhile)
  then have "suffix (trim_start (rev (trim_start s))) (rev (trim_start s))"
    and "suffix (trim_start s) s" by blast+
  then have "prefix (trim s) (trim_start s)" and "suffix (trim_start s) s"
    by (auto simp: trim_def suffix_to_prefix)
  then show ?thesis
    by (meson prefix_imp_sublist sublist_order.order_trans suffix_imp_sublist)
qed

lemma set_trim_subset: "set (trim s) \<subseteq> set s"
  using trim_sublist set_mono_sublist by blast

lemma split_on_not_Nil [simp]: "split_on P s \<noteq> []"
  by (induction s) (auto split: list.splits)

lemma split_on_pieces: "w \<in> set (split_on P s) \<Longrightarrow> c \<in> set w \<Longrightarrow> \<not> P c \<and> c \<in> set s"
proof (induction s arbitrary: w)
  case (Cons a s)
  obtain v vs where v: "split_on P s = v # vs"
    by (cases "split_on P s") auto
  have IH: "\<And>u. u \<in> set (v # vs) \<Longrightarrow> c \<in> set u \<Longrightarrow> \<not> P c \<and> c \<in> set s"
    by (metis Cons.IH v)
  show ?case
    using Cons.prems IH [of v] IH [of w] by (cases "P a") (auto simp: v)
qed simp

lemma starts_with_prefix: "starts_with p s \<longleftrightarrow> prefix p s"
  by (metis append_eq_conv_conj prefix_def starts_with_def)

lemma contains_str_sublist: "contains_str p s \<longleftrightarrow> sublist p s"
  by (induction s) (auto simp: starts_with_prefix sublist_Cons_right)

lemma length_utf8_char: "1 \<le> length (utf8_char c) \<and> length (utf8_char c) \<le> 4"
  by (simp add: utf8_char_def)

lemma str_len_ge: "length s \<le> str_len s"
proof (induction s)
  case (Cons c s)
  then show ?case using length_utf8_char [of c] by (simp add: str_len_def utf8_def)
qed (simp add: str_len_def utf8_def)

section \<open>Slices, patterns and numbers\<close>

text \<open>Byte positions inside a string: \<open>byte_drop n s\<close> and \<open>byte_take n s\<close> are \<^verbatim>\<open>s.get(n..)\<close> and
  \<^verbatim>\<open>s.get(..n)\<close>, absent when \<open>n\<close> is past the end or inside a character.\<close>

fun byte_drop :: "nat \<Rightarrow> rstr \<Rightarrow> rstr option" where
  "byte_drop n [] = (if n = 0 then Some [] else None)"
| "byte_drop n (c # s) =
     (if n = 0 then Some (c # s)
      else if length (utf8_char c) \<le> n then byte_drop (n - length (utf8_char c)) s
      else None)"

fun byte_take :: "nat \<Rightarrow> rstr \<Rightarrow> rstr option" where
  "byte_take n [] = (if n = 0 then Some [] else None)"
| "byte_take n (c # s) =
     (if n = 0 then Some []
      else if length (utf8_char c) \<le> n then
        map_option (\<lambda>t. c # t) (byte_take (n - length (utf8_char c)) s)
      else None)"

text \<open>\<^verbatim>\<open>s.get(a..b)\<close>.\<close>

definition str_get :: "rstr \<Rightarrow> nat \<Rightarrow> nat \<Rightarrow> rstr option" where
  "str_get s a b = (if a \<le> b then Option.bind (byte_drop a s) (byte_take (b - a)) else None)"

text \<open>\<^verbatim>\<open>s.as_bytes().get(i)\<close>.\<close>

definition byte_get :: "rstr \<Rightarrow> nat \<Rightarrow> byte option" where
  "byte_get s i = (if i < str_len s then Some (utf8 s ! i) else None)"

definition trim_matches :: "(rchar \<Rightarrow> bool) \<Rightarrow> rstr \<Rightarrow> rstr" where
  "trim_matches P s = rev (dropWhile P (rev (dropWhile P s)))"

definition strip_prefix_char :: "rchar \<Rightarrow> rstr \<Rightarrow> rstr option" where
  "strip_prefix_char p s = (case s of [] \<Rightarrow> None | c # r \<Rightarrow> if c = p then Some r else None)"

definition ends_with :: "rstr \<Rightarrow> rstr \<Rightarrow> bool" where
  "ends_with p s \<longleftrightarrow> length p \<le> length s \<and> drop (length s - length p) s = p"

text \<open>\<^verbatim>\<open>s.replace(from, to)\<close> for a non-empty \<open>from\<close>: non-overlapping occurrences, left to right.\<close>

function str_replace :: "rstr \<Rightarrow> rstr \<Rightarrow> rstr \<Rightarrow> rstr" where
  "str_replace p r [] = []"
| "str_replace p r (c # s) =
     (if p \<noteq> [] \<and> starts_with p (c # s) then r @ str_replace p r (drop (length p) (c # s))
      else c # str_replace p r s)"
  by pat_completeness auto
termination
  by (relation "measure (\<lambda>(p, r, s). length s)") auto

text \<open>\<^verbatim>\<open>str::parse\<close> for integer types with the range \<open>lo\<close> to \<open>hi\<close>: an optional \<^verbatim>\<open>+\<close>, for signed
  types also an optional \<^verbatim>\<open>-\<close>, then at least one decimal digit and nothing else; a value out of
  range is an error.\<close>

definition digits_value :: "rstr \<Rightarrow> int" where
  "digits_value s = foldl (\<lambda>a c. 10 * a + (int c - 48)) 0 s"

definition parse_int :: "int \<Rightarrow> int \<Rightarrow> rstr \<Rightarrow> int option" where
  "parse_int lo hi s =
     (let (neg, ds) = (case s of [] \<Rightarrow> (False, [])
                       | c # r \<Rightarrow> if c = 43 then (False, r)
                                 else if c = 45 \<and> lo < 0 then (True, r) else (False, c # r));
          v = (if neg then - digits_value ds else digits_value ds)
      in if ds \<noteq> [] \<and> list_all is_ascii_digit ds \<and> lo \<le> v \<and> v \<le> hi then Some v else None)"

text \<open>\<^verbatim>\<open>{:0w}\<close> for a natural number.\<close>

definition pad_zero :: "nat \<Rightarrow> nat \<Rightarrow> rstr" where
  "pad_zero w n = replicate (w - length (show_nat n)) 48 @ show_nat n"

lemma ascii_utf8 [simp]: "list_all (\<lambda>c. c < 128) s \<Longrightarrow> utf8 s = map word_of_nat s"
  by (induction s) (simp_all add: utf8_def utf8_char_def)

lemma ascii_str_len [simp]: "list_all (\<lambda>c. c < 128) s \<Longrightarrow> str_len s = length s"
  by (simp add: str_len_def)

lemma ascii_byte_drop:
  "list_all (\<lambda>c. c < 128) s \<Longrightarrow> byte_drop n s = (if n \<le> length s then Some (drop n s) else None)"
  by (induction s arbitrary: n) (simp_all add: utf8_char_def drop_Cons' Suc_le_eq le_diff_conv)

lemma ascii_byte_take:
  "list_all (\<lambda>c. c < 128) s \<Longrightarrow> byte_take n s = (if n \<le> length s then Some (take n s) else None)"
  by (induction s arbitrary: n) (simp_all add: utf8_char_def take_Cons' Suc_le_eq le_diff_conv)

lemma replicate_2_3: "replicate 2 x = [x, x]" "replicate 3 x = [x, x, x]"
  by (simp_all add: numeral_2_eq_2 numeral_3_eq_3)

lemma pad_zero_2: "n < 100 \<Longrightarrow> pad_zero 2 n = [48 + n div 10, 48 + n mod 10]"
  by (simp add: pad_zero_def show_nat.simps [of n] show_nat.simps [of "n div 10"])

lemma pad_zero_4:
  "n < 10000 \<Longrightarrow> pad_zero 4 n =
     [48 + n div 1000, 48 + n div 100 mod 10, 48 + n div 10 mod 10, 48 + n mod 10]"
  by (simp add: pad_zero_def show_nat.simps [of n] show_nat.simps [of "n div 10"]
      show_nat.simps [of "n div 100"] show_nat.simps [of "n div 1000"] div_mult2_eq [symmetric]
      replicate_2_3)

text \<open>Evaluation compares code points as integers, which are binary.\<close>

lemma is_whitespace_code [code]:
  "is_whitespace c \<longleftrightarrow> (let i = int c in (9 \<le> i \<and> i \<le> 13) \<or> i = 32 \<or> i = 133 \<or> i = 160 \<or>
     i = 5760 \<or> (8192 \<le> i \<and> i \<le> 8202) \<or> i = 8232 \<or> i = 8233 \<or> i = 8239 \<or> i = 8287 \<or> i = 12288)"
  by (auto simp: is_whitespace_def Let_def)

end
