(* ===== verification/Float32.thy ===== *)
theory Float32
  imports Synapse_Prelude
begin

text \<open>
  IEEE 754 binary32 as Rust's \<^verbatim>\<open>f32\<close> uses it for scores and percentages. A finite value is a sign
  and a magnitude counted in units of $2^{-149}$, the smallest subnormal, so that every finite
  \<^verbatim>\<open>f32\<close> is a natural number of units and the arithmetic is exact before it is rounded. Rounding is
  to nearest, ties to even, at a 24-bit significand, with overflow to infinity. The payload of a
  NaN is not represented: no source modelled here reads it.
\<close>

datatype f32 = NaN | Inf bool | Fin bool nat

definition f32_unit :: nat where
  "f32_unit = 2 ^ 149"

fun bit_len :: "nat \<Rightarrow> nat" where
  "bit_len n = (if n = 0 then 0 else Suc (bit_len (n div 2)))"

declare bit_len.simps [simp del]

text \<open>The quotient \<open>a / b\<close> rounded to the nearest natural number, ties to even.\<close>

definition round_even :: "nat \<Rightarrow> nat \<Rightarrow> nat" where
  "round_even a b =
     (let q = a div b; r = a mod b in
      if 2 * r < b \<or> (2 * r = b \<and> even q) then q else Suc q)"

text \<open>The rational \<open>a / b\<close> units with sign \<open>s\<close>, rounded to a representable value.\<close>

definition f32_round :: "bool \<Rightarrow> nat \<Rightarrow> nat \<Rightarrow> f32" where
  "f32_round s a b =
     (let k = bit_len (a div b) - 24;
          m = round_even a (b * 2 ^ k) * 2 ^ k in
      if m \<ge> 2 ^ 277 then Inf s else Fin s m)"

definition signed :: "bool \<Rightarrow> nat \<Rightarrow> int" where
  "signed s n = (if s then - int n else int n)"

fun f32_add :: "f32 \<Rightarrow> f32 \<Rightarrow> f32" where
  "f32_add (Fin s m) (Fin t n) =
     (let z = signed s m + signed t n in
      if z = 0 then Fin (s \<and> t) 0 else f32_round (z < 0) (nat \<bar>z\<bar>) 1)"
| "f32_add (Inf s) (Inf t) = (if s = t then Inf s else NaN)"
| "f32_add (Inf s) (Fin _ _) = Inf s"
| "f32_add (Fin _ _) (Inf t) = Inf t"
| "f32_add NaN _ = NaN"
| "f32_add _ NaN = NaN"

fun f32_mul :: "f32 \<Rightarrow> f32 \<Rightarrow> f32" where
  "f32_mul (Fin s m) (Fin t n) = f32_round (s \<noteq> t) (m * n) f32_unit"
| "f32_mul (Inf s) (Inf t) = Inf (s \<noteq> t)"
| "f32_mul (Inf s) (Fin t n) = (if n = 0 then NaN else Inf (s \<noteq> t))"
| "f32_mul (Fin s m) (Inf t) = (if m = 0 then NaN else Inf (s \<noteq> t))"
| "f32_mul NaN _ = NaN"
| "f32_mul _ NaN = NaN"

fun f32_div :: "f32 \<Rightarrow> f32 \<Rightarrow> f32" where
  "f32_div (Fin s m) (Fin t n) =
     (if n = 0 then (if m = 0 then NaN else Inf (s \<noteq> t))
      else f32_round (s \<noteq> t) (m * f32_unit) n)"
| "f32_div (Inf s) (Inf t) = NaN"
| "f32_div (Inf s) (Fin t n) = Inf (s \<noteq> t)"
| "f32_div (Fin s m) (Inf t) = Fin (s \<noteq> t) 0"
| "f32_div NaN _ = NaN"
| "f32_div _ NaN = NaN"

text \<open>\<^verbatim>\<open>usize as f32\<close>.\<close>

definition f32_of_nat :: "nat \<Rightarrow> f32" where
  "f32_of_nat n = f32_round False (n * f32_unit) 1"

text \<open>\<^verbatim>\<open>f32::round\<close>: to the nearest integer, halves away from zero.\<close>

fun f32_round_int :: "f32 \<Rightarrow> f32" where
  "f32_round_int (Fin s m) = Fin s ((2 * m + f32_unit) div (2 * f32_unit) * f32_unit)"
| "f32_round_int x = x"

section \<open>Comparison\<close>

datatype ordering = Less | Equal | Greater

text \<open>\<^verbatim>\<open>f32::partial_cmp\<close>; the zeros of both signs are equal, NaN is comparable with nothing.\<close>

fun f32_key :: "f32 \<Rightarrow> int option" where
  "f32_key NaN = None"
| "f32_key (Inf s) = Some (signed s (2 ^ 277))"
| "f32_key (Fin s m) = Some (signed s m)"

definition cmp_of :: "'a::linorder \<Rightarrow> 'a \<Rightarrow> ordering" where
  "cmp_of x y = (if x < y then Less else if x = y then Equal else Greater)"

definition f32_partial_cmp :: "f32 \<Rightarrow> f32 \<Rightarrow> ordering option" where
  "f32_partial_cmp x y =
     (case (f32_key x, f32_key y) of (Some a, Some b) \<Rightarrow> Some (cmp_of a b) | _ \<Rightarrow> None)"

text \<open>\<^verbatim>\<open>Ordering::then\<close>.\<close>

fun ord_then :: "ordering \<Rightarrow> ordering \<Rightarrow> ordering" where
  "ord_then Equal o2 = o2"
| "ord_then o1 _ = o1"

section \<open>Rounding bounds\<close>

lemma bit_len_le: "n < 2 ^ k \<Longrightarrow> bit_len n \<le> k"
proof (induction n arbitrary: k rule: bit_len.induct)
  case (1 n)
  show ?case
  proof (cases "n = 0")
    case False
    with 1 obtain j where "k = Suc j" by (cases k) auto
    with 1 False show ?thesis by (simp add: bit_len.simps [of n])
  qed (simp add: bit_len.simps)
qed

lemma round_even_le: assumes "a \<le> c * b" and "0 < b" shows "round_even a b \<le> c"
proof (cases "a = c * b")
  case True
  then show ?thesis using assms by (simp add: round_even_def)
next
  case False
  then have "a div b < c" using assms by (simp add: div_less_iff_less_mult)
  then show ?thesis by (simp add: round_even_def Let_def)
qed

text \<open>A rounded quotient stays below every representable upper bound. The bound \<open>c * 2 ^ e\<close> with
  \<open>c < 2 ^ 24\<close> is how a finite value is written.\<close>

lemma f32_round_le:
  assumes "a \<le> c * 2 ^ e * b" and "0 < b" and "c < 2 ^ 24" and "c * 2 ^ e < 2 ^ 277"
  shows "\<exists>m. f32_round s a b = Fin s m \<and> m \<le> c * 2 ^ e"
proof -
  define k where "k = bit_len (a div b) - 24"
  have "a div b \<le> c * 2 ^ e" using assms(1,2) by (simp add: div_le_mono div_le_dividend
      less_mult_imp_div_less mult.commute order_trans [OF div_le_mono [OF assms(1)]])
  also have "c * 2 ^ e < 2 ^ (24 + e)" using assms(3) by (simp add: power_add)
  finally have "bit_len (a div b) \<le> 24 + e" by (rule bit_len_le)
  then have ke: "k \<le> e" by (simp add: k_def)
  then have split: "c * 2 ^ e = (c * 2 ^ (e - k)) * 2 ^ k"
    by (simp add: power_add [symmetric])
  have "round_even a (b * 2 ^ k) \<le> c * 2 ^ (e - k)"
    using assms(1,2) by (intro round_even_le) (simp_all add: split ac_simps)
  then have "round_even a (b * 2 ^ k) * 2 ^ k \<le> c * 2 ^ e"
    by (simp add: split)
  then show ?thesis using assms(4) by (simp add: f32_round_def Let_def k_def [symmetric])
qed

section \<open>Exactness and monotonicity\<close>

lemma less_two_power_bit_len: "n < 2 ^ bit_len n"
proof (induction n rule: bit_len.induct)
  case (1 n)
  then show ?case by (cases "n = 0") (simp_all add: bit_len.simps [of n])
qed

lemma bit_len_mono: "m \<le> n \<Longrightarrow> bit_len m \<le> bit_len n"
  using less_two_power_bit_len [of n] by (intro bit_len_le) simp

lemma two_power_le_of_bit_len: "k < bit_len n \<Longrightarrow> 2 ^ k \<le> n"
  using bit_len_le [of n k] by (metis leD not_le)

lemma round_even_exact: "0 < b \<Longrightarrow> round_even (q * b) b = q"
  by (simp add: round_even_def Let_def)

lemma round_even_ge: "a div b \<le> round_even a b"
  by (simp add: round_even_def Let_def)

lemma round_even_mono: assumes "a \<le> a'" and "0 < b" shows "round_even a b \<le> round_even a' b"
proof (cases "a div b = a' div b")
  case True
  then have "a mod b \<le> a' mod b"
    using assms(1) by (metis diff_le_mono minus_div_mult_eq_mod)
  with True show ?thesis by (auto simp: round_even_def Let_def)
next
  case False
  then have "a div b < a' div b" using assms div_le_mono le_neq_implies_less by blast
  then have "round_even a b \<le> a' div b" by (simp add: round_even_def Let_def)
  then show ?thesis using round_even_ge le_trans by blast
qed

text \<open>A magnitude rounded to \<open>p\<close> significant bits, before the overflow test.\<close>

definition round_mag :: "nat \<Rightarrow> nat \<Rightarrow> nat" where
  "round_mag p a = (let k = bit_len a - p in round_even a (2 ^ k) * 2 ^ k)"

lemma round_mag_upper: "round_mag p a \<le> 2 ^ (p + (bit_len a - p))"
proof -
  define k where "k = bit_len a - p"
  have "a < 2 ^ bit_len a" by (rule less_two_power_bit_len)
  also have "(2::nat) ^ bit_len a \<le> 2 ^ (p + k)" by (intro power_increasing) (auto simp: k_def)
  finally have "round_even a (2 ^ k) \<le> 2 ^ p"
    by (intro round_even_le) (simp_all add: power_add)
  then show ?thesis by (simp add: round_mag_def Let_def power_add flip: k_def)
qed

lemma round_mag_lower:
  assumes "p < bit_len a" "0 < p" shows "2 ^ (p - 1 + (bit_len a - p)) \<le> round_mag p a"
proof -
  define k where "k = bit_len a - p"
  have "2 ^ (p - 1 + k) \<le> a" using assms by (intro two_power_le_of_bit_len) (simp add: k_def)
  then have "2 ^ (p - 1) \<le> a div 2 ^ k"
    by (simp add: power_add less_eq_div_iff_mult_less_eq)
  then have "2 ^ (p - 1) \<le> round_even a (2 ^ k)" using round_even_ge le_trans by blast
  then show ?thesis by (simp add: round_mag_def Let_def power_add flip: k_def)
qed

lemma round_mag_mono: assumes "a \<le> a'" "0 < p" shows "round_mag p a \<le> round_mag p a'"
proof (cases "bit_len a - p = bit_len a' - p")
  case True
  then show ?thesis using round_even_mono [OF assms(1)] by (simp add: round_mag_def Let_def)
next
  case False
  with bit_len_mono [OF assms(1)] have lt: "bit_len a - p < bit_len a' - p" by simp
  then have "(2::nat) ^ (p + (bit_len a - p)) \<le> 2 ^ (p - 1 + (bit_len a' - p))"
    using assms(2) by (intro power_increasing) simp_all
  moreover have "p < bit_len a'" using lt by simp
  ultimately show ?thesis using round_mag_upper round_mag_lower assms(2) le_trans by metis
qed

text \<open>A value of at most \<open>p\<close> significant bits is kept.\<close>

lemma round_mag_exact: assumes "c < 2 ^ p" shows "round_mag p (c * 2 ^ e) = c * 2 ^ e"
proof -
  define k where "k = bit_len (c * 2 ^ e) - p"
  have "c * 2 ^ e < 2 ^ (p + e)" using assms by (simp add: power_add)
  then have "bit_len (c * 2 ^ e) \<le> p + e" by (rule bit_len_le)
  then have "k \<le> e" by (simp add: k_def)
  then have "c * 2 ^ e = (c * 2 ^ (e - k)) * 2 ^ k" by (simp flip: power_add)
  then show ?thesis by (metis round_mag_def k_def round_even_exact zero_less_numeral zero_less_power)
qed

lemma round_mag_0 [simp]: "round_mag p 0 = 0"
  by (simp add: round_mag_def round_even_def bit_len.simps)

lemma round_mag_idem: assumes "0 < p" shows "round_mag p (round_mag p a) = round_mag p a"
proof -
  define k where "k = bit_len a - p"
  have r: "round_mag p a = round_even a (2 ^ k) * 2 ^ k" by (simp add: round_mag_def Let_def k_def)
  have "round_even a (2 ^ k) * 2 ^ k \<le> 2 ^ p * 2 ^ k" using round_mag_upper [of p a] by (simp add: r power_add flip: k_def)
  then have "round_even a (2 ^ k) \<le> 2 ^ p" by simp
  then consider "round_even a (2 ^ k) < 2 ^ p" | "round_even a (2 ^ k) = 2 ^ p" by linarith
  then show ?thesis
  proof cases
    case 1
    then show ?thesis by (simp add: r round_mag_exact)
  next
    case 2
    have "(1::nat) < 2 ^ p" using assms by (intro one_less_power) simp_all
    from round_mag_exact [OF this, of "p + k"] 2 show ?thesis by (simp add: r power_add)
  qed
qed

abbreviation f32_mag :: "nat \<Rightarrow> nat" where
  "f32_mag \<equiv> round_mag 24"

lemmas f32_mag_upper = round_mag_upper [of 24]
lemmas f32_mag_mono = round_mag_mono [of _ _ 24, simplified]

lemma f32_round_mag: "f32_round s a 1 = (if f32_mag a \<ge> 2 ^ 277 then Inf s else Fin s (f32_mag a))"
  by (simp add: f32_round_def round_mag_def Let_def)

lemma f32_of_nat_mag:
  assumes "n < 2 ^ 64" shows "f32_of_nat n = Fin False (f32_mag (n * f32_unit))"
proof -
  have "n * f32_unit < 2 ^ 213" using assms by (simp add: f32_unit_def)
  then have "bit_len (n * f32_unit) \<le> 213" by (rule bit_len_le)
  then have "(2::nat) ^ (24 + (bit_len (n * f32_unit) - 24)) \<le> 2 ^ 276"
    by (intro power_increasing) simp_all
  also have "(2::nat) ^ 276 < 2 ^ 277" by simp
  finally show ?thesis
    using f32_mag_upper [of "n * f32_unit"] unfolding f32_of_nat_def f32_round_mag by simp
qed

lemma f32_mag_unit_ge: "0 < n \<Longrightarrow> f32_unit \<le> f32_mag (n * f32_unit)"
proof -
  assume "0 < n"
  have "f32_mag f32_unit = f32_unit"
  proof -
    have "bit_len f32_unit \<le> 150" unfolding f32_unit_def by (intro bit_len_le) simp
    then have "f32_unit = 2 ^ (149 - (bit_len f32_unit - 24)) * 2 ^ (bit_len f32_unit - 24)"
      by (simp add: f32_unit_def flip: power_add)
    then show ?thesis by (metis round_mag_def round_even_exact zero_less_numeral zero_less_power)
  qed
  with \<open>0 < n\<close> show ?thesis using f32_mag_mono [of f32_unit "n * f32_unit"] by simp
qed

lemma f32_of_nat_exact:
  assumes "n < 2 ^ 24" shows "f32_of_nat n = Fin False (n * f32_unit)"
proof -
  define k where "k = bit_len (n * f32_unit) - 24"
  have "bit_len (n * f32_unit) \<le> 173" using assms by (intro bit_len_le) (simp add: f32_unit_def)
  then have "k \<le> 149" by (simp add: k_def)
  then have "n * f32_unit = (n * 2 ^ (149 - k)) * 2 ^ k"
    by (simp add: f32_unit_def flip: power_add)
  then have "f32_mag (n * f32_unit) = n * f32_unit"
    by (metis round_mag_def k_def round_even_exact zero_less_numeral zero_less_power)
  then show ?thesis using f32_of_nat_mag [of n] assms by simp
qed

end
