(* ===== verification/Context_Pack.thy ===== *)
theory Context_Pack
  imports Rust_Text Float32 "HOL-Library.Multiset" "HOL-Library.Product_Lexorder"
begin

text \<open>
  The context packer, crate \<^verbatim>\<open>synapse-pack\<close>: ranked candidates are collapsed by SimHash,
  compressed by deleting lines until they fit a token budget, and ordered for rendering. The
  Unicode alphanumeric table (\<open>uni\<close>, used by \<^verbatim>\<open>char::is_alphanumeric\<close>) and the shortest decimal
  display of an \<^verbatim>\<open>f32\<close> (\<open>fmt\<close>, used by \<^verbatim>\<open>render\<close>) are arguments.
\<close>

unbundle bit_operations_syntax

section \<open>Data\<close>

datatype kind = KnownFact | Decision | File | Chat | SessionSummary | CodebaseMap | Other

datatype tier = OneLine | FactDelta | Signatures | Full

text \<open>\<^verbatim>\<open>tier as u8\<close>.\<close>

fun tier_u8 :: "tier \<Rightarrow> nat" where
  "tier_u8 OneLine = 0"
| "tier_u8 FactDelta = 1"
| "tier_u8 Signatures = 2"
| "tier_u8 Full = 3"

definition from_meta :: "rstr \<Rightarrow> kind" where
  "from_meta s0 =
     (let s = to_ascii_lowercase s0; has = (\<lambda>p. contains_str (lit p) s) in
      if has ''known-fact'' \<or> has ''known_fact'' \<or> s = lit ''fact'' then KnownFact
      else if has ''decision'' \<or> has ''adr'' then Decision
      else if has ''session-summary'' \<or> has ''session_summary'' \<or> has ''mega-session'' \<or>
              has ''swarm-summary'' then SessionSummary
      else if has ''codebase-map'' \<or> has ''codebase_map'' \<or> has ''repo-map'' \<or>
              has ''funcmap'' then CodebaseMap
      else if has ''file'' \<or> has ''code'' \<or> has ''source'' then File
      else if has ''chat'' \<or> has ''session'' \<or> has ''transcript'' then Chat
      else Other)"

fun floor_tier :: "kind \<Rightarrow> tier" where
  "floor_tier KnownFact = Signatures"
| "floor_tier Decision = Signatures"
| "floor_tier SessionSummary = Signatures"
| "floor_tier CodebaseMap = Signatures"
| "floor_tier File = OneLine"
| "floor_tier Chat = OneLine"
| "floor_tier Other = OneLine"

text \<open>The literals 0.05, 0.03, 0.02 and -0.01 rounded to \<^verbatim>\<open>f32\<close>.\<close>

fun trust_prior :: "kind \<Rightarrow> f32" where
  "trust_prior KnownFact = Fin False (13421773 * 2 ^ 121)"
| "trust_prior Decision = Fin False (16106127 * 2 ^ 120)"
| "trust_prior SessionSummary = Fin False (10737418 * 2 ^ 120)"
| "trust_prior CodebaseMap = Fin False (10737418 * 2 ^ 120)"
| "trust_prior File = Fin False 0"
| "trust_prior Chat = Fin True (10737418 * 2 ^ 119)"
| "trust_prior Other = Fin False 0"

definition ladder :: "tier list" where
  "ladder = [Full, Signatures, FactDelta, OneLine]"

record candidate =
  c_id :: int
  c_title :: rstr
  c_text :: rstr
  c_score :: f32
  c_kind :: kind

record packed_block =
  b_id :: int
  b_kind :: kind
  b_tier :: tier
  b_title :: rstr
  b_text :: rstr
  b_tokens :: nat

record pack =
  blocks :: "packed_block list"
  used_tokens :: nat
  budget_tokens :: nat
  dropped_ids :: "int list"
  deduped_ids :: "int list"
  naive_tokens :: nat
  delta_skipped_ids :: "int list"

record pack_options =
  o_budget_tokens :: nat
  o_header_reserve :: nat
  o_prev_used_ids :: "int list"
  o_cache_stable_order :: bool

definition default_options :: pack_options where
  "default_options = \<lparr>o_budget_tokens = 4000, o_header_reserve = 48, o_prev_used_ids = [],
     o_cache_stable_order = False\<rparr>"

definition savings_pct :: "pack \<Rightarrow> f32" where
  "savings_pct p =
     (if naive_tokens p = 0 then Fin False 0
      else let saved = naive_tokens p - used_tokens p;
               ratio = f32_div (f32_of_nat saved) (f32_of_nat (naive_tokens p)) in
           f32_div (f32_round_int (f32_mul ratio (f32_of_nat 1000))) (f32_of_nat 10))"

section \<open>Token estimate\<close>

definition is_cjk :: "rchar \<Rightarrow> bool" where
  "is_cjk c \<longleftrightarrow> (0x4E00 \<le> c \<and> c \<le> 0x9FFF) \<or> (0x3400 \<le> c \<and> c \<le> 0x4DBF) \<or>
     (0x3040 \<le> c \<and> c \<le> 0x30FF) \<or> (0xAC00 \<le> c \<and> c \<le> 0xD7A3) \<or> (0xF900 \<le> c \<and> c \<le> 0xFAFF)"

text \<open>The six locals of the loop of \<^verbatim>\<open>estimate_tokens\<close>.\<close>

record scan =
  chars :: nat
  words :: nat
  punct_runs :: nat
  cjk :: nat
  in_word :: bool
  in_punct :: bool

definition scan_init :: scan where
  "scan_init = \<lparr>chars = 0, words = 0, punct_runs = 0, cjk = 0, in_word = False, in_punct = False\<rparr>"

definition scan_char :: "(rchar \<Rightarrow> bool) \<Rightarrow> rchar \<Rightarrow> scan \<Rightarrow> scan" where
  "scan_char uni c st0 =
     (let st = st0\<lparr>chars := chars st0 + 1\<rparr> in
      if is_cjk c then st\<lparr>cjk := cjk st + 1, in_word := False, in_punct := False\<rparr>
      else if is_whitespace c then st\<lparr>in_word := False, in_punct := False\<rparr>
      else if is_alphanumeric uni c \<or> c = 95 then
        st\<lparr>words := (if in_word st then words st else words st + 1),
           in_word := True, in_punct := False\<rparr>
      else
        st\<lparr>punct_runs := (if in_punct st then punct_runs st else punct_runs st + 1),
           in_punct := True, in_word := False\<rparr>)"

definition div_ceil :: "nat \<Rightarrow> nat \<Rightarrow> nat" where
  "div_ceil a b = (a + b - 1) div b"

definition estimate_tokens :: "(rchar \<Rightarrow> bool) \<Rightarrow> rstr \<Rightarrow> nat" where
  "estimate_tokens uni text =
     (if text = [] then 0
      else let st = fold (scan_char uni) text scan_init;
               word_tokens = div_ceil (words st * 13) 10;
               structural = word_tokens + punct_runs st + cjk st * 2;
               char_floor = div_ceil (chars st) 3 in
           max (max structural char_floor) 1)"

section \<open>Compression by deletion\<close>

definition fact_line :: "rstr \<Rightarrow> nat \<Rightarrow> nat \<Rightarrow> bool" where
  "fact_line line idx n =
     (let t = trim line in
      if t = [] then False
      else
        let has_digit = list_ex is_ascii_digit t;
            has_op = contains_char 61 t \<or> contains_str (lit ''->'') t \<or>
                     contains_str (lit ''=>'') t \<or> contains_char 58 t;
            has_path = contains_char 47 t \<and> list_ex (\<lambda>c. c = 46 \<or> c = 95) t;
            has_caps_term =
              list_ex (\<lambda>w. str_len w \<ge> 2 \<and> list_all (\<lambda>c. is_ascii_uppercase c \<or> c = 95) w)
                (split_on (\<lambda>c. \<not> is_ascii_alphanumeric c \<and> c \<noteq> 95) t)
        in has_digit \<or> has_op \<or> has_path \<or> has_caps_term)"

definition signature_line :: "rstr \<Rightarrow> nat \<Rightarrow> nat \<Rightarrow> bool" where
  "signature_line line idx n =
     (let t = trim line in
      if t = [] then False
      else idx = 0 \<or> idx + 1 = n \<or> starts_with (lit ''#'') t \<or> starts_with (lit ''```'') t \<or>
           starts_with (lit ''- '') t \<or> starts_with (lit ''* '') t \<or> starts_with (lit ''| '') t \<or>
           fact_line line idx n)"

definition first_nonblank :: "rstr \<Rightarrow> rstr" where
  "first_nonblank text =
     (case filter (\<lambda>l. l \<noteq> []) (map trim (str_lines text)) of [] \<Rightarrow> [] | l # _ \<Rightarrow> l)"

definition keep_lines :: "rstr \<Rightarrow> (rstr \<Rightarrow> nat \<Rightarrow> nat \<Rightarrow> bool) \<Rightarrow> rstr" where
  "keep_lines text pred =
     (let lines = str_lines text; n = length lines;
          kept = map snd (filter (\<lambda>(i, l). pred l i n) (enumerate 0 lines)) in
      if kept = [] then first_nonblank text else join_with [10] kept)"

definition line_signal :: "rstr \<Rightarrow> nat" where
  "line_signal l =
     (let digits = length (filter is_ascii_digit l);
          ops = count_matches (lit ''='') l + count_matches (lit ''->'') l +
                count_matches (lit '':'') l in
      digits * 3 + ops * 4 + min (str_len l) 120 div 20)"

text \<open>\<^verbatim>\<open>Iterator::max_by_key\<close>: the last of the elements with the greatest key.\<close>

fun max_by_key :: "('a \<Rightarrow> nat) \<Rightarrow> 'a list \<Rightarrow> 'a option" where
  "max_by_key f [] = None"
| "max_by_key f (x # xs) =
     (case max_by_key f xs of None \<Rightarrow> Some x
      | Some y \<Rightarrow> Some (if f x \<le> f y then y else x))"

definition one_line :: "rstr \<Rightarrow> rstr" where
  "one_line text =
     (case max_by_key line_signal (filter (\<lambda>l. l \<noteq> []) (map trim (str_lines text))) of
        None \<Rightarrow> [] | Some l \<Rightarrow> l)"

fun compress :: "rstr \<Rightarrow> tier \<Rightarrow> rstr" where
  "compress text Full = text"
| "compress text Signatures = keep_lines text signature_line"
| "compress text FactDelta = keep_lines text fact_line"
| "compress text OneLine = one_line text"

definition render_block_text :: "rstr \<Rightarrow> rstr \<Rightarrow> rstr" where
  "render_block_text title body = (if title = [] then body else title @ [10] @ body)"

section \<open>SimHash\<close>

definition fnv1a :: "bytes \<Rightarrow> u64" where
  "fnv1a bs = fold (\<lambda>b h. (h XOR ucast b) * 0x100000001b3) bs 0xcbf29ce484222325"

text \<open>One token added to the 64 counters. A counter is an \<^verbatim>\<open>i32\<close> and would overflow only after
  $2^{31}$ tokens, more than a text in memory has.\<close>

definition simhash_votes :: "u64 \<Rightarrow> int list \<Rightarrow> int list" where
  "simhash_votes h v =
     map (\<lambda>(i, slot). if bit h i then slot + 1 else slot - 1) (enumerate 0 v)"

definition simhash_bits :: "int list \<Rightarrow> u64" where
  "simhash_bits v =
     fold (\<lambda>(i, slot) out. if slot > 0 then out OR push_bit i 1 else out) (enumerate 0 v) 0"

definition simhash :: "rstr \<Rightarrow> u64" where
  "simhash text =
     (let toks = split_whitespace text in
      if toks = [] then 0
      else simhash_bits
        (fold (\<lambda>tok v. simhash_votes (fnv1a (utf8 (to_ascii_lowercase tok))) v) toks
           (replicate 64 0)))"

definition hamming :: "u64 \<Rightarrow> u64 \<Rightarrow> nat" where
  "hamming a b = length (filter (bit (a XOR b)) [0..<64])"

section \<open>Packing\<close>

definition trust_adjust :: "candidate \<Rightarrow> candidate" where
  "trust_adjust c = c\<lparr>c_score := f32_add (c_score c) (trust_prior (c_kind c))\<rparr>"

text \<open>The comparator of \<^verbatim>\<open>cands.sort_by\<close>, and the stable sort by it.\<close>

definition rank_cmp :: "candidate \<Rightarrow> candidate \<Rightarrow> ordering" where
  "rank_cmp a b =
     ord_then (case f32_partial_cmp (c_score b) (c_score a) of None \<Rightarrow> Equal | Some r \<Rightarrow> r)
       (cmp_of (c_id a) (c_id b))"

fun insert_by :: "('a \<Rightarrow> 'a \<Rightarrow> ordering) \<Rightarrow> 'a \<Rightarrow> 'a list \<Rightarrow> 'a list" where
  "insert_by cmp x [] = [x]"
| "insert_by cmp x (y # ys) = (if cmp x y = Greater then y # insert_by cmp x ys else x # y # ys)"

definition sort_by :: "('a \<Rightarrow> 'a \<Rightarrow> ordering) \<Rightarrow> 'a list \<Rightarrow> 'a list" where
  "sort_by cmp xs = foldr (insert_by cmp) xs []"

definition rank :: "candidate list \<Rightarrow> candidate list" where
  "rank cands = sort_by rank_cmp (map trust_adjust cands)"

text \<open>Step 2, the near-duplicate collapse: \<open>(kept, kept_hashes, deduped_ids)\<close>.\<close>

fun dedup :: "candidate list \<Rightarrow> candidate list \<times> u64 list \<times> int list \<Rightarrow>
    candidate list \<times> u64 list \<times> int list" where
  "dedup [] st = st"
| "dedup (c # cs) (kept, hs, ded) =
     (let h = simhash (c_text c) in
      if list_ex (\<lambda>k. hamming k h \<le> 3) hs then dedup cs (kept, hs, ded @ [c_id c])
      else dedup cs (kept @ [c], hs @ [h], ded))"

text \<open>Step 3, the richest tier that fits: the inner loop, then the loop over the kept candidates
  with state \<open>(used, chosen, dropped_ids)\<close>.\<close>

definition block_at :: "(rchar \<Rightarrow> bool) \<Rightarrow> candidate \<Rightarrow> tier \<Rightarrow> packed_block" where
  "block_at uni c t =
     (let body = compress (c_text c) t in
      \<lparr>b_id = c_id c, b_kind = c_kind c, b_tier = t, b_title = c_title c, b_text = body,
       b_tokens = estimate_tokens uni (render_block_text (c_title c) body)\<rparr>)"

fun place :: "(rchar \<Rightarrow> bool) \<Rightarrow> nat \<Rightarrow> nat \<Rightarrow> candidate \<Rightarrow> tier list \<Rightarrow> packed_block option" where
  "place uni avail used c [] = None"
| "place uni avail used c (t # ts) =
     (if tier_u8 t < tier_u8 (floor_tier (c_kind c)) then place uni avail used c ts
      else let b = block_at uni c t in
           if used + b_tokens b \<le> avail then Some b else place uni avail used c ts)"

fun choose_tiers :: "(rchar \<Rightarrow> bool) \<Rightarrow> nat \<Rightarrow> candidate list \<Rightarrow> nat \<times> packed_block list \<times> int list \<Rightarrow>
    nat \<times> packed_block list \<times> int list" where
  "choose_tiers uni avail [] st = st"
| "choose_tiers uni avail (c # cs) (used, chosen, dropped) =
     (case place uni avail used c ladder of
        Some b \<Rightarrow> choose_tiers uni avail cs (used + b_tokens b, chosen @ [b], dropped)
      | None \<Rightarrow> choose_tiers uni avail cs (used, chosen, dropped @ [c_id c]))"

text \<open>The min-one guarantee.\<close>

definition force_top :: "(rchar \<Rightarrow> bool) \<Rightarrow> nat \<Rightarrow> candidate list \<Rightarrow>
    nat \<times> packed_block list \<times> int list \<Rightarrow> nat \<times> packed_block list \<times> int list" where
  "force_top uni budget kept st =
     (case (st, kept) of
        ((used, [], dropped), c # _) \<Rightarrow>
          (let b = block_at uni c OneLine in
           if b_tokens b \<le> budget then (b_tokens b, [b], filter (\<lambda>d. d \<noteq> c_id c) dropped)
           else st)
      | _ \<Rightarrow> st)"

definition serial_position_order :: "packed_block list \<Rightarrow> packed_block list" where
  "serial_position_order bs =
     (case bs of b1 # b2 # b3 # rest \<Rightarrow> [b1] @ (b3 # rest) @ [b2] | _ \<Rightarrow> bs)"

definition cache_stable_order :: "packed_block list \<Rightarrow> int list \<Rightarrow> packed_block list" where
  "cache_stable_order bs prev =
     (if prev = [] then serial_position_order bs
      else filter (\<lambda>b. b_id b \<in> set prev) bs @
           serial_position_order (filter (\<lambda>b. b_id b \<notin> set prev) bs))"

text \<open>Steps 2 to 4 on the ranked candidates.\<close>

definition pack_ranked :: "(rchar \<Rightarrow> bool) \<Rightarrow> pack_options \<Rightarrow> nat \<Rightarrow> candidate list \<Rightarrow> pack" where
  "pack_ranked uni opts naive ranked =
     (let budget = o_budget_tokens opts;
          (kept, hs, deduped) = dedup ranked ([], [], []);
          header = min (o_header_reserve opts) (budget div 4);
          avail = budget - header;
          (used, chosen, dropped) = force_top uni budget kept (choose_tiers uni avail kept (0, [], []));
          bs = (if o_cache_stable_order opts \<and> o_prev_used_ids opts \<noteq> []
                then cache_stable_order chosen (o_prev_used_ids opts)
                else serial_position_order chosen) in
      \<lparr>blocks = bs, used_tokens = used, budget_tokens = budget, dropped_ids = dropped,
       deduped_ids = deduped, naive_tokens = naive, delta_skipped_ids = []\<rparr>)"

definition naive_cost :: "(rchar \<Rightarrow> bool) \<Rightarrow> candidate list \<Rightarrow> nat" where
  "naive_cost uni cands = sum_list (map (\<lambda>c. estimate_tokens uni (c_text c)) cands)"

definition pack_cands :: "(rchar \<Rightarrow> bool) \<Rightarrow> candidate list \<Rightarrow> pack_options \<Rightarrow> pack" where
  "pack_cands uni cands opts = pack_ranked uni opts (naive_cost uni cands) (rank cands)"

definition pack_delta :: "(rchar \<Rightarrow> bool) \<Rightarrow> candidate list \<Rightarrow> pack_options \<Rightarrow> pack" where
  "pack_delta uni cands opts =
     (let prev = set (o_prev_used_ids opts);
          skipped = map c_id (filter (\<lambda>c. c_id c \<in> prev) cands);
          rest = filter (\<lambda>c. c_id c \<notin> prev) cands in
      (pack_cands uni rest (opts\<lparr>o_prev_used_ids := [], o_cache_stable_order := False\<rparr>))
        \<lparr>delta_skipped_ids := skipped, naive_tokens := naive_cost uni cands\<rparr>)"

section \<open>Rendering\<close>

fun kind_tag :: "kind \<Rightarrow> rstr" where
  "kind_tag KnownFact = lit ''known-fact''"
| "kind_tag Decision = lit ''decision''"
| "kind_tag File = lit ''file''"
| "kind_tag Chat = lit ''chat''"
| "kind_tag SessionSummary = lit ''session-summary''"
| "kind_tag CodebaseMap = lit ''codebase-map''"
| "kind_tag Other = lit ''other''"

text \<open>The derived \<^verbatim>\<open>Debug\<close> of \<^verbatim>\<open>Tier\<close>.\<close>

fun tier_debug :: "tier \<Rightarrow> rstr" where
  "tier_debug OneLine = lit ''OneLine''"
| "tier_debug FactDelta = lit ''FactDelta''"
| "tier_debug Signatures = lit ''Signatures''"
| "tier_debug Full = lit ''Full''"

definition render_block :: "packed_block \<Rightarrow> rstr" where
  "render_block b =
     [10] @ lit ''['' @ show_int (b_id b) @ lit ''|'' @ kind_tag (b_kind b) @ lit ''|'' @
     tier_debug (b_tier b) @ lit ''] '' @
     (if b_title b = [] then [] else b_title b @ [10]) @ b_text b @ [10]"

text \<open>183 is the middle dot and 916 the capital delta of the header line.\<close>

definition render :: "(f32 \<Rightarrow> rstr) \<Rightarrow> pack \<Rightarrow> rstr" where
  "render fmt p =
     (let dot = [32, 183, 32];
          delta_marker = (if delta_skipped_ids p = [] then []
            else dot @ [916] @ show_nat (length (delta_skipped_ids p)) @ lit '' skipped'') in
      lit ''STATE ['' @ show_nat (length (blocks p)) @ lit '' facts'' @ dot @
      show_nat (length (dropped_ids p)) @ lit '' dropped'' @ dot @
      show_nat (length (deduped_ids p)) @ lit '' deduped'' @ delta_marker @ dot @
      show_nat (used_tokens p) @ lit ''/'' @ show_nat (budget_tokens p) @ lit '' tok'' @ dot @
      fmt (savings_pct p) @ lit ''% saved]'' @ [10] @
      concat (map render_block (blocks p)))"

section \<open>Lemmas: placing blocks\<close>

lemma place_SomeD:
  "place uni avail used c ts = Some b \<Longrightarrow>
   \<exists>t \<in> set ts. b = block_at uni c t \<and> tier_u8 (floor_tier (c_kind c)) \<le> tier_u8 t \<and>
     used + b_tokens b \<le> avail"
  by (induction ts) (auto simp: Let_def not_less split: if_splits)

lemma place_Full:
  "used + b_tokens (block_at uni c Full) \<le> avail \<Longrightarrow>
   place uni avail used c ladder = Some (block_at uni c Full)"
  by (cases "c_kind c") (simp_all add: ladder_def)

lemma block_at_simps [simp]:
  "b_id (block_at uni c t) = c_id c" "b_kind (block_at uni c t) = c_kind c"
  "b_tier (block_at uni c t) = t" "b_title (block_at uni c t) = c_title c"
  "b_text (block_at uni c t) = compress (c_text c) t"
  by (simp_all add: block_at_def Let_def)

abbreviation total_tokens :: "packed_block list \<Rightarrow> nat" where
  "total_tokens bs \<equiv> sum_list (map b_tokens bs)"

text \<open>Where a block comes from: a candidate, compressed at the block's tier.\<close>

definition block_of :: "(rchar \<Rightarrow> bool) \<Rightarrow> candidate \<Rightarrow> packed_block \<Rightarrow> bool" where
  "block_of uni c b \<longleftrightarrow> b = block_at uni c (b_tier b)"

definition respects_floor :: "packed_block \<Rightarrow> bool" where
  "respects_floor b \<longleftrightarrow> tier_u8 (floor_tier (b_kind b)) \<le> tier_u8 (b_tier b)"

lemma place_block:
  assumes "place uni avail used c ladder = Some b"
  shows "block_of uni c b" and "respects_floor b" and "used + b_tokens b \<le> avail"
    and "b_id b = c_id c"
  using place_SomeD [OF assms] by (auto simp: block_of_def respects_floor_def)

lemma choose_tiers_budget:
  assumes "choose_tiers uni avail cs (u, bs, ds) = (u', bs', ds')"
    and "u = total_tokens bs" and "u \<le> avail"
  shows "u' = total_tokens bs' \<and> u' \<le> avail"
  using assms
proof (induction cs arbitrary: u bs ds)
  case (Cons c cs)
  show ?case
  proof (cases "place uni avail u c ladder")
    case (Some b)
    with Cons.prems Cons.IH [of "u + b_tokens b" "bs @ [b]" ds] place_block(3) [OF Some]
    show ?thesis by simp
  qed (use Cons in simp)
qed simp

lemma choose_tiers_ids:
  "choose_tiers uni avail cs (u, bs, ds) = (u', bs', ds') \<Longrightarrow>
   mset (map b_id bs') + mset ds' = mset (map b_id bs) + mset ds + mset (map c_id cs)"
proof (induction cs arbitrary: u bs ds)
  case (Cons c cs)
  show ?case
  proof (cases "place uni avail u c ladder")
    case (Some b)
    with Cons.prems Cons.IH [of "u + b_tokens b" "bs @ [b]" ds] place_block(4) [OF Some]
    show ?thesis by simp
  next
    case None
    with Cons.prems Cons.IH [of u bs "ds @ [c_id c]"] show ?thesis by simp
  qed
qed simp

lemma choose_tiers_blocks:
  assumes "choose_tiers uni avail cs (u, bs, ds) = (u', bs', ds')" and "b \<in> set bs'"
  shows "b \<in> set bs \<or> ((\<exists>c \<in> set cs. block_of uni c b) \<and> respects_floor b)"
  using assms
proof (induction cs arbitrary: u bs ds)
  case (Cons c cs)
  show ?case
  proof (cases "place uni avail u c ladder")
    case (Some b0)
    with Cons.prems Cons.IH [of "u + b_tokens b0" "bs @ [b0]" ds] place_block(1,2) [OF Some]
    show ?thesis by auto
  next
    case None
    with Cons.prems Cons.IH [of u bs "ds @ [c_id c]"] show ?thesis by auto
  qed
qed simp

text \<open>The blocks are chosen in rank order.\<close>

lemma choose_tiers_order:
  "choose_tiers uni avail cs (u, bs, ds) = (u', bs', ds') \<Longrightarrow>
   \<exists>new. bs' = bs @ new \<and> subseq (map b_id new) (map c_id cs)"
proof (induction cs arbitrary: u bs ds)
  case (Cons c cs)
  show ?case
  proof (cases "place uni avail u c ladder")
    case (Some b)
    with Cons.prems Cons.IH [of "u + b_tokens b" "bs @ [b]" ds] obtain new where
      "bs' = bs @ b # new" and "subseq (map b_id new) (map c_id cs)" by auto
    with place_block(4) [OF Some] show ?thesis by (intro exI [of _ "b # new"]) simp
  next
    case None
    with Cons.prems Cons.IH [of u bs "ds @ [c_id c]"] show ?thesis by auto
  qed
qed simp

text \<open>If everything fits verbatim, everything stays verbatim.\<close>

lemma choose_tiers_all_full:
  "u + total_tokens (map (\<lambda>c. block_at uni c Full) cs) \<le> avail \<Longrightarrow>
   choose_tiers uni avail cs (u, bs, ds) =
     (u + total_tokens (map (\<lambda>c. block_at uni c Full) cs),
      bs @ map (\<lambda>c. block_at uni c Full) cs, ds)"
  by (induction cs arbitrary: u bs) (simp_all add: place_Full)

section \<open>Lemmas: deletion-based compression\<close>

lemma strip_cr_prefix: "prefix (strip_cr l) l"
  by (simp add: strip_cr_def prefixeq_butlast)

lemma strip_cr_subseq: "subseq (strip_cr l) l"
  using strip_cr_prefix prefix_imp_sublist sublist_imp_subseq by blast

lemma str_lines_break:
  assumes "dropWhile (\<lambda>x. x \<noteq> 10) s = x # rest"
  shows "s = takeWhile (\<lambda>x. x \<noteq> 10) s @ 10 # rest"
proof -
  have "x = 10" using hd_dropWhile [of "\<lambda>x. x \<noteq> 10" s] assms by simp
  then show ?thesis using takeWhile_dropWhile_id [of "\<lambda>x. x \<noteq> 10" s] assms by simp
qed

lemma subseq_around: "subseq xs ys \<Longrightarrow> subseq us vs \<Longrightarrow> subseq (xs @ x # us) (ys @ x # vs)"
  by (intro list_emb_append_mono) simp_all

text \<open>Joining any selection of the lines of a text, in order, deletes characters and adds none.\<close>

lemma join_lines_subseq:
  "subseq ls (str_lines t) \<Longrightarrow> subseq (join_with [10] ls) t"
proof (induction t arbitrary: ls rule: str_lines.induct)
  case (2 c s)
  show ?case
  proof (cases "dropWhile (\<lambda>x. x \<noteq> 10) (c # s)")
    case Nil
    with 2 have "subseq ls [c # s]" by simp
    then have "ls = [] \<or> ls = [c # s]"
      by (metis list_emb_Nil2 subseq_Cons2_neq subseq_Cons2' list.exhaust)
    then show ?thesis by auto
  next
    case (Cons x rest)
    define pre where "pre = takeWhile (\<lambda>x. x \<noteq> 10) (c # s)"
    have whole: "c # s = pre @ 10 # rest" unfolding pre_def by (rule str_lines_break [OF Cons])
    have lines: "subseq ls (strip_cr pre # str_lines rest)"
      using 2(2) Cons by (simp add: pre_def)
    note IH = 2(1) [OF Cons]
    show ?thesis
    proof (cases "subseq ls (str_lines rest)")
      case True
      then have "subseq (join_with [10] ls) rest" by (rule IH)
      then show ?thesis unfolding whole by (intro list_emb_append2 list_emb_Cons)
    next
      case False
      with lines obtain us where ls: "ls = strip_cr pre # us" and us: "subseq us (str_lines rest)"
        by (cases ls) (auto simp: subseq_Cons2_iff split: if_splits)
      show ?thesis
      proof (cases us)
        case Nil
        then show ?thesis using ls strip_cr_subseq unfolding whole by (simp add: list_emb_prefix)
      next
        case (Cons u us')
        then have "join_with [10] ls = strip_cr pre @ 10 # join_with [10] us" by (simp add: ls)
        then show ?thesis unfolding whole by (simp only: subseq_around [OF strip_cr_subseq IH [OF us]])
      qed
    qed
  qed
qed (auto dest: list_emb_Nil2)

lemma line_subseq: "l \<in> set (str_lines t) \<Longrightarrow> subseq l t"
  using join_lines_subseq [of "[l]" t] by (simp add: subseq_singleton_left)

lemma trim_line_subseq: "l \<in> set (str_lines t) \<Longrightarrow> subseq (trim l) t"
  using line_subseq trim_sublist sublist_imp_subseq subseq_order.order_trans by blast

text \<open>What a compressed text is: the text itself, some of its lines in order, or one line without
  its surrounding white space (nothing, when the text has no line with content).\<close>

definition verbatim_of :: "rstr \<Rightarrow> rstr \<Rightarrow> bool" where
  "verbatim_of text out \<longleftrightarrow>
     out = text \<or>
     (\<exists>ls. ls \<noteq> [] \<and> subseq ls (str_lines text) \<and> out = join_with [10] ls) \<or>
     (\<exists>l \<in> set (str_lines text). trim l \<noteq> [] \<and> out = trim l) \<or>
     (out = [] \<and> (\<forall>l \<in> set (str_lines text). trim l = []))"

lemma max_by_key_in: "max_by_key f xs = Some x \<Longrightarrow> x \<in> set xs"
  by (induction xs arbitrary: x) (auto split: option.splits if_splits)

lemma max_by_key_None [simp]: "max_by_key f xs = None \<longleftrightarrow> xs = []"
  by (cases xs) (auto split: option.splits)

lemma max_by_key_max: "max_by_key f xs = Some x \<Longrightarrow> y \<in> set xs \<Longrightarrow> f y \<le> f x"
  by (induction xs arbitrary: x) (fastforce split: option.splits if_splits)+

lemma first_nonblank_verbatim: "verbatim_of text (first_nonblank text)"
proof (cases "filter (\<lambda>l. l \<noteq> []) (map trim (str_lines text))")
  case Nil
  then show ?thesis by (auto simp: verbatim_of_def first_nonblank_def filter_empty_conv)
next
  case (Cons l ls)
  then have "l \<in> set (filter (\<lambda>l. l \<noteq> []) (map trim (str_lines text)))" by simp
  then have "\<exists>l' \<in> set (str_lines text). trim l' \<noteq> [] \<and> l = trim l'" by auto
  with Cons show ?thesis by (simp add: verbatim_of_def first_nonblank_def)
qed

lemma one_line_verbatim: "verbatim_of text (one_line text)"
proof (cases "max_by_key line_signal (filter (\<lambda>l. l \<noteq> []) (map trim (str_lines text)))")
  case None
  then show ?thesis by (auto simp: verbatim_of_def one_line_def filter_empty_conv)
next
  case (Some l)
  from max_by_key_in [OF Some] Some show ?thesis by (auto simp: verbatim_of_def one_line_def)
qed

lemma enumerate_filter_subseq: "subseq (map snd (filter P (enumerate n ls))) ls"
proof (induction ls arbitrary: n)
  case (Cons l ls)
  then show ?case by (simp add: subseq_Cons2_iff) (metis list_emb_Cons subseq_Cons')
qed simp

lemma keep_lines_verbatim: "verbatim_of text (keep_lines text P)"
proof -
  define kept where
    "kept = map snd (filter (\<lambda>(i, l). P l i (length (str_lines text))) (enumerate 0 (str_lines text)))"
  have "subseq kept (str_lines text)" by (simp only: kept_def enumerate_filter_subseq)
  moreover have "keep_lines text P = (if kept = [] then first_nonblank text else join_with [10] kept)"
    by (simp only: keep_lines_def Let_def kept_def)
  ultimately show ?thesis using first_nonblank_verbatim by (auto simp: verbatim_of_def)
qed

lemma compress_verbatim: "verbatim_of text (compress text t)"
  by (cases t) (simp_all add: keep_lines_verbatim one_line_verbatim, simp add: verbatim_of_def)

lemma verbatim_of_subseq: "verbatim_of text out \<Longrightarrow> subseq out text"
  by (auto simp: verbatim_of_def join_lines_subseq trim_line_subseq)

section \<open>Lemmas: near-duplicate collapse\<close>

definition near_dup :: "candidate \<Rightarrow> candidate \<Rightarrow> bool" where
  "near_dup a b \<longleftrightarrow> hamming (simhash (c_text a)) (simhash (c_text b)) \<le> 3"

text \<open>The specification of the collapse: a candidate survives when no earlier survivor is near it.\<close>

fun survivors :: "candidate list \<Rightarrow> candidate list \<Rightarrow> candidate list" where
  "survivors kept [] = []"
| "survivors kept (c # cs) =
     (if \<exists>k \<in> set kept. near_dup k c then survivors kept cs
      else c # survivors (kept @ [c]) cs)"

fun collapsed :: "candidate list \<Rightarrow> candidate list \<Rightarrow> candidate list" where
  "collapsed kept [] = []"
| "collapsed kept (c # cs) =
     (if \<exists>k \<in> set kept. near_dup k c then c # collapsed kept cs else collapsed (kept @ [c]) cs)"

lemma dedup_spec:
  "dedup cs (kept, map (simhash \<circ> c_text) kept, ded) =
   (kept @ survivors kept cs, map (simhash \<circ> c_text) (kept @ survivors kept cs),
    ded @ map c_id (collapsed kept cs))"
proof (induction cs arbitrary: kept ded)
  case (Cons c cs)
  have near: "list_ex (\<lambda>k. hamming k (simhash (c_text c)) \<le> 3) (map (simhash \<circ> c_text) kept) \<longleftrightarrow>
      (\<exists>k \<in> set kept. near_dup k c)"
    by (simp add: near_dup_def list_ex_iff)
  show ?case
    using Cons.IH [of kept "ded @ [c_id c]"] Cons.IH [of "kept @ [c]" ded]
    by (simp only: dedup.simps Let_def near survivors.simps collapsed.simps) (simp add: comp_def)
qed simp

lemma survivors_partition: "mset (survivors kept cs) + mset (collapsed kept cs) = mset cs"
  by (induction cs arbitrary: kept) auto

lemma survivors_subseq: "subseq (survivors kept cs) cs"
  by (induction cs arbitrary: kept) auto

lemma survivors_apart:
  "c \<in> set (survivors kept cs) \<Longrightarrow> k \<in> set kept \<Longrightarrow> \<not> near_dup k c"
proof (induction cs arbitrary: kept)
  case (Cons a cs)
  show ?case
    using Cons.prems Cons.IH [of kept] Cons.IH [of "kept @ [a]"]
    by (cases "\<exists>k \<in> set kept. near_dup k a") auto
qed simp

lemma survivors_sorted_apart: "sorted_wrt (\<lambda>a b. \<not> near_dup a b) (survivors kept cs)"
  by (induction cs arbitrary: kept) (auto dest: survivors_apart)

lemma collapsed_near:
  "c \<in> set (collapsed kept cs) \<Longrightarrow> \<exists>k \<in> set (kept @ survivors kept cs). near_dup k c"
proof (induction cs arbitrary: kept)
  case (Cons a cs)
  show ?case
    using Cons.prems Cons.IH [of kept] Cons.IH [of "kept @ [a]"]
    by (cases "\<exists>k \<in> set kept. near_dup k a") auto
qed simp

section \<open>Lemmas: the packed state\<close>

lemma serial_position_mset [simp]: "mset (serial_position_order bs) = mset bs"
  by (auto simp: serial_position_order_def split: list.splits)

lemma cache_stable_mset [simp]: "mset (cache_stable_order bs prev) = mset bs"
  by (simp add: cache_stable_order_def)

text \<open>The intermediate results of \<^verbatim>\<open>pack\<close>: the surviving candidates, the tiers chosen for them, and
  the min-one fallback.\<close>

abbreviation kept_of :: "candidate list \<Rightarrow> candidate list" where
  "kept_of ranked \<equiv> survivors [] ranked"

definition avail_of :: "pack_options \<Rightarrow> nat" where
  "avail_of opts = o_budget_tokens opts - min (o_header_reserve opts) (o_budget_tokens opts div 4)"

lemma avail_of_le: "avail_of opts \<le> o_budget_tokens opts"
  by (simp add: avail_of_def)

definition selection :: "(rchar \<Rightarrow> bool) \<Rightarrow> pack_options \<Rightarrow> candidate list \<Rightarrow>
    nat \<times> packed_block list \<times> int list" where
  "selection uni opts ranked =
     force_top uni (o_budget_tokens opts) (kept_of ranked)
       (choose_tiers uni (avail_of opts) (kept_of ranked) (0, [], []))"

definition final_order :: "pack_options \<Rightarrow> packed_block list \<Rightarrow> packed_block list" where
  "final_order opts bs =
     (if o_cache_stable_order opts \<and> o_prev_used_ids opts \<noteq> []
      then cache_stable_order bs (o_prev_used_ids opts) else serial_position_order bs)"

lemma final_order_mset [simp]: "mset (final_order opts bs) = mset bs"
  by (simp add: final_order_def)

lemma final_order_set [simp]: "set (final_order opts bs) = set bs"
  using final_order_mset mset_eq_setD by blast

lemma pack_ranked_eq:
  "pack_ranked uni opts naive ranked =
     (case selection uni opts ranked of (u, bs, ds) \<Rightarrow>
        \<lparr>blocks = final_order opts bs, used_tokens = u, budget_tokens = o_budget_tokens opts,
         dropped_ids = ds, deduped_ids = map c_id (collapsed [] ranked), naive_tokens = naive,
         delta_skipped_ids = []\<rparr>)"
  using dedup_spec [of ranked "[]" "[]"]
  by (simp add: pack_ranked_def selection_def avail_of_def final_order_def Let_def
      split: prod.split)

text \<open>Either the loop placed a block and its result stands, or the top candidate is forced in at
  one line, or nothing is packed.\<close>

lemma selection_cases:
  obtains (placed) u bs ds where
      "choose_tiers uni (avail_of opts) (kept_of ranked) (0, [], []) = (u, bs, ds)" "bs \<noteq> []"
      "selection uni opts ranked = (u, bs, ds)"
  | (forced) u ds c cs where
      "choose_tiers uni (avail_of opts) (kept_of ranked) (0, [], []) = (u, [], ds)"
      "kept_of ranked = c # cs" "b_tokens (block_at uni c OneLine) \<le> o_budget_tokens opts"
      "selection uni opts ranked =
        (b_tokens (block_at uni c OneLine), [block_at uni c OneLine], filter (\<lambda>d. d \<noteq> c_id c) ds)"
  | (none_fit) u ds where
      "choose_tiers uni (avail_of opts) (kept_of ranked) (0, [], []) = (u, [], ds)"
      "selection uni opts ranked = (u, [], ds)"
      "\<forall>c cs. kept_of ranked = c # cs \<longrightarrow>
        o_budget_tokens opts < b_tokens (block_at uni c OneLine)"
proof -
  obtain u bs ds where ch:
    "choose_tiers uni (avail_of opts) (kept_of ranked) (0, [], []) = (u, bs, ds)"
    by (cases "choose_tiers uni (avail_of opts) (kept_of ranked) (0, [], [])")
  show thesis
  proof (cases "bs = []")
    case False
    then obtain b bs' where "bs = b # bs'" by (cases bs) auto
    then show thesis using ch placed by (simp add: selection_def force_top_def)
  next
    case True
    show thesis
    proof (cases "kept_of ranked")
      case Nil
      with ch True show thesis
        by (intro none_fit [of u ds]) (simp_all add: selection_def force_top_def)
    next
      case (Cons c cs)
      then show thesis
        using ch True forced none_fit
        by (cases "b_tokens (block_at uni c OneLine) \<le> o_budget_tokens opts")
          (simp_all add: selection_def force_top_def Let_def)
    qed
  qed
qed

lemma selection_budget:
  assumes "selection uni opts ranked = (u, bs, ds)"
  shows "u = total_tokens bs \<and> u \<le> o_budget_tokens opts"
proof (cases rule: selection_cases [of uni opts ranked])
  case (placed u bs ds)
  then show ?thesis using choose_tiers_budget [OF placed(1)] avail_of_le [of opts] assms by auto
next
  case (none_fit u ds)
  then show ?thesis using choose_tiers_budget [OF none_fit(1)] avail_of_le [of opts] assms by auto
qed (use assms in auto)

lemma selection_blocks:
  assumes "selection uni opts ranked = (u, bs, ds)" and "b \<in> set bs"
  shows "\<exists>c \<in> set (kept_of ranked). block_of uni c b \<and>
    (respects_floor b \<or> (bs = [b] \<and> b_tier b = OneLine \<and> c = hd (kept_of ranked)))"
proof (cases rule: selection_cases [of uni opts ranked])
  case (placed u bs ds)
  then show ?thesis using choose_tiers_blocks [OF placed(1)] assms by auto
next
  case (forced u ds c cs)
  then show ?thesis using assms by (auto simp: block_of_def)
qed (use assms in auto)

abbreviation full_blocks :: "(rchar \<Rightarrow> bool) \<Rightarrow> candidate list \<Rightarrow> packed_block list" where
  "full_blocks uni cs \<equiv> map (\<lambda>c. block_at uni c Full) cs"

lemma selection_all_full:
  assumes "total_tokens (full_blocks uni (kept_of ranked)) \<le> avail_of opts"
  shows "selection uni opts ranked =
    (total_tokens (full_blocks uni (kept_of ranked)), full_blocks uni (kept_of ranked), [])"
  using choose_tiers_all_full [of 0 uni "kept_of ranked" "avail_of opts" "[]" "[]"] assms
  by (cases "kept_of ranked") (simp_all add: selection_def force_top_def)

lemma mset_remove_distinct:
  "distinct xs \<Longrightarrow> x \<in> set xs \<Longrightarrow> mset (filter (\<lambda>y. y \<noteq> x) xs) + {#x#} = mset xs"
proof (induction xs)
  case (Cons y ys)
  have "filter (\<lambda>z. z \<noteq> y) ys = ys" using Cons.prems by (auto simp: filter_id_conv)
  then show ?case using Cons by (cases "x = y") auto
qed simp

lemma selection_ids:
  assumes "selection uni opts ranked = (u, bs, ds)" and "distinct (map c_id ranked)"
  shows "mset (map b_id bs) + mset ds = mset (map c_id (kept_of ranked))"
proof (cases rule: selection_cases [of uni opts ranked])
  case (placed u bs ds)
  then show ?thesis using choose_tiers_ids [OF placed(1)] assms by simp
next
  case (none_fit u ds)
  then show ?thesis using choose_tiers_ids [OF none_fit(1)] assms by simp
next
  case (forced u ds' c cs)
  have "distinct (map c_id (kept_of ranked))"
    using assms(2) subseq_map [OF survivors_subseq [of "[]" ranked], of c_id]
    by (metis distinct_nthsI subseq_conv_nths)
  moreover have ds': "mset ds' = mset (map c_id (kept_of ranked))"
    using choose_tiers_ids [OF forced(1)] by simp
  ultimately have "distinct ds'" by (metis mset_eq_imp_distinct_iff)
  moreover have "c_id c \<in> set ds'" using mset_eq_setD [OF ds'] forced(2) by simp
  ultimately show ?thesis using assms(1) forced(4) ds' mset_remove_distinct [of ds' "c_id c"] by auto
qed

lemma rank_mset: "mset (rank cands) = mset (map trust_adjust cands)"
proof -
  have ins: "mset (insert_by cmp x ys) = add_mset x (mset ys)" for cmp and x :: candidate and ys
    by (induction ys) auto
  have "mset (foldr (insert_by cmp) xs []) = mset xs" for cmp and xs :: "candidate list"
    by (induction xs) (simp_all add: ins)
  then show ?thesis by (simp add: rank_def sort_by_def)
qed

lemma trust_adjust_simps [simp]:
  "c_id (trust_adjust c) = c_id c" "c_text (trust_adjust c) = c_text c"
  "c_title (trust_adjust c) = c_title c" "c_kind (trust_adjust c) = c_kind c"
  by (simp_all add: trust_adjust_def)

lemma rank_ids_mset: "mset (map c_id (rank cands)) = mset (map c_id cands)"
  using rank_mset [of cands] by (simp add: multiset.map_comp comp_def)

lemma rank_set: "set (rank cands) = trust_adjust ` set cands"
  using mset_eq_setD [OF rank_mset [of cands]] by simp

lemma set_kept_of: "set (kept_of ranked) \<subseteq> set ranked"
  using survivors_subseq [of "[]" ranked] by (metis set_nths_subset subseq_conv_nths)

lemma block_at_trust_adjust [simp]: "block_at uni (trust_adjust c) t = block_at uni c t"
  by (simp add: block_at_def)

section \<open>Lemmas: ranking\<close>

definition no_nan :: "candidate \<Rightarrow> bool" where
  "no_nan c \<longleftrightarrow> c_score c \<noteq> NaN"

definition rank_key :: "candidate \<Rightarrow> int \<times> int" where
  "rank_key c = (- the (f32_key (c_score c)), c_id c)"

lemma f32_key_Some: "x \<noteq> NaN \<Longrightarrow> \<exists>k. f32_key x = Some k"
  by (cases x) simp_all

lemma rank_cmp_key:
  assumes "no_nan a" and "no_nan b"
  shows "rank_cmp a b \<noteq> Greater \<longleftrightarrow> rank_key a \<le> rank_key b"
proof -
  obtain x y where "f32_key (c_score a) = Some x" "f32_key (c_score b) = Some y"
    using assms f32_key_Some by (metis no_nan_def)
  then show ?thesis
    by (auto simp: rank_cmp_def rank_key_def f32_partial_cmp_def cmp_of_def less_eq_prod_def)
qed

lemma sort_by_rank_key:
  assumes "\<forall>c \<in> set cs. no_nan c"
  shows "sort_by rank_cmp cs = sort_key rank_key cs"
proof -
  have ins: "insert_by rank_cmp c xs = insort_key rank_key c xs"
    if "no_nan c" "\<forall>x \<in> set xs. no_nan x" for c xs
    using that by (induction xs) (auto simp: rank_cmp_key [symmetric])
  have "foldr (insert_by rank_cmp) cs [] = foldr (insort_key rank_key) cs []"
    using assms by (induction cs) (simp_all add: ins flip: sort_key_def)
  then show ?thesis by (simp add: sort_by_def sort_key_def)
qed

lemma trust_adjust_no_nan: "no_nan c \<Longrightarrow> no_nan (trust_adjust c)"
proof -
  have "trust_prior k \<noteq> NaN \<and> (\<forall>s. trust_prior k \<noteq> Inf s)" for k
    by (cases k) simp_all
  then obtain s m where "trust_prior (c_kind c) = Fin s m"
    by (metis f32.exhaust)
  moreover assume "no_nan c"
  ultimately show ?thesis
    by (cases "c_score c") (simp_all add: no_nan_def trust_adjust_def Let_def f32_round_def)
qed

lemma rank_sorted:
  assumes "\<forall>c \<in> set cands. no_nan c"
  shows "rank cands = sort_key rank_key (map trust_adjust cands)"
  unfolding rank_def using assms trust_adjust_no_nan by (intro sort_by_rank_key) auto

lemma rank_unique:
  assumes "\<forall>c \<in> set cands. no_nan c" and "distinct (map c_id cands)"
    and "mset cands = mset cands'"
  shows "rank cands = rank cands'"
proof -
  have inj: "inj_on rank_key (set (map trust_adjust cands))"
    using assms(2) by (auto simp: inj_on_def rank_key_def distinct_map)
  have "sort_key rank_key (map trust_adjust cands) = sort_key rank_key (map trust_adjust cands')"
    using assms(3) inj by (intro sort_key_inj_key_eq) simp_all
  moreover have "\<forall>c \<in> set cands'. no_nan c"
    using assms(1) mset_eq_setD [OF assms(3)] by simp
  ultimately show ?thesis using assms(1) rank_sorted by simp
qed

section \<open>Lemmas: token estimate and savings\<close>

lemma scan_char_step:
  "chars (scan_char uni c st) = Suc (chars st)"
  "words (scan_char uni c st) + punct_runs (scan_char uni c st) + cjk (scan_char uni c st)
     \<le> Suc (words st + punct_runs st + cjk st)"
  "cjk (scan_char uni c st) = cjk st + (if is_cjk c then 1 else 0)"
  by (simp_all add: scan_char_def Let_def)

lemma scan_fold:
  "chars (fold (scan_char uni) t st) = chars st + length t"
  "words (fold (scan_char uni) t st) + punct_runs (fold (scan_char uni) t st) +
     cjk (fold (scan_char uni) t st) \<le> words st + punct_runs st + cjk st + length t"
  "cjk (fold (scan_char uni) t st) = cjk st + length (filter is_cjk t)"
proof (induction t arbitrary: st)
  case (Cons c t)
  { case 1 show ?case using Cons(1) by (simp add: scan_char_step) }
  { case 2 show ?case using Cons(2) [of "scan_char uni c st"] scan_char_step(2) [of uni c st] by simp }
  { case 3 show ?case using Cons(3) by (simp add: scan_char_step) }
qed simp_all

lemma div_ceil_le: "0 < b \<Longrightarrow> a \<le> c * b \<Longrightarrow> div_ceil a b \<le> c"
  unfolding div_ceil_def by (simp add: less_Suc_eq_le [symmetric] div_less_iff_less_mult)

lemma f32_ratio_le_one:
  assumes "m \<le> n" and "0 < n"
  shows "\<exists>r. f32_div (Fin False m) (Fin False n) = Fin False r \<and> r \<le> f32_unit"
  using f32_round_le [of "m * f32_unit" 1 149 n False] assms by (simp add: f32_unit_def)

lemma f32_permille_le:
  assumes "r \<le> f32_unit"
  shows "\<exists>q. f32_mul (Fin False r) (f32_of_nat 1000) = Fin False q \<and> q \<le> 1000 * f32_unit"
proof -
  have "r * (1000 * f32_unit) \<le> 1000 * 2 ^ 149 * f32_unit"
    using mult_right_mono [OF assms, of "1000 * f32_unit"] by (simp add: f32_unit_def)
  from f32_round_le [OF this, of False] show ?thesis
    by (simp add: f32_of_nat_exact) (simp add: f32_unit_def)
qed

lemma f32_tenth_le:
  assumes "q \<le> 1000 * f32_unit"
  shows "\<exists>p. f32_div (f32_round_int (Fin False q)) (f32_of_nat 10) = Fin False p \<and>
    p \<le> 100 * f32_unit"
proof -
  define i where "i = (2 * q + f32_unit) div (2 * f32_unit)"
  have u: "0 < f32_unit" by (simp add: f32_unit_def)
  have "2 * q + f32_unit < 1001 * (2 * f32_unit)" using assms u by simp
  then have "i < 1001" unfolding i_def using u by (simp add: div_less_iff_less_mult)
  then have "i * f32_unit * f32_unit \<le> 1000 * f32_unit * f32_unit"
    by (intro mult_right_mono) simp_all
  then have "i * f32_unit * f32_unit \<le> 100 * 2 ^ 149 * (10 * f32_unit)"
    by (simp add: f32_unit_def)
  from f32_round_le [OF this, of False] u show ?thesis
    by (simp add: f32_of_nat_exact flip: i_def) (simp add: f32_unit_def)
qed

lemma pack_ranked_budget:
  "used_tokens (pack_ranked uni opts n ranked) = total_tokens (blocks (pack_ranked uni opts n ranked))"
  "total_tokens (blocks (pack_ranked uni opts n ranked)) \<le> o_budget_tokens opts"
proof -
  obtain u bs ds where sel: "selection uni opts ranked = (u, bs, ds)"
    by (cases "selection uni opts ranked")
  have "total_tokens (final_order opts bs) = total_tokens bs"
    unfolding sum_mset_sum_list [symmetric] mset_map final_order_mset ..
  then show
    "used_tokens (pack_ranked uni opts n ranked) = total_tokens (blocks (pack_ranked uni opts n ranked))"
    "total_tokens (blocks (pack_ranked uni opts n ranked)) \<le> o_budget_tokens opts"
    using selection_budget [OF sel] by (simp_all add: pack_ranked_eq sel)
qed

lemma choose_tiers_none:
  assumes "choose_tiers uni avail cs (u, bs, ds) = (u', [], ds')"
  shows "\<forall>c \<in> set cs. place uni avail u c ladder = None"
  using assms
proof (induction cs arbitrary: ds)
  case (Cons c cs)
  show ?case
  proof (cases "place uni avail u c ladder")
    case (Some b)
    with Cons.prems choose_tiers_order [of uni avail cs "u + b_tokens b" "bs @ [b]" ds]
    show ?thesis by auto
  qed (use Cons in auto)
qed simp

lemma kept_of_Cons: "kept_of (c # cs) = c # survivors [c] cs"
  by simp

lemma rank_Nil_iff [simp]: "rank cands = [] \<longleftrightarrow> cands = []"
  using rank_set [of cands] by auto

lemma selection_floor:
  assumes "selection uni opts ranked = (u, bs, ds)" and "b \<in> set bs"
  shows "respects_floor b \<or> (bs = [b] \<and> b = block_at uni (hd ranked) OneLine \<and>
    (\<forall>c \<in> set (kept_of ranked). place uni (avail_of opts) 0 c ladder = None))"
proof (cases rule: selection_cases [of uni opts ranked])
  case (placed u bs ds)
  then show ?thesis using choose_tiers_blocks [OF placed(1)] assms by auto
next
  case (forced u ds c cs)
  moreover from forced(2) have "hd ranked = c" by (cases ranked) simp_all
  ultimately show ?thesis using choose_tiers_none [OF forced(1)] assms by auto
qed (use assms in auto)

lemma selection_min_one:
  assumes "selection uni opts ranked = (u, [], ds)" and "ranked \<noteq> []"
  shows "o_budget_tokens opts < b_tokens (block_at uni (hd ranked) OneLine)"
proof (cases rule: selection_cases [of uni opts ranked])
  case (none_fit u ds)
  then show ?thesis using assms(2) by (cases ranked) simp_all
qed (use assms in auto)

lemma final_order_Nil [simp]: "final_order opts bs = [] \<longleftrightarrow> bs = []"
  by (metis final_order_mset mset_zero_iff)

lemma final_order_single [simp]: "final_order opts [b] = [b]"
  by (simp add: final_order_def cache_stable_order_def serial_position_order_def)

lemma pack_cands_ids:
  assumes "distinct (map c_id cands)"
  shows "mset (map b_id (blocks (pack_cands uni cands opts))) +
    mset (dropped_ids (pack_cands uni cands opts)) +
    mset (deduped_ids (pack_cands uni cands opts)) = mset (map c_id cands)"
proof -
  obtain u bs ds where sel: "selection uni opts (rank cands) = (u, bs, ds)"
    by (cases "selection uni opts (rank cands)")
  have "distinct (map c_id (rank cands))"
    using assms rank_ids_mset mset_eq_imp_distinct_iff by blast
  then have "mset (map b_id bs) + mset ds = mset (map c_id (kept_of (rank cands)))"
    by (rule selection_ids [OF sel])
  moreover have "image_mset c_id (mset (kept_of (rank cands)) + mset (collapsed [] (rank cands))) =
      mset (map c_id cands)"
    using rank_ids_mset [of cands] by (simp add: survivors_partition)
  ultimately show ?thesis by (simp add: pack_cands_def pack_ranked_eq sel)
qed

section \<open>Properties\<close>

text \<open>C12. The packer's hard budget, for \<^verbatim>\<open>pack\<close> and \<^verbatim>\<open>pack_delta\<close>: the reported
  \<^verbatim>\<open>used_tokens\<close> is exactly the sum of the estimates of the blocks returned, and never exceeds
  \<^verbatim>\<open>budget_tokens\<close>. It holds in whatever order the candidates are ranked, so also where a NaN
  score leaves the order of \<^verbatim>\<open>sort_by\<close> unspecified.\<close>

theorem pack_within_budget:
  "used_tokens (pack_ranked uni opts n ranked) = total_tokens (blocks (pack_ranked uni opts n ranked))
   \<and> used_tokens (pack_ranked uni opts n ranked) \<le> o_budget_tokens opts
   \<and> used_tokens (pack_cands uni cands opts) = total_tokens (blocks (pack_cands uni cands opts))
   \<and> used_tokens (pack_cands uni cands opts) \<le> o_budget_tokens opts
   \<and> used_tokens (pack_delta uni cands opts) = total_tokens (blocks (pack_delta uni cands opts))
   \<and> used_tokens (pack_delta uni cands opts) \<le> o_budget_tokens opts"
  using pack_ranked_budget [of uni opts] pack_ranked_budget
    [of uni "opts\<lparr>o_prev_used_ids := [], o_cache_stable_order := False\<rparr>"]
  by (simp add: pack_cands_def pack_delta_def Let_def)

text \<open>C19. Compression is by deletion only. Every block of a pack stems from one candidate, whose
  identity, kind and title it keeps; its text is the candidate's text, a selection of its lines in
  order, or one line trimmed (empty only if the candidate has no line with content), hence a
  subsequence of the candidate's characters; and its token count is the estimate of what is
  rendered.\<close>

theorem pack_verbatim:
  assumes "b \<in> set (blocks (pack_cands uni cands opts))"
  shows "\<exists>c \<in> set cands. b_id b = c_id c \<and> b_kind b = c_kind c \<and> b_title b = c_title c \<and>
    b_text b = compress (c_text c) (b_tier b) \<and> verbatim_of (c_text c) (b_text b) \<and>
    subseq (b_text b) (c_text c) \<and>
    b_tokens b = estimate_tokens uni (render_block_text (b_title b) (b_text b))"
proof -
  obtain u bs ds where sel: "selection uni opts (rank cands) = (u, bs, ds)"
    by (cases "selection uni opts (rank cands)")
  with assms have "b \<in> set bs" by (simp add: pack_cands_def pack_ranked_eq)
  with selection_blocks [OF sel] obtain c0 where "c0 \<in> set (rank cands)" "block_of uni c0 b"
    using set_kept_of by blast
  then obtain c where c: "c \<in> set cands" "b = block_at uni c (b_tier b)"
    by (auto simp: rank_set block_of_def)
  then have body: "b_text b = compress (c_text c) (b_tier b)" by (metis block_at_simps(5))
  have "b_tokens b = estimate_tokens uni (render_block_text (b_title b) (b_text b))"
    by (subst c(2), subst (2 3) c(2)) (simp add: block_at_def Let_def)
  moreover have "b_id b = c_id c" "b_kind b = c_kind c" "b_title b = c_title c"
    by (subst c(2), simp)+
  ultimately show ?thesis
    using c(1) body compress_verbatim verbatim_of_subseq by (metis (no_types))
qed

text \<open>A sample input for the witnesses: a fact of a few words and a chat line.\<close>

definition no_uni :: "rchar \<Rightarrow> bool" where
  "no_uni c \<longleftrightarrow> False"

definition sample_fact :: candidate where
  "sample_fact = \<lparr>c_id = 7, c_title = [], c_text = lit ''port = 8080'',
     c_score = Fin False f32_unit, c_kind = KnownFact\<rparr>"

definition sample_chat :: candidate where
  "sample_chat = \<lparr>c_id = 3, c_title = lit ''log'', c_text = lit ''ok'',
     c_score = Fin False 0, c_kind = Chat\<rparr>"

lemma sample_tokens: "b_tokens (block_at no_uni sample_fact Full) = 4"
  by (simp add: block_at_def render_block_text_def estimate_tokens_def sample_fact_def lit_def
      scan_char_def scan_init_def is_cjk_def is_whitespace_def is_alphanumeric_def
      is_ascii_alphanumeric_def is_ascii_digit_def is_ascii_uppercase_def is_ascii_lowercase_def
      div_ceil_def)

lemma rank_single [simp]: "rank [c] = [trust_adjust c]"
  by (simp add: rank_def sort_by_def)

lemma sample_pack: "blocks (pack_cands no_uni [sample_fact] default_options) =
    [block_at no_uni sample_fact Full]"
  using selection_all_full [of no_uni "[trust_adjust sample_fact]" default_options]
  by (simp add: pack_cands_def pack_ranked_eq avail_of_def default_options_def sample_tokens
      final_order_def serial_position_order_def)

theorem pack_verbatim_witness:
  "\<exists>c \<in> set [sample_fact]. b_id (block_at no_uni sample_fact Full) = c_id c \<and>
    b_kind (block_at no_uni sample_fact Full) = c_kind c \<and>
    b_title (block_at no_uni sample_fact Full) = c_title c \<and>
    b_text (block_at no_uni sample_fact Full) =
      compress (c_text c) (b_tier (block_at no_uni sample_fact Full)) \<and>
    verbatim_of (c_text c) (b_text (block_at no_uni sample_fact Full)) \<and>
    subseq (b_text (block_at no_uni sample_fact Full)) (c_text c) \<and>
    b_tokens (block_at no_uni sample_fact Full) =
      estimate_tokens no_uni (render_block_text (b_title (block_at no_uni sample_fact Full))
        (b_text (block_at no_uni sample_fact Full)))"
  by (rule pack_verbatim [of _ no_uni "[sample_fact]" default_options]) (simp add: sample_pack)

text \<open>Nothing is lost silently: when the candidates have distinct ids, every id handed to
  \<^verbatim>\<open>pack\<close> is accounted for exactly once, in a block, in \<^verbatim>\<open>dropped_ids\<close> or in
  \<^verbatim>\<open>deduped_ids\<close>; \<^verbatim>\<open>pack_delta\<close> adds \<^verbatim>\<open>delta_skipped_ids\<close>, which are the ids of the
  previous pack and occur nowhere else.\<close>

theorem pack_accounts_for_ids:
  assumes "distinct (map c_id cands)"
  shows "mset (map b_id (blocks (pack_cands uni cands opts))) +
      mset (dropped_ids (pack_cands uni cands opts)) +
      mset (deduped_ids (pack_cands uni cands opts)) = mset (map c_id cands) \<and>
    mset (map b_id (blocks (pack_delta uni cands opts))) +
      mset (dropped_ids (pack_delta uni cands opts)) +
      mset (deduped_ids (pack_delta uni cands opts)) +
      mset (delta_skipped_ids (pack_delta uni cands opts)) = mset (map c_id cands) \<and>
    set (delta_skipped_ids (pack_delta uni cands opts)) =
      set (map c_id cands) \<inter> set (o_prev_used_ids opts)"
proof -
  let ?in = "\<lambda>c. c_id c \<in> set (o_prev_used_ids opts)"
  have "mset (map c_id (filter (\<lambda>c. \<not> ?in c) cands)) + mset (map c_id (filter ?in cands)) =
      mset (map c_id cands)"
    by (induction cands) auto
  moreover have "distinct (map c_id (filter (\<lambda>c. \<not> ?in c) cands))"
    using assms by (rule distinct_map_filter)
  ultimately show ?thesis
    using pack_cands_ids [OF assms] pack_cands_ids [of "filter (\<lambda>c. \<not> ?in c) cands"]
    by (auto simp: pack_delta_def Let_def)
qed

theorem pack_accounts_for_ids_witness:
  "mset (map b_id (blocks (pack_cands no_uni [sample_fact, sample_chat] default_options))) +
    mset (dropped_ids (pack_cands no_uni [sample_fact, sample_chat] default_options)) +
    mset (deduped_ids (pack_cands no_uni [sample_fact, sample_chat] default_options)) = {#7, 3#}"
  using pack_accounts_for_ids [of "[sample_fact, sample_chat]" no_uni default_options]
  by (simp add: sample_fact_def sample_chat_def)

text \<open>The per-kind floor: a block is never compressed below the floor of its kind, except for
  the single forced line of the min-one rule, which is used only when no candidate fits at any
  tier its floor allows; and that rule guarantees a non-empty pack whenever the best candidate's
  best line fits the whole budget.\<close>

theorem pack_respects_floor:
  assumes "cands \<noteq> []"
  shows "(\<forall>b \<in> set (blocks (pack_cands uni cands opts)). respects_floor b \<or>
      (blocks (pack_cands uni cands opts) = [b] \<and> b = block_at uni (hd (rank cands)) OneLine \<and>
       (\<forall>c \<in> set (kept_of (rank cands)). place uni (avail_of opts) 0 c ladder = None))) \<and>
    (b_tokens (block_at uni (hd (rank cands)) OneLine) \<le> o_budget_tokens opts \<longrightarrow>
      blocks (pack_cands uni cands opts) \<noteq> [])"
proof -
  obtain u bs ds where sel: "selection uni opts (rank cands) = (u, bs, ds)"
    by (cases "selection uni opts (rank cands)")
  then show ?thesis
    using selection_floor [OF sel] selection_min_one [of uni opts "rank cands" u ds] assms
    by (fastforce simp: pack_cands_def pack_ranked_eq)
qed

theorem pack_respects_floor_witness:
  "respects_floor (block_at no_uni sample_fact Full) \<or>
   ([block_at no_uni sample_fact Full] = [block_at no_uni sample_fact OneLine] \<and>
    (\<forall>c \<in> set (kept_of (rank [sample_fact])).
      place no_uni (avail_of default_options) 0 c ladder = None))"
  using pack_respects_floor [of "[sample_fact]" no_uni default_options]
  by (simp add: sample_pack)

text \<open>Compression happens only under pressure: if the surviving candidates fit verbatim into
  the budget less the header reserve, every one of them is packed in full and none is dropped.\<close>

theorem pack_lossless_when_it_fits:
  assumes "total_tokens (full_blocks uni (kept_of (rank cands))) \<le> avail_of opts"
  shows "mset (blocks (pack_cands uni cands opts)) = mset (full_blocks uni (kept_of (rank cands))) \<and>
    dropped_ids (pack_cands uni cands opts) = []"
  by (simp add: pack_cands_def pack_ranked_eq selection_all_full [OF assms])

theorem pack_lossless_when_it_fits_witness:
  "mset (blocks (pack_cands no_uni [sample_fact] default_options)) =
     {#block_at no_uni sample_fact Full#} \<and>
   dropped_ids (pack_cands no_uni [sample_fact] default_options) = []"
  using pack_lossless_when_it_fits [of no_uni "[sample_fact]" default_options]
  by (simp add: sample_tokens avail_of_def default_options_def)

text \<open>Never pay twice for the same fact: of the ranked candidates, the loop of step 2 keeps a
  subsequence no two members of which are within SimHash distance 3, collapses exactly the others,
  and each collapsed candidate is within distance 3 of one that is kept.\<close>

theorem dedup_collapses_near_duplicates:
  assumes "dedup ranked ([], [], []) = (kept, hs, ded)"
  shows "subseq kept ranked \<and> hs = map (simhash \<circ> c_text) kept \<and>
    sorted_wrt (\<lambda>a b. 3 < hamming (simhash (c_text a)) (simhash (c_text b))) kept \<and>
    (\<exists>rest. ded = map c_id rest \<and> mset kept + mset rest = mset ranked \<and>
      (\<forall>c \<in> set rest. \<exists>k \<in> set kept. hamming (simhash (c_text k)) (simhash (c_text c)) \<le> 3))"
proof -
  have res: "kept = survivors [] ranked" "hs = map (simhash \<circ> c_text) kept"
    "ded = map c_id (collapsed [] ranked)"
    using assms dedup_spec [of ranked "[]" "[]"] by simp_all
  have near: "(\<lambda>a b. 3 < hamming (simhash (c_text a)) (simhash (c_text b))) = (\<lambda>a b. \<not> near_dup a b)"
    by (simp add: near_dup_def not_le fun_eq_iff)
  have "\<forall>c \<in> set (collapsed [] ranked). \<exists>k \<in> set kept. near_dup k c"
    using collapsed_near [of _ "[]" ranked] res(1) by simp
  then show ?thesis
    unfolding near using res survivors_subseq survivors_sorted_apart survivors_partition
    by (auto simp: near_dup_def intro!: exI [of _ "collapsed [] ranked"])
qed

lemma hamming_refl [simp]: "hamming a a = 0"
  by (simp add: hamming_def)

theorem dedup_collapses_near_duplicates_witness:
  "subseq [sample_fact] [sample_fact, sample_fact\<lparr>c_id := 8\<rparr>] \<and>
   dedup [sample_fact, sample_fact\<lparr>c_id := 8\<rparr>] ([], [], []) =
     ([sample_fact], [simhash (c_text sample_fact)], [8])"
  using dedup_collapses_near_duplicates
    [of "[sample_fact, sample_fact\<lparr>c_id := 8\<rparr>]" "[sample_fact]"
      "[simhash (c_text sample_fact)]" "[8]"]
  by simp

text \<open>Packing is deterministic in the set of candidates: with distinct ids and no NaN score,
  the order in which the candidates arrive has no influence on the pack.\<close>

theorem pack_order_independent:
  assumes "mset cands = mset cands'" and "distinct (map c_id cands)"
    and "\<forall>c \<in> set cands. no_nan c"
  shows "pack_cands uni cands opts = pack_cands uni cands' opts"
proof -
  have "naive_cost uni cands = naive_cost uni cands'"
    unfolding naive_cost_def sum_mset_sum_list [symmetric] mset_map assms(1) ..
  then show ?thesis using rank_unique [OF assms(3,2,1)] by (simp add: pack_cands_def)
qed

theorem pack_order_independent_witness:
  "pack_cands no_uni [sample_fact, sample_chat] default_options =
   pack_cands no_uni [sample_chat, sample_fact] default_options"
  by (rule pack_order_independent) (simp_all add: sample_fact_def sample_chat_def no_nan_def)

lemma subseq_of_member: "x \<in> set xs \<Longrightarrow> subseq [x] xs"
  by (simp add: subseq_singleton_left)

lemma selection_order:
  assumes "selection uni opts ranked = (u, bs, ds)"
  shows "subseq (map b_id bs) (map c_id ranked)"
proof -
  have kept: "subseq (map c_id (kept_of ranked)) (map c_id ranked)"
    by (rule subseq_map [OF survivors_subseq])
  show ?thesis
  proof (cases rule: selection_cases [of uni opts ranked])
    case (placed u bs ds)
    then show ?thesis
      using choose_tiers_order [OF placed(1)] kept assms subseq_order.order_trans by fastforce
  next
    case (forced u ds c cs)
    then have "c_id c \<in> set (map c_id ranked)" using set_kept_of [of ranked] by force
    with forced(4) show ?thesis using assms by (auto simp: subseq_singleton_left)
  qed (use assms in auto)
qed

text \<open>Serial-position order: in a pack of at least two blocks (prompt-cache order not
  requested) the first block is the best ranked of those packed, the last block the second best,
  and the blocks between them follow in rank order.\<close>

theorem pack_serial_position:
  assumes "2 \<le> length (blocks (pack_cands uni cands opts))" and "\<not> o_cache_stable_order opts"
  shows "subseq (b_id (hd (blocks (pack_cands uni cands opts))) #
      b_id (last (blocks (pack_cands uni cands opts))) #
      map b_id (butlast (tl (blocks (pack_cands uni cands opts))))) (map c_id (rank cands))"
proof -
  obtain u bs ds where sel: "selection uni opts (rank cands) = (u, bs, ds)"
    by (cases "selection uni opts (rank cands)")
  have bl: "blocks (pack_cands uni cands opts) = serial_position_order bs"
    using assms(2) by (simp add: pack_cands_def pack_ranked_eq sel final_order_def)
  have "length bs = length (serial_position_order bs)"
    by (metis serial_position_mset size_mset)
  with assms(1) bl obtain b1 b2 rest where bs: "bs = b1 # b2 # rest"
    by (cases bs; cases "tl bs") auto
  then have "serial_position_order bs = b1 # rest @ [b2]"
    by (cases rest) (simp_all add: serial_position_order_def)
  then show ?thesis using selection_order [OF sel] by (simp add: bl bs butlast_append)
qed

definition sample_note :: candidate where
  "sample_note = \<lparr>c_id = 5, c_title = lit ''a'', c_text = [], c_score = Fin False 0, c_kind = Other\<rparr>"

definition sample_file :: candidate where
  "sample_file = \<lparr>c_id = 3, c_title = [], c_text = lit ''ok'', c_score = Fin False 0, c_kind = File\<rparr>"

lemma simhash_ok: "simhash (lit ''ok'') = 626102635892993007"
proof -
  have "fnv1a (utf8 (to_ascii_lowercase (lit ''ok''))) = 626102635892993007"
    by (simp add: fnv1a_def utf8_def utf8_char_def lit_def to_ascii_lowercase_def ascii_lower_def
        is_ascii_uppercase_def)
  moreover have "split_whitespace (lit ''ok'') = [lit ''ok'']"
    by (simp add: split_whitespace_def lit_def is_whitespace_def)
  moreover have "simhash_bits (simhash_votes 626102635892993007 (replicate 64 0)) = 626102635892993007"
    by (simp add: simhash_bits_def simhash_votes_def numeral_eq_Suc)
  ultimately show ?thesis by (simp add: simhash_def Let_def)
qed

lemma sample_apart: "\<not> near_dup sample_file sample_note"
proof -
  have "simhash [] = 0" by (simp add: simhash_def split_whitespace_def)
  moreover have "3 < hamming 626102635892993007 0" by (simp add: hamming_def upt_rec)
  ultimately show ?thesis
    by (simp add: near_dup_def sample_file_def sample_note_def simhash_ok)
qed

lemma sample_two_tokens:
  "b_tokens (block_at no_uni sample_file Full) = 2" "b_tokens (block_at no_uni sample_note Full) = 2"
  by (simp_all add: block_at_def render_block_text_def estimate_tokens_def sample_file_def
      sample_note_def lit_def scan_char_def scan_init_def is_cjk_def is_whitespace_def
      is_alphanumeric_def is_ascii_alphanumeric_def is_ascii_digit_def is_ascii_uppercase_def
      is_ascii_lowercase_def div_ceil_def)

lemma sample_rank: "rank [sample_note, sample_file] = [sample_file, sample_note]"
  by (simp add: rank_sorted no_nan_def sample_note_def sample_file_def trust_adjust_def
      rank_key_def signed_def)

lemma sample_two_pack: "blocks (pack_cands no_uni [sample_note, sample_file] default_options) =
    [block_at no_uni sample_file Full, block_at no_uni sample_note Full]"
  using selection_all_full [of no_uni "[sample_file, sample_note]" default_options] sample_apart
  by (simp add: pack_cands_def pack_ranked_eq avail_of_def default_options_def sample_two_tokens
      final_order_def serial_position_order_def sample_rank)

theorem pack_serial_position_witness: "subseq [3, 5] (map c_id (rank [sample_note, sample_file]))"
  using pack_serial_position [of no_uni "[sample_note, sample_file]" default_options]
  by (simp only: sample_two_pack)
    (simp add: default_options_def sample_file_def sample_note_def block_at_simps)

lemma span_append:
  assumes "\<forall>x \<in> set xs. P x" and "\<forall>y \<in> set ys. \<not> P y"
  shows "takeWhile P (xs @ ys) = xs \<and> dropWhile P (xs @ ys) = ys"
  using assms(1) by (induction xs) (use assms(2) in \<open>cases ys; simp\<close>, simp)

text \<open>Prompt-cache order: the blocks already sent in the previous pack form the prefix of the
  result, the new ones follow in serial-position order, and no block is lost or repeated. The prefix
  is in the order of the current scores: it depends on the previous pack only through the set of
  its ids, not through their order.\<close>

theorem cache_stable_order_prefix:
  assumes "prev \<noteq> []" and "set prev' = set prev"
  shows "takeWhile (\<lambda>b. b_id b \<in> set prev) (cache_stable_order bs prev) =
      filter (\<lambda>b. b_id b \<in> set prev) bs \<and>
    dropWhile (\<lambda>b. b_id b \<in> set prev) (cache_stable_order bs prev) =
      serial_position_order (filter (\<lambda>b. b_id b \<notin> set prev) bs) \<and>
    mset (cache_stable_order bs prev) = mset bs \<and>
    cache_stable_order bs prev' = cache_stable_order bs prev"
proof -
  let ?in = "\<lambda>b. b_id b \<in> set prev" and ?out = "\<lambda>b. b_id b \<notin> set prev"
  have eq: "cache_stable_order bs prev = filter ?in bs @ serial_position_order (filter ?out bs)"
    using assms(1) by (simp add: cache_stable_order_def)
  have none: "\<forall>b \<in> set (serial_position_order (filter ?out bs)). ?out b"
    using mset_eq_setD [OF serial_position_mset [of "filter ?out bs"]] by simp
  have "prev' \<noteq> []" using assms by auto
  then have "cache_stable_order bs prev' = cache_stable_order bs prev"
    using assms by (simp add: cache_stable_order_def)
  then show ?thesis using span_append [of "filter ?in bs" ?in, OF _ none] eq by simp
qed

theorem cache_stable_order_prefix_witness:
  "cache_stable_order [block_at no_uni sample_fact Full, block_at no_uni sample_chat Full] [3, 7] =
   cache_stable_order [block_at no_uni sample_fact Full, block_at no_uni sample_chat Full] [7, 3]"
  using cache_stable_order_prefix [of "[7, 3]" "[3, 7]"
    "[block_at no_uni sample_fact Full, block_at no_uni sample_chat Full]"] by auto

text \<open>The estimate is biased upwards: it is zero only for the empty text, at least a third of
  the characters rounded up, at least two per CJK code point, and at most two per character.\<close>

theorem estimate_tokens_bounds:
  "(estimate_tokens uni t = 0 \<longleftrightarrow> t = []) \<and> length t \<le> 3 * estimate_tokens uni t \<and>
   2 * length (filter is_cjk t) \<le> estimate_tokens uni t \<and> estimate_tokens uni t \<le> 2 * length t"
proof (cases "t = []")
  case False
  define st where "st = fold (scan_char uni) t scan_init"
  define w where "w = div_ceil (words st * 13) 10"
  have st: "chars st = length t" "words st + punct_runs st + cjk st \<le> length t"
    "cjk st = length (filter is_cjk t)"
    using scan_fold [of uni t scan_init] by (simp_all add: st_def scan_init_def)
  have est: "estimate_tokens uni t =
      max (max (w + punct_runs st + cjk st * 2) (div_ceil (length t) 3)) 1"
    using False by (simp add: estimate_tokens_def Let_def st_def w_def st(1) [unfolded st_def])
  have "w \<le> 2 * words st" unfolding w_def div_ceil_def by (cases "words st") simp_all
  moreover have "div_ceil (length t) 3 \<le> length t" by (intro div_ceil_le) simp_all
  moreover have "length t \<le> 3 * div_ceil (length t) 3" by (simp add: div_ceil_def)
  moreover have "0 < length t" using False by simp
  ultimately show ?thesis
    using st(2) False unfolding est st(3) [symmetric] by (auto simp: max_def Suc_le_eq)
qed (simp add: estimate_tokens_def)

text \<open>The reported saving is a percentage: with the token counts of a pack in the range of
  \<^verbatim>\<open>usize\<close>, \<^verbatim>\<open>savings_pct\<close> is a finite, non-negative \<^verbatim>\<open>f32\<close> of at most 100, in spite of the
  rounding of each of its five floating-point operations.\<close>

theorem savings_pct_is_percentage:
  assumes "naive_tokens p < 2 ^ 64"
  shows "\<exists>m. savings_pct p = Fin False m \<and> m \<le> 100 * f32_unit"
proof (cases "naive_tokens p = 0")
  case False
  define a b where "a = (naive_tokens p - used_tokens p) * f32_unit"
    and "b = naive_tokens p * f32_unit"
  have u: "0 < f32_unit" by (simp add: f32_unit_def)
  have ab: "f32_of_nat (naive_tokens p - used_tokens p) = Fin False (f32_mag a)"
    "f32_of_nat (naive_tokens p) = Fin False (f32_mag b)"
    using assms by (simp_all add: f32_of_nat_mag a_def b_def)
  have "f32_mag a \<le> f32_mag b" by (intro f32_mag_mono) (simp add: a_def b_def)
  moreover have "0 < f32_mag b"
    using f32_mag_unit_ge [of "naive_tokens p"] u False by (simp add: b_def)
  ultimately obtain r where r: "f32_div (Fin False (f32_mag a)) (Fin False (f32_mag b)) = Fin False r"
    "r \<le> f32_unit" using f32_ratio_le_one by blast
  obtain q where q: "f32_mul (Fin False r) (f32_of_nat 1000) = Fin False q" "q \<le> 1000 * f32_unit"
    using f32_permille_le [OF r(2)] by blast
  show ?thesis
    using f32_tenth_le [OF q(2)] False by (simp only: savings_pct_def Let_def ab r(1) q(1) if_False)
qed (simp add: savings_pct_def)

theorem savings_pct_is_percentage_witness:
  "\<exists>m. savings_pct \<lparr>blocks = [], used_tokens = 30, budget_tokens = 40, dropped_ids = [],
     deduped_ids = [], naive_tokens = 90, delta_skipped_ids = []\<rparr> = Fin False m \<and>
   m \<le> 100 * f32_unit"
  by (rule savings_pct_is_percentage) simp

end
