(* ===== verification/Synx_Format.thy ===== *)
theory Synx_Format
  imports Synapse_Prelude
begin

text \<open>
  The binary layout of a \<^verbatim>\<open>.synx\<close> file (\<^verbatim>\<open>synapse-core/src/synx/header.rs\<close> and \<^verbatim>\<open>chunk.rs\<close>): the
  64-byte header, the 256-byte footer and the framed, content-hashed chunk, each with its writer and
  its reader. A reader takes the stream at the current position and returns the value and the rest of
  the stream, or the error. BLAKE3 and zstd are the fields of a record of library functions that the
  chunk operations take as an argument.
\<close>

unbundle bit_operations_syntax

datatype synx_error =
    Io
  | BadMagic
  | UnsupportedVersion u16
  | BadFooterMagic
  | UnknownKind u16
  | UnknownCodec byte
  | LengthUnderflow
  | HashMismatch
  | LenMismatch
  | JsonFormat
  | FileTooSmall
  | ManifestHashMismatch
  | IdxOutOfRange nat
  | PastEof
  | ChunkTooSmall
  | Panic

text \<open>Rust's \<^verbatim>\<open>?\<close> on a \<^verbatim>\<open>Result\<close>, and \<^verbatim>\<open>ok_or\<close>.\<close>

fun and_then :: "'e + 'a \<Rightarrow> ('a \<Rightarrow> 'e + 'b) \<Rightarrow> 'e + 'b" where
  "and_then (Inl e) f = Inl e"
| "and_then (Inr x) f = f x"

definition ok_or :: "'e \<Rightarrow> 'a option \<Rightarrow> 'e + 'a" where
  "ok_or e v = (case v of None \<Rightarrow> Inl e | Some x \<Rightarrow> Inr x)"

definition read_n :: "nat \<Rightarrow> bytes \<Rightarrow> synx_error + (bytes \<times> bytes)" where
  "read_n n s = ok_or Io (read_exact n s)"

record synx_lib =
  blake3 :: "bytes \<Rightarrow> bytes"
  zstd_encode :: "bytes \<Rightarrow> bytes option"
  zstd_decode :: "bytes \<Rightarrow> bytes option"

text \<open>What the format relies on: digests of 32 bytes, and decompression undoing compression.\<close>

definition synx_lib_ok :: "synx_lib \<Rightarrow> bool" where
  "synx_lib_ok lib \<longleftrightarrow> (\<forall>d. length (blake3 lib d) = 32) \<and>
     (\<forall>d z. zstd_encode lib d = Some z \<longrightarrow> zstd_decode lib z = Some d)"

section \<open>Header\<close>

definition MAGIC :: bytes where "MAGIC = as_bytes ''SYNX''"
definition FOOTER_MAGIC :: bytes where "FOOTER_MAGIC = as_bytes ''XNYS''"
definition VERSION :: u16 where "VERSION = 2"
definition HEADER_SIZE :: nat where "HEADER_SIZE = 64"
definition FOOTER_SIZE :: nat where "FOOTER_SIZE = 256"

text \<open>\<^verbatim>\<open>SynxFlags\<close>: the bits, and \<^verbatim>\<open>from_bits_truncate\<close>, which drops the unknown ones.\<close>

type_synonym synx_flags = u16

definition COMPRESSED :: synx_flags where "COMPRESSED = 1"
definition SIGNED :: synx_flags where "SIGNED = 2"
definition CRDT :: synx_flags where "CRDT = 4"

definition from_bits_truncate :: "u16 \<Rightarrow> synx_flags" where
  "from_bits_truncate v = v AND (COMPRESSED OR SIGNED OR CRDT)"

record synx_header =
  h_version :: u16
  h_flags :: synx_flags
  h_manifest_offset :: u64
  h_footer_offset :: u64
  h_created_unix :: u64
  h_creator_uuid :: bytes

definition header_new :: "u64 \<Rightarrow> synx_header" where
  "header_new now = \<lparr>h_version = VERSION, h_flags = COMPRESSED, h_manifest_offset = 0,
     h_footer_offset = 0, h_created_unix = now, h_creator_uuid = replicate 16 0\<rparr>"

definition header_write :: "synx_header \<Rightarrow> bytes" where
  "header_write h = MAGIC @ u16_le (h_version h) @ u16_le (h_flags h) @ [0] @ replicate 7 0 @
     u64_le (h_manifest_offset h) @ u64_le (h_footer_offset h) @ u64_le (h_created_unix h) @
     h_creator_uuid h @ replicate 8 0"

definition header_read :: "bytes \<Rightarrow> synx_error + (synx_header \<times> bytes)" where
  "header_read s =
     and_then (read_n HEADER_SIZE s) (\<lambda>(buf, rest).
       if slice buf 0 4 \<noteq> MAGIC then Inl BadMagic
       else let version = le_u16 (slice buf 4 6) in
       if version \<noteq> VERSION then Inl (UnsupportedVersion version)
       else Inr (\<lparr>h_version = version,
         h_flags = from_bits_truncate (le_u16 (slice buf 6 8)),
         h_manifest_offset = le_u64 (slice buf 16 24),
         h_footer_offset = le_u64 (slice buf 24 32),
         h_created_unix = le_u64 (slice buf 32 40),
         h_creator_uuid = slice buf 40 56\<rparr>, rest))"

section \<open>Footer\<close>

record synx_footer =
  f_manifest_hash :: bytes
  f_signature :: "bytes option"
  f_pubkey :: "bytes option"

definition footer_write :: "synx_footer \<Rightarrow> bytes" where
  "footer_write f =
     FOOTER_MAGIC @ f_manifest_hash f @
     (case (f_signature f, f_pubkey f) of
        (Some sig, Some pk) \<Rightarrow> sig @ pk
      | _ \<Rightarrow> replicate 96 0) @
     replicate 122 0 @ u16_le VERSION"

definition footer_read :: "bytes \<Rightarrow> synx_error + (synx_footer \<times> bytes)" where
  "footer_read s =
     and_then (read_n FOOTER_SIZE s) (\<lambda>(buf, rest).
       if slice buf 0 4 \<noteq> FOOTER_MAGIC then Inl BadFooterMagic
       else let is_signed = list_ex (\<lambda>b. b \<noteq> 0) (slice buf 36 100) in
       Inr (\<lparr>f_manifest_hash = slice buf 4 36,
         f_signature = (if is_signed then Some (slice buf 36 100) else None),
         f_pubkey = (if is_signed then Some (slice buf 100 132) else None)\<rparr>, rest))"

section \<open>Chunks\<close>

definition CHUNK_HEADER_SIZE :: nat where "CHUNK_HEADER_SIZE = 16"

datatype chunk_kind =
    RowBatch | TextBlob | FtsSegment | VecIndex | VecPayload | CRDTOpsLog | SchemaDef
  | MerkleNode | Tombstone

fun kind_u16 :: "chunk_kind \<Rightarrow> u16" where
  "kind_u16 RowBatch = 0x01"
| "kind_u16 TextBlob = 0x02"
| "kind_u16 FtsSegment = 0x03"
| "kind_u16 VecIndex = 0x04"
| "kind_u16 VecPayload = 0x05"
| "kind_u16 CRDTOpsLog = 0x06"
| "kind_u16 SchemaDef = 0x07"
| "kind_u16 MerkleNode = 0x08"
| "kind_u16 Tombstone = 0xFF"

definition kind_from_u16 :: "u16 \<Rightarrow> synx_error + chunk_kind" where
  "kind_from_u16 v =
     (if v = 0x01 then Inr RowBatch else if v = 0x02 then Inr TextBlob
      else if v = 0x03 then Inr FtsSegment else if v = 0x04 then Inr VecIndex
      else if v = 0x05 then Inr VecPayload else if v = 0x06 then Inr CRDTOpsLog
      else if v = 0x07 then Inr SchemaDef else if v = 0x08 then Inr MerkleNode
      else if v = 0xFF then Inr Tombstone else Inl (UnknownKind v))"

datatype codec = Raw | Zstd

fun codec_u8 :: "codec \<Rightarrow> byte" where
  "codec_u8 Raw = 0"
| "codec_u8 Zstd = 1"

definition codec_from_u8 :: "byte \<Rightarrow> synx_error + codec" where
  "codec_from_u8 v = (if v = 0 then Inr Raw else if v = 1 then Inr Zstd else Inl (UnknownCodec v))"

record chunk =
  ch_kind :: chunk_kind
  ch_codec :: codec
  ch_flags :: byte
  ch_hash :: bytes
  ch_uncompressed_len :: u64
  ch_payload :: bytes

definition chunk_new :: "synx_lib \<Rightarrow> chunk_kind \<Rightarrow> codec \<Rightarrow> bytes \<Rightarrow> synx_error + chunk" where
  "chunk_new lib kind codec data =
     and_then (case codec of Raw \<Rightarrow> Inr data | Zstd \<Rightarrow> ok_or Io (zstd_encode lib data))
       (\<lambda>payload. Inr \<lparr>ch_kind = kind, ch_codec = codec, ch_flags = 0, ch_hash = blake3 lib data,
          ch_uncompressed_len = word_of_nat (length data), ch_payload = payload\<rparr>)"

text \<open>\<^verbatim>\<open>total_len\<close> is computed in \<^verbatim>\<open>usize\<close> and cast to \<^verbatim>\<open>u32\<close>, which keeps the low 32 bits.\<close>

definition chunk_total_len :: "chunk \<Rightarrow> u32" where
  "chunk_total_len c = word_of_nat (CHUNK_HEADER_SIZE + 32 + 8 + length (ch_payload c))"

text \<open>The bytes written, and the length returned.\<close>

definition chunk_write :: "chunk \<Rightarrow> bytes \<times> u64" where
  "chunk_write c =
     (u32_le (chunk_total_len c) @ u16_le (kind_u16 (ch_kind c)) @ [codec_u8 (ch_codec c)] @
        [ch_flags c] @ replicate 8 0 @ ch_hash c @ u64_le (ch_uncompressed_len c) @ ch_payload c,
      ucast (chunk_total_len c))"

definition chunk_read :: "bytes \<Rightarrow> synx_error + (chunk \<times> bytes)" where
  "chunk_read s =
     and_then (read_n CHUNK_HEADER_SIZE s) (\<lambda>(hdr, s1).
     let total_len = unat (le_u32 (slice hdr 0 4)) in
     and_then (kind_from_u16 (le_u16 (slice hdr 4 6))) (\<lambda>kind.
     and_then (codec_from_u8 (hdr ! 6)) (\<lambda>codec.
     and_then (read_n 32 s1) (\<lambda>(hash, s2).
     and_then (read_n 8 s2) (\<lambda>(ulen, s3).
     if total_len < CHUNK_HEADER_SIZE + 32 + 8 then Inl LengthUnderflow
     else and_then (read_n (total_len - (CHUNK_HEADER_SIZE + 32 + 8)) s3) (\<lambda>(payload, rest).
       Inr (\<lparr>ch_kind = kind, ch_codec = codec, ch_flags = hdr ! 7, ch_hash = hash,
         ch_uncompressed_len = le_u64 ulen, ch_payload = payload\<rparr>, rest)))))))"

definition chunk_decode :: "synx_lib \<Rightarrow> chunk \<Rightarrow> synx_error + bytes" where
  "chunk_decode lib c =
     and_then (case ch_codec c of Raw \<Rightarrow> Inr (ch_payload c)
               | Zstd \<Rightarrow> ok_or Io (zstd_decode lib (ch_payload c)))
       (\<lambda>data. if blake3 lib data \<noteq> ch_hash c then Inl HashMismatch
         else if (word_of_nat (length data) :: u64) \<noteq> ch_uncompressed_len c then Inl LenMismatch
         else Inr data)"

section \<open>Round trips\<close>

lemma and_then_Inr_iff: "and_then r f = Inr y \<longleftrightarrow> (\<exists>x. r = Inr x \<and> f x = Inr y)"
  by (cases r) auto

lemma read_n_append [simp]: "length a = n \<Longrightarrow> read_n n (a @ s) = Inr (a, s)"
  by (simp add: read_n_def ok_or_def)

lemma read_n_Inr: "read_n n s = Inr (a, t) \<longleftrightarrow> s = a @ t \<and> length a = n"
  by (auto simp: read_n_def ok_or_def read_exact_def split: option.splits if_splits)

lemma sizes [simp]:
  "length MAGIC = 4" "length FOOTER_MAGIC = 4" "HEADER_SIZE = 64" "FOOTER_SIZE = 256"
  "CHUNK_HEADER_SIZE = 16"
  by (simp_all add: MAGIC_def FOOTER_MAGIC_def HEADER_SIZE_def FOOTER_SIZE_def CHUNK_HEADER_SIZE_def)

definition header_ok :: "synx_header \<Rightarrow> bool" where
  "header_ok h \<longleftrightarrow> h_version h = VERSION \<and> from_bits_truncate (h_flags h) = h_flags h \<and>
     length (h_creator_uuid h) = 16"

definition footer_ok :: "synx_footer \<Rightarrow> bool" where
  "footer_ok f \<longleftrightarrow> length (f_manifest_hash f) = 32 \<and>
     (case (f_signature f, f_pubkey f) of
        (None, None) \<Rightarrow> True
      | (Some sig, Some pk) \<Rightarrow> length sig = 64 \<and> length pk = 32 \<and> sig \<noteq> replicate 64 0
      | _ \<Rightarrow> False)"

definition chunk_ok :: "chunk \<Rightarrow> bool" where
  "chunk_ok c \<longleftrightarrow> length (ch_hash c) = 32 \<and> 56 + length (ch_payload c) < 2 ^ 32"

lemma length_header_write: "length (h_creator_uuid h) = 16 \<Longrightarrow> length (header_write h) = 64"
  by (simp add: header_write_def)

lemma header_read_write: "header_ok h \<Longrightarrow> header_read (header_write h @ rest) = Inr (h, rest)"
  by (simp add: header_read_def length_header_write header_ok_def)
    (simp add: header_write_def slice_def)

lemma length_footer_write: "footer_ok f \<Longrightarrow> length (footer_write f) = 256"
  by (auto simp: footer_ok_def footer_write_def split: option.splits)

lemma not_all_zero: "length bs = n \<Longrightarrow> bs \<noteq> replicate n (0 :: byte) \<Longrightarrow> list_ex (\<lambda>b. b \<noteq> 0) bs"
  using replicate_length_same [of bs 0] by (auto simp: list_ex_iff)

lemma footer_read_write:
  assumes "footer_ok f" shows "footer_read (footer_write f @ rest) = Inr (f, rest)"
proof (cases "f_signature f")
  case None
  with assms have "f_pubkey f = None" by (auto simp: footer_ok_def split: option.splits)
  with None assms show ?thesis
    by (simp add: footer_read_def length_footer_write)
      (simp add: footer_write_def slice_def footer_ok_def list_ex_iff)
next
  case (Some sig)
  with assms obtain pk where pk: "f_pubkey f = Some pk" "length sig = 64" "length pk = 32"
    "list_ex (\<lambda>b. b \<noteq> 0) sig"
    by (auto simp: footer_ok_def split: option.splits dest: not_all_zero [of sig 64])
  with Some assms show ?thesis
    by (simp add: footer_read_def length_footer_write)
      (simp add: footer_write_def slice_def footer_ok_def)
qed

lemma kind_from_kind_u16 [simp]: "kind_from_u16 (kind_u16 k) = Inr k"
  by (cases k) (simp_all add: kind_from_u16_def)

lemma kind_u16_inj: "kind_u16 a = kind_u16 b \<longleftrightarrow> a = b"
  by (metis kind_from_kind_u16 sum.inject(2))

lemma codec_from_codec_u8 [simp]: "codec_from_u8 (codec_u8 c) = Inr c"
  by (cases c) (simp_all add: codec_from_u8_def)

lemma length_chunk_write:
  "length (ch_hash c) = 32 \<Longrightarrow> length (fst (chunk_write c)) = 56 + length (ch_payload c)"
  by (simp add: chunk_write_def)

lemma chunk_total_len_exact:
  "chunk_ok c \<Longrightarrow> unat (chunk_total_len c) = 56 + length (ch_payload c)"
  unfolding chunk_total_len_def by (subst unat_u32_of_nat) (simp_all add: chunk_ok_def)

text \<open>The frame read back has the payload length that the 32-bit length field says.\<close>

lemma chunk_read_frame:
  assumes "length (ch_hash c) = 32"
  shows "chunk_read (fst (chunk_write c) @ rest) =
    (if unat (chunk_total_len c) < 56 then Inl LengthUnderflow
     else and_then (read_n (unat (chunk_total_len c) - 56) (ch_payload c @ rest))
       (\<lambda>(payload, rest'). Inr (c\<lparr>ch_payload := payload\<rparr>, rest')))"
proof -
  define hdr where "hdr = u32_le (chunk_total_len c) @ u16_le (kind_u16 (ch_kind c)) @
    [codec_u8 (ch_codec c)] @ [ch_flags c] @ replicate 8 0"
  have len: "length hdr = 16" by (simp add: hdr_def)
  have flds: "slice hdr 0 4 = u32_le (chunk_total_len c)"
    "slice hdr 4 6 = u16_le (kind_u16 (ch_kind c))" "hdr ! 6 = codec_u8 (ch_codec c)"
    "hdr ! 7 = ch_flags c"
    by (simp_all add: hdr_def slice_def nth_append)
  have "fst (chunk_write c) @ rest =
      hdr @ ch_hash c @ u64_le (ch_uncompressed_len c) @ ch_payload c @ rest"
    by (simp add: chunk_write_def hdr_def)
  moreover have upd: "\<lparr>ch_kind = ch_kind c, ch_codec = ch_codec c, ch_flags = ch_flags c,
      ch_hash = ch_hash c, ch_uncompressed_len = ch_uncompressed_len c, ch_payload = p\<rparr> =
      c\<lparr>ch_payload := p\<rparr>" for p
    by simp
  ultimately show ?thesis by (simp add: chunk_read_def len flds assms upd)
qed

lemma chunk_read_write:
  assumes "chunk_ok c" shows "chunk_read (fst (chunk_write c) @ rest) = Inr (c, rest)"
  using assms by (simp add: chunk_read_frame chunk_total_len_exact chunk_ok_def)

text \<open>The three layouts are self-delimiting codecs.\<close>

definition ok_opt :: "'e + 'a \<Rightarrow> 'a option" where
  "ok_opt r = (case r of Inl _ \<Rightarrow> None | Inr x \<Rightarrow> Some x)"

interpretation header_codec: stream_codec header_write "\<lambda>s. ok_opt (header_read s)" header_ok
  by unfold_locales (simp add: header_read_write ok_opt_def)

interpretation footer_codec: stream_codec footer_write "\<lambda>s. ok_opt (footer_read s)" footer_ok
  by unfold_locales (simp add: footer_read_write ok_opt_def)

interpretation chunk_codec: stream_codec "\<lambda>c. fst (chunk_write c)" "\<lambda>s. ok_opt (chunk_read s)" chunk_ok
  by unfold_locales (simp add: chunk_read_write ok_opt_def)

section \<open>Chunk contents\<close>

lemma chunk_new_fields:
  assumes "chunk_new lib k co d = Inr c"
  shows "ch_kind c = k" "ch_codec c = co" "ch_flags c = 0" "ch_hash c = blake3 lib d"
    "ch_uncompressed_len c = word_of_nat (length d)"
    "co = Raw \<Longrightarrow> ch_payload c = d" "co = Zstd \<Longrightarrow> zstd_encode lib d = Some (ch_payload c)"
  using assms by (auto simp: chunk_new_def and_then_Inr_iff ok_or_def split: codec.splits option.splits)

lemma chunk_decode_new:
  assumes "synx_lib_ok lib" and "chunk_new lib k co d = Inr c"
  shows "chunk_decode lib c = Inr d"
  using assms(1) chunk_new_fields [OF assms(2)]
  by (cases co) (auto simp: chunk_decode_def ok_or_def synx_lib_ok_def)

lemma chunk_decode_Inr:
  "chunk_decode lib c = Inr d \<Longrightarrow>
   blake3 lib d = ch_hash c \<and> word_of_nat (length d) = ch_uncompressed_len c"
  by (auto simp: chunk_decode_def and_then_Inr_iff split: if_splits)

end
