(* ===== verification/Synx_Container.thy ===== *)
theory Synx_Container
  imports Synx_Format
begin

text \<open>
  The \<^verbatim>\<open>.synx\<close> container: the manifest, the append-only writer with its back-patched header, the
  buffered and the memory-mapped reader, and the export of rows from the SQLite store
  (\<^verbatim>\<open>synapse-core/src/synx/manifest.rs\<close>, \<^verbatim>\<open>writer.rs\<close>, \<^verbatim>\<open>reader.rs\<close>, \<^verbatim>\<open>mmap.rs\<close>, \<^verbatim>\<open>migrate.rs\<close>). A file is
  its contents; a successful \<^verbatim>\<open>finish\<close> returns them. \<^verbatim>\<open>serde_json\<close> is an argument.
\<close>

section \<open>Manifest\<close>

record chunk_ref =
  cr_kind_raw :: u16
  cr_offset :: u64
  cr_length :: u64
  cr_hash :: bytes

definition chunk_ref_new :: "chunk_kind \<Rightarrow> u64 \<Rightarrow> u64 \<Rightarrow> bytes \<Rightarrow> chunk_ref" where
  "chunk_ref_new kind off len hash =
     \<lparr>cr_kind_raw = kind_u16 kind, cr_offset = off, cr_length = len, cr_hash = hash\<rparr>"

record schema_version =
  sv_version :: u32
  sv_arrow_schema_json :: string
  sv_created_unix :: u64

record manifest_stats =
  n_docs :: u64
  n_vectors :: u64
  n_segments :: u32

record manifest =
  m_chunks :: "chunk_ref list"
  m_schema_history :: "schema_version list"
  m_active_snapshot :: u64
  m_stats :: manifest_stats
  m_merkle_root :: bytes

definition manifest_default :: manifest where
  "manifest_default = \<lparr>m_chunks = [], m_schema_history = [], m_active_snapshot = 0,
     m_stats = \<lparr>n_docs = 0, n_vectors = 0, n_segments = 0\<rparr>, m_merkle_root = replicate 32 0\<rparr>"

text \<open>\<^verbatim>\<open>serde_json\<close> on manifests; what the code relies on is that parsing undoes printing.\<close>

record manifest_json =
  to_vec :: "manifest \<Rightarrow> bytes option"
  from_slice :: "bytes \<Rightarrow> manifest option"

definition manifest_json_ok :: "manifest_json \<Rightarrow> bool" where
  "manifest_json_ok js \<longleftrightarrow> (\<forall>m b. to_vec js m = Some b \<longrightarrow> from_slice js b = Some m)"

definition manifest_to_json :: "manifest_json \<Rightarrow> manifest \<Rightarrow> synx_error + bytes" where
  "manifest_to_json js m = ok_or JsonFormat (to_vec js m)"

definition manifest_from_json :: "manifest_json \<Rightarrow> bytes \<Rightarrow> synx_error + manifest" where
  "manifest_from_json js b = ok_or JsonFormat (from_slice js b)"

definition add_chunk :: "chunk_kind \<Rightarrow> u64 \<Rightarrow> u64 \<Rightarrow> bytes \<Rightarrow> manifest \<Rightarrow> manifest" where
  "add_chunk kind off len hash m = m\<lparr>m_chunks := m_chunks m @ [chunk_ref_new kind off len hash]\<rparr>"

section \<open>Writer\<close>

record synx_writer =
  w_inner :: bytes
  w_header :: synx_header
  w_manifest :: manifest
  w_offset :: u64

text \<open>\<open>existing\<close> is the file already at the path, if any: \<^verbatim>\<open>create_new\<close> refuses to overwrite it.\<close>

definition writer_create :: "bytes option \<Rightarrow> u64 \<Rightarrow> synx_flags \<Rightarrow> synx_error + synx_writer" where
  "writer_create existing now flags =
     (case existing of Some _ \<Rightarrow> Inl Io
      | None \<Rightarrow>
          let header = (header_new now)\<lparr>h_flags := flags\<rparr> in
          Inr \<lparr>w_inner = header_write header, w_header = header, w_manifest = manifest_default,
               w_offset = word_of_nat HEADER_SIZE\<rparr>)"

definition write_chunk :: "chunk \<Rightarrow> synx_writer \<Rightarrow> synx_writer" where
  "write_chunk c w =
     (let start = w_offset w; (bs, len) = chunk_write c in
      w\<lparr>w_inner := w_inner w @ bs,
        w_manifest := add_chunk (ch_kind c) start len (ch_hash c) (w_manifest w),
        w_offset := w_offset w + len\<rparr>)"

definition writer_append :: "synx_lib \<Rightarrow> chunk_kind \<Rightarrow> codec \<Rightarrow> bytes \<Rightarrow> synx_writer \<Rightarrow>
    synx_error + synx_writer" where
  "writer_append lib kind codec data w =
     and_then (chunk_new lib kind codec data) (\<lambda>c. Inr (write_chunk c w))"

definition writer_finish :: "synx_lib \<Rightarrow> manifest_json \<Rightarrow> synx_writer \<Rightarrow> synx_error + bytes" where
  "writer_finish lib js w =
     and_then (manifest_to_json js (w_manifest w)) (\<lambda>manifest_bytes.
     let manifest_offset = w_offset w in
     and_then (chunk_new lib SchemaDef Zstd manifest_bytes) (\<lambda>mc.
     let (bs, len) = chunk_write mc;
         footer_offset = manifest_offset + len;
         footer = \<lparr>f_manifest_hash = ch_hash mc, f_signature = None, f_pubkey = None\<rparr>;
         file = w_inner w @ bs @ footer_write footer;
         header = (w_header w)\<lparr>h_manifest_offset := manifest_offset,
                               h_footer_offset := footer_offset\<rparr> in
     Inr (header_write header @ drop HEADER_SIZE file)))"

section \<open>Buffered reader\<close>

record synx_reader =
  r_file :: bytes
  r_header :: synx_header
  r_footer :: synx_footer
  r_manifest :: manifest

definition reader_open :: "synx_lib \<Rightarrow> manifest_json \<Rightarrow> bytes \<Rightarrow> synx_error + synx_reader" where
  "reader_open lib js file =
     and_then (header_read file) (\<lambda>(header, _).
     if length file < FOOTER_SIZE then Inl FileTooSmall
     else and_then (footer_read (drop (length file - FOOTER_SIZE) file)) (\<lambda>(footer, _).
     and_then (chunk_read (drop (unat (h_manifest_offset header)) file)) (\<lambda>(manifest_chunk, _).
     if ch_hash manifest_chunk \<noteq> f_manifest_hash footer then Inl ManifestHashMismatch
     else and_then (chunk_decode lib manifest_chunk) (\<lambda>manifest_bytes.
     and_then (manifest_from_json js manifest_bytes) (\<lambda>m.
     Inr \<lparr>r_file = file, r_header = header, r_footer = footer, r_manifest = m\<rparr>)))))"

definition read_chunk_at :: "synx_reader \<Rightarrow> nat \<Rightarrow> synx_error + chunk" where
  "read_chunk_at r idx =
     (if idx < length (m_chunks (r_manifest r))
      then and_then (chunk_read (drop (unat (cr_offset (m_chunks (r_manifest r) ! idx))) (r_file r)))
             (\<lambda>(c, _). Inr c)
      else Inl (IdxOutOfRange idx))"

section \<open>Memory-mapped reader\<close>

text \<open>Index arithmetic is on 64-bit \<^verbatim>\<open>usize\<close>. An overflowing sum ends in a panic in either build: with
  overflow checks at the addition, without them at the slice, whose start then lies past its end.\<close>

definition mmap_open :: "synx_lib \<Rightarrow> manifest_json \<Rightarrow> bytes \<Rightarrow> synx_error + synx_reader" where
  "mmap_open lib js file =
     (if length file < HEADER_SIZE + FOOTER_SIZE then Inl FileTooSmall
      else if slice file 0 4 \<noteq> MAGIC then Inl BadMagic
      else and_then (header_read (slice file 0 HEADER_SIZE)) (\<lambda>(header, _).
      and_then (footer_read (drop (length file - FOOTER_SIZE) file)) (\<lambda>(footer, _).
      let off = unat (h_manifest_offset header) in
      if off + 16 \<ge> 2 ^ 64 then Inl Panic
      else if off + 16 > length file then Inl PastEof
      else and_then (chunk_read (drop off file)) (\<lambda>(manifest_chunk, _).
      if ch_hash manifest_chunk \<noteq> f_manifest_hash footer then Inl ManifestHashMismatch
      else and_then (chunk_decode lib manifest_chunk) (\<lambda>bs.
      and_then (manifest_from_json js bs) (\<lambda>m.
      Inr \<lparr>r_file = file, r_header = header, r_footer = footer, r_manifest = m\<rparr>))))))"

definition raw_slice :: "synx_reader \<Rightarrow> nat \<Rightarrow> synx_error + bytes" where
  "raw_slice r idx =
     (if idx < length (m_chunks (r_manifest r)) then
        let cr = m_chunks (r_manifest r) ! idx;
            start = unat (cr_offset cr);
            fin = (start + unat (cr_length cr)) mod 2 ^ 64 in
        if fin > length (r_file r) then Inl PastEof
        else if fin < start then Inl Panic
        else Inr (slice (r_file r) start fin)
      else Inl (IdxOutOfRange idx))"

definition mmap_read_chunk :: "synx_reader \<Rightarrow> nat \<Rightarrow> synx_error + chunk" where
  "mmap_read_chunk r idx =
     and_then (raw_slice r idx) (\<lambda>s. and_then (chunk_read s) (\<lambda>(c, _). Inr c))"

definition mmap_is_signed :: "synx_reader \<Rightarrow> bool" where
  "mmap_is_signed r \<longleftrightarrow> h_flags (r_header r) AND SIGNED = SIGNED"

definition chunk_count_by_kind :: "synx_reader \<Rightarrow> chunk_kind \<Rightarrow> nat" where
  "chunk_count_by_kind r kind =
     length (filter (\<lambda>cr. cr_kind_raw cr = kind_u16 kind) (m_chunks (r_manifest r)))"

definition codec_hint :: "synx_reader \<Rightarrow> nat \<Rightarrow> synx_error + codec" where
  "codec_hint r idx =
     and_then (raw_slice r idx) (\<lambda>s.
       if length s < 16 then Inl ChunkTooSmall else codec_from_u8 (s ! 6))"

section \<open>Export of rows\<close>

record migrate_row =
  mr_id :: string
  mr_uri :: "string option"
  mr_title :: "string option"
  mr_text :: string
  mr_ts :: int
  mr_meta_json :: "string option"
  mr_scope :: "string option"

text \<open>The JSON object built for a row: all fields but the text.\<close>

type_synonym row_meta =
  "string \<times> string option \<times> string option \<times> int \<times> string option \<times> string option"

definition row_meta_of :: "migrate_row \<Rightarrow> row_meta" where
  "row_meta_of r = (mr_id r, mr_uri r, mr_title r, mr_ts r, mr_meta_json r, mr_scope r)"

definition flush_rows :: "synx_lib \<Rightarrow> (row_meta list \<Rightarrow> bytes option) \<Rightarrow> row_meta list \<Rightarrow>
    synx_writer \<Rightarrow> synx_error + synx_writer" where
  "flush_rows lib rows_to_vec buf w =
     and_then (ok_or JsonFormat (rows_to_vec buf)) (\<lambda>bs. writer_append lib RowBatch Zstd bs w)"

fun export_loop :: "synx_lib \<Rightarrow> (row_meta list \<Rightarrow> bytes option) \<Rightarrow> nat \<Rightarrow> migrate_row list \<Rightarrow>
    synx_writer \<times> nat \<times> row_meta list \<Rightarrow> synx_error + (synx_writer \<times> nat \<times> row_meta list)" where
  "export_loop lib rows_to_vec batch [] st = Inr st"
| "export_loop lib rows_to_vec batch (r # rs) (w, count, buf) =
     (let buf' = buf @ [row_meta_of r] in
      and_then (writer_append lib TextBlob Zstd (as_bytes (mr_text r)) w) (\<lambda>w1.
      if length buf' \<ge> batch
      then and_then (flush_rows lib rows_to_vec buf' w1) (\<lambda>w2.
             export_loop lib rows_to_vec batch rs (w2, count + 1, []))
      else export_loop lib rows_to_vec batch rs (w1, count + 1, buf')))"

definition export_rows :: "synx_lib \<Rightarrow> manifest_json \<Rightarrow> (row_meta list \<Rightarrow> bytes option) \<Rightarrow>
    bytes option \<Rightarrow> u64 \<Rightarrow> migrate_row list \<Rightarrow> nat \<Rightarrow> synx_error + (nat \<times> bytes)" where
  "export_rows lib js rows_to_vec existing now rows batch =
     and_then (writer_create existing now COMPRESSED) (\<lambda>w0.
     and_then (export_loop lib rows_to_vec batch rows (w0, 0, [])) (\<lambda>(w, count, buf).
     and_then (if buf \<noteq> [] then flush_rows lib rows_to_vec buf w else Inr w) (\<lambda>w'.
     and_then (writer_finish lib js w') (\<lambda>file. Inr (count, file)))))"

section \<open>What the writer lays out\<close>

definition frames :: "chunk list \<Rightarrow> bytes" where
  "frames cs = concat (map (\<lambda>c. fst (chunk_write c)) cs)"

definition ref_of :: "nat \<Rightarrow> chunk \<Rightarrow> chunk_ref" where
  "ref_of off c = chunk_ref_new (ch_kind c) (word_of_nat off) (snd (chunk_write c)) (ch_hash c)"

fun refs :: "nat \<Rightarrow> chunk list \<Rightarrow> chunk_ref list" where
  "refs off [] = []"
| "refs off (c # cs) = ref_of off c # refs (off + unat (chunk_total_len c)) cs"

lemma frames_simps [simp]:
  "frames [] = []" "frames (c # cs) = fst (chunk_write c) @ frames cs"
  "frames (cs @ ds) = frames cs @ frames ds"
  by (simp_all add: frames_def)

lemma length_refs [simp]: "length (refs off cs) = length cs"
  by (induction cs arbitrary: off) simp_all

lemma refs_snoc:
  "refs off (cs @ [c]) = refs off cs @ [ref_of (off + sum_list (map (unat \<circ> chunk_total_len) cs)) c]"
  by (induction cs arbitrary: off) (simp_all add: ac_simps)

lemma frames_length:
  "\<forall>c \<in> set cs. chunk_ok c \<Longrightarrow> length (frames cs) = sum_list (map (unat \<circ> chunk_total_len) cs)"
  by (induction cs) (simp_all add: length_chunk_write chunk_total_len_exact chunk_ok_def)

lemma refs_nth:
  assumes "\<forall>c \<in> set cs. chunk_ok c" and "i < length cs"
  shows "refs off cs ! i = ref_of (off + length (frames (take i cs))) (cs ! i)"
  using assms
proof (induction cs arbitrary: off i)
  case (Cons c cs)
  then show ?case
    by (cases i)
      (auto simp: length_chunk_write chunk_total_len_exact chunk_ok_def add.assoc)
qed simp

definition writer_inv :: "synx_writer \<Rightarrow> chunk list \<Rightarrow> bool" where
  "writer_inv w cs \<longleftrightarrow>
     header_ok (w_header w) \<and> w_inner w = header_write (w_header w) @ frames cs \<and>
     w_offset w = word_of_nat (64 + sum_list (map (unat \<circ> chunk_total_len) cs)) \<and>
     m_chunks (w_manifest w) = refs 64 cs"

lemma writer_create_inv:
  assumes "writer_create None now flags = Inr w" and "from_bits_truncate flags = flags"
  shows "writer_inv w []"
  using assms by (auto simp: writer_create_def writer_inv_def header_ok_def header_new_def
      manifest_default_def Let_def)

lemma write_chunk_inv: "writer_inv w cs \<Longrightarrow> writer_inv (write_chunk c w) (cs @ [c])"
  by (simp add: writer_inv_def write_chunk_def chunk_write_def add_chunk_def refs_snoc ref_of_def
      Let_def add.assoc of_nat_unat)

text \<open>A session of the writer: a list of appends.\<close>

type_synonym item = "chunk_kind \<times> codec \<times> bytes"

fun append_all :: "synx_lib \<Rightarrow> item list \<Rightarrow> synx_writer \<Rightarrow> synx_error + synx_writer" where
  "append_all lib [] w = Inr w"
| "append_all lib ((k, co, d) # items) w =
     and_then (writer_append lib k co d w) (append_all lib items)"

definition write_file :: "synx_lib \<Rightarrow> manifest_json \<Rightarrow> u64 \<Rightarrow> synx_flags \<Rightarrow> item list \<Rightarrow>
    synx_error + bytes" where
  "write_file lib js now flags items =
     and_then (writer_create None now flags) (\<lambda>w0.
     and_then (append_all lib items w0) (writer_finish lib js))"

definition chunk_for :: "synx_lib \<Rightarrow> item \<Rightarrow> chunk \<Rightarrow> bool" where
  "chunk_for lib it c \<longleftrightarrow> (case it of (k, co, d) \<Rightarrow> chunk_new lib k co d = Inr c)"

lemma chunk_for_iff [simp]: "chunk_for lib (k, co, d) c \<longleftrightarrow> chunk_new lib k co d = Inr c"
  by (simp add: chunk_for_def)

lemma append_all_inv:
  assumes "append_all lib items w = Inr w'" and "writer_inv w cs"
  shows "\<exists>new. writer_inv w' (cs @ new) \<and> list_all2 (chunk_for lib) items new"
  using assms
proof (induction items arbitrary: w cs)
  case (Cons it items)
  obtain k co d where it: "it = (k, co, d)" by (cases it)
  with Cons.prems obtain c where c: "chunk_new lib k co d = Inr c"
    "append_all lib items (write_chunk c w) = Inr w'"
    by (auto simp: and_then_Inr_iff writer_append_def)
  from Cons.IH [OF c(2) write_chunk_inv [OF Cons.prems(2)]] obtain new where
    "writer_inv w' ((cs @ [c]) @ new)" "list_all2 (chunk_for lib) items new" by blast
  then show ?case
    using c(1) it by (intro exI [of _ "c # new"]) simp
qed auto

text \<open>The finished file. The manifest lists the place of every chunk; \<open>ref_place\<close> leaves out the hash,
  which no reader looks at.\<close>

definition ref_place :: "chunk_ref \<Rightarrow> u16 \<times> u64 \<times> u64" where
  "ref_place cr = (cr_kind_raw cr, cr_offset cr, cr_length cr)"

definition synx_layout :: "synx_lib \<Rightarrow> manifest_json \<Rightarrow> bytes \<Rightarrow> synx_header \<Rightarrow> chunk list \<Rightarrow> manifest \<Rightarrow>
    chunk \<Rightarrow> synx_footer \<Rightarrow> bool" where
  "synx_layout lib js file h cs m mc f \<longleftrightarrow>
     file = header_write h @ frames cs @ fst (chunk_write mc) @ footer_write f \<and> header_ok h \<and>
     h_manifest_offset h = word_of_nat (64 + length (frames cs)) \<and>
     map ref_place (m_chunks m) = map ref_place (refs 64 cs) \<and>
     f_manifest_hash f = ch_hash mc \<and> footer_ok f \<and>
     (\<exists>mb. to_vec js m = Some mb \<and> chunk_new lib SchemaDef Zstd mb = Inr mc) \<and>
     (\<forall>c \<in> set cs. chunk_ok c) \<and> chunk_ok mc \<and> length file < 2 ^ 32"

lemma frames_member:
  "c \<in> set cs \<Longrightarrow> length (ch_hash c) = 32 \<Longrightarrow> 56 + length (ch_payload c) \<le> length (frames cs)"
  by (induction cs) (auto simp: length_chunk_write)

lemma finish_layout:
  assumes "writer_finish lib js w = Inr file" and "writer_inv w cs" and "synx_lib_ok lib"
    and "\<forall>c \<in> set cs. length (ch_hash c) = 32" and "length file < 2 ^ 32"
  shows "\<exists>h mc f. synx_layout lib js file h cs (w_manifest w) mc f \<and> h_flags h = h_flags (w_header w)"
proof -
  obtain mb mc where mb: "to_vec js (w_manifest w) = Some mb" "chunk_new lib SchemaDef Zstd mb = Inr mc"
    and whole: "file = header_write ((w_header w)\<lparr>h_manifest_offset := w_offset w,
        h_footer_offset := w_offset w + snd (chunk_write mc)\<rparr>) @
      drop 64 (w_inner w @ fst (chunk_write mc) @
        footer_write \<lparr>f_manifest_hash = ch_hash mc, f_signature = None, f_pubkey = None\<rparr>)"
    using assms(1)
    by (auto simp: writer_finish_def manifest_to_json_def and_then_Inr_iff ok_or_def Let_def
        case_prod_beta simp del: drop_append split: option.splits)
  define h where "h = (w_header w)\<lparr>h_manifest_offset := w_offset w,
        h_footer_offset := w_offset w + snd (chunk_write mc)\<rparr>"
  define f where "f = \<lparr>f_manifest_hash = ch_hash mc, f_signature = None, f_pubkey = None\<rparr>"
  have hash: "length (ch_hash mc) = 32"
    using assms(3) chunk_new_fields(4) [OF mb(2)] by (simp add: synx_lib_ok_def)
  have "length (header_write (w_header w)) = 64"
    using assms(2) by (simp add: writer_inv_def header_ok_def length_header_write)
  then have lay: "file = header_write h @ frames cs @ fst (chunk_write mc) @ footer_write f"
    using assms(2) whole by (simp add: h_def f_def writer_inv_def)
  then have "length (frames cs) < 2 ^ 32" "56 + length (ch_payload mc) < 2 ^ 32"
    using assms(5) hash by (simp_all add: length_chunk_write)
  then have ok: "\<forall>c \<in> set cs. chunk_ok c" "chunk_ok mc"
    using assms(4) frames_member hash by (fastforce simp: chunk_ok_def)+
  have "h_manifest_offset h = word_of_nat (64 + length (frames cs))"
    using assms(2) by (simp add: h_def writer_inv_def frames_length [OF ok(1)])
  moreover have "header_ok h" using assms(2) by (simp add: h_def writer_inv_def header_ok_def)
  moreover have "footer_ok f" using hash by (simp add: f_def footer_ok_def)
  ultimately have "synx_layout lib js file h cs (w_manifest w) mc f"
    using lay ok mb assms(2,5) by (simp add: synx_layout_def f_def writer_inv_def)
  moreover have "h_flags h = h_flags (w_header w)" by (simp add: h_def)
  ultimately show ?thesis by blast
qed

lemma layout_small: "synx_layout lib js file h cs m mc f \<Longrightarrow> length file < 2 ^ 64"
proof -
  assume "synx_layout lib js file h cs m mc f"
  then have "length file < 2 ^ 32" unfolding synx_layout_def by blast
  then show ?thesis by simp
qed

lemma layout_length: "synx_layout lib js file h cs m mc f \<Longrightarrow> length (m_chunks m) = length cs"
  unfolding synx_layout_def by (metis length_map length_refs)

lemma layout_offsets:
  assumes "synx_layout lib js file h cs m mc f"
  shows "length (header_write h) = 64" and "length (footer_write f) = 256"
    and "unat (h_manifest_offset h) = 64 + length (frames cs)"
    and "length file = 64 + length (frames cs) + (56 + length (ch_payload mc)) + 256"
    and "drop (length file - 256) file = footer_write f"
    and "drop (64 + length (frames cs)) file = fst (chunk_write mc) @ footer_write f"
proof -
  note lay = assms [unfolded synx_layout_def]
  show len: "length (header_write h) = 64" "length (footer_write f) = 256"
    using lay by (simp_all add: length_header_write header_ok_def length_footer_write)
  have whole: "file = (header_write h @ frames cs @ fst (chunk_write mc)) @ footer_write f"
    using lay by simp
  have "64 + length (frames cs) \<le> length file" unfolding whole using len by simp
  then have "64 + length (frames cs) < 2 ^ 64" using layout_small [OF assms] by (rule le_less_trans)
  then show "unat (h_manifest_offset h) = 64 + length (frames cs)"
    using lay unat_u64_of_nat by metis
  show "length file = 64 + length (frames cs) + (56 + length (ch_payload mc)) + 256"
    using lay len by (simp add: length_chunk_write chunk_ok_def)
  show "drop (length file - 256) file = footer_write f" unfolding whole using len by simp
  show "drop (64 + length (frames cs)) file = fst (chunk_write mc) @ footer_write f"
    unfolding whole using len by simp
qed

lemma layout_manifest:
  assumes "synx_layout lib js file h cs m mc f" and "synx_lib_ok lib" and "manifest_json_ok js"
  shows "\<exists>mb. chunk_decode lib mc = Inr mb \<and> from_slice js mb = Some m"
  using assms by (auto simp: synx_layout_def manifest_json_ok_def dest: chunk_decode_new)

abbreviation reader_of :: "bytes \<Rightarrow> synx_header \<Rightarrow> synx_footer \<Rightarrow> manifest \<Rightarrow> synx_reader" where
  "reader_of file h f m \<equiv> \<lparr>r_file = file, r_header = h, r_footer = f, r_manifest = m\<rparr>"

lemma layout_reader_open:
  assumes "synx_layout lib js file h cs m mc f" and "synx_lib_ok lib" and "manifest_json_ok js"
  shows "reader_open lib js file = Inr (reader_of file h f m)"
proof -
  note lay = assms(1) [unfolded synx_layout_def] and off = layout_offsets [OF assms(1)]
  obtain mb where mb: "chunk_decode lib mc = Inr mb" "from_slice js mb = Some m"
    using layout_manifest [OF assms] by blast
  have "header_read file = Inr (h, frames cs @ fst (chunk_write mc) @ footer_write f)"
    using lay header_read_write by blast
  moreover have "footer_read (drop (length file - 256) file) = Inr (f, [])"
    using off(5) lay footer_read_write [of f "[]"] by simp
  moreover have "chunk_read (drop (unat (h_manifest_offset h)) file) = Inr (mc, footer_write f)"
    using off(3,6) lay chunk_read_write by metis
  ultimately show ?thesis
    using mb lay off(4) by (simp add: reader_open_def manifest_from_json_def ok_or_def)
qed

lemma layout_mmap_open:
  assumes "synx_layout lib js file h cs m mc f" and "synx_lib_ok lib" and "manifest_json_ok js"
  shows "mmap_open lib js file = Inr (reader_of file h f m)"
proof -
  note lay = assms(1) [unfolded synx_layout_def] and off = layout_offsets [OF assms(1)]
  obtain mb where mb: "chunk_decode lib mc = Inr mb" "from_slice js mb = Some m"
    using layout_manifest [OF assms] by blast
  have "slice file 0 64 = header_write h" using lay off(1) by (simp add: slice_def)
  then have "header_read (slice file 0 64) = Inr (h, [])"
    using lay header_read_write [of h "[]"] by simp
  moreover have "slice file 0 4 = MAGIC" using lay by (simp add: slice_def header_write_def)
  moreover have "footer_read (drop (length file - 256) file) = Inr (f, [])"
    using off(5) lay footer_read_write [of f "[]"] by simp
  moreover have "chunk_read (drop (unat (h_manifest_offset h)) file) = Inr (mc, footer_write f)"
    using off(3,6) lay chunk_read_write by metis
  moreover have "unat (h_manifest_offset h) + 16 \<le> length file" "length file < 2 ^ 64"
    using off(3,4) layout_small [OF assms(1)] by simp_all
  ultimately show ?thesis
    using mb lay off(4) by (simp add: mmap_open_def manifest_from_json_def ok_or_def Let_def)
qed

text \<open>Every chunk is found where the manifest says, by both readers.\<close>

lemma layout_chunk_at:
  assumes "synx_layout lib js file h cs m mc f" and "i < length cs"
  shows "unat (cr_offset (m_chunks m ! i)) = 64 + length (frames (take i cs))"
    and "unat (cr_length (m_chunks m ! i)) = 56 + length (ch_payload (cs ! i))"
    and "cr_kind_raw (m_chunks m ! i) = kind_u16 (ch_kind (cs ! i))"
    and "\<exists>rest. drop (64 + length (frames (take i cs))) file = fst (chunk_write (cs ! i)) @ rest"
proof -
  note lay = assms(1) [unfolded synx_layout_def] and off = layout_offsets [OF assms(1)]
  have ok: "chunk_ok (cs ! i)" using lay assms(2) by simp
  have cs: "cs = take i cs @ cs ! i # drop (Suc i) cs" using assms(2) by (rule id_take_nth_drop)
  have fr: "frames cs = frames (take i cs) @ fst (chunk_write (cs ! i)) @ frames (drop (Suc i) cs)"
    by (subst cs) simp
  have "ref_place (m_chunks m ! i) = ref_place (refs 64 cs ! i)"
    using lay assms(2) layout_length [OF assms(1)] by (metis length_refs nth_map)
  also have "refs 64 cs ! i = ref_of (64 + length (frames (take i cs))) (cs ! i)"
    using lay assms(2) by (intro refs_nth) simp_all
  finally have nth: "cr_kind_raw (m_chunks m ! i) = kind_u16 (ch_kind (cs ! i))"
    "cr_offset (m_chunks m ! i) = word_of_nat (64 + length (frames (take i cs)))"
    "cr_length (m_chunks m ! i) = ucast (chunk_total_len (cs ! i))"
    by (simp_all add: ref_place_def ref_of_def chunk_ref_new_def chunk_write_def)
  have "length file < 2 ^ 64" using assms(1) by (rule layout_small)
  then have "64 + length (frames (take i cs)) < 2 ^ 64" using off(4) fr by simp
  then show "unat (cr_offset (m_chunks m ! i)) = 64 + length (frames (take i cs))"
    unfolding nth by (rule unat_u64_of_nat)
  show "cr_kind_raw (m_chunks m ! i) = kind_u16 (ch_kind (cs ! i))"
    by (rule nth)
  show "unat (cr_length (m_chunks m ! i)) = 56 + length (ch_payload (cs ! i))"
    using chunk_total_len_exact [OF ok] by (simp add: nth unat_ucast_u64)
  have "file = (header_write h @ frames (take i cs)) @ fst (chunk_write (cs ! i)) @
      frames (drop (Suc i) cs) @ fst (chunk_write mc) @ footer_write f"
    using lay fr by simp
  then have "drop (64 + length (frames (take i cs))) file = fst (chunk_write (cs ! i)) @
      frames (drop (Suc i) cs) @ fst (chunk_write mc) @ footer_write f"
    using off(1) by simp
  then show "\<exists>rest. drop (64 + length (frames (take i cs))) file = fst (chunk_write (cs ! i)) @ rest"
    by blast
qed

lemma layout_read_chunk:
  assumes "synx_layout lib js file h cs m mc f" and "i < length cs"
  shows "read_chunk_at (reader_of file h f m) i = Inr (cs ! i)"
    and "mmap_read_chunk (reader_of file h f m) i = Inr (cs ! i)"
proof -
  note lay = assms(1) [unfolded synx_layout_def] and at = layout_chunk_at [OF assms]
  have ok: "chunk_ok (cs ! i)" and len: "i < length (m_chunks m)"
    using lay assms(2) layout_length [OF assms(1)] by simp_all
  obtain rest where rest:
    "drop (64 + length (frames (take i cs))) file = fst (chunk_write (cs ! i)) @ rest"
    using at(4) by blast
  show "read_chunk_at (reader_of file h f m) i = Inr (cs ! i)"
    using len chunk_read_write [OF ok] rest by (simp add: read_chunk_at_def at(1))
  have fin: "64 + length (frames (take i cs)) + (56 + length (ch_payload (cs ! i))) \<le> length file"
    using arg_cong [OF rest, of length] ok by (simp add: length_chunk_write chunk_ok_def)
  have "slice file (64 + length (frames (take i cs)))
      (64 + length (frames (take i cs)) + (56 + length (ch_payload (cs ! i)))) =
      fst (chunk_write (cs ! i))"
    using rest ok by (simp add: slice_def length_chunk_write chunk_ok_def)
  moreover have "length file < 2 ^ 64" using assms(1) by (rule layout_small)
  ultimately show "mmap_read_chunk (reader_of file h f m) i = Inr (cs ! i)"
    using len fin chunk_read_write [OF ok, of "[]"]
    by (simp add: mmap_read_chunk_def raw_slice_def at(1,2) Let_def)
qed

lemma append_all_flags: "append_all lib items w = Inr w' \<Longrightarrow> h_flags (w_header w') = h_flags (w_header w)"
proof (induction items arbitrary: w)
  case (Cons it items)
  then show ?case
    by (cases it) (auto simp: and_then_Inr_iff writer_append_def write_chunk_def Let_def
        case_prod_beta)
qed simp

lemma chunk_for_hashes:
  assumes "synx_lib_ok lib"
  shows "list_all2 (chunk_for lib) items cs \<Longrightarrow> \<forall>c \<in> set cs. length (ch_hash c) = 32"
  by (induction items cs rule: list_all2_induct)
    (use assms in \<open>auto simp: chunk_for_def synx_lib_ok_def dest: chunk_new_fields(4)\<close>)

lemma write_file_layout:
  assumes "synx_lib_ok lib" and "from_bits_truncate flags = flags"
    and "write_file lib js now flags items = Inr file" and "length file < 2 ^ 32"
  shows "\<exists>h cs m mc f. synx_layout lib js file h cs m mc f \<and> h_flags h = flags \<and>
    list_all2 (chunk_for lib) items cs"
proof -
  obtain w0 w where w0: "writer_create None now flags = Inr w0" and w: "append_all lib items w0 = Inr w"
    and fin: "writer_finish lib js w = Inr file"
    using assms(3) by (auto simp: write_file_def and_then_Inr_iff)
  obtain cs where cs: "writer_inv w cs" "list_all2 (chunk_for lib) items cs"
    using append_all_inv [OF w writer_create_inv [OF w0 assms(2)]] by auto
  have "\<forall>c \<in> set cs. length (ch_hash c) = 32"
    using cs(2) by (rule chunk_for_hashes [OF assms(1)])
  from finish_layout [OF fin cs(1) assms(1) this assms(4)] obtain h mc f where
    "synx_layout lib js file h cs (w_manifest w) mc f" "h_flags h = h_flags (w_header w)" by blast
  moreover have "h_flags (w_header w) = flags"
    using append_all_flags [OF w] w0 by (auto simp: writer_create_def Let_def)
  ultimately show ?thesis using cs(2) by blast
qed

lemma refs_count:
  "length (filter (\<lambda>cr. cr_kind_raw cr = kind_u16 k) (refs off cs)) =
   length (filter (\<lambda>c. ch_kind c = k) cs)"
  by (induction cs arbitrary: off) (simp_all add: ref_of_def chunk_ref_new_def kind_u16_inj)

lemma chunk_for_kinds:
  "list_all2 (chunk_for lib) items cs \<Longrightarrow>
   length (filter (\<lambda>c. ch_kind c = k) cs) = length (filter (\<lambda>it. fst it = k) items)"
  by (induction items cs rule: list_all2_induct) (auto simp: chunk_for_def dest: chunk_new_fields(1))

lemma layout_item:
  assumes "synx_layout lib js file h cs m mc f" and "list_all2 (chunk_for lib) items cs"
    and "synx_lib_ok lib" and "i < length items"
  shows "read_chunk_at (reader_of file h f m) i = Inr (cs ! i) \<and>
    mmap_read_chunk (reader_of file h f m) i = Inr (cs ! i) \<and>
    ch_kind (cs ! i) = fst (items ! i) \<and> chunk_decode lib (cs ! i) = Inr (snd (snd (items ! i)))"
proof -
  obtain k co d where it: "items ! i = (k, co, d)" by (cases "items ! i")
  then have new: "chunk_new lib k co d = Inr (cs ! i)"
    using list_all2_nthD [OF assms(2,4)] by simp
  moreover have "i < length cs" using assms(2,4) list_all2_lengthD by fastforce
  ultimately show ?thesis
    using layout_read_chunk [OF assms(1)] it chunk_decode_new [OF assms(3) new]
      chunk_new_fields(1) [OF new] by simp
qed

lemma layout_count:
  assumes "synx_layout lib js file h cs m mc f"
  shows "chunk_count_by_kind (reader_of file h f m) k = length (filter (\<lambda>c. ch_kind c = k) cs)"
proof -
  have cnt: "length (filter (\<lambda>cr. cr_kind_raw cr = x) crs) =
      length (filter (\<lambda>p. fst p = x) (map ref_place crs))" for x crs
    by (simp add: ref_place_def filter_map comp_def)
  have "map ref_place (m_chunks m) = map ref_place (refs 64 cs)"
    using assms by (simp add: synx_layout_def)
  then show ?thesis
    using cnt [of "kind_u16 k" "m_chunks m"] cnt [of "kind_u16 k" "refs 64 cs"] refs_count [of k 64 cs]
    by (simp add: chunk_count_by_kind_def)
qed

lemma compressed_flag: "from_bits_truncate COMPRESSED = COMPRESSED"
  by (simp add: from_bits_truncate_def COMPRESSED_def SIGNED_def CRDT_def)

section \<open>Export as a sequence of appends\<close>

fun export_items :: "(row_meta list \<Rightarrow> bytes option) \<Rightarrow> nat \<Rightarrow> migrate_row list \<Rightarrow> row_meta list \<Rightarrow>
    item list" where
  "export_items rv batch [] buf = (if buf = [] then [] else [(RowBatch, Zstd, the (rv buf))])"
| "export_items rv batch (r # rs) buf =
     (let buf' = buf @ [row_meta_of r] in
      (TextBlob, Zstd, as_bytes (mr_text r)) #
      (if length buf' \<ge> batch then (RowBatch, Zstd, the (rv buf')) # export_items rv batch rs []
       else export_items rv batch rs buf'))"

lemma flush_rows_append:
  "flush_rows lib rv buf w = Inr w' \<Longrightarrow> writer_append lib RowBatch Zstd (the (rv buf)) w = Inr w'"
  by (auto simp: flush_rows_def and_then_Inr_iff ok_or_def split: option.splits)

lemma export_loop_items:
  assumes "export_loop lib rv batch rows (w, n, buf) = Inr (w1, n1, buf1)"
    and "(if buf1 \<noteq> [] then flush_rows lib rv buf1 w1 else Inr w1) = Inr w'"
  shows "append_all lib (export_items rv batch rows buf) w = Inr w' \<and> n1 = n + length rows"
  using assms
proof (induction rows arbitrary: w n buf)
  case Nil
  then show ?case by (auto dest: flush_rows_append split: if_splits)
next
  case (Cons r rs)
  define buf' where "buf' = buf @ [row_meta_of r]"
  obtain w2 where w2: "writer_append lib TextBlob Zstd (as_bytes (mr_text r)) w = Inr w2"
    using Cons.prems(1) by (auto simp: and_then_Inr_iff Let_def)
  show ?case
  proof (cases "length buf' \<ge> batch")
    case True
    then obtain w3 where w3: "flush_rows lib rv buf' w2 = Inr w3"
      "export_loop lib rv batch rs (w3, n + 1, []) = Inr (w1, n1, buf1)"
      using Cons.prems(1) w2 by (auto simp: and_then_Inr_iff buf'_def)
    from Cons.IH [OF w3(2) Cons.prems(2)] flush_rows_append [OF w3(1)] w2 True
    show ?thesis by (simp add: buf'_def)
  next
    case False
    then have "export_loop lib rv batch rs (w2, n + 1, buf') = Inr (w1, n1, buf1)"
      using Cons.prems(1) w2 by (auto simp: and_then_Inr_iff buf'_def)
    from Cons.IH [OF this Cons.prems(2)] w2 False show ?thesis by (simp add: buf'_def)
  qed
qed

lemma export_rows_items:
  assumes "export_rows lib js rv None now rows batch = Inr (n, file)"
  shows "write_file lib js now COMPRESSED (export_items rv batch rows []) = Inr file \<and> n = length rows"
  using assms
  by (auto simp: export_rows_def write_file_def and_then_Inr_iff dest!: export_loop_items
      split: prod.splits)

lemma export_items_texts:
  "length (filter (\<lambda>it. fst it = TextBlob) (export_items rv batch rows buf)) = length rows"
  "map (snd \<circ> snd) (filter (\<lambda>it. fst it = TextBlob) (export_items rv batch rows buf)) =
     map (\<lambda>r. as_bytes (mr_text r)) rows"
  by (induction rows arbitrary: buf) (simp_all add: Let_def)

lemma export_items_batches:
  "length buf < max 1 batch \<Longrightarrow>
   length (filter (\<lambda>it. fst it = RowBatch) (export_items rv batch rows buf)) =
     (length buf + length rows + max 1 batch - 1) div max 1 batch"
proof (induction rows arbitrary: buf)
  case Nil
  then show ?case
    by (cases buf) (auto simp: div_eq_0_iff intro!: div_nat_eqI [symmetric])
next
  case (Cons r rs)
  show ?case
  proof (cases "length buf + 1 \<ge> batch")
    case True
    then have "length buf + 1 = max 1 batch" using Cons.prems by auto
    then have eq: "length buf + length (r # rs) + max 1 batch - 1 =
        (length rs + max 1 batch - 1) + max 1 batch"
      by simp
    have "(length buf + length (r # rs) + max 1 batch - 1) div max 1 batch =
        Suc ((length rs + max 1 batch - 1) div max 1 batch)"
      unfolding eq by (subst div_add_self2) simp_all
    then show ?thesis using Cons.IH [of "[]"] True by simp
  next
    case False
    then show ?thesis using Cons.IH [of "buf @ [row_meta_of r]"] by (simp add: Let_def)
  qed
qed

section \<open>Substituting a chunk in place\<close>

text \<open>The file with the bytes from offset \<open>off\<close> on overwritten by \<open>new\<close>.\<close>

definition overwrite :: "bytes \<Rightarrow> nat \<Rightarrow> bytes \<Rightarrow> bytes" where
  "overwrite file off new = take off file @ new @ drop (off + length new) file"

lemma refs_place_update:
  assumes "i < length cs" and "ch_kind c = ch_kind (cs ! i)"
    and "length (ch_payload c) = length (ch_payload (cs ! i))"
  shows "map ref_place (refs off (cs[i := c])) = map ref_place (refs off cs)"
  using assms
proof (induction cs arbitrary: off i)
  case (Cons a cs)
  then show ?case
    by (cases i) (simp_all add: ref_place_def ref_of_def chunk_ref_new_def chunk_write_def
        chunk_total_len_def)
qed simp

lemma layout_substitute:
  assumes "synx_layout lib js file h cs m mc f" and "i < length cs" and "chunk_ok c"
    and "ch_kind c = ch_kind (cs ! i)" and "length (ch_payload c) = length (ch_payload (cs ! i))"
  shows "synx_layout lib js
    (overwrite file (64 + length (frames (take i cs))) (fst (chunk_write c))) h (cs[i := c]) m mc f"
proof -
  note lay = assms(1) [unfolded synx_layout_def] and off = layout_offsets [OF assms(1)]
  have ok: "chunk_ok (cs ! i)" using lay assms(2) by simp
  have len: "length (fst (chunk_write c)) = length (fst (chunk_write (cs ! i)))"
    using ok assms(3,5) by (simp add: length_chunk_write chunk_ok_def)
  have cs: "cs = take i cs @ cs ! i # drop (Suc i) cs" using assms(2) by (rule id_take_nth_drop)
  have fr: "frames cs = frames (take i cs) @ fst (chunk_write (cs ! i)) @ frames (drop (Suc i) cs)"
    by (subst cs) simp
  have fr': "frames (cs[i := c]) = frames (take i cs) @ fst (chunk_write c) @ frames (drop (Suc i) cs)"
    using assms(2) by (simp add: upd_conv_take_nth_drop)
  have "file = (header_write h @ frames (take i cs)) @ fst (chunk_write (cs ! i)) @
      frames (drop (Suc i) cs) @ fst (chunk_write mc) @ footer_write f"
    using lay fr by simp
  then have ow: "overwrite file (64 + length (frames (take i cs))) (fst (chunk_write c)) =
      header_write h @ frames (cs[i := c]) @ fst (chunk_write mc) @ footer_write f"
    using off(1) len by (simp add: overwrite_def fr')
  have same: "length (frames (cs[i := c])) = length (frames cs)" by (simp add: fr fr' len)
  have "\<forall>x \<in> set (cs[i := c]). chunk_ok x"
    using lay assms(3) set_update_subset_insert by fastforce
  moreover have "length (header_write h @ frames (cs[i := c]) @ fst (chunk_write mc) @ footer_write f) =
      length file"
    using lay same by simp
  ultimately show ?thesis
    using lay unfolding synx_layout_def ow refs_place_update [OF assms(2,4,5)] same by metis
qed

section \<open>Properties\<close>

text \<open>C4. Writing and reading back a container: a file produced by \<^verbatim>\<open>create\<close>, any number of
  \<^verbatim>\<open>append\<close>s and \<^verbatim>\<open>finish\<close> is opened by the buffered and by the memory-mapped reader with the
  same result, with the flags given, one manifest entry per append, and every chunk decoding to the
  data appended, under its kind. The file is assumed shorter than 4 GiB.\<close>

theorem synx_write_read:
  assumes "synx_lib_ok lib" and "manifest_json_ok js" and "from_bits_truncate flags = flags"
    and "write_file lib js now flags items = Inr file" and "length file < 2 ^ 32"
  shows "\<exists>r. reader_open lib js file = Inr r \<and> mmap_open lib js file = Inr r \<and>
    h_flags (r_header r) = flags \<and> length (m_chunks (r_manifest r)) = length items \<and>
    (\<forall>i < length items. \<exists>c. read_chunk_at r i = Inr c \<and> mmap_read_chunk r i = Inr c \<and>
      ch_kind c = fst (items ! i) \<and> chunk_decode lib c = Inr (snd (snd (items ! i))))"
proof -
  obtain h cs m mc f where lay: "synx_layout lib js file h cs m mc f" and flags: "h_flags h = flags"
    and cs: "list_all2 (chunk_for lib) items cs"
    using write_file_layout [OF assms(1,3,4,5)] by blast
  let ?r = "reader_of file h f m"
  have len: "length items = length cs" using cs by (rule list_all2_lengthD)
  have "\<forall>i < length items. \<exists>c. read_chunk_at ?r i = Inr c \<and> mmap_read_chunk ?r i = Inr c \<and>
      ch_kind c = fst (items ! i) \<and> chunk_decode lib c = Inr (snd (snd (items ! i)))"
    using layout_item [OF lay cs assms(1)] by blast
  then show ?thesis
    using layout_reader_open [OF lay assms(1,2)] layout_mmap_open [OF lay assms(1,2)] flags len
      layout_length [OF lay] by (intro exI [of _ ?r]) simp
qed

text \<open>Sample library functions for the witnesses: a digest padded to 32 bytes, a codec that copies,
  and a \<^verbatim>\<open>serde_json\<close> that knows one manifest.\<close>

definition sample_lib :: synx_lib where
  "sample_lib = \<lparr>blake3 = (\<lambda>d. take 32 (d @ replicate 32 0)), zstd_encode = Some, zstd_decode = Some\<rparr>"

definition sample_json :: "manifest \<Rightarrow> manifest_json" where
  "sample_json m = \<lparr>to_vec = (\<lambda>x. if x = m then Some [123, 125] else None),
     from_slice = (\<lambda>b. if b = [123, 125] then Some m else None)\<rparr>"

definition sample_manifest :: manifest where
  "sample_manifest = manifest_default\<lparr>m_chunks := [\<lparr>cr_kind_raw = 2, cr_offset = 64,
     cr_length = 58, cr_hash = [104, 105] @ replicate 30 0\<rparr>]\<rparr>"

abbreviation sample_items :: "item list" where
  "sample_items \<equiv> [(TextBlob, Raw, [104, 105])]"

lemma sample_lib_ok: "synx_lib_ok sample_lib"
  by (auto simp: synx_lib_ok_def sample_lib_def)

lemma sample_json_ok: "manifest_json_ok (sample_json m)"
  by (auto simp: manifest_json_ok_def sample_json_def split: if_splits)

lemma sample_write:
  "\<exists>file. write_file sample_lib (sample_json sample_manifest) 0 COMPRESSED sample_items = Inr file \<and>
     length file < 2 ^ 32"
proof -
  have rep: "take 30 (replicate 32 (0 :: byte)) = replicate 30 0" by simp
  show ?thesis
    by (simp add: write_file_def writer_create_def writer_append_def chunk_new_def write_chunk_def
        chunk_write_def chunk_total_len_def writer_finish_def manifest_to_json_def ok_or_def
        sample_json_def sample_manifest_def sample_lib_def manifest_default_def add_chunk_def
        chunk_ref_new_def Let_def rep header_new_def header_write_def footer_write_def)
qed

theorem synx_write_read_witness:
  "\<exists>file r. write_file sample_lib (sample_json sample_manifest) 0 COMPRESSED sample_items = Inr file \<and>
     reader_open sample_lib (sample_json sample_manifest) file = Inr r \<and>
     (\<exists>c. read_chunk_at r 0 = Inr c \<and> chunk_decode sample_lib c = Inr [104, 105])"
proof -
  obtain fl where w: "write_file sample_lib (sample_json sample_manifest) 0 COMPRESSED sample_items
      = Inr fl" "length fl < 2 ^ 32"
    using sample_write by blast
  show ?thesis
    using synx_write_read [OF sample_lib_ok sample_json_ok compressed_flag w] w(1) by auto
qed

text \<open>The three layouts are exact, self-delimiting codecs: a header, a footer and a chunk
  are read back as written whatever follows them, the header and the footer with their fixed sizes,
  and a run of chunk frames determines its chunks. A footer is representable when it is unsigned or
  carries a signature that is not all zero; a chunk when its frame length fits 32 bits.\<close>

theorem synx_codecs_roundtrip:
  assumes "header_ok h" and "footer_ok f" and "chunk_ok c"
    and "\<forall>x \<in> set cs \<union> set cs'. chunk_ok x" and "length cs = length cs'"
  shows "header_read (header_write h @ rest) = Inr (h, rest) \<and> length (header_write h) = HEADER_SIZE \<and>
    footer_read (footer_write f @ rest) = Inr (f, rest) \<and> length (footer_write f) = FOOTER_SIZE \<and>
    chunk_read (fst (chunk_write c) @ rest) = Inr (c, rest) \<and>
    unat (snd (chunk_write c)) = length (fst (chunk_write c)) \<and>
    (frames cs @ rest = frames cs' @ rest' \<longrightarrow> cs = cs' \<and> rest = rest')"
proof -
  have "cs = cs' \<and> rest = rest'" if "frames cs @ rest = frames cs' @ rest'"
  proof -
    have "list_all chunk_ok cs" "list_all chunk_ok cs'" using assms(4) by (auto simp: list_all_iff)
    note dec = this [THEN chunk_codec.dec_many_concat]
    have "Some (cs, rest) = Some (cs', rest')"
      using dec(1) [of rest, unfolded that [unfolded frames_def] assms(5)] dec(2) [of rest']
      by (rule trans [OF sym])
    then show ?thesis by simp
  qed
  moreover have "unat (snd (chunk_write c)) = length (fst (chunk_write c))"
    using chunk_total_len_exact [OF assms(3)] assms(3)
    by (simp add: length_chunk_write chunk_ok_def) (simp add: chunk_write_def unat_ucast_u64)
  ultimately show ?thesis
    using header_read_write [OF assms(1)] footer_read_write [OF assms(2)]
      chunk_read_write [OF assms(3)] length_footer_write [OF assms(2)] assms(1)
    by (simp add: length_header_write header_ok_def)
qed

definition sample_chunk :: chunk where
  "sample_chunk = \<lparr>ch_kind = TextBlob, ch_codec = Raw, ch_flags = 0,
     ch_hash = [104, 105] @ replicate 30 0, ch_uncompressed_len = 2, ch_payload = [104, 105]\<rparr>"

theorem synx_codecs_roundtrip_witness:
  "header_read (header_write (header_new 7)) = Inr (header_new 7, []) \<and>
   chunk_read (fst (chunk_write sample_chunk)) = Inr (sample_chunk, [])"
  using synx_codecs_roundtrip [of "header_new 7"
      "\<lparr>f_manifest_hash = replicate 32 1, f_signature = None, f_pubkey = None\<rparr>" sample_chunk "[]" "[]" "[]"]
  by (simp add: header_ok_def header_new_def compressed_flag footer_ok_def chunk_ok_def sample_chunk_def)

text \<open>The manifest hash does not protect the chunks. In any written file the frame of a raw
  chunk can be overwritten by the frame of other data of the same length: the result still opens,
  with the same footer and the same manifest (hash fields included), and reading the chunk returns
  the substituted data, which passes \<^verbatim>\<open>decode\<close>. Neither reader compares a chunk with the hash its
  manifest entry records.\<close>

theorem chunk_substitution_undetected:
  assumes "synx_lib_ok lib" and "manifest_json_ok js" and "from_bits_truncate flags = flags"
    and "write_file lib js now flags items = Inr file" and "length file < 2 ^ 32"
    and "i < length items" and "items ! i = (k, Raw, d)" and "length d' = length d"
  shows "\<exists>off c' r r'. chunk_new lib k Raw d' = Inr c' \<and> reader_open lib js file = Inr r \<and>
    reader_open lib js (overwrite file off (fst (chunk_write c'))) = Inr r' \<and>
    r_footer r' = r_footer r \<and> r_manifest r' = r_manifest r \<and>
    read_chunk_at r' i = Inr c' \<and> mmap_read_chunk r' i = Inr c' \<and> chunk_decode lib c' = Inr d'"
proof -
  obtain h cs m mc f where lay: "synx_layout lib js file h cs m mc f"
    and cs: "list_all2 (chunk_for lib) items cs"
    using write_file_layout [OF assms(1,3,4,5)] by blast
  have i: "i < length cs" using cs assms(6) list_all2_lengthD by metis
  have new: "chunk_new lib k Raw d = Inr (cs ! i)"
    using list_all2_nthD [OF cs assms(6)] assms(7) by simp
  obtain c' where c': "chunk_new lib k Raw d' = Inr c'" by (simp add: chunk_new_def)
  have ok: "chunk_ok (cs ! i)" using lay i by (simp add: synx_layout_def)
  have same: "ch_kind c' = ch_kind (cs ! i)" "length (ch_payload c') = length (ch_payload (cs ! i))"
    using chunk_new_fields [OF new] chunk_new_fields [OF c'] assms(8) by simp_all
  have ok': "chunk_ok c'"
    using ok same(2) assms(1) chunk_new_fields(4) [OF c'] by (simp add: chunk_ok_def synx_lib_ok_def)
  note lay' = layout_substitute [OF lay i ok' same]
  have "i < length (cs[i := c'])" using i by simp
  note rd = layout_read_chunk [OF lay' this]
  let ?off = "64 + length (frames (take i cs))"
  show ?thesis
  proof (intro exI conjI)
    show "reader_open lib js file = Inr (reader_of file h f m)"
      by (rule layout_reader_open [OF lay assms(1,2)])
    show "reader_open lib js (overwrite file ?off (fst (chunk_write c'))) =
        Inr (reader_of (overwrite file ?off (fst (chunk_write c'))) h f m)"
      by (rule layout_reader_open [OF lay' assms(1,2)])
  qed (use c' rd i chunk_decode_new [OF assms(1) c'] in simp_all)
qed

theorem chunk_substitution_undetected_witness:
  "\<exists>file off c' r'. write_file sample_lib (sample_json sample_manifest) 0 COMPRESSED sample_items
      = Inr file \<and>
    reader_open sample_lib (sample_json sample_manifest) (overwrite file off (fst (chunk_write c')))
      = Inr r' \<and>
    read_chunk_at r' 0 = Inr c' \<and> chunk_decode sample_lib c' = Inr [110, 111]"
proof -
  obtain fl where w: "write_file sample_lib (sample_json sample_manifest) 0 COMPRESSED sample_items
      = Inr fl" "length fl < 2 ^ 32"
    using sample_write by blast
  show ?thesis
    using chunk_substitution_undetected [OF sample_lib_ok sample_json_ok compressed_flag w,
        of 0 TextBlob "[104, 105]" "[110, 111]"] w(1) by auto
qed

text \<open>The frame length is a 32-bit field filled by a truncating cast. For a chunk whose frame
  reaches 4 GiB, \<^verbatim>\<open>write_to\<close> reports success with a length smaller than what it wrote, the writer
  advances its offset by that smaller length, so that the manifest entry of the next chunk points
  into this one, and the frame does not read back.\<close>

theorem chunk_length_wraps:
  assumes "length (ch_hash c) = 32" and "2 ^ 32 \<le> 56 + length (ch_payload c)"
  shows "unat (snd (chunk_write c)) = (56 + length (ch_payload c)) mod 2 ^ 32 \<and>
    unat (snd (chunk_write c)) < length (fst (chunk_write c)) \<and>
    w_offset (write_chunk c w) = w_offset w + snd (chunk_write c) \<and>
    w_inner (write_chunk c w) = w_inner w @ fst (chunk_write c) \<and>
    chunk_read (fst (chunk_write c) @ rest) \<noteq> Inr (c, rest)"
proof -
  define n where "n = 56 + length (ch_payload c)"
  have tot: "unat (chunk_total_len c) = n mod 2 ^ 32"
    unfolding chunk_total_len_def n_def by (simp only: unat_of_nat sizes) simp
  have lt: "n mod 2 ^ 32 < n" using assms(2) by (simp add: n_def mod_less_divisor less_le_trans)
  have wr: "snd (chunk_write c) = ucast (chunk_total_len c)" by (simp add: chunk_write_def)
  have "chunk_read (fst (chunk_write c) @ rest) \<noteq> Inr (c, rest)"
  proof
    assume "chunk_read (fst (chunk_write c) @ rest) = Inr (c, rest)"
    then obtain p where "read_n (n mod 2 ^ 32 - 56) (ch_payload c @ rest) = Inr (p, rest)"
      and upd: "c\<lparr>ch_payload := p\<rparr> = c" and "\<not> n mod 2 ^ 32 < 56"
      by (auto simp: chunk_read_frame [OF assms(1)] tot and_then_Inr_iff split: if_splits)
    then have "length p = n mod 2 ^ 32 - 56" by (simp add: read_n_Inr)
    moreover have "p = ch_payload c" using arg_cong [OF upd, of ch_payload] by simp
    ultimately show False using lt by (simp add: n_def)
  qed
  then show ?thesis
    using tot lt by (simp add: wr unat_ucast_u64 length_chunk_write [OF assms(1)] n_def [symmetric])
      (simp add: write_chunk_def chunk_write_def Let_def)
qed

theorem chunk_length_wraps_witness:
  "chunk_read (fst (chunk_write (sample_chunk\<lparr>ch_payload := replicate (2 ^ 32) 0\<rparr>)))
     \<noteq> Inr (sample_chunk\<lparr>ch_payload := replicate (2 ^ 32) 0\<rparr>, [])"
  using chunk_length_wraps [of "sample_chunk\<lparr>ch_payload := replicate (2 ^ 32) 0\<rparr>" _ "[]"]
  by (simp add: sample_chunk_def)

lemma header_read_prefix:
  "64 \<le> length file \<Longrightarrow>
   header_read file = and_then (header_read (take 64 file)) (\<lambda>(h, _). Inr (h, drop 64 file))"
  by (simp add: header_read_def read_n_def read_exact_def ok_or_def Let_def)

lemma header_read_magic: "header_read s = Inr (h, t) \<Longrightarrow> slice s 0 4 = MAGIC"
  by (auto simp: header_read_def and_then_Inr_iff read_n_Inr slice_def Let_def split: if_splits)

lemma chunk_read_length: "chunk_read s = Inr (c, t) \<Longrightarrow> 16 \<le> length s"
  by (auto simp: chunk_read_def and_then_Inr_iff read_n_Inr)

text \<open>The memory-mapped reader refines the buffered one: on a file that has room for a header
  and a footer (and less than $2^{63}$ bytes, as every file), the two open exactly the same files with
  the same header, footer and manifest.\<close>

theorem mmap_open_agrees:
  assumes "HEADER_SIZE + FOOTER_SIZE \<le> length file" and "length file < 2 ^ 63"
  shows "mmap_open lib js file = Inr r \<longleftrightarrow> reader_open lib js file = Inr r"
proof (cases "header_read (take 64 file)")
  case (Inl e)
  then show ?thesis
    using assms(1) by (simp add: mmap_open_def reader_open_def header_read_prefix [of "file"] slice_def)
next
  case (Inr ht)
  then obtain h t where h: "header_read (take 64 file) = Inr (h, t)" by (cases ht) simp
  have magic: "take 4 file = MAGIC" using header_read_magic [OF h] by (simp add: slice_def)
  let ?off = "unat (h_manifest_offset h)"
  show ?thesis
  proof (cases "?off + 16 \<le> length file")
    case True
    then show ?thesis
      using assms h magic
      by (simp add: mmap_open_def reader_open_def header_read_prefix [of "file"] slice_def Let_def)
  next
    case False
    then obtain e where e: "chunk_read (drop ?off file) = Inl e"
      using chunk_read_length [of "drop ?off file"] by (cases "chunk_read (drop ?off file)") force+
    show ?thesis
      using assms h magic e False
      by (cases "footer_read (drop (length file - 256) file)")
        (simp_all add: mmap_open_def reader_open_def header_read_prefix [of "file"] slice_def Let_def
          case_prod_beta)
  qed
qed

theorem mmap_open_agrees_witness:
  "\<exists>file r. write_file sample_lib (sample_json sample_manifest) 0 COMPRESSED sample_items = Inr file \<and>
     mmap_open sample_lib (sample_json sample_manifest) file = Inr r"
proof -
  obtain fl where w: "write_file sample_lib (sample_json sample_manifest) 0 COMPRESSED sample_items
      = Inr fl" "length fl < 2 ^ 32"
    using sample_write by blast
  then obtain h cs m mc f where lay: "synx_layout sample_lib (sample_json sample_manifest) fl h cs m mc f"
    using write_file_layout [OF sample_lib_ok compressed_flag] by blast
  then show ?thesis
    using mmap_open_agrees [of fl sample_lib "sample_json sample_manifest" "reader_of fl h f m"] w
      layout_reader_open [OF lay sample_lib_ok sample_json_ok] layout_offsets(4) [OF lay] by auto
qed

text \<open>A manifest offset close to $2^{64}$ makes the memory-mapped reader panic where the buffered one
  returns an error.\<close>

lemma mmap_open_panics:
  assumes "HEADER_SIZE + FOOTER_SIZE \<le> length file" and "length file < 2 ^ 63"
    and "header_read (take 64 file) = Inr (h, [])" and "footer_read (drop (length file - 256) file) = Inr (f, [])"
    and "2 ^ 64 \<le> unat (h_manifest_offset h) + 16"
  shows "mmap_open lib js file = Inl Panic \<and> reader_open lib js file = Inl Io"
proof -
  have "take 4 file = MAGIC" using header_read_magic [OF assms(3)] by (simp add: slice_def)
  moreover have "drop (unat (h_manifest_offset h)) file = []" using assms(2,5) by simp
  moreover have "chunk_read [] = Inl Io" by (simp add: chunk_read_def read_n_def read_exact_def ok_or_def)
  ultimately show ?thesis
    using assms by (simp add: mmap_open_def reader_open_def header_read_prefix [of "file"] slice_def
        Let_def)
qed

text \<open>Exporting rows is complete: the count returned is the number of rows, and the file opens
  with one text chunk per row and one row batch per started group of \<^verbatim>\<open>docs_per_batch\<close> rows (a batch
  size of zero counts as one); the chunks are, in order, the texts and batches of the export, each
  decoding to what was written.\<close>

theorem export_rows_complete:
  assumes "synx_lib_ok lib" and "manifest_json_ok js"
    and "export_rows lib js rows_to_vec None now rows batch = Inr (n, file)" and "length file < 2 ^ 32"
  shows "n = length rows \<and> (\<exists>r. reader_open lib js file = Inr r \<and> mmap_open lib js file = Inr r \<and>
    chunk_count_by_kind r TextBlob = length rows \<and>
    chunk_count_by_kind r RowBatch = (length rows + max 1 batch - 1) div max 1 batch \<and>
    length (m_chunks (r_manifest r)) = length (export_items rows_to_vec batch rows []) \<and>
    (\<forall>i < length (export_items rows_to_vec batch rows []). \<exists>c. read_chunk_at r i = Inr c \<and>
      ch_kind c = fst (export_items rows_to_vec batch rows [] ! i) \<and>
      chunk_decode lib c = Inr (snd (snd (export_items rows_to_vec batch rows [] ! i)))))"
proof -
  let ?items = "export_items rows_to_vec batch rows []"
  note w = export_rows_items [OF assms(3), THEN conjunct1]
  obtain h cs m mc f where lay: "synx_layout lib js file h cs m mc f"
    and cs: "list_all2 (chunk_for lib) ?items cs"
    using write_file_layout [OF assms(1) compressed_flag w assms(4)] by blast
  let ?r = "reader_of file h f m"
  have count: "chunk_count_by_kind ?r k = length (filter (\<lambda>it. fst it = k) ?items)" for k
    using layout_count [OF lay] chunk_for_kinds [OF cs] by simp
  show ?thesis
  proof (intro conjI exI allI impI)
    show "reader_open lib js file = Inr ?r" by (rule layout_reader_open [OF lay assms(1,2)])
    show "mmap_open lib js file = Inr ?r" by (rule layout_mmap_open [OF lay assms(1,2)])
    show "n = length rows" using export_rows_items [OF assms(3)] by simp
    fix i assume i: "i < length ?items"
    then show "read_chunk_at ?r i = Inr (cs ! i)" "ch_kind (cs ! i) = fst (?items ! i)"
      "chunk_decode lib (cs ! i) = Inr (snd (snd (?items ! i)))"
      using layout_item [OF lay cs assms(1)] by blast+
  qed (use count export_items_texts(1) export_items_batches [of "[]"] layout_length [OF lay]
      list_all2_lengthD [OF cs] in simp_all)
qed

definition sample_row :: migrate_row where
  "sample_row = \<lparr>mr_id = ''a'', mr_uri = None, mr_title = None, mr_text = ''hi'', mr_ts = 0,
     mr_meta_json = None, mr_scope = None\<rparr>"

definition export_manifest :: manifest where
  "export_manifest = manifest_default\<lparr>m_chunks :=
     [\<lparr>cr_kind_raw = 2, cr_offset = 64, cr_length = 58, cr_hash = [104, 105] @ replicate 30 0\<rparr>,
      \<lparr>cr_kind_raw = 1, cr_offset = 122, cr_length = 58, cr_hash = [91, 93] @ replicate 30 0\<rparr>]\<rparr>"

lemma sample_export:
  "\<exists>file. export_rows sample_lib (sample_json export_manifest) (\<lambda>_. Some [91, 93]) None 0 [sample_row] 3
     = Inr (1, file) \<and> length file < 2 ^ 32"
proof -
  have rep: "take 30 (replicate 32 (0 :: byte)) = replicate 30 0" by simp
  have hi: "as_bytes ''hi'' = [104, 105]" by (simp add: as_bytes_def)
  show ?thesis
    by (simp add: export_rows_def flush_rows_def writer_create_def writer_append_def chunk_new_def
        write_chunk_def chunk_write_def chunk_total_len_def writer_finish_def manifest_to_json_def
        ok_or_def sample_json_def export_manifest_def sample_lib_def manifest_default_def
        add_chunk_def chunk_ref_new_def Let_def rep hi sample_row_def header_new_def
        header_write_def footer_write_def)
qed

theorem export_rows_complete_witness:
  "\<exists>file r. export_rows sample_lib (sample_json export_manifest) (\<lambda>_. Some [91, 93]) None 0 [sample_row] 3
      = Inr (1, file) \<and>
    reader_open sample_lib (sample_json export_manifest) file = Inr r \<and>
    chunk_count_by_kind r TextBlob = 1 \<and> chunk_count_by_kind r RowBatch = 1"
proof -
  obtain fl where w: "export_rows sample_lib (sample_json export_manifest) (\<lambda>_. Some [91, 93]) None 0
      [sample_row] 3 = Inr (1, fl)" "length fl < 2 ^ 32"
    using sample_export by blast
  show ?thesis
    using export_rows_complete [OF sample_lib_ok sample_json_ok w] w(1) by auto
qed

end
