(* ===== verification/Synx_Edges.thy ===== *)
theory Synx_Edges
  imports Rust_Text
begin

text \<open>
  The temporal knowledge-graph edges of a \<^verbatim>\<open>.synx\<close> container (\<^verbatim>\<open>synapse-core/src/synx/kg.rs\<close>): scopes,
  edges with a validity interval, and the resolution of the document that currently supersedes
  another. JSON transport is serde's and is not modelled.
\<close>

datatype scope =
    Global
  | User rstr
  | Session rstr rstr
  | Project rstr

fun as_tag :: "scope \<Rightarrow> rstr" where
  "as_tag Global = lit ''global''"
| "as_tag (User u) = lit ''user:'' @ u"
| "as_tag (Session user session) = lit ''session:'' @ user @ lit ''/'' @ session"
| "as_tag (Project p) = lit ''project:'' @ p"

datatype edge_kind = Supersedes | References | Contradicts | Summarises | Custom rstr

record edge =
  e_from :: rstr
  e_to :: rstr
  e_kind :: edge_kind
  e_valid_from :: int
  e_valid_to :: int
  e_scope :: scope

definition edge_new :: "int \<Rightarrow> rstr \<Rightarrow> rstr \<Rightarrow> edge_kind \<Rightarrow> edge" where
  "edge_new now from to kind = \<lparr>e_from = from, e_to = to, e_kind = kind, e_valid_from = now,
     e_valid_to = 0, e_scope = Global\<rparr>"

definition with_scope :: "scope \<Rightarrow> edge \<Rightarrow> edge" where
  "with_scope s e = e\<lparr>e_scope := s\<rparr>"

type_synonym edge_set = "edge list"

definition valid_at :: "edge_set \<Rightarrow> int \<Rightarrow> edge list" where
  "valid_at es ts = filter (\<lambda>e. e_valid_from e \<le> ts \<and> (e_valid_to e = 0 \<or> ts < e_valid_to e)) es"

text \<open>The \<^verbatim>\<open>find_map\<close> of the loop: the target of the first valid edge that supersedes \<open>cur\<close>.\<close>

definition next_current :: "edge_set \<Rightarrow> int \<Rightarrow> rstr \<Rightarrow> rstr option" where
  "next_current es now cur =
     map_option e_to (find (\<lambda>e. e_kind e = Supersedes \<and> e_from e = cur) (valid_at es now))"

lemma next_current_target: "next_current es now cur = Some n \<Longrightarrow> n \<in> e_to ` set es"
  by (auto simp: next_current_def valid_at_def find_Some_iff) (metis (no_types, lifting) filter_is_subset image_eqI nth_mem subsetD)

function resolve_loop :: "edge_set \<Rightarrow> int \<Rightarrow> rstr set \<Rightarrow> rstr \<Rightarrow> rstr" where
  "resolve_loop es now seen cur =
     (case next_current es now cur of
        Some n \<Rightarrow> if n \<notin> seen then resolve_loop es now (insert n seen) n else cur
      | None \<Rightarrow> cur)"
  by pat_completeness auto

text \<open>Every round adds a target of an edge to the set of ids seen.\<close>

termination
proof (relation "measure (\<lambda>(es, now, seen, cur). card (e_to ` set es - seen))", goal_cases)
  case (2 es now seen cur n)
  then have "n \<in> e_to ` set es - seen" using next_current_target by simp
  then have "e_to ` set es - insert n seen \<subset> e_to ` set es - seen" by blast
  then show ?case by (simp add: psubset_card_mono)
qed simp

declare resolve_loop.simps [simp del]

definition resolve_current :: "edge_set \<Rightarrow> rstr \<Rightarrow> int \<Rightarrow> rstr" where
  "resolve_current es id0 now = resolve_loop es now {id0} id0"

section \<open>Resolution follows the supersession edges\<close>

text \<open>An edge that says at time \<open>now\<close> that \<open>a\<close> is superseded, and the first such edge of the set leading to \<open>b\<close>.\<close>

definition in_force :: "int \<Rightarrow> rstr \<Rightarrow> edge \<Rightarrow> bool" where
  "in_force now a e \<longleftrightarrow> e_kind e = Supersedes \<and> e_from e = a \<and> e_valid_from e \<le> now \<and> (e_valid_to e = 0 \<or> now < e_valid_to e)"

definition superseded_by :: "edge_set \<Rightarrow> int \<Rightarrow> rstr \<Rightarrow> rstr \<Rightarrow> bool" where
  "superseded_by es now a b \<longleftrightarrow>
     (\<exists>before e after. es = before @ e # after \<and> in_force now a e \<and> e_to e = b \<and> (\<forall>x \<in> set before. \<not> in_force now a x))"

lemma next_current_None: "next_current es now a = None \<longleftrightarrow> (\<forall>e \<in> set es. \<not> in_force now a e)"
  by (auto simp: next_current_def valid_at_def in_force_def find_None_iff)

lemma next_current_Some: "next_current es now a = Some b \<longleftrightarrow> superseded_by es now a b"
proof (induction es)
  case Nil
  then show ?case by (simp add: next_current_def valid_at_def superseded_by_def)
next
  case (Cons e es)
  show ?case
  proof (cases "in_force now a e")
    case True
    then have "next_current (e # es) now a = Some (e_to e)" by (simp add: next_current_def valid_at_def in_force_def)
    moreover have "superseded_by (e # es) now a b \<longleftrightarrow> e_to e = b"
    proof
      assume "superseded_by (e # es) now a b"
      then show "e_to e = b" using True by (auto simp: superseded_by_def Cons_eq_append_conv)
    next
      assume "e_to e = b"
      then show "superseded_by (e # es) now a b" unfolding superseded_by_def
        using True by (intro exI [of _ "[]"] exI [of _ e] exI [of _ es]) simp
    qed
    ultimately show ?thesis by simp
  next
    case False
    then have "next_current (e # es) now a = next_current es now a" by (auto simp: next_current_def valid_at_def in_force_def)
    moreover have "superseded_by (e # es) now a b \<longleftrightarrow> superseded_by es now a b"
    proof
      assume "superseded_by (e # es) now a b"
      then obtain before x rest where x: "e # es = before @ x # rest" "in_force now a x" "e_to x = b" "\<forall>y \<in> set before. \<not> in_force now a y"
        by (auto simp: superseded_by_def)
      then obtain before' where "before = e # before'" "es = before' @ x # rest" using False by (auto simp: Cons_eq_append_conv)
      then show "superseded_by es now a b" unfolding superseded_by_def using x by (intro exI [of _ before'] exI [of _ x] exI [of _ rest]) simp
    next
      assume "superseded_by es now a b"
      then obtain before x rest where x: "es = before @ x # rest" "in_force now a x" "e_to x = b" "\<forall>y \<in> set before. \<not> in_force now a y"
        by (auto simp: superseded_by_def)
      then show "superseded_by (e # es) now a b" unfolding superseded_by_def
        using False by (intro exI [of _ "e # before"] exI [of _ x] exI [of _ rest]) simp
    qed
    ultimately show ?thesis using Cons by simp
  qed
qed

text \<open>The ids seen are those of the path walked so far.\<close>

lemma resolve_loop_path:
  assumes "path \<noteq> []" "last path = cur" "set path = seen" "distinct path" "successively (superseded_by es now) path"
  shows "\<exists>walk. distinct (path @ walk) \<and> successively (superseded_by es now) (path @ walk) \<and>
    last (path @ walk) = resolve_loop es now seen cur \<and>
    ((\<forall>e \<in> set es. \<not> in_force now (resolve_loop es now seen cur) e) \<or>
     (\<exists>n \<in> set (path @ walk). superseded_by es now (resolve_loop es now seen cur) n))"
  using assms
proof (induction es now seen cur arbitrary: path rule: resolve_loop.induct)
  case (1 es now seen cur)
  note prems = "1.prems"
  show ?case
  proof (cases "\<exists>n. next_current es now cur = Some n \<and> n \<notin> seen")
    case True
    then obtain n where n: "next_current es now cur = Some n" "n \<notin> seen" by blast
    have step: "superseded_by es now cur n" using n(1) by (simp add: next_current_Some)
    have eq: "resolve_loop es now seen cur = resolve_loop es now (insert n seen) n" using n by (simp add: resolve_loop.simps [of es now seen cur])
    have "successively (superseded_by es now) (path @ [n])" using prems step by (simp add: successively_append_iff)
    then obtain walk where "distinct ((path @ [n]) @ walk)" "successively (superseded_by es now) ((path @ [n]) @ walk)"
        "last ((path @ [n]) @ walk) = resolve_loop es now (insert n seen) n"
        "(\<forall>e \<in> set es. \<not> in_force now (resolve_loop es now (insert n seen) n) e) \<or>
         (\<exists>m \<in> set ((path @ [n]) @ walk). superseded_by es now (resolve_loop es now (insert n seen) n) m)"
      using "1.IH" [OF n, of "path @ [n]"] prems n(2) by auto
    then show ?thesis unfolding eq by (intro exI [of _ "n # walk"]) simp
  next
    case False
    then have eq: "resolve_loop es now seen cur = cur" by (auto simp: resolve_loop.simps [of es now seen cur] split: option.split)
    have "(\<forall>e \<in> set es. \<not> in_force now cur e) \<or> (\<exists>n \<in> set path. superseded_by es now cur n)"
      using False prems(3) by (cases "next_current es now cur") (auto simp: next_current_None next_current_Some)
    then show ?thesis using prems eq by (intro exI [of _ "[]"]) simp
  qed
qed

text \<open>C20. Resolution ends on every edge set, cyclic ones included. It walks from the id along edges of kind \<^verbatim>\<open>Supersedes\<close> that are valid at
  the time, taking the first such edge of the set at every id, without meeting an id twice; and it stops at an id that no such
  edge leaves, or whose first such edge leads back to an id of the walk.\<close>

theorem resolve_current_correct:
  "\<exists>walk. hd walk = id0 \<and> last walk = resolve_current es id0 now \<and> walk \<noteq> [] \<and> distinct walk \<and>
    successively (superseded_by es now) walk \<and>
    (list_all (\<lambda>e. \<not> in_force now (resolve_current es id0 now) e) es \<or>
     list_ex (\<lambda>n. superseded_by es now (resolve_current es id0 now) n) walk)"
proof -
  obtain walk where w: "distinct ([id0] @ walk)" "successively (superseded_by es now) ([id0] @ walk)"
      "last ([id0] @ walk) = resolve_current es id0 now"
      "(\<forall>e \<in> set es. \<not> in_force now (resolve_current es id0 now) e) \<or> (\<exists>n \<in> set ([id0] @ walk). superseded_by es now (resolve_current es id0 now) n)"
    using resolve_loop_path [of "[id0]" id0 "{id0}" es now] unfolding resolve_current_def by auto
  show ?thesis using w by (intro exI [of _ "[id0] @ walk"]) (simp add: list_all_iff list_ex_iff)
qed

text \<open>The newest version of three, with an expired edge and a reference on the way.\<close>

lemma resolve_current_sample:
  "resolve_current
     [\<lparr>e_from = lit ''v1'', e_to = lit ''old'', e_kind = Supersedes, e_valid_from = 0, e_valid_to = 5, e_scope = Global\<rparr>,
      \<lparr>e_from = lit ''v1'', e_to = lit ''note'', e_kind = References, e_valid_from = 0, e_valid_to = 0, e_scope = Global\<rparr>,
      \<lparr>e_from = lit ''v1'', e_to = lit ''v2'', e_kind = Supersedes, e_valid_from = 0, e_valid_to = 0, e_scope = Global\<rparr>,
      \<lparr>e_from = lit ''v2'', e_to = lit ''v3'', e_kind = Supersedes, e_valid_from = 9, e_valid_to = 0, e_scope = Global\<rparr>] (lit ''v1'') 9 = lit ''v3''"
  by (simp add: resolve_current_def resolve_loop.simps next_current_def valid_at_def lit_def)

text \<open>The tag of a session does not determine user and session: a slash may stand in either.\<close>

lemma as_tag_ambiguous:
  "as_tag (Session (lit ''a/b'') (lit ''c'')) = as_tag (Session (lit ''a'') (lit ''b/c'')) \<and>
   Session (lit ''a/b'') (lit ''c'') \<noteq> Session (lit ''a'') (lit ''b/c'')"
  by (simp add: lit_def)

end
