(* ===== verification/Provenance.thy ===== *)
theory Provenance
  imports Hash_Links
begin

text \<open>
  The signed provenance chain, crate \<^verbatim>\<open>synapse-provenance\<close>. The table \<^verbatim>\<open>provenance\<close> is the list of
  its rows in rowid order, columns in their stored form. BLAKE3, Ed25519 and base64 are the fields
  of a record of library functions; the clock and the random seed are arguments.
\<close>

section \<open>Data\<close>

definition SIG_LEN :: nat where "SIG_LEN = 64"
definition HASH_LEN :: nat where "HASH_LEN = 32"

text \<open>\<open>PPanic\<close> is the panic of \<^verbatim>\<open>copy_from_slice\<close> on a stored blob of the wrong length.\<close>

datatype prov_error =
    PEd25519 string
  | PNotFound string
  | PBrokenChain string string
  | PInvalidSignature string
  | PBase64
  | PPanic

record prov_lib =
  p_blake3 :: "bytes \<Rightarrow> bytes"
  p_sign :: "bytes \<Rightarrow> bytes \<Rightarrow> bytes"
  p_public :: "bytes \<Rightarrow> bytes"
  p_valid_point :: "bytes \<Rightarrow> bool"
  p_verify :: "bytes \<Rightarrow> bytes \<Rightarrow> bytes \<Rightarrow> bool"
  b64_encode :: "bytes \<Rightarrow> string"
  b64_decode :: "string \<Rightarrow> bytes option"

text \<open>What the crate relies on: 32-byte digests and keys, 64-byte signatures that verify under the
  public key of the signer, and base64 that decodes what it encoded.\<close>

definition prov_lib_ok :: "prov_lib \<Rightarrow> bool" where
  "prov_lib_ok lib \<longleftrightarrow>
     (\<forall>x. length (p_blake3 lib x) = 32) \<and>
     (\<forall>sk m. length sk = 32 \<longrightarrow> length (p_sign lib sk m) = 64 \<and>
        p_verify lib (p_public lib sk) m (p_sign lib sk m)) \<and>
     (\<forall>sk. length sk = 32 \<longrightarrow> length (p_public lib sk) = 32 \<and> p_valid_point lib (p_public lib sk)) \<and>
     (\<forall>x. b64_decode lib (b64_encode lib x) = Some x)"

record agent_identity =
  secret_b64 :: string
  public_b64 :: string
  ai_agent_id :: string

record provenance_record =
  pr_doc_id :: string
  pr_agent_id :: string
  pr_agent_version :: string
  pr_source_uri :: string
  pr_signature :: bytes
  pr_parent_hash :: "bytes option"
  pr_content_hash :: bytes
  pr_ts :: int

type_synonym prov_db = "provenance_record list"

section \<open>Operations\<close>

definition identity_new :: "prov_lib \<Rightarrow> bytes \<Rightarrow> string \<Rightarrow> agent_identity" where
  "identity_new lib seed agent = \<lparr>secret_b64 = b64_encode lib seed,
     public_b64 = b64_encode lib (p_public lib seed), ai_agent_id = agent\<rparr>"

definition signing_key :: "prov_lib \<Rightarrow> agent_identity \<Rightarrow> prov_error + bytes" where
  "signing_key lib ai =
     (case b64_decode lib (secret_b64 ai) of
        None \<Rightarrow> Inl PBase64
      | Some bs \<Rightarrow> if length bs = 32 then Inr bs else Inl (PEd25519 ''bad secret key len''))"

definition verifying_key :: "prov_lib \<Rightarrow> agent_identity \<Rightarrow> prov_error + bytes" where
  "verifying_key lib ai =
     (case b64_decode lib (public_b64 ai) of
        None \<Rightarrow> Inl PBase64
      | Some bs \<Rightarrow>
          if length bs \<noteq> 32 then Inl (PEd25519 ''bad public key len'')
          else if p_valid_point lib bs then Inr bs
          else Inl (PEd25519 ''invalid point''))"

definition prov_init_schema :: "prov_db option \<Rightarrow> prov_db" where
  "prov_init_schema existing = (case existing of None \<Rightarrow> [] | Some db \<Rightarrow> db)"

definition content_hash :: "prov_lib \<Rightarrow> bytes \<Rightarrow> bytes" where
  "content_hash lib content = p_blake3 lib content"

definition chain_input :: "bytes option \<Rightarrow> string \<times> bytes \<Rightarrow> bytes" where
  "chain_input parent = (\<lambda>(doc, sig). as_bytes doc @ sig @ or_zero parent)"

definition chain_hash :: "prov_lib \<Rightarrow> provenance_record \<Rightarrow> bytes" where
  "chain_hash lib r = p_blake3 lib (chain_input (pr_parent_hash r) (pr_doc_id r, pr_signature r))"

definition sign_message :: "string \<Rightarrow> string \<Rightarrow> string \<Rightarrow> string \<Rightarrow> bytes \<Rightarrow> bytes option \<Rightarrow> bytes" where
  "sign_message doc agent ver uri ch parent =
     ch @ as_bytes doc @ as_bytes agent @ as_bytes ver @ as_bytes uri @ or_zero parent"

definition get_record :: "prov_db \<Rightarrow> string \<Rightarrow> provenance_record option" where
  "get_record db doc = tbl_get pr_doc_id db doc"

definition get_chain_hash :: "prov_lib \<Rightarrow> prov_db \<Rightarrow> string \<Rightarrow> prov_error + bytes option" where
  "get_chain_hash lib db doc =
     (case tbl_get pr_doc_id db doc of
        None \<Rightarrow> Inr None
      | Some r \<Rightarrow>
          if length (pr_signature r) \<noteq> SIG_LEN \<or> \<not> wf32 (pr_parent_hash r) then Inl PPanic
          else Inr (Some (p_blake3 lib (chain_input (pr_parent_hash r) (doc, pr_signature r)))))"

definition insert_record :: "provenance_record \<Rightarrow> prov_db \<Rightarrow> prov_db" where
  "insert_record r db = tbl_put pr_doc_id r db"

definition parent_link :: "prov_lib \<Rightarrow> prov_db \<Rightarrow> string option \<Rightarrow> prov_error + bytes option" where
  "parent_link lib db parent =
     (case parent of
        None \<Rightarrow> Inr None
      | Some pid \<Rightarrow>
          (case get_chain_hash lib db pid of
             Inl e \<Rightarrow> Inl e
           | Inr None \<Rightarrow> Inl (PNotFound (''parent doc '' @ pid @ '' not found''))
           | Inr (Some h) \<Rightarrow> Inr (Some h)))"

definition sign_and_append :: "prov_lib \<Rightarrow> int \<Rightarrow> prov_db \<Rightarrow> agent_identity \<Rightarrow> string \<Rightarrow> string \<Rightarrow>
    string \<Rightarrow> bytes \<Rightarrow> string option \<Rightarrow> prov_error + (provenance_record \<times> prov_db)" where
  "sign_and_append lib now db ai doc ver uri content parent =
     (let ch = content_hash lib content in
      case parent_link lib db parent of
        Inl e \<Rightarrow> Inl e
      | Inr ph \<Rightarrow>
          (let msg = sign_message doc (ai_agent_id ai) ver uri ch ph in
           case signing_key lib ai of
             Inl e \<Rightarrow> Inl e
           | Inr sk \<Rightarrow>
               (let r = \<lparr>pr_doc_id = doc, pr_agent_id = ai_agent_id ai, pr_agent_version = ver,
                         pr_source_uri = uri, pr_signature = p_sign lib sk msg,
                         pr_parent_hash = ph, pr_content_hash = ch, pr_ts = now\<rparr> in
                Inr (r, insert_record r db))))"

definition verify_signature :: "prov_lib \<Rightarrow> provenance_record \<Rightarrow> bytes \<Rightarrow> prov_error + unit" where
  "verify_signature lib r pk =
     (let msg = sign_message (pr_doc_id r) (pr_agent_id r) (pr_agent_version r) (pr_source_uri r)
                  (pr_content_hash r) (pr_parent_hash r) in
      if length (pr_signature r) \<noteq> SIG_LEN then Inl (PEd25519 ''bad signature len'')
      else if p_verify lib pk msg (pr_signature r) then Inr ()
      else Inl (PInvalidSignature (pr_doc_id r)))"

definition records_by_chain_hash :: "prov_lib \<Rightarrow> prov_db \<Rightarrow> (bytes \<rightharpoonup> provenance_record)" where
  "records_by_chain_hash lib db = fold (\<lambda>r m. m(chain_hash lib r \<mapsto> r)) db Map.empty"

text \<open>The loop of \<^verbatim>\<open>verify_chain\<close>, entered with the id to check next.\<close>

lemma get_record_docs: "get_record db doc = Some r \<Longrightarrow> doc \<in> pr_doc_id ` set db"
  by (auto simp: get_record_def dest!: tbl_get_SomeD)

function walk_chain :: "prov_lib \<Rightarrow> prov_db \<Rightarrow> (bytes \<rightharpoonup> provenance_record) \<Rightarrow> (string \<rightharpoonup> bytes) \<Rightarrow>
    string set \<Rightarrow> string \<Rightarrow> prov_error + unit" where
  "walk_chain lib db by_hash keys visited doc =
     (if doc \<in> visited then Inl (PBrokenChain doc ''cycle detected'')
      else case get_record db doc of
        None \<Rightarrow> Inl (PNotFound doc)
      | Some r \<Rightarrow>
          (case keys (pr_agent_id r) of
             None \<Rightarrow> Inl (PBrokenChain doc (''no public key for agent '' @ pr_agent_id r))
           | Some pk \<Rightarrow>
               (case verify_signature lib r pk of
                  Inl e \<Rightarrow> Inl e
                | Inr _ \<Rightarrow>
                    (case pr_parent_hash r of
                       None \<Rightarrow> Inr ()
                     | Some ph \<Rightarrow>
                         (case by_hash ph of
                            None \<Rightarrow> Inl (PBrokenChain doc ''parent_hash references missing record'')
                          | Some p \<Rightarrow>
                              walk_chain lib db by_hash keys (insert doc visited) (pr_doc_id p))))))"
  by pat_completeness auto

text \<open>Every round visits another document of the table.\<close>

termination
proof (relation "measure (\<lambda>(lib, db, by_hash, keys, visited, doc). card (pr_doc_id ` set db - visited))",
    goal_cases)
  case (2 lib db by_hash keys visited doc)
  then have "doc \<in> pr_doc_id ` set db - visited" using get_record_docs by simp
  then have "pr_doc_id ` set db - insert doc visited \<subset> pr_doc_id ` set db - visited" by blast
  then show ?case by (simp add: psubset_card_mono)
qed simp

declare walk_chain.simps [simp del]

definition verify_chain :: "prov_lib \<Rightarrow> prov_db \<Rightarrow> (string \<rightharpoonup> bytes) \<Rightarrow> string \<Rightarrow> prov_error + unit" where
  "verify_chain lib db keys root = walk_chain lib db (records_by_chain_hash lib db) keys {} root"

fun prov_display :: "prov_error \<Rightarrow> string" where
  "prov_display (PEd25519 e) = ''ed25519: '' @ e"
| "prov_display (PNotFound d) = ''doc not found: '' @ d"
| "prov_display (PBrokenChain d why) = ''chain broken at doc '' @ d @ '': '' @ why"
| "prov_display (PInvalidSignature d) = ''invalid signature on doc '' @ d"
| "prov_display PBase64 = ''base64: ''"
| "prov_display PPanic = ''''"

definition check_record :: "prov_lib \<Rightarrow> (string \<rightharpoonup> bytes) \<Rightarrow> provenance_record \<Rightarrow> string list" where
  "check_record lib keys r =
     (case keys (pr_agent_id r) of
        Some pk \<Rightarrow>
          (case verify_signature lib r pk of
             Inl e \<Rightarrow> [pr_doc_id r @ '': '' @ prov_display e]
           | Inr _ \<Rightarrow> [])
      | None \<Rightarrow> [pr_doc_id r @ '': no public key for agent '' @ pr_agent_id r])"

definition verify_all :: "prov_lib \<Rightarrow> prov_db \<Rightarrow> (string \<rightharpoonup> bytes) \<Rightarrow> string list" where
  "verify_all lib db keys = concat (map (check_record lib keys) (sort_key pr_ts db))"

section \<open>Lemmas\<close>

text \<open>A record whose agent's key is known and whose signature verifies under it.\<close>

definition signed_ok :: "prov_lib \<Rightarrow> (string \<rightharpoonup> bytes) \<Rightarrow> provenance_record \<Rightarrow> bool" where
  "signed_ok lib keys r \<longleftrightarrow>
     (\<exists>pk. keys (pr_agent_id r) = Some pk \<and> verify_signature lib r pk = Inr ())"

text \<open>A line of ancestry, newest record first: stored, properly signed records, each naming the chain
  hash of the next, the last one without a parent.\<close>

fun lineage :: "prov_lib \<Rightarrow> prov_db \<Rightarrow> (string \<rightharpoonup> bytes) \<Rightarrow> provenance_record list \<Rightarrow> bool" where
  "lineage lib db keys [] = False"
| "lineage lib db keys [r] =
     (get_record db (pr_doc_id r) = Some r \<and> signed_ok lib keys r \<and> pr_parent_hash r = None)"
| "lineage lib db keys (r # s # rs) =
     (get_record db (pr_doc_id r) = Some r \<and> signed_ok lib keys r \<and>
      pr_parent_hash r = Some (chain_hash lib s) \<and> lineage lib db keys (s # rs))"

lemma lineage_head:
  "lineage lib db keys (r # rs) \<Longrightarrow> get_record db (pr_doc_id r) = Some r \<and> signed_ok lib keys r"
  by (cases rs) simp_all

lemma by_hash_SomeD:
  "records_by_chain_hash lib db h = Some p \<Longrightarrow> p \<in> set db \<and> chain_hash lib p = h"
  unfolding records_by_chain_hash_def
  by (induction db rule: rev_induct) (auto split: if_splits)

lemma by_hash_distinct:
  "distinct (map (chain_hash lib) db) \<Longrightarrow> s \<in> set db \<Longrightarrow>
   records_by_chain_hash lib db (chain_hash lib s) = Some s"
  unfolding records_by_chain_hash_def
  by (induction db rule: rev_induct) (auto simp: image_iff)

lemma get_record_member: "get_record db d = Some r \<Longrightarrow> r \<in> set db \<and> pr_doc_id r = d"
  unfolding get_record_def by (rule tbl_get_SomeD)

lemma get_record_unique: "tbl_unique pr_doc_id db \<Longrightarrow> r \<in> set db \<Longrightarrow> get_record db (pr_doc_id r) = Some r"
  by (simp add: get_record_def tbl_get_Some_iff)

lemma walk_chain_sound:
  assumes "tbl_unique pr_doc_id db"
    and "walk_chain lib db (records_by_chain_hash lib db) keys visited doc = Inr ()"
  shows "\<exists>rs. lineage lib db keys rs \<and> pr_doc_id (hd rs) = doc \<and> distinct (map pr_doc_id rs) \<and>
    pr_doc_id ` set rs \<inter> visited = {}"
  using assms
proof (induction lib db "records_by_chain_hash lib db" keys visited doc rule: walk_chain.induct)
  case (1 lib db keys visited doc)
  from 1(3) obtain r pk where fresh: "doc \<notin> visited" and r: "get_record db doc = Some r"
    and pk: "keys (pr_agent_id r) = Some pk" "verify_signature lib r pk = Inr ()"
    by (subst (asm) walk_chain.simps) (auto split: if_splits option.splits sum.splits)
  have doc: "pr_doc_id r = doc" using get_record_member [OF r] by simp
  have ok: "signed_ok lib keys r" using pk by (auto simp: signed_ok_def)
  show ?case
  proof (cases "pr_parent_hash r")
    case None
    then show ?thesis using r doc ok fresh by (intro exI [of _ "[r]"]) simp
  next
    case (Some ph)
    with 1(3) fresh r pk obtain p where p: "records_by_chain_hash lib db ph = Some p"
      and rec: "walk_chain lib db (records_by_chain_hash lib db) keys (insert doc visited) (pr_doc_id p)
        = Inr ()"
      by (subst (asm) walk_chain.simps) (auto split: option.splits)
    have pd: "get_record db (pr_doc_id p) = Some p" "ph = chain_hash lib p"
      using by_hash_SomeD [OF p] get_record_unique [OF 1(2)] by auto
    from 1(1) [OF fresh r pk(1) pk(2) Some p 1(2) rec] obtain rs where rs: "lineage lib db keys rs"
      "pr_doc_id (hd rs) = pr_doc_id p" "distinct (map pr_doc_id rs)"
      "pr_doc_id ` set rs \<inter> insert doc visited = {}" by blast
    then obtain q rs' where q: "rs = q # rs'" by (cases rs) auto
    then have "q = p" using lineage_head [of lib db keys q rs'] rs(1,2) pd(1) by simp
    then show ?thesis
      using q rs r doc ok fresh Some pd(2) by (intro exI [of _ "r # rs"]) auto
  qed
qed

lemma walk_chain_complete:
  assumes "distinct (map (chain_hash lib) db)" and "lineage lib db keys (r # rs)"
    and "distinct (map pr_doc_id (r # rs))" and "pr_doc_id ` set (r # rs) \<inter> visited = {}"
  shows "walk_chain lib db (records_by_chain_hash lib db) keys visited (pr_doc_id r) = Inr ()"
  using assms(2-4)
proof (induction rs arbitrary: r visited)
  case Nil
  then show ?case
    by (subst walk_chain.simps) (auto simp: signed_ok_def)
next
  case (Cons s rs)
  have "get_record db (pr_doc_id s) = Some s" using lineage_head [of lib db keys s rs] Cons.prems(1) by simp
  then have "s \<in> set db" using get_record_member by blast
  then have "records_by_chain_hash lib db (chain_hash lib s) = Some s"
    using assms(1) by (rule by_hash_distinct [rotated])
  moreover have "walk_chain lib db (records_by_chain_hash lib db) keys
      (insert (pr_doc_id r) visited) (pr_doc_id s) = Inr ()"
    using Cons.prems by (intro Cons.IH) auto
  ultimately show ?case
    using Cons.prems by (subst walk_chain.simps) (auto simp: signed_ok_def)
qed

text \<open>The chain hash as a hash link.\<close>

interpretation prov_chain: hash_linked chain_input "\<lambda>(doc, sig). as_bytes doc @ sig"
proof unfold_locales
  fix p q :: "bytes option" and e f :: "string \<times> bytes"
  assume "wf32 p" and "wf32 q" and "chain_input p e = chain_input q f"
  then have "(as_bytes (fst e) @ snd e) @ or_zero p = (as_bytes (fst f) @ snd f) @ or_zero q"
    by (simp add: chain_input_def case_prod_beta)
  then show "or_zero p = or_zero q \<and>
      (case e of (doc, sig) \<Rightarrow> as_bytes doc @ sig) = (case f of (doc, sig) \<Rightarrow> as_bytes doc @ sig)"
    using \<open>wf32 p\<close> \<open>wf32 q\<close> by (simp add: case_prod_beta append_eq_append_conv del: append_assoc)
qed

text \<open>Databases that grow by \<^verbatim>\<open>sign_and_append\<close> on ids not yet stored, by agents whose public key is
  registered.\<close>

inductive signed_db :: "prov_lib \<Rightarrow> (string \<rightharpoonup> bytes) \<Rightarrow> prov_db \<Rightarrow> bool" for lib keys where
  empty: "signed_db lib keys (prov_init_schema None)"
| sign: "signed_db lib keys db \<Longrightarrow> signing_key lib ai = Inr sk \<Longrightarrow>
    keys (ai_agent_id ai) = Some (p_public lib sk) \<Longrightarrow> get_record db doc = None \<Longrightarrow>
    sign_and_append lib now db ai doc ver uri content parent = Inr (r, db') \<Longrightarrow>
    signed_db lib keys db'"

lemma sign_and_append_fields:
  assumes "sign_and_append lib now db ai doc ver uri content parent = Inr (r, db')"
    and "signing_key lib ai = Inr sk"
  shows "\<exists>ph. parent_link lib db parent = Inr ph \<and> db' = insert_record r db \<and>
    r = \<lparr>pr_doc_id = doc, pr_agent_id = ai_agent_id ai, pr_agent_version = ver,
      pr_source_uri = uri,
      pr_signature = p_sign lib sk
        (sign_message doc (ai_agent_id ai) ver uri (content_hash lib content) ph),
      pr_parent_hash = ph, pr_content_hash = content_hash lib content, pr_ts = now\<rparr>"
  using assms by (auto simp: sign_and_append_def Let_def split: sum.splits)

lemma identity_new_signing_key:
  "prov_lib_ok lib \<Longrightarrow> length seed = 32 \<Longrightarrow> signing_key lib (identity_new lib seed agent) = Inr seed"
  by (simp add: signing_key_def identity_new_def prov_lib_ok_def)

lemma signing_key_length: "signing_key lib ai = Inr sk \<Longrightarrow> length sk = 32"
  by (auto simp: signing_key_def split: option.splits if_splits)

lemma insert_record_fresh: "get_record db (pr_doc_id r) = None \<Longrightarrow> insert_record r db = db @ [r]"
  by (auto simp: get_record_def insert_record_def tbl_put_def tbl_del_def tbl_get_None_iff
      filter_id_conv image_iff)

lemma parent_link_cases:
  assumes "parent_link lib db parent = Inr ph"
  shows "ph = None \<or> (\<exists>s \<in> set db. ph = Some (chain_hash lib s) \<and> get_record db (pr_doc_id s) = Some s)"
proof (cases parent)
  case (Some pid)
  with assms obtain s where s: "tbl_get pr_doc_id db pid = Some s"
    and ph: "ph = Some (p_blake3 lib (chain_input (pr_parent_hash s) (pid, pr_signature s)))"
    by (auto simp: parent_link_def get_chain_hash_def split: option.splits sum.splits if_splits)
  have "s \<in> set db" "pr_doc_id s = pid" using tbl_get_SomeD [OF s] by simp_all
  then show ?thesis using s ph by (auto simp: chain_hash_def get_record_def)
qed (use assms in \<open>simp add: parent_link_def\<close>)

lemma get_record_snoc: "get_record db d = Some x \<Longrightarrow> get_record (db @ [r]) d = Some x"
  by (simp add: get_record_def tbl_get_snoc)

lemma lineage_snoc: "lineage lib db keys rs \<Longrightarrow> lineage lib (db @ [r]) keys rs"
  by (induction lib db keys rs rule: lineage.induct) (auto intro: get_record_snoc)

lemma lineage_docs: "lineage lib db keys rs \<Longrightarrow> x \<in> set rs \<Longrightarrow> get_record db (pr_doc_id x) = Some x"
  by (induction lib db keys rs rule: lineage.induct) auto

definition lineages :: "prov_lib \<Rightarrow> (string \<rightharpoonup> bytes) \<Rightarrow> prov_db \<Rightarrow> bool" where
  "lineages lib keys db \<longleftrightarrow> tbl_unique pr_doc_id db \<and>
     (\<forall>r \<in> set db. \<exists>rs. lineage lib db keys (r # rs) \<and> distinct (map pr_doc_id (r # rs)))"

lemma sign_lineages:
  assumes "prov_lib_ok lib" and "lineages lib keys db" and "signing_key lib ai = Inr sk"
    and "keys (ai_agent_id ai) = Some (p_public lib sk)" and "get_record db doc = None"
    and "sign_and_append lib now db ai doc ver uri content parent = Inr (r, db')"
  shows "lineages lib keys db'"
proof -
  obtain ph where ph: "parent_link lib db parent = Inr ph" "db' = insert_record r db"
    and r: "pr_doc_id r = doc" "pr_parent_hash r = ph" "signed_ok lib keys r"
    using sign_and_append_fields [OF assms(6,3)] assms(1,4) signing_key_length [OF assms(3)]
    by (auto simp: signed_ok_def verify_signature_def prov_lib_ok_def SIG_LEN_def)
  have db': "db' = db @ [r]" using ph(2) insert_record_fresh assms(5) r(1) by simp
  have absent: "doc \<notin> pr_doc_id ` set db"
    using assms(5) by (simp add: get_record_def tbl_get_None_iff)
  have self: "get_record db' doc = Some r"
    using assms(5) r(1) by (simp add: db' get_record_def tbl_get_snoc)
  have "\<exists>rs. lineage lib db' keys (r # rs) \<and> distinct (map pr_doc_id (r # rs))"
  proof (cases "ph = None")
    case True
    then show ?thesis using self r by (intro exI [of _ "[]"]) simp
  next
    case False
    then obtain s where s: "s \<in> set db" "ph = Some (chain_hash lib s)"
      using parent_link_cases [OF ph(1)] by blast
    with assms(2) obtain rs where rs: "lineage lib db keys (s # rs)" "distinct (map pr_doc_id (s # rs))"
      unfolding lineages_def by blast
    have "set (s # rs) \<subseteq> set db" using lineage_docs [OF rs(1)] get_record_member by blast
    then have "doc \<notin> pr_doc_id ` set (s # rs)" using absent by blast
    then show ?thesis
      using lineage_snoc [OF rs(1)] rs(2) self r s(2) by (intro exI [of _ "s # rs"]) (simp add: db')
  qed
  moreover have "\<exists>rs. lineage lib db' keys (x # rs) \<and> distinct (map pr_doc_id (x # rs))"
    if "x \<in> set db" for x
    using assms(2) that lineage_snoc unfolding db' lineages_def by blast
  moreover have "tbl_unique pr_doc_id db'"
    using assms(2) absent r(1) by (auto simp: db' lineages_def tbl_unique_def)
  ultimately show ?thesis by (simp add: lineages_def db')
qed

lemma signed_db_lineages:
  assumes "prov_lib_ok lib" shows "signed_db lib keys db \<Longrightarrow> lineages lib keys db"
proof (induction rule: signed_db.induct)
  case empty
  then show ?case by (simp add: lineages_def tbl_unique_def prov_init_schema_def)
next
  case (sign db ai sk doc now ver uri content parent r db')
  then show ?case using sign_lineages [OF assms] by blast
qed

section \<open>Properties\<close>

text \<open>C10. What \<^verbatim>\<open>verify_chain\<close> decides, on a table with one row per document and no two rows with
  the same chain hash: it succeeds exactly when there is a line of ancestry from the document to a
  genesis record in which every record is stored, is signed by a registered agent with a signature
  that verifies, names the chain hash of its parent, and no document occurs twice. It terminates on
  every table.\<close>

theorem verify_chain_iff_lineage:
  assumes "tbl_unique pr_doc_id db" and "distinct (map (chain_hash lib) db)"
  shows "verify_chain lib db keys root = Inr () \<longleftrightarrow>
    (\<exists>rs. lineage lib db keys rs \<and> pr_doc_id (hd rs) = root \<and> distinct (map pr_doc_id rs))"
proof
  assume "verify_chain lib db keys root = Inr ()"
  then show "\<exists>rs. lineage lib db keys rs \<and> pr_doc_id (hd rs) = root \<and> distinct (map pr_doc_id rs)"
    using walk_chain_sound [OF assms(1)] unfolding verify_chain_def by blast
next
  assume "\<exists>rs. lineage lib db keys rs \<and> pr_doc_id (hd rs) = root \<and> distinct (map pr_doc_id rs)"
  then obtain r rs where "lineage lib db keys (r # rs)" "pr_doc_id r = root"
    "distinct (map pr_doc_id (r # rs))"
    by (metis lineage.simps(1) list.collapse)
  then show "verify_chain lib db keys root = Inr ()"
    using walk_chain_complete [OF assms(2), of keys r rs "{}"] unfolding verify_chain_def by simp
qed

text \<open>Sample library functions for the witnesses.\<close>

definition sample_prov :: prov_lib where
  "sample_prov = \<lparr>p_blake3 = (\<lambda>x. take 32 (x @ replicate 32 0)),
     p_sign = (\<lambda>sk m. replicate 64 7), p_public = (\<lambda>sk. sk), p_valid_point = (\<lambda>pk. True),
     p_verify = (\<lambda>pk m s. s = replicate 64 7),
     b64_encode = map (\<lambda>b. char_of (unat b)), b64_decode = (\<lambda>s. Some (as_bytes s))\<rparr>"

lemma sample_b64: "as_bytes (map (\<lambda>b. char_of (unat b)) x) = x"
proof (induction x)
  case (Cons b x)
  have "unat b < 256" using unsigned_less [of b] by simp
  with Cons show ?case by (simp add: as_bytes_def)
qed (simp add: as_bytes_def)

lemma sample_prov_ok: "prov_lib_ok sample_prov"
  by (auto simp: prov_lib_ok_def sample_prov_def sample_b64)

abbreviation sample_agent :: agent_identity where
  "sample_agent \<equiv> identity_new sample_prov (replicate 32 1) ''ag''"

definition sample_keys :: "string \<rightharpoonup> bytes" where
  "sample_keys = [''ag'' \<mapsto> replicate 32 1]"

lemma sample_signing_key: "signing_key sample_prov sample_agent = Inr (replicate 32 1)"
  by (rule identity_new_signing_key [OF sample_prov_ok]) simp

definition sample_genesis :: provenance_record where
  "sample_genesis = \<lparr>pr_doc_id = ''g'', pr_agent_id = ''ag'', pr_agent_version = ''1'',
     pr_source_uri = ''u'', pr_signature = replicate 64 7, pr_parent_hash = None,
     pr_content_hash = replicate 32 0, pr_ts = 5\<rparr>"

lemma sample_append_genesis:
  "sign_and_append sample_prov 5 [] sample_agent ''g'' ''1'' ''u'' [] None =
     Inr (sample_genesis, [sample_genesis])"
  by (simp add: sign_and_append_def parent_link_def sample_signing_key insert_record_def tbl_put_def
      tbl_del_def sample_genesis_def content_hash_def Let_def)
    (simp add: sample_prov_def identity_new_def)

lemma sample_signed_db: "signed_db sample_prov sample_keys [sample_genesis]"
proof (rule signed_db.sign [OF signed_db.empty sample_signing_key, of sample_keys])
  show "sample_keys (ai_agent_id sample_agent) = Some (p_public sample_prov (replicate 32 1))"
    by (simp add: sample_keys_def identity_new_def) (simp add: sample_prov_def)
  show "get_record (prov_init_schema None) ''g'' = None"
    by (simp add: prov_init_schema_def get_record_def tbl_get_def)
  show "sign_and_append sample_prov 5 (prov_init_schema None) sample_agent ''g'' ''1'' ''u'' [] None =
      Inr (sample_genesis, [sample_genesis])"
    by (simp add: sample_append_genesis prov_init_schema_def)
qed

lemma sample_signed_ok: "signed_ok sample_prov sample_keys sample_genesis"
  by (simp add: signed_ok_def sample_keys_def sample_genesis_def verify_signature_def SIG_LEN_def)
    (simp add: sample_prov_def)

theorem verify_chain_iff_lineage_witness:
  "verify_chain sample_prov [sample_genesis] sample_keys ''g'' = Inr ()"
proof -
  have "lineage sample_prov [sample_genesis] sample_keys [sample_genesis]"
    using sample_signed_ok by (simp add: get_record_def tbl_get_def) (simp add: sample_genesis_def)
  then show ?thesis
    using verify_chain_iff_lineage [of "[sample_genesis]" sample_prov sample_keys "''g''"]
    by (auto simp: tbl_unique_def sample_genesis_def intro!: exI [of _ "[sample_genesis]"])
qed

text \<open>The honest use of the chain verifies: in a database built by \<^verbatim>\<open>sign_and_append\<close> alone, on
  fresh document ids and by agents whose keys are registered, \<^verbatim>\<open>verify_chain\<close> succeeds for every
  document, provided that no two rows have the same chain hash.\<close>

theorem signed_documents_verify:
  assumes "prov_lib_ok lib" and "signed_db lib keys db" and "distinct (map (chain_hash lib) db)"
    and "r \<in> set db"
  shows "verify_chain lib db keys (pr_doc_id r) = Inr ()"
proof -
  obtain rs where "lineage lib db keys (r # rs)" "distinct (map pr_doc_id (r # rs))"
    using signed_db_lineages [OF assms(1,2)] assms(4) unfolding lineages_def by blast
  then show ?thesis
    using walk_chain_complete [OF assms(3), of keys r rs "{}"] unfolding verify_chain_def by simp
qed

theorem signed_documents_verify_witness:
  "verify_chain sample_prov [sample_genesis] sample_keys (pr_doc_id sample_genesis) = Inr ()"
  by (rule signed_documents_verify [OF sample_prov_ok sample_signed_db]) simp_all

text \<open>The inputs of the chain hashes along a lineage, oldest first.\<close>

definition chain_inputs :: "provenance_record list \<Rightarrow> bytes list" where
  "chain_inputs rs = map (\<lambda>r. chain_input (pr_parent_hash r) (pr_doc_id r, pr_signature r)) (rev rs)"

definition links :: "prov_lib \<Rightarrow> provenance_record list \<Rightarrow> ((string \<times> bytes) \<times> bytes) list" where
  "links lib rs = map (\<lambda>r. ((pr_doc_id r, pr_signature r), chain_hash lib r)) (rev rs)"

lemma signed_ok_length: "signed_ok lib keys r \<Longrightarrow> length (pr_signature r) = 64"
  by (auto simp: signed_ok_def verify_signature_def SIG_LEN_def Let_def split: if_splits)

lemma links_Cons: "links lib (r # rs) = links lib rs @ [((pr_doc_id r, pr_signature r), chain_hash lib r)]"
  by (simp add: links_def)

lemma lineage_links:
  assumes "prov_lib_ok lib" and "lineage lib db keys rs"
  shows "prov_chain.chained (p_blake3 lib) None (links lib rs) \<and>
    prov_chain.inputs None (links lib rs) = chain_inputs rs \<and>
    prov_chain.tip None (links lib rs) = Some (chain_hash lib (hd rs)) \<and>
    (\<forall>r \<in> set rs. length (pr_signature r) = 64)"
  using assms
proof (induction lib db keys rs rule: lineage.induct)
  case (2 lib db keys r)
  then show ?case
    using signed_ok_length [of lib keys r]
    by (simp add: links_def chain_inputs_def chain_hash_def prov_lib_ok_def)
next
  case (3 lib db keys r s rs)
  then have IH: "prov_chain.chained (p_blake3 lib) None (links lib (s # rs))"
    "prov_chain.inputs None (links lib (s # rs)) = chain_inputs (s # rs)"
    "prov_chain.tip None (links lib (s # rs)) = Some (chain_hash lib s)"
    "\<forall>r \<in> set (s # rs). length (pr_signature r) = 64" by simp_all
  have r: "pr_parent_hash r = Some (chain_hash lib s)" "length (pr_signature r) = 64"
    using 3 signed_ok_length by auto
  have "length (chain_hash lib r) = 32" using 3 by (simp add: chain_hash_def prov_lib_ok_def)
  then show ?case
    using IH r
    by (simp add: links_Cons [of lib r] prov_chain.chained_append prov_chain.inputs_append
        chain_inputs_def chain_hash_def)
qed simp

lemma doc_sig_inj:
  "length s = 64 \<Longrightarrow> length t = 64 \<Longrightarrow> as_bytes d @ s = as_bytes e @ t \<Longrightarrow> d = e \<and> s = t"
  by (simp add: append_eq_append_conv as_bytes_inj)

text \<open>The chain is tamper-evident: the chain hash of a document commits to its whole ancestry.
  Two lines of ancestry of equal length, in the same or in different databases, whose newest
  records have the same chain hash consist of the same documents with the same signatures, unless
  two of the inputs hashed along them collide.\<close>

theorem chain_hash_commits_to_ancestry:
  assumes "prov_lib_ok lib" and "lineage lib db keys rs" and "lineage lib db' keys' rs'"
    and "length rs = length rs'" and "chain_hash lib (hd rs) = chain_hash lib (hd rs')"
    and "\<not> collision_in (p_blake3 lib) (chain_inputs rs) (chain_inputs rs')"
  shows "map pr_doc_id rs = map pr_doc_id rs' \<and> map pr_signature rs = map pr_signature rs'"
proof -
  note L = lineage_links [OF assms(1,2)] and L' = lineage_links [OF assms(1,3)]
  have "map ((\<lambda>(doc, sig). as_bytes doc @ sig) \<circ> fst) (links lib rs) =
      map ((\<lambda>(doc, sig). as_bytes doc @ sig) \<circ> fst) (links lib rs')"
    using prov_chain.tip_binds [of None None "links lib rs" "links lib rs'" "p_blake3 lib"] L L' assms
    by (simp add: links_def)
  then have eq: "map (\<lambda>r. as_bytes (pr_doc_id r) @ pr_signature r) rs =
      map (\<lambda>r. as_bytes (pr_doc_id r) @ pr_signature r) rs'"
    by (simp add: links_def comp_def rev_map [symmetric])
  have "pr_doc_id (rs ! i) = pr_doc_id (rs' ! i) \<and> pr_signature (rs ! i) = pr_signature (rs' ! i)"
    if "i < length rs" for i
    using that L L' assms(4) arg_cong [OF eq, of "\<lambda>xs. xs ! i"] by (intro doc_sig_inj) simp_all
  then show ?thesis using assms(4) by (auto intro!: nth_equalityI)
qed

lemma sample_lineage: "lineage sample_prov [sample_genesis] sample_keys [sample_genesis]"
  using sample_signed_ok by (simp add: get_record_def tbl_get_def) (simp add: sample_genesis_def)

theorem chain_hash_commits_to_ancestry_witness:
  "map pr_doc_id [sample_genesis] = map pr_doc_id [sample_genesis] \<and>
   map pr_signature [sample_genesis] = map pr_signature [sample_genesis]"
  by (rule chain_hash_commits_to_ancestry [OF sample_prov_ok sample_lineage sample_lineage])
    (simp_all add: collision_in_def chain_inputs_def)

text \<open>The signed message concatenates its fields without separators, so a signature does not
  fix where one field ends and the next begins: a valid record can be rewritten into another with
  the same agent, content hash and parent but other documents, versions or source, as long as the
  concatenation is the same, and the signature still verifies. The same holds for an absent parent
  and a parent hash of 32 zero bytes.\<close>

theorem signature_boundaries_undetected:
  assumes "verify_signature lib r pk = Inr ()"
    and "pr_doc_id r' @ pr_agent_id r' @ pr_agent_version r' @ pr_source_uri r' =
      pr_doc_id r @ pr_agent_id r @ pr_agent_version r @ pr_source_uri r"
    and "pr_content_hash r' = pr_content_hash r" and "pr_signature r' = pr_signature r"
    and "or_zero (pr_parent_hash r') = or_zero (pr_parent_hash r)"
  shows "verify_signature lib r' pk = Inr ()"
proof -
  have "sign_message (pr_doc_id r') (pr_agent_id r') (pr_agent_version r') (pr_source_uri r')
      (pr_content_hash r') (pr_parent_hash r') =
    sign_message (pr_doc_id r) (pr_agent_id r) (pr_agent_version r) (pr_source_uri r)
      (pr_content_hash r) (pr_parent_hash r)"
    using arg_cong [OF assms(2), of as_bytes] assms(3,5) by (simp add: sign_message_def)
  then show ?thesis
    using assms(1,4) by (simp add: verify_signature_def Let_def split: if_splits)
qed

theorem signature_boundaries_undetected_witness:
  "verify_signature sample_prov
     (sample_genesis\<lparr>pr_agent_version := ''1u'', pr_source_uri := ''''\<rparr>) (replicate 32 1) = Inr ()"
proof (rule signature_boundaries_undetected)
  show "verify_signature sample_prov sample_genesis (replicate 32 1) = Inr ()"
    by (simp add: sample_genesis_def verify_signature_def SIG_LEN_def) (simp add: sample_prov_def)
qed (simp_all add: sample_genesis_def)

text \<open>What \<^verbatim>\<open>verify_all\<close> decides: it reports nothing exactly when every stored record is signed
  by a registered agent with a signature that verifies. It does not look for the parents: it is
  silent on a properly signed record whose parent hash matches no stored record, for which
  \<^verbatim>\<open>verify_chain\<close> reports a broken chain.\<close>

theorem verify_all_exact:
  "(verify_all lib db keys = [] \<longleftrightarrow> (\<forall>r \<in> set db. signed_ok lib keys r)) \<and>
   (\<forall>r \<in> set db. signed_ok lib keys r \<longrightarrow> pr_parent_hash r = Some h \<longrightarrow>
      records_by_chain_hash lib db h = None \<longrightarrow> tbl_unique pr_doc_id db \<longrightarrow>
      verify_chain lib db keys (pr_doc_id r) =
        Inl (PBrokenChain (pr_doc_id r) ''parent_hash references missing record''))"
proof (intro conjI ballI impI)
  have "check_record lib keys r = [] \<longleftrightarrow> signed_ok lib keys r" for r
    by (auto simp: check_record_def signed_ok_def split: option.splits sum.splits)
  then show "verify_all lib db keys = [] \<longleftrightarrow> (\<forall>r \<in> set db. signed_ok lib keys r)"
    by (simp add: verify_all_def)
next
  fix r
  assume "r \<in> set db" "signed_ok lib keys r" "pr_parent_hash r = Some h"
    "records_by_chain_hash lib db h = None" "tbl_unique pr_doc_id db"
  then show "verify_chain lib db keys (pr_doc_id r) =
      Inl (PBrokenChain (pr_doc_id r) ''parent_hash references missing record'')"
    using get_record_unique [of db r]
    by (auto simp: verify_chain_def walk_chain.simps [of _ _ _ _ "{}"] signed_ok_def)
qed

definition sample_orphan :: provenance_record where
  "sample_orphan = sample_genesis\<lparr>pr_parent_hash := Some (replicate 32 9)\<rparr>"

theorem verify_all_exact_witness:
  "verify_all sample_prov [sample_orphan] sample_keys = [] \<and>
   verify_chain sample_prov [sample_orphan] sample_keys ''g'' =
     Inl (PBrokenChain ''g'' ''parent_hash references missing record'')"
proof -
  have "signed_ok sample_prov sample_keys sample_orphan"
    by (simp add: signed_ok_def sample_keys_def sample_orphan_def sample_genesis_def
        verify_signature_def SIG_LEN_def) (simp add: sample_prov_def)
  moreover have "records_by_chain_hash sample_prov [sample_orphan] (replicate 32 9) = None"
    by (simp add: records_by_chain_hash_def chain_hash_def chain_input_def sample_orphan_def
        sample_genesis_def as_bytes_def) (simp add: sample_prov_def numeral_eq_Suc)
  ultimately show ?thesis
    using verify_all_exact [of sample_prov "[sample_orphan]" sample_keys "replicate 32 9"]
    by (simp add: sample_orphan_def sample_genesis_def tbl_unique_def)
qed

end
