(* ===== verification/Datalog.thy ===== *)
theory Datalog
  imports Rust_Text "HOL-Library.AList"
begin

text \<open>
  The Datalog engine, \<^verbatim>\<open>synapse-graph/src/datalog.rs\<close>: matching, joins, semi-naive evaluation to a
  fixed point, queries and the S-expression parser. A \<^verbatim>\<open>HashMap\<close> is an association list and a
  \<^verbatim>\<open>HashSet\<close> a list without the order meaning anything: the order in which the code iterates over
  them is unspecified, and the theorems speak about the sets of tuples only. The evaluation loop is
  a partial function whose result is None if it never ends; that it ends is proved.
\<close>

section \<open>Data\<close>

datatype trm = Const rstr | Var rstr

definition is_var :: "trm \<Rightarrow> bool" where
  "is_var t = (case t of Var _ \<Rightarrow> True | Const _ \<Rightarrow> False)"

record predicate =
  p_name :: rstr
  p_args :: "trm list"

type_synonym tuple = "rstr list"
type_synonym binding = "(rstr \<times> rstr) list"
type_synonym rule = "predicate \<times> predicate list"
type_synonym relations = "(rstr \<times> tuple list) list"

record engine =
  facts :: relations
  rules :: "rule list"

text \<open>\<^verbatim>\<open>get(..).unwrap_or_default()\<close>.\<close>

definition rel :: "relations \<Rightarrow> rstr \<Rightarrow> tuple list" where
  "rel db p = (case map_of db p of None \<Rightarrow> [] | Some ts \<Rightarrow> ts)"

section \<open>Matching and joining\<close>

fun match_loop :: "trm list \<Rightarrow> tuple \<Rightarrow> binding \<Rightarrow> binding option" where
  "match_loop (Const c # ts) (v # vs) b = (if c \<noteq> v then None else match_loop ts vs b)"
| "match_loop (Var x # ts) (v # vs) b =
     (case map_of b x of
        Some prev \<Rightarrow> if prev \<noteq> v then None else match_loop ts vs b
      | None \<Rightarrow> match_loop ts vs ((x, v) # b))"
| "match_loop _ _ b = Some b"

definition match_args :: "trm list \<Rightarrow> tuple \<Rightarrow> binding option" where
  "match_args args tup = (if length args \<noteq> length tup then None else match_loop args tup [])"

fun merge_bindings :: "binding \<Rightarrow> binding \<Rightarrow> binding option" where
  "merge_bindings out [] = Some out"
| "merge_bindings out ((k, v) # b) =
     (case map_of out k of
        Some existing \<Rightarrow> if existing \<noteq> v then None else merge_bindings out b
      | None \<Rightarrow> merge_bindings ((k, v) # out) b)"

text \<open>\<^verbatim>\<open>collect\<close> into an \<^verbatim>\<open>Option\<close>: None as soon as an element is.\<close>

fun collect_opt :: "'a option list \<Rightarrow> 'a list option" where
  "collect_opt [] = Some []"
| "collect_opt (x # xs) =
     (case x of None \<Rightarrow> None | Some v \<Rightarrow> map_option (Cons v) (collect_opt xs))"

definition apply_binding :: "trm list \<Rightarrow> binding \<Rightarrow> tuple option" where
  "apply_binding args b =
     collect_opt (map (\<lambda>t. case t of Const c \<Rightarrow> Some c | Var x \<Rightarrow> map_of b x) args)"

section \<open>The engine\<close>

definition engine_new :: engine where
  "engine_new = \<lparr>facts = [], rules = []\<rparr>"

definition set_insert :: "'a \<Rightarrow> 'a list \<Rightarrow> 'a list" where
  "set_insert x xs = (if x \<in> set xs then xs else xs @ [x])"

definition add_fact :: "rstr \<Rightarrow> tuple \<Rightarrow> engine \<Rightarrow> engine" where
  "add_fact p args e = e\<lparr>facts := AList.update p (set_insert args (rel (facts e) p)) (facts e)\<rparr>"

definition add_rule :: "predicate \<Rightarrow> predicate list \<Rightarrow> engine \<Rightarrow> engine" where
  "add_rule head body e = e\<lparr>rules := rules e @ [(head, body)]\<rparr>"

text \<open>One body literal: every binding joined with every tuple of its relation.\<close>

definition join_step :: "predicate \<Rightarrow> tuple list \<Rightarrow> binding list \<Rightarrow> binding list" where
  "join_step pr tuples bs =
     concat (map (\<lambda>b. List.map_filter (\<lambda>t.
       case match_args (p_args pr) t of None \<Rightarrow> None | Some nb \<Rightarrow> merge_bindings b nb) tuples) bs)"

fun join_body :: "(predicate \<times> tuple list) list \<Rightarrow> binding list \<Rightarrow> binding list" where
  "join_body [] bs = bs"
| "join_body ((pr, tuples) # ps) bs = join_body ps (join_step pr tuples bs)"

definition heads_of :: "predicate \<Rightarrow> binding list \<Rightarrow> tuple list" where
  "heads_of head bs = List.map_filter (apply_binding (p_args head)) bs"

definition derive_rule_delta_at :: "relations \<Rightarrow> predicate \<Rightarrow> predicate list \<Rightarrow> nat \<Rightarrow> tuple list \<Rightarrow>
    tuple list" where
  "derive_rule_delta_at db head body pos dt =
     heads_of head (join_body
       (map (\<lambda>(i, pr). (pr, if i = pos then dt else rel db (p_name pr))) (enumerate 0 body)) [[]])"

definition derive_rule_with_delta :: "relations \<Rightarrow> predicate \<Rightarrow> predicate list \<Rightarrow>
    (rstr \<times> tuple list) option \<Rightarrow> tuple list" where
  "derive_rule_with_delta db head body delta =
     heads_of head (join_body
       (map (\<lambda>pr. (pr, case delta of
          Some (dp, dt) \<Rightarrow> if p_name pr = dp then dt else rel db (p_name pr)
        | None \<Rightarrow> rel db (p_name pr))) body) [[]])"

definition derive_rule :: "relations \<Rightarrow> predicate \<Rightarrow> predicate list \<Rightarrow> tuple list" where
  "derive_rule db head body = derive_rule_with_delta db head body None"

definition idb_positions :: "rstr list \<Rightarrow> predicate list \<Rightarrow> nat list" where
  "idb_positions idb body = map fst (filter (\<lambda>(_, pr). p_name pr \<in> set idb) (enumerate 0 body))"

definition candidates :: "rstr list \<Rightarrow> relations \<Rightarrow> relations \<Rightarrow> rule \<Rightarrow> tuple list" where
  "candidates idb delta db = (\<lambda>(head, body).
     if idb_positions idb body = [] then derive_rule db head body
     else concat (map (\<lambda>pos.
       case map_of delta (p_name (body ! pos)) of
         None \<Rightarrow> []
       | Some dt \<Rightarrow> if dt = [] then [] else derive_rule_delta_at db head body pos dt)
       (idb_positions idb body)))"

text \<open>The insertion loop: the full relation of the head and the new delta.\<close>

fun insert_all :: "rstr \<Rightarrow> tuple list \<Rightarrow> tuple list \<times> relations \<Rightarrow> tuple list \<times> relations" where
  "insert_all p [] st = st"
| "insert_all p (t # ts) (full, nd) =
     (if t \<in> set full then insert_all p ts (full, nd)
      else insert_all p ts (full @ [t], AList.update p (set_insert t (rel nd p)) nd))"

definition apply_rule :: "rstr list \<Rightarrow> relations \<Rightarrow> rule \<Rightarrow> relations \<times> relations \<Rightarrow>
    relations \<times> relations" where
  "apply_rule idb delta r = (\<lambda>(db, nd).
     let p = p_name (fst r);
         (full, nd') = insert_all p (candidates idb delta db r) (rel db p, nd) in
     (AList.update p full db, nd'))"

definition eval_round :: "rule list \<Rightarrow> rstr list \<Rightarrow> relations \<Rightarrow> relations \<Rightarrow> relations \<times> relations" where
  "eval_round rs idb delta db = fold (apply_rule idb delta) rs (db, [])"

partial_function (option) eval_loop :: "rule list \<Rightarrow> rstr list \<Rightarrow> relations \<Rightarrow> relations \<Rightarrow>
    relations option" where
  "eval_loop rs idb delta db =
     (let (db', nd) = eval_round rs idb delta db in
      if list_all (\<lambda>(_, s). s = []) nd then Some db' else eval_loop rs idb nd db')"

definition idb_preds :: "rule list \<Rightarrow> rstr list" where
  "idb_preds rs = remdups (map (\<lambda>(h, _). p_name h) rs)"

definition semi_naive :: "engine \<Rightarrow> engine option" where
  "semi_naive e =
     (let idb = idb_preds (rules e);
          delta = map (\<lambda>p. (p, rel (facts e) p)) idb in
      map_option (\<lambda>db. e\<lparr>facts := db\<rparr>) (eval_loop (rules e) idb delta (facts e)))"

definition query :: "engine \<Rightarrow> rstr \<Rightarrow> nat \<Rightarrow> tuple list" where
  "query e p arity =
     (case map_of (facts e) p of None \<Rightarrow> [] | Some s \<Rightarrow> filter (\<lambda>t. length t = arity) s)"

section \<open>The parser\<close>

datatype parse_error = Expected rstr | EmptyPredicate

definition strip_prefix_char :: "rchar \<Rightarrow> rstr \<Rightarrow> rstr option" where
  "strip_prefix_char c s = (case s of x # xs \<Rightarrow> if x = c then Some xs else None | [] \<Rightarrow> None)"

definition strip_suffix_char :: "rchar \<Rightarrow> rstr \<Rightarrow> rstr option" where
  "strip_suffix_char c s = (if s \<noteq> [] \<and> last s = c then Some (butlast s) else None)"

definition parse_term :: "rstr \<Rightarrow> trm" where
  "parse_term p = (case strip_prefix_char 63 p of Some name \<Rightarrow> Var name | None \<Rightarrow> Const p)"

definition parse_predicate :: "rstr \<Rightarrow> parse_error + predicate" where
  "parse_predicate s0 =
     (let s = trim s0 in
      case Option.bind (strip_prefix_char 40 s) (strip_suffix_char 41) of
        None \<Rightarrow> Inl (Expected s)
      | Some inner \<Rightarrow>
          (case split_whitespace inner of
             [] \<Rightarrow> Inl EmptyPredicate
           | name # parts \<Rightarrow> Inr \<lparr>p_name = name, p_args = map parse_term parts\<rparr>))"

section \<open>Instances of literals\<close>

text \<open>The tuple that a literal denotes under a substitution, if it binds all its variables.\<close>

definition inst :: "(rstr \<rightharpoonup> rstr) \<Rightarrow> trm list \<Rightarrow> tuple option" where
  "inst \<sigma> args = collect_opt (map (\<lambda>t. case t of Const c \<Rightarrow> Some c | Var x \<Rightarrow> \<sigma> x) args)"

fun term_vars :: "trm \<Rightarrow> rstr set" where
  "term_vars (Const c) = {}"
| "term_vars (Var x) = {x}"

definition args_vars :: "trm list \<Rightarrow> rstr set" where
  "args_vars args = \<Union> (term_vars ` set args)"

definition body_vars :: "predicate list \<Rightarrow> rstr set" where
  "body_vars body = \<Union> (args_vars ` p_args ` set body)"

lemma apply_binding_inst: "apply_binding args b = inst (map_of b) args"
  by (simp add: apply_binding_def inst_def)

lemma args_vars_simps [simp]:
  "args_vars [] = {}" "args_vars (t # ts) = term_vars t \<union> args_vars ts"
  by (simp_all add: args_vars_def)

lemma body_vars_simps [simp]:
  "body_vars [] = {}" "body_vars (pr # body) = args_vars (p_args pr) \<union> body_vars body"
  by (simp_all add: body_vars_def)

lemma inst_simps [simp]:
  "inst \<sigma> [] = Some []"
  "inst \<sigma> (Const c # ts) = map_option (Cons c) (inst \<sigma> ts)"
  "inst \<sigma> (Var x # ts) = (case \<sigma> x of None \<Rightarrow> None | Some v \<Rightarrow> map_option (Cons v) (inst \<sigma> ts))"
  by (simp_all add: inst_def split: option.split)

lemma inst_length: "inst \<sigma> args = Some t \<Longrightarrow> length t = length args"
proof (induction args arbitrary: t)
  case (Cons a args)
  then show ?case by (cases a) (auto split: option.splits)
qed simp

lemma inst_mono:
  assumes "\<sigma> \<subseteq>\<^sub>m \<tau>" shows "inst \<sigma> args = Some t \<Longrightarrow> inst \<tau> args = Some t"
proof (induction args arbitrary: t)
  case (Cons a args)
  show ?case
  proof (cases a)
    case (Var x)
    with Cons.prems obtain v t' where "\<sigma> x = Some v" "inst \<sigma> args = Some t'" "t = v # t'"
      by (auto split: option.splits)
    moreover from this(1) assms have "\<tau> x = Some v" by (auto simp: map_le_def dom_def)
    ultimately show ?thesis using Cons.IH Var by simp
  qed (use Cons in auto)
qed simp

lemma inst_values: "inst \<sigma> args = Some t \<Longrightarrow> set t \<subseteq> {c. Const c \<in> set args} \<union> ran \<sigma>"
proof (induction args arbitrary: t)
  case (Cons a args)
  then show ?case by (cases a) (fastforce simp: ran_def split: option.splits)+
qed simp

section \<open>What matching and merging compute\<close>

lemma map_le_SomeD: "m \<subseteq>\<^sub>m m' \<Longrightarrow> m x = Some v \<Longrightarrow> m' x = Some v"
  by (auto simp: map_le_def dom_def)

lemma match_loop_sound:
  assumes "match_loop args t b = Some b'" and "length args = length t"
  shows "map_of b \<subseteq>\<^sub>m map_of b' \<and> inst (map_of b') args = Some t \<and>
    dom (map_of b') = dom (map_of b) \<union> args_vars args"
  using assms
proof (induction args t b rule: match_loop.induct)
  case (2 x ts v vs b)
  show ?case
  proof (cases "map_of b x")
    case None
    with 2(3,4) have "match_loop ts vs ((x, v) # b) = Some b'" "length ts = length vs" by simp_all
    note IH = 2(1) [OF None this]
    have v: "map_of b' x = Some v" by (rule map_le_SomeD [OF IH [THEN conjunct1]]) simp
    have "map_of b \<subseteq>\<^sub>m map_of ((x, v) # b)" using None by (auto simp: map_le_def)
    then have "map_of b \<subseteq>\<^sub>m map_of b'" using IH map_le_trans by blast
    moreover have "dom (map_of b') = insert x (dom (map_of b)) \<union> args_vars ts"
      using IH by (auto simp: dom_def)
    ultimately show ?thesis using IH v by auto
  next
    case (Some w)
    with 2 have IH: "w = v" "map_of b \<subseteq>\<^sub>m map_of b'" "inst (map_of b') ts = Some vs"
      "dom (map_of b') = dom (map_of b) \<union> args_vars ts" by (auto split: if_splits)
    then have "map_of b' x = Some v" using Some by (auto simp: map_le_def dom_def)
    then show ?thesis using IH Some by auto
  qed
qed (auto split: if_splits)

lemma match_loop_complete:
  assumes "map_of b \<subseteq>\<^sub>m \<sigma>" and "inst \<sigma> args = Some t"
  shows "\<exists>b'. match_loop args t b = Some b' \<and> map_of b' \<subseteq>\<^sub>m \<sigma>"
  using assms
proof (induction args t b rule: match_loop.induct)
  case (2 x ts v vs b)
  then have v: "\<sigma> x = Some v" "inst \<sigma> ts = Some vs" by (auto split: option.splits)
  show ?case
  proof (cases "map_of b x")
    case None
    have "map_of ((x, v) # b) \<subseteq>\<^sub>m \<sigma>" using 2(3) v by (auto simp: map_le_def)
    from 2(1) [OF None this v(2)] None show ?thesis by simp
  next
    case (Some w)
    then have "w = v" using 2(3) v by (auto simp: map_le_def dom_def)
    with 2 Some v show ?thesis by simp
  qed
qed (auto split: option.splits)

lemma merge_sound:
  assumes "merge_bindings a b = Some m"
  shows "map_of a \<subseteq>\<^sub>m map_of m \<and> (\<forall>(k, v) \<in> set b. map_of m k = Some v) \<and>
    dom (map_of m) = dom (map_of a) \<union> dom (map_of b)"
  using assms
proof (induction a b rule: merge_bindings.induct)
  case (2 out k v b)
  show ?case
  proof (cases "map_of out k")
    case None
    with 2(3) have "merge_bindings ((k, v) # out) b = Some m" by simp
    note IH = 2(1) [OF None this]
    have v: "map_of m k = Some v" by (rule map_le_SomeD [OF IH [THEN conjunct1]]) simp
    have "map_of out \<subseteq>\<^sub>m map_of ((k, v) # out)" using None by (auto simp: map_le_def)
    then have "map_of out \<subseteq>\<^sub>m map_of m" using IH map_le_trans by blast
    then show ?thesis using IH v by (auto simp: dom_def)
  next
    case (Some w)
    with 2(3) have w: "w = v" "merge_bindings out b = Some m" by (auto split: if_splits)
    note IH = 2(2) [OF Some _ w(2)]
    have "map_of m k = Some v" using IH w(1) Some by (auto simp: map_le_def dom_def)
    then show ?thesis using IH w(1) Some by (auto simp: dom_def)
  qed
qed simp

lemma merge_complete:
  assumes "map_of a \<subseteq>\<^sub>m \<sigma>" and "\<forall>(k, v) \<in> set b. \<sigma> k = Some v"
  shows "\<exists>m. merge_bindings a b = Some m \<and> map_of m \<subseteq>\<^sub>m \<sigma>"
  using assms
proof (induction a b rule: merge_bindings.induct)
  case (2 out k v b)
  show ?case
  proof (cases "map_of out k")
    case None
    have "map_of ((k, v) # out) \<subseteq>\<^sub>m \<sigma>" using 2(3,4) by (auto simp: map_le_def)
    from 2(1) [OF None this] 2(4) None show ?thesis by simp
  next
    case (Some w)
    then have "w = v" using 2(3,4) by (auto simp: map_le_def dom_def)
    with 2(2) [OF Some] 2(3,4) Some show ?thesis by simp
  qed
qed simp

lemma match_loop_distinct:
  "match_loop args t b = Some b' \<Longrightarrow> distinct (map fst b) \<Longrightarrow> distinct (map fst b')"
  by (induction args t b rule: match_loop.induct)
    (auto split: if_splits option.splits simp: map_of_eq_None_iff)

lemma match_args_sound:
  assumes "match_args args t = Some nb"
  shows "inst (map_of nb) args = Some t" "dom (map_of nb) = args_vars args" "distinct (map fst nb)"
  using assms match_loop_sound [of args t "[]" nb] match_loop_distinct [of args t "[]" nb]
  by (auto simp: match_args_def split: if_splits)

lemma match_args_complete:
  "inst \<sigma> args = Some t \<Longrightarrow> \<exists>nb. match_args args t = Some nb \<and> map_of nb \<subseteq>\<^sub>m \<sigma>"
  using match_loop_complete [of "[]" \<sigma> args t] inst_length [of \<sigma> args t] by (simp add: match_args_def)

lemma bindings_as_map:
  "distinct (map fst nb) \<Longrightarrow> (\<forall>(k, v) \<in> set nb. m k = Some v) \<longleftrightarrow> map_of nb \<subseteq>\<^sub>m m"
  by (fastforce simp: map_le_def dom_def map_of_eq_Some_iff split: prod.splits)

section \<open>What a join computes\<close>

lemma join_step_sound:
  assumes "b' \<in> set (join_step pr ts bs)"
  shows "\<exists>b \<in> set bs. \<exists>t \<in> set ts. map_of b \<subseteq>\<^sub>m map_of b' \<and> inst (map_of b') (p_args pr) = Some t \<and>
    dom (map_of b') = dom (map_of b) \<union> args_vars (p_args pr)"
proof -
  obtain b t nb where b: "b \<in> set bs" "t \<in> set ts" "match_args (p_args pr) t = Some nb"
    "merge_bindings b nb = Some b'"
    using assms by (auto simp: join_step_def map_filter_def split: option.splits if_splits)
  note nb = match_args_sound [OF b(3)] and m = merge_sound [OF b(4)]
  have "map_of nb \<subseteq>\<^sub>m map_of b'" using m bindings_as_map [OF nb(3)] by blast
  then have "inst (map_of b') (p_args pr) = Some t" using nb(1) by (rule inst_mono)
  moreover have "dom (map_of b') = dom (map_of b) \<union> args_vars (p_args pr)" using m nb(2) by simp
  moreover have "map_of b \<subseteq>\<^sub>m map_of b'" using m by simp
  ultimately show ?thesis using b(1,2) by (intro bexI [of _ b] bexI [of _ t] conjI)
qed

lemma join_step_complete:
  assumes "b \<in> set bs" and "map_of b \<subseteq>\<^sub>m \<sigma>" and "t \<in> set ts" and "inst \<sigma> (p_args pr) = Some t"
  shows "\<exists>b' \<in> set (join_step pr ts bs). map_of b' \<subseteq>\<^sub>m \<sigma> \<and>
    dom (map_of b') = dom (map_of b) \<union> args_vars (p_args pr)"
proof -
  obtain nb where nb: "match_args (p_args pr) t = Some nb" "map_of nb \<subseteq>\<^sub>m \<sigma>"
    using match_args_complete [OF assms(4)] by blast
  note sound = match_args_sound [OF nb(1)]
  obtain m where m: "merge_bindings b nb = Some m" "map_of m \<subseteq>\<^sub>m \<sigma>"
    using merge_complete [OF assms(2), of nb] bindings_as_map [OF sound(3)] nb(2) by blast
  have "m \<in> set (join_step pr ts bs)"
    using assms(1,3) nb(1) m(1) by (force simp: join_step_def map_filter_def)
  moreover have "dom (map_of m) = dom (map_of b) \<union> args_vars (p_args pr)"
    using merge_sound [OF m(1)] sound(2) by simp
  ultimately show ?thesis using m(2) by (intro bexI [of _ m] conjI)
qed

lemma join_body_sound:
  assumes "b' \<in> set (join_body ps bs)"
  shows "\<exists>b \<in> set bs. map_of b \<subseteq>\<^sub>m map_of b' \<and>
    dom (map_of b') = dom (map_of b) \<union> body_vars (map fst ps) \<and>
    (\<forall>(pr, ts) \<in> set ps. \<exists>t \<in> set ts. inst (map_of b') (p_args pr) = Some t)"
  using assms
proof (induction ps bs rule: join_body.induct)
  case (2 pr ts ps bs)
  then obtain b1 where b1: "b1 \<in> set (join_step pr ts bs)" "map_of b1 \<subseteq>\<^sub>m map_of b'"
    "dom (map_of b') = dom (map_of b1) \<union> body_vars (map fst ps)"
    "\<forall>(pr, ts) \<in> set ps. \<exists>t \<in> set ts. inst (map_of b') (p_args pr) = Some t"
    by auto
  obtain b t where b: "b \<in> set bs" "t \<in> set ts" "map_of b \<subseteq>\<^sub>m map_of b1"
    "inst (map_of b1) (p_args pr) = Some t" "dom (map_of b1) = dom (map_of b) \<union> args_vars (p_args pr)"
    using join_step_sound [OF b1(1)] by blast
  have "inst (map_of b') (p_args pr) = Some t" using inst_mono [OF b1(2) b(4)] .
  moreover have "map_of b \<subseteq>\<^sub>m map_of b'" using b(3) b1(2) by (rule map_le_trans)
  ultimately show ?case using b b1 by (intro bexI [of _ b]) auto
qed (auto intro: map_le_refl)

lemma join_body_complete:
  assumes "b \<in> set bs" and "map_of b \<subseteq>\<^sub>m \<sigma>"
    and "\<forall>(pr, ts) \<in> set ps. \<exists>t \<in> set ts. inst \<sigma> (p_args pr) = Some t"
  shows "\<exists>b' \<in> set (join_body ps bs). map_of b' \<subseteq>\<^sub>m \<sigma> \<and>
    dom (map_of b') = dom (map_of b) \<union> body_vars (map fst ps)"
  using assms
proof (induction ps arbitrary: b bs)
  case (Cons p ps)
  obtain pr ts where p: "p = (pr, ts)" by (cases p)
  with Cons.prems obtain t where "t \<in> set ts" "inst \<sigma> (p_args pr) = Some t" by auto
  then obtain b1 where b1: "b1 \<in> set (join_step pr ts bs)" "map_of b1 \<subseteq>\<^sub>m \<sigma>"
    "dom (map_of b1) = dom (map_of b) \<union> args_vars (p_args pr)"
    using join_step_complete [OF Cons.prems(1,2)] by blast
  from Cons.IH [OF b1(1,2)] Cons.prems(3) show ?case
    using b1(3) p by (auto simp: Un_assoc)
qed auto

lemma heads_of_join:
  "t \<in> set (heads_of head (join_body ps [[]])) \<longleftrightarrow>
   (\<exists>\<sigma>. dom \<sigma> = body_vars (map fst ps) \<and>
      (\<forall>(pr, ts) \<in> set ps. \<exists>u \<in> set ts. inst \<sigma> (p_args pr) = Some u) \<and> inst \<sigma> (p_args head) = Some t)"
    (is "?L \<longleftrightarrow> ?R")
proof
  assume ?L
  then obtain b where b: "b \<in> set (join_body ps [[]])" "inst (map_of b) (p_args head) = Some t"
    by (auto simp: heads_of_def map_filter_def apply_binding_inst)
  with join_body_sound [OF b(1)] show ?R by (intro exI [of _ "map_of b"]) auto
next
  assume ?R
  then obtain \<sigma> where s: "dom \<sigma> = body_vars (map fst ps)"
    "\<forall>(pr, ts) \<in> set ps. \<exists>u \<in> set ts. inst \<sigma> (p_args pr) = Some u" "inst \<sigma> (p_args head) = Some t"
    by blast
  obtain b where b: "b \<in> set (join_body ps [[]])" "map_of b \<subseteq>\<^sub>m \<sigma>"
    "dom (map_of b) = body_vars (map fst ps)"
    using join_body_complete [of "[]" "[[]]" \<sigma> ps] s(2) by auto
  have "map_of b = \<sigma>" using b(2,3) s(1) by (auto simp: map_le_def intro!: ext) (metis domIff)
  then show ?L using b(1) s(3) by (force simp: heads_of_def map_filter_def apply_binding_inst)
qed

section \<open>Derivations from a database\<close>

text \<open>The body of a rule holds under a substitution; a rule derives a tuple; and a rule fires, that
  is, derives a tuple with no literal on a derived relation or with one matched by the delta.\<close>

definition body_holds :: "(rstr \<Rightarrow> tuple set) \<Rightarrow> (rstr \<rightharpoonup> rstr) \<Rightarrow> predicate list \<Rightarrow> bool" where
  "body_holds M \<sigma> body \<longleftrightarrow> dom \<sigma> = body_vars body \<and>
     (\<forall>pr \<in> set body. \<exists>u \<in> M (p_name pr). inst \<sigma> (p_args pr) = Some u)"

definition derived :: "(rstr \<Rightarrow> tuple set) \<Rightarrow> rule \<Rightarrow> tuple \<Rightarrow> bool" where
  "derived M r t \<longleftrightarrow> (\<exists>\<sigma>. body_holds M \<sigma> (snd r) \<and> inst \<sigma> (p_args (fst r)) = Some t)"

definition fires :: "rstr set \<Rightarrow> (rstr \<Rightarrow> tuple set) \<Rightarrow> (rstr \<Rightarrow> tuple set) \<Rightarrow> rule \<Rightarrow> tuple \<Rightarrow> bool" where
  "fires idb D M r t \<longleftrightarrow> (\<exists>\<sigma>. body_holds M \<sigma> (snd r) \<and> inst \<sigma> (p_args (fst r)) = Some t \<and>
     ((\<forall>pr \<in> set (snd r). p_name pr \<notin> idb) \<or>
      (\<exists>pr \<in> set (snd r). p_name pr \<in> idb \<and> (\<exists>u \<in> D (p_name pr). inst \<sigma> (p_args pr) = Some u))))"

definition sets :: "relations \<Rightarrow> rstr \<Rightarrow> tuple set" where
  "sets db p = set (rel db p)"

lemma body_holds_mono: "body_holds M \<sigma> body \<Longrightarrow> (\<And>q. M q \<subseteq> N q) \<Longrightarrow> body_holds N \<sigma> body"
  unfolding body_holds_def by blast

lemma fires_mono: "fires idb D M r t \<Longrightarrow> (\<And>q. M q \<subseteq> N q) \<Longrightarrow> fires idb D N r t"
  unfolding fires_def using body_holds_mono by blast

lemma derived_mono: "derived M r t \<Longrightarrow> (\<And>q. M q \<subseteq> N q) \<Longrightarrow> derived N r t"
  unfolding derived_def using body_holds_mono by blast

lemma derive_rule_iff: "t \<in> set (derive_rule db head body) \<longleftrightarrow> derived (sets db) (head, body) t"
proof -
  have "map fst (map (\<lambda>pr. (pr, rel db (p_name pr))) body) = body"
    by (induction body) simp_all
  then show ?thesis
    unfolding derive_rule_def derive_rule_with_delta_def heads_of_join option.case derived_def
      body_holds_def sets_def by auto
qed

lemma derive_at_iff:
  "t \<in> set (derive_rule_delta_at db head body pos dt) \<longleftrightarrow>
   (\<exists>\<sigma>. dom \<sigma> = body_vars body \<and> inst \<sigma> (p_args head) = Some t \<and>
     (\<forall>i < length body. \<exists>u \<in> set (if i = pos then dt else rel db (p_name (body ! i))).
        inst \<sigma> (p_args (body ! i)) = Some u))"
proof -
  let ?ps = "map (\<lambda>(i, pr). (pr, if i = pos then dt else rel db (p_name pr))) (enumerate 0 body)"
  have fst_ps: "map fst ?ps = body" by (rule nth_equalityI) (simp_all add: nth_enumerate_eq)
  have "(\<forall>(pr, ts) \<in> set ?ps. \<exists>u \<in> set ts. inst \<sigma> (p_args pr) = Some u) \<longleftrightarrow>
      (\<forall>i < length body. \<exists>u \<in> set (if i = pos then dt else rel db (p_name (body ! i))).
        inst \<sigma> (p_args (body ! i)) = Some u)" for \<sigma>
    by (auto simp: all_set_conv_all_nth nth_enumerate_eq)
  then show ?thesis
    unfolding derive_rule_delta_at_def heads_of_join fst_ps by auto
qed

lemma idb_positions_set: "set (idb_positions idb body) = {i. i < length body \<and> p_name (body ! i) \<in> set idb}"
  by (force simp: idb_positions_def in_set_enumerate_eq)

lemma rel_map_of: "map_of db p = Some ts \<Longrightarrow> rel db p = ts"
  by (simp add: rel_def)

lemma candidates_sound:
  assumes "t \<in> set (candidates idb delta db r)" and "\<And>q. sets delta q \<subseteq> sets db q"
  shows "derived (sets db) r t"
proof (cases "idb_positions idb (snd r) = []")
  case True
  then show ?thesis using assms(1) by (cases r) (simp add: candidates_def derive_rule_iff)
next
  case False
  then obtain pos dt where pos: "pos < length (snd r)" "map_of delta (p_name (snd r ! pos)) = Some dt"
    "t \<in> set (derive_rule_delta_at db (fst r) (snd r) pos dt)"
    using assms(1) idb_positions_set [of idb "snd r"]
    by (cases r) (force simp: candidates_def split: option.splits if_splits)
  have dt: "set dt \<subseteq> set (rel db (p_name (snd r ! pos)))"
    using assms(2) [of "p_name (snd r ! pos)"] rel_map_of [OF pos(2)] by (simp add: sets_def)
  obtain \<sigma> where s: "dom \<sigma> = body_vars (snd r)" "inst \<sigma> (p_args (fst r)) = Some t"
    "\<forall>i < length (snd r). \<exists>u \<in> set (if i = pos then dt else rel db (p_name (snd r ! i))).
        inst \<sigma> (p_args (snd r ! i)) = Some u"
    using pos(3) unfolding derive_at_iff by blast
  have "\<exists>u \<in> sets db (p_name pr). inst \<sigma> (p_args pr) = Some u" if "pr \<in> set (snd r)" for pr
  proof -
    from in_set_conv_nth [THEN iffD1, OF that] obtain i where i: "i < length (snd r)" "pr = snd r ! i"
      by blast
    then obtain u where "u \<in> set (if i = pos then dt else rel db (p_name pr))"
      "inst \<sigma> (p_args pr) = Some u" using s(3) by auto
    then show ?thesis using dt i by (auto simp: sets_def split: if_splits)
  qed
  then show ?thesis using s(1,2) by (auto simp: derived_def body_holds_def)
qed

lemma candidates_complete:
  assumes "fires (set idb) (sets delta) (sets db) r t"
  shows "t \<in> set (candidates idb delta db r)"
proof -
  obtain \<sigma> where s: "body_holds (sets db) \<sigma> (snd r)" "inst \<sigma> (p_args (fst r)) = Some t"
    and or: "(\<forall>pr \<in> set (snd r). p_name pr \<notin> set idb) \<or>
      (\<exists>pr \<in> set (snd r). p_name pr \<in> set idb \<and>
        (\<exists>u \<in> sets delta (p_name pr). inst \<sigma> (p_args pr) = Some u))"
    using assms unfolding fires_def by blast
  show ?thesis
  proof (cases "idb_positions idb (snd r) = []")
    case True
    then show ?thesis
      using s by (cases r) (auto simp: candidates_def derive_rule_iff derived_def)
  next
    case False
    then have "set (idb_positions idb (snd r)) \<noteq> {}" by simp
    then have "\<exists>pr \<in> set (snd r). p_name pr \<in> set idb"
      unfolding idb_positions_set by (auto intro: nth_mem)
    with or obtain pr u where pr: "pr \<in> set (snd r)" "p_name pr \<in> set idb"
      "u \<in> sets delta (p_name pr)" "inst \<sigma> (p_args pr) = Some u"
      by blast
    then obtain pos where pos: "pos < length (snd r)" "p_name (snd r ! pos) \<in> set idb"
      and u: "u \<in> sets delta (p_name (snd r ! pos))" "inst \<sigma> (p_args (snd r ! pos)) = Some u"
      by (metis in_set_conv_nth)
    obtain dt where dt: "map_of delta (p_name (snd r ! pos)) = Some dt" "u \<in> set dt"
      using u(1) by (cases "map_of delta (p_name (snd r ! pos))") (auto simp: sets_def rel_def)
    have "\<forall>i < length (snd r). \<exists>u \<in> set (if i = pos then dt else rel db (p_name (snd r ! i))).
        inst \<sigma> (p_args (snd r ! i)) = Some u"
      using s(1) u(2) dt(2) unfolding body_holds_def sets_def by auto
    then have "t \<in> set (derive_rule_delta_at db (fst r) (snd r) pos dt)"
      unfolding derive_at_iff using s by (intro exI [of _ \<sigma>] conjI) (simp_all add: body_holds_def)
    moreover have "dt \<noteq> []" using dt(2) by auto
    moreover define f where "f = (\<lambda>pos. case map_of delta (p_name (snd r ! pos)) of None \<Rightarrow> []
       | Some dt \<Rightarrow> if dt = [] then [] else derive_rule_delta_at db (fst r) (snd r) pos dt)"
    ultimately have "t \<in> set (f pos)" using dt(1) by simp
    moreover have "candidates idb delta db r = concat (map f (idb_positions idb (snd r)))"
      using False by (simp add: candidates_def f_def case_prod_beta)
    moreover have "pos \<in> set (idb_positions idb (snd r))" using pos by (simp add: idb_positions_set)
    ultimately show ?thesis by auto
  qed
qed

section \<open>One round\<close>

lemma rel_update: "rel (AList.update p v db) q = (if q = p then v else rel db q)"
  by (simp add: rel_def update_conv')

lemma set_set_insert [simp]: "set (set_insert x xs) = insert x (set xs)"
  by (auto simp: set_insert_def)

lemma insert_all_effect:
  assumes "insert_all p ts (full, nd) = (full', nd')"
  shows "set full' = set full \<union> set ts \<and>
    (\<forall>q. sets nd' q = sets nd q \<union> (if q = p then set ts - set full else {})) \<and>
    (distinct (map fst nd) \<longrightarrow> distinct (map fst nd'))"
  using assms
proof (induction ts arbitrary: full nd)
  case (Cons t ts)
  show ?case
  proof (cases "t \<in> set full")
    case True
    then show ?thesis using Cons by (auto simp: insert_absorb)
  next
    case False
    with Cons.prems have step: "insert_all p ts
        (full @ [t], AList.update p (set_insert t (rel nd p)) nd) = (full', nd')" by simp
    from Cons.IH [OF step] False show ?thesis
      by (auto simp: sets_def rel_update distinct_update split: if_splits)
  qed
qed (simp add: sets_def)

text \<open>What holds between the start of a round on \<open>db0\<close> and any point of it.\<close>

definition round_inv :: "rstr set \<Rightarrow> relations \<Rightarrow> relations \<times> relations \<Rightarrow> bool" where
  "round_inv idb db0 st \<longleftrightarrow>
     (\<forall>q. sets (fst st) q = sets db0 q \<union> sets (snd st) q \<and> sets db0 q \<inter> sets (snd st) q = {} \<and>
       (q \<notin> idb \<longrightarrow> sets (snd st) q = {})) \<and>
     distinct (map fst (snd st))"

lemma apply_rule_effect:
  assumes "apply_rule idb delta r (db, nd) = (db', nd')"
  shows "sets db' q = sets db q \<union> (if q = p_name (fst r) then set (candidates idb delta db r) else {})"
    and "sets nd' q = sets nd q \<union>
      (if q = p_name (fst r) then set (candidates idb delta db r) - sets db q else {})"
    and "distinct (map fst nd) \<Longrightarrow> distinct (map fst nd')"
proof -
  obtain full where ins: "insert_all (p_name (fst r)) (candidates idb delta db r)
      (rel db (p_name (fst r)), nd) = (full, nd')" and db': "db' = AList.update (p_name (fst r)) full db"
    using assms by (auto simp: apply_rule_def Let_def split: prod.splits)
  note eff = insert_all_effect [OF ins]
  show "sets db' q = sets db q \<union> (if q = p_name (fst r) then set (candidates idb delta db r) else {})"
    using eff by (simp add: db' sets_def rel_update)
  show "sets nd' q = sets nd q \<union>
      (if q = p_name (fst r) then set (candidates idb delta db r) - sets db q else {})"
    using eff by (simp add: sets_def)
  show "distinct (map fst nd) \<Longrightarrow> distinct (map fst nd')" using eff by simp
qed

lemma apply_rule_inv:
  assumes "round_inv (set idb) db0 st" and "p_name (fst r) \<in> set idb"
  shows "round_inv (set idb) db0 (apply_rule idb delta r st)"
proof -
  obtain db nd where st: "st = (db, nd)" by (cases st)
  obtain db' nd' where ap: "apply_rule idb delta r (db, nd) = (db', nd')"
    by (cases "apply_rule idb delta r (db, nd)")
  note eff = apply_rule_effect [OF ap]
  note inv = assms(1) [unfolded st round_inv_def fst_conv snd_conv]
  have "sets db' q = sets db0 q \<union> sets nd' q \<and> sets db0 q \<inter> sets nd' q = {} \<and>
      (q \<notin> set idb \<longrightarrow> sets nd' q = {})" for q
    using inv assms(2) eff(1,2) [of q] by auto
  then show ?thesis using eff(3) inv by (simp add: round_inv_def st ap)
qed

lemma apply_rule_model:
  assumes "apply_rule idb delta r (db, nd) = (db', nd')" and "\<And>q. sets delta q \<subseteq> sets db q"
    and "\<And>q. sets db q \<subseteq> M q" and "\<And>t. derived M r t \<Longrightarrow> t \<in> M (p_name (fst r))"
  shows "sets db' q \<subseteq> M q"
proof -
  have "derived M r t" if "t \<in> set (candidates idb delta db r)" for t
    using candidates_sound [OF that assms(2)] assms(3) by (rule derived_mono)
  then show ?thesis using apply_rule_effect(1) [OF assms(1), of q] assms(3) [of q] assms(4) by auto
qed

lemma round_effect:
  assumes "fold (apply_rule idb delta) rs (db, nd) = (db', nd')"
    and "round_inv (set idb) db0 (db, nd)" and "\<And>r. r \<in> set rs \<Longrightarrow> p_name (fst r) \<in> set idb"
    and "\<And>q. sets delta q \<subseteq> sets db0 q"
  shows "round_inv (set idb) db0 (db', nd') \<and> (\<forall>q. sets db q \<subseteq> sets db' q) \<and>
    (\<forall>r \<in> set rs. \<forall>t. fires (set idb) (sets delta) (sets db0) r t \<longrightarrow> t \<in> sets db' (p_name (fst r))) \<and>
    (\<forall>M. (\<forall>q. sets db q \<subseteq> M q) \<longrightarrow> (\<forall>r \<in> set rs. \<forall>t. derived M r t \<longrightarrow> t \<in> M (p_name (fst r))) \<longrightarrow>
      (\<forall>q. sets db' q \<subseteq> M q))"
  using assms(1-3)
proof (induction rs arbitrary: db nd)
  case (Cons r rs)
  obtain db1 nd1 where ap: "apply_rule idb delta r (db, nd) = (db1, nd1)"
    by (cases "apply_rule idb delta r (db, nd)")
  have inv1: "round_inv (set idb) db0 (db1, nd1)"
    using apply_rule_inv [OF Cons.prems(2)] Cons.prems(3) ap by (metis list.set_intros(1))
  have sub0: "sets db0 q \<subseteq> sets db q" for q using Cons.prems(2) by (simp add: round_inv_def)
  have sub: "sets delta q \<subseteq> sets db q" for q using assms(4) sub0 by blast
  have up: "sets db q \<subseteq> sets db1 q" for q using apply_rule_effect(1) [OF ap, of q] by blast
  have IH: "round_inv (set idb) db0 (db', nd')" "\<forall>q. sets db1 q \<subseteq> sets db' q"
    "\<forall>r \<in> set rs. \<forall>t. fires (set idb) (sets delta) (sets db0) r t \<longrightarrow> t \<in> sets db' (p_name (fst r))"
    "\<forall>M. (\<forall>q. sets db1 q \<subseteq> M q) \<longrightarrow> (\<forall>r \<in> set rs. \<forall>t. derived M r t \<longrightarrow> t \<in> M (p_name (fst r))) \<longrightarrow>
      (\<forall>q. sets db' q \<subseteq> M q)"
    using Cons.IH [of db1 nd1] Cons.prems(1,3) inv1 ap by auto
  have new: "t \<in> sets db' (p_name (fst r))" if "fires (set idb) (sets delta) (sets db0) r t" for t
  proof -
    have "t \<in> sets db1 (p_name (fst r))"
      using candidates_complete [OF fires_mono [OF that sub0]] apply_rule_effect(1) [OF ap] by simp
    then show ?thesis using IH(2) by blast
  qed
  have mod: "\<forall>q. sets db' q \<subseteq> M q" if M: "\<forall>q. sets db q \<subseteq> M q"
    "\<forall>x \<in> set (r # rs). \<forall>t. derived M x t \<longrightarrow> t \<in> M (p_name (fst x))" for M
  proof -
    have "sets db1 q \<subseteq> M q" for q using apply_rule_model [OF ap sub] M by (metis list.set_intros(1))
    then show ?thesis using IH(4) M(2) by simp
  qed
  show ?case
  proof (intro conjI)
    show "\<forall>q. sets db q \<subseteq> sets db' q" using up IH(2) by blast
    show "\<forall>x \<in> set (r # rs). \<forall>t. fires (set idb) (sets delta) (sets db0) x t \<longrightarrow>
        t \<in> sets db' (p_name (fst x))" using new IH(3) by simp
    show "\<forall>M. (\<forall>q. sets db q \<subseteq> M q) \<longrightarrow>
        (\<forall>x \<in> set (r # rs). \<forall>t. derived M x t \<longrightarrow> t \<in> M (p_name (fst x))) \<longrightarrow>
        (\<forall>q. sets db' q \<subseteq> M q)" using mod by blast
  qed (rule IH(1))
qed simp

section \<open>A finite universe\<close>

definition active_values :: "relations \<Rightarrow> rule list \<Rightarrow> rstr set" where
  "active_values db rs = \<Union> (set ` set (concat (map snd db))) \<union>
     {c. \<exists>r \<in> set rs. Const c \<in> set (p_args (fst r))}"

text \<open>The tuples that can ever be derived: stored ones, and those of the arity of a rule head over the
  values that occur.\<close>

definition universe :: "relations \<Rightarrow> rule list \<Rightarrow> rstr \<Rightarrow> tuple set" where
  "universe db rs p = {t. set t \<subseteq> active_values db rs \<and>
     (t \<in> sets db p \<or> (\<exists>r \<in> set rs. p = p_name (fst r) \<and> length t = length (p_args (fst r))))}"

lemma sets_stored: "t \<in> sets db p \<Longrightarrow> p \<in> fst ` set db \<and> t \<in> set (concat (map snd db))"
  by (cases "map_of db p") (force simp: sets_def rel_def dest: map_of_SomeD)+

lemma sets_universe: "sets db p \<subseteq> universe db rs p"
  using sets_stored by (fastforce simp: universe_def active_values_def)

lemma finite_values: "finite (active_values db rs)"
proof -
  have "{c. \<exists>r \<in> set rs. Const c \<in> set (p_args (fst r))} \<subseteq>
      (\<lambda>t. case t of Const c \<Rightarrow> c | Var x \<Rightarrow> x) ` (\<Union>r \<in> set rs. set (p_args (fst r)))"
    by force
  then have "finite {c. \<exists>r \<in> set rs. Const c \<in> set (p_args (fst r))}"
    by (rule finite_subset) simp
  then show ?thesis by (simp add: active_values_def)
qed

lemma finite_universe: "finite {(p, t). t \<in> universe db rs p}"
proof -
  define n where "n = sum_list (map length (concat (map snd db))) +
    sum_list (map (\<lambda>r. length (p_args (fst r))) rs)"
  have "length t \<le> n" if "t \<in> universe db rs p" for p t
  proof -
    have "length t \<le> sum_list (map length (concat (map snd db)))" if "t \<in> sets db p"
      using sets_stored [OF that] by (intro member_le_sum_list) auto
    moreover have "length (p_args (fst r)) \<le> sum_list (map (\<lambda>r. length (p_args (fst r))) rs)"
      if "r \<in> set rs" for r
      using that by (intro member_le_sum_list) auto
    ultimately show ?thesis using \<open>t \<in> universe db rs p\<close> by (fastforce simp: universe_def n_def)
  qed
  moreover have "p \<in> fst ` set db \<union> (p_name \<circ> fst) ` set rs" if "t \<in> universe db rs p" for p t
    using that sets_stored [of t db p] by (auto simp: universe_def)
  moreover have "set t \<subseteq> active_values db rs" if "t \<in> universe db rs p" for p t
    using that by (simp add: universe_def)
  ultimately have "{(p, t). t \<in> universe db rs p} \<subseteq>
      (fst ` set db \<union> (p_name \<circ> fst) ` set rs) \<times> {t. set t \<subseteq> active_values db rs \<and> length t \<le> n}"
    by blast
  then show ?thesis
    by (rule finite_subset) (simp add: finite_lists_length_le [OF finite_values])
qed

lemma inst_var: "inst \<sigma> args = Some u \<Longrightarrow> x \<in> args_vars args \<Longrightarrow> \<exists>v. \<sigma> x = Some v \<and> v \<in> set u"
proof (induction args arbitrary: u)
  case (Cons a args)
  then show ?case by (cases a) (fastforce split: option.splits)+
qed simp

lemma universe_model:
  assumes "r \<in> set rs" and "derived (universe db rs) r t"
  shows "t \<in> universe db rs (p_name (fst r))"
proof -
  obtain \<sigma> where s: "body_holds (universe db rs) \<sigma> (snd r)" "inst \<sigma> (p_args (fst r)) = Some t"
    using assms(2) unfolding derived_def by blast
  have "ran \<sigma> \<subseteq> active_values db rs"
  proof
    fix v assume "v \<in> ran \<sigma>"
    then obtain x where x: "\<sigma> x = Some v" by (auto simp: ran_def)
    then obtain pr where pr: "pr \<in> set (snd r)" "x \<in> args_vars (p_args pr)"
      using s(1) by (auto simp: body_holds_def body_vars_def)
    then obtain u where u: "u \<in> universe db rs (p_name pr)" "inst \<sigma> (p_args pr) = Some u"
      using s(1) unfolding body_holds_def by blast
    then have "v \<in> set u" using inst_var [OF u(2) pr(2)] x by auto
    then show "v \<in> active_values db rs" using u(1) by (auto simp: universe_def)
  qed
  moreover have "{c. Const c \<in> set (p_args (fst r))} \<subseteq> active_values db rs"
    using assms(1) by (auto simp: active_values_def)
  ultimately have "set t \<subseteq> active_values db rs" using inst_values [OF s(2)] by blast
  then show ?thesis using assms(1) inst_length [OF s(2)] by (auto simp: universe_def)
qed

section \<open>The loop reaches the least model\<close>

definition is_model :: "rule list \<Rightarrow> (rstr \<Rightarrow> tuple set) \<Rightarrow> bool" where
  "is_model rs M \<longleftrightarrow> (\<forall>r \<in> set rs. \<forall>t. derived M r t \<longrightarrow> t \<in> M (p_name (fst r)))"

text \<open>Between rounds: the delta is stored, and every derivation fires or its result is stored.\<close>

definition loop_inv :: "rule list \<Rightarrow> rstr list \<Rightarrow> relations \<Rightarrow> relations \<Rightarrow> bool" where
  "loop_inv rs idb delta db \<longleftrightarrow>
     (\<forall>q. sets delta q \<subseteq> sets db q) \<and>
     (\<forall>r \<in> set rs. \<forall>t. derived (sets db) r t \<longrightarrow>
        fires (set idb) (sets delta) (sets db) r t \<or> t \<in> sets db (p_name (fst r)))"

lemma round_facts:
  assumes "eval_round rs idb delta db = (db', nd)" and "loop_inv rs idb delta db"
    and "\<forall>r \<in> set rs. p_name (fst r) \<in> set idb"
  shows "round_inv (set idb) db (db', nd)" and "\<forall>q. sets db q \<subseteq> sets db' q"
    and "\<forall>r \<in> set rs. \<forall>t. derived (sets db) r t \<longrightarrow> t \<in> sets db' (p_name (fst r))"
    and "is_model rs M \<Longrightarrow> (\<And>q. sets db q \<subseteq> M q) \<Longrightarrow> sets db' q \<subseteq> M q"
proof -
  have "round_inv (set idb) db (db, [])" by (simp add: round_inv_def sets_def rel_def)
  note eff = round_effect [OF assms(1) [unfolded eval_round_def] this]
  have delta: "\<And>q. sets delta q \<subseteq> sets db q" using assms(2) by (simp add: loop_inv_def)
  have heads: "\<And>r. r \<in> set rs \<Longrightarrow> p_name (fst r) \<in> set idb" using assms(3) by blast
  note eff = eff [OF heads delta, simplified]
  show "round_inv (set idb) db (db', nd)" and up: "\<forall>q. sets db q \<subseteq> sets db' q" using eff by blast+
  show "\<forall>r \<in> set rs. \<forall>t. derived (sets db) r t \<longrightarrow> t \<in> sets db' (p_name (fst r))"
    using eff up assms(2) unfolding loop_inv_def by blast
  show "is_model rs M \<Longrightarrow> (\<And>q. sets db q \<subseteq> M q) \<Longrightarrow> sets db' q \<subseteq> M q"
    using eff unfolding is_model_def by blast
qed

lemma loop_inv_step:
  assumes "eval_round rs idb delta db = (db', nd)" and "loop_inv rs idb delta db"
    and "\<forall>r \<in> set rs. p_name (fst r) \<in> set idb"
  shows "loop_inv rs idb nd db'"
proof -
  note rf = round_facts [OF assms]
  have split: "sets db' q = sets db q \<union> sets nd q" "q \<notin> set idb \<Longrightarrow> sets nd q = {}" for q
    using rf(1) by (simp_all add: round_inv_def)
  have "fires (set idb) (sets nd) (sets db') r t \<or> t \<in> sets db' (p_name (fst r))"
    if r: "r \<in> set rs" and d: "derived (sets db') r t" for r t
  proof -
    obtain \<sigma> where s: "body_holds (sets db') \<sigma> (snd r)" "inst \<sigma> (p_args (fst r)) = Some t"
      using d unfolding derived_def by blast
    show ?thesis
    proof (cases "body_holds (sets db) \<sigma> (snd r)")
      case True
      then show ?thesis using rf(3) r s(2) unfolding derived_def by blast
    next
      case False
      then obtain pr u where pr: "pr \<in> set (snd r)" "u \<in> sets db' (p_name pr)"
        "inst \<sigma> (p_args pr) = Some u" "u \<notin> sets db (p_name pr)"
        using s(1) unfolding body_holds_def by blast
      then have "u \<in> sets nd (p_name pr)" "p_name pr \<in> set idb" using split by blast+
      then show ?thesis using s pr unfolding fires_def by blast
    qed
  qed
  then show ?thesis using split unfolding loop_inv_def by blast
qed

lemma delta_empty_iff:
  "distinct (map fst nd) \<Longrightarrow> list_all (\<lambda>(_, s). s = []) nd \<longleftrightarrow> (\<forall>q. sets nd q = {})"
proof
  assume d: "distinct (map fst nd)" and "\<forall>q. sets nd q = {}"
  then have "s = []" if "(p, s) \<in> set nd" for p s
    using rel_map_of [of nd p s] map_of_is_SomeI [OF d that] by (simp add: sets_def)
  then show "list_all (\<lambda>(_, s). s = []) nd" by (auto simp: list_all_iff)
next
  assume "list_all (\<lambda>(_, s). s = []) nd"
  then show "\<forall>q. sets nd q = {}"
    using sets_stored [of _ nd] by (fastforce simp: list_all_iff)
qed

definition missing :: "(rstr \<Rightarrow> tuple set) \<Rightarrow> relations \<Rightarrow> (rstr \<times> tuple) set" where
  "missing U db = {(p, t). t \<in> U p \<and> t \<notin> sets db p}"

lemma eval_loop_result:
  assumes "finite {(p, t). t \<in> U p}" and "is_model rs U"
    and "loop_inv rs idb delta db" and "\<forall>r \<in> set rs. p_name (fst r) \<in> set idb" and "\<forall>q. sets db q \<subseteq> U q"
  shows "\<exists>db'. eval_loop rs idb delta db = Some db' \<and> (\<forall>q. sets db q \<subseteq> sets db' q) \<and>
    is_model rs (sets db') \<and> (\<forall>M q. is_model rs M \<longrightarrow> (\<forall>q. sets db q \<subseteq> M q) \<longrightarrow> sets db' q \<subseteq> M q)"
  using assms(3,5)
proof (induction "card (missing U db)" arbitrary: delta db rule: less_induct)
  case less
  obtain db1 nd where rd: "eval_round rs idb delta db = (db1, nd)" by (cases "eval_round rs idb delta db")
  note rf = round_facts [OF rd less.prems(1) assms(4)]
  have inv: "distinct (map fst nd)" "\<And>q. sets db1 q = sets db q \<union> sets nd q"
    "\<And>q. sets db q \<inter> sets nd q = {}" using rf(1) by (simp_all add: round_inv_def)
  show ?case
  proof (cases "list_all (\<lambda>(_, s). s = []) nd")
    case True
    then have "sets db1 = sets db" using delta_empty_iff [OF inv(1)] inv(2) by auto
    then have "is_model rs (sets db1)" using rf(3) by (simp add: is_model_def)
    moreover have "eval_loop rs idb delta db = Some db1"
      using True by (simp add: eval_loop.simps [of rs idb delta db] rd)
    ultimately show ?thesis using rf(2,4) by blast
  next
    case False
    then obtain p where p: "sets nd p \<noteq> {}" using delta_empty_iff [OF inv(1)] by blast
    have sub: "\<forall>q. sets db1 q \<subseteq> U q" using rf(4) [OF assms(2)] less.prems(2) by blast
    have "missing U db1 \<subset> missing U db"
      using p sub inv(2,3) unfolding missing_def by fastforce
    moreover have "finite (missing U db)"
      using assms(1) by (rule finite_subset [rotated]) (auto simp: missing_def)
    ultimately have "card (missing U db1) < card (missing U db)" by (simp add: psubset_card_mono)
    from less.hyps [OF this loop_inv_step [OF rd less.prems(1) assms(4)] sub] obtain db' where
      db': "eval_loop rs idb nd db1 = Some db'" "\<forall>q. sets db1 q \<subseteq> sets db' q" "is_model rs (sets db')"
      "\<forall>M q. is_model rs M \<longrightarrow> (\<forall>q. sets db1 q \<subseteq> M q) \<longrightarrow> sets db' q \<subseteq> M q" by blast
    have "eval_loop rs idb delta db = Some db'"
      using False db'(1) by (simp add: eval_loop.simps [of rs idb delta db] rd)
    moreover have "\<forall>q. sets db q \<subseteq> sets db' q" using rf(2) db'(2) by blast
    moreover have "sets db' q \<subseteq> M q" if M: "is_model rs M" "\<forall>q. sets db q \<subseteq> M q" for M q
    proof -
      have "sets db1 q \<subseteq> M q" for q using rf(4) [OF M(1)] M(2) by simp
      then show ?thesis using db'(4) M(1) by simp
    qed
    ultimately show ?thesis using db'(3) by blast
  qed
qed

lemma initial_loop_inv:
  "loop_inv rs (idb_preds rs) (map (\<lambda>p. (p, rel db p)) (idb_preds rs)) db"
proof -
  have rel0: "sets (map (\<lambda>p. (p, rel db p)) ps) q = (if q \<in> set ps then sets db q else {})" for ps q
    by (induction ps) (auto simp: sets_def rel_def)
  have "fires (set (idb_preds rs)) (sets (map (\<lambda>p. (p, rel db p)) (idb_preds rs))) (sets db) r t"
    if h: "body_holds (sets db) \<sigma> (snd r)" "inst \<sigma> (p_args (fst r)) = Some t" for r t \<sigma>
  proof (cases "\<exists>pr \<in> set (snd r). p_name pr \<in> set (idb_preds rs)")
    case True
    then obtain pr u where "pr \<in> set (snd r)" "p_name pr \<in> set (idb_preds rs)"
      "u \<in> sets db (p_name pr)" "inst \<sigma> (p_args pr) = Some u"
      using h(1) unfolding body_holds_def by blast
    then show ?thesis unfolding fires_def rel0 using h by (intro exI [of _ \<sigma>]) auto
  next
    case False
    then show ?thesis unfolding fires_def using h by blast
  qed
  then show ?thesis unfolding loop_inv_def derived_def by (auto simp: rel0)
qed

section \<open>Derivability\<close>

inductive derivable :: "rule list \<Rightarrow> (rstr \<Rightarrow> tuple set) \<Rightarrow> rstr \<Rightarrow> tuple \<Rightarrow> bool" for rs F where
  stored: "t \<in> F p \<Longrightarrow> derivable rs F p t"
| rule: "r \<in> set rs \<Longrightarrow> dom \<sigma> = body_vars (snd r) \<Longrightarrow>
    \<forall>pr \<in> set (snd r). \<exists>u. derivable rs F (p_name pr) u \<and> inst \<sigma> (p_args pr) = Some u \<Longrightarrow>
    inst \<sigma> (p_args (fst r)) = Some t \<Longrightarrow> derivable rs F (p_name (fst r)) t"

lemma derivable_model: "is_model rs (\<lambda>p. {t. derivable rs F p t})"
proof -
  have "derivable rs F (p_name (fst r)) t"
    if "r \<in> set rs" "body_holds (\<lambda>p. {t. derivable rs F p t}) \<sigma> (snd r)" "inst \<sigma> (p_args (fst r)) = Some t"
    for r \<sigma> t
    by (rule derivable.rule [OF that(1) _ _ that(3)]) (use that(2) in \<open>auto simp: body_holds_def\<close>)
  then show ?thesis unfolding is_model_def derived_def by blast
qed

lemma derivable_least:
  assumes "is_model rs M" and "\<forall>q. F q \<subseteq> M q"
  shows "derivable rs F p t \<Longrightarrow> t \<in> M p"
proof (induction rule: derivable.induct)
  case (rule r \<sigma> t)
  then have "derived M r t" unfolding derived_def body_holds_def by blast
  then show ?case using assms(1) rule(1) unfolding is_model_def by blast
qed (use assms(2) in blast)

section \<open>Properties\<close>

text \<open>C8. Semi-naive evaluation terminates on every program and computes its least model: the
  relations it ends with hold exactly the tuples derivable from the stored facts by the rules, for
  every predicate, and a query returns exactly those of the arity asked for. A derivation uses a
  substitution that binds the variables of the body; a rule whose head has other variables derives
  nothing.\<close>

theorem semi_naive_least_model:
  "\<exists>e'. semi_naive e = Some e' \<and> rules e' = rules e \<and>
     (\<forall>p t. t \<in> sets (facts e') p \<longleftrightarrow> derivable (rules e) (sets (facts e)) p t) \<and>
     (\<forall>p n. set (query e' p n) = {t. derivable (rules e) (sets (facts e)) p t \<and> length t = n})"
proof -
  let ?U = "universe (facts e) (rules e)" and ?F = "sets (facts e)"
  let ?D = "\<lambda>p. {t. derivable (rules e) ?F p t}"
  have model: "is_model (rules e) ?U" using universe_model by (simp add: is_model_def)
  have idb: "\<forall>r \<in> set (rules e). p_name (fst r) \<in> set (idb_preds (rules e))"
    by (force simp: idb_preds_def)
  have "\<forall>q. ?F q \<subseteq> ?U q" using sets_universe by blast
  from eval_loop_result [OF finite_universe model initial_loop_inv idb this] obtain db' where db': "eval_loop (rules e) (idb_preds (rules e))
      (map (\<lambda>p. (p, rel (facts e) p)) (idb_preds (rules e))) (facts e) = Some db'"
    "\<forall>q. ?F q \<subseteq> sets db' q" "is_model (rules e) (sets db')"
    "\<forall>M q. is_model (rules e) M \<longrightarrow> (\<forall>q. ?F q \<subseteq> M q) \<longrightarrow> sets db' q \<subseteq> M q"
    by blast
  have "sets db' p \<subseteq> ?D p" for p
    using db'(4) derivable_model [of "rules e" ?F] derivable.stored by blast
  then have iff: "t \<in> sets db' p \<longleftrightarrow> derivable (rules e) ?F p t" for p t
    using derivable_least [OF db'(3,2)] by blast
  have "set (query (e\<lparr>facts := db'\<rparr>) p n) = {t. t \<in> sets db' p \<and> length t = n}" for p n
    by (auto simp: query_def sets_def rel_def split: option.splits)
  then show ?thesis using db'(1) iff by (simp add: semi_naive_def Let_def)
qed

text \<open>The printed form of a predicate, and the predicates that have one.\<close>

fun print_term :: "trm \<Rightarrow> rstr" where
  "print_term (Const c) = c"
| "print_term (Var x) = 63 # x"

definition print_predicate :: "predicate \<Rightarrow> rstr" where
  "print_predicate p = [40] @ join_with [32] (p_name p # map print_term (p_args p)) @ [41]"

definition token_ok :: "rstr \<Rightarrow> bool" where
  "token_ok w \<longleftrightarrow> w \<noteq> [] \<and> list_all (\<lambda>c. \<not> is_whitespace c) w"

fun term_ok :: "trm \<Rightarrow> bool" where
  "term_ok (Const c) = (token_ok c \<and> hd c \<noteq> 63)"
| "term_ok (Var x) = list_all (\<lambda>c. \<not> is_whitespace c) x"

lemma split_on_clean: "list_all (\<lambda>c. \<not> P c) w \<Longrightarrow> split_on P w = [w]"
  by (induction w) simp_all

lemma split_on_sep: "list_all (\<lambda>c. \<not> P c) w \<Longrightarrow> P x \<Longrightarrow> split_on P (w @ x # s) = w # split_on P s"
  by (induction w) simp_all

lemma split_join:
  "list_all token_ok ws \<Longrightarrow> ws \<noteq> [] \<Longrightarrow> split_whitespace (join_with [32] ws) = ws"
proof (induction ws)
  case (Cons w ws)
  have "is_whitespace 32" by (simp add: is_whitespace_def)
  then show ?case
    using Cons by (cases ws) (auto simp: split_whitespace_def split_on_clean split_on_sep token_ok_def)
qed simp

lemma print_term_token: "term_ok t \<Longrightarrow> token_ok (print_term t)"
  by (cases t) (simp_all add: token_ok_def is_whitespace_def)

lemma parse_print_term: "term_ok t \<Longrightarrow> parse_term (print_term t) = t"
proof (cases t)
  case (Const c)
  moreover assume "term_ok t"
  ultimately show ?thesis
    by (cases c) (simp_all add: parse_term_def strip_prefix_char_def token_ok_def)
qed (simp add: parse_term_def strip_prefix_char_def)

lemma trim_bracketed: "trim (40 # s @ [41]) = 40 # s @ [41]"
  by (simp add: trim_def trim_start_def is_whitespace_def)

text \<open>The parser reads back every predicate it can be given: printing a predicate as an
  S-expression, with a question mark before a variable, and parsing the result gives the predicate
  again, provided that names and constants are non-empty and free of white space and that no constant
  begins with a question mark.\<close>

theorem parse_print_predicate:
  assumes "token_ok (p_name p)" and "list_all term_ok (p_args p)"
  shows "parse_predicate (print_predicate p) = Inr p"
proof -
  have "list_all token_ok (p_name p # map print_term (p_args p))"
    using assms print_term_token by (auto simp: list_all_iff)
  then have split: "split_whitespace (join_with [32] (p_name p # map print_term (p_args p))) =
      p_name p # map print_term (p_args p)"
    by (rule split_join) simp
  have "map (parse_term \<circ> print_term) (p_args p) = p_args p"
    using assms(2) parse_print_term by (intro map_idI) (auto simp: list_all_iff)
  then show ?thesis
    by (simp add: parse_predicate_def print_predicate_def trim_bracketed strip_prefix_char_def
        strip_suffix_char_def split Let_def)
qed

theorem parse_print_predicate_witness:
  "parse_predicate (lit ''(anc ?x bob)'') =
     Inr \<lparr>p_name = lit ''anc'', p_args = [Var (lit ''x''), Const (lit ''bob'')]\<rparr>"
  using parse_print_predicate
    [of "\<lparr>p_name = lit ''anc'', p_args = [Var (lit ''x''), Const (lit ''bob'')]\<rparr>"]
  by (simp add: print_predicate_def token_ok_def lit_def is_whitespace_def)

end
