(* ===== verification/Temporal.thy ===== *)
theory Temporal
  imports Rust_Text "HOL-Library.Monad_Syntax" "HOL-Library.Signed_Division"
begin

text \<open>
  The temporal cue parser of \<^verbatim>\<open>crates/synapse-core/src/temporal.rs\<close>: proleptic Gregorian
  calendar arithmetic, RFC 3339 timestamps, and the recogniser that turns a query into a range of
  Unix seconds. \<^verbatim>\<open>/\<close> on \<^verbatim>\<open>i64\<close> truncates towards zero (\<open>sdiv\<close>), \<^verbatim>\<open>div_euclid\<close> and
  \<^verbatim>\<open>rem_euclid\<close> by a positive number are \<open>div\<close> and \<open>mod\<close>; \<^verbatim>\<open>checked_*\<close> operations and
  \<^verbatim>\<open>try_from\<close> are written out, and the one product that can leave the \<^verbatim>\<open>i64\<close> range wraps, as
  the release profile builds it. \<^verbatim>\<open>str::to_lowercase\<close> and the Unicode tables of
  \<^verbatim>\<open>char::is_alphanumeric\<close> are arguments.
\<close>

section \<open>The calendar\<close>

definition DAY :: int where
  "DAY = 86400"

record date_range =
  lo :: int
  hi :: int

record civil_date =
  year :: int
  month :: int
  day :: int

definition checked :: "int \<Rightarrow> int option" where
  "checked v = (if is_i64 v then Some v else None)"

definition wrap_i64 :: "int \<Rightarrow> int" where
  "wrap_i64 v = (v + 2 ^ 63) mod 2 ^ 64 - 2 ^ 63"

definition try_i32 :: "int \<Rightarrow> int option" where
  "try_i32 v = (if - (2 ^ 31) \<le> v \<and> v < 2 ^ 31 then Some v else None)"

definition try_u32 :: "int \<Rightarrow> int option" where
  "try_u32 v = (if 0 \<le> v \<and> v < 2 ^ 32 then Some v else None)"

definition is_leap_year :: "int \<Rightarrow> bool" where
  "is_leap_year y \<longleftrightarrow> y smod 4 = 0 \<and> (y smod 100 \<noteq> 0 \<or> y smod 400 = 0)"

definition days_in_month :: "int \<Rightarrow> int \<Rightarrow> int option" where
  "days_in_month y m =
     (if m \<in> {1, 3, 5, 7, 8, 10, 12} then Some 31
      else if m \<in> {4, 6, 9, 11} then Some 30
      else if m = 2 \<and> is_leap_year y then Some 29
      else if m = 2 then Some 28
      else None)"

definition days_from_civil :: "civil_date \<Rightarrow> int option" where
  "days_from_civil d =
     (if \<not> (1 \<le> year d \<and> year d \<le> 9999) \<or> day d = 0 then None
      else do {
        dim \<leftarrow> days_in_month (year d) (month d);
        if day d > dim then None
        else let
          y = (if month d \<le> 2 then year d - 1 else year d);
          era = (if y \<ge> 0 then y else y - 399) sdiv 400;
          year_of_era = y - era * 400;
          day_of_year = (153 * (month d + (if month d > 2 then - 3 else 9)) + 2) sdiv 5 + day d - 1;
          day_of_era = year_of_era * 365 + year_of_era sdiv 4 - year_of_era sdiv 100 + day_of_year
        in Some (era * 146097 + day_of_era - 719468)
      })"

definition civil_from_days :: "int \<Rightarrow> civil_date option" where
  "civil_from_days days = do {
     z \<leftarrow> checked (days + 719468);
     let era = (if z \<ge> 0 then z else z - 146096) sdiv 146097;
         day_of_era = z - era * 146097;
         year_of_era = (day_of_era - day_of_era sdiv 1460 + day_of_era sdiv 36524
                          - day_of_era sdiv 146096) sdiv 365;
         y = year_of_era + era * 400;
         day_of_year = day_of_era - (365 * year_of_era + year_of_era sdiv 4 - year_of_era sdiv 100);
         month_prime = (5 * day_of_year + 2) sdiv 153;
         dd = day_of_year - (153 * month_prime + 2) sdiv 5 + 1;
         mm = month_prime + (if month_prime < 10 then 3 else - 9);
         y' = (if mm \<le> 2 then y + 1 else y)
     in do {
       yy \<leftarrow> try_i32 y';
       m \<leftarrow> try_u32 mm;
       d \<leftarrow> try_u32 dd;
       let date = \<lparr>year = yy, month = m, day = d\<rparr>
       in map_option (\<lambda>_. date) (days_from_civil date)
     }
   }"

definition date :: "int \<Rightarrow> int \<Rightarrow> int \<Rightarrow> civil_date option" where
  "date y m d = (let v = \<lparr>year = y, month = m, day = d\<rparr> in map_option (\<lambda>_. v) (days_from_civil v))"

definition add_days :: "civil_date \<Rightarrow> int \<Rightarrow> civil_date option" where
  "add_days v n = do {
     d \<leftarrow> days_from_civil v;
     s \<leftarrow> checked (d + n);
     civil_from_days s
   }"

definition day_bounds :: "civil_date \<Rightarrow> int \<times> int" where
  "day_bounds v =
     (let l = (case days_from_civil v of Some d \<Rightarrow> d | None \<Rightarrow> 0) * DAY in (l, l + DAY - 1))"

definition week_of :: "civil_date \<Rightarrow> (int \<times> int) option" where
  "week_of v = do {
     days \<leftarrow> days_from_civil v;
     let monday = days - (days + 3) mod 7;
         l = monday * DAY
     in Some (l, l + 7 * DAY - 1)
   }"

definition month_of :: "int \<Rightarrow> int \<Rightarrow> (int \<times> int) option" where
  "month_of y m = do {
     first \<leftarrow> date y m 1;
     nxt \<leftarrow> (if m = 12 then date (y + 1) 1 1 else date y (m + 1) 1);
     Some (fst (day_bounds first), fst (day_bounds nxt) - 1)
   }"

definition year_of :: "int \<Rightarrow> (int \<times> int) option" where
  "year_of y = do {
     a \<leftarrow> date y 1 1;
     b \<leftarrow> date (y + 1) 1 1;
     Some (fst (day_bounds a), fst (day_bounds b) - 1)
   }"

section \<open>Timestamps\<close>

text \<open>\<open>parse_number\<close> is generic in the integer type; its range is an argument here.\<close>

definition parse_number :: "int \<Rightarrow> int \<Rightarrow> rstr \<Rightarrow> nat \<Rightarrow> nat \<Rightarrow> int option" where
  "parse_number mn mx v s e = do {
     t \<leftarrow> str_get v s e;
     parse_int mn mx t
   }"

abbreviation parse_i32 :: "rstr \<Rightarrow> nat \<Rightarrow> nat \<Rightarrow> int option" where
  "parse_i32 \<equiv> parse_number (- (2 ^ 31)) (2 ^ 31 - 1)"

abbreviation parse_u32 :: "rstr \<Rightarrow> nat \<Rightarrow> nat \<Rightarrow> int option" where
  "parse_u32 \<equiv> parse_number 0 (2 ^ 32 - 1)"

abbreviation parse_i64 :: "rstr \<Rightarrow> nat \<Rightarrow> nat \<Rightarrow> int option" where
  "parse_i64 \<equiv> parse_number (- (2 ^ 63)) (2 ^ 63 - 1)"

definition parse_date :: "rstr \<Rightarrow> civil_date option" where
  "parse_date v =
     (if str_len v \<noteq> 10 then None
      else do {
        sep \<leftarrow> byte_get v 4;
        sep2 \<leftarrow> (if sep = 45 \<or> sep = 47 then byte_get v 7 else None);
        if sep2 \<noteq> sep then None
        else do {
          y \<leftarrow> parse_i32 v 0 4;
          m \<leftarrow> parse_u32 v 5 7;
          d \<leftarrow> parse_u32 v 8 10;
          date y m d
        }
      })"

text \<open>The \<^verbatim>\<open>suffix\<close> after the seconds: a fraction of at least one digit is skipped, then the
  zone offset in seconds is read.\<close>

definition skip_fraction :: "rstr \<Rightarrow> rstr option" where
  "skip_fraction sfx =
     (case strip_prefix_char 46 sfx of
        None \<Rightarrow> Some sfx
      | Some fraction \<Rightarrow>
          (let digits = length (takeWhile is_ascii_digit fraction)
           in if digits = 0 then None else byte_drop digits fraction))"

definition zone_offset :: "rstr \<Rightarrow> int option" where
  "zone_offset s =
     (if s = [] \<or> s = lit ''Z'' \<or> s = lit ''z'' then Some 0
      else if str_len s = 6 \<and> (byte_get s 0 = Some 43 \<or> byte_get s 0 = Some 45) \<and>
              byte_get s 3 = Some 58 then do {
        hours \<leftarrow> parse_i64 s 1 3;
        minutes \<leftarrow> parse_i64 s 4 6;
        if hours > 23 \<or> minutes > 59 then None
        else let seconds = hours * 3600 + minutes * 60
             in Some (if starts_with (lit ''-'') s then - seconds else seconds)
      }
      else None)"

definition parse_timestamp :: "rstr \<Rightarrow> int option" where
  "parse_timestamp raw =
     (let v = trim raw in do {
        head \<leftarrow> byte_take 10 v;
        dt \<leftarrow> parse_date head;
        days \<leftarrow> days_from_civil dt;
        day_start \<leftarrow> checked (days * DAY);
        if str_len v = 10 then Some day_start
        else if str_len v < 19 \<or> byte_get v 10 \<notin> {Some 84, Some 116, Some 32} then None
        else if byte_get v 13 \<noteq> Some 58 \<or> byte_get v 16 \<noteq> Some 58 then None
        else do {
          hour \<leftarrow> parse_i64 v 11 13;
          minute \<leftarrow> parse_i64 v 14 16;
          second \<leftarrow> parse_i64 v 17 19;
          if hour > 23 \<or> minute > 59 \<or> second > 59 then None
          else do {
            sfx \<leftarrow> byte_drop 19 v;
            rest \<leftarrow> skip_fraction sfx;
            offset \<leftarrow> zone_offset rest;
            t \<leftarrow> checked (day_start + (hour * 3600 + minute * 60 + second));
            checked (t - offset)
          }
        }
      })"

definition format_timestamp :: "int \<Rightarrow> rstr option" where
  "format_timestamp ts =
     (let days = ts div DAY; seconds = ts mod DAY in do {
        d \<leftarrow> civil_from_days days;
        Some (pad_zero 4 (nat (year d)) @ lit ''-'' @ pad_zero 2 (nat (month d)) @ lit ''-'' @
              pad_zero 2 (nat (day d)) @ lit ''T'' @ pad_zero 2 (nat (seconds sdiv 3600)) @
              lit '':'' @ pad_zero 2 (nat (seconds smod 3600 sdiv 60)) @ lit '':'' @
              pad_zero 2 (nat (seconds smod 60)) @ lit ''Z'')
      })"

section \<open>Queries\<close>

definition month_num :: "rstr \<Rightarrow> int option" where
  "month_num name =
     (if name \<in> {lit ''january'', lit ''jan'', lit ''januar''} then Some 1
      else if name \<in> {lit ''february'', lit ''feb'', lit ''februar''} then Some 2
      else if name \<in> {lit ''march'', lit ''mar'', [109, 228, 114, 122], lit ''maerz''} then Some 3
      else if name \<in> {lit ''april'', lit ''apr''} then Some 4
      else if name \<in> {lit ''may'', lit ''mai''} then Some 5
      else if name \<in> {lit ''june'', lit ''jun'', lit ''juni''} then Some 6
      else if name \<in> {lit ''july'', lit ''jul'', lit ''juli''} then Some 7
      else if name \<in> {lit ''august'', lit ''aug''} then Some 8
      else if name \<in> {lit ''september'', lit ''sep'', lit ''sept''} then Some 9
      else if name \<in> {lit ''october'', lit ''oct'', lit ''oktober'', lit ''okt''} then Some 10
      else if name \<in> {lit ''november'', lit ''nov''} then Some 11
      else if name \<in> {lit ''december'', lit ''dec'', lit ''dezember'', lit ''dez''} then Some 12
      else None)"

definition unit_days :: "rstr \<Rightarrow> int option" where
  "unit_days unit =
     (if unit \<in> {lit ''day'', lit ''days'', lit ''tag'', lit ''tage'', lit ''tagen''} then Some 1
      else if unit \<in> {lit ''week'', lit ''weeks'', lit ''woche'', lit ''wochen''} then Some 7
      else if unit \<in> {lit ''month'', lit ''months'', lit ''monat'', lit ''monate'', lit ''monaten''}
        then Some 30
      else if unit \<in> {lit ''year'', lit ''years'', lit ''jahr'', lit ''jahre'', lit ''jahren''}
        then Some 365
      else None)"

text \<open>Code point 228 is the a-umlaut of the German cues.\<close>

definition query_replacements :: "(rstr \<times> rstr) list" where
  "query_replacements =
     [(lit ''gestern'', lit ''yesterday''), (lit ''heute'', lit ''today''),
      (lit ''morgen'', lit ''tomorrow''), (lit ''letzte woche'', lit ''last week''),
      (lit ''letzten woche'', lit ''last week''), (lit ''diese woche'', lit ''this week''),
      (lit ''dieser woche'', lit ''this week''), (110 # 228 # lit ''chste woche'', lit ''next week''),
      (lit ''naechste woche'', lit ''next week''), (lit ''letzten monat'', lit ''last month''),
      (lit ''letzter monat'', lit ''last month''), (lit ''diesen monat'', lit ''this month''),
      (lit ''dieser monat'', lit ''this month''), (110 # 228 # lit ''chsten monat'', lit ''next month''),
      (lit ''naechsten monat'', lit ''next month''), (lit ''letztes jahr'', lit ''last year''),
      (lit ''dieses jahr'', lit ''this year''), (110 # 228 # lit ''chstes jahr'', lit ''next year''),
      (lit ''naechstes jahr'', lit ''next year'')]"

definition normalized_query :: "(rstr \<Rightarrow> rstr) \<Rightarrow> rstr \<Rightarrow> rstr" where
  "normalized_query lower query =
     foldl (\<lambda>q (a, b). str_replace a b q) (lower query) query_replacements"

definition clean_word :: "(rchar \<Rightarrow> bool) \<Rightarrow> rstr \<Rightarrow> rstr" where
  "clean_word uni v = trim_matches (\<lambda>c. \<not> is_alphanumeric uni c) v"

text \<open>A loop whose body may leave the function: \<open>for_each\<close> gives the value returned by the first
  iteration that returns. The function returns a \<^verbatim>\<open>Option\<close> itself, so a body that fails at a
  \<^verbatim>\<open>?\<close> returns \<open>Some None\<close>, and \<open>None\<close> means that it falls through.\<close>

fun for_each :: "('x \<Rightarrow> 'r option) \<Rightarrow> 'x list \<Rightarrow> 'r option" where
  "for_each f [] = None"
| "for_each f (x # xs) = (case f x of Some r \<Rightarrow> Some r | None \<Rightarrow> for_each f xs)"

type_synonym stage = "date_range option option"

definition range_of :: "int \<times> int \<Rightarrow> date_range" where
  "range_of p = \<lparr>lo = fst p, hi = snd p\<rparr>"

definition token_char :: "rchar \<Rightarrow> bool" where
  "token_char c \<longleftrightarrow> is_ascii_digit c \<or> c \<in> set (lit ''-/T:+Z'')"

definition iso_stage :: "rstr \<Rightarrow> stage" where
  "iso_stage query = for_each (\<lambda>token.
     if str_len token \<ge> 10 then
       (case parse_timestamp token of
          Some t \<Rightarrow> Some (Some \<lparr>lo = t - t mod DAY, hi = t - t mod DAY + DAY - 1\<rparr>)
        | None \<Rightarrow> None)
     else None) (split_on (\<lambda>c. \<not> token_char c) query)"

definition day_offset :: "civil_date \<Rightarrow> int \<Rightarrow> date_range option" where
  "day_offset today n = do {
     d \<leftarrow> add_days today n;
     Some (range_of (day_bounds d))
   }"

definition day_stage :: "civil_date \<Rightarrow> rstr \<Rightarrow> stage" where
  "day_stage today query = for_each (\<lambda>(needle, offset).
     if contains_str needle query then Some (day_offset today offset) else None)
     [(lit ''yesterday'', - 1), (lit ''today'', 0), (lit ''tomorrow'', 1)]"

definition count_at :: "(rchar \<Rightarrow> bool) \<Rightarrow> civil_date \<Rightarrow> rstr list \<Rightarrow> nat \<Rightarrow> stage" where
  "count_at uni today words index =
     (case parse_int (- (2 ^ 63)) (2 ^ 63 - 1)
             (trim_matches (\<lambda>c. \<not> is_ascii_digit c) (words ! index)) of
        None \<Rightarrow> None
      | Some cnt \<Rightarrow>
          (let unit = (if index + 1 < length words
                       then unit_days (clean_word uni (words ! (index + 1))) else None)
           in case (if index + 2 < length words \<and> clean_word uni (words ! (index + 2)) = lit ''ago''
                    then unit else None) of
                Some n \<Rightarrow> Some (day_offset today (wrap_i64 (wrap_i64 (- cnt) * n)))
              | None \<Rightarrow>
            (case (if index > 0 \<and> words ! (index - 1) = lit ''in'' then unit else None) of
                Some n \<Rightarrow> Some (day_offset today (wrap_i64 (cnt * n)))
              | None \<Rightarrow>
            (case (if index > 0 \<and> words ! (index - 1) = lit ''vor'' then unit else None) of
                Some n \<Rightarrow> Some (day_offset today (wrap_i64 (wrap_i64 (- cnt) * n)))
              | None \<Rightarrow> None))))"

definition count_stage :: "(rchar \<Rightarrow> bool) \<Rightarrow> civil_date \<Rightarrow> rstr list \<Rightarrow> stage" where
  "count_stage uni today words = for_each (count_at uni today words) [0..<length words]"

definition shifted_month :: "civil_date \<Rightarrow> int \<Rightarrow> date_range option" where
  "shifted_month today month_offset =
     (let month_index = year today * 12 + month today - 1 + month_offset in do {
        y \<leftarrow> try_i32 (month_index div 12);
        m \<leftarrow> try_u32 (month_index mod 12 + 1);
        map_option range_of (month_of y m)
      })"

definition period_stage :: "civil_date \<Rightarrow> rstr \<Rightarrow> stage" where
  "period_stage today query = for_each (\<lambda>(needle, week_offset, month_offset).
     if contains_str needle query then
       Some (if ends_with (lit ''week'') needle then do {
               d \<leftarrow> add_days today (week_offset * 7);
               map_option range_of (week_of d)
             }
             else shifted_month today month_offset)
     else None)
     [(lit ''last week'', - 1, 0), (lit ''this week'', 0, 0), (lit ''next week'', 1, 0),
      (lit ''last month'', 0, - 1), (lit ''this month'', 0, 0), (lit ''next month'', 0, 1)]"

definition year_stage :: "civil_date \<Rightarrow> rstr \<Rightarrow> stage" where
  "year_stage today query = for_each (\<lambda>(needle, offset).
     if contains_str needle query then Some (map_option range_of (year_of (year today + offset)))
     else None)
     [(lit ''last year'', - 1), (lit ''this year'', 0), (lit ''next year'', 1)]"

definition year_after :: "civil_date \<Rightarrow> rstr list \<Rightarrow> nat \<Rightarrow> int" where
  "year_after today words index =
     (case (if index + 1 < length words
            then parse_int (- (2 ^ 31)) (2 ^ 31 - 1)
                   (trim_matches (\<lambda>c. \<not> is_ascii_digit c) (words ! (index + 1)))
            else None) of
        Some y \<Rightarrow> if 1900 \<le> y \<and> y < 2100 then y else year today
      | None \<Rightarrow> year today)"

definition quarter_range :: "int \<Rightarrow> int \<Rightarrow> date_range option" where
  "quarter_range y quarter =
     (let first_month = (quarter - 1) * 3 + 1 in do {
        first \<leftarrow> month_of y first_month;
        nxt \<leftarrow> (if quarter = 4 then month_of (y + 1) 1 else month_of y (first_month + 3));
        Some \<lparr>lo = fst first, hi = fst nxt - 1\<rparr>
      })"

definition quarter_stage :: "civil_date \<Rightarrow> rstr list \<Rightarrow> stage" where
  "quarter_stage today words = for_each (\<lambda>index.
     case Option.bind (strip_prefix_char 113
            (trim_matches (\<lambda>c. \<not> is_ascii_alphanumeric c) (words ! index))) (parse_int 0 (2 ^ 32 - 1)) of
       Some quarter \<Rightarrow>
         if 1 \<le> quarter \<and> quarter \<le> 4
         then Some (quarter_range (year_after today words index) quarter) else None
     | None \<Rightarrow> None) [0..<length words]"

definition month_stage :: "(rchar \<Rightarrow> bool) \<Rightarrow> civil_date \<Rightarrow> rstr list \<Rightarrow> stage" where
  "month_stage uni today words = for_each (\<lambda>index.
     case month_num (clean_word uni (words ! index)) of
       Some m \<Rightarrow> Some (map_option range_of (month_of (year_after today words index) m))
     | None \<Rightarrow> None) [0..<length words]"

definition parse_temporal ::
  "(rstr \<Rightarrow> rstr) \<Rightarrow> (rchar \<Rightarrow> bool) \<Rightarrow> rstr \<Rightarrow> int \<Rightarrow> date_range option" where
  "parse_temporal lower uni raw now =
     (let query = normalized_query lower raw in do {
        today \<leftarrow> civil_from_days (now div DAY);
        let words = split_whitespace query
        in case for_each id
             [iso_stage query, day_stage today query, count_stage uni today words,
              period_stage today query, year_stage today query, quarter_stage today words,
              month_stage uni today words] of
             Some r \<Rightarrow> r
           | None \<Rightarrow> None
      })"

section \<open>The calendar is correct\<close>

lemma sdiv_nonneg: "0 \<le> a \<Longrightarrow> 0 < b \<Longrightarrow> a sdiv b = (a div b :: int)"
  by (simp add: signed_divide_int_def sgn_if)

lemma smod_nonneg: "0 \<le> a \<Longrightarrow> 0 < b \<Longrightarrow> a smod b = (a mod b :: int)"
  by (simp add: signed_modulo_int_def sgn_if)

lemma sdiv_floor:
  fixes z b :: int
  assumes "0 < b"
  shows "(if 0 \<le> z then z else z - (b - 1)) sdiv b = z div b"
proof (cases "0 \<le> z")
  case False
  have "- ((- z + (b - 1)) div b) = z div b"
  proof -
    have "z = b * (z div b) + z mod b" by simp
    moreover have "0 \<le> z mod b" "z mod b < b" using assms by simp_all
    ultimately have "- z + (b - 1) = (b - 1 - z mod b) + b * (- (z div b))"
      by (simp add: algebra_simps)
    then have "(- z + (b - 1)) div b = - (z div b) + (b - 1 - z mod b) div b"
      using assms by (metis add.commute div_mult_self2 less_irrefl)
    also have "(b - 1 - z mod b) div b = 0"
      using \<open>0 \<le> z mod b\<close> \<open>z mod b < b\<close> by (simp add: div_pos_pos_trivial)
    finally show ?thesis by simp
  qed
  then show ?thesis
    using False assms by (simp add: signed_divide_int_def sgn_if algebra_simps)
qed (use assms in \<open>simp add: sdiv_nonneg\<close>)

text \<open>Days before the first of March of year \<open>y\<close>, and before the month in a year that starts in March.\<close>

definition year_days :: "int \<Rightarrow> int" where
  "year_days y = 365 * y + y div 4 - y div 100 + y div 400"

definition march_year :: "civil_date \<Rightarrow> int" where
  "march_year d = (if month d \<le> 2 then year d - 1 else year d)"

definition march_month :: "civil_date \<Rightarrow> int" where
  "march_month d = (if month d > 2 then month d - 3 else month d + 9)"

definition valid_date :: "civil_date \<Rightarrow> bool" where
  "valid_date d \<longleftrightarrow> 1 \<le> year d \<and> year d \<le> 9999 \<and> 1 \<le> month d \<and> month d \<le> 12 \<and>
     1 \<le> day d \<and> day d \<le> the (days_in_month (year d) (month d))"

lemma days_in_month_Some: "days_in_month y m \<noteq> None \<longleftrightarrow> 1 \<le> m \<and> m \<le> 12"
proof -
  have "1 \<le> m \<and> m \<le> 12 \<longleftrightarrow> m \<in> {1..12}" by simp
  also have "{1..12} = {1, 2, 3, 4, 5, 6, 7, 8, 9, 10, 11, 12 :: int}"
    by (auto simp: set_eq_iff) presburger
  finally show ?thesis by (simp add: days_in_month_def)
qed

lemma year_of_era_days:
  fixes y :: int
  shows "y div 400 * 146097 + ((y - y div 400 * 400) * 365 + (y - y div 400 * 400) div 4
           - (y - y div 400 * 400) div 100) = year_days y"
proof -
  have m: "y - y div 400 * 400 = y mod 400" by (simp add: minus_div_mult_eq_mod)
  have y: "y = 400 * (y div 400) + y mod 400" by simp
  have 4: "y div 4 = 100 * (y div 400) + (y mod 400) div 4"
    by (subst y) linarith
  have 100: "y div 100 = 4 * (y div 400) + (y mod 400) div 100"
    by (subst y) linarith
  have "365 * y = 365 * (400 * (y div 400)) + 365 * (y mod 400)" by (subst y) (simp only: distrib_left)
  with 4 100 show ?thesis unfolding m year_days_def by linarith
qed

text \<open>\<^verbatim>\<open>month\<close> and \<^verbatim>\<open>day\<close> are unsigned.\<close>

definition u32_fields :: "civil_date \<Rightarrow> bool" where
  "u32_fields d \<longleftrightarrow> 0 \<le> month d \<and> 0 \<le> day d"

lemma days_from_civil_closed:
  assumes u: "u32_fields d"
  shows "days_from_civil d =
     (if valid_date d
      then Some (year_days (march_year d) + (153 * march_month d + 2) div 5 + day d - 1 - 719468)
      else None)"
proof (cases "1 \<le> year d \<and> year d \<le> 9999 \<and> 1 \<le> month d \<and> month d \<le> 12 \<and> day d \<noteq> 0")
  case True
  then obtain dim where dim: "days_in_month (year d) (month d) = Some dim"
    using days_in_month_Some by (metis option.exhaust)
  have y: "0 \<le> march_year d" using True by (simp add: march_year_def)
  have mm: "month d + (if month d > 2 then - 3 else 9) = march_month d"
    by (simp add: march_month_def)
  have e: "0 \<le> march_year d - march_year d div 400 * 400"
    by (simp add: minus_div_mult_eq_mod)
  have m0: "0 \<le> 153 * march_month d + 2" using True by (simp add: march_month_def)
  show ?thesis
    unfolding days_from_civil_def march_year_def [symmetric] mm
    using u True y e m0 dim year_of_era_days [of "march_year d"]
    by (auto simp: valid_date_def Let_def sdiv_nonneg u32_fields_def)
next
  case False
  then show ?thesis
    using u days_in_month_Some [of "year d" "month d"]
    by (cases "days_in_month (year d) (month d)")
      (auto simp: days_from_civil_def valid_date_def u32_fields_def)
qed

text \<open>A year of the 400-year era in centuries, four-year cycles and years.\<close>

definition era_doe :: "int \<Rightarrow> int \<Rightarrow> int \<Rightarrow> int \<Rightarrow> int" where
  "era_doe c q r doy = 36524 * c + 1461 * q + 365 * r + doy"

definition era_ok :: "int \<Rightarrow> int \<Rightarrow> int \<Rightarrow> int \<Rightarrow> bool" where
  "era_ok c q r doy \<longleftrightarrow> 0 \<le> c \<and> c \<le> 3 \<and> 0 \<le> q \<and> q \<le> 24 \<and> 0 \<le> r \<and> r \<le> 3 \<and> 0 \<le> doy \<and>
     (doy \<le> 364 \<or> doy = 365 \<and> r = 3 \<and> (q \<le> 23 \<or> c = 3))"

definition doe_year :: "int \<Rightarrow> int" where
  "doe_year doe = (doe - doe div 1460 + doe div 36524 - doe div 146096) div 365"

lemma era_ok_range: "era_ok c q r doy \<Longrightarrow> 0 \<le> era_doe c q r doy \<and> era_doe c q r doy \<le> 146096"
  by (auto simp: era_ok_def era_doe_def)

lemma doe_year_era:
  assumes ok: "era_ok c q r doy"
  shows "doe_year (era_doe c q r doy) = 100 * c + 4 * q + r"
proof -
  define doe where "doe = era_doe c q r doy"
  define s where "s = 24 * c + q + 365 * r + doy"
  define e where "e = (if s < 1460 then 0 else 1 :: int)"
  have s: "0 \<le> s" "s < 2 * 1460" using ok by (auto simp: era_ok_def s_def)
  have "doe = s + 1460 * (25 * c + q)" by (simp add: doe_def era_doe_def s_def)
  moreover have "s div 1460 = e"
    using s by (intro int_div_pos_eq [where r = "s - 1460 * e"]) (auto simp: e_def)
  ultimately have d1: "doe div 1460 = 25 * c + q + e" by simp
  have d2: "doe div 36524 - doe div 146096 = c"
  proof (cases "doe = 146096")
    case True
    then have "c = 3" using ok by (auto simp: era_ok_def doe_def era_doe_def)
    with True show ?thesis by simp
  next
    case False
    have "doe < 36524 * c + 36524 \<or> doe = 146096" "36524 * c \<le> doe" "doe \<le> 146096"
      using ok era_ok_range [OF ok] by (auto simp: era_ok_def doe_def era_doe_def)
    with False have "doe div 36524 = c" "doe div 146096 = 0"
      using ok by (auto simp: era_ok_def intro: int_div_pos_eq [where r = "doe - 36524 * c"])
    then show ?thesis by simp
  qed
  have "doe - doe div 1460 + (doe div 36524 - doe div 146096) =
      (doy - e) + 365 * (100 * c + 4 * q + r)"
    unfolding d1 d2 by (simp add: doe_def era_doe_def)
  moreover have "0 \<le> doy - e" "doy - e < 365"
    using ok by (auto simp: era_ok_def e_def s_def)
  ultimately show ?thesis
    by (simp add: doe_year_def doe_def [symmetric] div_pos_pos_trivial add_diff_eq)
qed

lemma div_mod_small: "0 < b \<Longrightarrow> b * (a div b) \<le> a \<and> a < b * (a div b) + (b :: int)"
  by (metis add.commute add_mono_thms_linordered_field(1) div_mod_decomp_int less_add_same_cancel1
      mult.commute pos_mod_bound pos_mod_sign add_le_cancel_left add_less_cancel_left add_0_right)

lemma era_doe_exhausts:
  assumes "0 \<le> doe" "doe \<le> 146096"
  obtains c q r doy where "era_ok c q r doy" "doe = era_doe c q r doy"
proof -
  define c where "c = min (doe div 36524) 3"
  define u where "u = doe - 36524 * c"
  define q where "q = u div 1461"
  define v where "v = u mod 1461"
  define r where "r = min (v div 365) 3"
  define doy where "doy = v - 365 * r"
  have c: "0 \<le> c" "c \<le> 3" "0 \<le> u" "u \<le> 36523 \<or> u = 36524 \<and> c = 3"
    using assms div_mod_small [of 36524 doe] by (auto simp: c_def u_def min_def)
  have v: "0 \<le> v" "v \<le> 1460" "u = 1461 * q + v" by (simp_all add: v_def q_def)
  have q: "0 \<le> q" "q \<le> 24" using c by (auto simp: q_def)
  have r: "0 \<le> r" "r \<le> 3" "0 \<le> doy" "doy \<le> 364 \<or> doy = 365 \<and> r = 3"
    using v div_mod_small [of 365 v] by (auto simp: r_def doy_def min_def)
  have "era_ok c q r doy"
    using c v q r by (auto simp: era_ok_def doy_def)
  moreover have "doe = era_doe c q r doy"
    using v by (simp add: era_doe_def doy_def u_def)
  ultimately show ?thesis using that by blast
qed

lemma year_days_era:
  assumes "era_ok c q r doy"
  shows "year_days (100 * c + 4 * q + r + 400 * e) = 146097 * e + era_doe c q r 0"
proof -
  define y where "y = 100 * c + 4 * q + r + 400 * e"
  have b: "0 \<le> c" "c \<le> 3" "0 \<le> q" "q \<le> 24" "0 \<le> r" "r \<le> 3" using assms by (auto simp: era_ok_def)
  have "y div 4 = 25 * c + q + 100 * e"
    using b by (intro int_div_pos_eq [where r = r]) (auto simp: y_def)
  moreover have "y div 100 = c + 4 * e"
    using b by (intro int_div_pos_eq [where r = "4 * q + r"]) (auto simp: y_def)
  moreover have "y div 400 = e"
    using b by (intro int_div_pos_eq [where r = "100 * c + 4 * q + r"]) (auto simp: y_def)
  ultimately show ?thesis
    unfolding y_def [symmetric] year_days_def by (simp add: y_def era_doe_def)
qed

lemma leap_era:
  assumes "era_ok c q r doy" "0 < 100 * c + 4 * q + r + 400 * e + 1"
  shows "is_leap_year (100 * c + 4 * q + r + 400 * e + 1) \<longleftrightarrow> r = 3 \<and> (q \<le> 23 \<or> c = 3)"
proof -
  define y where "y = 100 * c + 4 * q + r + 400 * e + 1"
  have b: "0 \<le> c" "c \<le> 3" "0 \<le> q" "q \<le> 24" "0 \<le> r" "r \<le> 3" using assms by (auto simp: era_ok_def)
  have 4: "y mod 4 = 0 \<longleftrightarrow> r = 3"
  proof -
    have "y = ((r + 1) + 4 * (25 * c + q + 100 * e))"
      by (simp add: y_def)
    then have "y mod 4 = (r + 1) mod 4" by (simp only: mod_mult_self2)
    then show ?thesis using b by (cases "r = 3") (auto simp: mod_pos_pos_trivial)
  qed
  have 100: "y mod 100 = 0 \<longleftrightarrow> r = 3 \<and> q = 24"
  proof -
    have "y = ((4 * q + r + 1) + 100 * (c + 4 * e))"
      by (simp add: y_def)
    then have "y mod 100 = (4 * q + r + 1) mod 100" by (simp only: mod_mult_self2)
    moreover have "\<not> (r = 3 \<and> q = 24) \<Longrightarrow> 4 * q + r + 1 < 100" using b by linarith
    ultimately show ?thesis
      using b by (cases "r = 3 \<and> q = 24") (auto simp: mod_pos_pos_trivial)
  qed
  have 400: "y mod 400 = 0 \<longleftrightarrow> r = 3 \<and> q = 24 \<and> c = 3"
  proof -
    have "y = ((100 * c + 4 * q + r + 1) + 400 * e)"
      by (simp add: y_def)
    then have "y mod 400 = (100 * c + 4 * q + r + 1) mod 400" by (simp only: mod_mult_self2)
    moreover have "\<not> (r = 3 \<and> q = 24 \<and> c = 3) \<Longrightarrow> 100 * c + 4 * q + r + 1 < 400"
      using b by linarith
    ultimately show ?thesis
      using b by (cases "r = 3 \<and> q = 24 \<and> c = 3") (auto simp: mod_pos_pos_trivial)
  qed
  show ?thesis
    using assms(2) b 4 100 400 unfolding y_def [symmetric] is_leap_year_def
    by (auto simp: smod_nonneg)
qed

definition month_start :: "int \<Rightarrow> int" where
  "month_start mp = (153 * mp + 2) div 5"

text \<open>The date of day \<open>doy\<close> (from 0) of the year that starts in March of year \<open>y\<close>.\<close>

definition march_date :: "int \<Rightarrow> int \<Rightarrow> civil_date" where
  "march_date y doy =
     (let mp = (5 * doy + 2) div 153
      in \<lparr>year = (if mp < 10 then y else y + 1), month = (if mp < 10 then mp + 3 else mp - 9),
          day = doy - month_start mp + 1\<rparr>)"

definition doy_of :: "civil_date \<Rightarrow> int" where
  "doy_of d = month_start (march_month d) + day d - 1"

lemma twelve_cases:
  fixes m :: int
  assumes "0 \<le> m" "m \<le> 11"
  obtains "m = 0" | "m = 1" | "m = 2" | "m = 3" | "m = 4" | "m = 5" | "m = 6" | "m = 7" | "m = 8"
    | "m = 9" | "m = 10" | "m = 11"
proof -
  have "m = 0 \<or> m = 1 \<or> m = 2 \<or> m = 3 \<or> m = 4 \<or> m = 5 \<or> m = 6 \<or> m = 7 \<or> m = 8 \<or> m = 9 \<or>
      m = 10 \<or> m = 11"
    using assms by presburger
  with that show ?thesis by blast
qed

lemma doy_month:
  assumes "0 \<le> doy" "doy \<le> 365"
  defines "mp \<equiv> (5 * doy + 2) div 153"
  shows "0 \<le> mp \<and> mp \<le> 11" "month_start mp \<le> doy"
    "153 * mp \<le> 5 * doy + 2 \<and> 5 * doy + 2 < 153 * mp + 153"
proof -
  show b: "153 * mp \<le> 5 * doy + 2 \<and> 5 * doy + 2 < 153 * mp + 153"
    unfolding mp_def by (rule div_mod_small) simp
  show m: "0 \<le> mp \<and> mp \<le> 11" using b assms by linarith
  show "month_start mp \<le> doy"
    using m b by (elim conjE twelve_cases [of mp]) (simp_all add: month_start_def)
qed

lemma march_date_fields:
  assumes "0 \<le> doy" "doy \<le> 365"
  shows "march_year (march_date y doy) = y" "doy_of (march_date y doy) = doy"
    "u32_fields (march_date y doy)"
  using doy_month [OF assms]
  by (auto simp: march_year_def march_date_def Let_def doy_of_def march_month_def u32_fields_def)

lemma valid_march_date:
  assumes "0 \<le> doy" "doy \<le> 364 \<or> doy = 365 \<and> is_leap_year (y + 1)"
  shows "valid_date (march_date y doy) \<longleftrightarrow>
     1 \<le> year (march_date y doy) \<and> year (march_date y doy) \<le> 9999"
proof -
  define mp where "mp = (5 * doy + 2) div 153"
  have doy: "doy \<le> 365" using assms by auto
  note m = doy_month [OF assms(1) doy, folded mp_def]
  have len: "doy - month_start mp + 1 \<le>
      the (days_in_month (if mp < 10 then y else y + 1) (if mp < 10 then mp + 3 else mp - 9))"
    using m assms(2)
    by (elim conjE twelve_cases [of mp]) (auto simp: month_start_def days_in_month_def)
  show ?thesis
    using m len by (auto simp: valid_date_def march_date_def Let_def mp_def [symmetric])
qed

lemma valid_doy:
  assumes "valid_date d"
  shows "0 \<le> doy_of d" "doy_of d \<le> 364 \<or> doy_of d = 365 \<and> is_leap_year (march_year d + 1)"
    "march_date (march_year d) (doy_of d) = d"
proof -
  have m: "0 \<le> march_month d" "march_month d \<le> 11" "1 \<le> day d"
    using assms by (auto simp: march_month_def valid_date_def)
  have mo: "month d = (if march_month d < 10 then march_month d + 3 else march_month d - 9)"
    and y: "year d = (if march_month d < 10 then march_year d else march_year d + 1)"
    using assms by (auto simp: march_month_def march_year_def valid_date_def)
  have len: "day d \<le> the (days_in_month (year d) (month d))"
    using assms by (simp add: valid_date_def)
  show d0: "0 \<le> doy_of d"
    using m by (elim conjE twelve_cases [of "march_month d"]) (auto simp: doy_of_def month_start_def)
  show d1: "doy_of d \<le> 364 \<or> doy_of d = 365 \<and> is_leap_year (march_year d + 1)"
    using m(3) len unfolding mo y
    by (rule_tac twelve_cases [OF m(1,2)])
      (auto simp: doy_of_def month_start_def days_in_month_def split: if_splits)
  have mp: "(5 * doy_of d + 2) div 153 = march_month d"
    using m(3) len unfolding mo y
    by (intro int_div_pos_eq [where r = "5 * doy_of d + 2 - 153 * march_month d"],
        rule_tac [2-] twelve_cases [OF m(1,2)])
      (auto simp: doy_of_def month_start_def days_in_month_def split: if_splits)
  show "march_date (march_year d) (doy_of d) = d"
    unfolding march_date_def mp Let_def using mo y
    by (cases d) (simp add: doy_of_def)
qed

lemma days_from_civil_doy:
  "u32_fields d \<Longrightarrow> days_from_civil d =
     (if valid_date d then Some (year_days (march_year d) + doy_of d - 719468) else None)"
  by (simp add: days_from_civil_closed doy_of_def month_start_def)

lemma civil_from_days_era:
  assumes ok: "era_ok c q r doy" and n: "n + 719468 = 146097 * e + era_doe c q r doy"
    and i: "is_i64 (n + 719468)"
  defines "d \<equiv> march_date (100 * c + 4 * q + r + 400 * e) doy"
  shows "civil_from_days n = (if valid_date d then Some d else None)"
proof -
  define z where "z = n + 719468"
  define doe where "doe = era_doe c q r doy"
  define yoe where "yoe = 100 * c + 4 * q + r"
  define mp where "mp = (5 * doy + 2) div 153"
  have r: "0 \<le> doe" "doe \<le> 146096" using era_ok_range [OF ok] by (simp_all add: doe_def)
  have z: "z = 146097 * e + doe" using n by (simp add: z_def doe_def)
  have era: "(if z \<ge> 0 then z else z - 146096) sdiv 146097 = e"
  proof -
    have "z div 146097 = e" using r by (intro int_div_pos_eq [where r = doe]) (simp_all add: z)
    then show ?thesis using sdiv_floor [of 146097 z] by (cases "0 \<le> z") simp_all
  qed
  have doy: "0 \<le> doy" "doy \<le> 365" using ok by (auto simp: era_ok_def)
  have y: "0 \<le> yoe" using ok by (auto simp: era_ok_def yoe_def)
  have b: "0 \<le> doe - doe div 1460 + doe div 36524 - doe div 146096"
    using div_mod_small [of 1460 doe] div_mod_small [of 36524 doe] div_mod_small [of 146096 doe] r
    by linarith
  have yoe: "(doe - doe sdiv 1460 + doe sdiv 36524 - doe sdiv 146096) sdiv 365 = yoe"
    using doe_year_era [OF ok] r b by (simp add: sdiv_nonneg doe_year_def doe_def yoe_def)
  have "doe - (365 * yoe + yoe div 4 - yoe div 100) = doy"
    using year_days_era [OF ok, of 0] ok
    by (simp add: year_days_def yoe_def doe_def era_doe_def era_ok_def div_pos_pos_trivial)
  then have doy_eq: "doe - (365 * yoe + yoe sdiv 4 - yoe sdiv 100) = doy"
    using y by (simp add: sdiv_nonneg)
  note m = doy_month [OF doy, folded mp_def]
  have mp: "(5 * doy + 2) sdiv 153 = mp" "(153 * mp + 2) sdiv 5 = month_start mp"
    using doy m by (simp_all add: sdiv_nonneg mp_def month_start_def)
  have mm: "(if mp + (if mp < 10 then 3 else - 9) \<le> 2 then yoe + e * 400 + 1 else yoe + e * 400)
      = year d" "mp + (if mp < 10 then 3 else - 9) = month d" "doy - month_start mp + 1 = day d"
    using m by (auto simp: d_def march_date_def Let_def mp_def [symmetric] yoe_def)
  have u: "u32_fields d" unfolding d_def by (rule march_date_fields [OF doy])
  have bnd: "month d < 2 ^ 32"
    unfolding mm(2) [symmetric] using m by auto
  have "0 \<le> month_start mp" unfolding month_start_def using m(1) by (intro pos_imp_zdiv_nonneg_iff [THEN iffD2]) auto
  then have bnd2: "day d < 2 ^ 32"
    unfolding mm(3) [symmetric] using doy by auto
  have chk: "checked z = Some z" using i by (simp add: checked_def z_def)
  have dz: "z - e * 146097 = doe" using z by simp
  have "civil_from_days n =
     Option.bind (try_i32 (year d)) (\<lambda>yy. Option.bind (try_u32 (month d)) (\<lambda>m.
       Option.bind (try_u32 (day d)) (\<lambda>dd.
         map_option (\<lambda>_. \<lparr>year = yy, month = m, day = dd\<rparr>)
           (days_from_civil \<lparr>year = yy, month = m, day = dd\<rparr>))))"
    unfolding civil_from_days_def z_def [symmetric] chk bind.bind_lunit Let_def era dz yoe doy_eq
      mp mm(2,3) mm(1) [unfolded mm(2)] by (rule refl)
  then show ?thesis
    using u bnd bnd2 by (auto simp: try_i32_def try_u32_def days_from_civil_doy u32_fields_def valid_date_def)
qed

lemma year_days_mono: "a \<le> b \<Longrightarrow> year_days a \<le> year_days b"
proof -
  have step: "year_days y \<le> year_days (y + 1)" for y
    using zdiv_mono1 [of y "y + 1" 4] zdiv_mono1 [of y "y + 1" 400] div_mod_small [of 100 y]
      div_mod_small [of 100 "y + 1"] by (auto simp: year_days_def)
  show "a \<le> b \<Longrightarrow> year_days a \<le> year_days b"
    by (induction b rule: int_ge_induct) (auto intro: order_trans step)
qed

lemma civil_iff_days:
  assumes u: "u32_fields d"
  shows "civil_from_days n = Some d \<longleftrightarrow> days_from_civil d = Some n"
proof
  assume c: "civil_from_days n = Some d"
  then have i: "is_i64 (n + 719468)"
    by (simp add: civil_from_days_def checked_def split: if_splits)
  define e where "e = (n + 719468) div 146097"
  have "0 \<le> (n + 719468) mod 146097" "(n + 719468) mod 146097 \<le> 146096" by simp_all
  then obtain c q r doy where ok: "era_ok c q r doy"
    and doe: "(n + 719468) mod 146097 = era_doe c q r doy"
    by (rule era_doe_exhausts)
  have n: "n + 719468 = 146097 * e + era_doe c q r doy"
    unfolding doe [symmetric] e_def by simp
  let ?y = "100 * c + 4 * q + r + 400 * e"
  have d: "d = march_date ?y doy" and v: "valid_date d"
    using c unfolding civil_from_days_era [OF ok n i] by (auto split: if_splits)
  have doy: "0 \<le> doy" "doy \<le> 365" using ok by (auto simp: era_ok_def)
  show "days_from_civil d = Some n"
    using v n march_date_fields [OF doy, of ?y, folded d] year_days_era [OF ok, of e]
    by (simp add: days_from_civil_doy era_doe_def)
next
  assume dn: "days_from_civil d = Some n"
  then have v: "valid_date d" and n: "n + 719468 = year_days (march_year d) + doy_of d"
    by (auto simp: days_from_civil_doy [OF u] split: if_splits)
  define y where "y = march_year d"
  define e where "e = y div 400"
  define m where "m = y mod 400"
  define q where "q = m mod 100 div 4"
  have y: "0 \<le> y" "y \<le> 9999" using v by (auto simp: y_def march_year_def valid_date_def)
  define r where "r = m mod 100 mod 4"
  have m: "m = 100 * (m div 100) + 4 * q + r"
  proof -
    have "m mod 100 = 4 * q + r" by (simp add: q_def r_def)
    then show ?thesis using div_mult_mod_eq [of m 100] by simp
  qed
  have ye: "y = 100 * (m div 100) + 4 * q + r + 400 * e"
    using m by (simp add: m_def e_def)
  have b: "0 \<le> m div 100" "m div 100 \<le> 3" "0 \<le> q" "q \<le> 24" "0 \<le> r" "r \<le> 3"
    by (auto simp: m_def q_def r_def)
  have leap: "is_leap_year (y + 1) \<longleftrightarrow> r = 3 \<and> (q \<le> 23 \<or> m div 100 = 3)"
    using leap_era [of "m div 100" q "r" 0 e] b y(1) ye by (simp add: era_ok_def)
  have ok: "era_ok (m div 100) q (r) (doy_of d)"
    using b valid_doy [OF v] leap by (auto simp: era_ok_def y_def)
  have ne: "n + 719468 = 146097 * e + era_doe (m div 100) q (r) (doy_of d)"
    using year_days_era [OF ok, of e] n ye by (simp add: y_def era_doe_def)
  have "year_days 0 \<le> year_days y" "year_days y \<le> year_days 9999"
    using y by (simp_all only: year_days_mono)
  then have "is_i64 (n + 719468)"
    using n valid_doy(1,2) [OF v] by (auto simp: is_i64_def y_def year_days_def)
  then show "civil_from_days n = Some d"
    unfolding civil_from_days_era [OF ok ne] using v valid_doy(3) [OF v] ye
    by (simp add: civil_from_days_era [OF ok ne] y_def)
qed

text \<open>The calendar day after a date, by the lengths of the months.\<close>

definition next_day :: "civil_date \<Rightarrow> civil_date" where
  "next_day d =
     (if day d < the (days_in_month (year d) (month d)) then d\<lparr>day := day d + 1\<rparr>
      else if month d < 12 then \<lparr>year = year d, month = month d + 1, day = 1\<rparr>
      else \<lparr>year = year d + 1, month = 1, day = 1\<rparr>)"

lemma div_add_one:
  assumes "0 < (k :: int)"
  shows "(y + 1) div k = y div k + (if (y + 1) mod k = 0 then 1 else 0)"
proof -
  define a where "a = y mod k"
  have a: "0 \<le> a" "a < k" "y = k * (y div k) + a" using assms by (simp_all add: a_def)
  show ?thesis
  proof (cases "a = k - 1")
    case True
    then have "y + 1 = k * (y div k + 1)" using a(3) by (simp add: algebra_simps)
    then show ?thesis using assms by simp
  next
    case False
    then have "y + 1 = k * (y div k) + (a + 1)" "0 < a + 1" "a + 1 < k" using a by auto
    then have "(y + 1) div k = y div k" "(y + 1) mod k = a + 1"
      by (metis int_div_pos_eq less_imp_le, metis int_mod_pos_eq less_imp_le)
    then show ?thesis using \<open>0 < a + 1\<close> by simp
  qed
qed

lemma year_days_next:
  assumes "0 \<le> y"
  shows "year_days (y + 1) = year_days y + (if is_leap_year (y + 1) then 366 else 365)"
proof -
  define z where "z = y + 1"
  define A B C where "A \<longleftrightarrow> z mod 4 = 0" and "B \<longleftrightarrow> z mod 100 = 0" and "C \<longleftrightarrow> z mod 400 = 0"
  have CB: "C \<longrightarrow> B"
    unfolding B_def C_def mod_eq_0_iff_dvd by (intro impI) (erule dvd_trans [rotated], simp)
  have BA: "B \<longrightarrow> A"
    unfolding A_def B_def mod_eq_0_iff_dvd by (intro impI) (erule dvd_trans [rotated], simp)
  have leap: "is_leap_year z \<longleftrightarrow> A \<and> (\<not> B \<or> C)"
    using assms by (simp add: is_leap_year_def smod_nonneg z_def A_def B_def C_def)
  have b: "(if A then 1 else 0) - (if B then 1 else 0) + (if C then 1 else 0) =
      (if is_leap_year z then 1 else 0 :: int)"
    unfolding leap using CB BA by (cases A; cases B; cases C) simp_all
  have d: "z div k = y div k + (if z mod k = 0 then 1 else 0)" if "0 < k" for k
    unfolding z_def using that by (rule div_add_one)
  have d4: "z div 4 = y div 4 + (if A then 1 else 0)" unfolding A_def by (rule d) simp
  have d100: "z div 100 = y div 100 + (if B then 1 else 0)" unfolding B_def by (rule d) simp
  have d400: "z div 400 = y div 400 + (if C then 1 else 0)" unfolding C_def by (rule d) simp
  have sum: "365 * z + a - b + c = 365 * y + a' - b' + c' + 365 + l"
    if "u - v + w = l" "a = a' + u" "b = b' + v" "c = c' + w"
    for a b c a' b' c' u v w l :: int using that by (simp add: z_def)
  show ?thesis
    unfolding z_def [symmetric] year_days_def sum [OF b d4 d100 d400] by simp
qed

lemma valid_u32: "valid_date d \<Longrightarrow> u32_fields d"
  by (simp add: valid_date_def u32_fields_def)

lemma valid_days: "valid_date d \<Longrightarrow>
    days_from_civil d = Some (year_days (march_year d) + doy_of d - 719468)"
  by (simp add: days_from_civil_doy valid_u32)

lemma month_end_doy:
  assumes "1 \<le> m" "m < 12" "m \<noteq> 2"
  shows "doy_of \<lparr>year = y, month = m + 1, day = 1\<rparr> =
    doy_of \<lparr>year = y, month = m, day = the (days_in_month y m)\<rparr> + 1"
  using assms by (rule_tac twelve_cases [of m])
    (simp_all add: doy_of_def month_start_def march_month_def days_in_month_def)

lemma next_day_days:
  assumes v: "valid_date d" and v': "valid_date (next_day d)"
  shows "days_from_civil (next_day d) = map_option (\<lambda>n. n + 1) (days_from_civil d)"
proof -
  let ?dim = "the (days_in_month (year d) (month d))"
  have b: "1 \<le> year d" "1 \<le> month d" "month d \<le> 12" "day d \<le> ?dim"
    using v by (auto simp: valid_date_def)
  have "year_days (march_year (next_day d)) + doy_of (next_day d) =
      year_days (march_year d) + doy_of d + 1"
  proof (cases "day d < ?dim")
    case True
    then show ?thesis
      by (simp add: next_day_def march_year_def march_month_def doy_of_def)
  next
    case False
    with b have dd: "day d = ?dim" by simp
    then have d: "d = \<lparr>year = year d, month = month d, day = ?dim\<rparr>" by (cases d) simp
    consider "month d = 2" | "month d = 12" | "month d < 12" "month d \<noteq> 2" using b by linarith
    then show ?thesis
    proof cases
      case 1
      then have "doy_of d = (if is_leap_year (year d) then 365 else 364)"
        using dd by (simp add: doy_of_def month_start_def march_month_def days_in_month_def)
      moreover have "year_days (year d) =
          year_days (year d - 1) + (if is_leap_year (year d) then 366 else 365)"
        using year_days_next [of "year d - 1"] b by simp
      ultimately show ?thesis
        using 1 False
        by (simp add: next_day_def march_year_def march_month_def doy_of_def month_start_def)
    next
      case 2
      then show ?thesis
        using False dd
        by (simp add: next_day_def march_year_def march_month_def doy_of_def month_start_def
            days_in_month_def)
    next
      case 3
      then have "doy_of (next_day d) = doy_of d + 1"
        using month_end_doy [OF b(2) 3, of "year d"] d False by (simp add: next_day_def)
      moreover have "march_year (next_day d) = march_year d"
        using 3 False b by (simp add: next_day_def march_year_def)
      ultimately show ?thesis by simp
    qed
  qed
  then show ?thesis by (simp add: valid_days v v')
qed

lemma date_Some: "date y m d = Some v \<Longrightarrow> v = \<lparr>year = y, month = m, day = d\<rparr>"
  by (auto simp: date_def Let_def)

lemma date_Some_valid: "0 \<le> m \<Longrightarrow> 0 \<le> d \<Longrightarrow> date y m d = Some v \<Longrightarrow> valid_date v"
  by (auto simp: date_def Let_def days_from_civil_doy u32_fields_def split: if_splits)

lemma month_of_length:
  assumes mo: "month_of y m = Some (l, h)" and m: "0 \<le> m"
  obtains n dim where "days_from_civil \<lparr>year = y, month = m, day = 1\<rparr> = Some n" "l = n * DAY"
    "days_in_month y m = Some dim" "h = (n + dim) * DAY - 1" "28 \<le> dim"
proof -
  obtain f g where f: "date y m 1 = Some f"
    and g: "(if m = 12 then date (y + 1) 1 1 else date y (m + 1) 1) = Some g"
    and l: "l = fst (day_bounds f)" and h: "h = fst (day_bounds g) - 1"
    using mo by (auto simp: month_of_def bind_eq_Some_conv)
  have vf: "valid_date f" using f m by (auto intro: date_Some_valid [of m 1])
  have vg: "valid_date g" using g m date_Some_valid [of 1 1] date_Some_valid [of "m + 1" 1] by (simp split: if_splits)
  have fe: "f = \<lparr>year = y, month = m, day = 1\<rparr>" using f by (rule date_Some)
  have mb: "1 \<le> m" "m \<le> 12" using vf fe by (auto simp: valid_date_def)
  then obtain dim where dim: "days_in_month y m = Some dim"
    using days_in_month_Some [of y m] by auto
  then have d28: "28 \<le> dim" by (auto simp: days_in_month_def split: if_splits)
  define e where "e = f\<lparr>day := dim\<rparr>"
  have ve: "valid_date e" using vf fe dim d28 by (simp add: e_def valid_date_def)
  have ge: "next_day e = g"
    using g mb by (auto simp: next_day_def e_def fe dim dest: date_Some split: if_splits)
  obtain n where n: "days_from_civil f = Some n" using vf by (simp add: valid_days)
  then have "days_from_civil e = Some (n + dim - 1)"
    using valid_days [OF vf] valid_days [OF ve]
    by (cases "m \<le> 2") (simp_all add: e_def fe march_year_def doy_of_def march_month_def)
  then have "days_from_civil g = Some (n + dim)"
    using next_day_days [OF ve] vg ge by simp
  then show ?thesis
    using that [of n dim] n dim d28 l h by (simp add: fe day_bounds_def Let_def)
qed

section \<open>Ranges\<close>

definition whole_days :: "date_range \<Rightarrow> bool" where
  "whole_days r \<longleftrightarrow> DAY dvd lo r \<and> DAY dvd hi r + 1 \<and> lo r < hi r"

lemma whole_days_range: "a < b \<Longrightarrow> whole_days \<lparr>lo = a * DAY, hi = b * DAY - 1\<rparr>"
proof -
  assume "a < b"
  then have "(a + 1) * DAY \<le> b * DAY" by (intro mult_right_mono) (auto simp: DAY_def)
  then show ?thesis by (simp add: whole_days_def DAY_def)
qed

lemma range_of_pair: "range_of (a, b) = \<lparr>lo = a, hi = b\<rparr>"
  by (simp add: range_of_def)

lemma for_each_SomeD: "for_each f xs = Some r \<Longrightarrow> \<exists>x \<in> set xs. f x = Some r"
  by (induction xs) (auto split: option.splits)

lemma day_bounds_whole: "whole_days (range_of (day_bounds v))"
  using whole_days_range [of n "n + 1" for n]
  by (simp add: day_bounds_def Let_def distrib_right add_diff_eq range_of_pair)

lemma week_of_whole: "week_of v = Some p \<Longrightarrow> whole_days (range_of p)"
proof -
  assume "week_of v = Some p"
  then obtain n where "p = ((n - (n + 3) mod 7) * DAY, (n - (n + 3) mod 7) * DAY + 7 * DAY - 1)"
    by (auto simp: week_of_def bind_eq_Some_conv Let_def)
  then show ?thesis
    using whole_days_range [of "n - (n + 3) mod 7" "n - (n + 3) mod 7 + 7"]
    by (simp add: distrib_right range_of_pair)
qed

lemma month_of_whole: "month_of y m = Some p \<Longrightarrow> 0 \<le> m \<Longrightarrow> whole_days (range_of p)"
proof -
  assume mo: "month_of y m = Some p" and m: "0 \<le> m"
  obtain l h where p: "p = (l, h)" by fastforce
  obtain n dim where "l = n * DAY" "h = (n + dim) * DAY - 1" "28 \<le> dim"
    using month_of_length [OF mo [unfolded p] m] by blast
  then show ?thesis using whole_days_range [of n "n + dim"] by (simp add: p range_of_pair)
qed

lemma valid_bounds: "valid_date v \<Longrightarrow>
    fst (day_bounds v) = (year_days (march_year v) + doy_of v - 719468) * DAY"
  by (simp add: day_bounds_def Let_def valid_days)

lemma year_of_SomeD:
  assumes "year_of y = Some (l, h)"
  shows "l = (year_days (y - 1) + 306 - 719468) * DAY" "h = (year_days y + 306 - 719468) * DAY - 1"
    "1 \<le> y"
proof -
  obtain a b where a: "date y 1 1 = Some a" and b: "date (y + 1) 1 1 = Some b"
    and lh: "l = fst (day_bounds a)" "h = fst (day_bounds b) - 1"
    using assms by (auto simp: year_of_def bind_eq_Some_conv)
  have v: "valid_date a" "valid_date b" using a b date_Some_valid [of 1 1] by simp_all
  then show "l = (year_days (y - 1) + 306 - 719468) * DAY"
    "h = (year_days y + 306 - 719468) * DAY - 1" "1 \<le> y"
    unfolding lh valid_bounds [OF v(1)] valid_bounds [OF v(2)]
    using date_Some [OF a] date_Some [OF b]
    by (simp_all add: march_year_def doy_of_def march_month_def month_start_def valid_date_def)
qed

lemma year_of_whole: "year_of y = Some p \<Longrightarrow> whole_days (range_of p)"
proof -
  assume y: "year_of y = Some p"
  obtain l h where p: "p = (l, h)" by fastforce
  note d = year_of_SomeD [OF y [unfolded p]]
  then have "year_days (y - 1) + 306 - 719468 < year_days y + 306 - 719468"
    using year_days_next [of "y - 1"] by (simp split: if_splits)
  from whole_days_range [OF this] show ?thesis by (simp only: p d range_of_pair)
qed

text \<open>The number of the first day of a month.\<close>

definition month_first :: "int \<Rightarrow> int \<Rightarrow> int" where
  "month_first y m = year_days (if m \<le> 2 then y - 1 else y)
     + month_start (if 2 < m then m - 3 else m + 9) - 719468"

lemma month_of_start:
  assumes mo: "month_of y m = Some (l, h)" and m: "0 \<le> m"
  shows "l = month_first y m * DAY" "1 \<le> y"
proof -
  let ?f = "\<lparr>year = y, month = m, day = 1\<rparr>"
  obtain n dim where n: "days_from_civil ?f = Some n" "l = n * DAY"
    using month_of_length [OF mo m] by metis
  then have v: "valid_date ?f"
    using m by (simp add: days_from_civil_doy u32_fields_def split: if_splits)
  then show "1 \<le> y" by (simp add: valid_date_def)
  show "l = month_first y m * DAY"
    using n valid_days [OF v]
    by (cases "m \<le> 2") (simp_all add: march_year_def doy_of_def march_month_def month_first_def)
qed

lemma quarter_firsts:
  "1 \<le> y \<Longrightarrow> month_first y 1 < month_first y 4" "month_first y 4 < month_first y 7"
  "month_first y 7 < month_first y 10" "month_first y 10 < month_first (y + 1) 1"
  using year_days_next [of "y - 1"]
  by (auto simp: month_first_def month_start_def split: if_splits)

lemma quarter_whole:
  assumes q: "quarter_range y k = Some r" and k: "1 \<le> k" "k \<le> 4"
  shows "whole_days r"
proof -
  obtain a b c d where
    m1: "month_of y ((k - 1) * 3 + 1) = Some (a, b)"
    and m2: "(if k = 4 then month_of (y + 1) 1 else month_of y ((k - 1) * 3 + 1 + 3)) = Some (c, d)"
    and r: "r = \<lparr>lo = a, hi = c - 1\<rparr>"
    using q by (fastforce simp: quarter_range_def bind_eq_Some_conv Let_def)
  have y: "1 \<le> y" and a: "a = month_first y ((k - 1) * 3 + 1) * DAY"
    using month_of_start [OF m1] k by simp_all
  have c: "c = (if k = 4 then month_first (y + 1) 1 else month_first y ((k - 1) * 3 + 1 + 3)) * DAY"
    using month_of_start [of _ _ c d] m2 k by (simp split: if_splits)
  consider "k = 1" | "k = 2" | "k = 3" | "k = 4" using k by linarith
  then have "month_first y ((k - 1) * 3 + 1) <
      (if k = 4 then month_first (y + 1) 1 else month_first y ((k - 1) * 3 + 1 + 3))"
    by cases (simp_all add: quarter_firsts y)
  then show ?thesis unfolding r a c by (rule whole_days_range)
qed

section \<open>Properties\<close>

lemma try_u32_nonneg: "try_u32 v = Some w \<Longrightarrow> 0 \<le> w"
  by (simp add: try_u32_def split: if_splits)

lemma civil_u32: "civil_from_days n = Some d \<Longrightarrow> u32_fields d"
  unfolding civil_from_days_def Let_def bind_eq_Some_conv map_option_eq_Some
  by (elim exE conjE) (drule try_u32_nonneg, drule try_u32_nonneg, hypsubst,
      simp only: u32_fields_def civil_date.select_convs simp_thms)

lemma civil_days: "civil_from_days n = Some d \<Longrightarrow> days_from_civil d = Some n \<and> valid_date d"
  using civil_u32 [of n d] civil_iff_days [of d n]
  by (auto simp: days_from_civil_doy split: if_splits)

text \<open>C15. \<^verbatim>\<open>civil_from_days\<close> and \<^verbatim>\<open>days_from_civil\<close> are inverse to each other: a day number has
  the date \<open>d\<close> exactly when \<open>d\<close> has that day number, and exactly the real dates of the years 1 to
  9999 have one.\<close>

theorem civil_days_inverse:
  assumes "u32_fields d"
  shows "(civil_from_days n = Some d \<longleftrightarrow> days_from_civil d = Some n) \<and>
     ((\<exists>n. days_from_civil d = Some n) \<longleftrightarrow> valid_date d)"
  using civil_iff_days [OF assms] by (simp add: days_from_civil_doy [OF assms])

theorem civil_days_inverse_witness:
  "civil_from_days 19782 = Some \<lparr>year = 2024, month = 2, day = 29\<rparr>"
proof -
  have "days_from_civil \<lparr>year = 2024, month = 2, day = 29\<rparr> = Some 19782" by code_simp
  then show ?thesis
    using civil_days_inverse [of "\<lparr>year = 2024, month = 2, day = 29\<rparr>" 19782]
    by (simp add: u32_fields_def)
qed

text \<open>The day numbers count days: 1 January 1970 is day 0, and the day after a date, by the
  lengths of the months and the leap-year rule, has the next number.\<close>

theorem day_numbers_count_days:
  assumes "valid_date d" "valid_date (next_day d)"
  shows "days_from_civil \<lparr>year = 1970, month = 1, day = 1\<rparr> = Some 0 \<and>
     days_from_civil (next_day d) = map_option (\<lambda>n. n + 1) (days_from_civil d)"
proof
  show "days_from_civil \<lparr>year = 1970, month = 1, day = 1\<rparr> = Some 0" by code_simp
qed (rule next_day_days [OF assms])

theorem day_numbers_count_days_witness:
  "next_day \<lparr>year = 1999, month = 12, day = 31\<rparr> = \<lparr>year = 2000, month = 1, day = 1\<rparr> \<and>
   days_from_civil \<lparr>year = 2000, month = 1, day = 1\<rparr> =
     map_option (\<lambda>n. n + 1) (days_from_civil \<lparr>year = 1999, month = 12, day = 31\<rparr>)"
proof -
  have n: "next_day \<lparr>year = 1999, month = 12, day = 31\<rparr> = \<lparr>year = 2000, month = 1, day = 1\<rparr>"
    by code_simp
  have "valid_date \<lparr>year = 1999, month = 12, day = 31\<rparr>" "valid_date \<lparr>year = 2000, month = 1, day = 1\<rparr>"
    by code_simp+
  then show ?thesis
    using day_numbers_count_days [of "\<lparr>year = 1999, month = 12, day = 31\<rparr>"] n by simp
qed

lemma in_range_DAY: "a \<le> now div DAY \<Longrightarrow> now div DAY < b \<Longrightarrow> a * DAY \<le> now \<and> now \<le> b * DAY - 1"
  unfolding DAY_def by linarith

lemma date_in_year:
  assumes v: "valid_date d" and n: "days_from_civil d = Some n"
  shows "year_days (year d - 1) + 306 - 719468 \<le> n" "n < year_days (year d) + 306 - 719468"
proof -
  have y: "1 \<le> year d" and m: "1 \<le> month d" "month d \<le> 12" using v by (auto simp: valid_date_def)
  have nn: "n = year_days (march_year d) + doy_of d - 719468" using n valid_days [OF v] by simp
  have inc: "year_days (year d - 1) + 365 \<le> year_days (year d)"
    using year_days_next [of "year d - 1"] y by (simp split: if_splits)
  have early: "month d \<le> 2 \<Longrightarrow> 306 \<le> doy_of d"
    using m v by (cases "month d = 1")
      (auto simp: doy_of_def month_start_def march_month_def valid_date_def)
  have late: "2 < month d \<Longrightarrow> doy_of d < 306"
  proof -
    assume "2 < month d"
    then have mm: "0 \<le> march_month d" "march_month d \<le> 11" "march_month d \<le> 9"
      "month d = march_month d + 3"
      using m by (auto simp: march_month_def)
    have dd: "day d \<le> the (days_in_month (year d) (march_month d + 3))"
      using v mm(4) by (simp add: valid_date_def)
    show "doy_of d < 306"
      using mm(3) dd unfolding doy_of_def
      by (rule_tac twelve_cases [OF mm(1,2)]) (simp_all add: month_start_def days_in_month_def)
  qed
  have "0 \<le> doy_of d" "doy_of d \<le> 365" using valid_doy(1,2) [OF v] by auto
  then show "year_days (year d - 1) + 306 - 719468 \<le> n" "n < year_days (year d) + 306 - 719468"
    using nn inc early late by (cases "month d \<le> 2"; simp add: march_year_def)+
qed

lemma date_in_month:
  assumes v: "valid_date d" and n: "days_from_civil d = Some n"
    and f: "days_from_civil \<lparr>year = year d, month = month d, day = 1\<rparr> = Some k"
  shows "n = k + day d - 1"
proof -
  let ?f = "\<lparr>year = year d, month = month d, day = 1\<rparr>"
  have vf: "valid_date ?f"
    using f v by (simp add: days_from_civil_doy u32_fields_def valid_date_def split: if_splits)
  have "march_year ?f = march_year d" "march_month ?f = march_month d"
    by (simp_all add: march_year_def march_month_def)
  then show ?thesis
    using n f valid_days [OF v] valid_days [OF vf] by (simp add: doy_of_def)
qed

lemma date_first_defined:
  assumes "1 \<le> y" "y \<le> 9999" "1 \<le> m" "m \<le> 12"
  shows "\<exists>v. date y m 1 = Some v"
proof -
  have "1 \<le> the (days_in_month y m)"
    using days_in_month_Some [of y m] assms by (auto simp: days_in_month_def split: if_splits)
  then show ?thesis
    using assms by (simp add: date_def Let_def days_from_civil_doy u32_fields_def valid_date_def)
qed

definition contains_time :: "int \<times> int \<Rightarrow> int \<Rightarrow> bool" where
  "contains_time p t \<longleftrightarrow> fst p \<le> t \<and> t \<le> snd p"

lemma day_contains:
  assumes "days_from_civil d = Some (now div DAY)"
  shows "contains_time (day_bounds d) now"
  using in_range_DAY [of "now div DAY" now "now div DAY + 1"]
  by (simp add: contains_time_def day_bounds_def assms Let_def distrib_right)

lemma week_contains:
  assumes n: "days_from_civil d = Some (now div DAY)"
  obtains l where "week_of d = Some (l * DAY, (l + 7) * DAY - 1)"
    "contains_time (l * DAY, (l + 7) * DAY - 1) now" "(l + 3) mod 7 = 0"
proof
  define n where "n = now div DAY"
  define l where "l = n - (n + 3) mod 7"
  have "0 \<le> (n + 3) mod 7" "(n + 3) mod 7 < 7" by simp_all
  then have b: "l \<le> n" "n < l + 7" by (simp_all add: l_def)
  show "week_of d = Some (l * DAY, (l + 7) * DAY - 1)"
    by (simp add: week_of_def assms Let_def n_def l_def distrib_right)
  show "contains_time (l * DAY, (l + 7) * DAY - 1) now"
    using in_range_DAY [of l now "l + 7"] b by (simp add: contains_time_def n_def)
  show "(l + 3) mod 7 = 0"
    using minus_mod_eq_mult_div [of "n + 3" 7] by (simp add: l_def algebra_simps)
qed

lemma month_contains:
  assumes v: "valid_date d" and n: "days_from_civil d = Some (now div DAY)"
    and mo: "month_of (year d) (month d) = Some p"
  shows "contains_time p now \<and> days_in_month (year d) (month d) = Some ((snd p + 1 - fst p) div DAY)"
proof -
  obtain l h where p: "p = (l, h)" by fastforce
  have b: "0 \<le> month d" "1 \<le> day d" using v by (auto simp: valid_date_def)
  obtain k dim where k: "days_from_civil \<lparr>year = year d, month = month d, day = 1\<rparr> = Some k"
      "l = k * DAY" "days_in_month (year d) (month d) = Some dim" "h = (k + dim) * DAY - 1"
    using month_of_length [OF mo [unfolded p] b(1)] by metis
  have "day d \<le> dim" using v k(3) by (simp add: valid_date_def)
  then have "l \<le> now \<and> now \<le> h"
    unfolding k(2,4) using date_in_month [OF v n k(1)] b by (intro in_range_DAY) simp_all
  moreover have "(h + 1 - l) div DAY = dim" unfolding k(2,4) by (simp add: distrib_right DAY_def)
  ultimately show ?thesis by (simp add: p k(3) contains_time_def)
qed

lemma year_contains:
  assumes v: "valid_date d" and n: "days_from_civil d = Some (now div DAY)"
    and y: "year_of (year d) = Some p"
  shows "contains_time p now"
proof -
  obtain l h where p: "p = (l, h)" by fastforce
  note lh = year_of_SomeD [OF y [unfolded p]]
  have "l \<le> now \<and> now \<le> h" unfolding lh(1,2) by (intro in_range_DAY date_in_year [OF v n])
  then show ?thesis by (simp add: p contains_time_def)
qed

lemma month_of_None: "valid_date d \<Longrightarrow> month_of (year d) (month d) = None \<Longrightarrow>
    year d = 9999 \<and> month d = 12"
  using date_first_defined [of "year d" "month d"] date_first_defined [of "year d + 1" 1]
    date_first_defined [of "year d" "month d + 1"]
  by (cases "month d = 12"; cases "year d = 9999")
    (auto simp: month_of_def bind_eq_None_conv valid_date_def)

lemma year_of_None: "valid_date d \<Longrightarrow> year_of (year d) = None \<Longrightarrow> year d = 9999"
  using date_first_defined [of "year d" 1] date_first_defined [of "year d + 1" 1]
  by (cases "year d = 9999") (auto simp: year_of_def bind_eq_None_conv valid_date_def)

text \<open>The day, the Monday-based week, the month and the year that the calendar gives for the
  current time contain it; the week starts on a Monday and the month has the right length. The
  last month and the last year of the supported era have no range: their end would be the year
  10000.\<close>

theorem periods_contain_now:
  assumes today: "civil_from_days (now div DAY) = Some today"
  shows "contains_time (day_bounds today) now \<and>
     (\<exists>l. week_of today = Some (l * DAY, (l + 7) * DAY - 1) \<and>
        contains_time (l * DAY, (l + 7) * DAY - 1) now \<and> (l + 3) mod 7 = 0) \<and>
     (case month_of (year today) (month today) of
        Some p \<Rightarrow> contains_time p now \<and>
          days_in_month (year today) (month today) = Some ((snd p + 1 - fst p) div DAY)
      | None \<Rightarrow> year today = 9999 \<and> month today = 12) \<and>
     (case year_of (year today) of
        Some p \<Rightarrow> contains_time p now
      | None \<Rightarrow> year today = 9999)"
proof -
  have n: "days_from_civil today = Some (now div DAY)" and v: "valid_date today"
    using civil_days [OF today] by auto
  have w: "\<exists>l. week_of today = Some (l * DAY, (l + 7) * DAY - 1) \<and>
      contains_time (l * DAY, (l + 7) * DAY - 1) now \<and> (l + 3) mod 7 = 0"
    by (rule week_contains [OF n]) (intro exI conjI)
  show ?thesis
  proof (intro conjI)
    show "contains_time (day_bounds today) now" by (rule day_contains [OF n])
    show "\<exists>l. week_of today = Some (l * DAY, (l + 7) * DAY - 1) \<and>
      contains_time (l * DAY, (l + 7) * DAY - 1) now \<and> (l + 3) mod 7 = 0" by (rule w)
  qed (auto dest: month_contains [OF v n] month_of_None [OF v] year_contains [OF v n]
      year_of_None [OF v] split: option.split)
qed

theorem periods_contain_now_witness:
  "contains_time (day_bounds \<lparr>year = 2023, month = 11, day = 14\<rparr>) 1700000000"
proof -
  have "days_from_civil \<lparr>year = 2023, month = 11, day = 14\<rparr> = Some 19675" by code_simp
  then have "civil_from_days (1700000000 div DAY) = Some \<lparr>year = 2023, month = 11, day = 14\<rparr>"
    by (simp add: civil_iff_days u32_fields_def DAY_def)
  from periods_contain_now [OF this] show ?thesis by blast
qed

lemma month_num_pos: "month_num w = Some m \<Longrightarrow> 0 \<le> m"
  by (auto simp: month_num_def split: if_splits)

lemma day_offset_whole: "day_offset today n = Some r \<Longrightarrow> whole_days r"
  by (auto simp: day_offset_def bind_eq_Some_conv intro: day_bounds_whole)

lemma shifted_month_whole: "shifted_month today k = Some r \<Longrightarrow> whole_days r"
  unfolding shifted_month_def Let_def bind_eq_Some_conv map_option_eq_Some
  by (elim exE conjE) (drule try_u32_nonneg, hypsubst, erule (1) month_of_whole)

lemma iso_stage_whole: "iso_stage q = Some (Some r) \<Longrightarrow> whole_days r"
proof -
  assume "iso_stage q = Some (Some r)"
  then obtain t where "r = \<lparr>lo = t - t mod DAY, hi = t - t mod DAY + DAY - 1\<rparr>"
    unfolding iso_stage_def by (auto dest!: for_each_SomeD split: if_splits option.splits)
  then show ?thesis
    using whole_days_range [of "t div DAY" "t div DAY + 1"]
    by (simp add: minus_mod_eq_div_mult distrib_right)
qed

lemma count_at_whole: "count_at uni today ws i = Some (Some r) \<Longrightarrow> whole_days r"
  unfolding count_at_def Let_def
  by (auto split: option.splits dest: day_offset_whole)

lemma stages_whole:
  "day_stage today q = Some (Some r) \<Longrightarrow> whole_days r"
  "count_stage uni today ws = Some (Some r) \<Longrightarrow> whole_days r"
  "period_stage today q = Some (Some r) \<Longrightarrow> whole_days r"
  "year_stage today q = Some (Some r) \<Longrightarrow> whole_days r"
  "quarter_stage today ws = Some (Some r) \<Longrightarrow> whole_days r"
  "month_stage uni today ws = Some (Some r) \<Longrightarrow> whole_days r"
proof -
  show "day_stage today q = Some (Some r) \<Longrightarrow> whole_days r"
    unfolding day_stage_def by (drule for_each_SomeD) (auto split: if_splits dest: day_offset_whole)
  show "count_stage uni today ws = Some (Some r) \<Longrightarrow> whole_days r"
    unfolding count_stage_def by (drule for_each_SomeD) (auto dest: count_at_whole)
  show "period_stage today q = Some (Some r) \<Longrightarrow> whole_days r"
    unfolding period_stage_def
    by (drule for_each_SomeD, elim bexE)
      (auto simp: bind_eq_Some_conv split: if_splits dest: week_of_whole shifted_month_whole)
  show "year_stage today q = Some (Some r) \<Longrightarrow> whole_days r"
    unfolding year_stage_def
    by (drule for_each_SomeD, elim bexE) (auto split: if_splits dest: year_of_whole)
  show "quarter_stage today ws = Some (Some r) \<Longrightarrow> whole_days r"
    unfolding quarter_stage_def
    by (drule for_each_SomeD, elim bexE) (auto split: if_splits option.splits dest: quarter_whole)
  show "month_stage uni today ws = Some (Some r) \<Longrightarrow> whole_days r"
    unfolding month_stage_def
    by (drule for_each_SomeD, elim bexE)
      (auto split: option.splits dest: month_num_pos month_of_whole)
qed

lemma case_option_Some: "(case x of Some y \<Rightarrow> y | None \<Rightarrow> None) = Some r \<longleftrightarrow> x = Some (Some r)"
  by (simp split: option.split)

text \<open>C21. Whatever cue a query contains, the range found for it is a positive number of whole UTC
  days: it starts at midnight, ends one second before a later midnight.\<close>

theorem parse_temporal_whole_days:
  assumes "parse_temporal lower uni q now = Some r"
  shows "DAY dvd lo r \<and> DAY dvd hi r + 1 \<and> lo r < hi r"
proof -
  obtain today query words where "for_each id [iso_stage query, day_stage today query,
      count_stage uni today words, period_stage today query, year_stage today query,
      quarter_stage today words, month_stage uni today words] = Some (Some r)"
    using assms unfolding parse_temporal_def Let_def bind_eq_Some_conv case_option_Some
    by blast
  from for_each_SomeD [OF this] have "whole_days r"
    by (auto dest: iso_stage_whole [OF sym] stages_whole [OF sym])
  then show ?thesis by (simp add: whole_days_def)
qed

theorem parse_temporal_whole_days_witness:
  "DAY dvd 10368000 \<and> DAY dvd 13046399 + 1 \<and> (10368000 :: int) < 13046399"
proof -
  have "parse_temporal id (\<lambda>_. False) (lit ''may'') 0 = Some \<lparr>lo = 10368000, hi = 13046399\<rparr>"
    by code_simp
  from parse_temporal_whole_days [OF this] show ?thesis by simp
qed

section \<open>Formatting and parsing\<close>

lemma parse_int_two:
  assumes "a < 10" "b < 10" "lo' \<le> 10 * int a + int b" "10 * int a + int b \<le> hi'"
  shows "parse_int lo' hi' [48 + a, 48 + b] = Some (10 * int a + int b)"
  using assms by (simp add: parse_int_def digits_value_def is_ascii_digit_def Let_def)

lemma parse_int_four:
  assumes "a < 10" "b < 10" "c < 10" "d < 10"
    "lo' \<le> 1000 * int a + 100 * int b + 10 * int c + int d"
    "1000 * int a + 100 * int b + 10 * int c + int d \<le> hi'"
  shows "parse_int lo' hi' [48 + a, 48 + b, 48 + c, 48 + d] =
    Some (1000 * int a + 100 * int b + 10 * int c + int d)"
  using assms by (simp add: parse_int_def digits_value_def is_ascii_digit_def Let_def)

lemma two_digits: "10 * int (n div 10) + int (n mod 10) = int n"
  by (metis mult_div_mod_eq of_nat_add of_nat_mult of_nat_numeral)

lemma four_digits:
  "1000 * int (n div 1000) + 100 * int (n div 100 mod 10) + 10 * int (n div 10 mod 10)
     + int (n mod 10) = int n"
proof -
  have "10 * (n div 100) + n div 10 mod 10 = n div 10"
    using mult_div_mod_eq [of 10 "n div 10"] by (simp add: div_mult2_eq [symmetric])
  moreover have "10 * (n div 1000) + n div 100 mod 10 = n div 100"
    using mult_div_mod_eq [of 10 "n div 100"] by (simp add: div_mult2_eq [symmetric])
  moreover have "10 * (n div 10) + n mod 10 = n" by simp
  moreover have "1000 * int a + 100 * int b + 10 * int c + int d = int n"
    if "10 * e + c = f" "10 * a + b = e" "10 * f + d = n" for a b c d e f using that by simp
  ultimately show ?thesis by metis
qed

text \<open>An ASCII string of 20 characters in the shape of a timestamp.\<close>

lemma trim_no_whitespace: "s \<noteq> [] \<Longrightarrow> \<not> is_whitespace (hd s) \<Longrightarrow> \<not> is_whitespace (last s) \<Longrightarrow> trim s = s"
proof -
  assume "s \<noteq> []" "\<not> is_whitespace (hd s)" "\<not> is_whitespace (last s)"
  then have "trim_start s = s" "trim_start (rev s) = rev s"
    unfolding trim_start_def by (auto simp: dropWhile_eq_self_iff hd_rev)
  then show "trim s = s" by (simp add: trim_def)
qed

lemma ascii_str_get:
  "list_all (\<lambda>c. c < 128) s \<Longrightarrow> a \<le> b \<Longrightarrow> b \<le> length s \<Longrightarrow> str_get s a b = Some (take (b - a) (drop a s))"
proof -
  assume s: "list_all (\<lambda>c. c < 128) s" and ab: "a \<le> b" "b \<le> length s"
  have "list_all (\<lambda>c. c < 128) (drop a s)" using s by (auto simp: list_all_iff dest: in_set_dropD)
  then show ?thesis using s ab by (simp add: str_get_def ascii_byte_drop ascii_byte_take)
qed

lemma ascii_byte_get:
  "list_all (\<lambda>c. c < 128) s \<Longrightarrow> i < length s \<Longrightarrow> byte_get s i = Some (word_of_nat (s ! i))"
  by (simp add: byte_get_def)

lemmas ascii_simps = ascii_str_get ascii_byte_get ascii_byte_drop ascii_byte_take

text \<open>A date and a timestamp given by their digits.\<close>

lemma parse_date_digits:
  fixes y1 y2 y3 y4 m1 m2 d1 d2 :: nat
  defines "ds \<equiv> [48 + y1, 48 + y2, 48 + y3, 48 + y4, 45, 48 + m1, 48 + m2, 45, 48 + d1, 48 + d2]"
  assumes dig: "y1 < 10" "y2 < 10" "y3 < 10" "y4 < 10" "m1 < 10" "m2 < 10" "d1 < 10" "d2 < 10"
  shows "parse_date ds = date (1000 * int y1 + 100 * int y2 + 10 * int y3 + int y4)
    (10 * int m1 + int m2) (10 * int d1 + int d2)"
proof -
  have asc: "list_all (\<lambda>c. c < 128) ds" and len: "length ds = 10" using dig by (auto simp: ds_def)
  have get: "str_get ds 0 4 = Some [48 + y1, 48 + y2, 48 + y3, 48 + y4]"
    "str_get ds 5 7 = Some [48 + m1, 48 + m2]" "str_get ds 8 10 = Some [48 + d1, 48 + d2]"
    "byte_get ds 4 = Some 45" "byte_get ds 7 = Some 45"
    using asc len by (simp_all add: ascii_simps) (simp_all add: ds_def)
  show ?thesis
    using dig asc len
    by (simp add: parse_date_def parse_number_def get parse_int_four parse_int_two)
qed

lemma parse_timestamp_digits:
  fixes h1 h2 i1 i2 s1 s2 :: nat
  assumes dl: "length ds = 10" "list_all (\<lambda>c. c < 128) ds" "\<not> is_whitespace (hd ds)"
    and dig: "h1 < 10" "h2 < 10" "i1 < 10" "i2 < 10" "s1 < 10" "s2 < 10"
  defines "v \<equiv> ds @ [84, 48 + h1, 48 + h2, 58, 48 + i1, 48 + i2, 58, 48 + s1, 48 + s2, 90]"
  defines "h \<equiv> 10 * int h1 + int h2" and "i \<equiv> 10 * int i1 + int i2" and "s \<equiv> 10 * int s1 + int s2"
  assumes r: "h \<le> 23" "i \<le> 59" "s \<le> 59"
    and c: "parse_date ds = Some c" "days_from_civil c = Some n"
    and ok: "is_i64 (n * DAY)" "is_i64 (n * DAY + (h * 3600 + i * 60 + s))"
  shows "parse_timestamp v = Some (n * DAY + (h * 3600 + i * 60 + s))"
proof -
  have asc: "list_all (\<lambda>c. c < 128) v" and len: "length v = 20" using dl dig by (auto simp: v_def)
  have "hd v = hd ds" using dl(1) by (cases ds) (auto simp: v_def)
  then have tr: "trim v = v"
    using dl(3) by (intro trim_no_whitespace) (auto simp: v_def is_whitespace_def)
  have get: "byte_take 10 v = Some ds" "byte_get v 10 = Some 84" "byte_get v 13 = Some 58"
    "byte_get v 16 = Some 58" "str_get v 11 13 = Some [48 + h1, 48 + h2]"
    "str_get v 14 16 = Some [48 + i1, 48 + i2]" "str_get v 17 19 = Some [48 + s1, 48 + s2]"
    "byte_drop 19 v = Some [90]"
    using asc len dl(1) by (simp_all add: ascii_simps) (simp_all add: v_def nth_append)
  have suffix: "skip_fraction [90] = Some [90]" "zone_offset [90] = Some 0"
    by (simp_all add: skip_fraction_def strip_prefix_char_def zone_offset_def lit_def)
  have num: "parse_number (- (2 ^ 63)) (2 ^ 63 - 1) v 11 13 = Some h"
    "parse_number (- (2 ^ 63)) (2 ^ 63 - 1) v 14 16 = Some i"
    "parse_number (- (2 ^ 63)) (2 ^ 63 - 1) v 17 19 = Some s"
    using dig by (simp_all add: parse_number_def get parse_int_two h_def i_def s_def)
  show ?thesis
    unfolding parse_timestamp_def Let_def tr
    using r c ok asc len by (simp add: get num [simplified] suffix checked_def not_less)
qed

lemma days_in_month_le: "1 \<le> m \<Longrightarrow> m \<le> 12 \<Longrightarrow> the (days_in_month y m) \<le> 31"
  using days_in_month_Some [of y m] by (auto simp: days_in_month_def split: if_splits)

lemma valid_days_bounds:
  assumes "valid_date d" "days_from_civil d = Some n"
  shows "- 800000 \<le> n \<and> n \<le> 4000000"
proof -
  have y: "0 \<le> march_year d" "march_year d \<le> 9999"
    using assms(1) by (auto simp: march_year_def valid_date_def)
  have "n = year_days (march_year d) + doy_of d - 719468"
    using valid_days [OF assms(1)] assms(2) by simp
  then show ?thesis
    using year_days_mono [OF y(1)] year_days_mono [OF y(2)] valid_doy(1,2) [OF assms(1)]
    by (auto simp: year_days_def [of 0] year_days_def [of 9999])
qed

lemma seconds_parts: "k = 3600 * (k div 3600) + 60 * (k mod 3600 div 60) + k mod (60 :: nat)"
proof -
  have "k mod 3600 mod 60 = k mod 60" by (simp add: mod_mod_cancel)
  then have "k mod 3600 = 60 * (k mod 3600 div 60) + k mod 60"
    by (metis mult_div_mod_eq)
  moreover have "k = 3600 * (k div 3600) + k mod 3600" by simp
  ultimately show ?thesis by linarith
qed

text \<open>The fields of the date and of the time of day as natural numbers.\<close>

lemma parse_timestamp_fields:
  fixes y m d h i j :: nat
  assumes b: "y < 10000" "m < 100" "d < 100" "h \<le> 23" "i \<le> 59" "j \<le> 59"
    and c: "date (int y) (int m) (int d) = Some c" "days_from_civil c = Some n"
    and ok: "is_i64 (n * DAY)" "is_i64 (n * DAY + (int h * 3600 + int i * 60 + int j))"
  shows "parse_timestamp (pad_zero 4 y @ lit ''-'' @ pad_zero 2 m @ lit ''-'' @ pad_zero 2 d @
     lit ''T'' @ pad_zero 2 h @ lit '':'' @ pad_zero 2 i @ lit '':'' @ pad_zero 2 j @ lit ''Z'') =
     Some (n * DAY + (int h * 3600 + int i * 60 + int j))"
proof -
  let ?ds = "[48 + y div 1000, 48 + y div 100 mod 10, 48 + y div 10 mod 10, 48 + y mod 10,
    45, 48 + m div 10, 48 + m mod 10, 45, 48 + d div 10, 48 + d mod 10]"
  have dig: "y div 1000 < 10" "m div 10 < 10" "d div 10 < 10" "h div 10 < 10" "i div 10 < 10"
    "j div 10 < 10" using b by simp_all
  have small: "x mod 10 < 80" for x :: nat
    using mod_less_divisor [of 10 x] by linarith
  have pd: "parse_date ?ds = Some c"
    using parse_date_digits [of "y div 1000" "y div 100 mod 10" "y div 10 mod 10" "y mod 10"
        "m div 10" "m mod 10" "d div 10" "d mod 10"] dig c(1)
    by (simp only: four_digits two_digits)
  have "parse_timestamp (?ds @ [84, 48 + h div 10, 48 + h mod 10, 58, 48 + i div 10, 48 + i mod 10,
      58, 48 + j div 10, 48 + j mod 10, 90]) = Some (n * DAY + (int h * 3600 + int i * 60 + int j))"
    using parse_timestamp_digits [of ?ds "h div 10" "h mod 10" "i div 10" "i mod 10" "j div 10"
        "j mod 10" c n, unfolded two_digits] pd c(2) ok b(4-6) dig
    by (simp add: is_whitespace_def small)
  then show ?thesis using b by (simp add: pad_zero_2 pad_zero_4 lit_def)
qed

text \<open>A formatted timestamp parses back to the same second, for every time whose date lies in
  the years 1 to 9999.\<close>

theorem format_parse_timestamp:
  assumes "format_timestamp ts = Some s"
  shows "parse_timestamp s = Some ts"
proof -
  define n where "n = ts div DAY"
  define k where "k = nat (ts mod DAY)"
  obtain c where c: "civil_from_days n = Some c"
    and s: "s = pad_zero 4 (nat (year c)) @ lit ''-'' @ pad_zero 2 (nat (month c)) @ lit ''-'' @
      pad_zero 2 (nat (day c)) @ lit ''T'' @ pad_zero 2 (nat (ts mod DAY sdiv 3600)) @ lit '':'' @
      pad_zero 2 (nat (ts mod DAY smod 3600 sdiv 60)) @ lit '':'' @
      pad_zero 2 (nat (ts mod DAY smod 60)) @ lit ''Z''"
    using assms by (auto simp: format_timestamp_def Let_def bind_eq_Some_conv n_def)
  have k: "k < 86400" "ts mod DAY = int k" by (auto simp: k_def DAY_def nat_less_iff)
  have ts: "n * DAY + (int (k div 3600) * 3600 + int (k mod 3600 div 60) * 60 + int (k mod 60)) = ts"
    using seconds_parts [of k] k(2) div_mult_mod_eq [of ts DAY] unfolding n_def by linarith
  have v: "valid_date c" and dn: "days_from_civil c = Some n" using civil_days [OF c] by auto
  have b: "0 \<le> year c" "0 \<le> month c" "0 \<le> day c" "nat (year c) < 10000" "nat (month c) < 100"
    "nat (day c) < 100"
    using v days_in_month_le [of "month c" "year c"] by (auto simp: valid_date_def)
  have hms: "nat (ts mod DAY sdiv 3600) = k div 3600"
    "nat (ts mod DAY smod 3600 sdiv 60) = k mod 3600 div 60" "nat (ts mod DAY smod 60) = k mod 60"
    unfolding k(2) by (simp_all add: sdiv_nonneg smod_nonneg nat_div_distrib nat_mod_distrib)
  have hb: "k div 3600 \<le> 23" "k mod 3600 div 60 \<le> 59" "k mod 60 \<le> 59" using k(1) by auto
  have d: "date (int (nat (year c))) (int (nat (month c))) (int (nat (day c))) = Some c"
    using b dn by (cases c) (simp add: date_def Let_def)
  have ok: "is_i64 (n * DAY)" "is_i64 ts"
    using valid_days_bounds [OF v dn] ts hb by (auto simp: is_i64_def DAY_def)
  show ?thesis
    unfolding s hms using parse_timestamp_fields [OF b(4-6) hb d dn] ok ts by simp
qed

theorem format_parse_timestamp_witness:
  "format_timestamp 1700000000 = Some (lit ''2023-11-14T22:13:20Z'') \<and>
   parse_timestamp (lit ''2023-11-14T22:13:20Z'') = Some 1700000000"
proof -
  have "format_timestamp 1700000000 = Some (lit ''2023-11-14T22:13:20Z'')" by code_simp
  with format_parse_timestamp [OF this] show ?thesis by simp
qed

text \<open>The parser takes signs where RFC 3339 has digits: an hour written \<^verbatim>\<open>-1\<close> is accepted and
  gives a time on the day before.\<close>

lemma timestamp_accepts_signs:
  "parse_timestamp (lit ''2024-01-02T-1:00:00Z'') = parse_timestamp (lit ''2024-01-01T23:00:00Z'') \<and>
   parse_timestamp (lit ''2024-01-01T23:00:00Z'') = Some 1704150000"
  by code_simp

text \<open>A number of weeks whose days exceed the \<^verbatim>\<open>i64\<close> range wraps around: this many weeks from
  now is tomorrow.\<close>

lemma relative_weeks_wrap:
  "count_at (\<lambda>_. False) today [lit ''in'', lit ''7905747460161236407'', lit ''weeks''] 1 =
     Some (day_offset today 1)"
proof -
  have "parse_int (- (2 ^ 63)) (2 ^ 63 - 1)
      (trim_matches (\<lambda>c. \<not> is_ascii_digit c) (lit ''7905747460161236407'')) = Some 7905747460161236407"
    "unit_days (clean_word (\<lambda>_. False) (lit ''weeks'')) = Some 7"
    "wrap_i64 (7905747460161236407 * 7) = 1" "lit ''in'' = lit ''in''"
    by code_simp+
  then show ?thesis by (simp add: count_at_def)
qed

end
