(* ===== verification/Tags.thy ===== *)
theory Tags
  imports Rust_Text "HOL-Library.List_Lexorder"
begin

text \<open>
  The tag system of \<^verbatim>\<open>crates/synapse-ultra/src/tags.rs\<close>: the tables \<^verbatim>\<open>tags\<close>, \<^verbatim>\<open>doc_tags\<close> and
  \<^verbatim>\<open>tag_rules\<close> as row lists in insertion order with their \<^verbatim>\<open>AUTOINCREMENT\<close> counters, and every
  operation on them. Text compares by UTF-8 bytes in SQL, which is the order of the code points.
  Where an \<^verbatim>\<open>ORDER BY\<close> leaves ties open they come in insertion order here; no theorem depends on
  it. The clock is the argument \<open>clock\<close>, read at consecutive ticks; \<^verbatim>\<open>to_lowercase\<close> is the
  argument \<open>lower\<close>. Rows of \<^verbatim>\<open>doc_tags\<close> are always deleted before their tag, so the cascading
  foreign key never acts.
\<close>

section \<open>Tables\<close>

record tag =
  t_id :: int
  t_name :: rstr
  t_color :: "rstr option"
  t_description :: "rstr option"
  t_created :: int

record doc_tag_row =
  d_id :: int
  d_doc :: int
  d_tag :: int
  d_source :: rstr
  d_ts :: int

record tag_rule =
  r_id :: int
  r_keyword :: rstr
  r_tag :: rstr
  r_enabled :: bool
  r_created :: int

text \<open>A row of the join of \<^verbatim>\<open>doc_tags\<close> and \<^verbatim>\<open>tags\<close>: the association and the name of its tag.\<close>

record doc_tag = doc_tag_row +
  d_name :: rstr

record tags_db =
  tags :: "tag list"
  doc_tags :: "doc_tag_row list"
  tag_rules :: "tag_rule list"
  tags_seq :: int
  doc_tags_seq :: int
  tag_rules_seq :: int
  ticks :: nat

definition migrate :: tags_db where
  "migrate = \<lparr>tags = [], doc_tags = [], tag_rules = [], tags_seq = 0, doc_tags_seq = 0,
     tag_rules_seq = 0, ticks = 0\<rparr>"

definition utc_now :: "(nat \<Rightarrow> int) \<Rightarrow> tags_db \<Rightarrow> int \<times> tags_db" where
  "utc_now clock s = (clock (ticks s), s\<lparr>ticks := Suc (ticks s)\<rparr>)"

text \<open>\<^verbatim>\<open>SELECT id FROM tags WHERE name = ?\<close>.\<close>

definition tag_id_of :: "tags_db \<Rightarrow> rstr \<Rightarrow> int option" where
  "tag_id_of s n = map_option t_id (tbl_get t_name (tags s) n)"

section \<open>Operations\<close>

definition create_tag ::
  "(nat \<Rightarrow> int) \<Rightarrow> rstr \<Rightarrow> rstr option \<Rightarrow> rstr option \<Rightarrow> tags_db \<Rightarrow> int \<times> tags_db" where
  "create_tag clock n color description s0 =
     (let (now, s1) = utc_now clock s0;
          s2 = (if tbl_get t_name (tags s1) n = None
                then s1\<lparr>tags := tags s1 @ [\<lparr>t_id = tags_seq s1 + 1, t_name = n, t_color = color,
                          t_description = description, t_created = now\<rparr>],
                        tags_seq := tags_seq s1 + 1\<rparr>
                else s1)
      in (the (tag_id_of s2 n), s2))"

definition list_tags :: "tags_db \<Rightarrow> tag list" where
  "list_tags s = sort_key t_name (tags s)"

definition tag_doc :: "(nat \<Rightarrow> int) \<Rightarrow> int \<Rightarrow> rstr \<Rightarrow> rstr \<Rightarrow> tags_db \<Rightarrow> tags_db" where
  "tag_doc clock doc n source s0 =
     (let (now, s1) = utc_now clock s0;
          (tag, s2) = create_tag clock n None None s1
      in if \<exists>r \<in> set (doc_tags s2). d_doc r = doc \<and> d_tag r = tag then s2
         else s2\<lparr>doc_tags := doc_tags s2 @ [\<lparr>d_id = doc_tags_seq s2 + 1, d_doc = doc, d_tag = tag,
                   d_source = source, d_ts = now\<rparr>],
                 doc_tags_seq := doc_tags_seq s2 + 1\<rparr>)"

fun bulk_tag :: "(nat \<Rightarrow> int) \<Rightarrow> int list \<Rightarrow> rstr \<Rightarrow> rstr \<Rightarrow> tags_db \<Rightarrow> nat \<times> tags_db" where
  "bulk_tag clock [] n source s = (0, s)"
| "bulk_tag clock (doc # docs) n source s =
     (let (k, s') = bulk_tag clock docs n source (tag_doc clock doc n source s) in (Suc k, s'))"

definition untag_doc :: "int \<Rightarrow> rstr \<Rightarrow> tags_db \<Rightarrow> tags_db" where
  "untag_doc doc n s =
     s\<lparr>doc_tags := filter (\<lambda>r. \<not> (d_doc r = doc \<and> Some (d_tag r) = tag_id_of s n)) (doc_tags s)\<rparr>"

text \<open>\<^verbatim>\<open>FROM doc_tags dt JOIN tags t ON t.id = dt.tag_id\<close>.\<close>

definition with_name :: "rstr \<Rightarrow> doc_tag_row \<Rightarrow> doc_tag" where
  "with_name n r = \<lparr>d_id = d_id r, d_doc = d_doc r, d_tag = d_tag r, d_source = d_source r,
     d_ts = d_ts r, d_name = n\<rparr>"

definition joined :: "tags_db \<Rightarrow> doc_tag list" where
  "joined s = concat (map (\<lambda>r. map (\<lambda>t. with_name (t_name t) r)
     (filter (\<lambda>t. t_id t = d_tag r) (tags s))) (doc_tags s))"

definition tags_for_doc :: "tags_db \<Rightarrow> int \<Rightarrow> doc_tag list" where
  "tags_for_doc s doc = sort_key d_name (filter (\<lambda>r. d_doc r = doc) (joined s))"

definition docs_for_tag :: "tags_db \<Rightarrow> rstr \<Rightarrow> doc_tag list" where
  "docs_for_tag s n = sort_key (\<lambda>r. - d_ts r) (filter (\<lambda>r. d_name r = n) (joined s))"

definition rule_get :: "tags_db \<Rightarrow> rstr \<times> rstr \<Rightarrow> tag_rule option" where
  "rule_get s k = tbl_get (\<lambda>r. (r_keyword r, r_tag r)) (tag_rules s) k"

definition add_rule :: "(nat \<Rightarrow> int) \<Rightarrow> rstr \<Rightarrow> rstr \<Rightarrow> tags_db \<Rightarrow> int \<times> tags_db" where
  "add_rule clock keyword n s0 =
     (let (now, s1) = utc_now clock s0;
          s2 = snd (create_tag clock n None None s1);
          s3 = (if rule_get s2 (keyword, n) = None
                then s2\<lparr>tag_rules := tag_rules s2 @ [\<lparr>r_id = tag_rules_seq s2 + 1,
                          r_keyword = keyword, r_tag = n, r_enabled = True, r_created = now\<rparr>],
                        tag_rules_seq := tag_rules_seq s2 + 1\<rparr>
                else s2)
      in (r_id (the (rule_get s3 (keyword, n))), s3))"

definition list_rules :: "tags_db \<Rightarrow> tag_rule list" where
  "list_rules s = sort_key r_keyword (tag_rules s)"

fun apply_each ::
  "(nat \<Rightarrow> int) \<Rightarrow> (rstr \<Rightarrow> rstr) \<Rightarrow> int \<Rightarrow> rstr \<Rightarrow> tag_rule list \<Rightarrow> tags_db \<Rightarrow> rstr list \<times> tags_db" where
  "apply_each clock lower doc content [] s = ([], s)"
| "apply_each clock lower doc content (r # rs) s =
     (if r_enabled r \<and> contains_str (lower (r_keyword r)) (lower content) then
        let (applied, s') = apply_each clock lower doc content rs
                              (tag_doc clock doc (r_tag r) (lit ''auto'') s)
        in (r_tag r # applied, s')
      else apply_each clock lower doc content rs s)"

definition apply_rules ::
  "(nat \<Rightarrow> int) \<Rightarrow> (rstr \<Rightarrow> rstr) \<Rightarrow> int \<Rightarrow> rstr \<Rightarrow> tags_db \<Rightarrow> rstr list \<times> tags_db" where
  "apply_rules clock lower doc content s = apply_each clock lower doc content (list_rules s) s"

text \<open>The \<^verbatim>\<open>WHERE\<close> clause of the \<^verbatim>\<open>UPDATE OR IGNORE\<close>: associations of the old tag whose document does not
  have the new one.\<close>

definition repoints :: "int \<Rightarrow> int \<Rightarrow> doc_tag_row list \<Rightarrow> doc_tag_row \<Rightarrow> bool" where
  "repoints from_id to_id rows r \<longleftrightarrow>
     d_tag r = from_id \<and> d_doc r \<notin> set (map d_doc (filter (\<lambda>r. d_tag r = to_id) rows))"

definition merge_tags :: "(nat \<Rightarrow> int) \<Rightarrow> rstr \<Rightarrow> rstr \<Rightarrow> tags_db \<Rightarrow> nat \<times> tags_db" where
  "merge_tags clock from_name into_name s0 =
     (case tag_id_of s0 from_name of
        None \<Rightarrow> (0, s0)
      | Some from_id \<Rightarrow>
          (let (to_id, s1) = create_tag clock into_name None None s0;
               moved = length (filter (repoints from_id to_id (doc_tags s1)) (doc_tags s1));
               s2 = s1\<lparr>doc_tags := map (\<lambda>r. if repoints from_id to_id (doc_tags s1) r
                                            then r\<lparr>d_tag := to_id\<rparr> else r) (doc_tags s1)\<rparr>;
               s3 = s2\<lparr>doc_tags := filter (\<lambda>r. d_tag r \<noteq> from_id) (doc_tags s2)\<rparr>
           in (moved, s3\<lparr>tags := filter (\<lambda>t. t_id t \<noteq> from_id) (tags s3)\<rparr>)))"

definition cleanup_orphans :: "tags_db \<Rightarrow> nat \<times> tags_db" where
  "cleanup_orphans s =
     (let used = map d_tag (doc_tags s);
          keep = filter (\<lambda>t. t_id t \<in> set used) (tags s)
      in (length (tags s) - length keep, s\<lparr>tags := keep\<rparr>))"

record tag_export =
  e_tags :: "tag list"
  e_doc_tags :: "doc_tag list"
  e_rules :: "tag_rule list"

definition export :: "tags_db \<Rightarrow> tag_export" where
  "export s = \<lparr>e_tags = list_tags s, e_doc_tags = sort_key d_ts (joined s), e_rules = list_rules s\<rparr>"

definition import_tag :: "(nat \<Rightarrow> int) \<Rightarrow> tag \<Rightarrow> tags_db \<Rightarrow> tags_db" where
  "import_tag clock t s = snd (create_tag clock (t_name t) (t_color t) (t_description t) s)"

definition disable_rule :: "rstr \<Rightarrow> rstr \<Rightarrow> tags_db \<Rightarrow> tags_db" where
  "disable_rule keyword n s =
     s\<lparr>tag_rules := map (\<lambda>r. if r_keyword r = keyword \<and> r_tag r = n then r\<lparr>r_enabled := False\<rparr> else r)
        (tag_rules s)\<rparr>"

definition import_rule :: "(nat \<Rightarrow> int) \<Rightarrow> tag_rule \<Rightarrow> tags_db \<Rightarrow> tags_db" where
  "import_rule clock r s =
     (let s' = snd (add_rule clock (r_keyword r) (r_tag r) s)
      in if \<not> r_enabled r then disable_rule (r_keyword r) (r_tag r) s' else s')"

definition import_doc_tag :: "(nat \<Rightarrow> int) \<Rightarrow> doc_tag \<Rightarrow> tags_db \<Rightarrow> tags_db" where
  "import_doc_tag clock r s = tag_doc clock (d_doc r) (d_name r) (d_source r) s"

definition import_all :: "(nat \<Rightarrow> int) \<Rightarrow> tag_export \<Rightarrow> tags_db \<Rightarrow> nat \<times> tags_db" where
  "import_all clock d s =
     (length (e_tags d) + length (e_rules d) + length (e_doc_tags d),
      fold (import_doc_tag clock) (e_doc_tags d)
        (fold (import_rule clock) (e_rules d) (fold (import_tag clock) (e_tags d) s)))"

record tag_stats =
  total_tags :: nat
  total_associations :: nat
  total_rules :: nat
  top_tags :: "(rstr \<times> nat) list"

definition stats :: "tags_db \<Rightarrow> tag_stats" where
  "stats s = \<lparr>total_tags = length (tags s), total_associations = length (doc_tags s),
     total_rules = length (tag_rules s),
     top_tags = take 10 (sort_key (\<lambda>(n, k). - int k)
       (map (\<lambda>t. (t_name t, length (filter (\<lambda>r. d_tag r = t_id t) (doc_tags s)))) (tags s)))\<rparr>"

section \<open>Invariant and abstraction\<close>

definition tags_wf :: "tags_db \<Rightarrow> bool" where
  "tags_wf s \<longleftrightarrow> distinct (map t_name (tags s)) \<and> distinct (map t_id (tags s)) \<and>
     (\<forall>t \<in> set (tags s). t_id t \<le> tags_seq s) \<and>
     distinct (map (\<lambda>r. (d_doc r, d_tag r)) (doc_tags s)) \<and>
     d_tag ` set (doc_tags s) \<subseteq> t_id ` set (tags s) \<and>
     distinct (map (\<lambda>r. (r_keyword r, r_tag r)) (tag_rules s))"

text \<open>What a tag database means: the tag names and the relation between documents and names.\<close>

definition tag_names :: "tags_db \<Rightarrow> rstr set" where
  "tag_names s = t_name ` set (tags s)"

definition assoc :: "tags_db \<Rightarrow> (int \<times> rstr) set" where
  "assoc s = (\<Union>r \<in> set (doc_tags s). (\<lambda>t. (d_doc r, t_name t)) ` {t \<in> set (tags s). t_id t = d_tag r})"

lemma assocI: "r \<in> set (doc_tags s) \<Longrightarrow> t \<in> set (tags s) \<Longrightarrow> t_id t = d_tag r \<Longrightarrow> (d_doc r, t_name t) \<in> assoc s"
  by (auto simp: assoc_def)

lemma assocE:
  assumes "p \<in> assoc s"
  obtains r t where "p = (d_doc r, t_name t)" "r \<in> set (doc_tags s)" "t \<in> set (tags s)" "t_id t = d_tag r"
  using assms by (auto simp: assoc_def)

lemma wf_name_id: "tags_wf s \<Longrightarrow> t \<in> set (tags s) \<Longrightarrow> u \<in> set (tags s) \<Longrightarrow> t_id t = t_id u \<longleftrightarrow> t_name t = t_name u"
  by (auto simp: tags_wf_def distinct_map dest: inj_onD)

lemma wf_names_unique: "tags_wf s \<Longrightarrow> tbl_unique t_name (tags s)"
  by (simp add: tags_wf_def tbl_unique_def)

lemma tag_id_of_Some: "tags_wf s \<Longrightarrow> tag_id_of s n = Some i \<longleftrightarrow> (\<exists>t \<in> set (tags s). t_id t = i \<and> t_name t = n)"
  using tbl_get_Some_iff [OF wf_names_unique, of s n] by (auto simp: tag_id_of_def)

lemma tag_id_of_None: "tag_id_of s n = None \<longleftrightarrow> n \<notin> tag_names s"
  by (simp add: tag_id_of_def tbl_get_None_iff tag_names_def)

text \<open>The database after an insertion into \<^verbatim>\<open>tags\<close>.\<close>

lemma assoc_add_tag:
  assumes "tags_wf s" "tags s' = tags s @ [t]" "doc_tags s' = doc_tags s" "t_id t \<notin> t_id ` set (tags s)"
  shows "assoc s' = assoc s"
proof -
  have ne: "\<And>r. r \<in> set (doc_tags s) \<Longrightarrow> d_tag r \<noteq> t_id t"
    using assms unfolding tags_wf_def by (metis imageI subsetD)
  have "{u \<in> set (tags s'). t_id u = d_tag r} = {u \<in> set (tags s). t_id u = d_tag r}"
    if "r \<in> set (doc_tags s)" for r using ne [OF that] assms(2) by auto
  then show ?thesis by (simp add: assoc_def assms(3))
qed

lemma assoc_add_row:
  assumes wf: "tags_wf s" and s': "tags s' = tags s" "doc_tags s' = doc_tags s @ [r]"
    and t: "t \<in> set (tags s)" "t_id t = d_tag r"
  shows "assoc s' = insert (d_doc r, t_name t) (assoc s)"
proof -
  have "t_name u = t_name t" if "u \<in> set (tags s)" "t_id u = d_tag r" for u
    using wf_name_id [OF wf, of u t] that t by simp
  then have "(\<lambda>t. (d_doc r, t_name t)) ` {t \<in> set (tags s). t_id t = d_tag r} = {(d_doc r, t_name t)}"
    using t by blast
  then show ?thesis by (simp add: assoc_def s')
qed

lemma create_tag_spec:
  assumes wf: "tags_wf s" and c: "create_tag clock n co de s = (i, s')"
  shows "tags_wf s'" "tag_names s' = insert n (tag_names s)" "assoc s' = assoc s"
    "doc_tags s' = doc_tags s" "tag_rules s' = tag_rules s" "tag_id_of s' n = Some i"
    "set (tags s) \<subseteq> set (tags s')"
proof -
  consider (old) "n \<in> tag_names s" "s' = s\<lparr>ticks := Suc (ticks s)\<rparr>"
    | (new) "n \<notin> tag_names s"
        "s' = s\<lparr>ticks := Suc (ticks s), tags := tags s @ [\<lparr>t_id = tags_seq s + 1, t_name = n,
           t_color = co, t_description = de, t_created = clock (ticks s)\<rparr>],
           tags_seq := tags_seq s + 1\<rparr>"
    using c by (auto simp: create_tag_def utc_now_def Let_def tbl_get_None_iff tag_names_def
        split: if_splits)
  note cs = this
  have i: "i = the (tag_id_of s' n)" using c by (auto simp: create_tag_def Let_def split: prod.splits)
  have fresh: "tags_seq s + 1 \<notin> t_id ` set (tags s)" using wf by (auto simp: tags_wf_def)
  show wf': "tags_wf s'"
    using cs wf fresh by cases (auto simp: tags_wf_def tag_names_def)
  show names: "tag_names s' = insert n (tag_names s)" using cs by cases (auto simp: tag_names_def)
  show "assoc s' = assoc s"
    using cs
  proof cases
    case new
    then show ?thesis by (intro assoc_add_tag [OF wf]) (simp, simp, simp add: fresh)
  qed (simp add: assoc_def)
  show "doc_tags s' = doc_tags s" "tag_rules s' = tag_rules s" "set (tags s) \<subseteq> set (tags s')"
    using cs by (cases; auto)+
  show "tag_id_of s' n = Some i"
    using tag_id_of_None [of s' n] names i by (cases "tag_id_of s' n") auto
qed

lemma tag_doc_spec:
  assumes wf: "tags_wf s" and t: "s' = tag_doc clock doc n src s"
  shows "tags_wf s'" "tag_names s' = insert n (tag_names s)" "assoc s' = insert (doc, n) (assoc s)"
    "tag_rules s' = tag_rules s"
proof -
  define s1 where "s1 = s\<lparr>ticks := Suc (ticks s)\<rparr>"
  obtain i s2 where c: "create_tag clock n None None s1 = (i, s2)" by fastforce
  have wf1: "tags_wf s1" using wf by (simp add: s1_def tags_wf_def)
  have s1: "tag_names s1 = tag_names s" "assoc s1 = assoc s" "tag_rules s1 = tag_rules s"
    by (simp_all add: s1_def tag_names_def assoc_def)
  note sp = create_tag_spec [OF wf1 c]
  obtain t where t': "t \<in> set (tags s2)" "t_id t = i" "t_name t = n"
    using sp(6) tag_id_of_Some [OF sp(1)] by metis
  consider (old) "\<exists>r \<in> set (doc_tags s2). d_doc r = doc \<and> d_tag r = i" "s' = s2"
    | (new) "\<forall>r \<in> set (doc_tags s2). \<not> (d_doc r = doc \<and> d_tag r = i)"
       "s' = s2\<lparr>doc_tags := doc_tags s2 @ [\<lparr>d_id = doc_tags_seq s2 + 1, d_doc = doc, d_tag = i,
          d_source = src, d_ts = clock (ticks s)\<rparr>], doc_tags_seq := doc_tags_seq s2 + 1\<rparr>"
    using t c by (auto simp: tag_doc_def utc_now_def s1_def [symmetric] split: if_splits)
  note cs = this
  show "tags_wf s'"
    using cs sp(1) t' by cases (auto simp: tags_wf_def)
  show "tag_names s' = insert n (tag_names s)" "tag_rules s' = tag_rules s"
    using cs sp(2,5) s1 by (cases; auto simp: tag_names_def)+
  have "assoc s' = insert (doc, n) (assoc s2)"
    using cs
  proof cases
    case old
    then have "(doc, n) \<in> assoc s2" using t' by (metis assocI)
    then show "assoc s' = insert (doc, n) (assoc s2)" using old by (simp add: insert_absorb)
  next
    case new
    then show "assoc s' = insert (doc, n) (assoc s2)"
      using t' assoc_add_row [OF sp(1), of s' _ t] by simp
  qed
  then show "assoc s' = insert (doc, n) (assoc s)" by (simp add: sp(3) s1)
qed

section \<open>The relation as an interface\<close>

text \<open>A store of a relation: an invariant, the relation it stands for, and operations that insert
  and delete one pair. \<open>'a\<close> is what an insertion carries beside the pair.\<close>

locale relation_store =
  fixes invar :: "'s \<Rightarrow> bool" and rel :: "'s \<Rightarrow> 'p set"
    and add :: "'p \<times> 'a \<Rightarrow> 's \<Rightarrow> 's" and del :: "'p \<Rightarrow> 's \<Rightarrow> 's"
  assumes invar_add: "invar s \<Longrightarrow> invar (add (p, a) s)"
    and rel_add: "invar s \<Longrightarrow> rel (add (p, a) s) = insert p (rel s)"
    and invar_del: "invar s \<Longrightarrow> invar (del p s)"
    and rel_del: "invar s \<Longrightarrow> rel (del p s) = rel s - {p}"
begin

lemma invar_fold: "invar s \<Longrightarrow> invar (fold add ps s)"
  by (induction ps arbitrary: s) (auto simp: invar_add)

lemma rel_fold: "invar s \<Longrightarrow> rel (fold add ps s) = fst ` set ps \<union> rel s"
  by (induction ps arbitrary: s) (force simp: invar_add rel_add)+

lemma del_after_add: "invar s \<Longrightarrow> rel (del p (add (p, a) s)) = rel s - {p}"
  by (simp add: invar_add rel_add rel_del)

end

definition tag_pair :: "(nat \<Rightarrow> int) \<Rightarrow> (int \<times> rstr) \<times> rstr \<Rightarrow> tags_db \<Rightarrow> tags_db" where
  "tag_pair clock p = tag_doc clock (fst (fst p)) (snd (fst p)) (snd p)"

definition untag_pair :: "int \<times> rstr \<Rightarrow> tags_db \<Rightarrow> tags_db" where
  "untag_pair p = untag_doc (fst p) (snd p)"

lemma untag_doc_spec:
  assumes wf: "tags_wf s"
  shows "tags_wf (untag_doc doc n s)" "assoc (untag_doc doc n s) = assoc s - {(doc, n)}"
    "tag_names (untag_doc doc n s) = tag_names s"
proof -
  show "tags_wf (untag_doc doc n s)"
    using wf by (auto simp: tags_wf_def untag_doc_def distinct_map intro: inj_on_subset)
  show "tag_names (untag_doc doc n s) = tag_names s" by (simp add: untag_doc_def tag_names_def)
  have "Some (d_tag r) = tag_id_of s n \<longleftrightarrow> t_name t = n"
    if "t \<in> set (tags s)" "t_id t = d_tag r" for r t
    using tag_id_of_Some [OF wf, of n "d_tag r"] wf_name_id [OF wf that(1)] that
    by (metis (no_types))
  then show "assoc (untag_doc doc n s) = assoc s - {(doc, n)}"
    by (auto simp: assoc_def untag_doc_def)
qed

interpretation tag_rel: relation_store tags_wf assoc "tag_pair clock" untag_pair
  by unfold_locales
    (simp_all add: tag_pair_def untag_pair_def tag_doc_spec [OF _ refl] untag_doc_spec)

lemma bulk_tag_fold:
  "bulk_tag clock docs n src s = (length docs, fold (tag_pair clock) (map (\<lambda>d. ((d, n), src)) docs) s)"
  by (induction docs arbitrary: s) (simp_all add: tag_pair_def)

definition rule_matches :: "(rstr \<Rightarrow> rstr) \<Rightarrow> rstr \<Rightarrow> tag_rule \<Rightarrow> bool" where
  "rule_matches lower content r \<longleftrightarrow> r_enabled r \<and> contains_str (lower (r_keyword r)) (lower content)"

lemma apply_each_fold:
  "apply_each clock lower doc content rs s =
     (map r_tag (filter (rule_matches lower content) rs),
      fold (tag_pair clock) (map (\<lambda>r. ((doc, r_tag r), lit ''auto'')) (filter (rule_matches lower content) rs)) s)"
  by (induction rs arbitrary: s) (simp_all add: tag_pair_def rule_matches_def)

lemma create_tag_snd:
  assumes "tags_wf s"
  shows "tags_wf (snd (create_tag clock n co de s))"
    "tag_names (snd (create_tag clock n co de s)) = insert n (tag_names s)"
    "assoc (snd (create_tag clock n co de s)) = assoc s"
    "tag_rules (snd (create_tag clock n co de s)) = tag_rules s"
  using create_tag_spec [OF assms, of clock n co de]
  by (cases "create_tag clock n co de s"; simp)+

lemma wf_ticks [simp]: "tags_wf (s\<lparr>ticks := k\<rparr>) = tags_wf s" "assoc (s\<lparr>ticks := k\<rparr>) = assoc s"
  "tag_names (s\<lparr>ticks := k\<rparr>) = tag_names s"
  by (simp_all add: tags_wf_def assoc_def tag_names_def)

lemma add_rule_spec:
  assumes wf: "tags_wf s" and a: "add_rule clock k n s = (i, s')"
  shows "tags_wf s'" "tag_names s' = insert n (tag_names s)" "assoc s' = assoc s"
    "\<exists>r. (tag_rules s' = tag_rules s \<and> r \<in> set (tag_rules s) \<or>
          tag_rules s' = tag_rules s @ [r] \<and> r_enabled r \<and> (k, n) \<notin> (\<lambda>r. (r_keyword r, r_tag r)) ` set (tag_rules s)) \<and>
        r_keyword r = k \<and> r_tag r = n \<and> r_id r = i"
proof -
  define s2 where "s2 = snd (create_tag clock n None None (s\<lparr>ticks := Suc (ticks s)\<rparr>))"
  note c = create_tag_snd [of "s\<lparr>ticks := Suc (ticks s)\<rparr>" clock n None None, folded s2_def, simplified, OF wf]
  let ?row = "\<lparr>r_id = tag_rules_seq s2 + 1, r_keyword = k, r_tag = n, r_enabled = True,
     r_created = clock (ticks s)\<rparr>"
  have s': "s' = (if rule_get s2 (k, n) = None then s2\<lparr>tag_rules := tag_rules s2 @ [?row],
      tag_rules_seq := tag_rules_seq s2 + 1\<rparr> else s2)" and i: "i = r_id (the (rule_get s' (k, n)))"
    using a by (auto simp: add_rule_def utc_now_def Let_def s2_def)
  show "tags_wf s'"
    using c(1) by (auto simp: s' rule_get_def tbl_get_None_iff tags_wf_def)
  show "tag_names s' = insert n (tag_names s)" "assoc s' = assoc s"
    using c(2,3) by (auto simp: s' tag_names_def assoc_def)
  show "\<exists>r. (tag_rules s' = tag_rules s \<and> r \<in> set (tag_rules s) \<or>
      tag_rules s' = tag_rules s @ [r] \<and> r_enabled r \<and> (k, n) \<notin> (\<lambda>r. (r_keyword r, r_tag r)) ` set (tag_rules s)) \<and>
        r_keyword r = k \<and> r_tag r = n \<and> r_id r = i"
  proof (cases "rule_get s2 (k, n)")
    case None
    then show ?thesis
      using c(4) by (intro exI [of _ ?row])
        (simp add: s' i rule_get_def tbl_get_snoc tbl_get_None_iff [symmetric])
  next
    case (Some r)
    then show ?thesis
      using c(4) tbl_get_SomeD [of "\<lambda>r. (r_keyword r, r_tag r)" "tag_rules s2" "(k, n)" r]
      by (intro exI [of _ r]) (auto simp: s' i rule_get_def)
  qed
qed

section \<open>Merging\<close>

lemma assoc_iff: "p \<in> assoc s \<longleftrightarrow>
    (\<exists>r \<in> set (doc_tags s). \<exists>t \<in> set (tags s). t_id t = d_tag r \<and> p = (d_doc r, t_name t))"
  by (auto simp: assoc_def)

text \<open>Merging one tag into another renames it in the relation.\<close>

definition rename_tag :: "rstr \<Rightarrow> rstr \<Rightarrow> (int \<times> rstr) set \<Rightarrow> (int \<times> rstr) set" where
  "rename_tag a b R = (\<lambda>(d, n). (d, if n = a then b else n)) ` R"

lemma repoints_iff:
  "repoints f t rows r \<longleftrightarrow> d_tag r = f \<and> (\<forall>q \<in> set rows. d_tag q = t \<longrightarrow> d_doc q \<noteq> d_doc r)"
  by (auto simp: repoints_def image_iff)

definition merged_rows :: "int \<Rightarrow> int \<Rightarrow> doc_tag_row list \<Rightarrow> doc_tag_row list" where
  "merged_rows f t rows = filter (\<lambda>r. d_tag r \<noteq> f)
     (map (\<lambda>r. if repoints f t rows r then r\<lparr>d_tag := t\<rparr> else r) rows)"

lemma set_merged_rows:
  assumes "f \<noteq> t"
  shows "set (merged_rows f t rows) =
    {r \<in> set rows. d_tag r \<noteq> f} \<union> (\<lambda>r. r\<lparr>d_tag := t\<rparr>) ` {r \<in> set rows. repoints f t rows r}"
  using assms by (auto simp: merged_rows_def repoints_def image_iff split: if_splits)

lemma distinct_merged_rows:
  assumes d: "distinct (map (\<lambda>r. (d_doc r, d_tag r)) rows)" and ne: "f \<noteq> t"
  shows "distinct (map (\<lambda>r. (d_doc r, d_tag r)) (merged_rows f t rows))"
proof -
  let ?g = "\<lambda>r. if repoints f t rows r then r\<lparr>d_tag := t\<rparr> else r"
  let ?k = "\<lambda>r. (d_doc r, d_tag r)"
  have inj: "inj_on ?k (set rows)" and dr: "distinct rows" using d by (auto simp: distinct_map)
  have "inj_on (\<lambda>r. ?k (?g r)) {r \<in> set rows. d_tag (?g r) \<noteq> f}"
  proof (rule inj_onI)
    fix x y
    assume x: "x \<in> {r \<in> set rows. d_tag (?g r) \<noteq> f}" and y: "y \<in> {r \<in> set rows. d_tag (?g r) \<noteq> f}"
      and e: "?k (?g x) = ?k (?g y)"
    have m: "d_tag r = f \<and> (\<forall>q \<in> set rows. d_tag q = t \<longrightarrow> d_doc q \<noteq> d_doc r)" if "repoints f t rows r" for r
      using that by (simp add: repoints_iff)
    have no: "\<not> (repoints f t rows u \<and> \<not> repoints f t rows v)"
      if "v \<in> set rows" "?k (?g u) = ?k (?g v)" for u v
      using that m [of u] by fastforce
    have "repoints f t rows x \<longleftrightarrow> repoints f t rows y"
      using no [of y x] no [of x y] x y e by auto
    then have "?k x = ?k y" using e m [of x] m [of y] by (simp split: if_splits)
    then show "x = y" using inj x y by (auto dest: inj_onD)
  qed
  then show ?thesis
    using dr by (simp add: merged_rows_def filter_map distinct_map comp_def)
qed

lemma tag_id_unique:
  assumes "tags_wf s" "tag_id_of s a = Some f" "u \<in> set (tags s)"
  shows "t_id u = f \<longleftrightarrow> t_name u = a"
proof -
  obtain t where "t \<in> set (tags s)" "t_id t = f" "t_name t = a"
    using assms(2) tag_id_of_Some [OF assms(1)] by metis
  then show ?thesis using wf_name_id [OF assms(1,3), of t] by simp
qed

lemma tag_id_obtain:
  assumes "tags_wf s" "tag_id_of s a = Some f"
  obtains t where "t \<in> set (tags s)" "t_id t = f" "t_name t = a"
  using assms tag_id_of_Some by metis

lemma tag_id_distinct:
  "tags_wf s \<Longrightarrow> tag_id_of s a = Some f \<Longrightarrow> tag_id_of s b = Some t \<Longrightarrow> a \<noteq> b \<Longrightarrow> f \<noteq> t"
  by (metis tag_id_obtain tag_id_unique)

lemma assoc_row_iff:
  assumes wf: "tags_wf s" and a: "tag_id_of s a = Some f"
  shows "(d, a) \<in> assoc s \<longleftrightarrow> (\<exists>r \<in> set (doc_tags s). d_tag r = f \<and> d_doc r = d)"
proof
  assume "(d, a) \<in> assoc s"
  then obtain r t where "(d, a) = (d_doc r, t_name t)" "r \<in> set (doc_tags s)" "t \<in> set (tags s)"
    "t_id t = d_tag r" by (rule assocE)
  then show "\<exists>r \<in> set (doc_tags s). d_tag r = f \<and> d_doc r = d"
    using tag_id_unique [OF wf a, of t] by (intro bexI [of _ r]) simp_all
next
  assume "\<exists>r \<in> set (doc_tags s). d_tag r = f \<and> d_doc r = d"
  moreover obtain t where "t \<in> set (tags s)" "t_id t = f" "t_name t = a" by (rule tag_id_obtain [OF wf a])
  ultimately show "(d, a) \<in> assoc s" by (auto intro: assocI)
qed

text \<open>The state after the \<^verbatim>\<open>UPDATE\<close> and the two \<^verbatim>\<open>DELETE\<close>s of a merge.\<close>

definition merged :: "int \<Rightarrow> int \<Rightarrow> tags_db \<Rightarrow> tags_db" where
  "merged f t s = s\<lparr>doc_tags := merged_rows f t (doc_tags s), tags := filter (\<lambda>u. t_id u \<noteq> f) (tags s)\<rparr>"

lemma merged_sel [simp]:
  "tags (merged f t s) = filter (\<lambda>u. t_id u \<noteq> f) (tags s)"
  "doc_tags (merged f t s) = merged_rows f t (doc_tags s)"
  "tag_rules (merged f t s) = tag_rules s" "tags_seq (merged f t s) = tags_seq s"
  by (simp_all add: merged_def)

lemma merged_wf:
  assumes wf: "tags_wf s" and to: "tag_id_of s b = Some t" and ne: "f \<noteq> t"
  shows "tags_wf (merged f t s)"
  unfolding tags_wf_def merged_sel
proof (intro conjI)
  obtain tb where tb: "tb \<in> set (tags s)" "t_id tb = t" using tag_id_obtain [OF wf to] by metis
  show "distinct (map (\<lambda>r. (d_doc r, d_tag r)) (merged_rows f t (doc_tags s)))"
    using wf ne by (intro distinct_merged_rows) (simp_all add: tags_wf_def)
  show "d_tag ` set (merged_rows f t (doc_tags s)) \<subseteq> t_id ` set (filter (\<lambda>u. t_id u \<noteq> f) (tags s))"
    using wf ne tb by (auto simp: set_merged_rows tags_wf_def image_iff)
qed (use wf in \<open>auto simp: tags_wf_def distinct_map intro: inj_on_subset\<close>)

lemma merged_assoc_sub:
  assumes wf: "tags_wf s" and fr: "tag_id_of s a = Some f" and to: "tag_id_of s b = Some t"
    and ne: "f \<noteq> t" and p: "p \<in> assoc (merged f t s)"
  shows "p \<in> rename_tag a b (assoc s)"
proof -
  note ida = tag_id_unique [OF wf fr] and idb = tag_id_unique [OF wf to]
  obtain r u where r: "r \<in> set (merged_rows f t (doc_tags s))" and u: "u \<in> set (tags s)" "t_id u \<noteq> f"
    and ru: "t_id u = d_tag r" "p = (d_doc r, t_name u)" using p by (auto simp: assoc_iff)
  show ?thesis
  proof (cases "r \<in> set (doc_tags s)")
    case True
    then have "p \<in> assoc s" using u ru by (auto simp: assoc_iff)
    then show ?thesis using ida u ru by (force simp: rename_tag_def)
  next
    case False
    then obtain q where q: "q \<in> set (doc_tags s)" "d_tag q = f" "r = q\<lparr>d_tag := t\<rparr>"
      using r ne by (auto simp: set_merged_rows repoints_def)
    moreover obtain ta where "ta \<in> set (tags s)" "t_id ta = f" "t_name ta = a"
      by (rule tag_id_obtain [OF wf fr])
    ultimately have "(d_doc q, a) \<in> assoc s" using assocI [of q s ta] by simp
    then show ?thesis using q ru u idb by (force simp: rename_tag_def)
  qed
qed

lemma merged_assoc_sup:
  assumes wf: "tags_wf s" and fr: "tag_id_of s a = Some f" and to: "tag_id_of s b = Some t"
    and ne: "f \<noteq> t" and p: "p \<in> rename_tag a b (assoc s)"
  shows "p \<in> assoc (merged f t s)"
proof -
  note ida = tag_id_unique [OF wf fr]
  obtain tb where tb: "tb \<in> set (tags s)" "t_id tb = t" "t_name tb = b" by (rule tag_id_obtain [OF wf to])
  obtain r u where r: "r \<in> set (doc_tags s)" and u: "u \<in> set (tags s)" "t_id u = d_tag r"
    and p: "p = (d_doc r, if t_name u = a then b else t_name u)"
    using p by (auto simp: rename_tag_def assoc_iff)
  have moved: "(d_doc q, b) \<in> assoc (merged f t s)" if "q \<in> set (merged_rows f t (doc_tags s))" "d_tag q = t" for q
    using that tb ne by (force simp: assoc_iff)
  consider "t_name u \<noteq> a" | "t_name u = a" "repoints f t (doc_tags s) r"
    | "t_name u = a" "\<not> repoints f t (doc_tags s) r" by blast
  then show ?thesis
  proof cases
    case 1
    then show ?thesis using r u p ida ne by (auto simp: assoc_iff set_merged_rows)
  next
    case 2
    then have "r\<lparr>d_tag := t\<rparr> \<in> set (merged_rows f t (doc_tags s))" using r ne by (auto simp: set_merged_rows)
    then show ?thesis using moved [of "r\<lparr>d_tag := t\<rparr>"] p 2 by simp
  next
    case 3
    then have "d_tag r = f" using ida [OF u(1)] u(2) by simp
    with 3 obtain q where q: "q \<in> set (doc_tags s)" "d_tag q = t" "d_doc q = d_doc r"
      by (auto simp: repoints_iff)
    then have "q \<in> set (merged_rows f t (doc_tags s))" using ne by (auto simp: set_merged_rows)
    then show ?thesis using moved [of q] p q 3 by simp
  qed
qed

lemma merge_tags_spec:
  assumes wf: "tags_wf s" and a: "a \<in> tag_names s" and ab: "a \<noteq> b"
  shows "tags_wf (snd (merge_tags clock a b s))"
    "tag_names (snd (merge_tags clock a b s)) = insert b (tag_names s - {a})"
    "assoc (snd (merge_tags clock a b s)) = rename_tag a b (assoc s)"
    "fst (merge_tags clock a b s) = card {d. (d, a) \<in> assoc s \<and> (d, b) \<notin> assoc s}"
proof -
  obtain f where f: "tag_id_of s a = Some f" using a tag_id_of_None [of s a] by auto
  obtain t s1 where c: "create_tag clock b None None s = (t, s1)" by fastforce
  note sp = create_tag_spec [OF wf c]
  have f1: "tag_id_of s1 a = Some f"
    using f sp(1,7) tag_id_of_Some [OF wf, of a f] tag_id_of_Some [OF sp(1), of a f] by blast
  have ne: "f \<noteq> t" by (rule tag_id_distinct [OF sp(1) f1 sp(6) ab])
  have m: "merge_tags clock a b s = (length (filter (repoints f t (doc_tags s1)) (doc_tags s1)), merged f t s1)"
    by (simp add: merge_tags_def f c merged_def merged_rows_def)
  show "tags_wf (snd (merge_tags clock a b s))" by (simp add: m merged_wf [OF sp(1,6) ne])
  show "tag_names (snd (merge_tags clock a b s)) = insert b (tag_names s - {a})"
  proof -
    have "{u \<in> set (tags s1). t_id u \<noteq> f} = {u \<in> set (tags s1). t_name u \<noteq> a}"
      using tag_id_unique [OF sp(1) f1] by blast
    moreover have "t_name ` {u \<in> set (tags s1). t_name u \<noteq> a} = tag_names s1 - {a}"
      by (auto simp: tag_names_def)
    ultimately have "tag_names (merged f t s1) = tag_names s1 - {a}" by (simp add: tag_names_def)
    then show ?thesis using sp(2) ab by (auto simp: m)
  qed
  show "assoc (snd (merge_tags clock a b s)) = rename_tag a b (assoc s)"
    using merged_assoc_sub [OF sp(1) f1 sp(6) ne] merged_assoc_sup [OF sp(1) f1 sp(6) ne] sp(3)
    by (auto simp: m)
  have ra: "(d, a) \<in> assoc s1 \<longleftrightarrow> (\<exists>r \<in> set (doc_tags s1). d_tag r = f \<and> d_doc r = d)"
    and rb: "(d, b) \<in> assoc s1 \<longleftrightarrow> (\<exists>r \<in> set (doc_tags s1). d_tag r = t \<and> d_doc r = d)" for d
    using assoc_row_iff [OF sp(1)] f1 sp(6) by simp_all
  have "d_doc ` set (filter (repoints f t (doc_tags s1)) (doc_tags s1)) =
      {d. (d, a) \<in> assoc s1 \<and> (d, b) \<notin> assoc s1}"
    unfolding ra rb by (auto simp: repoints_iff)
  moreover have "inj_on d_doc (set (filter (repoints f t (doc_tags s1)) (doc_tags s1)))"
    "distinct (filter (repoints f t (doc_tags s1)) (doc_tags s1))"
    using sp(1) by (auto simp: tags_wf_def distinct_map repoints_def inj_on_def)
  ultimately show "fst (merge_tags clock a b s) = card {d. (d, a) \<in> assoc s \<and> (d, b) \<notin> assoc s}"
    by (metis card_image distinct_card fst_conv m sp(3))
qed

section \<open>Cleanup, export and import\<close>

lemma cleanup_orphans_spec:
  assumes wf: "tags_wf s"
  shows "tags_wf (snd (cleanup_orphans s))" "assoc (snd (cleanup_orphans s)) = assoc s"
    "tag_names (snd (cleanup_orphans s)) = snd ` assoc s"
    "fst (cleanup_orphans s) = card (tag_names s - snd ` assoc s)"
proof -
  let ?keep = "filter (\<lambda>t. t_id t \<in> d_tag ` set (doc_tags s)) (tags s)"
  have c: "cleanup_orphans s = (length (tags s) - length ?keep, s\<lparr>tags := ?keep\<rparr>)"
    by (simp add: cleanup_orphans_def)
  have "d_tag ` set (doc_tags s) \<subseteq> t_id ` set ?keep"
    using wf by (force simp: tags_wf_def)
  then show "tags_wf (snd (cleanup_orphans s))"
    using wf by (auto simp: c tags_wf_def distinct_map intro: inj_on_subset)
  have "{t \<in> set ?keep. t_id t = d_tag r} = {t \<in> set (tags s). t_id t = d_tag r}"
    if "r \<in> set (doc_tags s)" for r using that by auto
  then show "assoc (snd (cleanup_orphans s)) = assoc s" by (simp add: c assoc_def)
  show names: "tag_names (snd (cleanup_orphans s)) = snd ` assoc s"
    by (auto simp: c assoc_def tag_names_def image_UN image_image image_iff)
  have d: "distinct (map t_name (tags s))" "distinct (map t_name ?keep)"
    using wf by (auto simp: tags_wf_def distinct_map intro: inj_on_subset)
  have "length ?keep = card (snd ` assoc s)"
    using distinct_card [OF d(2)] names by (simp add: c tag_names_def)
  moreover have "length (tags s) = card (tag_names s)"
    using distinct_card [OF d(1)] by (simp add: tag_names_def)
  moreover have "snd ` assoc s \<subseteq> tag_names s" "finite (tag_names s)"
    by (auto simp: assoc_iff tag_names_def)
  ultimately show "fst (cleanup_orphans s) = card (tag_names s - snd ` assoc s)"
    by (simp add: c card_Diff_subset finite_subset)
qed

text \<open>Colour and description of a tag, and what a rule says.\<close>

definition tag_attr :: "tags_db \<Rightarrow> rstr \<Rightarrow> (rstr option \<times> rstr option) option" where
  "tag_attr s n = map_option (\<lambda>t. (t_color t, t_description t)) (tbl_get t_name (tags s) n)"

definition rule_view :: "tag_rule \<Rightarrow> rstr \<times> rstr \<times> bool" where
  "rule_view r = (r_keyword r, r_tag r, r_enabled r)"

definition rule_views :: "tags_db \<Rightarrow> (rstr \<times> rstr \<times> bool) set" where
  "rule_views s = rule_view ` set (tag_rules s)"

lemma tag_attr_None: "tag_attr s n = None \<longleftrightarrow> n \<notin> tag_names s"
  by (simp add: tag_attr_def tag_names_def tbl_get_None_iff)

lemma create_tag_attr:
  "tag_attr (snd (create_tag clock n co de s)) m =
     (if m = n \<and> n \<notin> tag_names s then Some (co, de) else tag_attr s m)"
proof -
  have "n \<notin> tag_names s \<longleftrightarrow> tbl_get t_name (tags s) n = None"
    by (simp add: tag_names_def tbl_get_None_iff)
  then show ?thesis
    by (auto simp: create_tag_def utc_now_def Let_def tag_attr_def tbl_get_snoc split: option.splits)
qed

lemma tag_doc_attr: "m \<in> tag_names s \<Longrightarrow> tag_attr (tag_doc clock doc n src s) m = tag_attr s m"
  using create_tag_attr [of clock n None None "s\<lparr>ticks := Suc (ticks s)\<rparr>" m]
  by (auto simp: tag_doc_def utc_now_def tag_attr_def split: prod.splits if_splits)

lemma add_rule_attr: "m \<in> tag_names s \<Longrightarrow> tag_attr (snd (add_rule clock k n s)) m = tag_attr s m"
  using create_tag_attr [of clock n None None "s\<lparr>ticks := Suc (ticks s)\<rparr>" m]
  by (auto simp: add_rule_def utc_now_def Let_def tag_attr_def)

lemma import_tags_spec:
  fixes clock :: "nat \<Rightarrow> int"
  assumes "tags_wf s" "distinct (map t_name ts)" "t_name ` set ts \<inter> tag_names s = {}"
  defines "s' \<equiv> fold (import_tag clock) ts s"
  shows "tags_wf s' \<and> tag_names s' = t_name ` set ts \<union> tag_names s \<and> assoc s' = assoc s \<and>
    tag_rules s' = tag_rules s \<and>
    (\<forall>m. tag_attr s' m = (case tbl_get t_name ts m of
        Some t \<Rightarrow> Some (t_color t, t_description t) | None \<Rightarrow> tag_attr s m))"
  using assms(1-3) unfolding s'_def
proof (induction ts arbitrary: s)
  case (Cons t ts)
  let ?s = "import_tag clock t s"
  have c: "tags_wf ?s" "tag_names ?s = insert (t_name t) (tag_names s)" "assoc ?s = assoc s"
    "tag_rules ?s = tag_rules s"
    using create_tag_snd [OF Cons.prems(1)] by (simp_all add: import_tag_def)
  have a: "tag_attr ?s m = (if m = t_name t then Some (t_color t, t_description t) else tag_attr s m)" for m
    using Cons.prems(3) by (auto simp: import_tag_def create_tag_attr)
  have "tbl_get t_name ts (t_name t) = None"
    using Cons.prems(2) by (simp add: tbl_get_None_iff)
  then show ?case
    using Cons.IH [of ?s] Cons.prems c a
    by (auto simp: tbl_get_def split: option.split)
qed (simp add: tbl_get_Nil)

lemma disable_rule_spec:
  "tags_wf (disable_rule k n s) = tags_wf s" "tag_names (disable_rule k n s) = tag_names s"
  "assoc (disable_rule k n s) = assoc s" "tag_attr (disable_rule k n s) = tag_attr s"
proof -
  have "map (\<lambda>r. (r_keyword r, r_tag r)) (tag_rules (disable_rule k n s)) =
      map (\<lambda>r. (r_keyword r, r_tag r)) (tag_rules s)"
    by (simp add: disable_rule_def)
  then show "tags_wf (disable_rule k n s) = tags_wf s"
    by (simp add: tags_wf_def) (simp add: disable_rule_def)
  show "tag_names (disable_rule k n s) = tag_names s" "assoc (disable_rule k n s) = assoc s"
    "tag_attr (disable_rule k n s) = tag_attr s"
    by (simp_all add: disable_rule_def tag_names_def assoc_def tag_attr_def fun_eq_iff)
qed

abbreviation rule_keys :: "tags_db \<Rightarrow> (rstr \<times> rstr) set" where
  "rule_keys s \<equiv> (\<lambda>r. (r_keyword r, r_tag r)) ` set (tag_rules s)"

lemma import_rule_spec:
  fixes clock :: "nat \<Rightarrow> int"
  assumes wf: "tags_wf s" and new: "(r_keyword r, r_tag r) \<notin> rule_keys s"
  defines "s' \<equiv> import_rule clock r s"
  shows "tags_wf s'" "tag_names s' = insert (r_tag r) (tag_names s)" "assoc s' = assoc s"
    "rule_views s' = insert (rule_view r) (rule_views s)"
    "rule_keys s' = insert (r_keyword r, r_tag r) (rule_keys s)"
    "m \<in> tag_names s \<Longrightarrow> tag_attr s' m = tag_attr s m"
proof -
  obtain i s1 where a: "add_rule clock (r_keyword r) (r_tag r) s = (i, s1)" by fastforce
  have s': "s' = (if r_enabled r then s1 else disable_rule (r_keyword r) (r_tag r) s1)"
    by (simp add: s'_def import_rule_def a)
  note sp = add_rule_spec [OF wf a]
  show "tags_wf s'" "tag_names s' = insert (r_tag r) (tag_names s)" "assoc s' = assoc s"
    using sp(1-3) by (simp_all add: s' disable_rule_spec)
  show "m \<in> tag_names s \<Longrightarrow> tag_attr s' m = tag_attr s m"
    using add_rule_attr [of m s clock "r_keyword r" "r_tag r"] a by (simp add: s' disable_rule_spec)
  obtain q where q: "tag_rules s1 = tag_rules s @ [q]" "r_enabled q" "r_keyword q = r_keyword r" "r_tag q = r_tag r"
    using sp(4) new by (metis (no_types, lifting) imageI)
  have "map (\<lambda>u. if r_keyword u = r_keyword r \<and> r_tag u = r_tag r then u\<lparr>r_enabled := False\<rparr> else u)
      (tag_rules s) = tag_rules s"
    using new by (intro map_idI) (auto simp: image_iff)
  then have "tag_rules s' = tag_rules s @ [q\<lparr>r_enabled := r_enabled r\<rparr>]"
    using q by (simp add: s' disable_rule_def)
  then show "rule_views s' = insert (rule_view r) (rule_views s)"
    "rule_keys s' = insert (r_keyword r, r_tag r) (rule_keys s)"
    using q by (simp_all add: rule_views_def rule_view_def)
qed

lemma import_rules_spec:
  assumes "tags_wf s" "distinct (map (\<lambda>r. (r_keyword r, r_tag r)) rs)"
    "(\<lambda>r. (r_keyword r, r_tag r)) ` set rs \<inter> rule_keys s = {}"
  shows "tags_wf (fold (import_rule clock) rs s) \<and>
    tag_names (fold (import_rule clock) rs s) = r_tag ` set rs \<union> tag_names s \<and>
    assoc (fold (import_rule clock) rs s) = assoc s \<and>
    rule_views (fold (import_rule clock) rs s) = rule_view ` set rs \<union> rule_views s \<and>
    (\<forall>m \<in> tag_names s. tag_attr (fold (import_rule clock) rs s) m = tag_attr s m)"
  using assms
proof (induction rs arbitrary: s)
  case (Cons r rs)
  have new: "(r_keyword r, r_tag r) \<notin> rule_keys s" using Cons.prems(3) by auto
  note sp = import_rule_spec [where clock = clock, OF Cons.prems(1) new]
  have "(\<lambda>r. (r_keyword r, r_tag r)) ` set rs \<inter> rule_keys (import_rule clock r s) = {}"
    using Cons.prems(2,3) unfolding sp(5) by auto
  then show ?case
    using Cons.IH [OF sp(1)] Cons.prems(2) sp by auto
qed simp

lemma import_doc_tags_fold:
  "fold (import_doc_tag clock) rs s = fold (tag_pair clock) (map (\<lambda>r. ((d_doc r, d_name r), d_source r)) rs) s"
  by (induction rs arbitrary: s) (simp_all add: import_doc_tag_def tag_pair_def)

lemma tag_fold_rest:
  assumes "tags_wf s"
  shows "tag_rules (fold (tag_pair clock) ps s) = tag_rules s \<and>
    tag_names (fold (tag_pair clock) ps s) = snd ` fst ` set ps \<union> tag_names s \<and>
    (\<forall>m \<in> tag_names s. tag_attr (fold (tag_pair clock) ps s) m = tag_attr s m)"
  using assms
proof (induction ps arbitrary: s)
  case (Cons p ps)
  let ?s = "tag_pair clock p s"
  have sp: "tags_wf ?s" "tag_names ?s = insert (snd (fst p)) (tag_names s)" "tag_rules ?s = tag_rules s"
    using tag_doc_spec [OF Cons.prems refl] by (simp_all add: tag_pair_def)
  have "m \<in> tag_names s \<Longrightarrow> tag_attr ?s m = tag_attr s m" for m
    by (simp add: tag_pair_def tag_doc_attr)
  then show ?case using Cons.IH [OF sp(1)] sp by auto
qed simp

lemma joined_assoc: "(\<lambda>r. (d_doc r, d_name r)) ` set (joined s) = assoc s"
  by (auto simp: joined_def with_name_def assoc_def image_UN image_image)

section \<open>Properties\<close>

inductive tags_reachable :: "(nat \<Rightarrow> int) \<Rightarrow> (rstr \<Rightarrow> rstr) \<Rightarrow> tags_db \<Rightarrow> bool"
  for clock :: "nat \<Rightarrow> int" and lower :: "rstr \<Rightarrow> rstr" where
  init: "tags_reachable clock lower migrate"
| create: "tags_reachable clock lower s \<Longrightarrow> tags_reachable clock lower (snd (create_tag clock n co de s))"
| tag: "tags_reachable clock lower s \<Longrightarrow> tags_reachable clock lower (tag_doc clock d n src s)"
| bulk: "tags_reachable clock lower s \<Longrightarrow> tags_reachable clock lower (snd (bulk_tag clock ds n src s))"
| untag: "tags_reachable clock lower s \<Longrightarrow> tags_reachable clock lower (untag_doc d n s)"
| rule: "tags_reachable clock lower s \<Longrightarrow> tags_reachable clock lower (snd (add_rule clock k n s))"
| auto: "tags_reachable clock lower s \<Longrightarrow> tags_reachable clock lower (snd (apply_rules clock lower d c s))"
| merge: "tags_reachable clock lower s \<Longrightarrow> tags_reachable clock lower (snd (merge_tags clock a b s))"
| cleanup: "tags_reachable clock lower s \<Longrightarrow> tags_reachable clock lower (snd (cleanup_orphans s))"
| import: "tags_reachable clock lower s \<Longrightarrow> tags_reachable clock lower (snd (import_all clock x s))"

lemma fold_preserves: "(\<And>x s. P s \<Longrightarrow> P (f x s)) \<Longrightarrow> P s \<Longrightarrow> P (fold f xs s)"
  by (induction xs arbitrary: s) auto

lemma import_wf: "tags_wf s \<Longrightarrow> tags_wf (snd (import_all clock x s))"
proof -
  assume wf: "tags_wf s"
  have r: "tags_wf (import_rule clock r s)" if "tags_wf s" for r s
    using add_rule_spec(1) [OF that, of clock "r_keyword r" "r_tag r"]
    by (cases "add_rule clock (r_keyword r) (r_tag r) s") (simp add: import_rule_def disable_rule_spec)
  have t: "tags_wf (import_tag clock t s)" if "tags_wf s" for t s
    using create_tag_snd(1) [OF that] by (simp add: import_tag_def)
  have d: "tags_wf (import_doc_tag clock q s)" if "tags_wf s" for q s
    using tag_doc_spec(1) [OF that refl] by (simp add: import_doc_tag_def)
  show ?thesis
    unfolding import_all_def snd_conv by (intro fold_preserves [where P = tags_wf] r t d wf)
qed

lemma merge_self:
  assumes wf: "tags_wf s" and a: "tag_id_of s a = Some f"
  shows "merge_tags clock a a s = (0, s\<lparr>ticks := Suc (ticks s),
    doc_tags := filter (\<lambda>r. d_tag r \<noteq> f) (doc_tags s), tags := filter (\<lambda>t. t_id t \<noteq> f) (tags s)\<rparr>)"
proof -
  have "tbl_get t_name (tags s) a \<noteq> None" using a by (auto simp: tag_id_of_def)
  then have c: "create_tag clock a None None s = (f, s\<lparr>ticks := Suc (ticks s)\<rparr>)"
    using a by (auto simp: create_tag_def utc_now_def Let_def tag_id_of_def)
  have no: "repoints f f rows r \<Longrightarrow> r \<notin> set rows" for rows r by (auto simp: repoints_iff)
  then have "filter (repoints f f (doc_tags s)) (doc_tags s) = []"
    "map (\<lambda>r. if repoints f f (doc_tags s) r then r\<lparr>d_tag := f\<rparr> else r) (doc_tags s) = doc_tags s"
    by (auto simp: filter_empty_conv intro!: map_idI)
  then show ?thesis by (simp add: merge_tags_def a c)
qed

lemma merge_wf: "tags_wf s \<Longrightarrow> tags_wf (snd (merge_tags clock a b s))"
proof -
  assume wf: "tags_wf s"
  consider "a \<notin> tag_names s" | f where "tag_id_of s a = Some f" "a = b" | "a \<in> tag_names s" "a \<noteq> b"
    using tag_id_of_None [of s a] by (cases "tag_id_of s a") auto
  then show ?thesis
  proof cases
    case 1
    then show ?thesis using wf by (simp add: merge_tags_def tag_id_of_None [symmetric])
  next
    case (2 f)
    then show ?thesis
      using wf by (auto simp: merge_self tags_wf_def distinct_map intro: inj_on_subset)
  qed (rule merge_tags_spec [OF wf])
qed

text \<open>In every database built by the operations, in any order, tag names and ids are unique, a
  document carries a tag at most once, every association has its tag and rules are unique.\<close>

theorem tags_reachable_wf:
  assumes "tags_reachable clock lower s"
  shows "tags_wf s"
  using assms
proof induction
  case init
  then show ?case by (simp add: migrate_def tags_wf_def)
next
  case (rule s k n)
  then show ?case
    using add_rule_spec(1) [of s clock k n] by (cases "add_rule clock k n s") simp
qed (simp_all add: create_tag_snd tag_doc_spec [OF _ refl] bulk_tag_fold tag_rel.invar_fold
    untag_doc_spec apply_rules_def apply_each_fold merge_wf cleanup_orphans_spec import_wf)

theorem tags_reachable_wf_witness:
  "tags_wf (snd (merge_tags int (lit ''a'') (lit ''b'') (tag_doc int 1 (lit ''a'') (lit ''manual'') migrate)))"
  by (intro tags_reachable_wf [of int "\<lambda>s. s"] tags_reachable.merge tags_reachable.tag tags_reachable.init)

lemma queries_exact:
  "{n. \<exists>r \<in> set (tags_for_doc s d). d_name r = n} = {n. (d, n) \<in> assoc s}"
  "{d. \<exists>r \<in> set (docs_for_tag s n). d_doc r = d} = {d. (d, n) \<in> assoc s}"
  by (auto simp: tags_for_doc_def docs_for_tag_def joined_assoc [symmetric])

text \<open>C22. The tables implement a relation between documents and tag names: tagging adds exactly one
  pair, bulk tagging one per document, untagging removes one, applying rules adds the tags of
  the enabled rules whose keyword occurs; merging a tag into a different one renames it, counting
  the documents that gained the new name, and does nothing when there is no such tag; cleanup drops exactly the unused names, and the two
  queries list exactly the pairs of a document or a tag.\<close>

theorem tag_operations_refine:
  assumes wf: "tags_wf s"
  shows "assoc (tag_doc clock d n src s) = insert (d, n) (assoc s) \<and>
    assoc (snd (bulk_tag clock ds n src s)) = set ds \<times> {n} \<union> assoc s \<and>
    assoc (untag_doc d n s) = assoc s - {(d, n)} \<and>
    assoc (snd (apply_rules clock lower d c s)) =
      {d} \<times> {r_tag r | r. r \<in> set (tag_rules s) \<and> r_enabled r \<and>
        contains_str (lower (r_keyword r)) (lower c)} \<union> assoc s \<and>
    (a \<noteq> b \<longrightarrow>
      (if a \<in> tag_names s
       then assoc (snd (merge_tags clock a b s)) = rename_tag a b (assoc s) \<and>
         tag_names (snd (merge_tags clock a b s)) = insert b (tag_names s - {a}) \<and>
         fst (merge_tags clock a b s) = card {d. (d, a) \<in> assoc s \<and> (d, b) \<notin> assoc s}
       else merge_tags clock a b s = (0, s))) \<and>
    assoc (snd (cleanup_orphans s)) = assoc s \<and>
    tag_names (snd (cleanup_orphans s)) = snd ` assoc s \<and>
    {n. \<exists>r \<in> set (tags_for_doc s d). d_name r = n} = {n. (d, n) \<in> assoc s} \<and>
    {d. \<exists>r \<in> set (docs_for_tag s n). d_doc r = d} = {d. (d, n) \<in> assoc s}"
proof (intro conjI)
  show "assoc (tag_doc clock d n src s) = insert (d, n) (assoc s)" by (rule tag_doc_spec [OF wf refl])
  show "assoc (snd (bulk_tag clock ds n src s)) = set ds \<times> {n} \<union> assoc s"
    by (auto simp: bulk_tag_fold tag_rel.rel_fold [OF wf] image_image)
  show "assoc (untag_doc d n s) = assoc s - {(d, n)}" by (rule untag_doc_spec [OF wf])
  show "assoc (snd (apply_rules clock lower d c s)) =
      {d} \<times> {r_tag r | r. r \<in> set (tag_rules s) \<and> r_enabled r \<and>
        contains_str (lower (r_keyword r)) (lower c)} \<union> assoc s"
    by (auto simp: apply_rules_def apply_each_fold tag_rel.rel_fold [OF wf] list_rules_def rule_matches_def image_image)
  have "merge_tags clock a b s = (0, s)" if "a \<notin> tag_names s" using that tag_id_of_None [of s a] by (simp add: merge_tags_def)
  then show "a \<noteq> b \<longrightarrow>
      (if a \<in> tag_names s
       then assoc (snd (merge_tags clock a b s)) = rename_tag a b (assoc s) \<and>
         tag_names (snd (merge_tags clock a b s)) = insert b (tag_names s - {a}) \<and>
         fst (merge_tags clock a b s) = card {d. (d, a) \<in> assoc s \<and> (d, b) \<notin> assoc s}
       else merge_tags clock a b s = (0, s))"
    using merge_tags_spec [OF wf, of a b] by simp
qed (simp_all add: cleanup_orphans_spec [OF wf] queries_exact)

text \<open>A document is tagged, tagged again, its first tag merged into the second, and the unused name cleaned up.\<close>

theorem tag_operations_refine_witness:
  "let s1 = tag_doc int 7 (lit ''x'') (lit ''manual'') migrate; s2 = tag_doc int 8 (lit ''y'') (lit ''manual'') s1 in
   assoc s2 = {(7, lit ''x''), (8, lit ''y'')} \<and>
   assoc (snd (merge_tags int (lit ''x'') (lit ''y'') s2)) = {(7, lit ''y''), (8, lit ''y'')} \<and>
   fst (merge_tags int (lit ''x'') (lit ''y'') s2) = 1 \<and>
   assoc (untag_doc 7 (lit ''x'') s2) = {(8, lit ''y'')}"
proof -
  let ?s1 = "tag_doc int 7 (lit ''x'') (lit ''manual'') migrate" and ?s2 = "tag_doc int 8 (lit ''y'') (lit ''manual'') (tag_doc int 7 (lit ''x'') (lit ''manual'') migrate)"
  have wf: "tags_wf migrate" by (simp add: migrate_def tags_wf_def)
  have wf1: "tags_wf ?s1" by (rule tag_doc_spec(1) [OF wf refl])
  have wf2: "tags_wf ?s2" by (rule tag_doc_spec(1) [OF wf1 refl])
  have "assoc migrate = {}" by (simp add: migrate_def assoc_def)
  then have a1: "assoc ?s1 = {(7, lit ''x'')}" using tag_operations_refine [OF wf, of int 7 "lit ''x''" "lit ''manual''"] by simp
  have a2: "assoc ?s2 = {(7, lit ''x''), (8, lit ''y'')}" using tag_operations_refine [OF wf1, of int 8 "lit ''y''" "lit ''manual''"] a1 by auto
  have ne: "lit ''x'' \<noteq> lit ''y''" by (simp add: lit_def)
  have names: "lit ''x'' \<in> tag_names ?s2" using tag_doc_spec(2) [OF wf refl, of int 7 "lit ''x''" "lit ''manual''"] tag_doc_spec(2) [OF wf1 refl, of int 8 "lit ''y''" "lit ''manual''"] by simp
  have "fst (merge_tags int (lit ''x'') (lit ''y'') ?s2) = card {d. (d, lit ''x'') \<in> assoc ?s2 \<and> (d, lit ''y'') \<notin> assoc ?s2}"
      "assoc (snd (merge_tags int (lit ''x'') (lit ''y'') ?s2)) = rename_tag (lit ''x'') (lit ''y'') (assoc ?s2)"
    using tag_operations_refine [OF wf2, where a = "lit ''x''" and b = "lit ''y''" and clock = int] names ne by simp_all
  moreover have "{d. (d, lit ''x'') \<in> assoc ?s2 \<and> (d, lit ''y'') \<notin> assoc ?s2} = {7}" using a2 ne by auto
  moreover have "rename_tag (lit ''x'') (lit ''y'') (assoc ?s2) = {(7, lit ''y''), (8, lit ''y'')}" using a2 ne by (auto simp: rename_tag_def)
  moreover have "assoc (untag_doc 7 (lit ''x'') ?s2) = {(8, lit ''y'')}"
    using tag_operations_refine [OF wf2, of int 7 "lit ''x''"] a2 by auto
  ultimately show ?thesis using a2 by (simp add: Let_def)
qed

text \<open>Merging a tag into itself, which nothing prevents, deletes the tag and every one of its
  associations and reports that nothing was moved.\<close>

theorem merge_into_self_deletes:
  assumes "tags_wf s" "a \<in> tag_names s"
  shows "fst (merge_tags clock a a s) = 0 \<and>
    tag_names (snd (merge_tags clock a a s)) = tag_names s - {a} \<and>
    assoc (snd (merge_tags clock a a s)) = {p \<in> assoc s. snd p \<noteq> a}"
proof -
  obtain f where f: "tag_id_of s a = Some f" using assms(2) tag_id_of_None [of s a] by auto
  let ?s = "snd (merge_tags clock a a s)"
  note m = merge_self [OF assms(1) f] and u = tag_id_unique [OF assms(1) f]
  have "{t \<in> set (tags s). t_id t \<noteq> f} = {t \<in> set (tags s). t_name t \<noteq> a}" using u by blast
  then have "tag_names ?s = tag_names s - {a}" by (auto simp: m tag_names_def)
  moreover have "p \<in> assoc ?s \<longleftrightarrow> p \<in> assoc s \<and> snd p \<noteq> a" for p
  proof
    assume "p \<in> assoc ?s"
    then obtain r t where "r \<in> set (doc_tags s)" "d_tag r \<noteq> f" "t \<in> set (tags s)" "t_id t = d_tag r"
      "p = (d_doc r, t_name t)" by (auto simp: assoc_iff m)
    then show "p \<in> assoc s \<and> snd p \<noteq> a" using u [of t] by (auto simp: assoc_iff)
  next
    assume p: "p \<in> assoc s \<and> snd p \<noteq> a"
    then obtain r t where "r \<in> set (doc_tags s)" "t \<in> set (tags s)" "t_id t = d_tag r"
      "p = (d_doc r, t_name t)" by (auto simp: assoc_iff)
    then show "p \<in> assoc ?s" using u [of t] p assocI [of r ?s t] by (simp add: m)
  qed
  ultimately show ?thesis by (auto simp: m)
qed

theorem merge_into_self_deletes_witness:
  "assoc (snd (merge_tags int (lit ''x'') (lit ''x'') (tag_doc int 7 (lit ''x'') (lit ''manual'') migrate))) = {}"
proof -
  let ?s = "tag_doc int 7 (lit ''x'') (lit ''manual'') migrate"
  have "tags_wf migrate" by (simp add: migrate_def tags_wf_def)
  note sp = tag_doc_spec [OF this refl, of int 7 "lit ''x''" "lit ''manual''"]
  have "assoc ?s = {(7, lit ''x'')}" using sp(3) by (simp add: migrate_def assoc_def)
  then show ?thesis
    using merge_into_self_deletes [OF sp(1), of "lit ''x''" int] sp(2) by simp
qed

text \<open>Importing an export into an empty database restores the relation, the colours and
  descriptions of the tags, and the rules with their enabled flags; tags named only by rules
  are created as well.\<close>

theorem tags_export_import:
  assumes wf: "tags_wf s"
  shows "let s' = snd (import_all clock (export s) migrate) in
    assoc s' = assoc s \<and> tag_names s' = tag_names s \<union> r_tag ` set (tag_rules s) \<and>
    rule_views s' = rule_views s \<and> (\<forall>n \<in> tag_names s. tag_attr s' n = tag_attr s n)"
proof -
  define s' where "s' = snd (import_all clock (export s) migrate)"
  define s1 where "s1 = fold (import_tag clock) (list_tags s) migrate"
  define s2 where "s2 = fold (import_rule clock) (list_rules s) s1"
  have s': "s' = fold (import_doc_tag clock) (sort_key d_ts (joined s)) s2"
    by (simp add: s'_def import_all_def export_def s1_def s2_def)
  have init: "tags_wf migrate" "tag_names migrate = {}" "assoc migrate = {}" "tag_rules migrate = []"
    by (simp_all add: migrate_def tags_wf_def tag_names_def assoc_def)
  have lt: "distinct (map t_name (list_tags s))" "set (list_tags s) = set (tags s)"
    using wf by (simp_all add: list_tags_def tags_wf_def distinct_map)
  have get: "tbl_get t_name (list_tags s) n = tbl_get t_name (tags s) n" for n
  proof -
    have "tbl_get t_name (list_tags s) n = Some t \<longleftrightarrow> tbl_get t_name (tags s) n = Some t" for t
      using tbl_get_Some_iff [of t_name "list_tags s" n t] lt tbl_get_Some_iff [OF wf_names_unique [OF wf], of n t]
      by (simp add: tbl_unique_def)
    then show ?thesis by (metis option.exhaust)
  qed
  have 1: "tags_wf s1" "tag_names s1 = tag_names s" "assoc s1 = {}" "tag_rules s1 = []"
    "\<And>n. tag_attr s1 n = tag_attr s n"
    using import_tags_spec [OF init(1) lt(1), of clock] init lt(2)
    by (auto simp: s1_def tag_names_def tag_attr_def get tbl_get_Nil split: option.splits)
  have lr: "distinct (map (\<lambda>r. (r_keyword r, r_tag r)) (list_rules s))" "set (list_rules s) = set (tag_rules s)"
    using wf by (simp_all add: list_rules_def tags_wf_def distinct_map)
  have 2: "tags_wf s2" "tag_names s2 = r_tag ` set (tag_rules s) \<union> tag_names s" "assoc s2 = {}"
    "rule_views s2 = rule_views s" "\<And>n. n \<in> tag_names s \<Longrightarrow> tag_attr s2 n = tag_attr s n"
    using import_rules_spec [OF 1(1) lr(1), of clock] 1 lr(2) by (auto simp: s2_def rule_views_def)
  let ?ps = "map (\<lambda>r. ((d_doc r, d_name r), d_source r)) (sort_key d_ts (joined s))"
  have ps: "fst ` set ?ps = assoc s" by (simp add: image_image joined_assoc)
  have names: "snd ` assoc s \<subseteq> tag_names s" by (auto simp: assoc_iff tag_names_def)
  have s'': "s' = fold (tag_pair clock) ?ps s2" by (simp add: s' import_doc_tags_fold)
  have "tag_rules s' = tag_rules s2" "tag_names s' = snd ` assoc s \<union> tag_names s2"
    "\<forall>n \<in> tag_names s2. tag_attr s' n = tag_attr s2 n" "assoc s' = assoc s"
    using tag_fold_rest [OF 2(1), of clock ?ps] tag_rel.rel_fold [OF 2(1), of clock ?ps] 2(3)
    unfolding s''[symmetric] ps by simp_all
  then have "assoc s' = assoc s \<and> tag_names s' = tag_names s \<union> r_tag ` set (tag_rules s) \<and>
    rule_views s' = rule_views s \<and> (\<forall>n \<in> tag_names s. tag_attr s' n = tag_attr s n)"
    using 2 names by (auto simp: rule_views_def)
  then show ?thesis by (simp add: s'_def Let_def)
qed

theorem tags_export_import_witness:
  "assoc (snd (import_all int (export (tag_doc int 7 (lit ''x'') (lit ''manual'') migrate)) migrate)) =
     {(7, lit ''x'')}"
proof -
  have "tags_wf migrate" by (simp add: migrate_def tags_wf_def)
  note sp = tag_doc_spec [OF this refl, of int 7 "lit ''x''" "lit ''manual''"]
  have "assoc (tag_doc int 7 (lit ''x'') (lit ''manual'') migrate) = {(7, lit ''x'')}"
    using sp(3) by (simp add: migrate_def assoc_def)
  then show ?thesis using tags_export_import [OF sp(1), of int] by (simp add: Let_def)
qed

end
