(* ===== verification/Memory_Layer.thy ===== *)
theory Memory_Layer
  imports Complex_Main Rust_Text
begin

text \<open>
  The typed-memory layer of \<^verbatim>\<open>crates/synapse-core/src/sota.rs\<close>: the tables \<^verbatim>\<open>memories\<close>,
  \<^verbatim>\<open>memory_edges\<close> and \<^verbatim>\<open>extraction_queue\<close> as row lists, and the functions that write and read
  them. Foreign keys are enforced, the default of the bundled SQLite; the documents that exist are
  the argument \<open>doc_ok\<close>, because \<^verbatim>\<open>docs\<close> belongs to the store. An \<^verbatim>\<open>INTEGER PRIMARY KEY\<close>
  without \<^verbatim>\<open>AUTOINCREMENT\<close> gets one more than the largest id. \<^verbatim>\<open>now_ts()\<close> is an argument.
  Weights and confidences are only stored and compared; they are rationals, with the three
  special values of \<^verbatim>\<open>f64\<close> for inputs that are checked. Where an \<^verbatim>\<open>ORDER BY ... LIMIT 1\<close> leaves
  ties, the first such row is taken.
\<close>

section \<open>Data\<close>

datatype memory_type = Fact | Decision | Lesson | Preference | Episodic | Raw

definition type_str :: "memory_type \<Rightarrow> rstr" where
  "type_str t = (case t of Fact \<Rightarrow> lit ''fact'' | Decision \<Rightarrow> lit ''decision'' | Lesson \<Rightarrow> lit ''lesson''
     | Preference \<Rightarrow> lit ''preference'' | Episodic \<Rightarrow> lit ''episodic'' | Raw \<Rightarrow> lit ''raw'')"

definition type_parse :: "rstr \<Rightarrow> memory_type" where
  "type_parse s =
     (if s = lit ''fact'' then Fact else if s = lit ''decision'' then Decision
      else if s = lit ''lesson'' then Lesson else if s = lit ''preference'' then Preference
      else if s = lit ''episodic'' then Episodic else Raw)"

definition default_weight :: "memory_type \<Rightarrow> rat" where
  "default_weight t = (case t of Fact \<Rightarrow> 120 / 100 | Decision \<Rightarrow> 110 / 100 | Lesson \<Rightarrow> 105 / 100
     | Preference \<Rightarrow> 115 / 100 | Episodic \<Rightarrow> 95 / 100 | Raw \<Rightarrow> 1)"

datatype f64 = Fin rat | PosInf | NegInf | NaN

record memory_row =
  m_id :: int
  m_doc :: int
  m_type :: rstr
  m_entity :: "int option"
  m_weight :: rat
  m_confidence :: f64
  m_superseded :: "int option"
  m_tags :: "rstr option"
  m_created :: int
  m_updated :: int
  m_event_date :: "rstr option"

record edge_row =
  e_src :: int
  e_dst :: int
  e_type :: rstr
  e_weight :: rat
  e_created :: int

record queue_row =
  q_doc :: int
  q_enqueued :: int
  q_attempts :: nat
  q_error :: "rstr option"
  q_status :: rstr

record mem_db =
  memories :: "memory_row list"
  memory_edges :: "edge_row list"
  extraction_queue :: "queue_row list"
  entities :: "int list"

datatype mem_error = ForeignKey | BadConfidence | SelfSupersede | NoActiveMemory int

definition sota_migrate :: mem_db where
  "sota_migrate = \<lparr>memories = [], memory_edges = [], extraction_queue = [], entities = []\<rparr>"

section \<open>Writing\<close>

definition next_rowid :: "memory_row list \<Rightarrow> int" where
  "next_rowid rows = (if rows = [] then 1 else Max (m_id ` set rows) + 1)"

definition put_memory_with_date ::
  "(int \<Rightarrow> bool) \<Rightarrow> int \<Rightarrow> int \<Rightarrow> memory_type \<Rightarrow> int option \<Rightarrow> rstr option \<Rightarrow> f64 \<Rightarrow> rstr option \<Rightarrow>
   mem_db \<Rightarrow> mem_error + int \<times> mem_db" where
  "put_memory_with_date doc_ok ts doc ty ent tg conf date s =
     (if \<not> doc_ok doc \<or> (case ent of None \<Rightarrow> False | Some e \<Rightarrow> e \<notin> set (entities s)) then Inl ForeignKey
      else let i = next_rowid (memories s) in
        Inr (i, s\<lparr>memories := memories s @ [\<lparr>m_id = i, m_doc = doc, m_type = type_str ty, m_entity = ent,
               m_weight = default_weight ty, m_confidence = conf, m_superseded = None, m_tags = tg,
               m_created = ts, m_updated = ts, m_event_date = date\<rparr>]\<rparr>))"

definition put_memory ::
  "(int \<Rightarrow> bool) \<Rightarrow> int \<Rightarrow> int \<Rightarrow> memory_type \<Rightarrow> int option \<Rightarrow> rstr option \<Rightarrow> f64 \<Rightarrow>
   mem_db \<Rightarrow> mem_error + int \<times> mem_db" where
  "put_memory doc_ok ts doc ty ent tg conf s = put_memory_with_date doc_ok ts doc ty ent tg conf None s"

text \<open>The rows \<open>ensure_raw_memory\<close> looks for.\<close>

definition raw_active :: "int \<Rightarrow> memory_row \<Rightarrow> bool" where
  "raw_active doc m \<longleftrightarrow> m_doc m = doc \<and> m_type m = lit ''raw'' \<and> m_entity m = None \<and> m_superseded m = None"

definition ensure_raw_memory :: "(int \<Rightarrow> bool) \<Rightarrow> int \<Rightarrow> int \<Rightarrow> mem_db \<Rightarrow> mem_error + int \<times> mem_db" where
  "ensure_raw_memory doc_ok ts doc s =
     (case find (raw_active doc) (memories s) of
        Some m \<Rightarrow> Inr (m_id m, s)
      | None \<Rightarrow> put_memory doc_ok ts doc Raw None None (Fin 1) s)"

definition enqueue_extraction :: "int \<Rightarrow> int \<Rightarrow> mem_db \<Rightarrow> mem_db" where
  "enqueue_extraction ts doc s =
     (if doc \<in> q_doc ` set (extraction_queue s) then s
      else s\<lparr>extraction_queue := extraction_queue s @
        [\<lparr>q_doc = doc, q_enqueued = ts, q_attempts = 0, q_error = None, q_status = lit ''pending''\<rparr>]\<rparr>)"

definition ensure_raw_memory_and_enqueue ::
  "(int \<Rightarrow> bool) \<Rightarrow> int \<Rightarrow> int \<Rightarrow> mem_db \<Rightarrow> mem_error + int \<times> mem_db" where
  "ensure_raw_memory_and_enqueue doc_ok ts doc s =
     (case ensure_raw_memory doc_ok ts doc s of
        Inl e \<Rightarrow> Inl e
      | Inr (i, s') \<Rightarrow> Inr (i, enqueue_extraction ts doc s'))"

text \<open>\<^verbatim>\<open>INSERT ... SELECT\<close>: the selection is made on the table as it was before the statement, then
  the rows are inserted one after the other.\<close>

fun insert_raws :: "int \<Rightarrow> int list \<Rightarrow> mem_db \<Rightarrow> mem_db" where
  "insert_raws ts [] s = s"
| "insert_raws ts (doc # docs) s =
     insert_raws ts docs (s\<lparr>memories := memories s @
       [\<lparr>m_id = next_rowid (memories s), m_doc = doc, m_type = lit ''raw'', m_entity = None,
         m_weight = default_weight Raw, m_confidence = Fin 1, m_superseded = None, m_tags = None,
         m_created = ts, m_updated = ts, m_event_date = None\<rparr>]\<rparr>)"

definition ensure_raw_memory_and_enqueue_batch ::
  "(int \<Rightarrow> bool) \<Rightarrow> int \<Rightarrow> int list \<Rightarrow> mem_db \<Rightarrow> mem_error + nat \<times> mem_db" where
  "ensure_raw_memory_and_enqueue_batch doc_ok ts docs s =
     (if docs = [] then Inr (0, s)
      else let new = filter (\<lambda>d. \<not> (\<exists>m \<in> set (memories s). raw_active d m)) docs
        in if \<exists>d \<in> set new. \<not> doc_ok d then Inl ForeignKey
           else Inr (length new, fold (enqueue_extraction ts) docs (insert_raws ts new s)))"

definition supersede :: "int \<Rightarrow> int \<Rightarrow> int \<Rightarrow> mem_db \<Rightarrow> mem_error + mem_db" where
  "supersede ts old_id new_id s =
     (let ids = m_id ` set (memories s) in
      if old_id \<in> ids \<and> new_id \<notin> ids then Inl ForeignKey
      else let s' = s\<lparr>memories := map (\<lambda>m. if m_id m = old_id
                       then m\<lparr>m_superseded := Some new_id, m_updated := ts\<rparr> else m) (memories s)\<rparr>
        in if \<exists>e \<in> set (memory_edges s). e_src e = new_id \<and> e_dst e = old_id \<and> e_type e = lit ''supersedes''
           then Inr s'
           else if new_id \<notin> ids \<or> old_id \<notin> ids then Inl ForeignKey
           else Inr (s'\<lparr>memory_edges := memory_edges s' @
             [\<lparr>e_src = new_id, e_dst = old_id, e_type = lit ''supersedes'', e_weight = 1, e_created = ts\<rparr>]\<rparr>))"

text \<open>\<^verbatim>\<open>ORDER BY a, updated_ts DESC LIMIT 1\<close>: the first row of the least key.\<close>

definition pick_first :: "('r \<Rightarrow> int \<times> int) \<Rightarrow> 'r list \<Rightarrow> 'r option" where
  "pick_first key rows =
     (case rows of [] \<Rightarrow> None
      | r # rs \<Rightarrow> Some (foldl (\<lambda>b x. if fst (key x) < fst (key b) \<or>
            fst (key x) = fst (key b) \<and> snd (key x) < snd (key b) then x else b) r rs))"

definition active_for_doc :: "int \<Rightarrow> mem_db \<Rightarrow> memory_row option" where
  "active_for_doc doc s =
     pick_first (\<lambda>m. (if m_type m = lit ''raw'' then 0 else 1, - m_updated m))
       (filter (\<lambda>m. m_doc m = doc \<and> m_entity m = None \<and> m_superseded m = None) (memories s))"

definition set_promoted :: "int \<Rightarrow> int \<Rightarrow> mem_db \<Rightarrow> mem_db" where
  "set_promoted ts doc s =
     (if doc \<in> q_doc ` set (extraction_queue s)
      then s\<lparr>extraction_queue := map (\<lambda>q. if q_doc q = doc
              then q\<lparr>q_status := lit ''promoted'', q_error := None\<rparr> else q) (extraction_queue s)\<rparr>
      else s\<lparr>extraction_queue := extraction_queue s @
        [\<lparr>q_doc = doc, q_enqueued = ts, q_attempts = 0, q_error = None, q_status = lit ''promoted''\<rparr>]\<rparr>)"

definition valid_confidence :: "f64 \<Rightarrow> bool" where
  "valid_confidence c = (case c of Fin r \<Rightarrow> 0 \<le> r \<and> r \<le> 1 | _ \<Rightarrow> False)"

definition promote_row ::
  "(int \<Rightarrow> bool) \<Rightarrow> int \<Rightarrow> int \<Rightarrow> memory_type \<Rightarrow> f64 \<Rightarrow> rstr option \<Rightarrow> mem_db \<Rightarrow> mem_error + int \<times> mem_db" where
  "promote_row doc_ok ts doc ty conf date s =
     (case active_for_doc doc s of
        Some m \<Rightarrow> Inr (m_id m, s\<lparr>memories := map (\<lambda>r. if m_id r = m_id m
            then r\<lparr>m_type := type_str ty, m_weight := default_weight ty, m_confidence := conf,
                   m_event_date := date, m_updated := ts\<rparr> else r) (memories s)\<rparr>)
      | None \<Rightarrow> put_memory_with_date doc_ok ts doc ty None None conf date s)"

definition promote_doc_memory ::
  "(int \<Rightarrow> bool) \<Rightarrow> int \<Rightarrow> int \<Rightarrow> memory_type \<Rightarrow> f64 \<Rightarrow> rstr option \<Rightarrow> int option \<Rightarrow> mem_db \<Rightarrow>
   mem_error + int \<times> mem_db" where
  "promote_doc_memory doc_ok ts doc ty conf date supersedes s =
     (if \<not> valid_confidence conf then Inl BadConfidence
      else if supersedes = Some doc then Inl SelfSupersede
      else case promote_row doc_ok ts doc ty conf date s of
        Inl e \<Rightarrow> Inl e
      | Inr (i, s1) \<Rightarrow>
          (let s2 = set_promoted ts doc s1 in
           case supersedes of
             None \<Rightarrow> Inr (i, s2)
           | Some old \<Rightarrow>
               (case pick_first (\<lambda>m. (0, - m_updated m))
                       (filter (\<lambda>m. m_doc m = old \<and> m_superseded m = None) (memories s2)) of
                  None \<Rightarrow> Inl (NoActiveMemory old)
                | Some m \<Rightarrow> (case supersede ts (m_id m) i s2 of Inl e \<Rightarrow> Inl e | Inr s3 \<Rightarrow> Inr (i, s3)))))"

section \<open>Reading\<close>

record doc_memory_state =
  st_type :: memory_type
  st_confidence :: f64
  st_event_date :: "rstr option"
  st_superseded :: bool

definition doc_memory_state_of :: "int \<Rightarrow> mem_db \<Rightarrow> doc_memory_state option" where
  "doc_memory_state_of doc s =
     map_option (\<lambda>m. \<lparr>st_type = type_parse (m_type m), st_confidence = m_confidence m,
         st_event_date = m_event_date m, st_superseded = (m_superseded m \<noteq> None)\<rparr>)
       (pick_first (\<lambda>m. (if m_superseded m = None then 0 else 1, - m_updated m))
         (filter (\<lambda>m. m_doc m = doc) (memories s)))"

definition pop_extraction_batch :: "nat \<Rightarrow> mem_db \<Rightarrow> int list" where
  "pop_extraction_batch n s =
     take n (map q_doc (sort_key q_enqueued (filter (\<lambda>q. q_status q = lit ''pending'') (extraction_queue s))))"

text \<open>Breadth-first search over \<^verbatim>\<open>memory_edges\<close>: \<open>dst\<close> is the map of hop distances in insertion
  order, \<open>queue\<close> the \<^verbatim>\<open>VecDeque\<close>. At most \<open>cap\<close> edges of a node are read: the first ones in the order in which SQLite returns the
  rows, which the query does not fix and which is here the order of the list.\<close>

definition out_edges :: "mem_db \<Rightarrow> nat \<Rightarrow> int \<Rightarrow> int list" where
  "out_edges s cap node = take cap (map e_dst (filter (\<lambda>e. e_src e = node) (memory_edges s)))"

fun visit :: "nat \<Rightarrow> int list \<Rightarrow> (int \<times> nat) list \<Rightarrow> (int \<times> nat) list \<Rightarrow>
    (int \<times> nat) list \<times> (int \<times> nat) list" where
  "visit hop [] dst queue = (dst, queue)"
| "visit hop (d # ds) dst queue =
     (if d \<in> fst ` set dst then visit hop ds dst queue
      else visit hop ds (dst @ [(d, hop + 1)]) (queue @ [(d, hop + 1)]))"

lemma visit_count:
  "visit hop ds dst queue = (dst', queue') \<Longrightarrow> \<exists>xs. dst' = dst @ xs \<and> queue' = queue @ xs \<and>
     fst ` set xs = set ds - fst ` set dst \<and> distinct (map fst xs)
     \<and> (\<forall>x \<in> set xs. snd x = hop + 1)"
proof (induction ds arbitrary: dst queue)
  case (Cons d ds)
  show ?case
  proof (cases "d \<in> fst ` set dst")
    case True
    with Cons show ?thesis by auto
  next
    case False
    with Cons.prems have "visit hop ds (dst @ [(d, hop + 1)]) (queue @ [(d, hop + 1)]) = (dst', queue')"
      by simp
    from Cons.IH [OF this] obtain xs where xs: "dst' = (dst @ [(d, hop + 1)]) @ xs"
      "queue' = (queue @ [(d, hop + 1)]) @ xs" "fst ` set xs = set ds - fst ` set (dst @ [(d, hop + 1)])"
      "distinct (map fst xs)" "\<forall>x \<in> set xs. snd x = hop + 1" by blast
    then show ?thesis using False by (intro exI [of _ "(d, hop + 1) # xs"]) auto
  qed
qed simp

text \<open>The nodes an edge leads to that have no distance yet.\<close>

definition unseen :: "mem_db \<Rightarrow> (int \<times> nat) list \<Rightarrow> int set" where
  "unseen s dst = e_dst ` set (memory_edges s) - fst ` set dst"

lemma unseen_visit:
  assumes "visit hop (out_edges s cap node) dst queue = (dst', queue')"
  shows "card (unseen s dst') + length queue' = card (unseen s dst) + length queue"
proof -
  obtain xs where xs: "dst' = dst @ xs" "queue' = queue @ xs"
      "fst ` set xs = set (out_edges s cap node) - fst ` set dst" "distinct (map fst xs)"
    using visit_count [OF assms] by blast
  have "set (out_edges s cap node) \<subseteq> e_dst ` set (memory_edges s)"
    by (auto simp: out_edges_def dest!: in_set_takeD)
  then have sub: "fst ` set xs \<subseteq> unseen s dst" using xs(3) by (auto simp: unseen_def)
  have fin: "finite (unseen s dst)" by (simp add: unseen_def)
  have len: "card (fst ` set xs) = length xs"
    using distinct_card [OF xs(4)] by simp
  have "unseen s dst' = unseen s dst - fst ` set xs" by (auto simp: unseen_def xs(1))
  then have "card (unseen s dst') = card (unseen s dst) - length xs"
    using card_Diff_subset [OF _ sub] len by simp
  moreover have "length xs \<le> card (unseen s dst)" using card_mono [OF fin sub] len by simp
  ultimately show ?thesis by (simp add: xs(2))
qed

function bfs :: "mem_db \<Rightarrow> nat \<Rightarrow> nat \<Rightarrow> (int \<times> nat) list \<Rightarrow> (int \<times> nat) list \<Rightarrow> (int \<times> nat) list" where
  "bfs s cap max_hops dst [] = dst"
| "bfs s cap max_hops dst ((node, hop) # queue) =
     (if hop \<ge> max_hops then bfs s cap max_hops dst queue
      else let (dst', queue') = visit hop (out_edges s cap node) dst queue
           in bfs s cap max_hops dst' queue')"
  by pat_completeness auto
termination
proof (relation "measure (\<lambda>(s, cap, mh, dst, queue). card (unseen s dst) + length queue)", goal_cases)
  case (3 s cap mh dst node hop queue x dst' queue')
  then have "card (unseen s dst') + length queue' = card (unseen s dst) + length queue"
    by (intro unseen_visit) simp
  then show ?case by simp
qed auto

text \<open>The seeds enter the \<^verbatim>\<open>HashMap\<close> once, the queue as often as they are listed.\<close>

definition multi_hop_neighbors :: "mem_db \<Rightarrow> int list \<Rightarrow> nat \<Rightarrow> nat \<Rightarrow> (int \<times> nat) list" where
  "multi_hop_neighbors s seeds max_hops cap =
     (if seeds = [] \<or> max_hops = 0 then []
      else sort_key snd (filter (\<lambda>p. fst p \<notin> set seeds)
        (bfs s cap max_hops (map (\<lambda>i. (i, 0)) (remdups seeds)) (map (\<lambda>i. (i, 0)) seeds))))"

section \<open>Breadth-first search\<close>

text \<open>\<open>at_dist R S x n\<close>: \<open>n\<close> is the length of a shortest path from \<open>S\<close> to \<open>x\<close>.\<close>

definition at_dist :: "(int \<times> int) set \<Rightarrow> int set \<Rightarrow> int \<Rightarrow> nat \<Rightarrow> bool" where
  "at_dist R S x n \<longleftrightarrow> (\<exists>a \<in> S. (a, x) \<in> R ^^ n) \<and> (\<forall>k < n. \<forall>a \<in> S. (a, x) \<notin> R ^^ k)"

lemma at_dist_unique: "at_dist R S x n \<Longrightarrow> at_dist R S x m \<Longrightarrow> n = m"
  unfolding at_dist_def by (metis nat_neq_iff)

lemma at_dist_0: "at_dist R S x 0 \<longleftrightarrow> x \<in> S"
  by (auto simp: at_dist_def)

lemma at_dist_pred:
  assumes "at_dist R S x (Suc n)"
  obtains w where "at_dist R S w n" "(w, x) \<in> R"
proof -
  obtain a where a: "a \<in> S" "(a, x) \<in> R ^^ Suc n" using assms by (auto simp: at_dist_def)
  then obtain w where w: "(a, w) \<in> R ^^ n" "(w, x) \<in> R" by auto
  have "(b, w) \<notin> R ^^ k" if "k < n" "b \<in> S" for k b
  proof
    assume "(b, w) \<in> R ^^ k"
    then have "(b, x) \<in> R ^^ Suc k" using w(2) by auto
    then show False using assms that unfolding at_dist_def by (metis Suc_less_eq)
  qed
  then have "at_dist R S w n" using a w by (auto simp: at_dist_def)
  then show ?thesis using w(2) that by blast
qed

lemma reach_at_dist: "a \<in> S \<Longrightarrow> (a, x) \<in> R ^^ n \<Longrightarrow> \<exists>k \<le> n. at_dist R S x k"
proof -
  assume "a \<in> S" "(a, x) \<in> R ^^ n"
  then have ex: "\<exists>a \<in> S. (a, x) \<in> R ^^ n" by blast
  define k where "k = (LEAST k. \<exists>a \<in> S. (a, x) \<in> R ^^ k)"
  have "\<exists>a \<in> S. (a, x) \<in> R ^^ k" unfolding k_def by (rule LeastI [of _ n]) (rule ex)
  moreover have "\<forall>j < k. \<forall>a \<in> S. (a, x) \<notin> R ^^ j" unfolding k_def using not_less_Least by blast
  moreover have "k \<le> n" unfolding k_def by (rule Least_le) (rule ex)
  ultimately show ?thesis by (auto simp: at_dist_def)
qed

text \<open>The loop invariant: distances are exact, the queue is sorted and spans at most two levels,
  everything that left the queue below the hop limit has its successors recorded, and every
  level up to that of the head is complete.\<close>

definition bfs_inv :: "(int \<times> int) set \<Rightarrow> int set \<Rightarrow> nat \<Rightarrow> (int \<times> nat) list \<Rightarrow> (int \<times> nat) list \<Rightarrow> bool" where
  "bfs_inv R S mh dst q \<longleftrightarrow>
     (\<forall>(x, h) \<in> set dst. at_dist R S x h \<and> h \<le> mh) \<and> set q \<subseteq> set dst \<and> sorted (map snd q) \<and>
     (\<forall>p \<in> set q. snd p \<le> snd (hd q) + 1) \<and>
     (\<forall>(x, h) \<in> set dst. h < mh \<longrightarrow> (x, h) \<in> set q \<or> R `` {x} \<subseteq> fst ` set dst) \<and>
     (q \<noteq> [] \<longrightarrow> (\<forall>x n. at_dist R S x n \<longrightarrow> n \<le> snd (hd q) \<longrightarrow> x \<in> fst ` set dst)) \<and>
     S \<subseteq> fst ` set dst"

lemma bfs_inv_final:
  assumes inv: "bfs_inv R S mh dst []" and d: "at_dist R S x n" "n \<le> mh"
  shows "(x, n) \<in> set dst"
  using d
proof (induction n arbitrary: x)
  case 0
  then have "x \<in> fst ` set dst" using inv by (auto simp: bfs_inv_def at_dist_0)
  then obtain h where "(x, h) \<in> set dst" by auto
  moreover have "h = 0" using calculation inv 0 at_dist_unique by (fastforce simp: bfs_inv_def)
  ultimately show ?case by simp
next
  case (Suc n)
  obtain w where w: "at_dist R S w n" "(w, x) \<in> R" by (rule at_dist_pred [OF Suc.prems(1)])
  then have "(w, n) \<in> set dst" using Suc by simp
  then have "x \<in> fst ` set dst" using inv Suc.prems(2) w(2) by (fastforce simp: bfs_inv_def)
  then obtain h where h: "(x, h) \<in> set dst" by auto
  moreover have "h = Suc n" using h inv Suc.prems(1) at_dist_unique by (fastforce simp: bfs_inv_def)
  ultimately show ?case by simp
qed

text \<open>Popping a node whose successors get recorded completes the next level when the head moves
  on to it.\<close>

lemma bfs_levels:
  assumes dst: "\<forall>(x, h) \<in> set dst. at_dist R S x h" and q: "sorted (map snd q)" "set q \<subseteq> set dst"
    and proc: "\<forall>(x, h) \<in> set dst. h < mh \<longrightarrow> (x, h) \<in> set q \<or> R `` {x} \<subseteq> fst ` set dst"
    and old: "\<forall>x n. at_dist R S x n \<longrightarrow> n \<le> hop \<longrightarrow> x \<in> fst ` set dst"
    and hd: "q \<noteq> []" "snd (hd q) \<le> hop + 1" "hop < mh"
  shows "\<forall>x n. at_dist R S x n \<longrightarrow> n \<le> snd (hd q) \<longrightarrow> x \<in> fst ` set dst"
proof (intro allI impI)
  fix x n
  assume d: "at_dist R S x n" and n: "n \<le> snd (hd q)"
  show "x \<in> fst ` set dst"
  proof (cases "n \<le> hop")
    case True
    with old d show ?thesis by blast
  next
    case False
    with n hd(2) have e: "n = Suc hop" "snd (hd q) = Suc hop" by simp_all
    obtain w where w: "at_dist R S w hop" "(w, x) \<in> R" using at_dist_pred d e(1) by metis
    then obtain h where h: "(w, h) \<in> set dst" using old by force
    then have "h = hop" using dst w(1) at_dist_unique by fastforce
    moreover have "(w, hop) \<notin> set q"
    proof
      assume "(w, hop) \<in> set q"
      then have "snd (hd q) \<le> hop" using q(1) hd(1) by (cases q) auto
      then show False using e(2) by simp
    qed
    ultimately show ?thesis using proc h hd(3) w(2) by fastforce
  qed
qed

lemma bfs_inv_skip:
  assumes inv: "bfs_inv R S mh dst ((node, hop) # q)" and hop: "mh \<le> hop"
  shows "bfs_inv R S mh dst q"
proof -
  have mem: "set q \<subseteq> set dst" "(node, hop) \<in> set dst" and le: "\<forall>(x, h) \<in> set dst. h \<le> mh"
    and srt: "sorted (map snd q)" "\<forall>p \<in> set q. hop \<le> snd p"
    using inv by (auto simp: bfs_inv_def)
  have lvl: "\<forall>p \<in> set q. snd p = hop" using mem le srt(2) hop by fastforce
  then have "q \<noteq> [] \<Longrightarrow> snd (hd q) = hop" by simp
  then have "\<forall>p \<in> set q. snd p \<le> snd (hd q) + 1" using lvl by (cases q) auto
  then show ?thesis using inv lvl hop by (auto simp: bfs_inv_def)
qed

lemma bfs_inv_visit:
  assumes inv: "bfs_inv R S mh dst ((node, hop) # q)" and hop: "hop < mh"
    and v: "visit hop succs dst q = (dst', q')" and succs: "set succs = R `` {node}"
  shows "bfs_inv R S mh dst' q'"
proof -
  obtain xs where dst': "dst' = dst @ xs" and q': "q' = q @ xs" and
    fx: "fst ` set xs = set succs - fst ` set dst" and sx: "\<forall>x \<in> set xs. snd x = hop + 1"
    using visit_count [OF v] by blast
  have dst: "\<forall>(x, h) \<in> set dst. at_dist R S x h \<and> h \<le> mh" and mem: "set q \<subseteq> set dst" "(node, hop) \<in> set dst"
    and srt: "sorted (map snd q)" "\<forall>p \<in> set q. hop \<le> snd p" and span: "\<forall>p \<in> set q. snd p \<le> hop + 1"
    and proc: "\<forall>(x, h) \<in> set dst. h < mh \<longrightarrow> (x, h) \<in> insert (node, hop) (set q) \<or> R `` {x} \<subseteq> fst ` set dst"
    and old: "\<forall>x n. at_dist R S x n \<longrightarrow> n \<le> hop \<longrightarrow> x \<in> fst ` set dst" and S: "S \<subseteq> fst ` set dst"
    using inv by (auto simp: bfs_inv_def)
  have new: "at_dist R S x (hop + 1)" if "x \<in> fst ` set xs" for x
  proof -
    have x: "(node, x) \<in> R" "x \<notin> fst ` set dst" using that fx succs by auto
    obtain a where "a \<in> S" "(a, node) \<in> R ^^ hop" using dst mem(2) by (auto simp: at_dist_def)
    then have "(a, x) \<in> R ^^ Suc hop" using x(1) by auto
    then obtain k where k: "k \<le> Suc hop" "at_dist R S x k" using reach_at_dist \<open>a \<in> S\<close> by blast
    then have "\<not> k \<le> hop" using old x(2) by blast
    then show ?thesis using k by (simp add: le_Suc_eq)
  qed
  have 1: "\<forall>(x, h) \<in> set dst'. at_dist R S x h \<and> h \<le> mh"
    using dst new sx hop by (force simp: dst')
  have 2: "set q' \<subseteq> set dst'" "sorted (map snd q')"
    using mem(1) srt(1) span sx by (auto simp: q' dst' sorted_append) (simp add: sorted_wrt_iff_nth_less)
  have 3: "\<forall>(x, h) \<in> set dst'. h < mh \<longrightarrow> (x, h) \<in> set q' \<or> R `` {x} \<subseteq> fst ` set dst'"
  proof -
    have "R `` {node} \<subseteq> fst ` set dst'" using fx succs by (auto simp: dst')
    then show ?thesis using proc by (fastforce simp: dst' q')
  qed
  have 4: "\<forall>p \<in> set q'. snd p \<le> snd (hd q') + 1"
  proof -
    have hd: "hop \<le> snd (hd q')" if "q' \<noteq> []"
      using that srt(2) sx by (cases q; cases xs) (auto simp: q')
    have "snd p \<le> hop + 1" if "p \<in> set q'" for p using that span sx by (auto simp: q')
    then show ?thesis using hd by (cases q') force+
  qed
  have 5: "q' \<noteq> [] \<Longrightarrow> \<forall>x n. at_dist R S x n \<longrightarrow> n \<le> snd (hd q') \<longrightarrow> x \<in> fst ` set dst'"
  proof (rule bfs_levels [where hop = hop, OF _ 2(2,1) 3 _ _ _ hop])
    show "\<forall>(x, h) \<in> set dst'. at_dist R S x h" using 1 by auto
    show "\<forall>x n. at_dist R S x n \<longrightarrow> n \<le> hop \<longrightarrow> x \<in> fst ` set dst'" using old by (auto simp: dst')
    assume "q' \<noteq> []"
    then show "q' \<noteq> []" .
    from \<open>q' \<noteq> []\<close> show "snd (hd q') \<le> hop + 1"
      using span sx by (cases q; cases xs) (auto simp: q')
  qed
  show ?thesis
    unfolding bfs_inv_def using 1 2 3 4 5 S by (auto simp: dst')
qed

definition hop_edges :: "mem_db \<Rightarrow> nat \<Rightarrow> (int \<times> int) set" where
  "hop_edges s cap = {(a, b). b \<in> set (out_edges s cap a)}"

lemma bfs_correct:
  "bfs_inv (hop_edges s cap) S mh dst q \<Longrightarrow>
     (x, n) \<in> set (bfs s cap mh dst q) \<longleftrightarrow> at_dist (hop_edges s cap) S x n \<and> n \<le> mh"
proof (induction s cap mh dst q rule: bfs.induct)
  case (1 s cap mh dst)
  then show ?case using bfs_inv_final [OF 1] by (auto simp: bfs_inv_def)
next
  case (2 s cap mh dst node hop q)
  show ?case
  proof (cases "mh \<le> hop")
    case True
    then show ?thesis using 2 bfs_inv_skip [OF "2.prems" True] by simp
  next
    case False
    obtain dst' q' where v: "visit hop (out_edges s cap node) dst q = (dst', q')" by fastforce
    have "bfs_inv (hop_edges s cap) S mh dst' q'"
      using False by (intro bfs_inv_visit [OF "2.prems" _ v]) (auto simp: hop_edges_def)
    then show ?thesis using 2 False v by simp
  qed
qed

text \<open>C9. \<^verbatim>\<open>multi_hop_neighbors\<close> terminates on every graph and returns exactly the memories that can be
  reached from the seeds in at most \<open>max_hops\<close> hops, seeds excluded, each with the length of a
  shortest path over the edges read (the first \<open>cap\<close> of each node), nearest first.\<close>

theorem multi_hop_exact:
  "((x, h) \<in> set (multi_hop_neighbors s seeds max_hops cap) \<longleftrightarrow>
      x \<notin> set seeds \<and> at_dist (hop_edges s cap) (set seeds) x h \<and> h \<le> max_hops) \<and>
   sorted (map snd (multi_hop_neighbors s seeds max_hops cap))"
proof
  let ?R = "hop_edges s cap" and ?d = "map (\<lambda>i. (i, 0)) (remdups seeds)" and ?q = "map (\<lambda>i. (i, 0 :: nat)) seeds"
  have "sorted (map snd ?q)" by (induction seeds) auto
  then have "bfs_inv ?R (set seeds) max_hops ?d ?q"
    by (auto simp: bfs_inv_def at_dist_0 image_image hd_map)
  from bfs_correct [OF this, of x h]
  have b: "(x, h) \<in> set (bfs s cap max_hops ?d ?q) \<longleftrightarrow> at_dist ?R (set seeds) x h \<and> h \<le> max_hops" .
  show "(x, h) \<in> set (multi_hop_neighbors s seeds max_hops cap) \<longleftrightarrow>
      x \<notin> set seeds \<and> at_dist ?R (set seeds) x h \<and> h \<le> max_hops"
  proof (cases "seeds = [] \<or> max_hops = 0")
    case True
    then show ?thesis by (auto simp: multi_hop_neighbors_def at_dist_0) (auto simp: at_dist_def)
  next
    case False
    then show ?thesis using b by (auto simp: multi_hop_neighbors_def)
  qed
  show "sorted (map snd (multi_hop_neighbors s seeds max_hops cap))"
    by (simp add: multi_hop_neighbors_def)
qed

section \<open>Invariant\<close>

abbreviation mem_ids :: "mem_db \<Rightarrow> int set" where
  "mem_ids s \<equiv> m_id ` set (memories s)"

definition mem_wf :: "(int \<Rightarrow> bool) \<Rightarrow> mem_db \<Rightarrow> bool" where
  "mem_wf doc_ok s \<longleftrightarrow> distinct (map m_id (memories s)) \<and>
     (\<forall>m \<in> set (memories s). doc_ok (m_doc m) \<and> set_option (m_superseded m) \<subseteq> mem_ids s) \<and>
     distinct (map (\<lambda>e. (e_src e, e_dst e, e_type e)) (memory_edges s)) \<and>
     (\<forall>e \<in> set (memory_edges s). e_src e \<in> mem_ids s \<and> e_dst e \<in> mem_ids s) \<and>
     distinct (map q_doc (extraction_queue s))"

lemma next_rowid_fresh: "next_rowid rows \<notin> m_id ` set rows"
proof (cases "rows = []")
  case False
  then have "\<forall>i \<in> m_id ` set rows. i < next_rowid rows"
    by (auto simp: next_rowid_def intro: le_less_trans [OF Max_ge])
  then show ?thesis by blast
qed simp

lemma mem_wf_add:
  assumes wf: "mem_wf doc_ok s" and m: "m_id m = next_rowid (memories s)" "doc_ok (m_doc m)" "m_superseded m = None"
  shows "mem_wf doc_ok (s\<lparr>memories := memories s @ [m]\<rparr>)"
  using wf m next_rowid_fresh [of "memories s"] by (auto simp: mem_wf_def)

lemma put_memory_wf:
  "mem_wf doc_ok s \<Longrightarrow> put_memory_with_date doc_ok ts doc ty ent tg conf date s = Inr (i, s') \<Longrightarrow> mem_wf doc_ok s'"
  by (auto simp: put_memory_with_date_def Let_def intro!: mem_wf_add split: if_splits)

lemma enqueue_wf: "mem_wf doc_ok s \<Longrightarrow> mem_wf doc_ok (enqueue_extraction ts doc s)"
  by (auto simp: enqueue_extraction_def mem_wf_def)

lemma ensure_wf:
  "mem_wf doc_ok s \<Longrightarrow> ensure_raw_memory_and_enqueue doc_ok ts doc s = Inr (i, s') \<Longrightarrow> mem_wf doc_ok s'"
  by (auto simp: ensure_raw_memory_and_enqueue_def ensure_raw_memory_def put_memory_def
      intro: enqueue_wf put_memory_wf split: sum.splits option.splits)

lemma insert_raws_wf:
  "mem_wf doc_ok s \<Longrightarrow> \<forall>d \<in> set docs. doc_ok d \<Longrightarrow> mem_wf doc_ok (insert_raws ts docs s)"
  by (induction docs arbitrary: s) (simp_all add: mem_wf_add)

lemma ensure_batch_wf:
  assumes "mem_wf doc_ok s" "ensure_raw_memory_and_enqueue_batch doc_ok ts docs s = Inr (n, s')"
  shows "mem_wf doc_ok s'"
proof -
  have e: "mem_wf doc_ok (fold (enqueue_extraction ts) ds t)" if "mem_wf doc_ok t" for ds t
    using that by (induction ds arbitrary: t) (auto intro: enqueue_wf)
  show ?thesis
    using assms
    by (auto simp: ensure_raw_memory_and_enqueue_batch_def Let_def intro!: e insert_raws_wf split: if_splits)
qed

lemma mem_wf_map:
  assumes wf: "mem_wf doc_ok s" and f: "\<And>m. m_id (f m) = m_id m" "\<And>m. m_doc (f m) = m_doc m"
    "\<And>m. m \<in> set (memories s) \<Longrightarrow> set_option (m_superseded (f m)) \<subseteq> mem_ids s"
  shows "mem_wf doc_ok (s\<lparr>memories := map f (memories s)\<rparr>)"
proof -
  have "map m_id (map f (memories s)) = map m_id (memories s)" "m_id ` f ` set (memories s) = mem_ids s"
    using f(1) by (auto simp: image_image)
  then show ?thesis using wf f by (auto simp: mem_wf_def comp_def)
qed

lemma mem_ids_map: "(\<And>m. m_id (f m) = m_id m) \<Longrightarrow> mem_ids (s\<lparr>memories := map f (memories s)\<rparr>) = mem_ids s"
  by (auto simp: image_image)

lemma mem_wf_add_edge:
  assumes "mem_wf doc_ok s" "e_src e \<in> mem_ids s" "e_dst e \<in> mem_ids s"
    "\<forall>f \<in> set (memory_edges s). \<not> (e_src f = e_src e \<and> e_dst f = e_dst e \<and> e_type f = e_type e)"
  shows "mem_wf doc_ok (s\<lparr>memory_edges := memory_edges s @ [e]\<rparr>)"
  using assms by (auto simp: mem_wf_def)

lemma supersede_wf:
  assumes wf: "mem_wf doc_ok s" and s: "supersede ts old new s = Inr s'"
  shows "mem_wf doc_ok s'"
proof -
  let ?f = "\<lambda>m. if m_id m = old then m\<lparr>m_superseded := Some new, m_updated := ts\<rparr> else m"
  let ?s = "s\<lparr>memories := map ?f (memories s)\<rparr>"
  have "mem_wf doc_ok ?s"
  proof (cases "old \<in> mem_ids s")
    case True
    then have "new \<in> mem_ids s" using s by (auto simp: supersede_def Let_def split: if_splits)
    then show ?thesis using wf by (intro mem_wf_map) (auto simp: mem_wf_def)
  next
    case False
    then have "map ?f (memories s) = memories s" by (intro map_idI) auto
    then show ?thesis using wf by simp
  qed
  moreover have "mem_ids ?s = mem_ids s" by (rule mem_ids_map) simp
  moreover have "s' = ?s \<or> new \<in> mem_ids s \<and> old \<in> mem_ids s \<and>
      (\<forall>e \<in> set (memory_edges s). \<not> (e_src e = new \<and> e_dst e = old \<and> e_type e = lit ''supersedes'')) \<and>
      s' = ?s\<lparr>memory_edges := memory_edges ?s @
        [\<lparr>e_src = new, e_dst = old, e_type = lit ''supersedes'', e_weight = 1, e_created = ts\<rparr>]\<rparr>"
    using s by (simp add: supersede_def Let_def split: if_splits)
  ultimately show ?thesis
    using mem_wf_add_edge [of doc_ok ?s "\<lparr>e_src = new, e_dst = old, e_type = lit ''supersedes'', e_weight = 1, e_created = ts\<rparr>"]
    by (elim disjE conjE) simp_all
qed

lemma set_promoted_wf: "mem_wf doc_ok s \<Longrightarrow> mem_wf doc_ok (set_promoted ts doc s)"
proof -
  assume wf: "mem_wf doc_ok s"
  let ?g = "\<lambda>q. if q_doc q = doc then q\<lparr>q_status := lit ''promoted'', q_error := None\<rparr> else q"
  have "q_doc \<circ> ?g = q_doc" by (simp add: fun_eq_iff)
  then have "map q_doc (map ?g (extraction_queue s)) = map q_doc (extraction_queue s)"
    unfolding list.map_comp by simp
  then have "distinct (map q_doc (map ?g (extraction_queue s)))" using wf by (simp only: mem_wf_def)
  then show ?thesis
    using wf by (cases "doc \<in> q_doc ` set (extraction_queue s)") (simp_all add: set_promoted_def mem_wf_def)
qed

lemma set_promoted_memories [simp]:
  "memories (set_promoted ts doc s) = memories s" "memory_edges (set_promoted ts doc s) = memory_edges s"
  by (simp_all add: set_promoted_def)

lemma promote_row_wf:
  assumes "mem_wf doc_ok s" "promote_row doc_ok ts doc ty conf date s = Inr (i, s')"
  shows "mem_wf doc_ok s'"
proof (cases "active_for_doc doc s")
  case (Some m)
  let ?f = "\<lambda>r. if m_id r = m_id m then r\<lparr>m_type := type_str ty, m_weight := default_weight ty,
    m_confidence := conf, m_event_date := date, m_updated := ts\<rparr> else r"
  have s': "s' = s\<lparr>memories := map ?f (memories s)\<rparr>" using assms(2) Some by (auto simp: promote_row_def)
  show ?thesis
    unfolding s'
  proof (rule mem_wf_map [OF assms(1)])
    fix r assume "r \<in> set (memories s)"
    then have "set_option (m_superseded r) \<subseteq> mem_ids s" using assms(1) by (simp add: mem_wf_def)
    then show "set_option (m_superseded (?f r)) \<subseteq> mem_ids s" by (cases "m_id r = m_id m") simp_all
  qed simp_all
qed (use assms in \<open>auto simp: promote_row_def intro: put_memory_wf\<close>)

lemma promote_wf:
  assumes wf: "mem_wf doc_ok s" and p: "promote_doc_memory doc_ok ts doc ty conf date old s = Inr (i, s')"
  shows "mem_wf doc_ok s'"
proof -
  obtain j s1 where r: "promote_row doc_ok ts doc ty conf date s = Inr (j, s1)"
    using p by (auto simp: promote_doc_memory_def split: if_splits sum.splits)
  have "mem_wf doc_ok (set_promoted ts doc s1)" by (rule set_promoted_wf [OF promote_row_wf [OF wf r]])
  then show ?thesis
    using p r by (auto simp: promote_doc_memory_def Let_def dest: supersede_wf
        split: if_splits sum.splits option.splits)
qed

section \<open>Properties\<close>

lemma type_parse_str [simp]: "type_parse (type_str t) = t"
  by (cases t) (simp_all add: type_parse_def type_str_def lit_def)

text \<open>The loop the set-based batch replaces: one document after the other.\<close>

fun ensure_each :: "(int \<Rightarrow> bool) \<Rightarrow> int \<Rightarrow> int list \<Rightarrow> mem_db \<Rightarrow> mem_error + mem_db" where
  "ensure_each doc_ok ts [] s = Inr s"
| "ensure_each doc_ok ts (d # ds) s =
     (case ensure_raw_memory_and_enqueue doc_ok ts d s of
        Inl e \<Rightarrow> Inl e | Inr (i, s') \<Rightarrow> ensure_each doc_ok ts ds s')"

lemma enqueue_memories [simp]: "memories (enqueue_extraction ts d s) = memories s"
  by (simp add: enqueue_extraction_def)

lemma enqueue_set_memories:
  "enqueue_extraction ts d (s\<lparr>memories := rows\<rparr>) = (enqueue_extraction ts d s)\<lparr>memories := rows\<rparr>"
  by (cases s) (simp add: enqueue_extraction_def)

lemma enqueue_insert_raws:
  "enqueue_extraction ts d (insert_raws ts ds s) = insert_raws ts ds (enqueue_extraction ts d s)"
  by (induction ds arbitrary: s) (simp_all add: enqueue_set_memories)

definition has_raw :: "mem_db \<Rightarrow> int \<Rightarrow> bool" where
  "has_raw s d \<longleftrightarrow> (\<exists>m \<in> set (memories s). raw_active d m)"

lemma ensure_one:
  assumes "doc_ok d"
  shows "\<exists>i. ensure_raw_memory_and_enqueue doc_ok ts d s =
    Inr (i, enqueue_extraction ts d (if has_raw s d then s else insert_raws ts [d] s))"
proof (cases "find (raw_active d) (memories s)")
  case None
  then have "\<not> has_raw s d" by (auto simp: has_raw_def find_None_iff)
  then show ?thesis
    using None assms by (simp add: ensure_raw_memory_and_enqueue_def ensure_raw_memory_def
        put_memory_def put_memory_with_date_def Let_def type_str_def)
next
  case (Some m)
  then have "has_raw s d" by (auto simp: has_raw_def find_Some_iff)
  then show ?thesis
    using Some by (simp add: ensure_raw_memory_and_enqueue_def ensure_raw_memory_def)
qed

lemma has_raw_enqueue [simp]: "has_raw (enqueue_extraction ts d s) = has_raw s"
  by (simp add: has_raw_def fun_eq_iff)

lemma has_raw_insert: "has_raw (insert_raws ts [d] s) e \<longleftrightarrow> e = d \<or> has_raw s e"
  by (auto simp: has_raw_def raw_active_def)

lemma ensure_each_batch:
  assumes "distinct docs" "\<forall>d \<in> set docs. doc_ok d"
  shows "ensure_each doc_ok ts docs s =
    Inr (fold (enqueue_extraction ts) docs (insert_raws ts (filter (\<lambda>d. \<not> has_raw s d) docs) s))"
  using assms
proof (induction docs arbitrary: s)
  case (Cons d ds)
  define s1 where "s1 = (if has_raw s d then s else insert_raws ts [d] s)"
  obtain i where e: "ensure_raw_memory_and_enqueue doc_ok ts d s = Inr (i, enqueue_extraction ts d s1)"
    using ensure_one [of doc_ok d ts s] Cons.prems(2) by (auto simp: s1_def)
  have "has_raw s1 e \<longleftrightarrow> has_raw s e" if "e \<in> set ds" for e
    using that Cons.prems(1) has_raw_insert [of ts d s e] by (auto simp: s1_def)
  then have f: "filter (\<lambda>e. \<not> has_raw s1 e) ds = filter (\<lambda>e. \<not> has_raw s e) ds"
    by (auto intro: filter_cong)
  have "ensure_each doc_ok ts (d # ds) s = Inr (fold (enqueue_extraction ts) ds
      (insert_raws ts (filter (\<lambda>e. \<not> has_raw s e) ds) (enqueue_extraction ts d s1)))"
    using Cons e by (simp add: f)
  then show ?case by (simp add: enqueue_insert_raws [symmetric] s1_def)
qed simp

text \<open>The set-based batch that puts documents into the raw-memory layer and the extraction queue
  computes, for distinct documents, the same tables as ensuring them one by one.\<close>

theorem raw_batch_equals_loop:
  assumes "distinct docs" "\<forall>d \<in> set docs. doc_ok d"
  shows "\<exists>n s'. ensure_raw_memory_and_enqueue_batch doc_ok ts docs s = Inr (n, s') \<and>
    ensure_each doc_ok ts docs s = Inr s' \<and> n = length (filter (\<lambda>d. \<not> has_raw s d) docs)"
proof -
  have "(\<exists>m \<in> set (memories s). raw_active d m) = has_raw s d" for d by (simp add: has_raw_def)
  then show ?thesis
    using assms by (auto simp: ensure_each_batch [OF assms] ensure_raw_memory_and_enqueue_batch_def Let_def)
qed

theorem raw_batch_equals_loop_witness:
  "\<exists>n s'. ensure_raw_memory_and_enqueue_batch (\<lambda>_. True) 9 [4, 2] sota_migrate = Inr (n, s') \<and>
    ensure_each (\<lambda>_. True) 9 [4, 2] sota_migrate = Inr s' \<and>
    n = length (filter (\<lambda>d. \<not> has_raw sota_migrate d) [4, 2])"
  by (rule raw_batch_equals_loop) simp_all

text \<open>With a repeated document, which a batch of puts produces whenever two of its texts are
  equal, the batch inserts one raw row per repetition: the \<^verbatim>\<open>NOT EXISTS\<close> test sees the table before the
  statement.\<close>

theorem raw_batch_duplicates:
  assumes "doc_ok d" "\<not> has_raw s d"
  shows "\<exists>s'. ensure_raw_memory_and_enqueue_batch doc_ok ts [d, d] s = Inr (2, s') \<and>
    length (filter (raw_active d) (memories s')) = 2 \<and>
    (\<exists>t. ensure_each doc_ok ts [d, d] s = Inr t \<and> length (filter (raw_active d) (memories t)) = 1)"
proof -
  have none: "filter (raw_active d) (memories s) = []"
    using assms(2) by (auto simp: has_raw_def filter_empty_conv)
  obtain i where 1: "ensure_raw_memory_and_enqueue doc_ok ts d s =
      Inr (i, enqueue_extraction ts d (insert_raws ts [d] s))" (is "_ = Inr (i, ?t)")
    using ensure_one [of doc_ok d ts s] assms by auto
  have r: "has_raw ?t d" using has_raw_insert [of ts d s d] by simp
  obtain j where 2: "ensure_raw_memory_and_enqueue doc_ok ts d ?t = Inr (j, enqueue_extraction ts d ?t)"
    using ensure_one [of doc_ok d ts ?t] assms r by auto
  have "ensure_each doc_ok ts [d, d] s = Inr (enqueue_extraction ts d ?t)"
    by (simp only: ensure_each.simps 1 2 sum.case prod.case)
  moreover have "length (filter (raw_active d) (memories (enqueue_extraction ts d ?t))) = 1"
    using none by (simp add: raw_active_def)
  moreover have "ensure_raw_memory_and_enqueue_batch doc_ok ts [d, d] s =
      Inr (2, fold (enqueue_extraction ts) [d, d] (insert_raws ts [d, d] s))"
    using assms by (simp add: ensure_raw_memory_and_enqueue_batch_def has_raw_def)
  moreover have "length (filter (raw_active d)
      (memories (fold (enqueue_extraction ts) [d, d] (insert_raws ts [d, d] s)))) = 2"
    using none by (simp add: raw_active_def)
  ultimately show ?thesis by blast
qed

theorem raw_batch_duplicates_witness:
  "\<exists>s'. ensure_raw_memory_and_enqueue_batch (\<lambda>_. True) 9 [4, 4] sota_migrate = Inr (2, s') \<and>
    length (filter (raw_active 4) (memories s')) = 2 \<and>
    (\<exists>t. ensure_each (\<lambda>_. True) 9 [4, 4] sota_migrate = Inr t \<and> length (filter (raw_active 4) (memories t)) = 1)"
  by (rule raw_batch_duplicates) (simp_all add: has_raw_def sota_migrate_def)

lemma foldl_choice_in: "foldl (\<lambda>b x. if P x b then x else b) r rs \<in> insert r (set rs)"
  by (induction rs arbitrary: r) auto

lemma pick_first_in: "pick_first key rows = Some r \<Longrightarrow> r \<in> set rows"
  using foldl_choice_in [of "\<lambda>x b. fst (key x) < fst (key b) \<or>
    fst (key x) = fst (key b) \<and> snd (key x) < snd (key b)" "hd rows" "tl rows"]
  by (cases rows) (simp_all add: pick_first_def)

lemma promote_row_spec:
  assumes wf: "mem_wf doc_ok s" and p: "promote_row doc_ok ts doc ty conf date s = Inr (i, s')"
  shows "\<exists>m \<in> set (memories s'). m_id m = i \<and> m_doc m = doc \<and> m_type m = type_str ty \<and>
    m_confidence m = conf \<and> m_event_date m = date \<and> m_superseded m = None"
    "memory_edges s' = memory_edges s" "extraction_queue s' = extraction_queue s"
    "\<forall>m \<in> set (memories s). m_doc m \<noteq> doc \<longrightarrow> m \<in> set (memories s')"
proof -
  have *: "(\<exists>m \<in> set (memories s'). m_id m = i \<and> m_doc m = doc \<and> m_type m = type_str ty \<and>
      m_confidence m = conf \<and> m_event_date m = date \<and> m_superseded m = None) \<and>
    memory_edges s' = memory_edges s \<and> extraction_queue s' = extraction_queue s \<and>
    (\<forall>m \<in> set (memories s). m_doc m \<noteq> doc \<longrightarrow> m \<in> set (memories s'))"
  proof (cases "active_for_doc doc s")
    case None
    then show ?thesis
      using p by (auto simp: promote_row_def put_memory_with_date_def Let_def split: if_splits)
  next
    case (Some a)
    then have a: "a \<in> set (memories s)" "m_doc a = doc" "m_superseded a = None"
      using pick_first_in by (fastforce simp: active_for_doc_def)+
    let ?f = "\<lambda>r. if m_id r = m_id a then r\<lparr>m_type := type_str ty, m_weight := default_weight ty,
      m_confidence := conf, m_event_date := date, m_updated := ts\<rparr> else r"
    have s': "i = m_id a" "s' = s\<lparr>memories := map ?f (memories s)\<rparr>"
      using p Some by (auto simp: promote_row_def)
    have "?f a \<in> set (memories s')" using a(1) by (auto simp: s')
    moreover have "m \<in> set (memories s')" if "m \<in> set (memories s)" "m_doc m \<noteq> doc" for m
    proof -
      have "inj_on m_id (set (memories s))" using wf by (simp add: mem_wf_def distinct_map)
      then have "m_id m \<noteq> m_id a" using that a(1,2) unfolding inj_on_def by blast
      then have "?f m = m" by simp
      then have "m \<in> ?f ` set (memories s)" using that(1) by (intro image_eqI [of m ?f m]) simp_all
      then show ?thesis unfolding s'(2) by simp
    qed
    ultimately show ?thesis
      using a by (intro conjI bexI [of _ "?f a"]) (simp_all add: s')
  qed
  then show "\<exists>m \<in> set (memories s'). m_id m = i \<and> m_doc m = doc \<and> m_type m = type_str ty \<and>
    m_confidence m = conf \<and> m_event_date m = date \<and> m_superseded m = None"
    "memory_edges s' = memory_edges s" "extraction_queue s' = extraction_queue s"
    "\<forall>m \<in> set (memories s). m_doc m \<noteq> doc \<longrightarrow> m \<in> set (memories s')" by blast+
qed

lemma supersede_spec:
  assumes "supersede ts old new s = Inr s'"
  shows "memories s' = map (\<lambda>m. if m_id m = old then m\<lparr>m_superseded := Some new, m_updated := ts\<rparr> else m) (memories s)"
    "\<exists>e \<in> set (memory_edges s'). e_src e = new \<and> e_dst e = old \<and> e_type e = lit ''supersedes''"
    "extraction_queue s' = extraction_queue s"
  using assms by (auto simp: supersede_def Let_def split: if_splits)

lemma supersede_rows:
  assumes "supersede ts old new s = Inr s'" "m \<in> set (memories s)"
  shows "m_id m \<noteq> old \<Longrightarrow> m \<in> set (memories s')"
    "m_id m = old \<Longrightarrow> m\<lparr>m_superseded := Some new, m_updated := ts\<rparr> \<in> set (memories s')"
  using assms(2) unfolding supersede_spec(1) [OF assms(1)] by (force simp: image_iff)+

lemma set_promoted_queue:
  "\<exists>q \<in> set (extraction_queue (set_promoted ts doc s)). q_doc q = doc \<and> q_status q = lit ''promoted''"
proof (cases "doc \<in> q_doc ` set (extraction_queue s)")
  case True
  then obtain q where "q \<in> set (extraction_queue s)" "q_doc q = doc" by auto
  then have "q\<lparr>q_status := lit ''promoted'', q_error := None\<rparr> \<in> set (extraction_queue (set_promoted ts doc s))"
    using True by (force simp: set_promoted_def image_iff)
  then show ?thesis using \<open>q_doc q = doc\<close> by (intro bexI [of _ "q\<lparr>q_status := lit ''promoted'', q_error := None\<rparr>"]) simp_all
qed (simp add: set_promoted_def)

text \<open>C16. A successful promotion leaves an active row of the document with the given type, confidence
  and date, marks its queue entry promoted and, when another document is superseded, links a row of
  that document to the promoted one; confidences outside [0, 1] and self-supersession never succeed.\<close>

theorem promote_exact:
  assumes wf: "mem_wf doc_ok s" and p: "promote_doc_memory doc_ok ts doc ty conf date old s = Inr (i, s')"
  shows "valid_confidence conf \<and> old \<noteq> Some doc \<and> mem_wf doc_ok s' \<and>
    (\<exists>m \<in> set (memories s'). m_id m = i \<and> m_doc m = doc \<and> m_type m = type_str ty \<and>
      m_confidence m = conf \<and> m_event_date m = date \<and> m_superseded m = None) \<and>
    (\<exists>q \<in> set (extraction_queue s'). q_doc q = doc \<and> q_status q = lit ''promoted'') \<and>
    (\<forall>od \<in> set_option old. \<exists>m \<in> set (memories s'). m_doc m = od \<and> m_superseded m = Some i \<and>
      (\<exists>e \<in> set (memory_edges s'). e_src e = i \<and> e_dst e = m_id m \<and> e_type e = lit ''supersedes''))"
proof -
  have v: "valid_confidence conf" "old \<noteq> Some doc"
    using p by (auto simp: promote_doc_memory_def split: if_splits)
  obtain j s1 where r: "promote_row doc_ok ts doc ty conf date s = Inr (j, s1)"
    using p by (auto simp: promote_doc_memory_def split: if_splits sum.splits)
  let ?s2 = "set_promoted ts doc s1"
  note wf2 = set_promoted_wf [OF promote_row_wf [OF wf r], of ts doc]
  obtain m where m: "m \<in> set (memories ?s2)" "m_id m = j" "m_doc m = doc" "m_type m = type_str ty"
      "m_confidence m = conf" "m_event_date m = date" "m_superseded m = None"
    using promote_row_spec(1) [OF wf r] by auto
  show ?thesis
  proof (cases old)
    case None
    then have "i = j" "s' = ?s2" using p v r by (simp_all add: promote_doc_memory_def Let_def)
    then show ?thesis using None v m wf2 set_promoted_queue by auto
  next
    case (Some od)
    then obtain a where a: "pick_first (\<lambda>m. (0, - m_updated m))
          (filter (\<lambda>m. m_doc m = od \<and> m_superseded m = None) (memories ?s2)) = Some a"
        and su: "supersede ts (m_id a) j ?s2 = Inr s'" and i: "i = j"
      using p v r by (auto simp: promote_doc_memory_def Let_def split: option.splits sum.splits)
    have a': "a \<in> set (memories ?s2)" "m_doc a = od" using pick_first_in [OF a] by simp_all
    have "inj_on m_id (set (memories ?s2))" using wf2 by (simp add: mem_wf_def distinct_map)
    then have "m_id m \<noteq> m_id a"
      using a' m(1,3) v(2) Some unfolding inj_on_def by blast
    then have "m \<in> set (memories s')" by (rule supersede_rows(1) [OF su m(1)])
    then have 1: "\<exists>m \<in> set (memories s'). m_id m = i \<and> m_doc m = doc \<and> m_type m = type_str ty \<and>
        m_confidence m = conf \<and> m_event_date m = date \<and> m_superseded m = None"
      using m(2-) i by blast
    have "a\<lparr>m_superseded := Some j, m_updated := ts\<rparr> \<in> set (memories s')"
      by (rule supersede_rows(2) [OF su a'(1) refl])
    then have 2: "\<exists>m \<in> set (memories s'). m_doc m = od \<and> m_superseded m = Some i \<and>
        (\<exists>e \<in> set (memory_edges s'). e_src e = i \<and> e_dst e = m_id m \<and> e_type e = lit ''supersedes'')"
      using supersede_spec(2) [OF su] a'(2) i
      by (intro bexI [of _ "a\<lparr>m_superseded := Some j, m_updated := ts\<rparr>"]) simp_all
    show ?thesis
      using v 1 2 Some supersede_wf [OF wf2 su] set_promoted_queue [of ts doc s1] supersede_spec(3) [OF su]
      by simp
  qed
qed

theorem promote_exact_witness:
  "\<exists>i s'. promote_doc_memory (\<lambda>_. True) 9 4 Fact (Fin 1) None None sota_migrate = Inr (i, s') \<and>
    (\<exists>q \<in> set (extraction_queue s'). q_doc q = 4 \<and> q_status q = lit ''promoted'')"
proof -
  have wf: "mem_wf (\<lambda>_. True) sota_migrate" by (simp add: mem_wf_def sota_migrate_def)
  obtain i s' where p: "promote_doc_memory (\<lambda>_. True) 9 4 Fact (Fin 1) None None sota_migrate = Inr (i, s')"
    by (simp add: promote_doc_memory_def valid_confidence_def promote_row_def active_for_doc_def
        pick_first_def put_memory_with_date_def sota_migrate_def Let_def)
  show ?thesis using p promote_exact [OF wf p] by blast
qed

lemma pick_first_append_less:
  assumes "\<forall>x \<in> set rows. fst (key r) < fst (key x) \<or> fst (key r) = fst (key x) \<and> snd (key r) < snd (key x)"
  shows "pick_first key (rows @ [r]) = Some r"
proof (cases rows)
  case (Cons a as)
  let ?P = "\<lambda>x b. fst (key x) < fst (key b) \<or> fst (key x) = fst (key b) \<and> snd (key x) < snd (key b)"
  have "foldl (\<lambda>b x. if ?P x b then x else b) a as \<in> set rows"
    using foldl_choice_in [of ?P a as] Cons by simp
  then have "?P r (foldl (\<lambda>b x. if ?P x b then x else b) a as)" using assms by blast
  then show ?thesis by (simp add: pick_first_def Cons)
qed (simp add: pick_first_def)

text \<open>Ensuring the raw memory of a document that has no active raw row, as every second put of its
  text does after its memory was promoted, inserts a raw row; being the newest active row it is
  what \<^verbatim>\<open>doc_memory_state\<close> reports, so the promoted type and confidence are no longer seen.\<close>

theorem reput_hides_promotion:
  assumes "doc_ok d" "\<not> has_raw s d" "\<forall>m \<in> set (memories s). m_doc m = d \<longrightarrow> m_updated m < ts"
  shows "\<exists>i s'. ensure_raw_memory_and_enqueue doc_ok ts d s = Inr (i, s') \<and>
    doc_memory_state_of d s' = Some \<lparr>st_type = Raw, st_confidence = Fin 1, st_event_date = None, st_superseded = False\<rparr>"
proof -
  let ?m = "\<lparr>m_id = next_rowid (memories s), m_doc = d, m_type = lit ''raw'', m_entity = None,
    m_weight = default_weight Raw, m_confidence = Fin 1, m_superseded = None, m_tags = None,
    m_created = ts, m_updated = ts, m_event_date = None\<rparr>"
  let ?rows = "filter (\<lambda>m. m_doc m = d) (memories s)"
  obtain i where i: "ensure_raw_memory_and_enqueue doc_ok ts d s = Inr (i, enqueue_extraction ts d (insert_raws ts [d] s))"
    using ensure_one [of doc_ok d ts s] assms(1,2) by auto
  have p: "pick_first (\<lambda>m. (if m_superseded m = None then 0 else 1, - m_updated m)) (?rows @ [?m]) = Some ?m"
    by (rule pick_first_append_less) (use assms(3) in auto)
  have raw: "type_parse (lit ''raw'') = Raw" using type_parse_str [of Raw] by (simp add: type_str_def)
  have "filter (\<lambda>m. m_doc m = d) (memories (enqueue_extraction ts d (insert_raws ts [d] s))) = ?rows @ [?m]" by simp
  then have "doc_memory_state_of d (enqueue_extraction ts d (insert_raws ts [d] s)) =
      Some \<lparr>st_type = Raw, st_confidence = Fin 1, st_event_date = None, st_superseded = False\<rparr>"
    unfolding doc_memory_state_of_def using p raw by simp
  then show ?thesis using i by blast
qed

text \<open>A document whose only memory is a promoted fact.\<close>

definition promoted_db :: mem_db where
  "promoted_db = sota_migrate\<lparr>memories := [\<lparr>m_id = 1, m_doc = 4, m_type = type_str Fact, m_entity = None,
     m_weight = default_weight Fact, m_confidence = Fin 1, m_superseded = None, m_tags = None,
     m_created = 1, m_updated = 2, m_event_date = None\<rparr>]\<rparr>"

theorem reput_hides_promotion_witness:
  "map_option st_type (doc_memory_state_of 4 promoted_db) = Some Fact \<and>
   (\<exists>i s'. ensure_raw_memory_and_enqueue (\<lambda>_. True) 3 4 promoted_db = Inr (i, s') \<and>
     doc_memory_state_of 4 s' = Some \<lparr>st_type = Raw, st_confidence = Fin 1, st_event_date = None, st_superseded = False\<rparr>)"
proof
  show "map_option st_type (doc_memory_state_of 4 promoted_db) = Some Fact"
    by (simp add: doc_memory_state_of_def promoted_db_def pick_first_def)
  show "\<exists>i s'. ensure_raw_memory_and_enqueue (\<lambda>_. True) 3 4 promoted_db = Inr (i, s') \<and>
      doc_memory_state_of 4 s' = Some \<lparr>st_type = Raw, st_confidence = Fin 1, st_event_date = None, st_superseded = False\<rparr>"
    by (rule reput_hides_promotion)
      (simp_all add: promoted_db_def has_raw_def raw_active_def type_str_def lit_def sota_migrate_def)
qed

end
