(* ===== verification/Memory_Clusters.thy ===== *)
theory Memory_Clusters
  imports Memory_Layer Float32
begin

text \<open>
  Consolidation of memories, the second half of \<^verbatim>\<open>crates/synapse-core/src/sota.rs\<close>: the Jaccard
  similarity of texts, the search for a memory to evolve and the clustering with a union-find
  forest. The forest is the vector \<^verbatim>\<open>parent\<close>; its recursive \<^verbatim>\<open>find\<close> with path compression is a partial
  function whose result is None if it never ends, and that it ends is proved. The text of a document
  is the argument \<open>doc_text\<close>. Quotients of counts are rounded to \<^verbatim>\<open>f64\<close>; counts are exact below
  $2^{53}$.
\<close>

section \<open>Similarity\<close>

text \<open>The quotient of two counts as an \<^verbatim>\<open>f64\<close>: \<open>(m, e)\<close> stands for $m / 2^e$ with 53 significant bits,
  rounded to nearest, ties to even. The dividend is at most the divisor, which is positive.\<close>

definition f64_ratio :: "nat \<Rightarrow> nat \<Rightarrow> nat \<times> nat" where
  "f64_ratio a b =
     (let e0 = 53 + bit_len b - bit_len a;
          e = (if bit_len (a * 2 ^ e0 div b) > 53 then e0 - 1 else e0)
      in (round_even (a * 2 ^ e) b, e))"

definition ratio_value :: "nat \<times> nat \<Rightarrow> rat" where
  "ratio_value x = of_nat (fst x) / 2 ^ snd x"

definition tokens_of :: "rstr \<Rightarrow> rstr set" where
  "tokens_of s = set (filter (\<lambda>t. 2 < str_len t) (split_whitespace s))"

definition jaccard :: "rstr \<Rightarrow> rstr \<Rightarrow> nat \<times> nat" where
  "jaccard a b =
     (let ta = tokens_of a; tb = tokens_of b in
      if ta = {} \<and> tb = {} then (0, 0)
      else let inter = card (ta \<inter> tb); un = card (ta \<union> tb) in
        if un = 0 then (0, 0) else f64_ratio inter un)"

text \<open>\<^verbatim>\<open>score as f32\<close>.\<close>

definition ratio_f32 :: "nat \<times> nat \<Rightarrow> f32" where
  "ratio_f32 x = f32_round False (fst x * f32_unit) (2 ^ snd x)"

definition f32_ge :: "f32 \<Rightarrow> f32 \<Rightarrow> bool" where
  "f32_ge x y = (case f32_partial_cmp x y of None \<Rightarrow> False | Some c \<Rightarrow> c \<noteq> Less)"

text \<open>The loop keeps the first candidate of the largest score in the window; the embedding argument is
  ignored by the code.\<close>

fun evolve_loop :: "(int \<Rightarrow> rstr option) \<Rightarrow> rstr \<Rightarrow> f32 \<Rightarrow> f32 \<Rightarrow> int list \<Rightarrow> (int \<times> (nat \<times> nat)) option \<Rightarrow>
    (int \<times> (nat \<times> nat)) option" where
  "evolve_loop doc_text new_text lo hi [] best = best"
| "evolve_loop doc_text new_text lo hi (d # ds) best =
     (case doc_text d of
        None \<Rightarrow> evolve_loop doc_text new_text lo hi ds best
      | Some txt \<Rightarrow>
          (let score = jaccard new_text txt; s32 = ratio_f32 score in
           evolve_loop doc_text new_text lo hi ds
             (if f32_ge s32 lo \<and> f32_ge hi s32 \<and>
                 (case best of None \<Rightarrow> True | Some (_, b) \<Rightarrow> ratio_value b < ratio_value score)
              then Some (d, score) else best)))"

definition find_evolve_target :: "(int \<Rightarrow> rstr option) \<Rightarrow> rstr \<Rightarrow> int list \<Rightarrow> f32 \<Rightarrow> f32 \<Rightarrow> int option" where
  "find_evolve_target doc_text new_text candidates lo hi =
     map_option fst (evolve_loop doc_text new_text lo hi candidates None)"

section \<open>Clustering\<close>

partial_function (option) uf_find :: "nat list \<Rightarrow> nat \<Rightarrow> (nat \<times> nat list) option" where
  "uf_find parent i =
     (if parent ! i \<noteq> i then
        Option.bind (uf_find parent (parent ! i)) (\<lambda>(r, parent').
          let parent'' = parent'[i := r] in Some (parent'' ! i, parent''))
      else Some (parent ! i, parent))"

definition uf_union :: "nat list \<Rightarrow> nat \<Rightarrow> nat \<Rightarrow> nat list option" where
  "uf_union parent i j =
     Option.bind (uf_find parent i) (\<lambda>(ri, parent1).
     Option.bind (uf_find parent1 j) (\<lambda>(rj, parent2).
     Some (if ri \<noteq> rj then parent2[ri := rj] else parent2)))"

text \<open>The two nested loops, over the pairs \<open>i < j\<close> in order.\<close>

fun join_pairs :: "(nat \<Rightarrow> nat \<Rightarrow> bool) \<Rightarrow> (nat \<times> nat) list \<Rightarrow> nat list \<Rightarrow> nat list option" where
  "join_pairs sim [] parent = Some parent"
| "join_pairs sim ((i, j) # ps) parent =
     (if sim i j then Option.bind (uf_union parent i j) (join_pairs sim ps) else join_pairs sim ps parent)"

definition index_pairs :: "nat \<Rightarrow> (nat \<times> nat) list" where
  "index_pairs n = concat (map (\<lambda>i. map (Pair i) [Suc i..<n]) [0..<n])"

text \<open>\<^verbatim>\<open>groups.entry(r).or_default().push(id)\<close>, with the groups in the order of their first member.\<close>

fun push_group :: "nat \<Rightarrow> int \<Rightarrow> (nat \<times> int list) list \<Rightarrow> (nat \<times> int list) list" where
  "push_group r x [] = [(r, [x])]"
| "push_group r x ((q, xs) # gs) = (if q = r then (q, xs @ [x]) # gs else (q, xs) # push_group r x gs)"

fun group_rows :: "(nat \<times> int) list \<Rightarrow> nat list \<Rightarrow> (nat \<times> int list) list \<Rightarrow> (nat \<times> int list) list option" where
  "group_rows [] parent gs = Some gs"
| "group_rows ((i, x) # rs) parent gs =
     Option.bind (uf_find parent i) (\<lambda>(r, parent'). group_rows rs parent' (push_group r x gs))"

definition active_texts :: "(int \<Rightarrow> rstr option) \<Rightarrow> nat \<Rightarrow> mem_db \<Rightarrow> (int \<times> rstr) list" where
  "active_texts doc_text max_rows s =
     take max_rows (map (\<lambda>m. (m_id m, the (doc_text (m_doc m))))
       (sort_key (\<lambda>m. - m_updated m)
         (filter (\<lambda>m. m_superseded m = None \<and> doc_text (m_doc m) \<noteq> None) (memories s))))"

text \<open>\<^verbatim>\<open>jaccard(a, b) >= jaccard_threshold\<close>.\<close>

definition similar :: "f64 \<Rightarrow> rstr \<Rightarrow> rstr \<Rightarrow> bool" where
  "similar threshold a b = (case threshold of
     f64.Fin t \<Rightarrow> t \<le> ratio_value (jaccard a b) | NegInf \<Rightarrow> True | _ \<Rightarrow> False)"

definition cluster_for_compact :: "(int \<Rightarrow> rstr option) \<Rightarrow> f64 \<Rightarrow> nat \<Rightarrow> mem_db \<Rightarrow> int list list option" where
  "cluster_for_compact doc_text threshold max_rows s =
     (let rows = active_texts doc_text max_rows s; n = length rows;
          sim = (\<lambda>i j. similar threshold (snd (rows ! i)) (snd (rows ! j)))
      in Option.bind (join_pairs sim (index_pairs n) [0..<n]) (\<lambda>parent.
         map_option (\<lambda>gs. filter (\<lambda>g. 2 \<le> length g) (map snd gs))
           (group_rows (zip [0..<n] (map fst rows)) parent [])))"

section \<open>The memory to evolve\<close>

definition in_window :: "(int \<Rightarrow> rstr option) \<Rightarrow> rstr \<Rightarrow> f32 \<Rightarrow> f32 \<Rightarrow> int \<Rightarrow> bool" where
  "in_window doc_text new_text lo hi d = (case doc_text d of None \<Rightarrow> False
     | Some txt \<Rightarrow> let s = ratio_f32 (jaccard new_text txt) in f32_ge s lo \<and> f32_ge hi s)"

definition evolve_score :: "(int \<Rightarrow> rstr option) \<Rightarrow> rstr \<Rightarrow> int \<Rightarrow> rat" where
  "evolve_score doc_text new_text d = ratio_value (jaccard new_text (the (doc_text d)))"

definition evolve_best :: "(int \<Rightarrow> rstr option) \<Rightarrow> rstr \<Rightarrow> f32 \<Rightarrow> f32 \<Rightarrow> int list \<Rightarrow> (int \<times> (nat \<times> nat)) option \<Rightarrow> bool" where
  "evolve_best doc_text new_text lo hi ds r = (case r of
     None \<Rightarrow> \<forall>d \<in> set ds. \<not> in_window doc_text new_text lo hi d
   | Some (d, b) \<Rightarrow> d \<in> set ds \<and> in_window doc_text new_text lo hi d \<and> ratio_value b = evolve_score doc_text new_text d \<and>
       (\<forall>c \<in> set ds. in_window doc_text new_text lo hi c \<longrightarrow> evolve_score doc_text new_text c \<le> ratio_value b))"

lemma evolve_step:
  "evolve_loop doc_text new_text lo hi (x # xs) best = evolve_loop doc_text new_text lo hi xs
     (if in_window doc_text new_text lo hi x \<and>
         (case best of None \<Rightarrow> True | Some (_, b) \<Rightarrow> ratio_value b < evolve_score doc_text new_text x)
      then Some (x, jaccard new_text (the (doc_text x))) else best)"
  by (cases "doc_text x"; cases best) (simp_all add: in_window_def evolve_score_def Let_def split: prod.splits)

lemma evolve_best_snoc:
  assumes "evolve_best doc_text new_text lo hi ds r"
  shows "evolve_best doc_text new_text lo hi (ds @ [x])
     (if in_window doc_text new_text lo hi x \<and>
         (case r of None \<Rightarrow> True | Some (_, b) \<Rightarrow> ratio_value b < evolve_score doc_text new_text x)
      then Some (x, jaccard new_text (the (doc_text x))) else r)"
proof (cases r)
  case None
  with assms show ?thesis by (simp add: evolve_best_def) (simp add: evolve_score_def)
next
  case (Some a)
  then obtain d b where r: "r = Some (d, b)" by (cases a) auto
  have e: "ratio_value (jaccard new_text (the (doc_text x))) = evolve_score doc_text new_text x" by (simp add: evolve_score_def)
  show ?thesis
  proof (cases "in_window doc_text new_text lo hi x \<and> ratio_value b < evolve_score doc_text new_text x")
    case True
    with assms r show ?thesis by (auto simp: evolve_best_def e)
  next
    case False
    with assms r show ?thesis by (auto simp: evolve_best_def)
  qed
qed

lemma evolve_loop_best:
  "evolve_best doc_text new_text lo hi ds best \<Longrightarrow>
     evolve_best doc_text new_text lo hi (ds @ xs) (evolve_loop doc_text new_text lo hi xs best)"
proof (induction xs arbitrary: ds best)
  case (Cons x xs)
  from Cons.IH [OF evolve_best_snoc [OF Cons.prems, of x]] show ?case by (simp only: evolve_step) simp
qed simp

lemma find_evolve_target_best:
  "case find_evolve_target doc_text new_text ds lo hi of
     None \<Rightarrow> \<forall>d \<in> set ds. \<not> in_window doc_text new_text lo hi d
   | Some d \<Rightarrow> d \<in> set ds \<and> in_window doc_text new_text lo hi d \<and>
       (\<forall>c \<in> set ds. in_window doc_text new_text lo hi c \<longrightarrow>
          evolve_score doc_text new_text c \<le> evolve_score doc_text new_text d)"
proof -
  have "evolve_best doc_text new_text lo hi [] None" by (simp add: evolve_best_def)
  from evolve_loop_best [OF this, of ds]
  have "evolve_best doc_text new_text lo hi ds (evolve_loop doc_text new_text lo hi ds None)" by simp
  then show ?thesis by (auto simp: find_evolve_target_def evolve_best_def split: option.splits)
qed

section \<open>The forest\<close>

inductive root_of :: "nat list \<Rightarrow> nat \<Rightarrow> nat \<Rightarrow> bool" for p where
  root: "p ! i = i \<Longrightarrow> root_of p i i"
| step: "p ! i \<noteq> i \<Longrightarrow> root_of p (p ! i) r \<Longrightarrow> root_of p i r"

text \<open>\<open>h\<close> decreases towards the roots.\<close>

definition forest :: "(nat \<Rightarrow> nat) \<Rightarrow> nat list \<Rightarrow> bool" where
  "forest h p \<longleftrightarrow> (\<forall>i < length p. p ! i < length p \<and> (p ! i \<noteq> i \<longrightarrow> h (p ! i) < h i))"

lemma root_of_det: "root_of p i r \<Longrightarrow> root_of p i q \<Longrightarrow> q = r"
proof (induction arbitrary: q rule: root_of.induct)
  case (root i)
  from root.prems root.hyps show ?case by (cases rule: root_of.cases) simp_all
next
  case (step i r)
  from step.prems step.hyps step.IH show ?case by (cases rule: root_of.cases) blast+
qed

lemma root_of_root: "root_of p i r \<Longrightarrow> p ! r = r"
  by (induction rule: root_of.induct) auto

lemma root_of_rank: "root_of p i r \<Longrightarrow> forest h p \<Longrightarrow> i < length p \<Longrightarrow> r < length p \<and> (r = i \<or> h r < h i)"
  by (induction rule: root_of.induct) (auto simp: forest_def intro: less_trans)

lemma root_of_parent: assumes "root_of p i r" shows "root_of p (p ! i) r"
  using assms by (cases rule: root_of.cases) (simp_all add: root_of.root)

lemma root_of_total: "forest h p \<Longrightarrow> i < length p \<Longrightarrow> \<exists>r. root_of p i r"
proof (induction "h i" arbitrary: i rule: less_induct)
  case less
  show ?case
  proof (cases "p ! i = i")
    case False
    then have "h (p ! i) < h i" "p ! i < length p" using less.prems by (auto simp: forest_def)
    then show ?thesis using less.hyps less.prems(1) False root_of.step by blast
  qed (auto intro: root_of.root)
qed

text \<open>Two forests with the same roots.\<close>

definition same_roots :: "nat list \<Rightarrow> nat list \<Rightarrow> bool" where
  "same_roots p q \<longleftrightarrow> length q = length p \<and> (\<forall>j < length p. \<forall>r. root_of p j r \<longrightarrow> root_of q j r)"

lemma compress_roots:
  assumes f: "forest h p" and r: "root_of p i r" and i: "i < length p"
  shows "forest h (p[i := r])" "same_roots p (p[i := r])"
proof -
  have rk: "r < length p" "r = i \<or> h r < h i" using root_of_rank [OF r f i] by auto
  then show "forest h (p[i := r])" using f i by (auto simp: forest_def nth_list_update)
  have rr: "p[i := r] ! r = r" using root_of_root [OF r] rk(1) by (cases "r = i") simp_all
  have "root_of (p[i := r]) j q" if "root_of p j q" "j < length p" for j q
    using that
  proof (induction rule: root_of.induct)
    case (root j)
    then show ?case
    proof (cases "j = i")
      case True
      then have "r = j" using r root root_of_det [OF r] root_of.root by blast
      then show ?thesis using rr by (auto intro: root_of.root)
    qed (use root in \<open>auto intro: root_of.root\<close>)
  next
    case (step j q)
    show ?case
    proof (cases "j = i")
      case True
      then have "q = r" using step(1,2) root_of.step root_of_det [OF r] by blast
      show ?thesis
      proof (cases "r = i")
        case True
        then show ?thesis using \<open>j = i\<close> \<open>q = r\<close> rr by (auto intro: root_of.root)
      next
        case False
        have "root_of (p[i := r]) r r" by (rule root_of.root [OF rr])
        then show ?thesis
          using \<open>j = i\<close> \<open>q = r\<close> False i by - (rule root_of.step, simp_all)
      qed
    next
      case False
      then show ?thesis using step f by - (rule root_of.step; auto simp: forest_def)
    qed
  qed
  then show "same_roots p (p[i := r])" by (simp add: same_roots_def)
qed

lemma same_roots_trans: "same_roots p q \<Longrightarrow> same_roots q r \<Longrightarrow> same_roots p r"
  by (simp add: same_roots_def)

lemma uf_find_spec:
  "forest h p \<Longrightarrow> i < length p \<Longrightarrow>
   \<exists>r q. uf_find p i = Some (r, q) \<and> root_of p i r \<and> forest h q \<and> same_roots p q"
proof (induction "h i" arbitrary: i rule: less_induct)
  case less
  show ?case
  proof (cases "p ! i = i")
    case True
    then show ?thesis using less.prems by (subst uf_find.simps) (auto simp: same_roots_def intro: root_of.root)
  next
    case False
    then have "h (p ! i) < h i" "p ! i < length p" using less.prems by (auto simp: forest_def)
    then obtain r q where q: "uf_find p (p ! i) = Some (r, q)" "root_of p (p ! i) r" "forest h q" "same_roots p q"
      using less.hyps less.prems(1) by blast
    have r: "root_of p i r" by (rule root_of.step [OF False q(2)])
    have len: "length q = length p" using q(4) by (simp add: same_roots_def)
    have "root_of q i r" using q(4) r less.prems(2) by (simp add: same_roots_def)
    note c = compress_roots [OF q(3) this]
    have "uf_find p i = Some (r, q[i := r])"
      using False q(1) len less.prems(2) by (subst uf_find.simps) (simp add: Let_def)
    then show ?thesis
      using r c len less.prems(2) same_roots_trans [OF q(4)] by auto
  qed
qed

lemma root_unique: "root_of p i r \<Longrightarrow> root_of p j q \<Longrightarrow> (\<exists>t. root_of p i t \<and> root_of p j t) \<longleftrightarrow> r = q"
  using root_of_det by blast

text \<open>Linking the root \<open>a\<close> under the root \<open>b\<close>.\<close>

lemma link_roots:
  assumes f: "forest h p" and a: "p ! a = a" "a < length p" and b: "p ! b = b" "b < length p" "a \<noteq> b"
  shows "\<exists>h'. forest h' (p[a := b])"
    "\<And>j r. root_of p j r \<Longrightarrow> root_of (p[a := b]) j (if r = a then b else r)"
proof -
  let ?h = "\<lambda>k. if root_of p k a then h k + h b + 1 else h k"
  have nb: "\<not> root_of p b a" using root_of_det [of p b b a] root_of.root [OF b(1)] b(3) by blast
  have ra: "root_of p a a" by (rule root_of.root [OF a(1)])
  have "forest ?h (p[a := b])"
    unfolding forest_def
  proof (intro allI impI)
    fix i assume i: "i < length (p[a := b])"
    show "p[a := b] ! i < length (p[a := b]) \<and> (p[a := b] ! i \<noteq> i \<longrightarrow> ?h (p[a := b] ! i) < ?h i)"
    proof (cases "i = a")
      case True
      then show ?thesis using a b nb ra by simp
    next
      case False
      then have pi: "p[a := b] ! i = p ! i" by simp
      have "p ! i < length p" "p ! i \<noteq> i \<longrightarrow> h (p ! i) < h i" using f i by (auto simp: forest_def)
      moreover have "root_of p (p ! i) a \<longleftrightarrow> root_of p i a" if "p ! i \<noteq> i"
        using that root_of_parent root_of.step by blast
      ultimately show ?thesis using pi by simp
    qed
  qed
  then show "\<exists>h'. forest h' (p[a := b])" by blast
  have rb: "root_of (p[a := b]) b b" using b by (intro root_of.root) simp
  show "root_of (p[a := b]) j (if r = a then b else r)" if "root_of p j r" for j r
    using that
  proof (induction rule: root_of.induct)
    case (root i)
    show ?case
    proof (cases "i = a")
      case True
      then show ?thesis using rb a b by - (rule root_of.step, simp_all)
    next
      case False
      then show ?thesis using root by (simp add: root_of.root)
    qed
  next
    case (step i r)
    then have "i \<noteq> a" using a by blast
    then show ?case using step by - (rule root_of.step, simp_all)
  qed
qed

text \<open>The partition a forest represents, and the connectedness it has to compute.\<close>

definition same_class :: "nat list \<Rightarrow> nat \<Rightarrow> nat \<Rightarrow> bool" where
  "same_class p i j \<longleftrightarrow> (\<exists>r. root_of p i r \<and> root_of p j r)"

inductive connected :: "(nat \<Rightarrow> nat \<Rightarrow> bool) \<Rightarrow> nat \<Rightarrow> nat \<Rightarrow> bool" for e where
  self: "connected e i i"
| edge: "connected e i j \<Longrightarrow> e j k \<or> e k j \<Longrightarrow> connected e i k"

lemma connected_trans: "connected e j k \<Longrightarrow> connected e i j \<Longrightarrow> connected e i k"
  by (induction rule: connected.induct) (auto intro: connected.edge)

lemma connected_sym: "connected e i j \<Longrightarrow> connected e j i"
proof (induction rule: connected.induct)
  case (edge i j k)
  have "connected e k j" using connected.edge [OF connected.self, of e k j] edge(2) by blast
  then show ?case by (rule connected_trans [OF edge.IH])
qed (rule connected.self)

lemma connected_mono: "connected e i j \<Longrightarrow> (\<And>a b. e a b \<Longrightarrow> f a b) \<Longrightarrow> connected f i j"
  by (induction rule: connected.induct) (auto intro: connected.intros)

definition add_edge :: "nat \<Rightarrow> nat \<Rightarrow> (nat \<Rightarrow> nat \<Rightarrow> bool) \<Rightarrow> nat \<Rightarrow> nat \<Rightarrow> bool" where
  "add_edge i j e a b \<longleftrightarrow> e a b \<or> a = i \<and> b = j"

lemma connected_add_edge:
  "connected (add_edge i j e) a b \<longleftrightarrow> connected e a b \<or> connected e a i \<and> connected e j b \<or> connected e a j \<and> connected e i b"
  (is "?l \<longleftrightarrow> ?r a b")
proof
  show "?l \<Longrightarrow> ?r a b"
  proof (induction rule: connected.induct)
    case (edge x y z)
    then show ?case unfolding add_edge_def
      using connected.edge [of e] connected_trans connected.self [of e] by blast
  qed (simp add: connected.self)
  have ij: "connected (add_edge i j e) i j"
    by (rule connected.edge [OF connected.self]) (simp add: add_edge_def)
  have m: "connected e x y \<Longrightarrow> connected (add_edge i j e) x y" for x y
    by (erule connected_mono) (simp add: add_edge_def)
  assume "?r a b"
  then consider "connected e a b" | "connected e a i" "connected e j b" | "connected e a j" "connected e i b" by blast
  then show ?l
  proof cases
    case 1
    then show ?thesis by (rule m)
  next
    case 2
    show ?thesis by (rule connected_trans [OF m [OF 2(2)] connected_trans [OF ij m [OF 2(1)]]])
  next
    case 3
    show ?thesis by (rule connected_trans [OF m [OF 3(2)] connected_trans [OF connected_sym [OF ij] m [OF 3(1)]]])
  qed
qed

text \<open>The forest \<open>p\<close> of \<open>n\<close> nodes represents the connectedness of the edges \<open>e\<close>.\<close>

definition represents :: "nat \<Rightarrow> nat list \<Rightarrow> (nat \<Rightarrow> nat \<Rightarrow> bool) \<Rightarrow> bool" where
  "represents n p e \<longleftrightarrow> length p = n \<and> (\<exists>h. forest h p) \<and>
     (\<forall>i < n. \<forall>j < n. same_class p i j \<longleftrightarrow> connected e i j)"

lemma same_roots_class:
  assumes "same_roots p q" "forest h p" "i < length p" "j < length p"
  shows "same_class q i j \<longleftrightarrow> same_class p i j"
proof -
  obtain r s where "root_of p i r" "root_of p j s" using root_of_total assms(2-4) by metis
  moreover then have "root_of q i r" "root_of q j s" using assms by (auto simp: same_roots_def)
  ultimately show ?thesis unfolding same_class_def using root_unique by metis
qed

lemma find_represents:
  assumes "represents n p e" "i < n"
  shows "\<exists>r q. uf_find p i = Some (r, q) \<and> root_of q i r \<and> represents n q e \<and> same_roots p q"
proof -
  obtain h where h: "forest h p" "length p = n" using assms(1) by (auto simp: represents_def)
  obtain r q where q: "uf_find p i = Some (r, q)" "root_of p i r" "forest h q" "same_roots p q"
    using uf_find_spec [OF h(1), of i] assms(2) h(2) by blast
  moreover have "represents n q e"
    using assms(1) q(3,4) same_roots_class [OF q(4) h(1)] h(2)
    by (auto simp: represents_def same_roots_def)
  ultimately show ?thesis using assms(2) h(2) by (auto simp: same_roots_def)
qed

lemma connected_cong_edge: "connected e i j \<Longrightarrow> connected (add_edge i j e) a b \<longleftrightarrow> connected e a b"
  unfolding connected_add_edge using connected_sym connected_trans by metis

lemma union_represents:
  assumes rep: "represents n p e" and ij: "i < n" "j < n"
  shows "\<exists>q. uf_union p i j = Some q \<and> represents n q (add_edge i j e)"
proof -
  obtain ri p1 where 1: "uf_find p i = Some (ri, p1)" "root_of p1 i ri" "represents n p1 e"
    using find_represents [OF rep ij(1)] by blast
  obtain rj p2 where 2: "uf_find p1 j = Some (rj, p2)" "root_of p2 j rj" "represents n p2 e" "same_roots p1 p2"
    using find_represents [OF 1(3) ij(2)] by blast
  obtain h where h: "forest h p2" "length p2 = n" using 2(3) by (auto simp: represents_def)
  have ri: "root_of p2 i ri" using 1 2(4) ij(1) by (auto simp: same_roots_def represents_def)
  have cls: "same_class p2 a b \<longleftrightarrow> connected e a b" if "a < n" "b < n" for a b
    using 2(3) that by (simp add: represents_def)
  show ?thesis
  proof (cases "ri = rj")
    case True
    then have "connected e i j" using cls [OF ij] ri 2(2) by (auto simp: same_class_def)
    then have "represents n p2 (add_edge i j e)" using 2(3) by (simp add: represents_def connected_cong_edge)
    then show ?thesis using 1(1) 2(1) True by (simp add: uf_union_def)
  next
    case False
    have r: "p2 ! ri = ri" "ri < length p2" "p2 ! rj = rj" "rj < length p2"
      using root_of_root [OF ri] root_of_root [OF 2(2)] root_of_rank [OF ri h(1)] root_of_rank [OF 2(2) h(1)] ij h(2)
      by auto
    note link = link_roots [OF h(1) r False]
    have "same_class (p2[ri := rj]) a b \<longleftrightarrow> connected (add_edge i j e) a b" if ab: "a < n" "b < n" for a b
    proof -
      obtain s t where st: "root_of p2 a s" "root_of p2 b t" using root_of_total [OF h(1)] ab h(2) by metis
      have "same_class (p2[ri := rj]) a b \<longleftrightarrow> (if s = ri then rj else s) = (if t = ri then rj else t)"
        unfolding same_class_def by (rule root_unique [OF link(2) [OF st(1)] link(2) [OF st(2)]])
      moreover have "connected e x y \<longleftrightarrow> u = v" if "x < n" "y < n" "root_of p2 x u" "root_of p2 y v" for x y u v
        using cls [OF that(1,2)] root_unique [OF that(3,4)] by (simp add: same_class_def)
      note c = this [OF ab st] this [OF ab(1) ij(1) st(1) ri] this [OF ij(2) ab(2) 2(2) st(2)]
        this [OF ab(1) ij(2) st(1) 2(2)] this [OF ij(1) ab(2) ri st(2)]
      ultimately show ?thesis using False by (auto simp: connected_add_edge c)
    qed
    then have "represents n (p2[ri := rj]) (add_edge i j e)" using link(1) h(2) by (simp add: represents_def)
    then show ?thesis using 1(1) 2(1) False by (simp add: uf_union_def)
  qed
qed

lemma connected_cong: "(\<And>a b. e a b \<longleftrightarrow> f a b) \<Longrightarrow> connected e i j \<longleftrightarrow> connected f i j"
  using connected_mono by metis

lemma represents_cong: "(\<And>a b. e a b \<longleftrightarrow> f a b) \<Longrightarrow> represents n p e \<Longrightarrow> represents n p f"
  using connected_cong [of e f] by (simp add: represents_def)

lemma join_pairs_represents:
  assumes "represents n p e" "\<forall>(i, j) \<in> set ps. i < n \<and> j < n"
  shows "\<exists>q. join_pairs sim ps p = Some q \<and> represents n q (\<lambda>a b. e a b \<or> (a, b) \<in> set ps \<and> sim a b)"
  using assms
proof (induction ps arbitrary: p e)
  case (Cons x ps)
  obtain i j where x: "x = (i, j)" by (cases x)
  show ?case
  proof (cases "sim i j")
    case True
    obtain p' where p': "uf_union p i j = Some p'" "represents n p' (add_edge i j e)"
      using union_represents Cons.prems x by force
    obtain q where q: "join_pairs sim ps p' = Some q"
        "represents n q (\<lambda>a b. add_edge i j e a b \<or> (a, b) \<in> set ps \<and> sim a b)"
      using Cons.IH [OF p'(2)] Cons.prems(2) by auto
    have "represents n q (\<lambda>a b. e a b \<or> (a, b) \<in> set (x # ps) \<and> sim a b)"
      by (rule represents_cong [OF _ q(2)]) (use True x in \<open>auto simp: add_edge_def\<close>)
    then show ?thesis using q(1) p'(1) True x by simp
  next
    case False
    obtain q where q: "join_pairs sim ps p = Some q" "represents n q (\<lambda>a b. e a b \<or> (a, b) \<in> set ps \<and> sim a b)"
      using Cons.IH [OF Cons.prems(1)] Cons.prems(2) by auto
    have "represents n q (\<lambda>a b. e a b \<or> (a, b) \<in> set (x # ps) \<and> sim a b)"
      by (rule represents_cong [OF _ q(2)]) (use False x in auto)
    then show ?thesis using q(1) False x by simp
  qed
qed simp

lemma init_represents: "represents n [0..<n] (\<lambda>_ _. False)"
proof -
  have "forest (\<lambda>_. 0) [0..<n]" by (simp add: forest_def)
  moreover have "root_of [0..<n] i i" if "i < n" for i using that by (intro root_of.root) simp
  then have "same_class [0..<n] i j \<longleftrightarrow> i = j" if "i < n" "j < n" for i j
    using that root_unique unfolding same_class_def by metis
  moreover have "i = j" if "connected (\<lambda>_ _. False) i j" for i j
    using that by (induction rule: connected.induct) simp_all
  ultimately show ?thesis using connected.self by (auto simp: represents_def)
qed

lemma set_index_pairs: "set (index_pairs n) = {(i, j). i < j \<and> j < n}"
  by (force simp: index_pairs_def)

lemma clusters_represent:
  "\<exists>p. join_pairs sim (index_pairs n) [0..<n] = Some p \<and> represents n p (\<lambda>a b. a < b \<and> b < n \<and> sim a b)"
proof -
  obtain p where "join_pairs sim (index_pairs n) [0..<n] = Some p"
      "represents n p (\<lambda>a b. False \<or> (a, b) \<in> set (index_pairs n) \<and> sim a b)"
    using join_pairs_represents [OF init_represents, of "index_pairs n" n sim] by (auto simp: set_index_pairs)
  then show ?thesis by (simp add: set_index_pairs)
qed

section \<open>Groups\<close>

lemma push_group_spec:
  assumes "distinct (map fst gs)"
  shows "distinct (map fst (push_group r x gs)) \<and> fst ` set (push_group r x gs) = insert r (fst ` set gs) \<and>
    (\<forall>k ys. (k, ys) \<in> set (push_group r x gs) \<longleftrightarrow>
      (if k = r then (\<exists>xs. (r, xs) \<in> set gs \<and> ys = xs @ [x]) \<or> r \<notin> fst ` set gs \<and> ys = [x] else (k, ys) \<in> set gs))"
  using assms
proof (induction gs)
  case (Cons g gs)
  obtain q xs where g: "g = (q, xs)" by (cases g)
  show ?case
  proof (cases "q = r")
    case True
    then have "\<forall>ys. (r, ys) \<notin> set gs" using Cons.prems g by (force simp: image_iff)
    then show ?thesis using Cons.prems g True by auto
  next
    case False
    then show ?thesis using Cons g by auto
  qed
qed simp

definition group_all :: "(nat \<Rightarrow> nat) \<Rightarrow> (nat \<times> int) list \<Rightarrow> (nat \<times> int list) list" where
  "group_all f rs = fold (\<lambda>(i, x). push_group (f i) x) rs []"

lemma group_all_spec:
  "distinct (map fst (group_all f rs)) \<and> fst ` set (group_all f rs) = (\<lambda>a. f (fst a)) ` set rs \<and>
   (\<forall>(k, ys) \<in> set (group_all f rs). ys = map snd (filter (\<lambda>a. f (fst a) = k) rs))"
proof (induction rs rule: rev_induct)
  case Nil
  show ?case by (simp add: group_all_def)
next
  case (snoc a rs)
  obtain i x where a: "a = (i, x)" by (cases a)
  have g: "group_all f (rs @ [a]) = push_group (f i) x (group_all f rs)" by (simp add: group_all_def a)
  have IH: "distinct (map fst (group_all f rs))" "fst ` set (group_all f rs) = (\<lambda>a. f (fst a)) ` set rs"
    "\<And>k ys. (k, ys) \<in> set (group_all f rs) \<Longrightarrow> ys = map snd (filter (\<lambda>a. f (fst a) = k) rs)"
    using snoc by auto
  note p = push_group_spec [OF IH(1), of "f i" x]
  have "ys = map snd (filter (\<lambda>a. f (fst a) = k) (rs @ [a]))" if "(k, ys) \<in> set (group_all f (rs @ [a]))" for k ys
  proof (cases "k = f i")
    case False
    then show ?thesis using that p g IH(3) a by auto
  next
    case True
    have "(\<exists>xs. (f i, xs) \<in> set (group_all f rs) \<and> ys = xs @ [x]) \<or> f i \<notin> fst ` set (group_all f rs) \<and> ys = [x]"
      using that p g True by auto
    then consider xs where "(f i, xs) \<in> set (group_all f rs)" "ys = xs @ [x]"
      | "f i \<notin> fst ` set (group_all f rs)" "ys = [x]" by blast
    then show ?thesis
    proof cases
      case 1
      then show ?thesis using True IH(3) a by simp
    next
      case 2
      then have "filter (\<lambda>a. f (fst a) = f i) rs = []" unfolding IH(2) by (auto simp: filter_empty_conv image_iff)
      then show ?thesis using 2 True a by simp
    qed
  qed
  then show ?case using p IH(2) g a by auto
qed

lemma group_rows_all:
  assumes "represents n q e" "\<forall>a \<in> set rs. fst a < n" "\<forall>i < n. root_of q i (f i)"
  shows "group_rows rs q gs = Some (fold (\<lambda>(i, x). push_group (f i) x) rs gs)"
  using assms
proof (induction rs arbitrary: q gs)
  case (Cons a rs)
  obtain i x where a: "a = (i, x)" by (cases a)
  obtain r q' where q': "uf_find q i = Some (r, q')" "root_of q' i r" "represents n q' e" "same_roots q q'"
    using find_represents [OF Cons.prems(1), of i] Cons.prems(2) a by auto
  have n: "length q = n" using Cons.prems(1) by (simp add: represents_def)
  have f: "\<forall>j < n. root_of q' j (f j)" using Cons.prems(3) q'(4) n by (simp add: same_roots_def)
  then have "r = f i" using root_of_det [OF q'(2)] Cons.prems(2) a by force
  then show ?case using Cons.IH [OF q'(3) _ f] Cons.prems(2) q'(1) a by simp
qed simp

lemma active_texts_distinct:
  assumes "distinct (map m_id (memories s))"
  shows "distinct (map fst (active_texts doc_text k s))"
proof -
  let ?rows = "sort_key (\<lambda>m. - m_updated m)
    (filter (\<lambda>m. m_superseded m = None \<and> doc_text (m_doc m) \<noteq> None) (memories s))"
  have "distinct (map m_id (filter (\<lambda>m. m_superseded m = None \<and> doc_text (m_doc m) \<noteq> None) (memories s)))"
    using assms by (rule distinct_map_filter)
  then have "distinct (map m_id ?rows)" by (simp add: distinct_map)
  then show ?thesis
    by (simp add: active_texts_def take_map [symmetric] comp_def distinct_take)
qed

lemma filter_zip_index:
  "length xs = n \<Longrightarrow> map snd (filter (\<lambda>a. P (fst a)) (zip [0..<n] xs)) = nths xs {j. P j}"
proof (induction xs arbitrary: n rule: rev_induct)
  case (snoc x xs)
  then show ?case by (cases n) (auto simp: nths_append)
qed (simp add: nths_def)

lemma distinct_concat_keys:
  assumes "distinct (map fst G)" "\<And>k ys. (k, ys) \<in> set G \<Longrightarrow> distinct ys"
    "\<And>k ys y. (k, ys) \<in> set G \<Longrightarrow> y \<in> set ys \<Longrightarrow> key y = k"
  shows "distinct (concat (map snd G))"
  using assms
proof (induction G)
  case (Cons g G)
  obtain k ys where g: "g = (k, ys)" by (cases g)
  have "distinct (concat (map snd G))"
  proof (rule Cons.IH)
    show "distinct (map fst G)" using Cons.prems(1) by simp
    show "distinct ys" if "(k, ys) \<in> set G" for k ys using Cons.prems(2) [of k ys] that by simp
    show "key y = k" if "(k, ys) \<in> set G" "y \<in> set ys" for k ys y using Cons.prems(3) [of k ys y] that by simp
  qed
  moreover have "set ys \<inter> set (concat (map snd G)) = {}"
  proof (rule ccontr)
    assume "set ys \<inter> set (concat (map snd G)) \<noteq> {}"
    then obtain y q zs where y: "y \<in> set ys" "(q, zs) \<in> set G" "y \<in> set zs" by auto
    then have "q = k" using Cons.prems(3) [of k ys y] Cons.prems(3) [of q zs y] g by auto
    then show False using y(2) Cons.prems(1) g by force
  qed
  ultimately show ?case using Cons.prems(2) [of k ys] g by auto
qed simp

lemma distinct_concat_filter: "distinct (concat xss) \<Longrightarrow> distinct (concat (filter P xss))"
  by (induction xss) auto

text \<open>C23. Clustering ends and returns exactly the connected components of at least two active memories
  in the graph whose edges join memories of similar texts; no memory occurs twice.\<close>

theorem clusters_are_components:
  assumes "distinct (map m_id (memories s))"
  shows "let rows = active_texts doc_text max_rows s; n = length rows;
      sim = (\<lambda>i j. i < j \<and> j < n \<and> similar threshold (snd (rows ! i)) (snd (rows ! j)));
      comp = (\<lambda>i. {fst (rows ! j) |j. j < n \<and> connected sim i j})
    in \<exists>gs. cluster_for_compact doc_text threshold max_rows s = Some gs \<and>
      set ` set gs = {comp i |i. i < n \<and> 2 \<le> card (comp i)} \<and> distinct (concat gs)"
proof -
  define rows where "rows = active_texts doc_text max_rows s"
  define n where "n = length rows"
  define sim where "sim = (\<lambda>i j. i < j \<and> j < n \<and> similar threshold (snd (rows ! i)) (snd (rows ! j)))"
  define comp where "comp i = {fst (rows ! j) |j. j < n \<and> connected sim i j}" for i
  have dist: "distinct (map fst rows)" unfolding rows_def by (rule active_texts_distinct [OF assms])
  obtain p where p: "join_pairs (\<lambda>i j. similar threshold (snd (rows ! i)) (snd (rows ! j))) (index_pairs n) [0..<n] = Some p"
      "represents n p sim"
    using clusters_represent [of "\<lambda>i j. similar threshold (snd (rows ! i)) (snd (rows ! j))" n] by (auto simp: sim_def)
  obtain h where h: "forest h p" "length p = n" using p(2) by (auto simp: represents_def)
  obtain f where f: "\<forall>i < n. root_of p i (f i)" using root_of_total [OF h(1)] h(2) by metis
  define G where "G = group_all f (zip [0..<n] (map fst rows))"
  define gs where "gs = filter (\<lambda>g. 2 \<le> length g) (map snd G)"
  have cl: "cluster_for_compact doc_text threshold max_rows s = Some gs"
  proof -
    have "\<forall>a \<in> set (zip [0..<n] (map fst rows)). fst a < n" by (auto dest: set_zip_leftD)
    from group_rows_all [OF p(2) this f] p(1) show ?thesis
      by (simp add: cluster_for_compact_def Let_def gs_def G_def group_all_def rows_def [symmetric] n_def [symmetric])
  qed
  have conn: "connected sim i j \<longleftrightarrow> f i = f j" if "i < n" "j < n" for i j
    using p(2) that f root_unique [of p i "f i" j "f j"] by (simp add: represents_def same_class_def)
  have zip: "set (zip [0..<n] (map fst rows)) = (\<lambda>j. (j, fst (rows ! j))) ` {0..<n}"
    by (force simp: set_zip n_def)
  note gspec = group_all_spec [of f "zip [0..<n] (map fst rows)", folded G_def]
  have G: "distinct (map fst G)" "fst ` set G = f ` {0..<n}"
    using gspec by (simp_all add: zip image_image)
  have G3: "ys = nths (map fst rows) {j. f j = k}" if "(k, ys) \<in> set G" for k ys
    using gspec that filter_zip_index [of "map fst rows" n "\<lambda>j. f j = k"] by (auto simp: n_def)
  have ys: "distinct ys" "set ys = {fst (rows ! j) |j. j < n \<and> f j = k}" if "(k, ys) \<in> set G" for k ys
  proof -
    show "distinct ys" using G3 [OF that] dist by simp
    have "set ys = {map fst rows ! j |j. j < n \<and> f j = k}" by (simp add: G3 [OF that] set_nths n_def)
    also have "\<dots> = {fst (rows ! j) |j. j < n \<and> f j = k}" by (rule Collect_cong) (metis n_def nth_map)
    finally show "set ys = {fst (rows ! j) |j. j < n \<and> f j = k}" .
  qed
  have inj: "inj_on (\<lambda>j. fst (rows ! j)) {0..<n}"
    using dist unfolding inj_on_def n_def distinct_conv_nth by (metis atLeastLessThan_iff length_map nth_map)
  have comp: "comp i = {fst (rows ! j) |j. j < n \<and> f j = f i}" if "i < n" for i
    using conn [OF that] by (auto simp: comp_def)
  have sets: "set ` set gs = {comp i |i. i < n \<and> 2 \<le> card (comp i)}"
  proof (rule set_eqI)
    fix C
    have "C \<in> set ` set gs \<longleftrightarrow> (\<exists>(k, ys) \<in> set G. C = set ys \<and> 2 \<le> length ys)" by (force simp: gs_def)
    also have "\<dots> \<longleftrightarrow> (\<exists>(k, ys) \<in> set G. C = {fst (rows ! j) |j. j < n \<and> f j = k} \<and> 2 \<le> card C)"
      by (rule bex_cong [OF refl]) (use ys distinct_card in fastforce)
    also have "\<dots> \<longleftrightarrow> (\<exists>k \<in> fst ` set G. C = {fst (rows ! j) |j. j < n \<and> f j = k} \<and> 2 \<le> card C)" by force
    also have "\<dots> \<longleftrightarrow> C \<in> {comp i |i. i < n \<and> 2 \<le> card (comp i)}"
    proof -
      have "(\<exists>k \<in> f ` {0..<n}. C = {fst (rows ! j) |j. j < n \<and> f j = k} \<and> 2 \<le> card C) \<longleftrightarrow>
          (\<exists>i \<in> {0..<n}. C = comp i \<and> 2 \<le> card C)" by (simp add: comp)
      then show ?thesis unfolding G(2) by auto
    qed
    finally show "C \<in> set ` set gs \<longleftrightarrow> C \<in> {comp i |i. i < n \<and> 2 \<le> card (comp i)}" .
  qed
  have "distinct (concat (map snd G))"
  proof (rule distinct_concat_keys [OF G(1) ys(1)])
    fix k zs y assume z: "(k, zs) \<in> set G" "y \<in> set zs"
    then obtain j where "y = fst (rows ! j)" "j < n" "f j = k" using ys(2) [OF z(1)] by auto
    then show "f (the_inv_into {0..<n} (\<lambda>j. fst (rows ! j)) y) = k"
      using the_inv_into_f_f [OF inj, of j] by simp
  qed
  then have "distinct (concat gs)" unfolding gs_def by (rule distinct_concat_filter)
  with cl sets show ?thesis
    by (auto simp: Let_def rows_def [symmetric] n_def [symmetric] sim_def [symmetric] comp_def [symmetric])
qed

theorem clusters_are_components_witness:
  "\<exists>gs. cluster_for_compact (\<lambda>_. Some []) (f64.Fin (1 / 2)) 9 promoted_db = Some gs \<and> distinct (concat gs)"
proof -
  have "distinct (map m_id (memories promoted_db))" by (simp add: promoted_db_def)
  from clusters_are_components [OF this, of "\<lambda>_. Some []" 9 "f64.Fin (1 / 2)"] show ?thesis
    unfolding Let_def by blast
qed

end
