(* ===== verification/Lexical_Index.thy ===== *)
theory Lexical_Index
  imports Rust_Text
begin

text \<open>
  Lexical search: the query sanitiser \<^verbatim>\<open>fts5_match_query\<close> of \<^verbatim>\<open>crates/synapse-core/src/db.rs\<close> and
  the index wrapper \<^verbatim>\<open>FtsIndex\<close> of \<^verbatim>\<open>crates/synapse-fts/src/lib.rs\<close>. Of the tantivy index only the
  documents it holds are modelled: those committed and those added since. An index that lives in a
  directory writes its committed documents there, together with the id kept by
  \<^verbatim>\<open>set_last_indexed_doc_id\<close>; I/O errors are not modelled. Matching and ranking are tantivy's.
\<close>

section \<open>Query sanitising\<close>

definition is_ascii_whitespace :: "rchar \<Rightarrow> bool" where
  "is_ascii_whitespace c \<longleftrightarrow> c = 32 \<or> c = 9 \<or> c = 10 \<or> c = 12 \<or> c = 13"

definition word_char :: "rchar \<Rightarrow> bool" where
  "word_char c \<longleftrightarrow> is_ascii_alphanumeric c \<or> c = 95"

text \<open>The loop over the characters with the local variables \<^verbatim>\<open>token\<close> and \<^verbatim>\<open>tokens\<close>, and the flush
  after it; the break leaves sixteen tokens, so the flush then does nothing.\<close>

fun scan_tokens :: "rstr \<Rightarrow> rstr \<Rightarrow> rstr list \<Rightarrow> rstr list" where
  "scan_tokens [] token tokens =
     (if 1 < str_len token \<and> length tokens < 16 then tokens @ [token] else tokens)"
| "scan_tokens (c # cs) token tokens =
     (let (token', tokens') =
        if word_char c then (token @ [c], tokens)
        else if 1 < str_len token then ([], tokens @ [token])
        else ([], tokens)
      in if 16 \<le> length tokens' then
           (if 1 < str_len token' \<and> length tokens' < 16 then tokens' @ [token'] else tokens')
         else scan_tokens cs token' tokens')"

text \<open>\<^verbatim>\<open>format!("\"{}\"", t.replace('"', "\"\""))\<close>.\<close>

definition quote_token :: "rstr \<Rightarrow> rstr" where
  "quote_token t = [34] @ concat (map (\<lambda>c. if c = 34 then [34, 34] else [c]) t) @ [34]"

definition fts5_match_query :: "rstr \<Rightarrow> rstr option" where
  "fts5_match_query q =
     (let trimmed = trim q in
      if trimmed = [] then None
      else if list_all (\<lambda>c. word_char c \<or> is_ascii_whitespace c) trimmed then Some trimmed
      else let tokens = scan_tokens trimmed [] [] in
        if tokens = [] then None else Some (join_with (lit '' OR '') (map quote_token tokens)))"

section \<open>The index\<close>

record fts_index =
  fi_path :: bool
  fi_committed :: "(int \<times> rstr) list"
  fi_pending :: "(int \<times> rstr) list"

text \<open>The index directory: the committed documents, if it exists, and the id in its meta file.\<close>

record fts_disk =
  fd_docs :: "(int \<times> rstr) list option"
  fd_last :: int

text \<open>\<^verbatim>\<open>FtsIndex::new\<close>: \<open>path\<close> says whether a directory is given or \<^verbatim>\<open>:memory:\<close>.\<close>

definition fts_new :: "bool \<Rightarrow> fts_disk \<Rightarrow> fts_index \<times> fts_disk" where
  "fts_new path d =
     (if path then
        let ds = (case fd_docs d of Some ds \<Rightarrow> ds | None \<Rightarrow> [])
        in (\<lparr>fi_path = True, fi_committed = ds, fi_pending = []\<rparr>, d\<lparr>fd_docs := Some ds\<rparr>)
      else (\<lparr>fi_path = False, fi_committed = [], fi_pending = []\<rparr>, d))"

definition fts_add :: "int \<Rightarrow> rstr \<Rightarrow> fts_index \<Rightarrow> fts_index" where
  "fts_add i t x = x\<lparr>fi_pending := fi_pending x @ [(i, t)]\<rparr>"

definition fts_commit :: "fts_index \<Rightarrow> fts_disk \<Rightarrow> fts_index \<times> fts_disk" where
  "fts_commit x d =
     (let ds = fi_committed x @ fi_pending x in
      (x\<lparr>fi_committed := ds, fi_pending := []\<rparr>, if fi_path x then d\<lparr>fd_docs := Some ds\<rparr> else d))"

definition set_last_indexed_doc_id :: "int \<Rightarrow> fts_index \<Rightarrow> fts_disk \<Rightarrow> fts_disk" where
  "set_last_indexed_doc_id i x d = (if fi_path x then d\<lparr>fd_last := i\<rparr> else d)"

definition last_indexed_doc_id :: "fts_index \<Rightarrow> fts_disk \<Rightarrow> int" where
  "last_indexed_doc_id x d = (if fi_path x then fd_last d else 0)"

abbreviation fts_docs :: "fts_index \<Rightarrow> (int \<times> rstr) list" where
  "fts_docs x \<equiv> fi_committed x @ fi_pending x"

section \<open>Lemmas\<close>

lemma str_len_word [simp]: "list_all word_char t \<Longrightarrow> str_len t = length t"
proof (induction t)
  case (Cons c t)
  then have "c < 128"
    by (auto simp: word_char_def is_ascii_alphanumeric_def is_ascii_digit_def is_ascii_uppercase_def
        is_ascii_lowercase_def)
  then show ?case using Cons by (simp add: str_len_def utf8_def utf8_char_def)
qed (simp add: str_len_def utf8_def)

abbreviation words_of :: "rstr \<Rightarrow> rstr list" where
  "words_of s \<equiv> filter (\<lambda>t. 1 < length t) (split_on (\<lambda>c. \<not> word_char c) s)"

lemma split_on_append_free:
  "list_all (\<lambda>c. \<not> P c) t \<Longrightarrow> split_on P (t @ s) = (t @ hd (split_on P s)) # tl (split_on P s)"
proof (induction t)
  case Nil
  show ?case by (cases s) (auto split: list.splits)
qed simp

lemma split_on_members: "w \<in> set (split_on P s) \<Longrightarrow> list_all (\<lambda>c. \<not> P c) w"
  by (induction s arbitrary: w) (auto split: if_splits list.splits)

lemma scan_tokens_words:
  assumes "list_all word_char token" "length tokens < 16"
  shows "scan_tokens s token tokens = take 16 (tokens @ words_of (token @ s))"
  using assms
proof (induction s arbitrary: token tokens)
  case Nil
  have "split_on (\<lambda>c. \<not> word_char c) token = [token]"
    using split_on_append_free [of "\<lambda>c. \<not> word_char c" token "[]"] Nil by simp
  then show ?case using Nil by simp
next
  case (Cons c s)
  show ?case
  proof (cases "word_char c")
    case True
    then show ?thesis using Cons.prems Cons.IH [of "token @ [c]" tokens] by simp
  next
    case False
    then have w: "words_of (token @ c # s) = (if 1 < length token then [token] else []) @ words_of s"
      using split_on_append_free [of "\<lambda>c. \<not> word_char c" token "c # s"] Cons.prems(1) by simp
    have l: "str_len token = length token" using Cons.prems(1) by simp
    show ?thesis
    proof (cases "1 < length token \<and> length tokens = 15")
      case True
      then show ?thesis using False w l by simp
    next
      case F: False
      then show ?thesis
        using False w l Cons.prems Cons.IH [of "[]" tokens] Cons.IH [of "[]" "tokens @ [token]"]
        by (simp add: take_Cons' del: split_on.simps)
    qed
  qed
qed

lemma word_char_not_quote: "\<not> word_char 34"
  by (simp add: word_char_def is_ascii_alphanumeric_def is_ascii_digit_def is_ascii_uppercase_def
      is_ascii_lowercase_def)

lemma quote_token_word: "list_all word_char t \<Longrightarrow> quote_token t = 34 # t @ [34]"
proof -
  assume "list_all word_char t"
  then have "concat (map (\<lambda>c. if c = 34 then [34, 34] else [c]) t) = t"
    by (induction t) (auto simp: word_char_not_quote)
  then show ?thesis by (simp add: quote_token_def)
qed

text \<open>A query is passed on unchanged when it consists of ASCII words and blanks; otherwise it
  becomes the disjunction of its first sixteen words of at least two characters, each in quotes, so
  that no other character of the input reaches the query language.\<close>

theorem fts5_match_query_exact:
  "fts5_match_query q =
     (if trim q = [] then None
      else if list_all (\<lambda>c. word_char c \<or> is_ascii_whitespace c) (trim q) then Some (trim q)
      else if words_of (trim q) = [] then None
      else Some (join_with (lit '' OR '') (map (\<lambda>t. [34] @ t @ [34]) (take 16 (words_of (trim q))))))"
proof -
  have scan: "scan_tokens (trim q) [] [] = take 16 (words_of (trim q))"
    using scan_tokens_words [of "[]" "[]"] by simp
  have quote: "map quote_token (take 16 (words_of (trim q))) = map (\<lambda>t. [34] @ t @ [34]) (take 16 (words_of (trim q)))"
    by (auto dest!: in_set_takeD split_on_members simp: quote_token_word)
  show ?thesis unfolding fts5_match_query_def Let_def scan quote by simp
qed

end
