(* ===== verification/Doc_Store.thy ===== *)
theory Doc_Store
  imports Memory_Layer Lexical_Index
begin

text \<open>
  The document store of \<^verbatim>\<open>crates/synapse-core/src/db.rs\<close> with its default features (turbo cache and
  tantivy index, no usearch sidecar). The tables \<^verbatim>\<open>docs\<close> and \<^verbatim>\<open>docs_vec\<close> are row lists,
  \<^verbatim>\<open>docs_fts\<close> is the list of the rows the FTS5 index holds, and the memory tables are those of
  \<open>Memory_Layer\<close>. \<^verbatim>\<open>docs.id\<close> is \<^verbatim>\<open>AUTOINCREMENT\<close>, one more than the largest id ever used. A
  transaction that fails leaves the tables as they were. The in-memory vector cache is modelled by
  the ids and embeddings it was built from; an embedding is a list of \<^verbatim>\<open>f32\<close> bit patterns. BLAKE3,
  Ed25519, JSON, CRDT merging and the tantivy matcher are arguments, and so are the clocks.
\<close>

section \<open>Data\<close>

type_synonym embedding = "u32 list"

definition EMBED_DIM :: nat where
  "EMBED_DIM = 384"

text \<open>\<^verbatim>\<open>f32::is_finite\<close> on the bit pattern: not all exponent bits are set.\<close>

definition f32_is_finite :: "u32 \<Rightarrow> bool" where
  "f32_is_finite w \<longleftrightarrow> unat w div 2 ^ 23 mod 256 \<noteq> 255"

record 'j store_lib =
  blake3 :: "bytes \<Rightarrow> bytes"
  json_text :: "'j \<Rightarrow> rstr"
  json_parse :: "rstr \<Rightarrow> 'j option"

record 'j put_request =
  r_uri :: "rstr option"
  r_title :: "rstr option"
  r_text :: rstr
  r_meta :: "'j option"
  r_embedding :: "embedding option"

record doc_row =
  d_id :: int
  d_uri :: "rstr option"
  d_title :: "rstr option"
  d_text :: rstr
  d_meta :: "rstr option"
  d_ts :: int
  d_blake3 :: bytes
  d_sig :: "bytes option"
  d_crdt :: "bytes option"

record 'j doc =
  g_id :: int
  g_uri :: "rstr option"
  g_title :: "rstr option"
  g_text :: rstr
  g_meta :: "'j option"
  g_ts :: int

datatype search_mode = LexMode | VecMode | HybridMode

record query_log =
  l_ts :: int
  l_hash :: bytes
  l_len :: nat
  l_mode :: rstr
  l_latency :: nat
  l_hits :: nat
  l_top :: f64

record store =
  docs :: "doc_row list"
  docs_seq :: int
  docs_vec :: "(int \<times> embedding) list"
  docs_fts :: "(int \<times> rstr option \<times> rstr) list"
  docs_ai :: bool
  mem :: mem_db
  turbo :: "(int \<times> embedding) list option"
  tantivy :: "fts_index option"
  fts_dir :: fts_disk
  query_logs :: "query_log list"

datatype store_error =
    DimMismatch nat | NonFinite | EmbeddingGiven | Sqlite | DocNotFound int
  | NoSignature | BadSigLength | BadSignature | CrdtError | FtsError

text \<open>The empty database after \<^verbatim>\<open>migrate\<close> and \<^verbatim>\<open>sota_migrate\<close>, with the index still closed.\<close>

definition store_migrate :: store where
  "store_migrate = \<lparr>docs = [], docs_seq = 0, docs_vec = [], docs_fts = [], docs_ai = True,
     mem = sota_migrate, turbo = None, tantivy = None,
     fts_dir = \<lparr>fd_docs = None, fd_last = 0\<rparr>, query_logs = []\<rparr>"

abbreviation doc_ids :: "store \<Rightarrow> int set" where
  "doc_ids s \<equiv> d_id ` set (docs s)"

abbreviation doc_exists :: "store \<Rightarrow> int \<Rightarrow> bool" where
  "doc_exists s d \<equiv> d \<in> doc_ids s"

definition max_id :: "store \<Rightarrow> int" where
  "max_id s = (if docs s = [] then 0 else Max (doc_ids s))"

section \<open>The lexical index\<close>

text \<open>\<^verbatim>\<open>format!("{} {}", title.unwrap_or(""), text)\<close>.\<close>

definition combined :: "rstr option \<Rightarrow> rstr \<Rightarrow> rstr" where
  "combined title txt = (case title of None \<Rightarrow> [] | Some t \<Rightarrow> t) @ lit '' '' @ txt"

text \<open>Opens the index and adds the documents behind the last indexed id.\<close>

definition fts_build :: "bool \<Rightarrow> store \<Rightarrow> store" where
  "fts_build path s =
     (let (x0, d0) = fts_new path (fts_dir s);
          last_id = last_indexed_doc_id x0 d0;
          rows = filter (\<lambda>d. last_id < d_id d) (sort_key d_id (docs s));
          new_max = (if rows = [] then last_id else d_id (last rows));
          x1 = fold (\<lambda>d. fts_add (d_id d) (combined (d_title d) (d_text d))) rows x0;
          (x2, d2) = fts_commit x1 d0;
          d3 = (if last_id < new_max then set_last_indexed_doc_id new_max x2 d2 else d2)
      in s\<lparr>tantivy := Some x2, fts_dir := d3\<rparr>)"

text \<open>\<open>locked\<close>: another process holds the directory's lock, or the path is in memory.\<close>

definition init_tantivy_warm_start :: "bool \<Rightarrow> store \<Rightarrow> store" where
  "init_tantivy_warm_start locked s = fts_build (\<not> locked) s"

text \<open>\<^verbatim>\<open>Store::open\<close> on an existing database: the caches start empty, the trigger is recreated.\<close>

definition store_open :: "bool \<Rightarrow> store \<Rightarrow> store" where
  "store_open locked s = init_tantivy_warm_start locked (s\<lparr>docs_ai := True, turbo := None, tantivy := None\<rparr>)"

definition mirror_put :: "int \<Rightarrow> 'j put_request \<Rightarrow> store \<Rightarrow> store" where
  "mirror_put i r s =
     (case tantivy s of None \<Rightarrow> s
      | Some x \<Rightarrow> let (x', d') = fts_commit (fts_add i (combined (r_title r) (r_text r)) x) (fts_dir s)
          in s\<lparr>tantivy := Some x', fts_dir := d'\<rparr>)"

definition mirror_batch_to_tantivy :: "'j put_request list \<Rightarrow> int list \<Rightarrow> store \<Rightarrow> store" where
  "mirror_batch_to_tantivy reqs ids s =
     (case tantivy s of None \<Rightarrow> s
      | Some x \<Rightarrow> s\<lparr>tantivy := Some (fold (\<lambda>(i, r). fts_add i (combined (r_title r) (r_text r)))
                                      (zip ids reqs) x)\<rparr>)"

section \<open>The vector cache\<close>

text \<open>\<^verbatim>\<open>NdArraySearch::add_row\<close> on a cache that is not empty; None is the dimension error.\<close>

definition add_row :: "int \<Rightarrow> embedding \<Rightarrow> (int \<times> embedding) list \<Rightarrow> (int \<times> embedding) list option" where
  "add_row i e c =
     (if i \<in> fst ` set c then Some c
      else if length e \<noteq> length (snd (hd c)) then None
      else Some (c @ [(i, e)]))"

definition turbo_put :: "int \<Rightarrow> embedding option \<Rightarrow> store \<Rightarrow> store" where
  "turbo_put i emb s =
     (case (emb, turbo s) of
        (Some e, Some c) \<Rightarrow> if c = [] then s else s\<lparr>turbo := add_row i e c\<rparr>
      | _ \<Rightarrow> s)"

fun turbo_rows :: "(int \<times> 'j put_request) list \<Rightarrow> (int \<times> embedding) list \<Rightarrow> (int \<times> embedding) list option" where
  "turbo_rows [] c = Some c"
| "turbo_rows ((i, r) # rs) c =
     (case r_embedding r of
        None \<Rightarrow> turbo_rows rs c
      | Some e \<Rightarrow> (case add_row i e c of None \<Rightarrow> None | Some c' \<Rightarrow> turbo_rows rs c'))"

definition turbo_batch :: "'j put_request list \<Rightarrow> int list \<Rightarrow> store \<Rightarrow> store" where
  "turbo_batch reqs ids s =
     (case turbo s of
        None \<Rightarrow> s
      | Some c \<Rightarrow> if c = [] then s else s\<lparr>turbo := turbo_rows (zip ids reqs) c\<rparr>)"

text \<open>\<^verbatim>\<open>from_connection\<close> fails on an empty table, and an empty index is installed.\<close>

definition warm_turbo :: "store \<Rightarrow> store" where
  "warm_turbo s =
     (case turbo s of
        None \<Rightarrow> s\<lparr>turbo := Some (sort_key fst (docs_vec s))\<rparr>
      | Some c \<Rightarrow> s)"

definition take_ndarray_search :: "store \<Rightarrow> (int \<times> embedding) list option \<times> store" where
  "take_ndarray_search s = (turbo s, s\<lparr>turbo := None\<rparr>)"

section \<open>Writing\<close>

text \<open>\<^verbatim>\<open>INSERT INTO docs\<close>; None is the violation of a \<^verbatim>\<open>UNIQUE\<close> column. The trigger \<^verbatim>\<open>docs_ai\<close>
  adds the row to the FTS index.\<close>

definition insert_doc ::
  "'j store_lib \<Rightarrow> int \<Rightarrow> 'j put_request \<Rightarrow> bytes option \<Rightarrow> bytes option \<Rightarrow> store \<Rightarrow> (int \<times> store) option" where
  "insert_doc L ts r sig crdt s =
     (let h = blake3 L (utf8 (r_text r)); i = docs_seq s + 1 in
      if h \<in> d_blake3 ` set (docs s) \<or> r_uri r \<noteq> None \<and> r_uri r \<in> d_uri ` set (docs s) then None
      else Some (i, s\<lparr>docs := docs s @ [\<lparr>d_id = i, d_uri = r_uri r, d_title = r_title r, d_text = r_text r,
                  d_meta = map_option (json_text L) (r_meta r), d_ts = ts, d_blake3 = h, d_sig = sig,
                  d_crdt = crdt\<rparr>],
                docs_seq := i,
                docs_fts := docs_fts s @ (if docs_ai s then [(i, r_title r, r_text r)] else [])\<rparr>))"

definition insert_vec :: "int \<Rightarrow> embedding option \<Rightarrow> store \<Rightarrow> store" where
  "insert_vec i emb s = (case emb of None \<Rightarrow> s | Some e \<Rightarrow> s\<lparr>docs_vec := docs_vec s @ [(i, e)]\<rparr>)"

definition find_hash :: "'j store_lib \<Rightarrow> rstr \<Rightarrow> store \<Rightarrow> int option" where
  "find_hash L txt s = map_option d_id (find (\<lambda>d. d_blake3 d = blake3 L (utf8 txt)) (docs s))"

text \<open>A failure of the memory layer is only logged.\<close>

definition wire_memory :: "int \<Rightarrow> int \<Rightarrow> store \<Rightarrow> store" where
  "wire_memory mts i s =
     (case ensure_raw_memory_and_enqueue (doc_exists s) mts i (mem s) of
        Inl e \<Rightarrow> s | Inr (k, m) \<Rightarrow> s\<lparr>mem := m\<rparr>)"

definition wire_memory_batch :: "int \<Rightarrow> int list \<Rightarrow> store \<Rightarrow> store" where
  "wire_memory_batch mts ids s =
     (case ensure_raw_memory_and_enqueue_batch (doc_exists s) mts ids (mem s) of
        Inl e \<Rightarrow> s | Inr (k, m) \<Rightarrow> s\<lparr>mem := m\<rparr>)"

definition check_dim :: "embedding option \<Rightarrow> store_error option" where
  "check_dim emb = (case emb of None \<Rightarrow> None
     | Some e \<Rightarrow> if length e \<noteq> EMBED_DIM then Some (DimMismatch (length e)) else None)"

definition check_finite :: "embedding option \<Rightarrow> store_error option" where
  "check_finite emb = (case emb of None \<Rightarrow> None
     | Some e \<Rightarrow> if list_all f32_is_finite e then None else Some NonFinite)"

definition put_inner ::
  "'j store_lib \<Rightarrow> int \<Rightarrow> int \<Rightarrow> 'j put_request \<Rightarrow> bytes option \<Rightarrow> bytes option \<Rightarrow> store \<Rightarrow>
   store_error + int \<times> store" where
  "put_inner L ts mts r sig crdt s =
     (case check_dim (r_embedding r) of Some e \<Rightarrow> Inl e | None \<Rightarrow>
      (case check_finite (r_embedding r) of Some e \<Rightarrow> Inl e | None \<Rightarrow>
       (case find_hash L (r_text r) s of
          Some i \<Rightarrow> Inr (i, wire_memory mts i s)
        | None \<Rightarrow>
            (case insert_doc L ts r sig crdt s of
               None \<Rightarrow> Inl Sqlite
             | Some (i, s1) \<Rightarrow>
                 Inr (i, turbo_put i (r_embedding r)
                   (mirror_put i r (wire_memory mts i (insert_vec i (r_embedding r) s1))))))))"

definition put :: "'j store_lib \<Rightarrow> int \<Rightarrow> int \<Rightarrow> 'j put_request \<Rightarrow> store \<Rightarrow> store_error + int \<times> store" where
  "put L ts mts r s = put_inner L ts mts r None None s"

text \<open>\<open>sign\<close> is \<^verbatim>\<open>sign_bytes\<close> with the signing key, if one is given.\<close>

definition put_signed :: "'j store_lib \<Rightarrow> int \<Rightarrow> int \<Rightarrow> 'j put_request \<Rightarrow> (bytes \<Rightarrow> bytes) option \<Rightarrow>
    store \<Rightarrow> store_error + int \<times> store" where
  "put_signed L ts mts r sign s =
     put_inner L ts mts r (map_option (\<lambda>f. f (blake3 L (utf8 (r_text r)))) sign) None s"

definition put_with_crdt :: "'j store_lib \<Rightarrow> int \<Rightarrow> int \<Rightarrow> 'j put_request \<Rightarrow> bytes option \<Rightarrow>
    store \<Rightarrow> store_error + int \<times> store" where
  "put_with_crdt L ts mts r crdt s = put_inner L ts mts r None crdt s"

text \<open>The loop of \<^verbatim>\<open>put_batch\<close>; \<open>clock n\<close> is \<^verbatim>\<open>now_ms()\<close> at request \<open>n\<close>.\<close>

fun batch_rows :: "'j store_lib \<Rightarrow> (nat \<Rightarrow> int) \<Rightarrow> nat \<Rightarrow> 'j put_request list \<Rightarrow> store \<Rightarrow>
    store_error + int list \<times> store" where
  "batch_rows L clock n [] s = Inr ([], s)"
| "batch_rows L clock n (r # rs) s =
     (case check_dim (r_embedding r) of Some e \<Rightarrow> Inl e | None \<Rightarrow>
      (case (case find_hash L (r_text r) s of
               Some i \<Rightarrow> Inr (i, s)
             | None \<Rightarrow> (case insert_doc L (clock n) r None None s of
                 None \<Rightarrow> Inl Sqlite
               | Some (i, s1) \<Rightarrow> Inr (i, insert_vec i (r_embedding r) s1))) of
         Inl e \<Rightarrow> Inl e
       | Inr (i, s1) \<Rightarrow> (case batch_rows L clock (Suc n) rs s1 of
            Inl e \<Rightarrow> Inl e | Inr (ids, s2) \<Rightarrow> Inr (i # ids, s2))))"

definition put_batch :: "'j store_lib \<Rightarrow> (nat \<Rightarrow> int) \<Rightarrow> int \<Rightarrow> 'j put_request list \<Rightarrow> store \<Rightarrow>
    store_error + int list \<times> store" where
  "put_batch L clock mts reqs s =
     (case batch_rows L clock 0 reqs s of
        Inl e \<Rightarrow> Inl e
      | Inr (ids, s1) \<Rightarrow>
          Inr (ids, mirror_batch_to_tantivy reqs ids (turbo_batch reqs ids (wire_memory_batch mts ids s1))))"

text \<open>The loop that \<^verbatim>\<open>put_batch_fast\<close> and \<^verbatim>\<open>put_batch_deferred_fts\<close> share.\<close>

fun fast_rows :: "'j store_lib \<Rightarrow> int \<Rightarrow> 'j put_request list \<Rightarrow> store \<Rightarrow> store_error + int list \<times> store" where
  "fast_rows L ts [] s = Inr ([], s)"
| "fast_rows L ts (r # rs) s =
     (case (case find_hash L (r_text r) s of
              Some i \<Rightarrow> Inr (i, s)
            | None \<Rightarrow> (case insert_doc L ts r None None s of None \<Rightarrow> Inl Sqlite | Some p \<Rightarrow> Inr p)) of
        Inl e \<Rightarrow> Inl e
      | Inr (i, s1) \<Rightarrow> (case fast_rows L ts rs s1 of
           Inl e \<Rightarrow> Inl e | Inr (ids, s2) \<Rightarrow> Inr (i # ids, s2)))"

definition put_batch_fast :: "'j store_lib \<Rightarrow> int \<Rightarrow> int \<Rightarrow> 'j put_request list \<Rightarrow> store \<Rightarrow>
    store_error + int list \<times> store" where
  "put_batch_fast L ts mts reqs s =
     (if \<exists>r \<in> set reqs. r_embedding r \<noteq> None then Inl EmbeddingGiven
      else case fast_rows L ts reqs s of
        Inl e \<Rightarrow> Inl e
      | Inr (ids, s1) \<Rightarrow> Inr (ids, mirror_batch_to_tantivy reqs ids (wire_memory_batch mts ids s1)))"

text \<open>The trigger is dropped outside the transaction and recreated on both paths, so the store is
  returned in the error case too.\<close>

definition put_batch_deferred_fts :: "'j store_lib \<Rightarrow> int \<Rightarrow> int \<Rightarrow> 'j put_request list \<Rightarrow> store \<Rightarrow>
    (store_error + int list) \<times> store" where
  "put_batch_deferred_fts L ts mts reqs s =
     (if \<exists>r \<in> set reqs. r_embedding r \<noteq> None then (Inl EmbeddingGiven, s)
      else let s0 = s\<lparr>docs_ai := False\<rparr>; max_before = max_id s0 in
        case fast_rows L ts reqs s0 of
          Inl e \<Rightarrow> (Inl e, s0\<lparr>docs_ai := True\<rparr>)
        | Inr (ids, s1) \<Rightarrow>
            let s2 = s1\<lparr>docs_fts := docs_fts s1 @ map (\<lambda>d. (d_id d, d_title d, d_text d))
                               (filter (\<lambda>d. max_before < d_id d) (docs s1)),
                        docs_ai := True\<rparr>
            in (Inr ids, mirror_batch_to_tantivy reqs ids (wire_memory_batch mts ids s2)))"

text \<open>\<open>merge\<close> is \<^verbatim>\<open>crdt::merge_meta\<close>. The trigger \<^verbatim>\<open>docs_au\<close> removes the row of the FTS index and adds it
  again. \<open>fts_fails\<close>, here and in \<open>delete\<close>, says that FTS5 refuses to remove the row (\<^verbatim>\<open>SQLITE_CORRUPT\<close>): the index counts its
  rows and tokens, and \<^verbatim>\<open>delete\<close> takes every row off twice. Whether it does depends on the internal counters of SQLite,
  so it is an input of the operation.\<close>

definition merge_crdt :: "(bytes \<Rightarrow> bytes \<Rightarrow> bytes option) \<Rightarrow> bool \<Rightarrow> int \<Rightarrow> bytes \<Rightarrow> store \<Rightarrow> store_error + store" where
  "merge_crdt merge fts_fails i incoming s =
     (case find (\<lambda>d. d_id d = i) (docs s) of
        None \<Rightarrow> Inl (DocNotFound i)
      | Some d \<Rightarrow>
          (case (case d_crdt d of Some cur \<Rightarrow> merge cur incoming | None \<Rightarrow> Some incoming) of
             None \<Rightarrow> Inl CrdtError
           | Some merged \<Rightarrow>
               if fts_fails then Inl Sqlite
               else Inr (s\<lparr>docs := map (\<lambda>d. if d_id d = i then d\<lparr>d_crdt := Some merged\<rparr> else d) (docs s),
                     docs_fts := filter (\<lambda>f. fst f \<noteq> i) (docs_fts s) @ [(i, d_title d, d_text d)]\<rparr>)))"

text \<open>The statements of \<^verbatim>\<open>delete\<close> on the memory tables.\<close>

definition forget_doc :: "int \<Rightarrow> mem_db \<Rightarrow> mem_db" where
  "forget_doc i m =
     (let ids = m_id ` set (filter (\<lambda>r. m_doc r = i) (memories m)) in
      m\<lparr>memory_edges := filter (\<lambda>e. \<not> (e_src e \<in> ids \<or> e_dst e \<in> ids)) (memory_edges m),
        memories := filter (\<lambda>r. m_doc r \<noteq> i)
          (map (\<lambda>r. if (case m_superseded r of None \<Rightarrow> False | Some k \<Rightarrow> k \<in> ids)
                    then r\<lparr>m_superseded := None\<rparr> else r) (memories m)),
        extraction_queue := filter (\<lambda>q. q_doc q \<noteq> i) (extraction_queue m)\<rparr>)"

text \<open>The row leaves the FTS index by the statement on \<^verbatim>\<open>docs_fts\<close>, whose result is ignored, and again by the trigger
  \<^verbatim>\<open>docs_ad\<close>, whose failure fails the transaction. Neither runs for an id without a document.\<close>

definition delete :: "bool \<Rightarrow> int \<Rightarrow> store \<Rightarrow> store_error + bool \<times> store" where
  "delete fts_fails i s =
     (if doc_exists s i \<and> fts_fails then Inl Sqlite
      else Inr (i \<in> fst ` set (docs_vec s) \<or> doc_exists s i,
        s\<lparr>mem := forget_doc i (mem s), docs_vec := filter (\<lambda>v. fst v \<noteq> i) (docs_vec s),
          docs_fts := filter (\<lambda>f. fst f \<noteq> i) (docs_fts s), docs := filter (\<lambda>d. d_id d \<noteq> i) (docs s),
          turbo := None\<rparr>))"

definition log_query :: "'j store_lib \<Rightarrow> int \<Rightarrow> rstr \<Rightarrow> search_mode \<Rightarrow> nat \<Rightarrow> nat \<Rightarrow> f64 \<Rightarrow> store \<Rightarrow> store" where
  "log_query L now q mode latency_us hit_count top_score s =
     s\<lparr>query_logs := query_logs s @ [\<lparr>l_ts = now, l_hash = blake3 L (utf8 q), l_len = str_len q,
        l_mode = (case mode of LexMode \<Rightarrow> lit ''lex'' | VecMode \<Rightarrow> lit ''vec'' | HybridMode \<Rightarrow> lit ''hybrid''),
        l_latency = latency_us, l_hits = hit_count, l_top = top_score\<rparr>]\<rparr>"

section \<open>Reading\<close>

definition map_doc :: "'j store_lib \<Rightarrow> doc_row \<Rightarrow> 'j doc" where
  "map_doc L d = \<lparr>g_id = d_id d, g_uri = d_uri d, g_title = d_title d, g_text = d_text d,
     g_meta = Option.bind (d_meta d) (json_parse L), g_ts = d_ts d\<rparr>"

definition get :: "'j store_lib \<Rightarrow> int \<Rightarrow> store \<Rightarrow> store_error + 'j doc" where
  "get L i s = (case find (\<lambda>d. d_id d = i) (docs s) of
     None \<Rightarrow> Inl (DocNotFound i) | Some d \<Rightarrow> Inr (map_doc L d))"

text \<open>\<open>check\<close> is \<^verbatim>\<open>verify_bytes\<close> with the verifying key, on data and a signature of 64 bytes.\<close>

definition verify :: "'j store_lib \<Rightarrow> (bytes \<Rightarrow> bytes \<Rightarrow> bool) \<Rightarrow> int \<Rightarrow> store \<Rightarrow> store_error + unit" where
  "verify L check i s =
     (case find (\<lambda>d. d_id d = i) (docs s) of
        None \<Rightarrow> Inl (DocNotFound i)
      | Some d \<Rightarrow>
          (case d_sig d of
             None \<Rightarrow> Inl NoSignature
           | Some sg \<Rightarrow> if length sg \<noteq> 64 then Inl BadSigLength
               else if check (blake3 L (utf8 (d_text d))) sg then Inr () else Inl BadSignature))"

definition timeline :: "'j store_lib \<Rightarrow> nat \<Rightarrow> nat \<Rightarrow> store \<Rightarrow> 'j doc list" where
  "timeline L limit offset s = map (map_doc L) (take limit (drop offset (sort_key (\<lambda>d. - d_ts d) (docs s))))"

text \<open>\<open>occurred\<close> is \<^verbatim>\<open>json_extract(meta, '$.occurred_ts')\<close> cast to an integer, for valid JSON that
  has it; SQLite's integer division truncates.\<close>

definition event_secs :: "(rstr \<Rightarrow> int option) \<Rightarrow> doc_row \<Rightarrow> int" where
  "event_secs occurred d =
     (case Option.bind (d_meta d) occurred of
        Some t \<Rightarrow> t
      | None \<Rightarrow> if 0 \<le> d_ts d then d_ts d div 1000 else - (- d_ts d div 1000))"

definition timeline_between :: "'j store_lib \<Rightarrow> (rstr \<Rightarrow> int option) \<Rightarrow> int \<Rightarrow> int \<Rightarrow> nat \<Rightarrow> store \<Rightarrow> 'j doc list" where
  "timeline_between L occurred lo hi limit s =
     map (map_doc L) (take limit (sort_key (\<lambda>d. - event_secs occurred d)
       (filter (\<lambda>d. lo \<le> event_secs occurred d \<and> event_secs occurred d \<le> hi) (docs s))))"

definition stats :: "store \<Rightarrow> nat \<times> nat" where
  "stats s = (length (docs s), length (docs_vec s))"

record ('j, 'c) hit =
  h_id :: int
  h_uri :: "rstr option"
  h_title :: "rstr option"
  h_text :: rstr
  h_score :: 'c
  h_meta :: "'j option"
  h_ts :: "int option"

definition hit_of :: "'j store_lib \<Rightarrow> 'c \<Rightarrow> doc_row \<Rightarrow> ('j, 'c) hit" where
  "hit_of L score d = \<lparr>h_id = d_id d, h_uri = d_uri d, h_title = d_title d, h_text = d_text d,
     h_score = score, h_meta = Option.bind (d_meta d) (json_parse L), h_ts = Some (d_ts d)\<rparr>"

text \<open>Ids without a row are skipped.\<close>

fun hydrate :: "'j store_lib \<Rightarrow> store \<Rightarrow> (int \<times> 'c) list \<Rightarrow> ('j, 'c) hit list" where
  "hydrate L s [] = []"
| "hydrate L s ((i, score) # rs) =
     (case find (\<lambda>d. d_id d = i) (docs s) of
        None \<Rightarrow> hydrate L s rs | Some d \<Rightarrow> hit_of L score d # hydrate L s rs)"

text \<open>The part of \<^verbatim>\<open>search_lex\<close> before the query: the index is built when it is not open, pending
  documents are committed, and the largest id is noted as indexed.\<close>

definition lex_prepare :: "store \<Rightarrow> store" where
  "lex_prepare s =
     (let s1 = (if tantivy s = None then fts_build (fd_docs (fts_dir s) \<noteq> None) s else s);
          (x, d) = fts_commit (the (tantivy s1)) (fts_dir s1);
          d' = (if 0 < max_id s1 then set_last_indexed_doc_id (max_id s1) x d else d)
      in s1\<lparr>tantivy := Some x, fts_dir := d'\<rparr>)"

text \<open>\<open>engine\<close> is the matcher: the committed documents, the query and the limit give ids with
  scores, or a parse error.\<close>

definition search_lex ::
  "'j store_lib \<Rightarrow> ((int \<times> rstr) list \<Rightarrow> rstr \<Rightarrow> nat \<Rightarrow> (int \<times> 'c) list option) \<Rightarrow> rstr \<Rightarrow> nat \<Rightarrow> store \<Rightarrow>
   (store_error + ('j, 'c) hit list) \<times> store" where
  "search_lex L engine q limit s =
     (case fts5_match_query q of
        None \<Rightarrow> (Inr [], s)
      | Some fts_query \<Rightarrow>
          let s1 = lex_prepare s in
          case engine (fi_committed (the (tantivy s1))) fts_query limit of
            None \<Rightarrow> (Inl FtsError, s1)
          | Some results \<Rightarrow> (Inr (hydrate L s1 results), s1))"

section \<open>Metadata filters\<close>

text \<open>\<open>get_key\<close> is \<^verbatim>\<open>Value::get\<close> with a string key and \<open>as_f64\<close> is \<^verbatim>\<open>Value::as_f64\<close>.\<close>

record 'j json_access =
  get_key :: "'j \<Rightarrow> rstr \<Rightarrow> 'j option"
  as_f64 :: "'j \<Rightarrow> f64 option"

datatype 'j predicate =
    PEq rstr 'j | PNe rstr 'j | PLt rstr f64 | PGt rstr f64 | PLte rstr f64 | PGte rstr f64
  | PIn rstr "'j list" | PAnd "'j predicate list" | POr "'j predicate list" | PNot "'j predicate"

fun f64_less :: "f64 \<Rightarrow> f64 \<Rightarrow> bool" where
  "f64_less (Fin a) (Fin b) = (a < b)"
| "f64_less NegInf (Fin b) = True"
| "f64_less NegInf PosInf = True"
| "f64_less (Fin a) PosInf = True"
| "f64_less _ _ = False"

definition f64_le :: "f64 \<Rightarrow> f64 \<Rightarrow> bool" where
  "f64_le a b \<longleftrightarrow> f64_less a b \<or> a = b \<and> a \<noteq> NaN"

definition num_field :: "'j json_access \<Rightarrow> 'j \<Rightarrow> rstr \<Rightarrow> (f64 \<Rightarrow> bool) \<Rightarrow> bool" where
  "num_field A obj key P = (case Option.bind (get_key A obj key) (as_f64 A) of None \<Rightarrow> False | Some n \<Rightarrow> P n)"

text \<open>The last equation stands for the \<^verbatim>\<open>unreachable!\<close> branch: \<open>matches\<close> handles the compound predicates
  itself.\<close>

fun matches_field :: "'j json_access \<Rightarrow> 'j predicate \<Rightarrow> 'j \<Rightarrow> bool" where
  "matches_field A (PEq key v) obj = (get_key A obj key = Some v)"
| "matches_field A (PNe key v) obj = (case get_key A obj key of None \<Rightarrow> False | Some f \<Rightarrow> f \<noteq> v)"
| "matches_field A (PLt key v) obj = num_field A obj key (\<lambda>n. f64_less n v)"
| "matches_field A (PGt key v) obj = num_field A obj key (\<lambda>n. f64_less v n)"
| "matches_field A (PLte key v) obj = num_field A obj key (\<lambda>n. f64_le n v)"
| "matches_field A (PGte key v) obj = num_field A obj key (\<lambda>n. f64_le v n)"
| "matches_field A (PIn key vs) obj = (case get_key A obj key of None \<Rightarrow> False | Some f \<Rightarrow> f \<in> set vs)"
| "matches_field A p obj = False"

fun matches :: "'j json_access \<Rightarrow> 'j predicate \<Rightarrow> 'j option \<Rightarrow> bool" where
  "matches A (PAnd ps) meta = list_all (\<lambda>p. matches A p meta) ps"
| "matches A (POr ps) meta = list_ex (\<lambda>p. matches A p meta) ps"
| "matches A (PNot p) meta = (\<not> matches A p meta)"
| "matches A p meta = (case meta of None \<Rightarrow> False | Some obj \<Rightarrow> matches_field A p obj)"

text \<open>The \<^verbatim>\<open>meta\<close> column of a document of the store, parsed.\<close>

definition meta_of :: "'j store_lib \<Rightarrow> store \<Rightarrow> int \<Rightarrow> 'j option" where
  "meta_of L s i = (case find (\<lambda>d. d_id d = i) (docs s) of
     None \<Rightarrow> None | Some d \<Rightarrow> Option.bind (d_meta d) (json_parse L))"

definition filter_hits_by_meta ::
  "'j store_lib \<Rightarrow> 'j json_access \<Rightarrow> ('j, 'c) hit list \<Rightarrow> 'j predicate \<Rightarrow> nat \<Rightarrow> store \<Rightarrow> ('j, 'c) hit list" where
  "filter_hits_by_meta L A candidates p limit s =
     take limit (filter (\<lambda>h. matches A p (meta_of L s (h_id h))) candidates)"

section \<open>Invariant\<close>

definition fts_row :: "doc_row \<Rightarrow> int \<times> rstr option \<times> rstr" where
  "fts_row d = (d_id d, d_title d, d_text d)"

definition rows_wf :: "'j store_lib \<Rightarrow> store \<Rightarrow> bool" where
  "rows_wf L s \<longleftrightarrow> sorted_wrt (<) (map d_id (docs s)) \<and> 0 \<le> docs_seq s \<and>
     (\<forall>d \<in> set (docs s). 0 < d_id d \<and> d_id d \<le> docs_seq s \<and> d_blake3 d = blake3 L (utf8 (d_text d))) \<and>
     distinct (map d_blake3 (docs s)) \<and> distinct (filter (\<lambda>u. u \<noteq> None) (map d_uri (docs s)))"

definition vec_wf :: "store \<Rightarrow> bool" where
  "vec_wf s \<longleftrightarrow> distinct (map fst (docs_vec s)) \<and>
     (\<forall>v \<in> set (docs_vec s). fst v \<in> doc_ids s \<and> length (snd v) = EMBED_DIM)"

definition fts_wf :: "store \<Rightarrow> bool" where
  "fts_wf s \<longleftrightarrow> docs_ai s \<and> distinct (map fst (docs_fts s)) \<and> set (docs_fts s) = fts_row ` set (docs s)"

definition memory_wf :: "store \<Rightarrow> bool" where
  "memory_wf s \<longleftrightarrow> mem_wf (doc_exists s) (mem s) \<and> q_doc ` set (extraction_queue (mem s)) \<subseteq> doc_ids s"

text \<open>The lexical index: what the directory says is indexed is in it, and an open index holds every
  document, committed or pending.\<close>

definition lex_entry :: "doc_row \<Rightarrow> int \<times> rstr" where
  "lex_entry d = (d_id d, combined (d_title d) (d_text d))"

definition disk_docs :: "fts_disk \<Rightarrow> (int \<times> rstr) list" where
  "disk_docs d = (case fd_docs d of None \<Rightarrow> [] | Some ds \<Rightarrow> ds)"

definition disk_wf :: "store \<Rightarrow> bool" where
  "disk_wf s \<longleftrightarrow> 0 \<le> fd_last (fts_dir s) \<and> fd_last (fts_dir s) \<le> docs_seq s \<and>
     (\<forall>d \<in> set (docs s). d_id d \<le> fd_last (fts_dir s) \<longrightarrow> lex_entry d \<in> set (disk_docs (fts_dir s))) \<and>
     (\<forall>x. tantivy s = Some x \<and> fi_path x \<longrightarrow> fd_docs (fts_dir s) = Some (fi_committed x))"

definition open_wf :: "store \<Rightarrow> bool" where
  "open_wf s \<longleftrightarrow> (\<forall>x. tantivy s = Some x \<longrightarrow> lex_entry ` set (docs s) \<subseteq> set (fts_docs x))"

definition store_wf :: "'j store_lib \<Rightarrow> store \<Rightarrow> bool" where
  "store_wf L s \<longleftrightarrow> rows_wf L s \<and> vec_wf s \<and> fts_wf s \<and> memory_wf s \<and> disk_wf s \<and> open_wf s"

lemmas store_wf_defs = store_wf_def rows_wf_def vec_wf_def fts_wf_def memory_wf_def disk_wf_def open_wf_def

subsection \<open>Inserting rows\<close>

text \<open>The row \<open>insert_doc\<close> adds.\<close>

definition new_row :: "'j store_lib \<Rightarrow> int \<Rightarrow> 'j put_request \<Rightarrow> bytes option \<Rightarrow> bytes option \<Rightarrow> store \<Rightarrow> doc_row" where
  "new_row L ts r sig crdt s = \<lparr>d_id = docs_seq s + 1, d_uri = r_uri r, d_title = r_title r, d_text = r_text r,
     d_meta = map_option (json_text L) (r_meta r), d_ts = ts, d_blake3 = blake3 L (utf8 (r_text r)),
     d_sig = sig, d_crdt = crdt\<rparr>"

lemma insert_doc_eq:
  "insert_doc L ts r sig crdt s =
     (let d = new_row L ts r sig crdt s in
      if d_blake3 d \<in> d_blake3 ` set (docs s) \<or> d_uri d \<noteq> None \<and> d_uri d \<in> d_uri ` set (docs s) then None
      else Some (d_id d, s\<lparr>docs := docs s @ [d], docs_seq := docs_seq s + 1,
        docs_fts := docs_fts s @ (if docs_ai s then [fts_row d] else [])\<rparr>))"
  by (simp add: insert_doc_def new_row_def fts_row_def Let_def)

lemma new_row_sel [simp]:
  "d_id (new_row L ts r sig crdt s) = docs_seq s + 1" "d_text (new_row L ts r sig crdt s) = r_text r"
  "d_blake3 (new_row L ts r sig crdt s) = blake3 L (utf8 (r_text r))"
  "d_title (new_row L ts r sig crdt s) = r_title r" "d_uri (new_row L ts r sig crdt s) = r_uri r"
  by (simp_all add: new_row_def)

lemma rows_wf_distinct: "rows_wf L s \<Longrightarrow> distinct (map d_id (docs s))"
  by (simp add: rows_wf_def strict_sorted_iff)

lemma insert_doc_fields:
  assumes "insert_doc L ts r sig crdt s = Some (i, s')"
  shows "i = docs_seq s + 1" "docs s' = docs s @ [new_row L ts r sig crdt s]" "docs_seq s' = docs_seq s + 1"
    "docs_vec s' = docs_vec s" "docs_ai s' = docs_ai s" "mem s' = mem s" "turbo s' = turbo s"
    "tantivy s' = tantivy s" "fts_dir s' = fts_dir s" "query_logs s' = query_logs s"
    "docs_fts s' = docs_fts s @ (if docs_ai s then [fts_row (new_row L ts r sig crdt s)] else [])"
  using assms by (auto simp: insert_doc_eq Let_def split: if_splits)

lemma insert_doc_unique:
  assumes "insert_doc L ts r sig crdt s = Some (i, s')"
  shows "blake3 L (utf8 (r_text r)) \<notin> d_blake3 ` set (docs s)" "r_uri r = None \<or> r_uri r \<notin> d_uri ` set (docs s)"
  using assms by (auto simp: insert_doc_eq Let_def split: if_splits)

lemma insert_doc_rows_wf:
  assumes wf: "rows_wf L s" and ins: "insert_doc L ts r sig crdt s = Some (i, s')"
  shows "rows_wf L s'"
proof -
  note f = insert_doc_fields [OF ins]
  have "sorted_wrt (<) (map d_id (docs s'))"
    using wf by (auto simp: f(2) rows_wf_def sorted_wrt_append)
  moreover have "distinct (map d_blake3 (docs s'))" "distinct (filter (\<lambda>u. u \<noteq> None) (map d_uri (docs s')))"
    using wf insert_doc_unique [OF ins] by (auto simp: f(2) rows_wf_def)
  moreover have "0 < d_id d \<and> d_id d \<le> docs_seq s' \<and> d_blake3 d = blake3 L (utf8 (d_text d))"
    if "d \<in> set (docs s')" for d
    using wf that by (auto simp: f(2,3) rows_wf_def)
  moreover have "0 \<le> docs_seq s'" using wf by (simp add: f(3) rows_wf_def)
  ultimately show ?thesis by (simp add: rows_wf_def)
qed

lemma insert_doc_fts_wf:
  assumes "rows_wf L s" "fts_wf s" "insert_doc L ts r sig crdt s = Some (i, s')"
  shows "fts_wf s'"
proof -
  have "\<forall>d \<in> set (docs s). d_id d \<noteq> docs_seq s + 1" using assms(1) by (auto simp: rows_wf_def)
  then show ?thesis
    using assms(2) by (auto simp: fts_wf_def insert_doc_fields [OF assms(3)] fts_row_def)
qed

text \<open>What only reads the documents' ids is kept when documents are added.\<close>

lemma mem_wf_mono: "mem_wf P m \<Longrightarrow> (\<And>d. P d \<Longrightarrow> Q d) \<Longrightarrow> mem_wf Q m"
  by (simp add: mem_wf_def)

lemma memory_wf_mono:
  "memory_wf s \<Longrightarrow> mem s' = mem s \<Longrightarrow> doc_ids s \<subseteq> doc_ids s' \<Longrightarrow> memory_wf s'"
  unfolding memory_wf_def using mem_wf_mono [of "doc_exists s" "mem s" "doc_exists s'"] by (metis subset_iff)

lemma vec_wf_mono:
  "vec_wf s \<Longrightarrow> docs_vec s' = docs_vec s \<Longrightarrow> doc_ids s \<subseteq> doc_ids s' \<Longrightarrow> vec_wf s'"
  unfolding vec_wf_def by auto

lemma find_hash_None: "find_hash L txt s = None \<longleftrightarrow> blake3 L (utf8 txt) \<notin> d_blake3 ` set (docs s)"
  by (auto simp: find_hash_def find_None_iff image_iff)

lemma find_hash_Some:
  "find_hash L txt s = Some i \<Longrightarrow> \<exists>d \<in> set (docs s). d_id d = i \<and> d_blake3 d = blake3 L (utf8 txt)"
  by (auto simp: find_hash_def find_Some_iff)

subsection \<open>The transaction of a batch\<close>

text \<open>What one request of a batch does to the tables.\<close>

definition row_step :: "'j store_lib \<Rightarrow> int \<Rightarrow> 'j put_request \<Rightarrow> store \<Rightarrow> store_error + int \<times> store" where
  "row_step L ts r s =
     (case find_hash L (r_text r) s of
        Some i \<Rightarrow> Inr (i, s)
      | None \<Rightarrow> (case insert_doc L ts r None None s of
          None \<Rightarrow> Inl Sqlite
        | Some (i, s1) \<Rightarrow> Inr (i, insert_vec i (r_embedding r) s1)))"

lemma batch_rows_Cons:
  "batch_rows L clock n (r # rs) s =
     (case check_dim (r_embedding r) of Some e \<Rightarrow> Inl e | None \<Rightarrow>
      (case row_step L (clock n) r s of
         Inl e \<Rightarrow> Inl e
       | Inr (i, s1) \<Rightarrow> (case batch_rows L clock (Suc n) rs s1 of
            Inl e \<Rightarrow> Inl e | Inr (ids, s2) \<Rightarrow> Inr (i # ids, s2))))"
  unfolding batch_rows.simps row_step_def ..

declare batch_rows.simps(2) [simp del] batch_rows_Cons [simp]

lemma batch_rows_ConsE:
  assumes "batch_rows L clock n (r # rs) s = Inr (ids, s')"
  obtains i s1 ks where "check_dim (r_embedding r) = None" "row_step L (clock n) r s = Inr (i, s1)"
    "batch_rows L clock (Suc n) rs s1 = Inr (ks, s')" "ids = i # ks"
  using assms by (auto split: option.splits sum.splits)

text \<open>The part of the store a transaction of a batch leaves alone.\<close>

definition same_caches :: "store \<Rightarrow> store \<Rightarrow> bool" where
  "same_caches s s' \<longleftrightarrow> docs_ai s' = docs_ai s \<and> mem s' = mem s \<and> turbo s' = turbo s \<and>
     tantivy s' = tantivy s \<and> fts_dir s' = fts_dir s \<and> query_logs s' = query_logs s"

definition tables_wf :: "'j store_lib \<Rightarrow> store \<Rightarrow> bool" where
  "tables_wf L s \<longleftrightarrow> rows_wf L s \<and> vec_wf s \<and> fts_wf s"

lemma vec_wf_insert:
  assumes wf: "rows_wf L s" "vec_wf s" and ins: "insert_doc L ts r sig crdt s = Some (i, s1)"
    and dim: "check_dim (r_embedding r) = None"
  shows "vec_wf (insert_vec i (r_embedding r) s1)"
proof -
  have ids: "doc_ids s1 = insert (docs_seq s + 1) (doc_ids s)" by (simp add: insert_doc_fields [OF ins])
  have "docs_seq s + 1 \<notin> doc_ids s" using wf(1) by (auto simp: rows_wf_def)
  then have "docs_seq s + 1 \<notin> fst ` set (docs_vec s)" using wf(2) by (auto simp: vec_wf_def)
  then show ?thesis
    using wf(2) dim ids insert_doc_fields [OF ins]
    by (auto simp: vec_wf_def insert_vec_def check_dim_def split: option.splits if_splits)
qed

lemma insert_vec_fields [simp]:
  "docs (insert_vec i e s) = docs s" "docs_seq (insert_vec i e s) = docs_seq s"
  "docs_fts (insert_vec i e s) = docs_fts s" "docs_ai (insert_vec i e s) = docs_ai s"
  "mem (insert_vec i e s) = mem s" "turbo (insert_vec i e s) = turbo s"
  "tantivy (insert_vec i e s) = tantivy s" "fts_dir (insert_vec i e s) = fts_dir s"
  "query_logs (insert_vec i e s) = query_logs s"
  by (simp_all add: insert_vec_def split: option.split)

lemma tables_wf_insert:
  assumes wf: "tables_wf L s" and ins: "insert_doc L ts r sig crdt s = Some (i, s1)"
    and dim: "check_dim (r_embedding r) = None"
  shows "tables_wf L (insert_vec i (r_embedding r) s1)"
  using wf insert_doc_rows_wf [OF _ ins] insert_doc_fts_wf [OF _ _ ins] vec_wf_insert [OF _ _ ins dim]
  by (simp add: tables_wf_def rows_wf_def fts_wf_def)

lemma row_step_spec:
  assumes wf: "tables_wf L s" and dim: "check_dim (r_embedding r) = None"
    and st: "row_step L ts r s = Inr (i, s')"
  shows "tables_wf L s'" "same_caches s s'" "doc_ids s \<subseteq> doc_ids s'" "i \<in> doc_ids s'"
    "docs_seq s \<le> docs_seq s'"
    "\<forall>d \<in> set (docs s'). d \<in> set (docs s) \<or>
      docs_seq s < d_id d \<and> d_id d = i \<and> d_title d = r_title r \<and> d_text d = r_text r"
proof -
  have "tables_wf L s' \<and> same_caches s s' \<and> doc_ids s \<subseteq> doc_ids s' \<and> i \<in> doc_ids s' \<and>
      docs_seq s \<le> docs_seq s' \<and> (\<forall>d \<in> set (docs s'). d \<in> set (docs s) \<or>
      docs_seq s < d_id d \<and> d_id d = i \<and> d_title d = r_title r \<and> d_text d = r_text r)"
  proof (cases "find_hash L (r_text r) s")
    case (Some k)
    then show ?thesis
      using wf st find_hash_Some [OF Some] by (auto simp: row_step_def same_caches_def)
  next
    case None
    then obtain s1 where ins: "insert_doc L ts r None None s = Some (i, s1)"
        and s': "s' = insert_vec i (r_embedding r) s1"
      using st by (auto simp: row_step_def split: option.splits)
    note f = insert_doc_fields [OF ins]
    show ?thesis
      using tables_wf_insert [OF wf ins dim] by (auto simp: s' f same_caches_def)
  qed
  then show "tables_wf L s'" "same_caches s s'" "doc_ids s \<subseteq> doc_ids s'" "i \<in> doc_ids s'"
    "docs_seq s \<le> docs_seq s'"
    "\<forall>d \<in> set (docs s'). d \<in> set (docs s) \<or>
      docs_seq s < d_id d \<and> d_id d = i \<and> d_title d = r_title r \<and> d_text d = r_text r" by blast+
qed

lemma same_caches_trans: "same_caches s t \<Longrightarrow> same_caches t u \<Longrightarrow> same_caches s u"
  by (simp add: same_caches_def)

lemma batch_rows_spec:
  assumes "tables_wf L s" "batch_rows L clock n reqs s = Inr (ids, s')"
  shows "tables_wf L s' \<and> same_caches s s' \<and> doc_ids s \<subseteq> doc_ids s' \<and> set ids \<subseteq> doc_ids s' \<and>
    docs_seq s \<le> docs_seq s' \<and> length ids = length reqs \<and>
    (\<forall>d \<in> set (docs s'). d \<in> set (docs s) \<or>
      docs_seq s < d_id d \<and> (\<exists>(i, r) \<in> set (zip ids reqs). d_id d = i \<and> d_title d = r_title r \<and> d_text d = r_text r))"
  using assms
proof (induction reqs arbitrary: n s ids)
  case Nil
  then show ?case by (auto simp: same_caches_def)
next
  case (Cons r rs)
  from Cons.prems(2) obtain i s1 ks where *: "check_dim (r_embedding r) = None"
      "row_step L (clock n) r s = Inr (i, s1)" "batch_rows L clock (Suc n) rs s1 = Inr (ks, s')" "ids = i # ks"
    by (rule batch_rows_ConsE)
  note st = row_step_spec [OF Cons.prems(1) *(1,2)]
  note IH = Cons.IH [OF st(1) *(3)]
  have "\<forall>d \<in> set (docs s'). d \<in> set (docs s) \<or>
      docs_seq s < d_id d \<and> (\<exists>(i, r) \<in> set (zip ids (r # rs)). d_id d = i \<and> d_title d = r_title r \<and> d_text d = r_text r)"
  proof
    fix d assume "d \<in> set (docs s')"
    then consider "d \<in> set (docs s1)"
      | "docs_seq s1 < d_id d"
        "\<exists>(i, r) \<in> set (zip ks rs). d_id d = i \<and> d_title d = r_title r \<and> d_text d = r_text r"
      using IH by blast
    then show "d \<in> set (docs s) \<or>
        docs_seq s < d_id d \<and> (\<exists>(i, r) \<in> set (zip ids (r # rs)). d_id d = i \<and> d_title d = r_title r \<and> d_text d = r_text r)"
      using st(5,6) *(4) by cases auto
  qed
  moreover have "doc_ids s \<subseteq> doc_ids s'" "set ids \<subseteq> doc_ids s'"
    using IH st(3,4) *(4) by (metis subset_trans, metis insert_subset list.set(2) subsetD)
  ultimately show ?case
    using IH st(5) same_caches_trans [OF st(2)] *(4) by simp
qed

subsection \<open>Memory, index and cache\<close>

lemma wire_memory_fields [simp]:
  "docs (wire_memory mts i s) = docs s" "docs_seq (wire_memory mts i s) = docs_seq s"
  "docs_vec (wire_memory mts i s) = docs_vec s" "docs_fts (wire_memory mts i s) = docs_fts s"
  "docs_ai (wire_memory mts i s) = docs_ai s" "turbo (wire_memory mts i s) = turbo s"
  "tantivy (wire_memory mts i s) = tantivy s" "fts_dir (wire_memory mts i s) = fts_dir s"
  "query_logs (wire_memory mts i s) = query_logs s"
  by (simp_all add: wire_memory_def split: sum.split prod.split)

lemma wire_memory_batch_fields [simp]:
  "docs (wire_memory_batch mts ids s) = docs s" "docs_seq (wire_memory_batch mts ids s) = docs_seq s"
  "docs_vec (wire_memory_batch mts ids s) = docs_vec s" "docs_fts (wire_memory_batch mts ids s) = docs_fts s"
  "docs_ai (wire_memory_batch mts ids s) = docs_ai s" "turbo (wire_memory_batch mts ids s) = turbo s"
  "tantivy (wire_memory_batch mts ids s) = tantivy s" "fts_dir (wire_memory_batch mts ids s) = fts_dir s"
  "query_logs (wire_memory_batch mts ids s) = query_logs s"
  by (simp_all add: wire_memory_batch_def split: sum.split prod.split)

lemma mirror_put_fields [simp]:
  "docs (mirror_put i r s) = docs s" "docs_seq (mirror_put i r s) = docs_seq s"
  "docs_vec (mirror_put i r s) = docs_vec s" "docs_fts (mirror_put i r s) = docs_fts s"
  "docs_ai (mirror_put i r s) = docs_ai s" "turbo (mirror_put i r s) = turbo s"
  "mem (mirror_put i r s) = mem s" "query_logs (mirror_put i r s) = query_logs s"
  by (simp_all add: mirror_put_def fts_commit_def Let_def split: option.split)

lemma mirror_batch_fields [simp]:
  "docs (mirror_batch_to_tantivy reqs ids s) = docs s" "docs_seq (mirror_batch_to_tantivy reqs ids s) = docs_seq s"
  "docs_vec (mirror_batch_to_tantivy reqs ids s) = docs_vec s"
  "docs_fts (mirror_batch_to_tantivy reqs ids s) = docs_fts s"
  "docs_ai (mirror_batch_to_tantivy reqs ids s) = docs_ai s" "turbo (mirror_batch_to_tantivy reqs ids s) = turbo s"
  "mem (mirror_batch_to_tantivy reqs ids s) = mem s" "fts_dir (mirror_batch_to_tantivy reqs ids s) = fts_dir s"
  "query_logs (mirror_batch_to_tantivy reqs ids s) = query_logs s"
  by (simp_all add: mirror_batch_to_tantivy_def split: option.split)

lemma turbo_put_fields [simp]:
  "docs (turbo_put i e s) = docs s" "docs_seq (turbo_put i e s) = docs_seq s"
  "docs_vec (turbo_put i e s) = docs_vec s" "docs_fts (turbo_put i e s) = docs_fts s"
  "docs_ai (turbo_put i e s) = docs_ai s" "mem (turbo_put i e s) = mem s"
  "tantivy (turbo_put i e s) = tantivy s" "fts_dir (turbo_put i e s) = fts_dir s"
  "query_logs (turbo_put i e s) = query_logs s"
  by (simp_all add: turbo_put_def split: option.split)

lemma turbo_batch_fields [simp]:
  "docs (turbo_batch reqs ids s) = docs s" "docs_seq (turbo_batch reqs ids s) = docs_seq s"
  "docs_vec (turbo_batch reqs ids s) = docs_vec s" "docs_fts (turbo_batch reqs ids s) = docs_fts s"
  "docs_ai (turbo_batch reqs ids s) = docs_ai s" "mem (turbo_batch reqs ids s) = mem s"
  "tantivy (turbo_batch reqs ids s) = tantivy s" "fts_dir (turbo_batch reqs ids s) = fts_dir s"
  "query_logs (turbo_batch reqs ids s) = query_logs s"
  by (simp_all add: turbo_batch_def split: option.split)

text \<open>The invariants only read some fields.\<close>

lemma rows_wf_cong: "docs s' = docs s \<Longrightarrow> docs_seq s' = docs_seq s \<Longrightarrow> rows_wf L s' = rows_wf L s"
  by (simp add: rows_wf_def)

lemma vec_wf_cong: "docs s' = docs s \<Longrightarrow> docs_vec s' = docs_vec s \<Longrightarrow> vec_wf s' = vec_wf s"
  by (simp add: vec_wf_def)

lemma fts_wf_cong:
  "docs s' = docs s \<Longrightarrow> docs_fts s' = docs_fts s \<Longrightarrow> docs_ai s' = docs_ai s \<Longrightarrow> fts_wf s' = fts_wf s"
  by (simp add: fts_wf_def)

lemma tables_wf_cong:
  "docs s' = docs s \<Longrightarrow> docs_seq s' = docs_seq s \<Longrightarrow> docs_vec s' = docs_vec s \<Longrightarrow>
   docs_fts s' = docs_fts s \<Longrightarrow> docs_ai s' = docs_ai s \<Longrightarrow> tables_wf L s' = tables_wf L s"
  by (simp add: tables_wf_def rows_wf_def vec_wf_def fts_wf_def)

lemma memory_wf_cong: "docs s' = docs s \<Longrightarrow> mem s' = mem s \<Longrightarrow> memory_wf s' = memory_wf s"
  by (simp add: memory_wf_def)

lemma enqueue_docs:
  "q_doc ` set (extraction_queue (enqueue_extraction ts d m)) = insert d (q_doc ` set (extraction_queue m))"
  by (auto simp: enqueue_extraction_def)

lemma enqueue_all_docs:
  "q_doc ` set (extraction_queue (fold (enqueue_extraction ts) ds m)) = set ds \<union> q_doc ` set (extraction_queue m)"
  by (induction ds arbitrary: m) (auto simp: enqueue_docs)

lemma insert_raws_queue [simp]: "extraction_queue (insert_raws ts ds m) = extraction_queue m"
  by (induction ds arbitrary: m) simp_all

lemma ensure_raw_queue:
  "ensure_raw_memory ok ts d m = Inr (k, m') \<Longrightarrow> extraction_queue m' = extraction_queue m"
  by (auto simp: ensure_raw_memory_def put_memory_def put_memory_with_date_def Let_def
      split: option.splits if_splits)

lemma ensure_queue:
  assumes "ensure_raw_memory_and_enqueue ok ts d m = Inr (k, m')"
  shows "q_doc ` set (extraction_queue m') = insert d (q_doc ` set (extraction_queue m))"
proof -
  obtain m1 where "ensure_raw_memory ok ts d m = Inr (k, m1)" "m' = enqueue_extraction ts d m1"
    using assms by (auto simp: ensure_raw_memory_and_enqueue_def split: sum.splits)
  then show ?thesis using enqueue_docs [of ts d m1] ensure_raw_queue by simp
qed

lemma ensure_batch_queue:
  assumes "ensure_raw_memory_and_enqueue_batch ok ts ds m = Inr (k, m')"
  shows "q_doc ` set (extraction_queue m') = set ds \<union> q_doc ` set (extraction_queue m)"
proof (cases "ds = []")
  case False
  then obtain new where "m' = fold (enqueue_extraction ts) ds (insert_raws ts new m)"
    using assms by (auto simp: ensure_raw_memory_and_enqueue_batch_def Let_def split: if_splits)
  then show ?thesis using enqueue_all_docs [of ts ds "insert_raws ts new m"] by simp
qed (use assms in \<open>simp add: ensure_raw_memory_and_enqueue_batch_def\<close>)

lemma wire_memory_wf:
  assumes "memory_wf s" "i \<in> doc_ids s"
  shows "memory_wf (wire_memory mts i s)"
proof (cases "ensure_raw_memory_and_enqueue (doc_exists s) mts i (mem s)")
  case (Inr p)
  obtain k m where p: "p = (k, m)" by (cases p)
  show ?thesis
    using assms Inr ensure_wf [of "doc_exists s" "mem s" mts i k m] ensure_queue [of "doc_exists s" mts i "mem s" k m]
    by (simp add: memory_wf_def wire_memory_def p)
qed (use assms in \<open>simp add: wire_memory_def\<close>)

lemma wire_memory_batch_wf:
  assumes "memory_wf s" "set ids \<subseteq> doc_ids s"
  shows "memory_wf (wire_memory_batch mts ids s)"
proof (cases "ensure_raw_memory_and_enqueue_batch (doc_exists s) mts ids (mem s)")
  case (Inr p)
  obtain k m where p: "p = (k, m)" by (cases p)
  show ?thesis
    using assms Inr ensure_batch_wf [of "doc_exists s" "mem s" mts ids k m]
      ensure_batch_queue [of "doc_exists s" mts ids "mem s" k m]
    by (simp add: memory_wf_def wire_memory_batch_def p)
qed (use assms in \<open>simp add: wire_memory_batch_def\<close>)

lemma fts_add_fields [simp]: "fi_path (fts_add i t x) = fi_path x" "fi_committed (fts_add i t x) = fi_committed x"
  "fi_pending (fts_add i t x) = fi_pending x @ [(i, t)]"
  by (simp_all add: fts_add_def)

lemma fold_fts_add:
  "fi_path (fold (\<lambda>a. fts_add (f a) (g a)) xs x) = fi_path x \<and>
   fi_committed (fold (\<lambda>a. fts_add (f a) (g a)) xs x) = fi_committed x \<and>
   fi_pending (fold (\<lambda>a. fts_add (f a) (g a)) xs x) = fi_pending x @ map (\<lambda>a. (f a, g a)) xs"
  by (induction xs arbitrary: x) (simp_all add: fts_add_def)

text \<open>What is missing between the insertion of rows and their mirroring: \<open>s0\<close> is the store before.\<close>

lemma disk_wf_grow:
  assumes "disk_wf s0" "tantivy s = tantivy s0" "fts_dir s = fts_dir s0" "docs_seq s0 \<le> docs_seq s"
    "\<forall>d \<in> set (docs s). d \<in> set (docs s0) \<or> docs_seq s0 < d_id d"
  shows "disk_wf s"
  using assms by (force simp: disk_wf_def)

lemma mirror_put_lex:
  assumes "disk_wf s0" "open_wf s0" "tantivy s = tantivy s0" "fts_dir s = fts_dir s0"
    "docs s = docs s0 @ [d]" "docs_seq s = docs_seq s0 + 1" "d_id d = docs_seq s"
    "lex_entry d = (i, combined (r_title r) (r_text r))"
  shows "disk_wf (mirror_put i r s) \<and> open_wf (mirror_put i r s)"
proof (cases "tantivy s")
  case None
  then show ?thesis
    using disk_wf_grow [OF assms(1,3,4)] assms by (simp add: mirror_put_def open_wf_def)
next
  case (Some x)
  have d: "disk_wf s" using disk_wf_grow [OF assms(1,3,4)] assms by simp
  let ?x = "fts_add i (combined (r_title r) (r_text r)) x"
  have o: "lex_entry ` set (docs s) \<subseteq> set (fts_docs ?x)"
  proof -
    have "lex_entry ` set (docs s0) \<subseteq> set (fts_docs x)" using assms(2,3) Some by (simp add: open_wf_def)
    then show ?thesis using assms(5,8) by auto
  qed
  show ?thesis
  proof (cases "fi_path x")
    case False
    then show ?thesis
      using d o Some by (simp add: mirror_put_def disk_wf_def open_wf_def fts_commit_def Let_def)
  next
    case True
    then have "fd_docs (fts_dir s) = Some (fi_committed x)" using d Some by (simp add: disk_wf_def)
    then show ?thesis
      using d o Some True by (auto simp: mirror_put_def disk_wf_def open_wf_def fts_commit_def Let_def disk_docs_def)
  qed
qed

lemma mirror_batch_lex:
  assumes "disk_wf s0" "open_wf s0" "tantivy s = tantivy s0" "fts_dir s = fts_dir s0" "docs_seq s0 \<le> docs_seq s"
    and new: "\<forall>d \<in> set (docs s). d \<in> set (docs s0) \<or> docs_seq s0 < d_id d \<and>
      (\<exists>(i, r) \<in> set (zip ids reqs). d_id d = i \<and> d_title d = r_title r \<and> d_text d = r_text r)"
  shows "disk_wf (mirror_batch_to_tantivy reqs ids s) \<and> open_wf (mirror_batch_to_tantivy reqs ids s)"
proof (cases "tantivy s")
  case None
  then show ?thesis
    using disk_wf_grow [OF assms(1,3,4,5)] new by (auto simp: mirror_batch_to_tantivy_def open_wf_def)
next
  case (Some x)
  have d: "disk_wf s" using disk_wf_grow [OF assms(1,3,4,5)] new by blast
  let ?f = "\<lambda>a. fts_add (fst a) (combined (r_title (snd a)) (r_text (snd a)))"
  have f: "(\<lambda>(i, r). fts_add i (combined (r_title r) (r_text r))) = ?f" by (simp add: fun_eq_iff split_def)
  note ff = fold_fts_add [of fst "\<lambda>a. combined (r_title (snd a)) (r_text (snd a))" "zip ids reqs" x]
  have "lex_entry e \<in> set (fts_docs (fold ?f (zip ids reqs) x))" if "e \<in> set (docs s)" for e
  proof -
    note e = bspec [OF new that]
    consider "e \<in> set (docs s0)" | i r where "(i, r) \<in> set (zip ids reqs)" "lex_entry e = (i, combined (r_title r) (r_text r))"
      using e unfolding lex_entry_def by (auto simp only: prod.case)
    then show ?thesis
    proof cases
      case 1
      have "lex_entry ` set (docs s0) \<subseteq> set (fts_docs x)" using assms(2,3) Some by (simp add: open_wf_def)
      then have "lex_entry e \<in> set (fts_docs x)" using 1 by blast
      then show ?thesis by (simp add: ff) blast
    next
      case 2
      then have "lex_entry e \<in> (\<lambda>a. (fst a, combined (r_title (snd a)) (r_text (snd a)))) ` set (zip ids reqs)"
        by (intro image_eqI [of _ _ "(i, r)"]) simp_all
      then show ?thesis by (simp add: ff)
    qed
  qed
  then have "lex_entry ` set (docs s) \<subseteq> set (fts_docs (fold ?f (zip ids reqs) x))" by blast
  then have "open_wf (mirror_batch_to_tantivy reqs ids s)"
    using Some by (simp add: mirror_batch_to_tantivy_def open_wf_def f)
  moreover have "disk_wf (mirror_batch_to_tantivy reqs ids s)"
    using d Some by (simp add: mirror_batch_to_tantivy_def disk_wf_def f ff)
  ultimately show ?thesis by blast
qed

subsection \<open>Preservation\<close>

lemma store_wf_iff: "store_wf L s \<longleftrightarrow> tables_wf L s \<and> memory_wf s \<and> disk_wf s \<and> open_wf s"
  by (auto simp: store_wf_def tables_wf_def)

lemma disk_wf_cong:
  "docs s' = docs s \<Longrightarrow> docs_seq s' = docs_seq s \<Longrightarrow> tantivy s' = tantivy s \<Longrightarrow> fts_dir s' = fts_dir s \<Longrightarrow>
   disk_wf s' = disk_wf s"
  by (simp add: disk_wf_def)

lemma open_wf_cong: "docs s' = docs s \<Longrightarrow> tantivy s' = tantivy s \<Longrightarrow> open_wf s' = open_wf s"
  by (simp add: open_wf_def)

lemma put_inner_wf:
  assumes wf: "store_wf L s" and p: "put_inner L ts mts r sig crdt s = Inr (i, s')"
  shows "store_wf L s'"
proof -
  have dim: "check_dim (r_embedding r) = None" using p by (auto simp: put_inner_def split: option.splits)
  show ?thesis
  proof (cases "find_hash L (r_text r) s")
    case (Some k)
    then have s': "s' = wire_memory mts i s" "i \<in> doc_ids s"
      using p find_hash_Some [OF Some] by (auto simp: put_inner_def split: option.splits)
    then show ?thesis
      using wf wire_memory_wf [of s i mts] tables_wf_cong [of s' s L] disk_wf_cong [of s' s] open_wf_cong [of s' s]
      by (simp add: store_wf_iff)
  next
    case None
    then obtain s1 where ins: "insert_doc L ts r sig crdt s = Some (i, s1)"
        and s': "s' = turbo_put i (r_embedding r) (mirror_put i r (wire_memory mts i (insert_vec i (r_embedding r) s1)))"
      using p by (auto simp: put_inner_def split: option.splits)
    note f = insert_doc_fields [OF ins]
    let ?v = "insert_vec i (r_embedding r) s1"
    have "tables_wf L s'"
      using tables_wf_insert [OF _ ins dim] wf tables_wf_cong [of s' ?v L] by (simp add: store_wf_iff s')
    moreover have "memory_wf s'"
      using wf memory_wf_mono [of s ?v] wire_memory_wf [of ?v i mts] memory_wf_cong [of s' "wire_memory mts i ?v"]
      by (auto simp: store_wf_iff s' f)
    moreover have "disk_wf s' \<and> open_wf s'"
      using wf mirror_put_lex [of s "wire_memory mts i ?v" "new_row L ts r sig crdt s" i r]
        disk_wf_cong [of s' "mirror_put i r (wire_memory mts i ?v)"]
        open_wf_cong [of s' "mirror_put i r (wire_memory mts i ?v)"]
      by (simp add: store_wf_iff s' f lex_entry_def)
    ultimately show ?thesis by (simp add: store_wf_iff)
  qed
qed

lemma put_batch_wf:
  assumes wf: "store_wf L s" and p: "put_batch L clock mts reqs s = Inr (ids, s')"
  shows "store_wf L s'"
proof -
  obtain s1 where b: "batch_rows L clock 0 reqs s = Inr (ids, s1)"
      and s': "s' = mirror_batch_to_tantivy reqs ids (turbo_batch reqs ids (wire_memory_batch mts ids s1))"
    using p by (auto simp: put_batch_def split: sum.splits)
  have sp: "tables_wf L s1" "same_caches s s1" "doc_ids s \<subseteq> doc_ids s1" "set ids \<subseteq> doc_ids s1" "docs_seq s \<le> docs_seq s1"
      "\<forall>d \<in> set (docs s1). d \<in> set (docs s) \<or> docs_seq s < d_id d \<and>
        (\<exists>(i, r) \<in> set (zip ids reqs). d_id d = i \<and> d_title d = r_title r \<and> d_text d = r_text r)"
    using batch_rows_spec [OF _ b] wf by (simp_all add: store_wf_iff)
  let ?w = "turbo_batch reqs ids (wire_memory_batch mts ids s1)"
  have "memory_wf (wire_memory_batch mts ids s1)"
    using wf sp(2-4) by (intro wire_memory_batch_wf memory_wf_mono [of s s1]) (simp_all add: store_wf_iff same_caches_def)
  moreover have "disk_wf s' \<and> open_wf s'"
    unfolding s' using wf sp(2,5,6) by (intro mirror_batch_lex [of s]) (simp_all add: store_wf_iff same_caches_def)
  ultimately show ?thesis
    using sp(1) tables_wf_cong [of s' s1 L] memory_wf_cong [of s' "wire_memory_batch mts ids s1"]
    by (simp add: store_wf_iff s')
qed

lemma distinct_filter_map: "distinct (filter Q (map f xs)) \<Longrightarrow> distinct (filter Q (map f (filter P xs)))"
  by (induction xs) auto

lemma forget_doc_wf:
  assumes wf: "mem_wf P m"
  shows "mem_wf (\<lambda>d. P d \<and> d \<noteq> i) (forget_doc i m)"
proof -
  let ?ids = "m_id ` set (filter (\<lambda>r. m_doc r = i) (memories m))"
  let ?g = "\<lambda>r. if (case m_superseded r of None \<Rightarrow> False | Some k \<Rightarrow> k \<in> ?ids) then r\<lparr>m_superseded := None\<rparr> else r"
  have g: "m_id (?g r) = m_id r" "m_doc (?g r) = m_doc r" for r by simp_all
  have rows: "memories (forget_doc i m) = filter (\<lambda>r. m_doc r \<noteq> i) (map ?g (memories m))"
    by (cases m) (simp only: forget_doc_def Let_def mem_db.simps)
  have idset: "mem_ids m - ?ids \<subseteq> mem_ids (forget_doc i m)"
  proof
    fix k assume "k \<in> mem_ids m - ?ids"
    then obtain r where r: "r \<in> set (memories m)" "m_id r = k" "m_doc r \<noteq> i" by auto
    then have "?g r \<in> set (memories (forget_doc i m))" unfolding rows using g by simp
    then have "m_id (?g r) \<in> mem_ids (forget_doc i m)" by (rule imageI)
    then show "k \<in> mem_ids (forget_doc i m)" unfolding g(1) r(2) .
  qed
  have 1: "distinct (map m_id (memories (forget_doc i m)))"
  proof -
    have "map m_id (map ?g (memories m)) = map m_id (memories m)" using g(1) by simp
    then show ?thesis unfolding rows using wf by (intro distinct_map_filter) (simp only: mem_wf_def)
  qed
  have 2: "P (m_doc r) \<and> m_doc r \<noteq> i \<and> set_option (m_superseded r) \<subseteq> mem_ids (forget_doc i m)"
    if "r \<in> set (memories (forget_doc i m))" for r
  proof -
    from that obtain q where q: "q \<in> set (memories m)" "r = ?g q" "m_doc r \<noteq> i" unfolding rows by auto
    have "P (m_doc q)" "set_option (m_superseded q) \<subseteq> mem_ids m" using wf q(1) by (simp_all add: mem_wf_def)
    moreover have "set_option (m_superseded r) \<subseteq> set_option (m_superseded q) - ?ids"
      unfolding q(2) by (auto split: option.splits if_splits)
    ultimately have "set_option (m_superseded r) \<subseteq> mem_ids m - ?ids" by blast
    then have "set_option (m_superseded r) \<subseteq> mem_ids (forget_doc i m)" using idset by (rule subset_trans)
    then show ?thesis using \<open>P (m_doc q)\<close> q(3) g(2) [of q] unfolding q(2) by simp
  qed
  have e: "memory_edges (forget_doc i m) = filter (\<lambda>e. \<not> (e_src e \<in> ?ids \<or> e_dst e \<in> ?ids)) (memory_edges m)"
    by (simp add: forget_doc_def Let_def)
  have 3: "distinct (map (\<lambda>e. (e_src e, e_dst e, e_type e)) (memory_edges (forget_doc i m)))"
    unfolding e using wf by (intro distinct_map_filter) (simp add: mem_wf_def)
  have 4: "e_src x \<in> mem_ids (forget_doc i m) \<and> e_dst x \<in> mem_ids (forget_doc i m)"
    if "x \<in> set (memory_edges (forget_doc i m))" for x
    using that wf idset unfolding e mem_wf_def by auto
  have 5: "distinct (map q_doc (extraction_queue (forget_doc i m)))"
    using wf by (simp add: forget_doc_def Let_def mem_wf_def distinct_map_filter)
  show ?thesis using 1 2 3 4 5 by (simp add: mem_wf_def)
qed

definition without_doc :: "int \<Rightarrow> store \<Rightarrow> store" where
  "without_doc i s = s\<lparr>mem := forget_doc i (mem s), docs_vec := filter (\<lambda>v. fst v \<noteq> i) (docs_vec s),
     docs_fts := filter (\<lambda>f. fst f \<noteq> i) (docs_fts s), docs := filter (\<lambda>d. d_id d \<noteq> i) (docs s), turbo := None\<rparr>"

lemma delete_Inr: "delete fts_fails i s = Inr (b, s') \<Longrightarrow>
    \<not> (doc_exists s i \<and> fts_fails) \<and> b = (i \<in> fst ` set (docs_vec s) \<or> doc_exists s i) \<and> s' = without_doc i s"
  by (auto simp: delete_def without_doc_def split: if_splits)

lemma without_doc_wf:
  assumes "store_wf L s" shows "store_wf L (without_doc i s)"
proof -
  let ?s = "without_doc i s"
  note delete_def = without_doc_def
  have d: "docs ?s = filter (\<lambda>d. d_id d \<noteq> i) (docs s)" by (simp add: delete_def)
  have ids: "doc_ids ?s = doc_ids s - {i}" by (auto simp: d)
  have "rows_wf L ?s"
    using assms by (auto simp: delete_def store_wf_def rows_wf_def sorted_wrt_map sorted_wrt_filter
        distinct_map_filter distinct_filter_map)
  moreover have "vec_wf ?s"
    using assms unfolding vec_wf_def ids by (auto simp: delete_def store_wf_def vec_wf_def distinct_map_filter)
  moreover have "fts_wf ?s"
    using assms by (auto simp: delete_def store_wf_def fts_wf_def distinct_map_filter fts_row_def)
  moreover have "memory_wf ?s"
  proof -
    have "mem_wf (\<lambda>d. doc_exists s d \<and> d \<noteq> i) (forget_doc i (mem s))"
      using assms by (intro forget_doc_wf) (simp add: store_wf_def memory_wf_def)
    then have "mem_wf (doc_exists ?s) (mem ?s)" unfolding ids by (simp add: delete_def)
    moreover have "q_doc ` set (extraction_queue (mem ?s)) \<subseteq> doc_ids ?s"
      using assms unfolding ids by (auto simp: delete_def forget_doc_def Let_def store_wf_def memory_wf_def)
    ultimately show ?thesis by (simp add: memory_wf_def)
  qed
  moreover have "disk_wf ?s" using assms by (auto simp: delete_def store_wf_def disk_wf_def)
  moreover have "open_wf ?s"
  proof -
    have "lex_entry ` set (docs ?s) \<subseteq> lex_entry ` set (docs s)" unfolding d by auto
    moreover have "tantivy ?s = tantivy s" by (simp add: delete_def)
    moreover have "open_wf s" using assms by (simp add: store_wf_def)
    ultimately show ?thesis unfolding open_wf_def by (simp del: image_subset_iff) blast
  qed
  ultimately show ?thesis by (simp add: store_wf_def)
qed

lemma delete_wf: "store_wf L s \<Longrightarrow> delete fts_fails i s = Inr (b, s') \<Longrightarrow> store_wf L s'"
  using delete_Inr without_doc_wf by metis

lemma find_SomeD: "find P xs = Some x \<Longrightarrow> x \<in> set xs" "find P xs = Some x \<Longrightarrow> P x"
  by (auto simp: find_Some_iff)

lemma merge_crdt_wf:
  assumes wf: "store_wf L s" and m: "merge_crdt merge fts_fails i incoming s = Inr s'"
  shows "store_wf L s'"
proof -
  obtain d where fd: "find (\<lambda>d. d_id d = i) (docs s) = Some d"
    using m by (auto simp: merge_crdt_def split: option.splits)
  obtain merged where s': "s' = s\<lparr>docs := map (\<lambda>d. if d_id d = i then d\<lparr>d_crdt := Some merged\<rparr> else d) (docs s),
        docs_fts := filter (\<lambda>f. fst f \<noteq> i) (docs_fts s) @ [(i, d_title d, d_text d)]\<rparr>"
    using m fd by (auto simp: merge_crdt_def split: option.splits if_splits)
  note d = find_SomeD [OF fd]
  let ?h = "\<lambda>d. if d_id d = i then d\<lparr>d_crdt := Some merged\<rparr> else d"
  have h: "d_id (?h e) = d_id e" "d_blake3 (?h e) = d_blake3 e" "d_uri (?h e) = d_uri e" "d_text (?h e) = d_text e"
      "fts_row (?h e) = fts_row e" "lex_entry (?h e) = lex_entry e" for e
    by (simp_all add: fts_row_def lex_entry_def)
  have maps: "map d_id (docs s') = map d_id (docs s)" "map d_blake3 (docs s') = map d_blake3 (docs s)"
      "map d_uri (docs s') = map d_uri (docs s)" "doc_ids s' = doc_ids s"
      "fts_row ` set (docs s') = fts_row ` set (docs s)" "lex_entry ` set (docs s') = lex_entry ` set (docs s)"
    unfolding s' using h by (simp_all add: comp_def image_image del: if_image_distrib)
  have inj: "inj_on d_id (set (docs s))"
    using rows_wf_distinct [of L s] wf by (simp add: store_wf_def distinct_map)
  have "rows_wf L s'"
  proof -
    have "\<forall>e \<in> set (docs s'). 0 < d_id e \<and> d_id e \<le> docs_seq s' \<and> d_blake3 e = blake3 L (utf8 (d_text e))"
    proof
      fix e assume "e \<in> set (docs s')"
      then obtain q where q: "q \<in> set (docs s)" "e = ?h q" unfolding s' by auto
      show "0 < d_id e \<and> d_id e \<le> docs_seq s' \<and> d_blake3 e = blake3 L (utf8 (d_text e))"
        unfolding q(2) h using wf q(1) by (simp add: s' store_wf_def rows_wf_def)
    qed
    moreover have "docs_seq s' = docs_seq s" by (simp add: s')
    ultimately show ?thesis using wf unfolding store_wf_def rows_wf_def maps by (elim conjE) (intro conjI; assumption?; simp only:)
  qed
  moreover have "vec_wf s'" using wf maps(4) by (simp add: store_wf_def vec_wf_def s')
  moreover have "fts_wf s'"
  proof -
    have "fts_row ` set (docs s) = {f \<in> fts_row ` set (docs s). fst f \<noteq> i} \<union> {fts_row d}"
      using d inj by (auto simp: fts_row_def dest: inj_onD)
    then have "set (docs_fts s') = fts_row ` set (docs s)"
      using wf d(2) by (auto simp: store_wf_def fts_wf_def s' fts_row_def)
    moreover have "distinct (map fst (docs_fts s'))"
      using wf by (auto simp: store_wf_def fts_wf_def s' distinct_map_filter)
    ultimately show ?thesis using wf maps(5) by (simp add: store_wf_def fts_wf_def s')
  qed
  moreover have "memory_wf s'" using wf maps(4) by (simp add: store_wf_def memory_wf_def s')
  moreover have "open_wf s'" using wf unfolding store_wf_def open_wf_def maps(6) by (simp add: s')
  moreover have "disk_wf s'"
  proof -
    have "\<forall>e \<in> set (docs s'). d_id e \<le> fd_last (fts_dir s) \<longrightarrow> lex_entry e \<in> set (disk_docs (fts_dir s))"
      using wf by (auto simp: s' store_wf_def disk_wf_def lex_entry_def)
    then show ?thesis using wf by (simp add: s' store_wf_def disk_wf_def)
  qed
  ultimately show ?thesis by (simp add: store_wf_def)
qed

lemma fts_build_fields [simp]:
  "docs (fts_build path s) = docs s" "docs_seq (fts_build path s) = docs_seq s"
  "docs_vec (fts_build path s) = docs_vec s" "docs_fts (fts_build path s) = docs_fts s"
  "docs_ai (fts_build path s) = docs_ai s" "turbo (fts_build path s) = turbo s"
  "mem (fts_build path s) = mem s" "query_logs (fts_build path s) = query_logs s"
  by (simp_all add: fts_build_def Let_def split_def)

text \<open>What a build reads of the directory.\<close>

definition disk_ok :: "store \<Rightarrow> bool" where
  "disk_ok s \<longleftrightarrow> 0 \<le> fd_last (fts_dir s) \<and> fd_last (fts_dir s) \<le> docs_seq s \<and>
     (\<forall>d \<in> set (docs s). d_id d \<le> fd_last (fts_dir s) \<longrightarrow> lex_entry d \<in> set (disk_docs (fts_dir s)))"

lemma fold_lex_entry:
  "fold (\<lambda>d. fts_add (d_id d) (combined (d_title d) (d_text d))) rs \<lparr>fi_path = p, fi_committed = b, fi_pending = q\<rparr>
    = \<lparr>fi_path = p, fi_committed = b, fi_pending = q @ map lex_entry rs\<rparr>"
  by (induction rs arbitrary: q) (simp_all add: fts_add_def lex_entry_def)

lemma fts_build_lex:
  assumes rows: "rows_wf L s" and ok: "disk_ok s"
  shows "disk_wf (fts_build path s) \<and> open_wf (fts_build path s) \<and>
    (\<exists>x. tantivy (fts_build path s) = Some x \<and> fi_pending x = [] \<and> fi_path x = path)"
proof -
  define last_id where "last_id = (if path then fd_last (fts_dir s) else 0)"
  define rs where "rs = filter (\<lambda>d. last_id < d_id d) (sort_key d_id (docs s))"
  define base where "base = (if path then disk_docs (fts_dir s) else [])"
  define ds where "ds = base @ map lex_entry rs"
  define new_max where "new_max = (if rs = [] then last_id else d_id (last rs))"
  have build: "tantivy (fts_build path s) = Some \<lparr>fi_path = path, fi_committed = ds, fi_pending = []\<rparr>"
    "fts_dir (fts_build path s) = (if path then \<lparr>fd_docs = Some ds, fd_last = max last_id new_max\<rparr> else fts_dir s)"
    by (cases path; cases "fts_dir s"; auto simp: fts_build_def fts_new_def last_indexed_doc_id_def Let_def
        fts_commit_def set_last_indexed_doc_id_def fold_lex_entry rs_def last_id_def base_def ds_def
        new_max_def disk_docs_def max_def)+
  have last: "0 \<le> last_id" "last_id \<le> docs_seq s" using ok rows by (auto simp: last_id_def disk_ok_def rows_wf_def)
  have cover: "lex_entry d \<in> set ds" if "d \<in> set (docs s)" for d
  proof (cases "last_id < d_id d")
    case True
    then show ?thesis using that by (simp add: ds_def rs_def)
  next
    case False
    moreover have "0 < d_id d" using rows that by (simp add: rows_wf_def)
    ultimately have path "d_id d \<le> fd_last (fts_dir s)" by (auto simp: last_id_def split: if_splits)
    then show ?thesis using ok that by (simp add: disk_ok_def ds_def base_def)
  qed
  have "new_max \<le> docs_seq s"
  proof (cases "rs = []")
    case False
    then have "last rs \<in> set (docs s)" using last_in_set [OF False] by (simp add: rs_def)
    then show ?thesis using False rows by (simp add: new_max_def rows_wf_def)
  qed (use last in \<open>simp add: new_max_def\<close>)
  then show ?thesis
    using cover last ok by (auto simp: disk_wf_def open_wf_def build disk_docs_def disk_ok_def)
qed

lemma disk_wf_ok: "disk_wf s \<Longrightarrow> disk_ok s"
  by (simp add: disk_wf_def disk_ok_def)

lemma store_open_wf:
  assumes "store_wf L s"
  shows "store_wf L (store_open locked s)"
proof -
  let ?s = "s\<lparr>docs_ai := True, turbo := None, tantivy := None\<rparr>"
  have "rows_wf L ?s" "disk_ok ?s"
    using assms disk_wf_ok [of s] by (simp_all add: store_wf_def rows_wf_def disk_ok_def)
  then have "disk_wf (fts_build (\<not> locked) ?s) \<and> open_wf (fts_build (\<not> locked) ?s)"
    using fts_build_lex by blast
  then show ?thesis
    using assms by (simp add: store_open_def init_tantivy_warm_start_def store_wf_def rows_wf_def vec_wf_def
        fts_wf_def memory_wf_def)
qed

lemma max_id_le:
  assumes "rows_wf L s"
  shows "0 \<le> max_id s" "max_id s \<le> docs_seq s" "\<forall>d \<in> set (docs s). d_id d \<le> max_id s"
proof -
  have "0 < Max (doc_ids s)" if "docs s \<noteq> []"
  proof -
    have "Max (doc_ids s) \<in> doc_ids s" using that by (intro Max_in) simp_all
    moreover have "\<forall>i \<in> doc_ids s. 0 < i" using assms by (simp add: rows_wf_def)
    ultimately show ?thesis by blast
  qed
  then show "0 \<le> max_id s" by (simp add: max_id_def order_less_imp_le)
  show "max_id s \<le> docs_seq s" "\<forall>d \<in> set (docs s). d_id d \<le> max_id s"
    using assms by (auto simp: max_id_def rows_wf_def)
qed

lemma lex_prepare_build:
  assumes "store_wf L s"
  shows "\<exists>s1 x. store_wf L s1 \<and> tantivy s1 = Some x \<and> docs s1 = docs s \<and> lex_prepare s =
    s1\<lparr>tantivy := Some (x\<lparr>fi_committed := fts_docs x, fi_pending := []\<rparr>),
       fts_dir := (let d = (if fi_path x then (fts_dir s1)\<lparr>fd_docs := Some (fts_docs x)\<rparr> else fts_dir s1)
         in if 0 < max_id s1 \<and> fi_path x then d\<lparr>fd_last := max_id s1\<rparr> else d)\<rparr>"
proof -
  let ?s1 = "if tantivy s = None then fts_build (fd_docs (fts_dir s) \<noteq> None) s else s"
  have b: "disk_wf (fts_build p s) \<and> open_wf (fts_build p s) \<and> (\<exists>x. tantivy (fts_build p s) = Some x)" for p
    using fts_build_lex [of L s p] assms disk_wf_ok by (auto simp: store_wf_def)
  then have wf: "store_wf L ?s1"
    using assms by (simp add: store_wf_def rows_wf_def vec_wf_def fts_wf_def memory_wf_def)
  moreover obtain x where x: "tantivy ?s1 = Some x" using b by (cases "tantivy s") auto
  moreover have "docs ?s1 = docs s" by simp
  moreover have "lex_prepare s = ?s1\<lparr>tantivy := Some (x\<lparr>fi_committed := fts_docs x, fi_pending := []\<rparr>),
      fts_dir := (let d = (if fi_path x then (fts_dir ?s1)\<lparr>fd_docs := Some (fts_docs x)\<rparr> else fts_dir ?s1)
        in if 0 < max_id ?s1 \<and> fi_path x then d\<lparr>fd_last := max_id ?s1\<rparr> else d)\<rparr>"
    unfolding lex_prepare_def Let_def x option.sel fts_commit_def prod.case
    by (simp add: set_last_indexed_doc_id_def)
  ultimately show ?thesis by blast
qed

lemma lex_prepare_wf:
  assumes "store_wf L s"
  shows "store_wf L (lex_prepare s)"
proof -
  obtain s1 x where *: "store_wf L s1" "tantivy s1 = Some x" "lex_prepare s =
    s1\<lparr>tantivy := Some (x\<lparr>fi_committed := fts_docs x, fi_pending := []\<rparr>),
       fts_dir := (let d = (if fi_path x then (fts_dir s1)\<lparr>fd_docs := Some (fts_docs x)\<rparr> else fts_dir s1)
         in if 0 < max_id s1 \<and> fi_path x then d\<lparr>fd_last := max_id s1\<rparr> else d)\<rparr>"
    using lex_prepare_build [OF assms] by blast
  have "lex_entry ` set (docs s1) \<subseteq> set (fts_docs x)" using *(1,2) by (simp add: store_wf_def open_wf_def)
  moreover have "0 \<le> max_id s1 \<and> max_id s1 \<le> docs_seq s1"
    using *(1) max_id_le [of L s1] by (simp add: store_wf_def)
  ultimately have "disk_wf (lex_prepare s)" "open_wf (lex_prepare s)"
    using *(1,2) by (auto simp: *(3) store_wf_def disk_wf_def open_wf_def Let_def disk_docs_def)
  then show ?thesis
    using *(1) by (simp add: *(3) store_wf_def rows_wf_def vec_wf_def fts_wf_def memory_wf_def)
qed

text \<open>Without embeddings, the fast loop is the batch loop with one time stamp.\<close>

lemma fast_rows_batch:
  assumes "\<forall>r \<in> set reqs. r_embedding r = None"
  shows "fast_rows L ts reqs s = batch_rows L (\<lambda>_. ts) n reqs s"
  using assms
proof (induction reqs arbitrary: n s)
  case (Cons r rs)
  have "row_step L ts r s = (case find_hash L (r_text r) s of Some i \<Rightarrow> Inr (i, s)
      | None \<Rightarrow> (case insert_doc L ts r None None s of None \<Rightarrow> Inl Sqlite | Some p \<Rightarrow> Inr p))"
    using Cons.prems by (simp add: row_step_def insert_vec_def split: option.split)
  then show ?case
    using Cons by (auto simp: check_dim_def split: sum.split option.split)
qed simp

lemma fast_rows_spec:
  assumes "\<forall>r \<in> set reqs. r_embedding r = None" "tables_wf L s" "fast_rows L ts reqs s = Inr (ids, s')"
  shows "tables_wf L s'"
  using assms batch_rows_spec [of L s "\<lambda>_. ts" 0 reqs ids s'] fast_rows_batch [of reqs L ts s 0] by simp

lemma turbo_rows_none: "\<forall>r \<in> set reqs. r_embedding r = None \<Longrightarrow> turbo_rows (zip ids reqs) c = Some c"
proof (induction reqs arbitrary: ids)
  case (Cons r rs)
  then show ?case by (cases ids) simp_all
qed simp

lemma turbo_batch_none:
  assumes "\<forall>r \<in> set reqs. r_embedding r = None"
  shows "turbo_batch reqs ids s = s"
  using turbo_rows_none [OF assms] by (cases s) (auto simp: turbo_batch_def split: option.split)

lemma put_batch_fast_batch:
  assumes "\<forall>r \<in> set reqs. r_embedding r = None"
  shows "put_batch_fast L ts mts reqs s = put_batch L (\<lambda>_. ts) mts reqs s"
proof -
  have "\<not> (\<exists>r \<in> set reqs. r_embedding r \<noteq> None)" using assms by simp
  then show ?thesis
    unfolding put_batch_fast_def put_batch_def fast_rows_batch [OF assms, of L ts s 0]
    by (simp add: turbo_batch_none [OF assms] del: not_None_eq split: sum.split)
qed

subsection \<open>Deferring the FTS index\<close>

text \<open>The store whose trigger is dropped, with the FTS rows \<open>F\<close>.\<close>

abbreviation no_trigger :: "(int \<times> rstr option \<times> rstr) list \<Rightarrow> store \<Rightarrow> store" where
  "no_trigger F s \<equiv> s\<lparr>docs_fts := F, docs_ai := False\<rparr>"

lemma insert_doc_no_trigger:
  "insert_doc L ts r sig crdt (no_trigger F s) = map_option (map_prod id (no_trigger F)) (insert_doc L ts r sig crdt s)"
  by (cases s) (simp add: insert_doc_def Let_def)

lemma find_hash_no_trigger [simp]: "find_hash L txt (no_trigger F s) = find_hash L txt s"
  by (simp add: find_hash_def)

lemma fast_rows_no_trigger:
  "fast_rows L ts reqs (no_trigger F s) = map_sum id (map_prod id (no_trigger F)) (fast_rows L ts reqs s)"
proof (induction reqs arbitrary: s)
  case (Cons r rs)
  show ?case
  proof (cases "find_hash L (r_text r) s")
    case None
    then show ?thesis
      by (cases "insert_doc L ts r None None s")
        (auto simp: insert_doc_no_trigger Cons.IH split: sum.split)
  next
    case (Some i)
    then show ?thesis by (auto simp: Cons.IH split: sum.split)
  qed
qed simp

lemma fast_rows_new:
  assumes "docs_ai s" "fast_rows L ts reqs s = Inr (ids, s')"
  shows "docs_ai s' \<and> docs_seq s \<le> docs_seq s' \<and>
    (\<exists>new. docs s' = docs s @ new \<and> docs_fts s' = docs_fts s @ map fts_row new \<and> (\<forall>d \<in> set new. docs_seq s < d_id d))"
  using assms
proof (induction reqs arbitrary: s ids)
  case (Cons r rs)
  show ?case
  proof (cases "find_hash L (r_text r) s")
    case (Some i)
    then show ?thesis using Cons by (auto split: sum.splits)
  next
    case None
    then obtain i s1 ks where i: "insert_doc L ts r None None s = Some (i, s1)" "fast_rows L ts rs s1 = Inr (ks, s')"
      using Cons.prems(2) by (auto split: option.splits sum.splits)
    note f = insert_doc_fields [OF i(1)]
    obtain new where "docs s' = docs s1 @ new" "docs_fts s' = docs_fts s1 @ map fts_row new"
        "\<forall>d \<in> set new. docs_seq s1 < d_id d" "docs_ai s'" "docs_seq s1 \<le> docs_seq s'"
      using Cons.IH [OF _ i(2)] Cons.prems(1) f(5) by auto
    then show ?thesis
      using f Cons.prems(1) by (intro conjI exI [of _ "new_row L ts r None None s # new"]) auto
  qed
qed simp

lemma store_migrate_wf: "store_wf L store_migrate"
  by (simp add: store_migrate_def store_wf_defs mem_wf_def sota_migrate_def)

text \<open>A library whose hash is the identity and requests without metadata, for concrete stores.\<close>

definition lib0 :: "nat store_lib" where
  "lib0 = \<lparr>blake3 = \<lambda>b. b, json_text = \<lambda>_. [], json_parse = \<lambda>_. None\<rparr>"

definition req0 :: "rstr \<Rightarrow> embedding option \<Rightarrow> nat put_request" where
  "req0 txt emb = \<lparr>r_uri = None, r_title = None, r_text = txt, r_meta = None, r_embedding = emb\<rparr>"

lemma deferred_eq:
  assumes wf: "store_wf L s"
  shows "put_batch_deferred_fts L ts mts reqs s =
    (case put_batch_fast L ts mts reqs s of Inl e \<Rightarrow> (Inl e, s) | Inr (ids, s') \<Rightarrow> (Inr ids, s'))"
proof (cases "\<exists>r \<in> set reqs. r_embedding r \<noteq> None")
  case True
  then show ?thesis by (simp add: put_batch_deferred_fts_def put_batch_fast_def del: not_None_eq)
next
  case False
  have ai: "docs_ai s" using wf by (simp add: store_wf_def fts_wf_def)
  have s0: "s\<lparr>docs_ai := False\<rparr> = no_trigger (docs_fts s) s" by simp
  have same: "s\<lparr>docs_ai := False, docs_ai := True\<rparr> = s" using ai by (cases s) simp
  show ?thesis
  proof (cases "fast_rows L ts reqs s")
    case (Inl e)
    then have "fast_rows L ts reqs (s\<lparr>docs_ai := False\<rparr>) = Inl e" unfolding s0 fast_rows_no_trigger by simp
    then show ?thesis
      using Inl False same by (simp add: put_batch_deferred_fts_def put_batch_fast_def Let_def del: not_None_eq)
  next
    case (Inr p)
    obtain ids s1 where p: "p = (ids, s1)" by (cases p)
    obtain new where new: "docs s1 = docs s @ new" "docs_fts s1 = docs_fts s @ map fts_row new"
        "\<forall>d \<in> set new. docs_seq s < d_id d" "docs_ai s1"
      using fast_rows_new [OF ai Inr [unfolded p]] by blast
    have m: "max_id (s\<lparr>docs_ai := False\<rparr>) = max_id s" by (simp add: max_id_def)
    have "rows_wf L s" using wf by (simp add: store_wf_def)
    then have "filter (\<lambda>d. max_id s < d_id d) (docs s1) = new"
      using new(1,3) max_id_le [of L s] by (auto simp: filter_empty_conv not_less intro!: filter_True)
    moreover have "(no_trigger (docs_fts s) s1)\<lparr>docs_fts := docs_fts s @ map fts_row new, docs_ai := True\<rparr> = s1"
      using new(2,4) by (cases s1) simp
    moreover have "fast_rows L ts reqs (s\<lparr>docs_ai := False\<rparr>) = Inr (ids, no_trigger (docs_fts s) s1)"
      unfolding s0 fast_rows_no_trigger by (simp add: Inr p)
    ultimately show ?thesis
      using Inr p False
      by (simp add: put_batch_deferred_fts_def put_batch_fast_def Let_def m fts_row_def [abs_def, symmetric]
          del: not_None_eq)
  qed
qed

text \<open>C6. Deferring the FTS index is only an optimisation: on a well-formed store the deferred bulk
  ingest gives the same ids, the same error and the same store, FTS rows and trigger included, as the
  fast ingest that updates the index row by row.\<close>

theorem deferred_equals_fast:
  assumes "store_wf L s"
  shows "put_batch_deferred_fts L ts mts reqs s =
    (case put_batch_fast L ts mts reqs s of Inl e \<Rightarrow> (Inl e, s) | Inr (ids, s') \<Rightarrow> (Inr ids, s'))"
  by (rule deferred_eq [OF assms])

theorem deferred_equals_fast_witness:
  "put_batch_deferred_fts lib0 5 6 [req0 [97] None, req0 [98] None] store_migrate =
    (case put_batch_fast lib0 5 6 [req0 [97] None, req0 [98] None] store_migrate of
       Inl e \<Rightarrow> (Inl e, store_migrate) | Inr (ids, s') \<Rightarrow> (Inr ids, s'))"
  by (rule deferred_equals_fast) (rule store_migrate_wf)

subsection \<open>Reachable stores\<close>

text \<open>One operation, and the stores that sequences of operations on a new database lead to.\<close>

inductive store_step :: "'j store_lib \<Rightarrow> store \<Rightarrow> store \<Rightarrow> bool" for L s where
  put: "put_inner L ts mts r sig crdt s = Inr (i, s') \<Longrightarrow> store_step L s s'"
| batch: "put_batch L clock mts reqs s = Inr (ids, s') \<Longrightarrow> store_step L s s'"
| fast: "put_batch_fast L ts mts reqs s = Inr (ids, s') \<Longrightarrow> store_step L s s'"
| deferred: "store_step L s (snd (put_batch_deferred_fts L ts mts reqs s))"
| delete: "delete fts_fails i s = Inr (b, s') \<Longrightarrow> store_step L s s'"
| merge: "merge_crdt merge fts_fails i incoming s = Inr s' \<Longrightarrow> store_step L s s'"
| lex: "store_step L s (lex_prepare s)"
| warm: "store_step L s (warm_turbo s)"
| lift: "store_step L s (snd (take_ndarray_search s))"
| log: "store_step L s (log_query L now q mode lat hits score s)"
| promote: "promote_doc_memory (doc_exists s) ts d ty conf date old (mem s) = Inr (i, m) \<Longrightarrow> store_step L s (s\<lparr>mem := m\<rparr>)"
| reopen: "store_step L s (store_open locked s)"

inductive store_reach :: "'j store_lib \<Rightarrow> store \<Rightarrow> bool" for L where
  init: "store_reach L (store_open locked store_migrate)"
| step: "store_reach L s \<Longrightarrow> store_step L s t \<Longrightarrow> store_reach L t"

lemma put_batch_fast_wf:
  assumes "store_wf L s" "put_batch_fast L ts mts reqs s = Inr (ids, s')"
  shows "store_wf L s'"
proof -
  have "\<forall>r \<in> set reqs. r_embedding r = None" using assms(2) by (auto simp: put_batch_fast_def split: if_splits)
  then show ?thesis using assms put_batch_wf put_batch_fast_batch by metis
qed

lemma deferred_wf:
  assumes "store_wf L s"
  shows "store_wf L (snd (put_batch_deferred_fts L ts mts reqs s))"
proof (cases "put_batch_fast L ts mts reqs s")
  case (Inr p)
  then show ?thesis
    using put_batch_fast_wf [OF assms, of ts mts reqs "fst p" "snd p"]
    by (cases p) (simp add: deferred_eq [OF assms])
qed (simp add: deferred_eq [OF assms] assms)

lemma promote_queue:
  assumes "promote_doc_memory ok ts d ty conf date old m = Inr (i, m')"
  shows "q_doc ` set (extraction_queue m') \<subseteq> insert d (q_doc ` set (extraction_queue m)) \<and>
    (ok d \<or> (\<exists>r \<in> set (memories m). m_doc r = d))"
proof -
  obtain j m1 where r: "promote_row ok ts d ty conf date m = Inr (j, m1)"
    using assms by (auto simp: promote_doc_memory_def split: if_splits sum.splits)
  have q: "extraction_queue m1 = extraction_queue m"
    using r by (auto simp: promote_row_def put_memory_with_date_def Let_def split: option.splits if_splits)
  have "ok d \<or> (\<exists>r \<in> set (memories m). m_doc r = d)"
  proof (cases "active_for_doc d m")
    case None
    then show ?thesis using r by (auto simp: promote_row_def put_memory_with_date_def split: if_splits)
  next
    case (Some a)
    then have "a \<in> set (memories m)" "m_doc a = d"
      using pick_first_in [OF Some [unfolded active_for_doc_def]] by simp_all
    then show ?thesis by blast
  qed
  moreover have "extraction_queue m' = extraction_queue (set_promoted ts d m1)"
    using assms r supersede_spec(3)
    by (auto simp: promote_doc_memory_def Let_def split: if_splits option.splits sum.splits)
  moreover have "q_doc ` set (extraction_queue (set_promoted ts d m1)) \<subseteq> insert d (q_doc ` set (extraction_queue m1))"
    by (auto simp: set_promoted_def)
  ultimately show ?thesis using q by simp
qed

lemma promote_store_wf:
  assumes wf: "store_wf L s" and p: "promote_doc_memory (doc_exists s) ts d ty conf date old (mem s) = Inr (i, m)"
  shows "store_wf L (s\<lparr>mem := m\<rparr>)"
proof -
  have mem: "mem_wf (doc_exists s) (mem s)" "q_doc ` set (extraction_queue (mem s)) \<subseteq> doc_ids s"
    using wf by (simp_all add: store_wf_def memory_wf_def)
  have "d \<in> doc_ids s" using promote_queue [OF p] mem(1) by (auto simp: mem_wf_def)
  then have "memory_wf (s\<lparr>mem := m\<rparr>)"
    using promote_wf [OF mem(1) p] promote_queue [OF p] mem(2) by (auto simp: memory_wf_def)
  then show ?thesis
    using wf by (simp add: store_wf_def rows_wf_def vec_wf_def fts_wf_def disk_wf_def open_wf_def)
qed

lemma warm_turbo_fields [simp]:
  "docs (warm_turbo s) = docs s" "docs_seq (warm_turbo s) = docs_seq s" "docs_vec (warm_turbo s) = docs_vec s"
  "docs_fts (warm_turbo s) = docs_fts s" "docs_ai (warm_turbo s) = docs_ai s" "mem (warm_turbo s) = mem s"
  "tantivy (warm_turbo s) = tantivy s" "fts_dir (warm_turbo s) = fts_dir s"
  by (simp_all add: warm_turbo_def split: option.split)

lemma store_wf_cong:
  "docs s' = docs s \<Longrightarrow> docs_seq s' = docs_seq s \<Longrightarrow> docs_vec s' = docs_vec s \<Longrightarrow> docs_fts s' = docs_fts s \<Longrightarrow>
   docs_ai s' = docs_ai s \<Longrightarrow> mem s' = mem s \<Longrightarrow> tantivy s' = tantivy s \<Longrightarrow> fts_dir s' = fts_dir s \<Longrightarrow>
   store_wf L s' = store_wf L s"
  unfolding store_wf_iff
  using tables_wf_cong [of s' s L] memory_wf_cong [of s' s] disk_wf_cong [of s' s] open_wf_cong [of s' s] by blast

lemma step_wf: "store_step L s t \<Longrightarrow> store_wf L s \<Longrightarrow> store_wf L t"
proof (induction rule: store_step.induct)
  case warm
  then show ?case using store_wf_cong [of "warm_turbo s" s L] by simp
next
  case lift
  then show ?case using store_wf_cong [of "snd (take_ndarray_search s)" s L] by (simp add: take_ndarray_search_def)
next
  case (log now q mode lat hits score)
  then show ?case using store_wf_cong [of "log_query L now q mode lat hits score s" s L] by (simp add: log_query_def)
qed (auto intro: store_open_wf put_inner_wf put_batch_wf put_batch_fast_wf deferred_wf delete_wf merge_crdt_wf lex_prepare_wf promote_store_wf)

lemma reach_wf: "store_reach L s \<Longrightarrow> store_wf L s"
  by (induction rule: store_reach.induct) (auto intro: store_open_wf store_migrate_wf step_wf)

subsubsection \<open>Ids are fresh, and every document has a memory\<close>

text \<open>What every operation does to the ids of documents: the counter never falls, and new ids are above it.\<close>

definition ids_grow :: "store \<Rightarrow> store \<Rightarrow> bool" where
  "ids_grow s t \<longleftrightarrow> docs_seq s \<le> docs_seq t \<and> (\<forall>i \<in> doc_ids t. i \<in> doc_ids s \<or> docs_seq s < i)"

definition memory_docs :: "store \<Rightarrow> int set" where
  "memory_docs s = m_doc ` set (memories (mem s)) \<inter> q_doc ` set (extraction_queue (mem s))"

definition remembered :: "store \<Rightarrow> bool" where
  "remembered s \<longleftrightarrow> doc_ids s \<subseteq> memory_docs s"

lemma ids_grow_trans: "ids_grow s t \<Longrightarrow> ids_grow t u \<Longrightarrow> ids_grow s u"
  unfolding ids_grow_def by fastforce

lemma same_docs_step: "docs t = docs s \<Longrightarrow> docs_seq t = docs_seq s \<Longrightarrow> mem t = mem s \<Longrightarrow> ids_grow s t \<and> (remembered s \<longrightarrow> remembered t)"
  by (simp add: ids_grow_def remembered_def memory_docs_def)

lemma insert_raws_docs: "m_doc ` set (memories (insert_raws ts ds m)) = set ds \<union> m_doc ` set (memories m)"
  by (induction ds arbitrary: m) auto

lemma fold_enqueue_memories [simp]: "memories (fold (enqueue_extraction ts) ds m) = memories m"
  by (induction ds arbitrary: m) simp_all

lemma has_raw_docs: "has_raw m d \<Longrightarrow> d \<in> m_doc ` set (memories m)"
  by (auto simp: has_raw_def raw_active_def)

lemma wire_memory_docs:
  assumes "i \<in> doc_ids s"
  shows "memory_docs s \<union> {i} \<subseteq> memory_docs (wire_memory mts i s)"
proof -
  let ?m = "if has_raw (mem s) i then mem s else insert_raws mts [i] (mem s)"
  have "wire_memory mts i s = s\<lparr>mem := enqueue_extraction mts i ?m\<rparr>"
    using ensure_one [of "doc_exists s" i mts "mem s"] assms by (auto simp: wire_memory_def)
  moreover have "m_doc ` set (memories (mem s)) \<union> {i} \<subseteq> m_doc ` set (memories ?m)" using has_raw_docs [of "mem s" i] insert_raws_docs [of mts "[i]" "mem s"] by auto
  moreover have "extraction_queue ?m = extraction_queue (mem s)" by simp
  ultimately show ?thesis by (auto simp: memory_docs_def enqueue_docs)
qed

lemma wire_batch_docs:
  assumes "set ids \<subseteq> doc_ids s"
  shows "memory_docs s \<union> set ids \<subseteq> memory_docs (wire_memory_batch mts ids s)"
proof (cases "ids = []")
  case False
  let ?new = "filter (\<lambda>d. \<not> (\<exists>m \<in> set (memories (mem s)). raw_active d m)) ids"
  have "wire_memory_batch mts ids s = s\<lparr>mem := fold (enqueue_extraction mts) ids (insert_raws mts ?new (mem s))\<rparr>"
    using assms False by (auto simp: wire_memory_batch_def ensure_raw_memory_and_enqueue_batch_def Let_def)
  moreover have "set ids \<subseteq> m_doc ` set (memories (insert_raws mts ?new (mem s)))"
    using has_raw_docs [of "mem s"] unfolding insert_raws_docs has_raw_def by auto
  ultimately show ?thesis by (auto simp: memory_docs_def enqueue_all_docs insert_raws_docs)
qed (simp add: wire_memory_batch_def ensure_raw_memory_and_enqueue_batch_def)

lemma mirror_turbo_mem [simp]: "mem (mirror_put i r s) = mem s" "mem (mirror_batch_to_tantivy reqs ids s) = mem s"
  "mem (turbo_put i e s) = mem s" "mem (turbo_batch reqs ids s) = mem s"
  by (simp_all add: mirror_put_def mirror_batch_to_tantivy_def turbo_put_def turbo_batch_def Let_def split: option.split prod.split)

lemma put_inner_cases:
  assumes "put_inner L ts mts r sig crdt s = Inr (i, s')"
  obtains (old) "find_hash L (r_text r) s = Some i" "s' = wire_memory mts i s"
  | (new) s1 where "find_hash L (r_text r) s = None" "insert_doc L ts r sig crdt s = Some (i, s1)"
      "s' = turbo_put i (r_embedding r) (mirror_put i r (wire_memory mts i (insert_vec i (r_embedding r) s1)))"
  using assms by (auto simp: put_inner_def split: option.splits)

lemma put_step:
  assumes "put_inner L ts mts r sig crdt s = Inr (i, t)"
  shows "ids_grow s t \<and> (remembered s \<longrightarrow> remembered t)"
  using assms
proof (cases rule: put_inner_cases)
  case old
  then have "i \<in> doc_ids s" using find_hash_Some by fastforce
  then show ?thesis using wire_memory_docs [of i s mts] by (auto simp: old ids_grow_def remembered_def)
next
  case (new s1)
  note f = insert_doc_fields [OF new(2)]
  let ?v = "insert_vec i (r_embedding r) s1"
  have ids: "doc_ids ?v = insert i (doc_ids s)" using f(1,2) by simp
  have "memory_docs ?v = memory_docs s" using f by (simp add: memory_docs_def)
  then have "memory_docs s \<union> {i} \<subseteq> memory_docs (wire_memory mts i ?v)" using wire_memory_docs [of i ?v mts] ids by simp
  moreover have "memory_docs t = memory_docs (wire_memory mts i ?v)" "docs t = docs ?v" "docs_seq t = docs_seq s + 1"
    using new(3) f by (simp_all add: memory_docs_def)
  ultimately show ?thesis using ids f(1) by (auto simp: ids_grow_def remembered_def)
qed

lemma put_batch_step:
  assumes wf: "store_wf L s" and p: "put_batch L clock mts reqs s = Inr (ids, t)"
  shows "ids_grow s t \<and> (remembered s \<longrightarrow> remembered t)"
proof -
  obtain s1 where b: "batch_rows L clock 0 reqs s = Inr (ids, s1)"
      and t: "t = mirror_batch_to_tantivy reqs ids (turbo_batch reqs ids (wire_memory_batch mts ids s1))"
    using p by (auto simp: put_batch_def split: sum.splits)
  have sp: "same_caches s s1" "set ids \<subseteq> doc_ids s1" "docs_seq s \<le> docs_seq s1"
      "\<forall>d \<in> set (docs s1). d \<in> set (docs s) \<or> docs_seq s < d_id d \<and>
        (\<exists>(i, r) \<in> set (zip ids reqs). d_id d = i \<and> d_title d = r_title r \<and> d_text d = r_text r)"
    using batch_rows_spec [OF _ b] wf by (simp_all add: store_wf_iff)
  have "memory_docs s1 = memory_docs s" using sp(1) by (simp add: memory_docs_def same_caches_def)
  then have m: "memory_docs s \<union> set ids \<subseteq> memory_docs t" using wire_batch_docs [OF sp(2), of mts] by (simp add: t memory_docs_def)
  have d: "docs t = docs s1" "docs_seq t = docs_seq s1" by (simp_all add: t)
  have "doc_ids t \<subseteq> doc_ids s \<union> set ids" using sp(4) by (auto simp: d dest: set_zip_leftD)
  moreover have "ids_grow s t" using sp(3,4) by (auto simp: ids_grow_def d)
  ultimately show ?thesis using m unfolding remembered_def by blast
qed

lemma fast_step:
  assumes "store_wf L s" "put_batch_fast L ts mts reqs s = Inr (ids, t)"
  shows "ids_grow s t \<and> (remembered s \<longrightarrow> remembered t)"
proof -
  have "\<forall>r \<in> set reqs. r_embedding r = None" using assms(2) by (auto simp: put_batch_fast_def split: if_splits)
  then show ?thesis using assms put_batch_step put_batch_fast_batch by metis
qed

lemma image_map_set: "(\<And>r. f (g r) = f r) \<Longrightarrow> f ` set (map g rs) = f ` set rs"
  by (auto simp: image_iff)

lemma forget_memory_docs: "m_doc ` set (memories (forget_doc i m)) = m_doc ` set (memories m) - {i}"
proof -
  have "m_doc ` set (filter (\<lambda>r. m_doc r \<noteq> i) (map f rs)) = m_doc ` set rs - {i}" if "\<And>r. m_doc (f r) = m_doc r" for f rs
    using that by (induction rs) auto
  from this [of "\<lambda>r. if (case m_superseded r of None \<Rightarrow> False
        | Some k \<Rightarrow> k \<in> m_id ` set (filter (\<lambda>r. m_doc r = i) (memories m))) then r\<lparr>m_superseded := None\<rparr> else r" "memories m"]
  show ?thesis by (simp add: forget_doc_def Let_def del: set_map set_filter)
qed

lemma forget_queue_docs: "q_doc ` set (extraction_queue (forget_doc i m)) = q_doc ` set (extraction_queue m) - {i}"
  by (auto simp: forget_doc_def Let_def)

lemma promote_docs:
  assumes "promote_doc_memory ok ts d ty conf date old m = Inr (i, m')"
  shows "m_doc ` set (memories m) \<subseteq> m_doc ` set (memories m') \<and> q_doc ` set (extraction_queue m) \<subseteq> q_doc ` set (extraction_queue m')"
proof -
  obtain j m1 where r: "promote_row ok ts d ty conf date m = Inr (j, m1)"
    using assms by (auto simp: promote_doc_memory_def split: if_splits sum.splits)
  have 1: "m_doc ` set (memories m) \<subseteq> m_doc ` set (memories m1)" "extraction_queue m1 = extraction_queue m"
    using r image_map_set [of m_doc "\<lambda>r. if m_id r = m_id (the (active_for_doc d m)) then r\<lparr>m_type := type_str ty,
        m_weight := default_weight ty, m_confidence := conf, m_event_date := date, m_updated := ts\<rparr> else r" "memories m"]
    by (auto simp: promote_row_def put_memory_with_date_def Let_def simp del: set_map split: option.splits if_splits)
  have 2: "q_doc ` set (extraction_queue m1) \<subseteq> q_doc ` set (extraction_queue (set_promoted ts d m1))"
    using image_map_set [of q_doc "\<lambda>q. if q_doc q = d then q\<lparr>q_status := lit ''promoted'', q_error := None\<rparr> else q" "extraction_queue m1"]
    by (auto simp: set_promoted_def simp del: set_map)
  have "m' = set_promoted ts d m1 \<or> (\<exists>a. supersede ts a j (set_promoted ts d m1) = Inr m')"
    using assms r by (auto simp: promote_doc_memory_def Let_def split: if_splits option.splits sum.splits)
  then show ?thesis
  proof (elim disjE exE)
    fix a assume s: "supersede ts a j (set_promoted ts d m1) = Inr m'"
    have "m_doc ` set (memories m') = m_doc ` set (memories (set_promoted ts d m1))"
      unfolding supersede_spec(1) [OF s] by (rule image_map_set) simp
    then have "m_doc ` set (memories m') = m_doc ` set (memories m1)" by simp
    then show ?thesis using 1 2 supersede_spec(3) [OF s] by simp
  qed (use 1 2 in simp)
qed

lemma merge_crdt_fields:
  assumes "merge_crdt merge fts_fails i incoming s = Inr s'"
  shows "\<exists>c x. s' = s\<lparr>docs := map (\<lambda>d. if d_id d = i then d\<lparr>d_crdt := c\<rparr> else d) (docs s), docs_fts := x\<rparr>"
proof -
  obtain d where d: "find (\<lambda>d. d_id d = i) (docs s) = Some d" using assms by (auto simp: merge_crdt_def split: option.splits)
  obtain c where "(case d_crdt d of None \<Rightarrow> Some incoming | Some old \<Rightarrow> merge old incoming) = Some c"
    using assms d by (auto simp: merge_crdt_def split: option.splits)
  then show ?thesis using assms d
    by (intro exI [of _ "Some c"] exI [of _ "docs_fts s'"]) (auto simp: merge_crdt_def split: option.splits if_splits)
qed

lemma step_docs: "store_step L s t \<Longrightarrow> store_wf L s \<Longrightarrow> ids_grow s t \<and> (remembered s \<longrightarrow> remembered t)"
proof (induction rule: store_step.induct)
  case (deferred ts mts reqs)
  show ?case
  proof (cases "put_batch_fast L ts mts reqs s")
    case (Inr p)
    then show ?thesis using fast_step [OF deferred, of ts mts reqs] by (cases p) (simp add: deferred_eq [OF deferred])
  qed (simp add: deferred_eq [OF deferred] same_docs_step)
next
  case (delete fts_fails i b s')
  then have t: "s' = without_doc i s" using delete_Inr by blast
  have "doc_ids s' = doc_ids s - {i}" by (auto simp: t without_doc_def)
  moreover have "memory_docs s' = memory_docs s - {i}"
    by (auto simp: t without_doc_def memory_docs_def forget_memory_docs forget_queue_docs)
  moreover have "ids_grow s s'" by (auto simp: t without_doc_def ids_grow_def)
  ultimately show ?case unfolding remembered_def by blast
next
  case (merge merge fts_fails i incoming s')
  obtain c x where "s' = s\<lparr>docs := map (\<lambda>d. if d_id d = i then d\<lparr>d_crdt := c\<rparr> else d) (docs s), docs_fts := x\<rparr>"
    using merge_crdt_fields [OF merge(1)] by blast
  then have c: "docs s' = map (\<lambda>d. if d_id d = i then d\<lparr>d_crdt := c\<rparr> else d) (docs s)" "docs_seq s' = docs_seq s" "mem s' = mem s"
    by simp_all
  have "doc_ids s' = doc_ids s" unfolding c(1) by (rule image_map_set) simp
  then have ids: "doc_ids s' \<subseteq> doc_ids s" "ids_grow s s'" using c(2) by (auto simp: ids_grow_def)
  have "memory_docs s' = memory_docs s" by (simp add: memory_docs_def c(3))
  then show ?case using ids by (auto simp: remembered_def)
next
  case lex
  show ?case by (rule same_docs_step) (simp_all add: lex_prepare_def Let_def split: prod.split)
next
  case lift
  show ?case by (rule same_docs_step) (simp_all add: take_ndarray_search_def)
next
  case (log now q mode lat hits score)
  show ?case by (rule same_docs_step) (simp_all add: log_query_def)
next
  case (promote ts d ty conf date old i m)
  have "memory_docs s \<subseteq> memory_docs (s\<lparr>mem := m\<rparr>)" using promote_docs [OF promote(1)] unfolding memory_docs_def by auto
  then show ?case by (auto simp: ids_grow_def remembered_def)
next
  case (reopen locked)
  show ?case by (rule same_docs_step) (simp_all add: store_open_def init_tantivy_warm_start_def)
qed (auto simp: put_step put_batch_step fast_step same_docs_step)

lemma later_ids: "(store_step L)\<^sup>*\<^sup>* s t \<Longrightarrow> store_wf L s \<Longrightarrow> store_wf L t \<and> ids_grow s t"
proof (induction rule: rtranclp_induct)
  case base
  then show ?case by (simp add: ids_grow_def)
next
  case (step t u)
  then show ?case using step_wf [of L t u] step_docs [of L t u] ids_grow_trans [of s t u] by blast
qed

lemma reach_remembered: "store_reach L s \<Longrightarrow> remembered s"
proof (induction rule: store_reach.induct)
  case (init locked)
  have "docs (store_open locked store_migrate) = []" by (simp add: store_open_def init_tantivy_warm_start_def store_migrate_def)
  then show ?case by (simp add: remembered_def)
next
  case (step s t)
  then show ?case using step_docs reach_wf by blast
qed

text \<open>C1. In every reachable store, whatever sequence of puts, batches, deletions, merges, searches,
  promotions and reopenings led to it: document ids are unique and never above the counter, texts are
  stored once per hash and uris at most once; the FTS rows are exactly those of the stored documents, and so are the
  documents that have a memory and those that have a queue entry; a vector belongs to a stored document, which has no
  other one, and has 384 components; and an open lexical index holds every document.\<close>

theorem store_reachable_wf:
  assumes "store_reach L s"
  shows "distinct (map d_id (docs s)) \<and> distinct (map d_blake3 (docs s)) \<and>
    distinct (filter (\<lambda>u. u \<noteq> None) (map d_uri (docs s))) \<and>
    (\<forall>d \<in> set (docs s). d_id d \<le> docs_seq s \<and> d_blake3 d = blake3 L (utf8 (d_text d))) \<and>
    distinct (map fst (docs_vec s)) \<and> (\<forall>(i, e) \<in> set (docs_vec s). i \<in> doc_ids s \<and> length e = EMBED_DIM) \<and>
    set (docs_fts s) = fts_row ` set (docs s) \<and> mem_wf (doc_exists s) (mem s) \<and>
    m_doc ` set (memories (mem s)) = doc_ids s \<and> q_doc ` set (extraction_queue (mem s)) = doc_ids s \<and>
    (\<forall>x. tantivy s = Some x \<longrightarrow> lex_entry ` set (docs s) \<subseteq> set (fts_docs x))"
proof -
  have wf: "store_wf L s" by (rule reach_wf [OF assms])
  then have w: "rows_wf L s" "vec_wf s" "fts_wf s" "memory_wf s" "open_wf s" by (simp_all add: store_wf_def)
  have "doc_ids s \<subseteq> m_doc ` set (memories (mem s))" "doc_ids s \<subseteq> q_doc ` set (extraction_queue (mem s))"
    using reach_remembered [OF assms] by (auto simp: remembered_def memory_docs_def)
  moreover have "m_doc ` set (memories (mem s)) \<subseteq> doc_ids s" "q_doc ` set (extraction_queue (mem s)) \<subseteq> doc_ids s"
    using w(4) by (auto simp: memory_wf_def mem_wf_def)
  ultimately have "m_doc ` set (memories (mem s)) = doc_ids s" "q_doc ` set (extraction_queue (mem s)) = doc_ids s" by blast+
  then show ?thesis
    using w rows_wf_distinct [of L s]
    by (simp add: rows_wf_def vec_wf_def fts_wf_def memory_wf_def open_wf_def split_beta)
qed

lemma init_reach: "store_reach L (store_open False store_migrate)"
  by (rule store_reach.init)

text \<open>A new database with one document.\<close>

lemma sample_store: "\<exists>s. store_reach lib0 s \<and> doc_ids s = {1}"
proof -
  let ?s = "store_open False store_migrate"
  have d: "docs ?s = []" "docs_seq ?s = 0" by (simp_all add: store_open_def init_tantivy_warm_start_def store_migrate_def)
  obtain i s where p: "put_inner lib0 1 2 (req0 [97] None) None None ?s = Inr (i, s)"
    by (simp add: put_inner_def check_dim_def check_finite_def req0_def find_hash_def insert_doc_def Let_def d)
  from p have "docs s = [new_row lib0 1 (req0 [97] None) None None ?s]"
  proof (cases rule: put_inner_cases)
    case (new s1)
    then show ?thesis using insert_doc_fields [OF new(2)] d by simp
  qed (simp add: find_hash_def d)
  then have "doc_ids s = {1}" by (simp add: new_row_def d)
  then show ?thesis using store_reach.step [OF init_reach store_step.put [OF p]] by blast
qed

theorem store_reachable_wf_witness:
  "\<exists>s. store_reach lib0 s \<and> doc_ids s = {1} \<and> m_doc ` set (memories (mem s)) = {1} \<and> fst ` set (docs_fts s) = {1}"
proof -
  obtain s where s: "store_reach lib0 s" "doc_ids s = {1}" using sample_store by blast
  have w: "m_doc ` set (memories (mem s)) = doc_ids s" "set (docs_fts s) = fts_row ` set (docs s)"
    using store_reachable_wf [OF s(1)] by meson+
  then have "fst ` set (docs_fts s) = doc_ids s" by (simp add: image_image fts_row_def)
  then show ?thesis using s w(1) by metis
qed

subsection \<open>Putting and getting\<close>

text \<open>The parts of the store that hold documents.\<close>

definition same_tables :: "store \<Rightarrow> store \<Rightarrow> bool" where
  "same_tables s t \<longleftrightarrow> docs t = docs s \<and> docs_seq t = docs_seq s \<and> docs_vec t = docs_vec s \<and>
     docs_fts t = docs_fts s \<and> docs_ai t = docs_ai s"

lemma put_inner_checks:
  "put_inner L ts mts r sig crdt s = Inr p \<Longrightarrow> check_dim (r_embedding r) = None \<and> check_finite (r_embedding r) = None"
  by (auto simp: put_inner_def split: option.splits)

lemma find_distinct:
  "distinct (map f xs) \<Longrightarrow> x \<in> set xs \<Longrightarrow> find (\<lambda>y. f y = f x) xs = Some x"
  by (induction xs) (auto simp: image_iff)

lemma get_row: "rows_wf L s \<Longrightarrow> d \<in> set (docs s) \<Longrightarrow> get L (d_id d) s = Inr (map_doc L d)"
  using find_distinct [of d_id "docs s" d] rows_wf_distinct [of L s] by (simp add: get_def)

lemma find_hash_row:
  "rows_wf L s \<Longrightarrow> d \<in> set (docs s) \<Longrightarrow> d_text d = txt \<Longrightarrow> find_hash L txt s = Some (d_id d)"
  using find_distinct [of d_blake3 "docs s" d] by (auto simp: find_hash_def rows_wf_def)

text \<open>C2. Putting a text whose hash is new appends exactly one document, with a fresh id, the
  request's fields and, if given, its embedding; \<open>get\<close> then returns it. Putting a stored text returns
  the existing id and changes no document, vector or FTS row, whatever the rest of the request says.\<close>

theorem put_exact:
  assumes wf: "store_wf L s" and p: "put_inner L ts mts r sig crdt s = Inr (i, s')"
  shows "(if find_hash L (r_text r) s = None
      then i = docs_seq s + 1 \<and> docs s' = docs s @ [new_row L ts r sig crdt s] \<and>
        docs_vec s' = docs_vec s @ (case r_embedding r of None \<Rightarrow> [] | Some e \<Rightarrow> [(i, e)]) \<and>
        get L i s' = Inr (map_doc L (new_row L ts r sig crdt s))
      else find_hash L (r_text r) s = Some i \<and> same_tables s s') \<and>
    find_hash L (r_text r) s' = Some i"
  using p
proof (cases rule: put_inner_cases)
  case old
  then have "find_hash L (r_text r) s' = Some i" by (simp add: find_hash_def)
  then show ?thesis using old by (simp add: same_tables_def)
next
  case (new s1)
  note f = insert_doc_fields [OF new(2)]
  have rows: "rows_wf L s'" using put_inner_wf [OF wf p] by (simp add: store_wf_def)
  have d: "docs s' = docs s @ [new_row L ts r sig crdt s]" using new(3) f by simp
  moreover have "docs_vec s' = docs_vec s @ (case r_embedding r of None \<Rightarrow> [] | Some e \<Rightarrow> [(i, e)])"
    using new(3) f by (simp add: insert_vec_def split: option.split)
  ultimately show ?thesis
    using new(1) f(1) get_row [OF rows, of "new_row L ts r sig crdt s"]
      find_hash_row [OF rows, of "new_row L ts r sig crdt s" "r_text r"] by simp
qed

theorem put_exact_witness:
  "\<exists>i s'. put_inner lib0 1 2 (req0 [97] None) None None store_migrate = Inr (i, s') \<and>
    find_hash lib0 [97] s' = Some i"
proof -
  obtain i s' where p: "put_inner lib0 1 2 (req0 [97] None) None None store_migrate = Inr (i, s')"
    by (simp add: put_inner_def check_dim_def check_finite_def req0_def find_hash_def store_migrate_def
        insert_doc_def Let_def)
  show ?thesis
    using p put_exact [OF store_migrate_wf p] by (auto simp: req0_def)
qed

subsection \<open>Batches\<close>

text \<open>Putting the requests one by one.\<close>

fun put_each :: "'j store_lib \<Rightarrow> (nat \<Rightarrow> int) \<Rightarrow> int \<Rightarrow> nat \<Rightarrow> 'j put_request list \<Rightarrow> store \<Rightarrow>
    store_error + int list \<times> store" where
  "put_each L clock mts n [] s = Inr ([], s)"
| "put_each L clock mts n (r # rs) s =
     (case put L (clock n) mts r s of
        Inl e \<Rightarrow> Inl e
      | Inr (i, s1) \<Rightarrow> (case put_each L clock mts (Suc n) rs s1 of
           Inl e \<Rightarrow> Inl e | Inr (ids, s2) \<Rightarrow> Inr (i # ids, s2)))"

lemma same_tables_refl [simp]: "same_tables s s"
  by (simp add: same_tables_def)

lemma same_tables_insert:
  assumes "same_tables s t"
  shows "rel_option (rel_prod (=) same_tables) (insert_doc L ts r sig crdt s) (insert_doc L ts r sig crdt t)"
  using assms by (simp add: insert_doc_def same_tables_def Let_def)

lemma same_tables_find: "same_tables s t \<Longrightarrow> find_hash L txt t = find_hash L txt s"
  by (simp add: same_tables_def find_hash_def)

lemma put_row_step:
  assumes st: "same_tables s t" and ok: "check_dim (r_embedding r) = None" "check_finite (r_embedding r) = None"
  shows "rel_sum (=) (rel_prod (=) same_tables) (row_step L ts r s) (put L ts mts r t)"
proof (cases "find_hash L (r_text r) s")
  case (Some i)
  then show ?thesis
    using st ok by (simp add: row_step_def put_def put_inner_def same_tables_find [OF st] same_tables_def)
next
  case None
  show ?thesis
  proof (cases "insert_doc L ts r None None s")
    case N: None
    then have "insert_doc L ts r None None t = None"
      using same_tables_insert [OF st, of L ts r None None] by (auto simp: option_rel_Some1)
    then show ?thesis
      using None N ok by (simp add: row_step_def put_def put_inner_def same_tables_find [OF st])
  next
    case (Some p)
    obtain i s1 where p: "p = (i, s1)" by (cases p)
    obtain t1 where t: "insert_doc L ts r None None t = Some (i, t1)" "same_tables s1 t1"
      using same_tables_insert [OF st, of L ts r None None] Some p by (auto simp: option_rel_Some1)
    then have "same_tables (insert_vec i (r_embedding r) s1) (turbo_put i (r_embedding r)
        (mirror_put i r (wire_memory mts i (insert_vec i (r_embedding r) t1))))"
      by (cases "r_embedding r") (simp_all add: same_tables_def insert_vec_def)
    then show ?thesis
      using None Some p t ok by (simp add: row_step_def put_def put_inner_def same_tables_find [OF st])
  qed
qed

lemma put_each_batch_rows:
  assumes "same_tables s t" "\<forall>r \<in> set reqs. check_finite (r_embedding r) = None"
  shows "rel_sum (=) (rel_prod (=) same_tables) (batch_rows L clock n reqs s) (put_each L clock mts n reqs t)"
  using assms
proof (induction reqs arbitrary: n s t)
  case (Cons r rs)
  show ?case
  proof (cases "check_dim (r_embedding r)")
    case (Some e)
    then show ?thesis by (simp add: put_def put_inner_def)
  next
    case None
    have "rel_sum (=) (rel_prod (=) same_tables) (row_step L (clock n) r s) (put L (clock n) mts r t)"
      using Cons.prems None by (intro put_row_step) simp_all
    then show ?thesis
    proof (cases rule: rel_sum.cases)
      case (1 a c)
      then show ?thesis using None by simp
    next
      case (2 b d)
      obtain i s1 t1 where b: "b = (i, s1)" "d = (i, t1)" "same_tables s1 t1" using 2(3) by (cases b; cases d) auto
      have "rel_sum (=) (rel_prod (=) same_tables) (batch_rows L clock (Suc n) rs s1) (put_each L clock mts (Suc n) rs t1)"
        using Cons.prems(2) b(3) by (intro Cons.IH) simp_all
      then show ?thesis using 2 b None by (cases rule: rel_sum.cases) auto
    qed
  qed
qed simp

lemma put_each_finite: "put_each L clock mts n reqs s = Inr p \<Longrightarrow> r \<in> set reqs \<Longrightarrow> check_finite (r_embedding r) = None"
proof (induction reqs arbitrary: n s p)
  case (Cons r' rs)
  obtain i s1 where 1: "put L (clock n) mts r' s = Inr (i, s1)" using Cons.prems(1) by (auto split: sum.splits)
  then have "check_finite (r_embedding r') = None" by (auto simp: put_def put_inner_def split: option.splits)
  then show ?case using Cons 1 by (auto split: sum.splits)
qed simp

lemma batch_rows_keep: "batch_rows L clock n reqs s = Inr (ids, s') \<Longrightarrow> set (docs_vec s) \<subseteq> set (docs_vec s')"
proof (induction reqs arbitrary: n s ids)
  case (Cons r rs)
  obtain i s1 ids1 where *: "row_step L (clock n) r s = Inr (i, s1)" "batch_rows L clock (Suc n) rs s1 = Inr (ids1, s')"
    using Cons.prems by (auto split: option.splits sum.splits)
  have "set (docs_vec s) \<subseteq> set (docs_vec s1)"
    using *(1) by (auto simp: row_step_def insert_vec_def dest: insert_doc_fields split: option.splits)
  then show ?case using Cons.IH [OF *(2)] by blast
qed simp

lemma row_step_hash:
  assumes "row_step L ts r s = Inr (i, s1)" "find_hash L txt s = None" "blake3 L (utf8 (r_text r)) \<noteq> blake3 L (utf8 txt)"
  shows "find_hash L txt s1 = None"
  using assms by (auto simp: row_step_def find_hash_def find_None_iff new_row_def dest!: insert_doc_fields(2) split: option.splits)

lemma batch_rows_vectors:
  assumes "batch_rows L clock n reqs s = Inr (ids, s')" "k < length reqs" "r_embedding (reqs ! k) = Some e"
    "find_hash L (r_text (reqs ! k)) s = None"
    "\<forall>j < k. blake3 L (utf8 (r_text (reqs ! j))) \<noteq> blake3 L (utf8 (r_text (reqs ! k)))"
  shows "(ids ! k, e) \<in> set (docs_vec s')"
  using assms
proof (induction reqs arbitrary: n s ids k)
  case (Cons r rs)
  obtain i s1 ids1 where *: "row_step L (clock n) r s = Inr (i, s1)" "batch_rows L clock (Suc n) rs s1 = Inr (ids1, s')" "ids = i # ids1"
    using Cons.prems(1) by (auto split: option.splits sum.splits)
  show ?case
  proof (cases k)
    case 0
    then have "(i, e) \<in> set (docs_vec s1)" using Cons.prems(3,4) *(1) by (auto simp: row_step_def insert_vec_def split: option.splits)
    then show ?thesis using batch_rows_keep [OF *(2)] 0 *(3) by auto
  next
    case (Suc m)
    have "find_hash L (r_text (rs ! m)) s1 = None" using row_step_hash [OF *(1)] Cons.prems(4,5) Suc by auto
    moreover have "\<forall>j < m. blake3 L (utf8 (r_text (rs ! j))) \<noteq> blake3 L (utf8 (r_text (rs ! m)))"
      using Cons.prems(5) Suc by (metis Suc_mono nth_Cons_Suc)
    ultimately show ?thesis using Cons.IH [OF *(2)] Cons.prems(2,3) Suc *(3) by simp
  qed
qed simp

text \<open>C5. A batch that brings embeddings for new texts only is one transaction with the effect of single puts. When every embedding is
  finite it fails with the error of putting the requests one by one, and then has no effect, or it returns the same
  ids and leaves the same documents, vectors and FTS rows. When some embedding is not finite the single puts fail, while the batch,
  which does not look, may succeed. A batch that succeeds has stored the embedding of the first request for each text.\<close>

theorem put_batch_folds_put:
  assumes new: "\<forall>r \<in> set reqs. r_embedding r \<noteq> None \<longrightarrow> find_hash L (r_text r) s = None"
  shows "case put_batch L clock mts reqs s of
      Inl e \<Rightarrow> \<exists>e'. put_each L clock mts 0 reqs s = Inl e' \<and> ((\<forall>r \<in> set reqs. check_finite (r_embedding r) = None) \<longrightarrow> e' = e)
    | Inr (ids, s') \<Rightarrow>
        (if \<forall>r \<in> set reqs. check_finite (r_embedding r) = None
         then \<exists>t. put_each L clock mts 0 reqs s = Inr (ids, t) \<and> same_tables s' t
         else \<exists>e. put_each L clock mts 0 reqs s = Inl e) \<and>
        (\<forall>k e. k < length reqs \<longrightarrow> r_embedding (reqs ! k) = Some e \<longrightarrow>
          (\<forall>j < k. blake3 L (utf8 (r_text (reqs ! j))) \<noteq> blake3 L (utf8 (r_text (reqs ! k)))) \<longrightarrow> (ids ! k, e) \<in> set (docs_vec s'))"
proof -
  let ?fin = "\<forall>r \<in> set reqs. check_finite (r_embedding r) = None"
  let ?each = "put_each L clock mts 0 reqs s"
  have rel: "rel_sum (=) (rel_prod (=) same_tables) (batch_rows L clock 0 reqs s) ?each" if ?fin
    using that by (intro put_each_batch_rows) simp_all
  have bad: "\<exists>e. ?each = Inl e" if "\<not> ?fin" using that put_each_finite [of L clock mts 0 reqs s] by (cases ?each) auto
  show ?thesis
  proof (cases "batch_rows L clock 0 reqs s")
    case (Inl e)
    then have "?fin \<Longrightarrow> ?each = Inl e" using rel by (auto elim: rel_sum.cases)
    then show ?thesis using Inl bad by (cases ?fin) (auto simp: put_batch_def)
  next
    case (Inr p)
    obtain ids s1 where p: "p = (ids, s1)" by (cases p)
    let ?s = "mirror_batch_to_tantivy reqs ids (turbo_batch reqs ids (wire_memory_batch mts ids s1))"
    have b: "batch_rows L clock 0 reqs s = Inr (ids, s1)" using Inr p by simp
    have same: "same_tables s1 ?s" by (simp add: same_tables_def)
    have "\<exists>t. ?each = Inr (ids, t) \<and> same_tables ?s t" if f: ?fin
    proof -
      obtain t where "?each = Inr (ids, t)" "same_tables s1 t" using rel [OF f] unfolding b by (auto elim!: rel_sum.cases)
      then show ?thesis using same by (auto simp: same_tables_def)
    qed
    moreover have "(ids ! k, e) \<in> set (docs_vec ?s)" if "k < length reqs" "r_embedding (reqs ! k) = Some e"
      "\<forall>j < k. blake3 L (utf8 (r_text (reqs ! j))) \<noteq> blake3 L (utf8 (r_text (reqs ! k)))" for k e
      using batch_rows_vectors [OF b that(1,2) _ that(3)] new that(1,2) same nth_mem [of k reqs] by (auto simp: same_tables_def)
    ultimately show ?thesis using bad by (simp add: put_batch_def b)
  qed
qed

theorem put_batch_folds_put_witness:
  "let reqs = [req0 [97] (Some (replicate 384 0)), req0 [97] None] in
   \<exists>ids s' t. put_batch lib0 int 9 reqs store_migrate = Inr (ids, s') \<and> (ids ! 0, replicate 384 0) \<in> set (docs_vec s') \<and>
     put_each lib0 int 9 0 reqs store_migrate = Inr (ids, t) \<and> same_tables s' t"
proof -
  let ?reqs = "[req0 [97] (Some (replicate 384 0)), req0 [97] None]"
  have new: "\<forall>r \<in> set ?reqs. r_embedding r \<noteq> None \<longrightarrow> find_hash lib0 (r_text r) store_migrate = None"
    by (simp add: find_hash_def store_migrate_def)
  have fin: "\<forall>r \<in> set ?reqs. check_finite (r_embedding r) = None"
    by (simp add: check_finite_def req0_def list_all_iff f32_is_finite_def)
  have "\<exists>p. batch_rows lib0 int 0 ?reqs store_migrate = Inr p"
    by (simp add: row_step_def check_dim_def req0_def EMBED_DIM_def find_hash_def insert_doc_eq store_migrate_def Let_def new_row_def lib0_def insert_vec_def)
  then obtain ids s' where p: "put_batch lib0 int 9 ?reqs store_migrate = Inr (ids, s')" by (auto simp: put_batch_def)
  note main = put_batch_folds_put [OF new, of int 9, unfolded p sum.case prod.case if_P [OF fin]]
  obtain t where t: "put_each lib0 int 9 0 ?reqs store_migrate = Inr (ids, t)" "same_tables s' t" using main by blast
  have "(ids ! 0, replicate 384 0) \<in> set (docs_vec s')" using main by (elim conjE allE [of _ 0] allE [of _ "replicate 384 0"]) (simp add: req0_def)
  then show ?thesis using p t unfolding Let_def by blast
qed

text \<open>The embedding of a text that is already stored is dropped by a batch: \<^verbatim>\<open>docs_vec\<close> keeps its
  rows, so a later embedding pass over \<^verbatim>\<open>put_batch\<close> cannot complete documents that were ingested
  without one; yet the warm vector cache takes the embedding and then differs from the table.\<close>

theorem put_batch_drops_embedding:
  assumes "find_hash L (r_text r) s = Some i" "r_embedding r = Some e" "length e = EMBED_DIM"
    "turbo s = Some (c # cs)" "i \<notin> fst ` set (c # cs)" "length (snd c) = EMBED_DIM"
  shows "\<exists>s'. put_batch L clock mts [r] s = Inr ([i], s') \<and> docs_vec s' = docs_vec s \<and>
    turbo s' = Some ((c # cs) @ [(i, e)])"
  using assms
  by (simp add: put_batch_def row_step_def check_dim_def turbo_batch_def add_row_def)

theorem put_batch_drops_embedding_witness:
  "let s = store_migrate\<lparr>docs := [new_row lib0 0 (req0 [97] None) None None store_migrate],
             turbo := Some [(7, replicate 384 0)]\<rparr> in
   \<exists>s'. put_batch lib0 int 9 [req0 [97] (Some (replicate 384 1))] s = Inr ([1], s') \<and> docs_vec s' = docs_vec s \<and>
     turbo s' = Some ([(7, replicate 384 0)] @ [(1, replicate 384 1)])"
  unfolding Let_def
  by (rule put_batch_drops_embedding)
    (simp_all add: find_hash_def store_migrate_def new_row_def req0_def lib0_def EMBED_DIM_def)

subsection \<open>Deleting\<close>

lemma find_filter_other: "j \<noteq> i \<Longrightarrow> find (\<lambda>d. f d = j) (filter (\<lambda>d. f d \<noteq> i) xs) = find (\<lambda>d. f d = j) xs"
  by (induction xs) auto

lemma find_filter_same: "find (\<lambda>d. f d = i) (filter (\<lambda>d. f d \<noteq> i) xs) = None"
  by (simp add: find_None_iff)

text \<open>C7. Deleting a document of a well-formed store either fails, because FTS5 refuses the second removal of its row, and then changes
  nothing; or it reports whether there was such a document, removes its row, vector, FTS row, memories, memory
  edges and queue entry, leaves every other document as it was, drops the vector cache, and its id is not used again by any
  sequence of later operations. An id without a document is never an error.\<close>

theorem delete_exact:
  assumes wf: "store_wf L s"
  shows "case delete fts_fails i s of
      Inl e \<Rightarrow> e = Sqlite \<and> doc_exists s i \<and> fts_fails
    | Inr (b, s') \<Rightarrow> \<not> (doc_exists s i \<and> fts_fails) \<and> b = doc_exists s i \<and>
        get L i s' = Inl (DocNotFound i) \<and> (\<forall>j. j \<noteq> i \<longrightarrow> get L j s' = get L j s) \<and>
        docs_vec s' = filter (\<lambda>v. fst v \<noteq> i) (docs_vec s) \<and> docs_fts s' = filter (\<lambda>f. fst f \<noteq> i) (docs_fts s) \<and> turbo s' = None \<and>
        (\<forall>m \<in> set (memories (mem s')). m_doc m \<noteq> i) \<and> mem_wf (doc_exists s') (mem s') \<and>
        i \<notin> q_doc ` set (extraction_queue (mem s')) \<and>
        (doc_exists s i \<longrightarrow> (\<forall>t. (store_step L)\<^sup>*\<^sup>* s' t \<longrightarrow> \<not> doc_exists t i))"
proof (cases "delete fts_fails i s")
  case (Inl e)
  then show ?thesis by (simp add: delete_def split: if_splits)
next
  case (Inr p)
  obtain b s' where p: "p = (b, s')" by (cases p)
  then have d: "\<not> (doc_exists s i \<and> fts_fails)" "b = (i \<in> fst ` set (docs_vec s) \<or> doc_exists s i)" "s' = without_doc i s"
    using delete_Inr [of fts_fails i s b s'] Inr by auto
  have wf': "store_wf L s'" using without_doc_wf [OF wf] d(3) by simp
  have "fst ` set (docs_vec s) \<subseteq> doc_ids s" using wf by (auto simp: store_wf_def vec_wf_def)
  then have "b = doc_exists s i" using d(2) by auto
  moreover have "\<not> doc_exists t i" if "doc_exists s i" "(store_step L)\<^sup>*\<^sup>* s' t" for t
  proof -
    have "i \<le> docs_seq s'" using that(1) wf by (auto simp: d(3) without_doc_def store_wf_def rows_wf_def)
    moreover have "\<not> doc_exists s' i" by (auto simp: d(3) without_doc_def)
    ultimately show ?thesis using later_ids [OF that(2) wf'] by (auto simp: ids_grow_def)
  qed
  moreover have "get L i s' = Inl (DocNotFound i)" "\<forall>j. j \<noteq> i \<longrightarrow> get L j s' = get L j s"
    by (simp_all add: d(3) without_doc_def get_def find_filter_same find_filter_other)
  moreover have "mem_wf (doc_exists s') (mem s')" using wf' by (simp add: store_wf_def memory_wf_def)
  ultimately show ?thesis using d(1) unfolding Inr p sum.case prod.case
    by (simp add: d(3) without_doc_def forget_doc_def Let_def) auto
qed

theorem delete_exact_witness:
  "\<exists>s s'. store_reach lib0 s \<and> doc_ids s = {1} \<and> delete False 1 s = Inr (True, s') \<and> get lib0 1 s' = Inl (DocNotFound 1)"
proof -
  obtain s where s: "store_reach lib0 s" "doc_ids s = {1}" using sample_store by blast
  obtain b s' where d: "delete False 1 s = Inr (b, s')" by (simp add: delete_def)
  have "b \<and> get lib0 1 s' = Inl (DocNotFound 1)"
    using delete_exact [OF reach_wf [OF s(1)], where fts_fails = False and i = 1] s(2) unfolding d by auto
  then show ?thesis using s d by (intro exI [of _ s] exI [of _ s']) simp
qed

subsection \<open>Searching\<close>

lemma hydrate_rows: "h \<in> set (hydrate L s rs) \<Longrightarrow> \<exists>d \<in> set (docs s). \<exists>score. h = hit_of L score d"
proof (induction L s rs rule: hydrate.induct)
  case (2 L s i score rs)
  then show ?case by (auto split: option.splits dest: find_SomeD)
qed simp

text \<open>C14. In every reachable store a lexical search asks the matcher about an index that contains every
  stored document, those of uncommitted batches and of earlier sessions included, and every hit it
  returns is a stored document; the documents themselves are not changed.\<close>

theorem search_lex_complete:
  assumes "store_reach L s" "fts5_match_query q = Some fts_query"
  shows "\<exists>index. lex_entry ` set (docs s) \<subseteq> set index \<and>
    fst (search_lex L engine q limit s) =
      (case engine index fts_query limit of None \<Rightarrow> Inl FtsError | Some rs \<Rightarrow> Inr (hydrate L (lex_prepare s) rs)) \<and>
    (\<forall>rs. \<forall>h \<in> set (hydrate L (lex_prepare s) rs). \<exists>d \<in> set (docs s). h = hit_of L (h_score h) d) \<and>
    docs (snd (search_lex L engine q limit s)) = docs s"
proof -
  obtain s1 x where *: "store_wf L s1" "tantivy s1 = Some x" "docs s1 = docs s" "lex_prepare s =
    s1\<lparr>tantivy := Some (x\<lparr>fi_committed := fts_docs x, fi_pending := []\<rparr>),
       fts_dir := (let d = (if fi_path x then (fts_dir s1)\<lparr>fd_docs := Some (fts_docs x)\<rparr> else fts_dir s1)
         in if 0 < max_id s1 \<and> fi_path x then d\<lparr>fd_last := max_id s1\<rparr> else d)\<rparr>"
    using lex_prepare_build [OF reach_wf [OF assms(1)]] by blast
  have "lex_entry ` set (docs s) \<subseteq> set (fts_docs x)" using *(1,2,3) by (simp add: store_wf_def open_wf_def)
  moreover have "fi_committed (the (tantivy (lex_prepare s))) = fts_docs x" by (simp add: *(4))
  moreover have d: "docs (lex_prepare s) = docs s" using *(3,4) by simp
  moreover have "\<exists>d \<in> set (docs s). h = hit_of L (h_score h) d" if "h \<in> set (hydrate L (lex_prepare s) rs)" for h rs
    using hydrate_rows [OF that] d by (auto simp: hit_of_def)
  ultimately show ?thesis
    using assms(2)
    by (intro exI [of _ "fts_docs x"]) (auto simp: search_lex_def Let_def simp del: set_append split: option.split)
qed

theorem search_lex_complete_witness:
  "\<exists>s index. store_reach lib0 s \<and> doc_ids s = {1} \<and> lex_entry ` set (docs s) \<subseteq> set index \<and>
    fst (search_lex lib0 (\<lambda>docs q limit. Some (map (\<lambda>d. (fst d, ())) docs)) (lit ''ab'') 5 s) =
      Inr (hydrate lib0 (lex_prepare s) (map (\<lambda>d. (fst d, ())) index))"
proof -
  have q: "fts5_match_query (lit ''ab'') = Some (lit ''ab'')"
    by (simp add: fts5_match_query_exact lit_def trim_def trim_start_def is_whitespace_def word_char_def
        is_ascii_alphanumeric_def is_ascii_digit_def is_ascii_uppercase_def is_ascii_lowercase_def)
  obtain s where s: "store_reach lib0 s" "doc_ids s = {1}" using sample_store by blast
  from search_lex_complete [OF s(1) q, of "\<lambda>docs q limit. Some (map (\<lambda>d. (fst d, ())) docs)" 5] s
  show ?thesis by auto
qed

text \<open>A put commits the document to the directory but not its id; a session that ends before the next
  search indexes it again, and every later search sees it twice.\<close>

lemma reopen_duplicates:
  assumes "put_inner L ts mts r sig crdt (store_open False store_migrate) = Inr (i, s)"
  shows "map fst (fi_committed (the (tantivy (store_open False s)))) = [i, i]"
  using assms
proof (cases rule: put_inner_cases)
  case old
  then show ?thesis by (simp add: find_hash_def store_open_def init_tantivy_warm_start_def store_migrate_def)
next
  case (new s1)
  note f = insert_doc_fields [OF new(2)]
  have o: "store_open False store_migrate = store_migrate\<lparr>tantivy := Some \<lparr>fi_path = True, fi_committed = [], fi_pending = []\<rparr>,
      fts_dir := \<lparr>fd_docs = Some [], fd_last = 0\<rparr>\<rparr>"
    by (simp add: store_open_def init_tantivy_warm_start_def fts_build_def fts_new_def store_migrate_def
        last_indexed_doc_id_def fts_commit_def Let_def)
  have "docs s = [new_row L ts r sig crdt (store_open False store_migrate)]" "i = 1"
      "fts_dir s = \<lparr>fd_docs = Some [(i, combined (r_title r) (r_text r))], fd_last = 0\<rparr>"
    by (simp_all add: new(3) f mirror_put_def fts_commit_def fts_add_def Let_def o) (simp_all add: store_migrate_def)
  then show ?thesis
    by (simp add: store_open_def init_tantivy_warm_start_def fts_build_def fts_new_def last_indexed_doc_id_def
        fts_commit_def fts_add_def Let_def o) (simp add: store_migrate_def)
qed

subsection \<open>The vector cache\<close>

definition cache_ok :: "store \<Rightarrow> bool" where
  "cache_ok s \<longleftrightarrow> (\<forall>c. turbo s = Some c \<longrightarrow> c = [] \<or> set c = set (docs_vec s))"

text \<open>The warm vector cache agrees with the table: building it, putting single documents and
  deleting keep it empty, dropped or equal to \<^verbatim>\<open>docs_vec\<close>.\<close>

theorem cache_coherent:
  assumes wf: "store_wf L s" and c: "cache_ok s"
  shows "cache_ok (warm_turbo s) \<and> (\<forall>ff i b s'. delete ff i s = Inr (b, s') \<longrightarrow> cache_ok s') \<and> cache_ok (snd (take_ndarray_search s)) \<and>
    (\<forall>ts mts r sig crdt i s'. put_inner L ts mts r sig crdt s = Inr (i, s') \<longrightarrow> cache_ok s')"
proof -
  have "cache_ok s'" if p: "put_inner L ts mts r sig crdt s = Inr (j, s')" for ts mts r sig crdt j s'
    using p
  proof (cases rule: put_inner_cases)
    case old
    then show ?thesis using c by (simp add: cache_ok_def)
  next
    case (new s1)
    note f = insert_doc_fields [OF new(2)]
    show ?thesis
    proof (cases "r_embedding r")
      case None
      then show ?thesis using c new(3) f by (simp add: cache_ok_def turbo_put_def insert_vec_def)
    next
      case (Some e)
      have "length e = EMBED_DIM" using put_inner_checks [OF p] Some by (simp add: check_dim_def split: if_splits)
      moreover have "\<forall>v \<in> set (docs_vec s). fst v \<noteq> j \<and> length (snd v) = EMBED_DIM"
      proof -
        have "j \<notin> doc_ids s" using wf f(1) by (auto simp: store_wf_def rows_wf_def)
        then show ?thesis using wf unfolding store_wf_def vec_wf_def by blast
      qed
      moreover have "hd k \<in> set k" if "k \<noteq> []" for k :: "(int \<times> embedding) list" using that by simp
      ultimately show ?thesis
        using c new(3) f Some
        by (auto simp: cache_ok_def turbo_put_def insert_vec_def add_row_def split: option.splits if_splits)
    qed
  qed
  moreover have "cache_ok (warm_turbo s)" using c by (auto simp: cache_ok_def warm_turbo_def split: option.splits)
  moreover have "cache_ok s'" if "delete ff i s = Inr (b, s')" for ff i b s'
    using c that by (auto simp: cache_ok_def delete_def Let_def split: if_splits)
  ultimately show ?thesis using c by (auto simp: cache_ok_def take_ndarray_search_def)
qed

theorem cache_coherent_witness:
  "cache_ok (warm_turbo store_migrate) \<and> cache_ok (snd (take_ndarray_search store_migrate))"
proof -
  have "cache_ok store_migrate" by (simp add: cache_ok_def store_migrate_def)
  from cache_coherent [OF store_migrate_wf [of lib0] this] show ?thesis by blast
qed

end
