(* ===== verification/Brain_Pack.thy ===== *)
theory Brain_Pack
  imports Synx_Format Doc_Store "HOL-Library.Sublist"
begin

text \<open>
  Backup packs: the signing helpers of \<^verbatim>\<open>crates/synapse-core/src/sign.rs\<close>, the \<^verbatim>\<open>BPK1\<close> packs of
  \<^verbatim>\<open>snap.rs\<close> (export, signed export, the imports and the merge of two packs) and the zstd wrapper of
  \<^verbatim>\<open>brainpack.rs\<close>. A file is its contents. BLAKE3, zstd, Ed25519 and SQLite's database images are
  arguments; a slice out of range is the error \<open>PackPanic\<close>. The merge works on the tables of
  \<open>Doc_Store\<close>.
\<close>

section \<open>Keys and signatures\<close>

record pack_lib =
  k_blake3 :: "bytes \<Rightarrow> bytes"
  k_encode :: "int \<Rightarrow> bytes \<Rightarrow> bytes option"
  k_decode :: "bytes \<Rightarrow> bytes option"
  k_public :: "bytes \<Rightarrow> bytes"
  k_sign :: "bytes \<Rightarrow> bytes \<Rightarrow> bytes"
  k_point :: "bytes \<Rightarrow> bool"
  k_verify :: "bytes \<Rightarrow> bytes \<Rightarrow> bytes \<Rightarrow> bool"

text \<open>What the code relies on: 32-byte digests and public keys that decode as points, 64-byte
  signatures that verify under the signer's key, decompression that undoes compression, and zstd
  frames that start with their magic number.\<close>

definition ZSTD_MAGIC :: bytes where
  "ZSTD_MAGIC = [0x28, 0xB5, 0x2F, 0xFD]"

definition pack_lib_ok :: "pack_lib \<Rightarrow> bool" where
  "pack_lib_ok K \<longleftrightarrow> (\<forall>d. length (k_blake3 K d) = 32) \<and>
     (\<forall>l d z. k_encode K l d = Some z \<longrightarrow> k_decode K z = Some d \<and> take 4 z = ZSTD_MAGIC) \<and>
     (\<forall>sk. length sk = 32 \<longrightarrow> length (k_public K sk) = 32 \<and> k_point K (k_public K sk) \<and>
        (\<forall>m. length (k_sign K sk m) = 64 \<and> k_verify K (k_public K sk) m (k_sign K sk m)))"

datatype pack_error =
    PackIo | PackTooShort | PackBadMagic | NotSigned | SignedTooShort | BadPubkey | BodyHashMismatch
  | SignatureInvalid | KeyMismatch | SizeMismatch | Blake3Mismatch | BadKeyLength | NotSynx | MergeFailed
  | PackPanic

definition keygen :: "pack_lib \<Rightarrow> bytes \<Rightarrow> bytes \<times> bytes" where
  "keygen K seed = (seed, k_public K seed)"

definition load_signing_key :: "bytes \<Rightarrow> pack_error + bytes" where
  "load_signing_key contents = (if length contents = 32 then Inr contents else Inl BadKeyLength)"

definition load_verifying_key :: "pack_lib \<Rightarrow> bytes \<Rightarrow> pack_error + bytes" where
  "load_verifying_key K contents =
     (if length contents \<noteq> 32 then Inl BadKeyLength
      else if k_point K contents then Inr contents else Inl BadPubkey)"

definition sign_bytes :: "pack_lib \<Rightarrow> bytes \<Rightarrow> bytes \<Rightarrow> bytes" where
  "sign_bytes K sk data = k_sign K sk data"

definition verify_bytes :: "pack_lib \<Rightarrow> bytes \<Rightarrow> bytes \<Rightarrow> bytes \<Rightarrow> pack_error + unit" where
  "verify_bytes K pk data sig = (if k_verify K pk data sig then Inr () else Inl SignatureInvalid)"

section \<open>Packs\<close>

definition PACK_MAGIC :: bytes where "PACK_MAGIC = as_bytes ''BPK1''"
definition PACK_VERSION :: byte where "PACK_VERSION = 1"
definition VERSION_SIGNED :: byte where "VERSION_SIGNED = 2"

text \<open>\<^verbatim>\<open>raw[i..j]\<close>, which panics when it is out of range.\<close>

definition index_range :: "bytes \<Rightarrow> nat \<Rightarrow> nat \<Rightarrow> pack_error + bytes" where
  "index_range raw i j = (if i \<le> j \<and> j \<le> length raw then Inr (slice raw i j) else Inl PackPanic)"

text \<open>\<open>data\<close> is what SQLite's backup of the live database wrote to the temporary file.\<close>

definition build_compressed :: "pack_lib \<Rightarrow> int \<Rightarrow> bytes \<Rightarrow> pack_error + bytes" where
  "build_compressed K level data = ok_or PackIo (k_encode K level data)"

definition export_signed :: "pack_lib \<Rightarrow> bytes \<Rightarrow> int \<Rightarrow> bytes \<Rightarrow> pack_error + bytes" where
  "export_signed K data level sk =
     and_then (build_compressed K level data) (\<lambda>compressed.
     let body_hash = k_blake3 K compressed;
         sig = sign_bytes K sk body_hash;
         vk = k_public K sk
     in Inr (PACK_MAGIC @ [VERSION_SIGNED] @ u32_le (word_of_int level) @ u64_le 0 @ body_hash @
             compressed @ vk @ sig))"

definition export_pack :: "pack_lib \<Rightarrow> bytes \<Rightarrow> int \<Rightarrow> pack_error + bytes" where
  "export_pack K data level =
     (let blake = k_blake3 K data in
      and_then (ok_or PackIo (k_encode K level data)) (\<lambda>compressed.
      Inr (PACK_MAGIC @ [PACK_VERSION] @ u32_le (word_of_int level) @ u64_le (word_of_nat (length data)) @
           blake @ compressed)))"

definition import_signed :: "pack_lib \<Rightarrow> bytes \<Rightarrow> bytes option \<Rightarrow> pack_error + (bytes \<times> bytes)" where
  "import_signed K raw expected_vk =
     and_then (index_range raw 0 4) (\<lambda>magic.
     if magic \<noteq> PACK_MAGIC then Inl PackBadMagic else
     and_then (index_range raw 4 5) (\<lambda>version.
     if version \<noteq> [VERSION_SIGNED] then Inl NotSigned else
     and_then (index_range raw 5 9) (\<lambda>_.
     and_then (index_range raw 17 49) (\<lambda>hash.
     if length raw < 49 + 96 then Inl SignedTooShort else
     and_then (index_range raw 49 (length raw - 96)) (\<lambda>body.
     and_then (index_range raw (length raw - 96) (length raw - 64)) (\<lambda>pubkey_bytes.
     and_then (index_range raw (length raw - 64) (length raw)) (\<lambda>sig_bytes.
     if \<not> k_point K pubkey_bytes then Inl BadPubkey else
     let actual = k_blake3 K body in
     if actual \<noteq> hash then Inl BodyHashMismatch else
     and_then (verify_bytes K pubkey_bytes actual sig_bytes) (\<lambda>_.
     if (case expected_vk of None \<Rightarrow> False | Some e \<Rightarrow> e \<noteq> pubkey_bytes) then Inl KeyMismatch else
     and_then (ok_or PackIo (k_decode K body)) (\<lambda>data.
     Inr (pubkey_bytes, data))))))))))"

text \<open>The length field is read as a 64-bit \<^verbatim>\<open>usize\<close>.\<close>

definition import_raw :: "pack_lib \<Rightarrow> bytes \<Rightarrow> pack_error + bytes" where
  "import_raw K raw =
     and_then (index_range raw 4 5) (\<lambda>_.
     and_then (index_range raw 5 9) (\<lambda>_.
     and_then (index_range raw 9 17) (\<lambda>len_bytes.
     let raw_len = unat (le_u64 len_bytes) in
     and_then (index_range raw 17 49) (\<lambda>hash.
     and_then (index_range raw 49 (length raw)) (\<lambda>body.
     and_then (ok_or PackIo (k_decode K body)) (\<lambda>data.
     if length data \<noteq> raw_len then Inl SizeMismatch
     else if k_blake3 K data \<noteq> hash then Inl Blake3Mismatch
     else Inr data))))))"

definition import_magic :: "pack_lib \<Rightarrow> bytes \<Rightarrow> pack_error + bytes" where
  "import_magic K raw =
     (if length raw < 5 then Inl PackTooShort
      else if slice raw 0 4 \<noteq> PACK_MAGIC then Inl PackBadMagic
      else if raw ! 4 = VERSION_SIGNED then
        (if length raw < 96 then Inl PackPanic
         else and_then (index_range raw 49 (length raw - 96)) (\<lambda>body. ok_or PackIo (k_decode K body)))
      else import_raw K raw)"

definition import_pack :: "pack_lib \<Rightarrow> bytes \<Rightarrow> pack_error + bytes" where
  "import_pack K raw = import_magic K raw"

section \<open>The zstd wrapper of .synx files\<close>

definition bytes_start_with :: "bytes \<Rightarrow> bytes \<Rightarrow> bool" where
  "bytes_start_with buf pre \<longleftrightarrow> take (length pre) buf = pre"

definition pack_synx :: "pack_lib \<Rightarrow> bytes \<Rightarrow> pack_error + (bytes \<times> nat)" where
  "pack_synx K buf =
     (if \<not> bytes_start_with buf MAGIC then Inl NotSynx
      else and_then (ok_or PackIo (k_encode K 19 buf)) (\<lambda>compressed. Inr (compressed, length compressed)))"

definition unpack_synx :: "pack_lib \<Rightarrow> bytes \<Rightarrow> pack_error + (bytes \<times> nat)" where
  "unpack_synx K buf =
     and_then (if bytes_start_with buf MAGIC then Inr buf else ok_or PackIo (k_decode K buf)) (\<lambda>data.
     if \<not> bytes_start_with data MAGIC then Inl NotSynx else Inr (data, length data))"

section \<open>Merging packs\<close>

text \<open>\<^verbatim>\<open>INSERT OR IGNORE INTO docs\<close> of a row of the other pack; \<open>burn\<close>: whether an ignored insertion
  uses up an id, which SQLite leaves open.\<close>

definition insert_or_ignore :: "bool \<Rightarrow> doc_row \<Rightarrow> store \<Rightarrow> store" where
  "insert_or_ignore burn r s =
     (if d_blake3 r \<in> d_blake3 ` set (docs s) \<or> d_uri r \<noteq> None \<and> d_uri r \<in> d_uri ` set (docs s)
      then s\<lparr>docs_seq := docs_seq s + (if burn then 1 else 0)\<rparr>
      else let d = r\<lparr>d_id := docs_seq s + 1\<rparr> in
        s\<lparr>docs := docs s @ [d], docs_seq := docs_seq s + 1,
          docs_fts := docs_fts s @ (if docs_ai s then [fts_row d] else [])\<rparr>)"

definition find_existing :: "doc_row \<Rightarrow> store \<Rightarrow> doc_row option" where
  "find_existing r s =
     (case d_uri r of
        Some u \<Rightarrow> find (\<lambda>d. d_uri d = Some u) (docs s)
      | None \<Rightarrow> find (\<lambda>d. d_blake3 d = d_blake3 r) (docs s))"

text \<open>The update of \<^verbatim>\<open>meta_crdt\<close> is the one of \<^verbatim>\<open>Store::merge_crdt\<close>, on an FTS index that
  accepts it (\<open>fts_fails\<close> of \<open>merge_crdt\<close> is \<open>False\<close>).\<close>

definition merge_row :: "(bytes \<Rightarrow> bytes \<Rightarrow> bytes option) \<Rightarrow> bool \<Rightarrow> doc_row \<Rightarrow> store \<Rightarrow> store_error + store" where
  "merge_row merge_meta burn r s =
     (case find_existing r s of
        Some d \<Rightarrow> (case d_crdt r of None \<Rightarrow> Inr s | Some b \<Rightarrow> merge_crdt merge_meta False (d_id d) b s)
      | None \<Rightarrow> Inr (insert_or_ignore burn r s))"

fun merge_rows :: "(bytes \<Rightarrow> bytes \<Rightarrow> bytes option) \<Rightarrow> bool \<Rightarrow> doc_row list \<Rightarrow> store \<Rightarrow> store_error + store" where
  "merge_rows merge_meta burn [] s = Inr s"
| "merge_rows merge_meta burn (r # rs) s =
     and_then (merge_row merge_meta burn r s) (merge_rows merge_meta burn rs)"

text \<open>\<open>load\<close> opens a database image and \<open>img\<close> is the backup of a database.\<close>

definition merge_packs ::
  "pack_lib \<Rightarrow> (bytes \<Rightarrow> store option) \<Rightarrow> (store \<Rightarrow> bytes) \<Rightarrow> (bytes \<Rightarrow> bytes \<Rightarrow> bytes option) \<Rightarrow> bool \<Rightarrow>
   bytes \<Rightarrow> bytes \<Rightarrow> int \<Rightarrow> pack_error + bytes" where
  "merge_packs K load img merge_meta burn pack_a pack_b level =
     and_then (import_magic K pack_a) (\<lambda>db_a.
     and_then (import_magic K pack_b) (\<lambda>db_b.
     and_then (ok_or PackIo (load db_a)) (\<lambda>out.
     and_then (ok_or PackIo (load db_b)) (\<lambda>b.
     and_then (case merge_rows merge_meta burn (docs b) out of Inl _ \<Rightarrow> Inl MergeFailed | Inr s \<Rightarrow> Inr s) (\<lambda>s.
     export_pack K (img s) level)))))"

section \<open>Packs are read back\<close>

lemma pack_lib_okD:
  assumes "pack_lib_ok K"
  shows "length (k_blake3 K d) = 32" "k_encode K l d = Some z \<Longrightarrow> k_decode K z = Some d"
    "k_encode K l d = Some z \<Longrightarrow> take 4 z = ZSTD_MAGIC"
    "length sk = 32 \<Longrightarrow> length (k_public K sk) = 32" "length sk = 32 \<Longrightarrow> k_point K (k_public K sk)"
    "length sk = 32 \<Longrightarrow> length (k_sign K sk m) = 64"
    "length sk = 32 \<Longrightarrow> k_verify K (k_public K sk) m (k_sign K sk m)"
  using assms unfolding pack_lib_ok_def by blast+

lemma length_PACK_MAGIC [simp, codec_simps]: "length PACK_MAGIC = 4"
  by (simp add: PACK_MAGIC_def)

lemma ok_or_Inr_iff: "ok_or e v = Inr x \<longleftrightarrow> v = Some x"
  by (cases v) (simp_all add: ok_or_def)

text \<open>A range cut out of a concatenation at the ends of its parts.\<close>

lemma index_range_mid:
  "length a = i \<Longrightarrow> i + length b = j \<Longrightarrow> index_range (a @ b @ c) i j = Inr b"
  by (auto simp: index_range_def slice_def)

lemma index_range_last:
  "length a = i \<Longrightarrow> i + length b = j \<Longrightarrow> index_range (a @ b) i j = Inr b"
  using index_range_mid [of a i b j "[]"] by simp

lemma index_range_InrD: "index_range raw i j = Inr x \<Longrightarrow> i \<le> j \<and> j \<le> length raw \<and> x = slice raw i j"
  by (auto simp: index_range_def split: if_splits)

text \<open>The layout of the two packs.\<close>

definition pack_bytes :: "byte \<Rightarrow> bytes \<Rightarrow> bytes \<Rightarrow> bytes \<Rightarrow> bytes \<Rightarrow> bytes" where
  "pack_bytes v lvl len hash tail = PACK_MAGIC @ [v] @ lvl @ len @ hash @ tail"

lemma pack_bytes_ranges:
  assumes "length lvl = 4" "length len = 8" "length hash = 32"
  shows "index_range (pack_bytes v lvl len hash tail) 0 4 = Inr PACK_MAGIC"
    "index_range (pack_bytes v lvl len hash tail) 4 5 = Inr [v]"
    "index_range (pack_bytes v lvl len hash tail) 5 9 = Inr lvl"
    "index_range (pack_bytes v lvl len hash tail) 9 17 = Inr len"
    "index_range (pack_bytes v lvl len hash tail) 17 49 = Inr hash"
    "index_range (pack_bytes v lvl len hash tail) 49 (49 + length tail) = Inr tail"
    "length (pack_bytes v lvl len hash tail) = 49 + length tail"
    "slice (pack_bytes v lvl len hash tail) 0 4 = PACK_MAGIC"
    "pack_bytes v lvl len hash tail ! 4 = v"
proof -
  let ?p = "pack_bytes v lvl len hash tail"
  show "index_range ?p 0 4 = Inr PACK_MAGIC"
    using index_range_mid [of "[]" 0 PACK_MAGIC 4 "[v] @ lvl @ len @ hash @ tail"] by (simp add: pack_bytes_def)
  show "index_range ?p 4 5 = Inr [v]"
    using index_range_mid [of PACK_MAGIC 4 "[v]" 5 "lvl @ len @ hash @ tail"] by (simp add: pack_bytes_def)
  show "index_range ?p 5 9 = Inr lvl"
    using index_range_mid [of "PACK_MAGIC @ [v]" 5 lvl 9 "len @ hash @ tail"] assms by (simp add: pack_bytes_def)
  show "index_range ?p 9 17 = Inr len"
    using index_range_mid [of "PACK_MAGIC @ [v] @ lvl" 9 len 17 "hash @ tail"] assms by (simp add: pack_bytes_def)
  show "index_range ?p 17 49 = Inr hash"
    using index_range_mid [of "PACK_MAGIC @ [v] @ lvl @ len" 17 hash 49 tail] assms by (simp add: pack_bytes_def)
  show "index_range ?p 49 (49 + length tail) = Inr tail"
    using index_range_last [of "PACK_MAGIC @ [v] @ lvl @ len @ hash" 49 tail] assms by (simp add: pack_bytes_def)
  show "length ?p = 49 + length tail" "slice ?p 0 4 = PACK_MAGIC" "?p ! 4 = v"
    using assms by (simp_all add: pack_bytes_def nth_append)
qed

lemma pack_bytes_trailer:
  assumes "length lvl = 4" "length len = 8" "length hash = 32" "length pk = 32" "length sig = 64"
  shows "index_range (pack_bytes v lvl len hash (body @ pk @ sig)) 49 (49 + length body) = Inr body"
    "index_range (pack_bytes v lvl len hash (body @ pk @ sig)) (49 + length body) (81 + length body) = Inr pk"
    "index_range (pack_bytes v lvl len hash (body @ pk @ sig)) (81 + length body) (145 + length body) = Inr sig"
proof -
  let ?h = "PACK_MAGIC @ [v] @ lvl @ len @ hash"
  show "index_range (pack_bytes v lvl len hash (body @ pk @ sig)) 49 (49 + length body) = Inr body"
    using index_range_mid [of ?h 49 body _ "pk @ sig"] assms by (simp add: pack_bytes_def)
  show "index_range (pack_bytes v lvl len hash (body @ pk @ sig)) (49 + length body) (81 + length body) = Inr pk"
    using index_range_mid [of "?h @ body" "49 + length body" pk _ sig] assms by (simp add: pack_bytes_def)
  show "index_range (pack_bytes v lvl len hash (body @ pk @ sig)) (81 + length body) (145 + length body) = Inr sig"
    using index_range_last [of "?h @ body @ pk" "81 + length body" sig] assms by (simp add: pack_bytes_def)
qed

lemma import_export:
  assumes ok: "pack_lib_ok K" and z: "k_encode K level data = Some z" and len: "length data < 2 ^ 64"
  shows "and_then (export_pack K data level) (import_pack K) = Inr data"
proof -
  define p where "p = pack_bytes PACK_VERSION (u32_le (word_of_int level)) (u64_le (word_of_nat (length data))) (k_blake3 K data) z"
  have e: "export_pack K data level = Inr p" using z by (simp add: export_pack_def ok_or_def p_def pack_bytes_def Let_def)
  have d: "k_decode K z = Some data" using pack_lib_okD(2) [OF ok z] .
  have r: "index_range p 0 4 = Inr PACK_MAGIC" "index_range p 4 5 = Inr [PACK_VERSION]"
      "index_range p 5 9 = Inr (u32_le (word_of_int level))" "index_range p 9 17 = Inr (u64_le (word_of_nat (length data)))"
      "index_range p 17 49 = Inr (k_blake3 K data)" "index_range p 49 (49 + length z) = Inr z"
      "length p = 49 + length z" "slice p 0 4 = PACK_MAGIC" "p ! 4 = PACK_VERSION"
    unfolding p_def by (rule pack_bytes_ranges; simp add: pack_lib_okD(1) [OF ok])+
  have l: "unat (word_of_nat (length data) :: u64) = length data" using len by (rule unat_u64_of_nat)
  show ?thesis
    using r d l by (simp add: e import_pack_def import_magic_def import_raw_def ok_or_def PACK_VERSION_def VERSION_SIGNED_def)
qed

lemma import_signed_layout:
  assumes "length lvl = 4" "length len = 8" "length hash = 32" "length pk = 32" "length sig = 64"
  shows "import_signed K (pack_bytes VERSION_SIGNED lvl len hash (body @ pk @ sig)) expected =
    (if \<not> k_point K pk then Inl BadPubkey
     else if k_blake3 K body \<noteq> hash then Inl BodyHashMismatch
     else if \<not> k_verify K pk (k_blake3 K body) sig then Inl SignatureInvalid
     else if (case expected of None \<Rightarrow> False | Some e \<Rightarrow> e \<noteq> pk) then Inl KeyMismatch
     else case k_decode K body of None \<Rightarrow> Inl PackIo | Some data \<Rightarrow> Inr (pk, data))"
proof -
  define p where "p = pack_bytes VERSION_SIGNED lvl len hash (body @ pk @ sig)"
  have r: "index_range p 0 4 = Inr PACK_MAGIC" "index_range p 4 5 = Inr [VERSION_SIGNED]"
      "index_range p 5 9 = Inr lvl" "index_range p 17 49 = Inr hash"
    unfolding p_def using assms by (intro pack_bytes_ranges; simp)+
  have n: "length p = 145 + length body"
    unfolding p_def using assms pack_bytes_ranges(7) [of lvl len hash _ "body @ pk @ sig"] by simp
  note t = pack_bytes_trailer [OF assms, of VERSION_SIGNED body, folded p_def]
  show ?thesis
    unfolding p_def [symmetric] import_signed_def
    by (simp add: r t n verify_bytes_def ok_or_def Let_def split: option.split)
qed

text \<open>Cutting a long enough file into the parts of a signed pack.\<close>

lemma signed_parts:
  assumes "index_range raw 0 4 = Inr PACK_MAGIC" "index_range raw 4 5 = Inr [v]" "145 \<le> length raw"
  shows "raw = pack_bytes v (slice raw 5 9) (slice raw 9 17) (slice raw 17 49)
    (slice raw 49 (length raw - 96) @ slice raw (length raw - 96) (length raw - 64) @ slice raw (length raw - 64) (length raw))"
proof -
  have cut: "drop i raw = slice raw i j @ drop j raw" if "i \<le> j" for i j
    using that by (metis append_take_drop_id drop_drop le_add_diff_inverse2 slice_def)
  have m: "take 4 raw = PACK_MAGIC" "slice raw 4 5 = [v]"
    using assms(1,2) by (auto simp: index_range_def slice_def split: if_splits)
  have "raw = take 4 raw @ drop 4 raw" by simp
  also have "drop 4 raw = [v] @ drop 5 raw" using cut [of 4 5] m(2) by simp
  also have "drop 5 raw = slice raw 5 9 @ slice raw 9 17 @ slice raw 17 49 @ drop 49 raw"
    using cut [of 5 9] cut [of 9 17] cut [of 17 49] by simp
  also have "drop 49 raw = slice raw 49 (length raw - 96) @ drop (length raw - 96) raw"
    using assms(3) by (intro cut) simp
  also have "drop (length raw - 96) raw = slice raw (length raw - 96) (length raw - 64) @ drop (length raw - 64) raw"
    by (intro cut) simp
  also have "drop (length raw - 64) raw = slice raw (length raw - 64) (length raw)" by (simp add: slice_def)
  finally show ?thesis by (simp add: pack_bytes_def m(1))
qed

text \<open>C24. Importing a pack made by either export gives back the database image, and for a signed pack the
  public key of the signer too.\<close>

theorem packs_round_trip:
  assumes "pack_lib_ok K" "k_encode K level data = Some z" "length data < 2 ^ 64" "length sk = 32"
  shows "and_then (export_pack K data level) (import_pack K) = Inr data \<and>
    and_then (export_signed K data level sk) (\<lambda>raw. import_signed K raw (Some (k_public K sk))) = Inr (k_public K sk, data) \<and>
    and_then (export_signed K data level sk) (import_pack K) = Inr data"
proof (intro conjI)
  show "and_then (export_pack K data level) (import_pack K) = Inr data" by (rule import_export [OF assms(1-3)])
  define p where "p = pack_bytes VERSION_SIGNED (u32_le (word_of_int level)) (u64_le 0) (k_blake3 K z)
    (z @ k_public K sk @ k_sign K sk (k_blake3 K z))"
  note L = pack_lib_okD [OF assms(1)]
  have e: "export_signed K data level sk = Inr p"
    by (simp add: export_signed_def build_compressed_def assms(2) ok_or_def p_def pack_bytes_def sign_bytes_def Let_def)
  show "and_then (export_signed K data level sk) (\<lambda>raw. import_signed K raw (Some (k_public K sk))) = Inr (k_public K sk, data)"
    unfolding e and_then.simps p_def
    by (subst import_signed_layout) (simp_all add: L(1) L(4-7) [OF assms(4)] L(2) [OF assms(2)])
  have r: "slice p 0 4 = PACK_MAGIC" "p ! 4 = VERSION_SIGNED" "length p = 145 + length z"
    unfolding p_def
    using pack_bytes_ranges(7-9) [of "u32_le (word_of_int level)" "u64_le 0" "k_blake3 K z" VERSION_SIGNED
        "z @ k_public K sk @ k_sign K sk (k_blake3 K z)"]
    by (simp_all add: L(1) L(4,6) [OF assms(4)])
  have t: "index_range p 49 (49 + length z) = Inr z"
    unfolding p_def by (rule pack_bytes_trailer) (simp_all add: L(1) L(4,6) [OF assms(4)])
  show "and_then (export_signed K data level sk) (import_pack K) = Inr data"
    using r t L(2) [OF assms(2)] by (simp add: e import_pack_def import_magic_def ok_or_def)
qed

definition pack_lib0 :: pack_lib where
  "pack_lib0 = \<lparr>k_blake3 = \<lambda>_. replicate 32 7, k_encode = \<lambda>_ d. Some (ZSTD_MAGIC @ d), k_decode = \<lambda>z. Some (drop 4 z),
     k_public = \<lambda>sk. sk, k_sign = \<lambda>sk m. replicate 64 9, k_point = \<lambda>_. True, k_verify = \<lambda>_ _ s. s = replicate 64 9\<rparr>"

lemma pack_lib0_ok: "pack_lib_ok pack_lib0"
  by (simp add: pack_lib_ok_def pack_lib0_def ZSTD_MAGIC_def)

theorem packs_round_trip_witness:
  "and_then (export_pack pack_lib0 [1, 2, 3] 3) (import_pack pack_lib0) = Inr [1, 2, 3]"
  by (rule packs_round_trip [of pack_lib0 3 "[1, 2, 3]" "ZSTD_MAGIC @ [1, 2, 3]" "replicate 32 0", OF pack_lib0_ok, THEN conjunct1])
    (simp_all add: pack_lib0_def)

text \<open>C25. A file passes the signed import exactly when it is laid out as a signed pack whose stored hash is
  that of its body, whose signature of that hash verifies under the embedded key, which is the expected
  one, and whose body decompresses; the result is that key and the decompressed body.\<close>

theorem import_signed_exact:
  "import_signed K raw expected = Inr (pk, data) \<longleftrightarrow>
     (\<exists>lvl len body sig. raw = PACK_MAGIC @ [VERSION_SIGNED] @ lvl @ len @ k_blake3 K body @ body @ pk @ sig \<and>
        length lvl = 4 \<and> length len = 8 \<and> length (k_blake3 K body) = 32 \<and> length pk = 32 \<and> length sig = 64 \<and>
        k_point K pk \<and> k_verify K pk (k_blake3 K body) sig \<and> expected \<in> {None, Some pk} \<and> k_decode K body = Some data)"
    (is "?L \<longleftrightarrow> ?R")
proof
  assume ?R
  then obtain lvl len body sig where p: "raw = PACK_MAGIC @ [VERSION_SIGNED] @ lvl @ len @ k_blake3 K body @ body @ pk @ sig"
    and l: "length lvl = 4" "length len = 8" "length (k_blake3 K body) = 32" "length pk = 32" "length sig = 64"
    and c: "k_point K pk" "k_verify K pk (k_blake3 K body) sig" "expected \<in> {None, Some pk}" "k_decode K body = Some data"
    by blast
  show ?L
    unfolding p using c import_signed_layout [OF l, of K body expected] by (auto simp: pack_bytes_def)
next
  assume L: ?L
  then have h: "index_range raw 0 4 = Inr PACK_MAGIC" "index_range raw 4 5 = Inr [VERSION_SIGNED]" "145 \<le> length raw"
    by (auto simp: import_signed_def and_then_Inr_iff split: if_splits)
  define lvl len hash body pk' sig where parts: "lvl = slice raw 5 9" "len = slice raw 9 17" "hash = slice raw 17 49"
    "body = slice raw 49 (length raw - 96)" "pk' = slice raw (length raw - 96) (length raw - 64)"
    "sig = slice raw (length raw - 64) (length raw)"
  have l: "length lvl = 4" "length len = 8" "length hash = 32" "length pk' = 32" "length sig = 64"
    using h(3) by (simp_all add: parts)
  have p: "raw = pack_bytes VERSION_SIGNED lvl len hash (body @ pk' @ sig)"
    unfolding parts by (rule signed_parts [OF h])
  from L have "import_signed K (pack_bytes VERSION_SIGNED lvl len hash (body @ pk' @ sig)) expected = Inr (pk, data)"
    by (simp add: p [symmetric])
  then have "k_point K pk' \<and> k_blake3 K body = hash \<and> k_verify K pk' (k_blake3 K body) sig \<and> expected \<in> {None, Some pk'}
      \<and> k_decode K body = Some data \<and> pk' = pk"
    unfolding import_signed_layout [OF l] by (auto split: if_splits option.splits)
  with p l show ?R unfolding pack_bytes_def by blast
qed

text \<open>The plain import checks neither the hash nor the signature of a signed pack, and panics on files
  that are too short.\<close>

lemma import_ignores_signature:
  assumes "length lvl = 4" "length len = 8" "length hash = 32" "length pk = 32" "length sig = 64"
  shows "import_pack K (pack_bytes VERSION_SIGNED lvl len hash (body @ pk @ sig)) = ok_or PackIo (k_decode K body)"
  using pack_bytes_ranges(7-9) [OF assms(1-3), of VERSION_SIGNED "body @ pk @ sig"]
    pack_bytes_trailer(1) [OF assms, of VERSION_SIGNED body] assms
  by (simp add: import_pack_def import_magic_def)

lemma short_packs_panic:
  "length raw < 4 \<Longrightarrow> import_signed K raw expected = Inl PackPanic"
  "5 \<le> length raw \<Longrightarrow> slice raw 0 4 = PACK_MAGIC \<Longrightarrow> length raw < 49 \<Longrightarrow> import_pack K raw = Inl PackPanic"
proof -
  show "import_signed K raw expected = Inl PackPanic" if "length raw < 4"
    using that by (simp add: import_signed_def index_range_def)
  show "import_pack K raw = Inl PackPanic" if "5 \<le> length raw" "slice raw 0 4 = PACK_MAGIC" "length raw < 49"
    using that by (simp add: import_pack_def import_magic_def import_raw_def index_range_def)
qed

text \<open>The wrapper: packing and unpacking a \<^verbatim>\<open>.synx\<close> file.\<close>

lemma pack_synx_round_trip:
  assumes "pack_lib_ok K" "pack_synx K buf = Inr (z, n)"
  shows "n = length z" "unpack_synx K z = Inr (buf, length buf)" "unpack_synx K buf = Inr (buf, length buf)"
proof -
  from assms(2) have z: "k_encode K 19 buf = Some z" "n = length z" and m: "bytes_start_with buf MAGIC"
    by (auto simp: pack_synx_def and_then_Inr_iff ok_or_Inr_iff split: if_splits)
  have "take 4 z = ZSTD_MAGIC" "k_decode K z = Some buf" using pack_lib_okD [OF assms(1)] z(1) by blast+
  moreover have "ZSTD_MAGIC \<noteq> MAGIC" "length MAGIC = 4" by (simp_all add: ZSTD_MAGIC_def MAGIC_def as_bytes_def)
  ultimately have "\<not> bytes_start_with z MAGIC" by (simp add: bytes_start_with_def)
  then show "n = length z" "unpack_synx K z = Inr (buf, length buf)" "unpack_synx K buf = Inr (buf, length buf)"
    using z m \<open>k_decode K z = Some buf\<close> by (simp_all add: unpack_synx_def ok_or_def)
qed

section \<open>Merged packs\<close>

text \<open>A row without its id and its CRDT state.\<close>

definition doc_content :: "doc_row \<Rightarrow> doc_row" where
  "doc_content d = d\<lparr>d_id := 0, d_crdt := None\<rparr>"

text \<open>The row \<open>r\<close> is represented in \<open>s\<close>: by a document of its uri or of its hash.\<close>

definition represented :: "doc_row \<Rightarrow> store \<Rightarrow> bool" where
  "represented r s \<longleftrightarrow> (\<exists>d \<in> set (docs s). d_uri r \<noteq> None \<and> d_uri d = d_uri r \<or> d_blake3 d = d_blake3 r)"

lemma doc_content_sel [simp]:
  "d_uri (doc_content d) = d_uri d" "d_blake3 (doc_content d) = d_blake3 d" "doc_content (d\<lparr>d_crdt := c\<rparr>) = doc_content d"
  "doc_content (d\<lparr>d_id := i\<rparr>) = doc_content d"
  by (simp_all add: doc_content_def)

lemma represented_content:
  "represented r s \<longleftrightarrow>
     (\<exists>d \<in> doc_content ` set (docs s). d_uri r \<noteq> None \<and> d_uri d = d_uri r \<or> d_blake3 d = d_blake3 r)"
  by (auto simp: represented_def)

lemma merge_crdt_content:
  assumes "merge_crdt merge_meta False i b s = Inr s'"
  shows "map doc_content (docs s') = map doc_content (docs s)" "map d_id (docs s') = map d_id (docs s)"
    "map d_blake3 (docs s') = map d_blake3 (docs s)" "map d_uri (docs s') = map d_uri (docs s)"
    "map d_text (docs s') = map d_text (docs s)" "docs_seq s' = docs_seq s"
  using assms by (auto simp: merge_crdt_def split: option.splits)

lemma find_existing_None: "find_existing r s = None \<Longrightarrow> represented r s \<Longrightarrow>
    d_blake3 r \<in> d_blake3 ` set (docs s)"
  by (cases "d_uri r") (simp_all add: find_existing_def represented_def find_None_iff image_iff, metis+)

text \<open>One step adds at most the row, and only if it is not represented.\<close>

lemma merge_row_content:
  assumes "merge_row merge_meta burn r s = Inr s'"
  shows "map doc_content (docs s') = map doc_content (docs s) @ (if represented r s then [] else [doc_content r])"
    "represented r s'"
proof -
  have "map doc_content (docs s') = map doc_content (docs s) @ (if represented r s then [] else [doc_content r])
     \<and> represented r s'"
  proof (cases "find_existing r s")
    case None
    have u: "d_uri r \<notin> d_uri ` set (docs s)" if "d_uri r \<noteq> None"
      using None that by (auto simp: find_existing_def find_None_iff)
    have "represented r s \<longleftrightarrow> d_blake3 r \<in> d_blake3 ` set (docs s)"
      using find_existing_None [OF None] by (auto simp: represented_def)
    moreover have "s' = insert_or_ignore burn r s" using assms None by (simp add: merge_row_def)
    ultimately show ?thesis
      using u by (auto simp: insert_or_ignore_def Let_def represented_def)
  next
    case (Some d)
    then have r: "represented r s"
      by (cases "d_uri r") (auto simp: find_existing_def represented_def find_Some_iff)
    have "map doc_content (docs s') = map doc_content (docs s)"
      using assms Some merge_crdt_content(1) by (auto simp: merge_row_def split: option.splits)
    moreover from this have "represented r s'"
      using r unfolding represented_content by (metis list.set_map)
    ultimately show ?thesis using r by simp
  qed
  then show "map doc_content (docs s') = map doc_content (docs s) @ (if represented r s then [] else [doc_content r])"
    "represented r s'" by simp_all
qed

lemma represented_mono:
  "represented r s \<Longrightarrow> map doc_content (docs s') = map doc_content (docs s) @ xs \<Longrightarrow> represented r s'"
proof -
  assume r: "represented r s" and e: "map doc_content (docs s') = map doc_content (docs s) @ xs"
  have "doc_content ` set (docs s) \<subseteq> doc_content ` set (docs s')"
    using arg_cong [OF e, of set] by auto
  with r show ?thesis unfolding represented_content by blast
qed

lemma merge_rows_content:
  "merge_rows merge_meta burn rs s = Inr s' \<Longrightarrow>
     (\<exists>added. map doc_content (docs s') = map doc_content (docs s) @ map doc_content added \<and> subseq added rs) \<and>
     (\<forall>r \<in> set rs. represented r s')"
proof (induction rs arbitrary: s)
  case (Cons r rs)
  from Cons.prems obtain s1 where s1: "merge_row merge_meta burn r s = Inr s1" "merge_rows merge_meta burn rs s1 = Inr s'"
    by (auto simp: and_then_Inr_iff)
  obtain added where a: "map doc_content (docs s') = map doc_content (docs s1) @ map doc_content added" "subseq added rs"
    "\<forall>r \<in> set rs. represented r s'" using Cons.IH [OF s1(2)] by blast
  have r: "represented r s'" using represented_mono [OF merge_row_content(2) [OF s1(1)] a(1)] .
  have "map doc_content (docs s') = map doc_content (docs s) @ map doc_content ((if represented r s then [] else [r]) @ added)"
    using a(1) merge_row_content(1) [OF s1(1)] by simp
  moreover have "subseq ((if represented r s then [] else [r]) @ added) (r # rs)" using a(2) by auto
  ultimately have "\<exists>added. map doc_content (docs s') = map doc_content (docs s) @ map doc_content added \<and> subseq added (r # rs)"
    by blast
  then show ?case using a(3) r by simp
qed (auto intro: exI [of _ "[]"])

text \<open>Merging a second time adds nothing.\<close>

lemma merge_rows_represented:
  "\<forall>r \<in> set rs. represented r s \<Longrightarrow> merge_rows merge_meta burn rs s = Inr s' \<Longrightarrow>
     map doc_content (docs s') = map doc_content (docs s)"
proof (induction rs arbitrary: s)
  case (Cons r rs)
  from Cons.prems(2) obtain s1 where s1: "merge_row merge_meta burn r s = Inr s1" "merge_rows merge_meta burn rs s1 = Inr s'"
    by (auto simp: and_then_Inr_iff)
  have e: "map doc_content (docs s1) = map doc_content (docs s)"
    using merge_row_content(1) [OF s1(1)] Cons.prems(1) by simp
  have "\<forall>r \<in> set rs. represented r s1"
    using Cons.prems(1) represented_mono [of _ s s1 "[]"] e by simp
  from Cons.IH [OF this s1(2)] e show ?case by simp
qed simp

text \<open>A row whose uri is taken changes no text: the second pack's version of the document is dropped.\<close>

lemma merge_drops_text:
  assumes "d \<in> set (docs s)" "d_uri d = d_uri r" "d_uri r \<noteq> None" "d_crdt r = None"
  shows "merge_row merge_meta burn r s = Inr s"
proof -
  obtain u where u: "d_uri r = Some u" using assms(3) by blast
  have "find_existing r s \<noteq> None" using assms(1,2) u by (auto simp: find_existing_def find_None_iff)
  then show ?thesis using assms(4) by (auto simp: merge_row_def)
qed

lemma insert_or_ignore_wf:
  assumes wf: "store_wf L s" and t: "tantivy s = None" and h: "d_blake3 r = store_lib.blake3 L (utf8 (d_text r))"
  shows "store_wf L (insert_or_ignore burn r s)"
proof (cases "d_blake3 r \<in> d_blake3 ` set (docs s) \<or> d_uri r \<noteq> None \<and> d_uri r \<in> d_uri ` set (docs s)")
  case True
  define q where "q = docs_seq s + (if burn then 1 else 0)"
  have "docs_seq s \<le> q" by (simp add: q_def)
  moreover have "insert_or_ignore burn r s = s\<lparr>docs_seq := q\<rparr>" unfolding insert_or_ignore_def q_def by (simp only: if_P [OF True])
  ultimately show ?thesis using wf by (auto simp: store_wf_defs)
next
  case False
  define d where "d = r\<lparr>d_id := docs_seq s + 1\<rparr>"
  define s' where "s' = s\<lparr>docs := docs s @ [d], docs_seq := docs_seq s + 1, docs_fts := docs_fts s @ [fts_row d]\<rparr>"
  have ai: "docs_ai s" using wf by (simp add: store_wf_defs)
  have e: "insert_or_ignore burn r s = s'"
    unfolding insert_or_ignore_def by (simp only: if_not_P [OF False]) (simp add: ai Let_def d_def s'_def)
  have rows: "rows_wf L s" "fts_wf s" "vec_wf s" "memory_wf s" "disk_wf s" using wf by (simp_all add: store_wf_def)
  have new: "\<forall>d \<in> set (docs s). d_id d \<noteq> docs_seq s + 1" using rows(1) by (auto simp: rows_wf_def)
  have "rows_wf L s'"
    using rows(1) False h by (auto simp: rows_wf_def s'_def d_def sorted_wrt_append)
  moreover have "vec_wf s'" by (rule vec_wf_mono [OF rows(3)]) (auto simp: s'_def)
  moreover have "fts_wf s'" using rows(2) new by (auto simp: fts_wf_def s'_def d_def fts_row_def)
  moreover have "memory_wf s'" by (rule memory_wf_mono [OF rows(4)]) (auto simp: s'_def)
  moreover have "disk_wf s'" by (rule disk_wf_grow [OF rows(5)]) (auto simp: s'_def d_def)
  moreover have "open_wf s'" by (simp add: open_wf_def s'_def t)
  ultimately show ?thesis by (simp add: e store_wf_def)
qed

lemma merge_row_wf:
  assumes wf: "store_wf L s" and t: "tantivy s = None" and h: "d_blake3 r = store_lib.blake3 L (utf8 (d_text r))"
    and m: "merge_row merge_meta burn r s = Inr s'"
  shows "store_wf L s' \<and> tantivy s' = None"
proof (cases "find_existing r s")
  case None
  then have "s' = insert_or_ignore burn r s" using m by (simp add: merge_row_def)
  then show ?thesis using insert_or_ignore_wf [OF wf t h] t by (simp add: insert_or_ignore_def Let_def)
next
  case (Some d)
  show ?thesis
  proof (cases "d_crdt r")
    case (Some b)
    then have "merge_crdt merge_meta False (d_id d) b s = Inr s'" using m \<open>find_existing r s = Some d\<close> by (simp add: merge_row_def)
    then show ?thesis using merge_crdt_wf [OF wf] t by (auto simp: merge_crdt_def split: option.splits)
  qed (use m \<open>find_existing r s = Some d\<close> wf t in \<open>simp add: merge_row_def\<close>)
qed

lemma merge_rows_wf:
  "store_wf L s \<Longrightarrow> tantivy s = None \<Longrightarrow> \<forall>r \<in> set rs. d_blake3 r = store_lib.blake3 L (utf8 (d_text r)) \<Longrightarrow>
   merge_rows merge_meta burn rs s = Inr s' \<Longrightarrow> store_wf L s' \<and> tantivy s' = None"
proof (induction rs arbitrary: s)
  case (Cons r rs)
  from Cons.prems(4) obtain s1 where s1: "merge_row merge_meta burn r s = Inr s1" "merge_rows merge_meta burn rs s1 = Inr s'"
    by (auto simp: and_then_Inr_iff)
  have "store_wf L s1 \<and> tantivy s1 = None"
    using merge_row_wf [OF Cons.prems(1,2) _ s1(1)] Cons.prems(3) by simp
  then show ?case using Cons.IH [OF _ _ _ s1(2)] Cons.prems(3) by simp
qed simp

text \<open>Merging two packs of well-formed stores, when it succeeds, exports a well-formed store: the
  documents of the first pack in their order with their contents, followed by rows of the second pack, and
  every document of the second pack is represented by one of its uri or of its text. Merging the second
  pack into the result again adds no document.\<close>

theorem merge_packs_exact:
  assumes "pack_lib_ok K" "\<forall>d. 2 ^ 64 \<le> length d \<longrightarrow> k_encode K level d = None"
    and a: "import_magic K pack_a = Inr db_a" "load db_a = Some a" "store_wf L a" "tantivy a = None"
    and b: "import_magic K pack_b = Inr db_b" "load db_b = Some b" "store_wf L b"
    and m: "merge_packs K load img merge_meta burn pack_a pack_b level = Inr out"
  shows "\<exists>s. import_pack K out = Inr (img s) \<and> store_wf L s \<and>
     (\<exists>added. map doc_content (docs s) = map doc_content (docs a) @ map doc_content added \<and> subseq added (docs b)) \<and>
     (\<forall>r \<in> set (docs b). represented r s) \<and>
     (load (img s) = Some s \<longrightarrow>
       (\<forall>out'. merge_packs K load img merge_meta burn out pack_b level = Inr out' \<longrightarrow>
         (\<exists>s'. import_pack K out' = Inr (img s') \<and> map doc_content (docs s') = map doc_content (docs s))))"
proof -
  have read: "\<exists>s. merge_rows merge_meta burn (docs b) x = Inr s \<and> import_pack K q = Inr (img s)"
    if q: "merge_packs K load img merge_meta burn p pack_b level = Inr q" and p: "import_magic K p = Inr d" "load d = Some x"
    for p q d x
  proof -
    obtain s where s: "merge_rows merge_meta burn (docs b) x = Inr s" "export_pack K (img s) level = Inr q"
      using q p b(1,2) by (auto simp: merge_packs_def and_then_Inr_iff ok_or_def split: sum.splits)
    obtain z where z: "k_encode K level (img s) = Some z"
      using s(2) by (auto simp: export_pack_def Let_def and_then_Inr_iff ok_or_Inr_iff)
    then have "length (img s) < 2 ^ 64" using assms(2) by (metis linorder_not_less option.distinct(1))
    then show ?thesis using import_export [OF assms(1) z] s by auto
  qed
  obtain s where s: "merge_rows merge_meta burn (docs b) a = Inr s" "import_pack K out = Inr (img s)"
    using read [OF m a(1,2)] by blast
  have h: "\<forall>r \<in> set (docs b). d_blake3 r = store_lib.blake3 L (utf8 (d_text r))"
    using b(3) unfolding store_wf_def rows_wf_def by blast
  have wf: "store_wf L s" using merge_rows_wf [OF a(3,4) h s(1)] by blast
  have again: "\<exists>s'. import_pack K out' = Inr (img s') \<and> map doc_content (docs s') = map doc_content (docs s)"
    if l: "load (img s) = Some s" and o: "merge_packs K load img merge_meta burn out pack_b level = Inr out'" for out'
  proof -
    have "import_magic K out = Inr (img s)" using s(2) by (simp add: import_pack_def)
    from read [OF o this l] obtain s2
      where s2: "merge_rows merge_meta burn (docs b) s = Inr s2" "import_pack K out' = Inr (img s2)" by blast
    then show ?thesis using merge_rows_represented [OF _ s2(1)] merge_rows_content [OF s(1)] by auto
  qed
  show ?thesis using s(2) wf merge_rows_content [OF s(1)] again by blast
qed

definition pack_lib1 :: pack_lib where
  "pack_lib1 = pack_lib0\<lparr>k_encode := \<lambda>_ d. if length d < 2 ^ 64 then Some (ZSTD_MAGIC @ d) else None\<rparr>"

theorem merge_packs_exact_witness:
  "\<exists>p out s. import_pack pack_lib1 p = Inr [] \<and>
     merge_packs pack_lib1 (\<lambda>_. Some store_migrate) (\<lambda>_. []) (\<lambda>a b. Some a) True p p 3 = Inr out \<and>
     import_pack pack_lib1 out = Inr [] \<and> store_wf lib0 s"
proof -
  have ok: "pack_lib_ok pack_lib1"
    using pack_lib0_ok by (auto simp: pack_lib_ok_def pack_lib1_def pack_lib0_def split: if_splits)
  have big: "\<forall>d. 2 ^ 64 \<le> length d \<longrightarrow> k_encode pack_lib1 3 d = None" by (simp add: pack_lib1_def)
  have z: "k_encode pack_lib1 3 [] = Some ZSTD_MAGIC" by (simp add: pack_lib1_def)
  then obtain p where p: "export_pack pack_lib1 [] 3 = Inr p" by (simp add: export_pack_def ok_or_def)
  have i: "import_magic pack_lib1 p = Inr []"
    using import_export [OF ok z] p by (simp add: import_pack_def)
  have wf: "store_wf lib0 store_migrate" "tantivy store_migrate = None"
    using store_migrate_wf by (simp_all add: store_migrate_def)
  have m: "merge_packs pack_lib1 (\<lambda>_. Some store_migrate) (\<lambda>_. []) (\<lambda>a b. Some a) True p p 3 = Inr p"
    using p by (simp add: merge_packs_def i ok_or_def) (simp add: store_migrate_def)
  have "\<exists>s. import_pack pack_lib1 p = Inr [] \<and> store_wf lib0 s"
    using merge_packs_exact [OF ok big i _ wf i _ wf(1) m] by blast
  with m show ?thesis by blast
qed

end
