(* ===== verification/Float64.thy ===== *)
theory Float64
  imports Float32
begin

text \<open>
  IEEE 754 binary64 as Rust's \<^verbatim>\<open>f64\<close> uses it for edge weights and path costs, with the
  representation of \<open>Float32\<close>: a finite value is a sign and a number of units of $2^{-1074}$, rounded
  to 53 significant bits.
\<close>

datatype b64 = NaN64 | Inf64 bool | Fin64 bool nat

definition b64_unit :: nat where
  "b64_unit = 2 ^ 1074"

text \<open>The overflow threshold, $2^{1024}$ in units.\<close>

definition b64_limit :: nat where
  "b64_limit = 2 ^ 2098"

lemma b64_limit_pos [simp]: "0 < b64_limit"
  by (simp add: b64_limit_def)

definition b64_one :: b64 where
  "b64_one = Fin64 False b64_unit"

abbreviation b64_zero :: b64 where
  "b64_zero \<equiv> Fin64 False 0"

text \<open>A whole number of units, rounded.\<close>

definition b64_round :: "bool \<Rightarrow> nat \<Rightarrow> b64" where
  "b64_round s a = (let m = round_mag 53 a in if b64_limit \<le> m then Inf64 s else Fin64 s m)"

fun b64_add :: "b64 \<Rightarrow> b64 \<Rightarrow> b64" where
  "b64_add (Fin64 s m) (Fin64 t n) =
     (let z = signed s m + signed t n in
      if z = 0 then Fin64 (s \<and> t) 0 else b64_round (z < 0) (nat \<bar>z\<bar>))"
| "b64_add (Inf64 s) (Inf64 t) = (if s = t then Inf64 s else NaN64)"
| "b64_add (Inf64 s) (Fin64 _ _) = Inf64 s"
| "b64_add (Fin64 _ _) (Inf64 t) = Inf64 t"
| "b64_add NaN64 _ = NaN64"
| "b64_add _ NaN64 = NaN64"

fun b64_neg :: "b64 \<Rightarrow> b64" where
  "b64_neg (Fin64 s m) = Fin64 (\<not> s) m"
| "b64_neg (Inf64 s) = Inf64 (\<not> s)"
| "b64_neg NaN64 = NaN64"

definition b64_sub :: "b64 \<Rightarrow> b64 \<Rightarrow> b64" where
  "b64_sub x y = b64_add x (b64_neg y)"

text \<open>The exact product of two numbers of units is \<open>m * n / 2 ^ 1074\<close> units.\<close>

fun b64_mul :: "b64 \<Rightarrow> b64 \<Rightarrow> b64" where
  "b64_mul (Fin64 s m) (Fin64 t n) =
     (let k = bit_len (m * n div b64_unit) - 53;
          r = round_even (m * n) (b64_unit * 2 ^ k) * 2 ^ k
      in if b64_limit \<le> r then Inf64 (s \<noteq> t) else Fin64 (s \<noteq> t) r)"
| "b64_mul (Inf64 s) (Inf64 t) = Inf64 (s \<noteq> t)"
| "b64_mul (Inf64 s) (Fin64 t n) = (if n = 0 then NaN64 else Inf64 (s \<noteq> t))"
| "b64_mul (Fin64 s m) (Inf64 t) = (if m = 0 then NaN64 else Inf64 (s \<noteq> t))"
| "b64_mul NaN64 _ = NaN64"
| "b64_mul _ NaN64 = NaN64"

text \<open>The exact quotient of two numbers of units is \<open>m * 2 ^ 1074 / n\<close> units.\<close>

fun b64_div :: "b64 \<Rightarrow> b64 \<Rightarrow> b64" where
  "b64_div (Fin64 s m) (Fin64 t n) =
     (if n = 0 then (if m = 0 then NaN64 else Inf64 (s \<noteq> t))
      else let k = bit_len (m * b64_unit div n) - 53;
               r = round_even (m * b64_unit) (n * 2 ^ k) * 2 ^ k
           in if b64_limit \<le> r then Inf64 (s \<noteq> t) else Fin64 (s \<noteq> t) r)"
| "b64_div (Inf64 s) (Inf64 t) = NaN64"
| "b64_div (Inf64 s) (Fin64 t n) = Inf64 (s \<noteq> t)"
| "b64_div (Fin64 s m) (Inf64 t) = Fin64 (s \<noteq> t) 0"
| "b64_div NaN64 _ = NaN64"
| "b64_div _ NaN64 = NaN64"

text \<open>The integer square root, two bits at a time.\<close>

fun isqrt :: "nat \<Rightarrow> nat" where
  "isqrt n = (if n = 0 then 0 else let r = 2 * isqrt (n div 4) in if (r + 1) ^ 2 \<le> n then r + 1 else r)"

declare isqrt.simps [simp del]

text \<open>The root of \<open>m\<close> units is the root of \<open>x = m * 2 ^ 1074\<close> in units, rounded at 53 bits: \<open>q\<close> of
  them are certain, and the rest decides.\<close>

fun b64_sqrt :: "b64 \<Rightarrow> b64" where
  "b64_sqrt (Fin64 s m) =
     (if m = 0 then Fin64 s 0 else if s then NaN64
      else let x = m * b64_unit; k = bit_len (isqrt x) - 53; q = isqrt x div 2 ^ k; half = ((2 * q + 1) * 2 ^ k) ^ 2
           in Fin64 False ((if half < 4 * x \<or> half = 4 * x \<and> odd q then q + 1 else q) * 2 ^ k))"
| "b64_sqrt (Inf64 s) = (if s then NaN64 else Inf64 False)"
| "b64_sqrt NaN64 = NaN64"

text \<open>\<^verbatim>\<open>as f64\<close> for unsigned integers.\<close>

definition b64_of_nat :: "nat \<Rightarrow> b64" where
  "b64_of_nat n = b64_round False (n * b64_unit)"

text \<open>The order key; NaN has none.\<close>

fun b64_key :: "b64 \<Rightarrow> int option" where
  "b64_key NaN64 = None"
| "b64_key (Inf64 s) = Some (signed s (b64_limit))"
| "b64_key (Fin64 s m) = Some (signed s m)"

definition b64_partial_cmp :: "b64 \<Rightarrow> b64 \<Rightarrow> ordering option" where
  "b64_partial_cmp x y =
     (case (b64_key x, b64_key y) of (Some a, Some b) \<Rightarrow> Some (cmp_of a b) | _ \<Rightarrow> None)"

definition b64_le :: "b64 \<Rightarrow> b64 \<Rightarrow> bool" where
  "b64_le x y = (case (b64_key x, b64_key y) of (Some a, Some b) \<Rightarrow> a \<le> b | _ \<Rightarrow> False)"

definition b64_gt :: "b64 \<Rightarrow> b64 \<Rightarrow> bool" where
  "b64_gt x y = (case (b64_key x, b64_key y) of (Some a, Some b) \<Rightarrow> b < a | _ \<Rightarrow> False)"

text \<open>\<^verbatim>\<open>f64::max\<close>, which ignores a NaN.\<close>

definition b64_max :: "b64 \<Rightarrow> b64 \<Rightarrow> b64" where
  "b64_max x y = (if x = NaN64 then y else if y = NaN64 then x else if b64_le x y then y else x)"

text \<open>\<^verbatim>\<open>as f32\<close>.\<close>

fun b64_to_f32 :: "b64 \<Rightarrow> f32" where
  "b64_to_f32 (Fin64 s m) = f32_round s m (2 ^ 925)"
| "b64_to_f32 (Inf64 s) = Inf s"
| "b64_to_f32 NaN64 = NaN"

lemma isqrt_bounds: "isqrt n ^ 2 \<le> n \<and> n < (isqrt n + 1) ^ 2"
proof (induction n rule: isqrt.induct)
  case (1 n)
  show ?case
  proof (cases "n = 0")
    case False
    define s where "s = isqrt (n div 4)"
    have s: "s ^ 2 \<le> n div 4" "n div 4 < (s + 1) ^ 2" using 1 False by (simp_all add: s_def)
    have lo: "(2 * s) ^ 2 \<le> n" using s(1) by (simp add: power2_eq_square)
    have "n div 4 + 1 \<le> (s + 1) ^ 2" using s(2) by simp
    then have hi: "n < (2 * s + 2) ^ 2" by (simp add: power2_eq_square)
    show ?thesis using lo hi False by (simp add: isqrt.simps [of n] s_def [symmetric] Let_def)
  qed (simp add: isqrt.simps)
qed

section \<open>Values\<close>

text \<open>The values an \<^verbatim>\<open>f64\<close> holds: the finite ones have 53 significant bits and are below the overflow
  threshold.\<close>

fun b64_ok :: "b64 \<Rightarrow> bool" where
  "b64_ok (Fin64 s m) \<longleftrightarrow> round_mag 53 m = m \<and> m < b64_limit"
| "b64_ok x = True"

text \<open>The non-negative numbers, infinity included.\<close>

fun b64_nonneg :: "b64 \<Rightarrow> bool" where
  "b64_nonneg (Fin64 s m) \<longleftrightarrow> s = False"
| "b64_nonneg (Inf64 s) \<longleftrightarrow> s = False"
| "b64_nonneg NaN64 \<longleftrightarrow> False"

definition b64_cost :: "b64 \<Rightarrow> bool" where
  "b64_cost x \<longleftrightarrow> b64_ok x \<and> b64_nonneg x"

lemma b64_round_ok: "b64_ok (b64_round s a)"
  by (simp add: b64_round_def Let_def round_mag_idem)

lemma b64_add_ok: "b64_ok x \<Longrightarrow> b64_ok y \<Longrightarrow> b64_ok (b64_add x y)"
  by (induction x y rule: b64_add.induct) (auto simp: Let_def b64_round_ok)

lemma b64_cost_cases:
  assumes "b64_cost x"
  obtains "x = Inf64 False" | m where "x = Fin64 False m" "round_mag 53 m = m" "m < b64_limit"
  using assms by (cases x) (auto simp: b64_cost_def)

lemma b64_zero_cost [simp]: "b64_cost b64_zero"
  by (simp add: b64_cost_def)

lemma b64_add_nonneg: "b64_nonneg x \<Longrightarrow> b64_nonneg y \<Longrightarrow> b64_nonneg (b64_add x y)"
  by (cases x; cases y) (auto simp: Let_def b64_round_def signed_def)

lemma b64_add_cost: "b64_cost x \<Longrightarrow> b64_cost y \<Longrightarrow> b64_cost (b64_add x y)"
  by (simp add: b64_cost_def b64_add_ok b64_add_nonneg)

lemma b64_max_zero_cost: "b64_ok x \<Longrightarrow> b64_cost (b64_max x b64_zero)"
  using b64_zero_cost
  by (cases x) (auto simp: b64_max_def b64_le_def b64_cost_def signed_def)

text \<open>On costs the order is total, and addition is monotone and never decreases.\<close>

lemma b64_le_refl: "b64_cost x \<Longrightarrow> b64_le x x"
  by (elim b64_cost_cases) (simp_all add: b64_le_def)

lemma b64_le_trans: "b64_le x y \<Longrightarrow> b64_le y z \<Longrightarrow> b64_le x z"
  by (auto simp: b64_le_def split: option.splits)

lemma b64_le_linear: "b64_cost x \<Longrightarrow> b64_cost y \<Longrightarrow> b64_le x y \<or> b64_le y x"
  by (elim b64_cost_cases) (auto simp: b64_le_def signed_def)

lemma b64_le_antisym: "b64_cost x \<Longrightarrow> b64_cost y \<Longrightarrow> b64_le x y \<Longrightarrow> b64_le y x \<Longrightarrow> x = y"
  by (elim b64_cost_cases) (auto simp: b64_le_def signed_def)

lemma b64_le_zero: "b64_cost x \<Longrightarrow> b64_le b64_zero x"
  by (elim b64_cost_cases) (auto simp: b64_le_def signed_def)

lemma b64_add_fin: "b64_add (Fin64 False m) (Fin64 False n) = b64_round False (m + n)"
  by (cases "m + n = 0") (simp_all add: Let_def signed_def b64_round_def flip: of_nat_add)

lemma b64_round_le: "m \<le> n \<Longrightarrow> b64_le (b64_round False m) (b64_round False n)"
  using round_mag_mono [of m n 53] by (auto simp: b64_round_def b64_le_def signed_def Let_def)

lemma b64_round_same: "round_mag 53 m = m \<Longrightarrow> m < b64_limit \<Longrightarrow> b64_round False m = Fin64 False m"
  by (simp add: b64_round_def)

lemma b64_le_Inf: "b64_cost x \<Longrightarrow> b64_le x (Inf64 False)"
  by (elim b64_cost_cases) (simp_all add: b64_le_def signed_def)

lemma b64_add_mono:
  assumes "b64_cost x" "b64_cost y" "b64_cost z" "b64_le x y"
  shows "b64_le (b64_add x z) (b64_add y z)"
proof -
  have c: "b64_cost (b64_add x z)" by (rule b64_add_cost [OF assms(1,3)])
  show ?thesis
    using assms(2)
  proof (cases rule: b64_cost_cases)
    case 1
    then have "b64_add y z = Inf64 False" using assms(3) by (elim b64_cost_cases) simp_all
    then show ?thesis using b64_le_Inf [OF c] by simp
  next
    case (2 n)
    then obtain m where m: "x = Fin64 False m" "m \<le> n"
      using assms(1,4) by (elim b64_cost_cases) (auto simp: b64_le_def signed_def)
    show ?thesis
      using assms(3)
    proof (cases rule: b64_cost_cases)
      case 1
      then show ?thesis using 2 m by (simp add: b64_le_def)
    next
      case (2 k)
      then show ?thesis using \<open>y = Fin64 False n\<close> m by (simp only: b64_add_fin) (simp add: b64_round_le)
    qed
  qed
qed

lemma b64_add_increasing:
  assumes "b64_cost x" "b64_cost z"
  shows "b64_le x (b64_add x z)"
  using assms(1)
proof (cases rule: b64_cost_cases)
  case 1
  then have "b64_add x z = Inf64 False" using assms(2) by (elim b64_cost_cases) simp_all
  then show ?thesis using b64_le_Inf [OF assms(1)] by simp
next
  case (2 m)
  show ?thesis
    using assms(2)
  proof (cases rule: b64_cost_cases)
    case 1
    then show ?thesis using 2 b64_le_Inf [OF assms(1)] by simp
  next
    case (2 n)
    then show ?thesis
      using \<open>x = Fin64 False m\<close> b64_round_le [of m "m + n"] b64_round_same [of m] \<open>round_mag 53 m = m\<close> \<open>m < b64_limit\<close>
      by (simp only: b64_add_fin)
  qed
qed

end
