(* ===== verification/Hop_Layers.thy ===== *)
theory Hop_Layers
  imports Synapse_Prelude
begin

text \<open>
  The layers of a breadth-first search over a successor function, shared by the traversals of the edge
  table and of the decision graph.
\<close>

text \<open>The nodes at most \<open>n\<close> steps away, and those exactly \<open>n\<close> steps away.\<close>

primrec within :: "('a \<Rightarrow> 'a set) \<Rightarrow> 'a \<Rightarrow> nat \<Rightarrow> 'a set" where
  "within step u 0 = {u}"
| "within step u (Suc n) = within step u n \<union> (\<Union>x \<in> within step u n. step x)"

definition layer :: "('a \<Rightarrow> 'a set) \<Rightarrow> 'a \<Rightarrow> nat \<Rightarrow> 'a set" where
  "layer step u n = (case n of 0 \<Rightarrow> {u} | Suc m \<Rightarrow> within step u (Suc m) - within step u m)"

lemma layer_0 [simp]: "layer step u 0 = {u}"
  by (simp add: layer_def)

lemma within_mono: "m \<le> n \<Longrightarrow> within step u m \<subseteq> within step u n"
  by (induction n) (auto simp: le_Suc_eq)

lemma within_stable: "within step u (Suc d) = within step u d \<Longrightarrow> within step u (d + k) = within step u d"
  by (induction k) auto

lemma layer_within: "layer step u n \<subseteq> within step u n"
  by (cases n) (auto simp: layer_def)

lemma layer_step: "(\<Union>x \<in> layer step u d. step x) - within step u d = layer step u (Suc d)"
  by (cases d) (auto simp: layer_def)

lemma within_layer_Suc: "within step u (Suc d) = within step u d \<union> layer step u (Suc d)"
  by (auto simp: layer_def)

lemma layer_disjoint: "layer step u (Suc d) \<inter> within step u d = {}"
  by (auto simp: layer_def)

lemma layer_stable: "layer step u (Suc d) = {} \<Longrightarrow> layer step u (Suc (d + k)) = {}"
  using within_stable [of step u d k] within_stable [of step u d "Suc k"]
  unfolding layer_def by auto

lemma layer_split:
  "{(v, k). d < k \<and> k \<le> d + Suc n \<and> v \<in> layer step u k} =
     {(v, k). k = Suc d \<and> v \<in> layer step u (Suc d)} \<union> {(v, k). Suc d < k \<and> k \<le> Suc d + n \<and> v \<in> layer step u k}"
  by (auto simp: less_Suc_eq dest!: Suc_leI simp flip: order.order_iff_strict)

section \<open>Scans\<close>

text \<open>What a scan adds to the visited nodes and the next frontier: the nodes of \<open>N\<close> that were not visited,
  once each, as entries of depth \<open>d\<close>.\<close>

definition scanned :: "('h \<Rightarrow> 'a) \<Rightarrow> ('h \<Rightarrow> 'd) \<Rightarrow> 'd \<Rightarrow> 'a set \<Rightarrow> 'a list \<times> 'h list \<Rightarrow> 'a list \<times> 'h list \<Rightarrow> bool" where
  "scanned node dep d N st st' \<longleftrightarrow> (\<exists>new. snd st' = snd st @ new \<and> fst st' = fst st @ map node new \<and>
     distinct (map node new) \<and> node ` set new = N - set (fst st) \<and> (\<forall>h \<in> set new. dep h = d))"

lemma scanned_trans:
  assumes "scanned node dep d A s1 s2" "scanned node dep d B s2 s3"
  shows "scanned node dep d (A \<union> B) s1 s3"
proof -
  obtain a where a: "snd s2 = snd s1 @ a" "fst s2 = fst s1 @ map node a" "distinct (map node a)" "node ` set a = A - set (fst s1)"
    "\<forall>h \<in> set a. dep h = d" using assms(1) by (auto simp: scanned_def)
  obtain b where b: "snd s3 = snd s2 @ b" "fst s3 = fst s2 @ map node b" "distinct (map node b)" "node ` set b = B - set (fst s2)"
    "\<forall>h \<in> set b. dep h = d" using assms(2) by (auto simp: scanned_def)
  have "distinct (map node (a @ b))" using a b by auto
  moreover have "node ` set (a @ b) = (A \<union> B) - set (fst s1)" using a(2,4) b(4) by (auto simp: image_Un)
  ultimately show ?thesis using a b unfolding scanned_def by (intro exI [of _ "a @ b"]) auto
qed

lemma scanned_nothing: "scanned node dep d {} s s"
  by (simp add: scanned_def)

lemma scanned_seen: "x \<in> set (fst s) \<Longrightarrow> scanned node dep d {x} s s"
  by (simp add: scanned_def)

lemma scanned_new:
  "node h \<notin> set visited \<Longrightarrow> dep h = d \<Longrightarrow> scanned node dep d {node h} (visited, nxt) (visited @ [node h], nxt @ [h])"
  by (auto simp: scanned_def)

end
