(* ===== verification/Edge_Graph.thy ===== *)
theory Edge_Graph
  imports Rust_Text Float64 Hop_Layers "HOL-Library.Multiset"
begin

text \<open>
  The edge table of \<^verbatim>\<open>crates/synapse-graph/src/lib.rs\<close>: \<^verbatim>\<open>relate\<close>, \<^verbatim>\<open>neighbors\<close>, the decaying
  multi-hop traversal and Dijkstra's search. Weights are \<^verbatim>\<open>f64\<close> columns; SQLite stores a NaN as NULL,
  and reading a NULL weight as an \<^verbatim>\<open>f64\<close> is an error. Rows that an \<^verbatim>\<open>ORDER BY\<close> leaves equal keep their
  insertion order. \<^verbatim>\<open>BinaryHeap::pop\<close> is an argument: of the entries of least cost it may return
  any. \<^verbatim>\<open>f64::powi\<close>, whose precision Rust leaves open, is an argument too, and so is the order that
  \<^verbatim>\<open>sort_by\<close> gives hits when a score is NaN.
\<close>

section \<open>The table\<close>

record graph_edge =
  e_from :: int
  e_to :: int
  e_rel :: rstr
  e_weight :: "b64 option"
  e_props :: "rstr option"

type_synonym edge_db = "graph_edge list"

datatype graph_error = GSql | NoPath | CypherParse

definition ensure_schema :: edge_db where
  "ensure_schema = []"

definition edge_key :: "graph_edge \<Rightarrow> int \<times> int \<times> rstr" where
  "edge_key e = (e_from e, e_to e, e_rel e)"

definition sql_real :: "b64 \<Rightarrow> b64 option" where
  "sql_real w = (if w = NaN64 then None else Some w)"

definition relate :: "int \<Rightarrow> int \<Rightarrow> rstr \<Rightarrow> b64 \<Rightarrow> rstr option \<Rightarrow> edge_db \<Rightarrow> edge_db" where
  "relate from_id to_id rel weight props db =
     tbl_put edge_key \<lparr>e_from = from_id, e_to = to_id, e_rel = rel, e_weight = sql_real weight, e_props = props\<rparr> db"

definition edge_count :: "edge_db \<Rightarrow> nat" where
  "edge_count db = length db"

type_synonym neighbor = "int \<times> b64 \<times> rstr"

text \<open>\<^verbatim>\<open>ORDER BY weight DESC\<close>: the key grows as the weight falls, and NULL comes last.\<close>

definition weight_rank :: "graph_edge \<Rightarrow> int" where
  "weight_rank e = (case e_weight e of None \<Rightarrow> int b64_limit + 1
     | Some w \<Rightarrow> (case b64_key w of None \<Rightarrow> int b64_limit + 1 | Some k \<Rightarrow> - k))"

text \<open>Reading the rows; None is the error on a NULL weight.\<close>

fun read_neighbors :: "graph_edge list \<Rightarrow> neighbor list option" where
  "read_neighbors [] = Some []"
| "read_neighbors (e # es) =
     (case e_weight e of None \<Rightarrow> None
      | Some w \<Rightarrow> map_option (\<lambda>ns. (e_to e, w, e_rel e) # ns) (read_neighbors es))"

definition neighbors :: "edge_db \<Rightarrow> int \<Rightarrow> rstr option \<Rightarrow> nat \<Rightarrow> graph_error + neighbor list" where
  "neighbors db node_id rel top_k =
     (case read_neighbors (take top_k (sort_key weight_rank
        (filter (\<lambda>e. e_from e = node_id \<and> (case rel of None \<Rightarrow> True | Some r \<Rightarrow> e_rel e = r)) db))) of
        None \<Rightarrow> Inl GSql | Some ns \<Rightarrow> Inr ns)"

section \<open>Traversal\<close>

type_synonym traversal_hit = "int \<times> b64 \<times> nat \<times> rstr"

text \<open>The loop over the neighbours of one node. The hits pushed to \<^verbatim>\<open>next_frontier\<close> and to \<^verbatim>\<open>out\<close> are
  the same.\<close>

fun expand_node :: "b64 \<Rightarrow> nat \<Rightarrow> b64 \<Rightarrow> rstr \<Rightarrow> neighbor list \<Rightarrow> int list \<times> traversal_hit list \<Rightarrow>
    int list \<times> traversal_hit list" where
  "expand_node decay depth score chain [] st = st"
| "expand_node decay depth score chain ((to_id, w, rel) # ns) (visited, next) =
     (if to_id \<in> set visited then expand_node decay depth score chain ns (visited, next)
      else let new_score = b64_mul (b64_mul score w) decay;
               new_chain = (if chain = [] then rel else chain @ lit ''->'' @ rel)
        in expand_node decay depth score chain ns (visited @ [to_id], next @ [(to_id, new_score, depth, new_chain)]))"

fun expand_frontier :: "edge_db \<Rightarrow> rstr option \<Rightarrow> nat \<Rightarrow> b64 \<Rightarrow> nat \<Rightarrow> traversal_hit list \<Rightarrow>
    int list \<times> traversal_hit list \<Rightarrow> graph_error + int list \<times> traversal_hit list" where
  "expand_frontier db rel top_k decay depth [] st = Inr st"
| "expand_frontier db rel top_k decay depth ((node, score, d, chain) # fs) st =
     (case neighbors db node rel top_k of
        Inl e \<Rightarrow> Inl e
      | Inr ns \<Rightarrow> expand_frontier db rel top_k decay depth fs (expand_node decay depth score chain ns st))"

text \<open>\<open>n\<close> hops are left.\<close>

fun traverse_hops :: "(b64 \<Rightarrow> nat \<Rightarrow> b64) \<Rightarrow> edge_db \<Rightarrow> rstr option \<Rightarrow> nat \<Rightarrow> b64 \<Rightarrow> nat \<Rightarrow> nat \<Rightarrow> int list \<Rightarrow>
    traversal_hit list \<Rightarrow> traversal_hit list \<Rightarrow> graph_error + traversal_hit list" where
  "traverse_hops pow_i db rel top_k score_decay 0 depth visited frontier out = Inr out"
| "traverse_hops pow_i db rel top_k score_decay (Suc n) depth visited frontier out =
     (case expand_frontier db rel top_k (pow_i score_decay depth) depth frontier (visited, []) of
        Inl e \<Rightarrow> Inl e
      | Inr (visited', next) \<Rightarrow>
          if next = [] then Inr (out @ next)
          else traverse_hops pow_i db rel top_k score_decay n (Suc depth) visited' next (out @ next))"

text \<open>\<open>nan_order\<close> stands for what \<^verbatim>\<open>sort_by\<close> does when some score is NaN and the comparison is not an
  order: None is a panic.\<close>

definition sort_hits :: "(traversal_hit list \<Rightarrow> traversal_hit list option) \<Rightarrow> traversal_hit list \<Rightarrow> traversal_hit list option" where
  "sort_hits nan_order hs =
     (if \<exists>h \<in> set hs. b64_key (fst (snd h)) = None then nan_order hs
      else Some (sort_key (\<lambda>h. - the (b64_key (fst (snd h)))) hs))"

definition traverse :: "(b64 \<Rightarrow> nat \<Rightarrow> b64) \<Rightarrow> (traversal_hit list \<Rightarrow> traversal_hit list option) \<Rightarrow> edge_db \<Rightarrow> int \<Rightarrow>
    nat \<Rightarrow> nat \<Rightarrow> b64 \<Rightarrow> rstr option \<Rightarrow> (graph_error + traversal_hit list) option" where
  "traverse pow_i nan_order db start_id max_depth top_k_per_hop score_decay rel =
     (case traverse_hops pow_i db rel top_k_per_hop score_decay max_depth 1 [start_id]
             [(start_id, b64_one, 0, [])] [] of
        Inl e \<Rightarrow> Some (Inl e)
      | Inr out \<Rightarrow> map_option Inr (sort_hits nan_order out))"

section \<open>Shortest path\<close>

record dj_state =
  dj_cost :: b64
  dj_node :: int
  dj_path :: "int list"

type_synonym dj_pop = "dj_state list \<Rightarrow> (dj_state \<times> dj_state list) option"

definition edge_cost :: "b64 \<Rightarrow> b64" where
  "edge_cost w = b64_max (b64_sub b64_one w) b64_zero"

text \<open>The rows of a node in the order of the table. SQLite returns them in the order of \<^verbatim>\<open>idx_edges_from\<close>; the theorems hold for
  tables in any order.\<close>

definition graph_out_edges :: "edge_db \<Rightarrow> int \<Rightarrow> (int \<times> b64) list option" where
  "graph_out_edges db node = map_option (map (\<lambda>(t, w, r). (t, w))) (read_neighbors (filter (\<lambda>e. e_from e = node) db))"

definition push_next :: "(int \<rightharpoonup> b64) \<Rightarrow> dj_state \<Rightarrow> (int \<times> b64) list \<Rightarrow> dj_state list" where
  "push_next visited st rows =
     map (\<lambda>(nxt, w). \<lparr>dj_cost = b64_add (dj_cost st) (edge_cost w), dj_node = nxt, dj_path = dj_path st @ [dj_node st]\<rparr>)
       (filter (\<lambda>(nxt, w). visited nxt = None) rows)"

partial_function (option) dj_loop :: "dj_pop \<Rightarrow> edge_db \<Rightarrow> int \<Rightarrow> nat \<Rightarrow> (int \<rightharpoonup> b64) \<Rightarrow> dj_state list \<Rightarrow>
    (graph_error + (b64 \<times> int list) option) option" where
  "dj_loop pop db to_id max_depth visited heap =
     (case pop heap of
        None \<Rightarrow> Some (Inr None)
      | Some (st, heap') \<Rightarrow>
          if dj_node st = to_id then Some (Inr (Some (dj_cost st, dj_path st @ [dj_node st])))
          else if (case visited (dj_node st) of None \<Rightarrow> False | Some prev \<Rightarrow> b64_le prev (dj_cost st))
          then dj_loop pop db to_id max_depth visited heap'
          else if max_depth \<le> length (dj_path st) then dj_loop pop db to_id max_depth visited heap'
          else let visited' = visited(dj_node st \<mapsto> dj_cost st) in
            (case graph_out_edges db (dj_node st) of
               None \<Rightarrow> Some (Inl GSql)
             | Some rows \<Rightarrow> dj_loop pop db to_id max_depth visited' (heap' @ push_next visited' st rows)))"

definition shortest_path :: "dj_pop \<Rightarrow> edge_db \<Rightarrow> int \<Rightarrow> int \<Rightarrow> nat \<Rightarrow> (graph_error + (b64 \<times> int list) option) option" where
  "shortest_path pop db from_id to_id max_depth =
     dj_loop pop db to_id max_depth Map.empty [\<lparr>dj_cost = b64_zero, dj_node = from_id, dj_path = []\<rparr>]"

text \<open>What \<^verbatim>\<open>BinaryHeap::pop\<close> promises for entries with comparable costs.\<close>

definition dj_pop_ok :: "dj_pop \<Rightarrow> bool" where
  "dj_pop_ok pop \<longleftrightarrow> pop [] = None \<and>
     (\<forall>h. h \<noteq> [] \<and> (\<forall>x \<in> set h. b64_cost (dj_cost x)) \<longrightarrow>
        (\<exists>st h'. pop h = Some (st, h') \<and> mset h = add_mset st (mset h') \<and>
           (\<forall>x \<in> set h. b64_le (dj_cost st) (dj_cost x))))"

section \<open>Dijkstra's search is optimal\<close>

text \<open>Walks with their costs, added from left to right as the code adds them.\<close>

inductive walk :: "edge_db \<Rightarrow> int \<Rightarrow> int \<Rightarrow> b64 \<Rightarrow> int list \<Rightarrow> bool" for db u where
  stay: "walk db u u b64_zero [u]"
| move: "walk db u x c p \<Longrightarrow> e \<in> set db \<Longrightarrow> e_from e = x \<Longrightarrow> e_weight e = Some w \<Longrightarrow>
    walk db u (e_to e) (b64_add c (edge_cost w)) (p @ [e_to e])"

text \<open>Every stored weight is a number.\<close>

definition weights_ok :: "edge_db \<Rightarrow> bool" where
  "weights_ok db \<longleftrightarrow> (\<forall>e \<in> set db. \<exists>w. e_weight e = Some w \<and> b64_ok w)"

lemma b64_neg_ok: "b64_ok (b64_neg x) = b64_ok x"
  by (cases x) simp_all

lemma b64_one_ok: "b64_ok b64_one"
proof -
  have "round_mag 53 (1 * 2 ^ 1074) = 1 * 2 ^ 1074" by (rule round_mag_exact) simp
  moreover have "(2::nat) ^ 1074 < 2 ^ 2098" by (rule power_strict_increasing) simp_all
  ultimately show ?thesis unfolding b64_one_def b64_unit_def b64_limit_def b64_ok.simps mult_1 by blast
qed

lemma edge_cost_cost: "b64_ok w \<Longrightarrow> b64_cost (edge_cost w)"
  by (simp add: edge_cost_def b64_sub_def b64_max_zero_cost b64_add_ok b64_one_ok b64_neg_ok)

lemma weights_okD: "weights_ok db \<Longrightarrow> e \<in> set db \<Longrightarrow> e_weight e = Some w \<Longrightarrow> b64_cost (edge_cost w)"
  by (auto simp: weights_ok_def edge_cost_cost)

lemma walk_cost: "walk db u v c p \<Longrightarrow> weights_ok db \<Longrightarrow> b64_cost c"
  by (induction rule: walk.induct) (auto intro: b64_add_cost dest: weights_okD)

lemma read_neighbors_ok:
  "\<forall>e \<in> set es. e_weight e \<noteq> None \<Longrightarrow> read_neighbors es = Some (map (\<lambda>e. (e_to e, the (e_weight e), e_rel e)) es)"
  by (induction es) auto

lemma graph_out_edges_ok:
  assumes "weights_ok db"
  obtains rows where "graph_out_edges db x = Some rows"
    "\<And>y w. (y, w) \<in> set rows \<longleftrightarrow> (\<exists>e \<in> set db. e_from e = x \<and> e_to e = y \<and> e_weight e = Some w)"
proof -
  have "\<forall>e \<in> set (filter (\<lambda>e. e_from e = x) db). e_weight e \<noteq> None" using assms by (auto simp: weights_ok_def)
  note r = read_neighbors_ok [OF this]
  show thesis
    by (rule that [of "map (\<lambda>e. (e_to e, the (e_weight e))) (filter (\<lambda>e. e_from e = x) db)"])
      (use assms in \<open>auto simp: graph_out_edges_def r weights_ok_def image_iff, force\<close>)
qed

text \<open>The nodes a search can meet.\<close>

definition nodes_from :: "edge_db \<Rightarrow> int \<Rightarrow> int set" where
  "nodes_from db u = insert u (e_to ` set db)"

lemma walk_node: "walk db u v c p \<Longrightarrow> v \<in> nodes_from db u"
  by (induction rule: walk.induct) (auto simp: nodes_from_def)

text \<open>The invariant of the loop: entries are walks through settled nodes, settled nodes are cheaper than
  every entry, and every edge out of a settled node is accounted for.\<close>

definition dj_entries :: "edge_db \<Rightarrow> int \<Rightarrow> (int \<rightharpoonup> b64) \<Rightarrow> dj_state list \<Rightarrow> bool" where
  "dj_entries db u visited heap \<longleftrightarrow> (\<forall>st \<in> set heap.
     walk db u (dj_node st) (dj_cost st) (dj_path st @ [dj_node st]) \<and>
     distinct (dj_path st) \<and> set (dj_path st) \<subseteq> e_from ` set db \<and>
     set (dj_path st) \<subseteq> dom visited)"

definition dj_settled :: "edge_db \<Rightarrow> int \<Rightarrow> int \<Rightarrow> (int \<rightharpoonup> b64) \<Rightarrow> dj_state list \<Rightarrow> bool" where
  "dj_settled db u t visited heap \<longleftrightarrow> t \<notin> dom visited \<and> (\<forall>v c. visited v = Some c \<longrightarrow>
     (\<exists>p. walk db u v c p) \<and> (\<forall>st \<in> set heap. b64_le c (dj_cost st)))"

definition covered :: "(int \<rightharpoonup> b64) \<Rightarrow> dj_state list \<Rightarrow> int \<Rightarrow> b64 \<Rightarrow> bool" where
  "covered visited heap y c \<longleftrightarrow> (\<exists>cy. visited y = Some cy \<and> b64_le cy c) \<or>
     (\<exists>st \<in> set heap. dj_node st = y \<and> b64_le (dj_cost st) c)"

definition dj_closed :: "edge_db \<Rightarrow> int \<Rightarrow> (int \<rightharpoonup> b64) \<Rightarrow> dj_state list \<Rightarrow> bool" where
  "dj_closed db u visited heap \<longleftrightarrow> covered visited heap u b64_zero \<and>
     (\<forall>e \<in> set db. \<forall>c w. visited (e_from e) = Some c \<longrightarrow> e_weight e = Some w \<longrightarrow>
        covered visited heap (e_to e) (b64_add c (edge_cost w)))"

definition dj_inv :: "edge_db \<Rightarrow> int \<Rightarrow> int \<Rightarrow> (int \<rightharpoonup> b64) \<Rightarrow> dj_state list \<Rightarrow> bool" where
  "dj_inv db u t visited heap \<longleftrightarrow>
     dj_entries db u visited heap \<and> dj_settled db u t visited heap \<and> dj_closed db u visited heap"

text \<open>Every walk ends in a settled node that is at least as cheap, or some entry is at least as cheap.\<close>

lemma walk_covered:
  assumes "walk db u v c p" "weights_ok db" "dj_inv db u t visited heap"
  shows "(\<exists>cv. visited v = Some cv \<and> b64_le cv c) \<or> (\<exists>st \<in> set heap. b64_le (dj_cost st) c)"
  using assms(1)
proof (induction rule: walk.induct)
  case stay
  then show ?case using assms(3) by (auto simp: dj_inv_def dj_closed_def covered_def)
next
  case (move x c p e w)
  have ew: "b64_cost (edge_cost w)" using weights_okD [OF assms(2)] move by blast
  have c: "b64_cost c" using walk_cost [OF move(1) assms(2)] .
  consider cx where "visited x = Some cx" "b64_le cx c" | st where "st \<in> set heap" "b64_le (dj_cost st) c"
    using move.IH by blast
  then show ?case
  proof cases
    case 1
    then have "covered visited heap (e_to e) (b64_add cx (edge_cost w))"
      using assms(3) move by (auto simp: dj_inv_def dj_closed_def)
    moreover have "b64_cost cx"
      using 1(1) assms(3) walk_cost assms(2) unfolding dj_inv_def dj_settled_def by blast
    then have "b64_le (b64_add cx (edge_cost w)) (b64_add c (edge_cost w))"
      using b64_add_mono [OF _ c ew 1(2)] by blast
    ultimately show ?thesis unfolding covered_def using b64_le_trans by blast
  next
    case 2
    then show ?thesis using b64_add_increasing [OF c ew] b64_le_trans by blast
  qed
qed

lemma covered_mono: "covered visited heap y c \<Longrightarrow> b64_le c c' \<Longrightarrow> covered visited heap y c'"
  unfolding covered_def using b64_le_trans by blast

text \<open>Dropping an entry of a settled node.\<close>

lemma dj_inv_skip:
  assumes inv: "dj_inv db u t visited heap" and h: "set heap = insert st (set heap')"
    and v: "visited (dj_node st) = Some prev"
  shows "dj_inv db u t visited heap'"
proof -
  have le: "b64_le prev (dj_cost st)" using inv h v unfolding dj_inv_def dj_settled_def by blast
  have cov: "covered visited heap' y c" if "covered visited heap y c" for y c
    using that v b64_le_trans [OF le] unfolding covered_def h by blast
  show ?thesis using inv cov unfolding dj_inv_def dj_entries_def dj_settled_def dj_closed_def h by blast
qed

lemma push_next_mem:
  "s' \<in> set (push_next v st rows) \<Longrightarrow> \<exists>y w. (y, w) \<in> set rows \<and> v y = None \<and>
     s' = \<lparr>dj_cost = b64_add (dj_cost st) (edge_cost w), dj_node = y, dj_path = dj_path st @ [dj_node st]\<rparr>"
  by (auto simp: push_next_def)

text \<open>Settling the cheapest entry.\<close>

lemma dj_inv_expand:
  assumes inv: "dj_inv db u t visited heap" and h: "set heap = insert st (set heap')" and ok: "weights_ok db"
    and least: "\<forall>x \<in> set heap. b64_le (dj_cost st) (dj_cost x)"
    and new: "visited (dj_node st) = None" "dj_node st \<noteq> t"
    and rows: "\<And>y w. (y, w) \<in> set rows \<longleftrightarrow> (\<exists>e \<in> set db. e_from e = dj_node st \<and> e_to e = y \<and> e_weight e = Some w)"
  shows "dj_inv db u t (visited(dj_node st \<mapsto> dj_cost st))
    (heap' @ push_next (visited(dj_node st \<mapsto> dj_cost st)) st rows)"
proof -
  let ?x = "dj_node st" and ?v = "visited(dj_node st \<mapsto> dj_cost st)"
  let ?h = "heap' @ push_next ?v st rows"
  have st: "walk db u ?x (dj_cost st) (dj_path st @ [?x])" "distinct (dj_path st)" "set (dj_path st) \<subseteq> e_from ` set db"
      "set (dj_path st) \<subseteq> dom visited"
    using inv h unfolding dj_inv_def dj_entries_def by blast+
  have c: "b64_cost (dj_cost st)" by (rule walk_cost [OF st(1) ok])
  have pushed: "\<exists>e w. e \<in> set db \<and> e_from e = ?x \<and> e_weight e = Some w \<and> ?v (e_to e) = None \<and>
      s' = \<lparr>dj_cost = b64_add (dj_cost st) (edge_cost w), dj_node = e_to e, dj_path = dj_path st @ [?x]\<rparr>"
    if s': "s' \<in> set (push_next ?v st rows)" for s'
  proof -
    obtain y w where y: "(y, w) \<in> set rows" "?v y = None"
      "s' = \<lparr>dj_cost = b64_add (dj_cost st) (edge_cost w), dj_node = y, dj_path = dj_path st @ [?x]\<rparr>"
      using push_next_mem [OF s'] by blast
    obtain e where "e \<in> set db" "e_from e = ?x" "e_to e = y" "e_weight e = Some w" using rows y(1) by blast
    with y(2,3) show ?thesis by (intro exI [of _ e] exI [of _ w]) (simp del: fun_upd_apply)
  qed
  have entry: "walk db u (dj_node s') (dj_cost s') (dj_path s' @ [dj_node s']) \<and> distinct (dj_path s') \<and>
      set (dj_path s') \<subseteq> e_from ` set db \<and> set (dj_path s') \<subseteq> dom ?v \<and> b64_le (dj_cost st) (dj_cost s')"
    if "s' \<in> set ?h" for s'
  proof (cases "s' \<in> set heap'")
    case True
    then have "s' \<in> set heap" by (simp add: h)
    then show ?thesis using inv least unfolding dj_inv_def dj_entries_def by fastforce
  next
    case False
    have m: "s' \<in> set (push_next ?v st rows)" using False that by (simp del: fun_upd_apply)
    obtain e w where e: "e \<in> set db" "e_from e = ?x" "e_weight e = Some w"
      "s' = \<lparr>dj_cost = b64_add (dj_cost st) (edge_cost w), dj_node = e_to e, dj_path = dj_path st @ [?x]\<rparr>"
      using pushed [OF m] by blast
    have "walk db u (e_to e) (b64_add (dj_cost st) (edge_cost w)) ((dj_path st @ [?x]) @ [e_to e])"
      by (rule walk.move [OF st(1) e(1,2,3)])
    moreover have "?x \<notin> set (dj_path st)" using st(4) new(1) by auto
    moreover have "?x \<in> e_from ` set db" using e(1) e(2) [symmetric] by simp
    ultimately show ?thesis
      using e st(2-4) b64_add_increasing [OF c weights_okD [OF ok e(1,3)]] by auto
  qed
  have "dj_entries db u ?v ?h" using entry unfolding dj_entries_def by blast
  moreover have "dj_settled db u t ?v ?h"
    unfolding dj_settled_def
  proof (intro conjI allI impI)
    show "t \<notin> dom ?v" using inv new(2) by (auto simp: dj_inv_def dj_settled_def)
    fix v cv assume v: "?v v = Some cv"
    show "\<exists>p. walk db u v cv p"
      using v inv st(1) by (cases "v = ?x") (auto simp: dj_inv_def dj_settled_def)
    have "b64_le cv (dj_cost st)"
    proof (cases "v = ?x")
      case True
      then show ?thesis using v b64_le_refl [OF c] by simp
    next
      case False
      then show ?thesis using v inv h by (auto simp: dj_inv_def dj_settled_def)
    qed
    then show "\<forall>s' \<in> set ?h. b64_le cv (dj_cost s')" using entry b64_le_trans by blast
  qed
  moreover have cov: "covered ?v ?h y d" if "covered visited heap y d" for y d
    using that new(1) unfolding covered_def h by auto
  moreover have "covered ?v ?h (e_to e) (b64_add cx (edge_cost w))"
    if e: "e \<in> set db" "?v (e_from e) = Some cx" "e_weight e = Some w" for e cx w
  proof (cases "e_from e = ?x")
    case False
    then have "covered visited heap (e_to e) (b64_add cx (edge_cost w))"
      using e inv by (auto simp: dj_inv_def dj_closed_def)
    then show ?thesis by (rule cov)
  next
    case True
    then have cx: "cx = dj_cost st" using e(2) by simp
    have inc: "b64_le (dj_cost st) (b64_add cx (edge_cost w))"
      unfolding cx by (rule b64_add_increasing [OF c weights_okD [OF ok e(1,3)]])
    show ?thesis
    proof (cases "?v (e_to e)")
      case None
      have "(e_to e, w) \<in> set rows" using rows e True by blast
      then have "\<lparr>dj_cost = b64_add (dj_cost st) (edge_cost w), dj_node = e_to e, dj_path = dj_path st @ [?x]\<rparr> \<in> set ?h"
        using None by (auto simp: push_next_def image_iff intro!: bexI [of _ "(e_to e, w)"])
      moreover have "b64_cost (b64_add cx (edge_cost w))"
        unfolding cx by (rule b64_add_cost [OF c weights_okD [OF ok e(1,3)]])
      ultimately show ?thesis unfolding covered_def cx by (intro disjI2, elim rev_bexI) (simp add: b64_le_refl)
    next
      case (Some cy)
      then have "b64_le cy (dj_cost st)"
        using inv h b64_le_refl [OF c] by (cases "e_to e = ?x") (auto simp: dj_inv_def dj_settled_def)
      then show ?thesis using Some inc b64_le_trans unfolding covered_def by blast
    qed
  qed
  ultimately show ?thesis using inv unfolding dj_inv_def dj_closed_def by blast
qed

definition shortest :: "edge_db \<Rightarrow> int \<Rightarrow> int \<Rightarrow> (b64 \<times> int list) option \<Rightarrow> bool" where
  "shortest db u t r = (case r of
     None \<Rightarrow> \<not> (\<exists>c p. walk db u t c p)
   | Some (c, p) \<Rightarrow> walk db u t c p \<and> (\<forall>c' p'. walk db u t c' p' \<longrightarrow> b64_le c c'))"

lemma dj_loop_shortest:
  assumes pop: "dj_pop_ok pop" and ok: "weights_ok db" and depth: "length db < max_depth"
  shows "dj_inv db u t visited heap \<Longrightarrow>
    \<exists>r. dj_loop pop db t max_depth visited heap = Some (Inr r) \<and> shortest db u t r"
proof (induction "(card (nodes_from db u - dom visited), length heap)" arbitrary: visited heap
    rule: wf_induct_rule [OF wf_lex_prod [OF wf_less_than wf_less_than]])
  case 1
  note inv = 1(2)
  have IH: "\<exists>r. dj_loop pop db t max_depth v' h' = Some (Inr r) \<and> shortest db u t r"
    if "dj_inv db u t v' h'" "card (nodes_from db u - dom v') < card (nodes_from db u - dom visited) \<or>
      v' = visited \<and> length h' < length heap" for v' h'
    using 1(1) [of v' h'] that by auto
  have t: "visited t = None" using inv by (auto simp: dj_inv_def dj_settled_def)
  show ?case
  proof (cases "heap = []")
    case True
    have "\<not> walk db u t c p" for c p using walk_covered [OF _ ok inv, of t c p] True t by auto
    then have "shortest db u t None" by (simp add: shortest_def)
    moreover have "pop heap = None" using pop True by (simp add: dj_pop_ok_def)
    ultimately show ?thesis by (simp add: dj_loop.simps [of pop db t max_depth visited heap])
  next
    case False
    have ent: "\<And>x. x \<in> set heap \<Longrightarrow> walk db u (dj_node x) (dj_cost x) (dj_path x @ [dj_node x])"
      using inv by (auto simp: dj_inv_def dj_entries_def)
    then have "\<forall>x \<in> set heap. b64_cost (dj_cost x)" using walk_cost [OF _ ok] by blast
    then obtain st heap' where p: "pop heap = Some (st, heap')" "mset heap = add_mset st (mset heap')"
        "\<forall>x \<in> set heap. b64_le (dj_cost st) (dj_cost x)"
      using pop False unfolding dj_pop_ok_def by blast
    have h: "set heap = insert st (set heap')" using p(2) by (metis set_mset_add_mset_insert set_mset_mset)
    have len: "length heap' < length heap" using arg_cong [OF p(2), of size] by simp
    note loop = dj_loop.simps [of pop db t max_depth visited heap]
    have w: "walk db u (dj_node st) (dj_cost st) (dj_path st @ [dj_node st])" using ent h by blast
    consider "dj_node st = t" | prev where "dj_node st \<noteq> t" "visited (dj_node st) = Some prev"
      | "dj_node st \<noteq> t" "visited (dj_node st) = None" by blast
    then show ?thesis
    proof cases
      case 1
      have "b64_le (dj_cost st) c'" if "walk db u t c' p'" for c' p'
        using walk_covered [OF that ok inv] t p(3) b64_le_trans by auto
      then have "shortest db u t (Some (dj_cost st, dj_path st @ [dj_node st]))"
        using w 1 by (auto simp: shortest_def)
      then show ?thesis using p(1) 1 by (simp add: loop)
    next
      case 2
      have "b64_le prev (dj_cost st)" using inv h 2(2) unfolding dj_inv_def dj_settled_def by blast
      then have "dj_loop pop db t max_depth visited heap = dj_loop pop db t max_depth visited heap'"
        using p(1) 2 by (simp add: loop)
      moreover have "dj_inv db u t visited heap'" by (rule dj_inv_skip [OF inv h 2(2)])
      ultimately show ?thesis using IH len by simp
    next
      case 3
      obtain rows where rows: "graph_out_edges db (dj_node st) = Some rows"
        "\<And>y w. (y, w) \<in> set rows \<longleftrightarrow> (\<exists>e \<in> set db. e_from e = dj_node st \<and> e_to e = y \<and> e_weight e = Some w)"
        using graph_out_edges_ok [OF ok, of "dj_node st"] by blast
      let ?v = "visited(dj_node st \<mapsto> dj_cost st)"
      have "distinct (dj_path st)" "set (dj_path st) \<subseteq> e_from ` set db"
        using inv h unfolding dj_inv_def dj_entries_def by blast+
      then have "length (dj_path st) \<le> card (e_from ` set db)"
        by (metis card_mono distinct_card finite_imageI finite_set)
      also have "\<dots> \<le> length db" using card_image_le [of "set db" e_from] card_length [of db] by simp
      finally have "\<not> max_depth \<le> length (dj_path st)" using depth by simp
      then have "dj_loop pop db t max_depth visited heap =
          dj_loop pop db t max_depth ?v (heap' @ push_next ?v st rows)"
        using p(1) 3 rows(1) by (simp add: loop Let_def)
      moreover have "dj_inv db u t ?v (heap' @ push_next ?v st rows)"
        by (rule dj_inv_expand [OF inv h ok p(3) 3(2,1) rows(2)])
      moreover have "card (nodes_from db u - dom ?v) < card (nodes_from db u - dom visited)"
        using walk_node [OF w] 3(2) by (intro psubset_card_mono) (auto simp: nodes_from_def)
      ultimately show ?thesis using IH by simp
    qed
  qed
qed

text \<open>C26. On a table whose weights are numbers, with a depth limit above the number of edges, the search
  ends; it returns a path of least cost among all walks, the costs added in \<^verbatim>\<open>f64\<close>, or none exactly
  when the target cannot be reached, whatever the heap does among equal costs.\<close>

theorem shortest_path_optimal:
  assumes "dj_pop_ok pop" "weights_ok db" "length db < max_depth"
  shows "\<exists>r. shortest_path pop db from_id to_id max_depth = Some (Inr r) \<and> shortest db from_id to_id r"
proof -
  let ?h = "[\<lparr>dj_cost = b64_zero, dj_node = from_id, dj_path = []\<rparr>]"
  have "dj_inv db from_id to_id Map.empty ?h"
    using walk.stay b64_le_refl [OF b64_zero_cost]
    by (simp add: dj_inv_def dj_entries_def dj_settled_def dj_closed_def covered_def)
  from dj_loop_shortest [OF assms this] show ?thesis unfolding shortest_path_def .
qed

text \<open>A heap that keeps its entries in a list and removes the first of least cost.\<close>

fun pop_least :: dj_pop where
  "pop_least [] = None"
| "pop_least (x # xs) = (case pop_least xs of
     None \<Rightarrow> Some (x, [])
   | Some (y, ys) \<Rightarrow> if b64_le (dj_cost x) (dj_cost y) then Some (x, xs) else Some (y, x # ys))"

lemma pop_least_spec:
  "h \<noteq> [] \<Longrightarrow> \<forall>x \<in> set h. b64_cost (dj_cost x) \<Longrightarrow>
     \<exists>st h'. pop_least h = Some (st, h') \<and> mset h = add_mset st (mset h') \<and> (\<forall>x \<in> set h. b64_le (dj_cost st) (dj_cost x))"
proof (induction h)
  case (Cons x xs)
  show ?case
  proof (cases "xs = []")
    case True
    then show ?thesis using Cons.prems b64_le_refl by simp
  next
    case False
    then obtain y ys where y: "pop_least xs = Some (y, ys)" "mset xs = add_mset y (mset ys)"
        "\<forall>z \<in> set xs. b64_le (dj_cost y) (dj_cost z)" using Cons by auto
    have "y \<in> set xs" using y(2) by (metis set_mset_mset union_single_eq_member)
    then have c: "b64_cost (dj_cost x)" "b64_cost (dj_cost y)" using Cons.prems by auto
    show ?thesis
    proof (cases "b64_le (dj_cost x) (dj_cost y)")
      case True
      have "\<forall>z \<in> set xs. b64_le (dj_cost x) (dj_cost z)" using y(3) b64_le_trans [OF True] by blast
      then show ?thesis using y(1) True b64_le_refl [OF c(1)] by simp
    next
      case F: False
      then have "b64_le (dj_cost y) (dj_cost x)" using b64_le_linear [OF c] by blast
      then show ?thesis using y F by simp
    qed
  qed
qed simp

lemma pop_least_ok: "dj_pop_ok pop_least"
  unfolding dj_pop_ok_def using pop_least_spec by simp

lemma b64_round_unit: "b64_round False b64_unit = b64_one"
proof -
  have "round_mag 53 b64_unit = b64_unit" "b64_unit < b64_limit" using b64_one_ok by (simp_all add: b64_one_def)
  then show ?thesis by (simp add: b64_round_def b64_one_def)
qed

lemma unit_pos [simp]: "0 < b64_unit" "b64_unit \<noteq> 0"
  by (simp_all add: b64_unit_def)

lemma edge_cost_one: "edge_cost b64_one = b64_zero" "edge_cost b64_zero = b64_one"
  using b64_round_unit
  by (simp_all add: edge_cost_def b64_sub_def b64_one_def signed_def b64_max_def b64_le_def Let_def)

lemma b64_add_zero: "b64_add b64_zero b64_zero = b64_zero" "b64_add b64_zero b64_one = b64_one" "b64_add b64_one b64_zero = b64_one"
  using b64_round_unit by (simp_all add: b64_one_def signed_def Let_def)

lemma b64_le_one: "b64_le b64_zero b64_zero" "b64_le b64_zero b64_one" "\<not> b64_le b64_one b64_zero" "b64_le b64_one b64_one"
  by (simp_all add: b64_le_def b64_one_def signed_def)

definition mk_edge :: "int \<Rightarrow> int \<Rightarrow> b64 \<Rightarrow> graph_edge" where
  "mk_edge a b w = \<lparr>e_from = a, e_to = b, e_rel = lit ''k'', e_weight = Some w, e_props = None\<rparr>"

theorem shortest_path_optimal_witness:
  "\<exists>r. shortest_path pop_least [mk_edge 1 2 b64_one] 1 2 2 = Some (Inr r) \<and> shortest [mk_edge 1 2 b64_one] 1 2 r"
  by (rule shortest_path_optimal [OF pop_least_ok]) (simp_all add: weights_ok_def mk_edge_def b64_one_ok)

text \<open>With a small depth limit a node settled by a long cheap path hides a shorter one: the search finds
  nothing although a path of three edges exists.\<close>

definition detour_db :: edge_db where
  "detour_db = [mk_edge 1 2 b64_one, mk_edge 2 3 b64_one, mk_edge 1 3 b64_zero, mk_edge 3 4 b64_one, mk_edge 4 5 b64_one]"

lemma depth_limit_hides_path:
  "shortest_path pop_least detour_db 1 5 3 = Some (Inr None) \<and> walk detour_db 1 5 b64_one [1, 3, 4, 5]"
proof
  show "shortest_path pop_least detour_db 1 5 3 = Some (Inr None)"
    unfolding shortest_path_def
    by (simp add: dj_loop.simps detour_db_def mk_edge_def graph_out_edges_def push_next_def Let_def edge_cost_one b64_add_zero b64_le_one
        del: b64_add.simps)
  have "walk detour_db 1 3 (b64_add b64_zero (edge_cost b64_zero)) ([1] @ [3])"
    using walk.move [OF walk.stay, of "mk_edge 1 3 b64_zero" detour_db 1 b64_zero] by (simp add: detour_db_def mk_edge_def)
  from walk.move [OF this, of "mk_edge 3 4 b64_one" b64_one]
  have "walk detour_db 1 4 b64_one [1, 3, 4]" by (simp add: detour_db_def mk_edge_def edge_cost_one b64_add_zero del: b64_add.simps)
  from walk.move [OF this, of "mk_edge 4 5 b64_one" b64_one]
  show "walk detour_db 1 5 b64_one [1, 3, 4, 5]" by (simp add: detour_db_def mk_edge_def edge_cost_one b64_add_zero del: b64_add.simps)
qed

section \<open>Traversal finds the hop layers\<close>

definition edge_step :: "edge_db \<Rightarrow> rstr option \<Rightarrow> int \<Rightarrow> int set" where
  "edge_step db rel x = e_to ` {e \<in> set db. e_from e = x \<and> (case rel of None \<Rightarrow> True | Some r \<Rightarrow> e_rel e = r)}"

lemma neighbors_all:
  assumes "weights_ok db" "length db \<le> top_k"
  obtains ns where "neighbors db x rel top_k = Inr ns" "fst ` set ns = edge_step db rel x"
proof -
  let ?es = "filter (\<lambda>e. e_from e = x \<and> (case rel of None \<Rightarrow> True | Some r \<Rightarrow> e_rel e = r)) db"
  have "length (sort_key weight_rank ?es) \<le> top_k" using assms(2) le_trans [OF length_filter_le] by simp
  then have t: "take top_k (sort_key weight_rank ?es) = sort_key weight_rank ?es" by simp
  have "\<forall>e \<in> set (sort_key weight_rank ?es). e_weight e \<noteq> None" using assms(1) by (auto simp: weights_ok_def)
  note r = read_neighbors_ok [OF this]
  show thesis
    by (rule that [of "map (\<lambda>e. (e_to e, the (e_weight e), e_rel e)) (sort_key weight_rank ?es)"])
      (simp_all add: neighbors_def t r edge_step_def image_image)
qed

abbreviation hit_depth :: "traversal_hit \<Rightarrow> nat" where
  "hit_depth h \<equiv> fst (snd (snd h))"

lemma expand_node_scanned: "scanned fst hit_depth depth (fst ` set ns) st (expand_node decay depth score chain ns st)"
proof (induction decay depth score chain ns st rule: expand_node.induct)
  case (2 decay depth score chain to_id w rel ns visited nxt)
  show ?case
  proof (cases "to_id \<in> set visited")
    case True
    have "scanned fst hit_depth depth {to_id} (visited, nxt) (visited, nxt)" using True by (simp add: scanned_def)
    from scanned_trans [OF this 2(1) [OF True]] show ?thesis using True by simp
  next
    case False
    let ?c = "if chain = [] then rel else chain @ lit ''->'' @ rel"
    let ?st = "(visited @ [to_id], nxt @ [(to_id, b64_mul (b64_mul score w) decay, depth, ?c)])"
    have "scanned fst hit_depth depth {to_id} (visited, nxt) ?st" using False by (auto simp: scanned_def)
    from scanned_trans [OF this 2(2) [OF False refl refl]] show ?thesis using False by (simp add: Let_def)
  qed
qed (simp add: scanned_nothing)

lemma expand_frontier_scanned:
  assumes "weights_ok db" "length db \<le> top_k"
  shows "\<exists>st'. expand_frontier db rel top_k decay depth fs st = Inr st' \<and>
    scanned fst hit_depth depth (\<Union>x \<in> fst ` set fs. edge_step db rel x) st st'"
proof (induction fs arbitrary: st)
  case (Cons f fs)
  obtain node score d chain where f: "f = (node, score, d, chain)" by (cases f)
  obtain ns where ns: "neighbors db node rel top_k = Inr ns" "fst ` set ns = edge_step db rel node"
    using neighbors_all [OF assms] by blast
  let ?st = "expand_node decay depth score chain ns st"
  obtain st' where st': "expand_frontier db rel top_k decay depth fs ?st = Inr st'"
    "scanned fst hit_depth depth (\<Union>x \<in> fst ` set fs. edge_step db rel x) ?st st'" using Cons.IH by blast
  have "scanned fst hit_depth depth (edge_step db rel node \<union> (\<Union>x \<in> fst ` set fs. edge_step db rel x)) st st'"
    using scanned_trans [OF expand_node_scanned [of depth ns st decay score chain] st'(2)] ns(2) by simp
  then show ?case using ns(1) st'(1) by (simp add: f)
qed (simp add: scanned_nothing)

definition hit_depths :: "traversal_hit list \<Rightarrow> (int \<times> nat) set" where
  "hit_depths hs = (\<lambda>h. (fst h, fst (snd (snd h)))) ` set hs"

lemma traverse_hops_exact:
  assumes "weights_ok db" "length db \<le> top_k"
  shows "set visited = within (edge_step db rel) u d \<Longrightarrow> fst ` set frontier = layer (edge_step db rel) u d \<Longrightarrow>
    distinct (map fst out) \<Longrightarrow> fst ` set out \<subseteq> within (edge_step db rel) u d \<Longrightarrow>
    \<exists>out'. traverse_hops pow_i db rel top_k score_decay n (Suc d) visited frontier out = Inr out' \<and>
      distinct (map fst out') \<and>
      hit_depths out' = hit_depths out \<union> {(v, k). d < k \<and> k \<le> d + n \<and> v \<in> layer (edge_step db rel) u k}"
proof (induction n arbitrary: d visited frontier out)
  case (Suc n)
  obtain st' where st': "expand_frontier db rel top_k (pow_i score_decay (Suc d)) (Suc d) frontier (visited, []) = Inr st'"
    "scanned fst hit_depth (Suc d) (\<Union>x \<in> fst ` set frontier. edge_step db rel x) (visited, []) st'"
    using expand_frontier_scanned [OF assms] by blast
  obtain new where new: "st' = (visited @ map fst new, new)" "distinct (map fst new)"
      "fst ` set new = layer (edge_step db rel) u (Suc d)" "\<forall>h \<in> set new. fst (snd (snd h)) = Suc d"
    using st'(2) unfolding scanned_def Suc.prems(2) by (cases st') (auto simp: Suc.prems(1) layer_step)
  have hd: "hit_depths (out @ new) = hit_depths out \<union> {(v, k). k = Suc d \<and> v \<in> layer (edge_step db rel) u (Suc d)}"
    using new(4) by (force simp: hit_depths_def simp flip: new(3))
  have dis: "distinct (map fst (out @ new))"
    using Suc.prems(3,4) new(2,3) by (auto simp: layer_def)
  note L = layer_split [of d n "edge_step db rel" u]
  show ?case
  proof (cases "new = []")
    case True
    then have e: "layer (edge_step db rel) u (Suc d) = {}" using new(3) by simp
    have "layer (edge_step db rel) u k = {}" if "d < k" for k
      using layer_stable [OF e, of "k - Suc d"] that by simp
    then show ?thesis using st'(1) new(1) True Suc.prems(3) by auto
  next
    case False
    have "set (visited @ map fst new) = within (edge_step db rel) u (Suc d)"
      using new(3) Suc.prems(1) by (auto simp: layer_def)
    moreover have "fst ` set (out @ new) \<subseteq> within (edge_step db rel) u (Suc d)"
      using Suc.prems(4) new(3) by (auto simp: layer_def)
    ultimately obtain out' where
      "traverse_hops pow_i db rel top_k score_decay n (Suc (Suc d)) (visited @ map fst new) new (out @ new) = Inr out'"
      "distinct (map fst out')"
      "hit_depths out' = hit_depths (out @ new) \<union> {(v, k). Suc d < k \<and> k \<le> Suc d + n \<and> v \<in> layer (edge_step db rel) u k}"
      using Suc.IH [OF _ new(3) dis] by blast
    then show ?thesis using st'(1) new(1) False unfolding L by (simp add: hd Un_assoc)
  qed
qed auto

text \<open>When the per-hop limit cuts nothing off, the traversal visits every node other than the start once
  and reports exactly the nodes within the depth limit, each at the length of a shortest path to it.\<close>

theorem traverse_exact:
  assumes "weights_ok db" "length db \<le> top_k"
    and "traverse pow_i nan_order db start_id max_depth top_k score_decay rel = Some (Inr hits)"
    and "\<forall>hs hs'. nan_order hs = Some hs' \<longrightarrow> mset hs' = mset hs"
  shows "distinct (map fst hits) \<and>
    hit_depths hits = {(v, k). 1 \<le> k \<and> k \<le> max_depth \<and> v \<in> layer (edge_step db rel) start_id k}"
proof -
  obtain out where out: "traverse_hops pow_i db rel top_k score_decay max_depth 1 [start_id] [(start_id, b64_one, 0, [])] [] = Inr out"
    "distinct (map fst out)" "hit_depths out = {(v, k). 0 < k \<and> k \<le> max_depth \<and> v \<in> layer (edge_step db rel) start_id k}"
    using traverse_hops_exact [OF assms(1,2), of "[start_id]" rel start_id 0 "[(start_id, b64_one, 0, [])]" "[]"
        pow_i score_decay max_depth]
    by (auto simp: layer_def hit_depths_def)
  have "sort_hits nan_order out = Some hits" using assms(3) out(1) by (simp add: traverse_def)
  then have m: "mset hits = mset out" using assms(4) by (auto simp: sort_hits_def split: if_splits)
  then have "set hits = set out" by (metis set_mset_mset)
  moreover have "mset (map fst hits) = mset (map fst out)" using m by simp
  then have "distinct (map fst hits)" using out(2) by (metis mset_eq_imp_distinct_iff)
  ultimately show ?thesis using out(3) by (auto simp: hit_depths_def)
qed

theorem traverse_exact_witness:
  "\<exists>hits. traverse (\<lambda>_ _. b64_one) Some [mk_edge 1 2 b64_zero] 1 1 1 b64_one None = Some (Inr hits) \<and> distinct (map fst hits)"
proof -
  obtain hits where h: "traverse (\<lambda>_ _. b64_one) Some [mk_edge 1 2 b64_zero] 1 1 1 b64_one None = Some (Inr hits)"
    by (cases "b64_key (b64_mul (b64_mul b64_one b64_zero) b64_one)") (simp_all add: traverse_def neighbors_def mk_edge_def sort_hits_def)
  have "weights_ok [mk_edge 1 2 b64_zero]" using b64_zero_cost by (simp add: weights_ok_def mk_edge_def b64_cost_def)
  from traverse_exact [OF this _ h] h show ?thesis by simp
qed

end
