(* ===== verification/Csr_Graph.thy ===== *)
theory Csr_Graph
  imports Edge_Graph
begin

text \<open>
  The compressed-row cache of the edge table, \<^verbatim>\<open>crates/synapse-graph/src/csr.rs\<close>: its construction by a
  counting sort over \<^verbatim>\<open>i32\<close> offsets, the lookups and the cache holder. Offsets wrap at 32 bits and an
  index out of range is a panic, the value None. The construction time, which is only stored, is left
  out. The query orders the rows by \<^verbatim>\<open>from_id\<close> only; the order among the rows of one node is SQLite's choice (an index
  scan gives descending weights), so it is an argument \<open>scan\<close> of the construction, a permutation of the table.
  The theorems bound the number of edges by $2^{30}$, so that no offset wraps, and say where they need at most 256
  relations, the range of \<^verbatim>\<open>u8\<close>.
\<close>

section \<open>Construction\<close>

definition i32_wrap :: "int \<Rightarrow> int" where
  "i32_wrap x = (x + 2 ^ 31) mod 2 ^ 32 - 2 ^ 31"

text \<open>\<^verbatim>\<open>i32 as usize\<close>.\<close>

definition usize_of_i32 :: "int \<Rightarrow> nat" where
  "usize_of_i32 x = nat (x mod 2 ^ 64)"

record csr_graph =
  indptr :: "int list"
  indices :: "int list"
  csr_weights :: "f32 list"
  csr_rels :: "nat list"
  rel_dict :: "rstr list"
  node_index :: "(int \<times> int) list"
  node_reverse :: "int list"
  csr_edge_count :: nat

definition csr_empty :: csr_graph where
  "csr_empty = \<lparr>indptr = [0], indices = [], csr_weights = [], csr_rels = [], rel_dict = [], node_index = [],
     node_reverse = [], csr_edge_count = 0\<rparr>"

text \<open>\<^verbatim>\<open>COALESCE(weight, 1.0)\<close>.\<close>

definition row_weight :: "graph_edge \<Rightarrow> b64" where
  "row_weight e = (case e_weight e of None \<Rightarrow> b64_one | Some w \<Rightarrow> w)"

fun intern_rels :: "graph_edge list \<Rightarrow> rstr list \<times> (rstr \<times> nat) list \<Rightarrow> rstr list \<times> (rstr \<times> nat) list" where
  "intern_rels [] st = st"
| "intern_rels (e # es) (dict, idx) =
     (if map_of idx (e_rel e) \<noteq> None then intern_rels es (dict, idx)
      else intern_rels es (dict @ [e_rel e], (e_rel e, length dict mod 256) # idx))"

fun csr_count :: "(int \<rightharpoonup> int) \<Rightarrow> graph_edge list \<Rightarrow> int list \<Rightarrow> int list option" where
  "csr_count ix [] p = Some p"
| "csr_count ix (e # es) p =
     (case ix (e_from e) of None \<Rightarrow> None
      | Some i \<Rightarrow> let k = (usize_of_i32 i + 1) mod 2 ^ 64 in
          if k < length p then csr_count ix es (p[k := i32_wrap (p ! k + 1)]) else None)"

fun csr_cumsum :: "nat \<Rightarrow> int list \<Rightarrow> int list" where
  "csr_cumsum 0 p = p"
| "csr_cumsum (Suc n) p = (let q = csr_cumsum n p in q[Suc n := i32_wrap (q ! Suc n + q ! n)])"

record csr_arrays =
  a_cur :: "int list"
  a_indices :: "int list"
  a_weights :: "f32 list"
  a_rels :: "nat list"

fun csr_fill :: "(int \<rightharpoonup> int) \<Rightarrow> (rstr \<rightharpoonup> nat) \<Rightarrow> graph_edge list \<Rightarrow> csr_arrays \<Rightarrow> csr_arrays option" where
  "csr_fill ix rix [] a = Some a"
| "csr_fill ix rix (e # es) a =
     (case (ix (e_from e), ix (e_to e), rix (e_rel e)) of
        (Some i, Some t, Some r) \<Rightarrow>
          let f_idx = usize_of_i32 i in
          if f_idx < length (a_cur a) then
            let pos = usize_of_i32 (a_cur a ! f_idx) in
            if pos < length (a_indices a) then
              csr_fill ix rix es \<lparr>a_cur = (a_cur a)[f_idx := i32_wrap (a_cur a ! f_idx + 1)],
                a_indices = (a_indices a)[pos := t],
                a_weights = (a_weights a)[pos := b64_to_f32 (row_weight e)],
                a_rels = (a_rels a)[pos := r]\<rparr>
            else None
          else None
      | _ \<Rightarrow> None)"

definition node_ids :: "graph_edge list \<Rightarrow> int list" where
  "node_ids es = sort (remdups (concat (map (\<lambda>e. [e_from e, e_to e]) es)))"

definition index_nodes :: "int list \<Rightarrow> (int \<times> int) list" where
  "index_nodes ns = zip ns (map (\<lambda>i. i32_wrap (int i)) [0..<length ns])"

definition csr_rebuild :: "(edge_db \<Rightarrow> edge_db) \<Rightarrow> edge_db \<Rightarrow> csr_graph option" where
  "csr_rebuild scan db =
     (let edges = sort_key e_from (scan db);
          reverse = node_ids edges;
          index = index_nodes reverse;
          (dict, rel_idx) = intern_rels edges ([], []);
          n_nodes = length reverse; n_edges = length edges
      in case csr_count (map_of index) edges (replicate (n_nodes + 1) 0) of
           None \<Rightarrow> None
         | Some counts \<Rightarrow>
             let ptr = csr_cumsum n_nodes counts in
             map_option (\<lambda>a. \<lparr>indptr = ptr, indices = a_indices a, csr_weights = a_weights a, csr_rels = a_rels a,
                 rel_dict = dict, node_index = index, node_reverse = reverse, csr_edge_count = n_edges\<rparr>)
               (csr_fill (map_of index) (map_of rel_idx) edges
                 \<lparr>a_cur = ptr, a_indices = replicate n_edges 0, a_weights = replicate n_edges (Fin False 0),
                  a_rels = replicate n_edges 0\<rparr>))"

section \<open>Lookups\<close>

text \<open>\<^verbatim>\<open>self.indptr.len() - 1\<close>; the vector is never empty.\<close>

definition csr_n_nodes :: "csr_graph \<Rightarrow> nat" where
  "csr_n_nodes g = length (indptr g) - 1"

definition csr_n_edges :: "csr_graph \<Rightarrow> nat" where
  "csr_n_edges g = csr_edge_count g"

text \<open>None is the panic of a slice out of range.\<close>

definition csr_neighbors :: "csr_graph \<Rightarrow> int \<Rightarrow> int list option" where
  "csr_neighbors g csr_idx =
     (let i = usize_of_i32 csr_idx in
      if length (indptr g) - 1 \<le> i then Some []
      else let s = usize_of_i32 (indptr g ! i); e = usize_of_i32 (indptr g ! (i + 1)) in
        if s \<le> e \<and> e \<le> length (indices g) then Some (slice (indices g) s e) else None)"

definition csr_weight :: "csr_graph \<Rightarrow> nat \<Rightarrow> f32 option" where
  "csr_weight g off = (if off < length (csr_weights g) then Some (csr_weights g ! off) else None)"

definition csr_rel :: "csr_graph \<Rightarrow> nat \<Rightarrow> rstr option" where
  "csr_rel g off = (if off < length (csr_rels g) \<and> csr_rels g ! off < length (rel_dict g)
     then Some (rel_dict g ! (csr_rels g ! off)) else None)"

definition brain_to_csr :: "csr_graph \<Rightarrow> int \<Rightarrow> int option" where
  "brain_to_csr g brain_id = map_of (node_index g) brain_id"

definition csr_to_brain :: "csr_graph \<Rightarrow> int \<Rightarrow> int option" where
  "csr_to_brain g csr_idx =
     (let i = usize_of_i32 csr_idx in if i < length (node_reverse g) then Some (node_reverse g ! i) else None)"

definition size_bytes :: "csr_graph \<Rightarrow> nat" where
  "size_bytes g = 4 * length (indptr g) + 4 * length (indices g) + 4 * length (csr_weights g) + length (csr_rels g) +
     sum_list (map (\<lambda>s. str_len s + 24) (rel_dict g)) + 16 * length (node_reverse g) + 32 * length (node_index g)"

section \<open>Cache\<close>

type_synonym csr_cache = "csr_graph option"

definition graph_cache_new :: csr_cache where
  "graph_cache_new = None"

text \<open>The outer None is a panic of the construction.\<close>

definition get_or_build :: "(edge_db \<Rightarrow> edge_db) \<Rightarrow> edge_db \<Rightarrow> csr_cache \<Rightarrow> (csr_graph \<times> csr_cache) option" where
  "get_or_build scan db c = (case c of
     None \<Rightarrow> map_option (\<lambda>g. (g, Some g)) (csr_rebuild scan db)
   | Some g \<Rightarrow> Some (g, Some g))"

definition invalidate :: "csr_cache \<Rightarrow> csr_cache" where
  "invalidate c = None"

definition cache_rebuild :: "(edge_db \<Rightarrow> edge_db) \<Rightarrow> edge_db \<Rightarrow> csr_cache \<Rightarrow> csr_cache option" where
  "cache_rebuild scan db c = map_option Some (csr_rebuild scan db)"

section \<open>Sorted lists and counts\<close>

lemma i32_small: "0 \<le> x \<Longrightarrow> x < 2 ^ 31 \<Longrightarrow> i32_wrap x = x"
  by (simp add: i32_wrap_def)

lemma usize_small: "n < 2 ^ 31 \<Longrightarrow> usize_of_i32 (int n) = n"
  by (simp add: usize_of_i32_def)

lemma sorted_partition:
  fixes f :: "'a \<Rightarrow> 'b::linorder"
  shows "sorted (map f xs) \<Longrightarrow> xs = filter (\<lambda>x. f x < k) xs @ filter (\<lambda>x. f x = k) xs @ filter (\<lambda>x. k < f x) xs"
proof (induction xs)
  case (Cons x xs)
  show ?case
  proof (cases "f x < k")
    case False
    then have "filter (\<lambda>x. f x < k) xs = []" using Cons.prems by (auto simp: filter_empty_conv)
    then have e: "xs = filter (\<lambda>x. f x = k) xs @ filter (\<lambda>x. k < f x) xs" using Cons by simp
    show ?thesis
    proof (cases "f x = k")
      case True
      then show ?thesis using Cons e by (simp add: \<open>filter (\<lambda>x. f x < k) xs = []\<close>)
    next
      case g: False
      then have "filter (\<lambda>x. f x = k) xs = []" using Cons.prems False by (auto simp: filter_empty_conv)
      then show ?thesis using False g e \<open>filter (\<lambda>x. f x < k) xs = []\<close> by simp
    qed
  next
    case True
    then have "f x \<noteq> k" "\<not> k < f x" by auto
    then show ?thesis using Cons True by simp
  qed
qed simp

text \<open>The entries before position \<open>k\<close> of a sorted list.\<close>

definition below :: "nat list \<Rightarrow> nat \<Rightarrow> nat" where
  "below F i = length (filter (\<lambda>x. x < i) F)"

lemma below_Suc: "below F (Suc i) = below F i + count_list F i"
  by (induction F) (auto simp: below_def)

lemma below_le: "below F i \<le> length F"
  by (simp add: below_def)

lemma sorted_position:
  assumes "sorted F" "k < length F"
  shows "below F (F ! k) + count_list (take k F) (F ! k) = k"
proof -
  let ?v = "F ! k"
  have t: "\<forall>x \<in> set (take k F). x \<le> ?v"
    using assms by (auto simp: in_set_conv_nth sorted_nth_mono)
  have d: "\<forall>x \<in> set (drop k F). ?v \<le> x"
    using assms by (auto simp: in_set_conv_nth sorted_nth_mono)
  have "filter (\<lambda>x. x < ?v) F = filter (\<lambda>x. x < ?v) (take k F) @ filter (\<lambda>x. x < ?v) (drop k F)"
    by (metis append_take_drop_id filter_append)
  also have "filter (\<lambda>x. x < ?v) (drop k F) = []" using d by (auto simp: filter_empty_conv)
  finally have b: "below F ?v = below (take k F) ?v" by (simp add: below_def)
  have "below (take k F) ?v + count_list (take k F) ?v = length (take k F)"
    using t unfolding below_Suc [symmetric] by (simp add: below_def filter_id_conv less_Suc_eq_le)
  then show ?thesis using assms(2) b by simp
qed

section \<open>The loops\<close>

text \<open>\<open>g\<close> gives the index of a node; \<open>F\<close> are the indices of the edges' sources.\<close>

lemma csr_count_ok:
  assumes "\<forall>e \<in> set es. ix (e_from e) = Some (int (g (e_from e))) \<and> Suc (g (e_from e)) < length p"
    and "\<forall>k < length p. 0 \<le> p ! k \<and> p ! k + int (length es) < 2 ^ 31" "length p < 2 ^ 31"
  shows "\<exists>q. csr_count ix es p = Some q \<and> length q = length p \<and>
    (\<forall>k < length p. q ! k = p ! k + (case k of 0 \<Rightarrow> 0 | Suc j \<Rightarrow> int (count_list (map (g \<circ> e_from) es) j)))"
  using assms
proof (induction es arbitrary: p)
  case Nil
  then show ?case by (simp split: nat.split)
next
  case (Cons e es)
  let ?k = "Suc (g (e_from e))"
  let ?p = "p[?k := i32_wrap (p ! ?k + 1)]"
  have k: "ix (e_from e) = Some (int (g (e_from e)))" "?k < length p" using Cons.prems(1) by simp_all
  have u: "(usize_of_i32 (int (g (e_from e))) + 1) mod 2 ^ 64 = ?k"
    using k(2) Cons.prems(3) usize_small [of "g (e_from e)"] by simp
  have w: "i32_wrap (p ! ?k + 1) = p ! ?k + 1" using Cons.prems(2) k(2) by (intro i32_small) auto
  have "0 \<le> ?p ! j \<and> ?p ! j + int (length es) < 2 ^ 31" if "j < length ?p" for j
    using Cons.prems(2) that k(2) by (cases "j = ?k") (auto simp: w)
  then have "\<forall>j < length ?p. 0 \<le> ?p ! j \<and> ?p ! j + int (length es) < 2 ^ 31" by blast
  moreover have "\<forall>d \<in> set es. ix (e_from d) = Some (int (g (e_from d))) \<and> Suc (g (e_from d)) < length ?p"
    using Cons.prems(1) by simp
  ultimately obtain q where q: "csr_count ix es ?p = Some q" "length q = length p"
    "\<forall>j < length p. q ! j = ?p ! j + (case j of 0 \<Rightarrow> 0 | Suc i \<Rightarrow> int (count_list (map (g \<circ> e_from) es) i))"
    using Cons.IH [of ?p] Cons.prems(3) by auto
  have "csr_count ix (e # es) p = Some q" using k q(1) u by (simp add: Let_def)
  moreover have "q ! j = p ! j + (case j of 0 \<Rightarrow> 0 | Suc i \<Rightarrow> int (count_list (map (g \<circ> e_from) (e # es)) i))"
    if "j < length p" for j
    using q(3) that w by (auto simp: nth_list_update split: nat.split)
  ultimately show ?case using q(2) by blast
qed

lemma csr_cumsum_ok:
  assumes "\<forall>k < length p. p ! k = (case k of 0 \<Rightarrow> 0 | Suc j \<Rightarrow> int (count_list F j))" "length F < 2 ^ 31" "n < length p"
  shows "length (csr_cumsum n p) = length p \<and>
    (\<forall>k < length p. csr_cumsum n p ! k = (if k \<le> n then int (below F k) else p ! k))"
  using assms(3)
proof (induction n)
  case 0
  then show ?case using assms(1) by (auto simp: below_def split: nat.split)
next
  case (Suc n)
  let ?q = "csr_cumsum n p"
  have IH: "length ?q = length p" "\<forall>k < length p. ?q ! k = (if k \<le> n then int (below F k) else p ! k)" using Suc by auto
  have v: "?q ! Suc n + ?q ! n = int (below F (Suc n))"
    using IH(2) Suc.prems assms(1) by (simp add: below_Suc)
  then have "i32_wrap (?q ! Suc n + ?q ! n) = int (below F (Suc n))"
    using below_le [of F "Suc n"] assms(2) unfolding v by (intro i32_small) auto
  then show ?case using IH Suc.prems by (auto simp: Let_def nth_list_update le_Suc_eq)
qed

text \<open>The arrays after the first \<open>k\<close> edges.\<close>

definition filled :: "(int \<Rightarrow> nat) \<Rightarrow> (rstr \<Rightarrow> nat) \<Rightarrow> nat \<Rightarrow> graph_edge list \<Rightarrow> nat \<Rightarrow> csr_arrays" where
  "filled g r m es k = (let F = map (g \<circ> e_from) es; n = length es in
     \<lparr>a_cur = map (\<lambda>i. int (below F i + count_list (take k F) i)) [0..<m],
      a_indices = map (int \<circ> g \<circ> e_to) (take k es) @ replicate (n - k) 0,
      a_weights = map (b64_to_f32 \<circ> row_weight) (take k es) @ replicate (n - k) (Fin False 0),
      a_rels = map (r \<circ> e_rel) (take k es) @ replicate (n - k) 0\<rparr>)"

lemma csr_arrays_collapse [simp]:
  "\<lparr>a_cur = a_cur x, a_indices = a_indices x, a_weights = a_weights x, a_rels = a_rels x\<rparr> = (x :: csr_arrays)"
  by (cases x) simp

lemma update_replicate:
  "length xs = k \<Longrightarrow> k < n \<Longrightarrow> (xs @ replicate (n - k) z)[k := y] = (xs @ [y]) @ replicate (n - Suc k) z"
  by (cases "n - k") (auto simp: list_update_append Suc_diff_Suc)

lemma csr_fill_ok:
  assumes srt: "sorted (map (g \<circ> e_from) es)" and len: "length es < 2 ^ 31" "m < 2 ^ 31"
    and ix: "\<forall>e \<in> set es. ix (e_from e) = Some (int (g (e_from e))) \<and> ix (e_to e) = Some (int (g (e_to e))) \<and>
      rix (e_rel e) = Some (r (e_rel e)) \<and> g (e_from e) < m"
    and k: "k \<le> length es"
  shows "csr_fill ix rix (drop k es) (filled g r m es k) = Some (filled g r m es (length es))"
  using k
proof (induction "length es - k" arbitrary: k)
  case 0
  then show ?case by simp
next
  case (Suc d)
  then have lt: "k < length es" by simp
  let ?F = "map (g \<circ> e_from) es" and ?e = "es ! k"
  let ?i = "g (e_from ?e)"
  have e: "?e \<in> set es" using lt by simp
  have m: "?i < m" "?i < 2 ^ 31" using ix e len(2) by auto
  have pos: "below ?F ?i + count_list (take k ?F) ?i = k" using sorted_position [OF srt, of k] lt by simp
  have cur: "a_cur (filled g r m es k) ! ?i = int k" using m pos by (simp add: filled_def Let_def del: of_nat_add)
  have next_cur: "(a_cur (filled g r m es k))[?i := i32_wrap (int k + 1)] = a_cur (filled g r m es (Suc k))"
  proof (rule nth_equalityI)
    fix j assume "j < length ((a_cur (filled g r m es k))[?i := i32_wrap (int k + 1)])"
    then have j: "j < m" by (simp add: filled_def Let_def)
    have t: "take (Suc k) ?F = take k ?F @ [?i]" using lt by (simp add: take_Suc_conv_app_nth)
    have "i32_wrap (int k + 1) = int k + 1" using lt len(1) by (intro i32_small) auto
    then show "(a_cur (filled g r m es k))[?i := i32_wrap (int k + 1)] ! j = a_cur (filled g r m es (Suc k)) ! j"
      using j pos by (auto simp: filled_def Let_def nth_list_update t)
  qed (simp add: filled_def Let_def)
  have step: "csr_fill ix rix (drop k es) (filled g r m es k) = csr_fill ix rix (drop (Suc k) es) (filled g r m es (Suc k))"
  proof -
    have d: "drop k es = ?e # drop (Suc k) es" using lt by (simp add: Cons_nth_drop_Suc)
    have t: "take (Suc k) es = take k es @ [?e]" using lt by (simp add: take_Suc_conv_app_nth)
    have arr: "(a_indices (filled g r m es k))[k := int (g (e_to ?e))] = a_indices (filled g r m es (Suc k))"
        "(a_weights (filled g r m es k))[k := b64_to_f32 (row_weight ?e)] = a_weights (filled g r m es (Suc k))"
        "(a_rels (filled g r m es k))[k := r (e_rel ?e)] = a_rels (filled g r m es (Suc k))"
      using lt by (simp_all add: filled_def Let_def update_replicate t)
    have l: "length (a_cur (filled g r m es k)) = m" "length (a_indices (filled g r m es k)) = length es"
      using lt by (simp_all add: filled_def Let_def)
    have uk: "usize_of_i32 (int k) = k" using lt len(1) by (intro usize_small) simp
    show ?thesis
      unfolding d using ix e m lt
      by (simp add: usize_small [OF m(2)] l cur uk arr next_cur Let_def)
  qed
  have "csr_fill ix rix (drop (Suc k) es) (filled g r m es (Suc k)) = Some (filled g r m es (length es))"
    using Suc lt by simp
  with step show ?case by simp
qed

section \<open>Relations\<close>

text \<open>The dictionary lists the relations once each; a relation's index is its position modulo 256.\<close>

definition rels_ok :: "rstr list \<times> (rstr \<times> nat) list \<Rightarrow> bool" where
  "rels_ok st \<longleftrightarrow> distinct (fst st) \<and> (\<forall>r i. map_of (snd st) r = Some i \<longleftrightarrow>
     (\<exists>k < length (fst st). fst st ! k = r \<and> i = k mod 256))"

lemma rels_ok_dom: "rels_ok st \<Longrightarrow> map_of (snd st) r \<noteq> None \<longleftrightarrow> r \<in> set (fst st)"
  unfolding rels_ok_def in_set_conv_nth by (metis not_None_eq)

lemma intern_rels_ok:
  "rels_ok st \<Longrightarrow> rels_ok (intern_rels es st) \<and> set (fst (intern_rels es st)) = set (fst st) \<union> e_rel ` set es"
proof (induction es st rule: intern_rels.induct)
  case (2 e es dict idx)
  show ?case
  proof (cases "map_of idx (e_rel e) \<noteq> None")
    case True
    then have "e_rel e \<in> set dict" using rels_ok_dom [OF 2(3)] by simp
    then show ?thesis using 2(1) [OF True 2(3)] True by (auto simp: insert_absorb)
  next
    case False
    then have new: "e_rel e \<notin> set dict" using rels_ok_dom [OF 2(3), of "e_rel e"] by simp
    have ok: "rels_ok (dict @ [e_rel e], (e_rel e, length dict mod 256) # idx)"
      using 2(3) new unfolding rels_ok_def
      by (auto simp: nth_append less_Suc_eq in_set_conv_nth split: if_splits)
    show ?thesis using 2(2) [OF _ ok] False by auto
  qed
qed simp

section \<open>The cache agrees with the table\<close>

definition index_of :: "int list \<Rightarrow> int \<Rightarrow> nat" where
  "index_of ns v = length (takeWhile (\<lambda>x. x \<noteq> v) ns)"

lemma index_of_nth: "v \<in> set ns \<Longrightarrow> index_of ns v < length ns \<and> ns ! index_of ns v = v"
  by (induction ns) (auto simp: index_of_def)

lemma index_of_mono:
  assumes "sorted ns" "u \<in> set ns" "v \<in> set ns" "u \<le> v"
  shows "index_of ns u \<le> index_of ns v"
proof (rule ccontr)
  assume n: "\<not> index_of ns u \<le> index_of ns v"
  then have "v \<le> u"
    using assms(1) index_of_nth [OF assms(2)] index_of_nth [OF assms(3)] sorted_nth_mono [of ns "index_of ns v" "index_of ns u"] by auto
  with assms(4) n show False by simp
qed

lemma index_nodes_of:
  assumes "distinct ns" "length ns < 2 ^ 31"
  shows "map_of (index_nodes ns) v = (if v \<in> set ns then Some (int (index_of ns v)) else None)"
proof (cases "v \<in> set ns")
  case True
  note i = index_of_nth [OF True]
  have "map_of (index_nodes ns) (ns ! index_of ns v) = Some (map (\<lambda>i. i32_wrap (int i)) [0..<length ns] ! index_of ns v)"
    unfolding index_nodes_def using assms(1) i by (intro map_of_zip_nth) auto
  then show ?thesis using True i assms(2) i32_small [of "int (index_of ns v)"] by simp
next
  case False
  then show ?thesis by (auto simp: index_nodes_def map_of_eq_None_iff dest: set_zip_leftD)
qed

lemma node_ids_set: "set (node_ids es) = e_from ` set es \<union> e_to ` set es"
  by (auto simp: node_ids_def)

lemma node_ids_sorted: "sorted (node_ids es)" "distinct (node_ids es)"
  by (simp_all add: node_ids_def)

lemma node_ids_length: "length (node_ids es) \<le> 2 * length es"
proof -
  have "length (node_ids es) \<le> length (concat (map (\<lambda>e. [e_from e, e_to e]) es))" by (simp add: node_ids_def)
  also have "\<dots> = 2 * length es" by (induction es) simp_all
  finally show ?thesis .
qed

text \<open>The graph that the construction gives.\<close>

definition sources :: "int list \<Rightarrow> graph_edge list \<Rightarrow> nat list" where
  "sources ns es = map (index_of ns \<circ> e_from) es"

definition csr_of :: "graph_edge list \<Rightarrow> csr_graph" where
  "csr_of es = (let ns = node_ids es; st = intern_rels es ([], []) in
     \<lparr>indptr = map (\<lambda>i. int (below (sources ns es) i)) [0..<length ns + 1],
      indices = map (int \<circ> index_of ns \<circ> e_to) es, csr_weights = map (b64_to_f32 \<circ> row_weight) es,
      csr_rels = map (\<lambda>e. the (map_of (snd st) (e_rel e))) es, rel_dict = fst st, node_index = index_nodes ns,
      node_reverse = ns, csr_edge_count = length es\<rparr>)"

lemma sources_sorted:
  assumes "sorted (map e_from es)"
  shows "sorted (sources (node_ids es) es)"
  using assms unfolding sources_def sorted_map
  by (rule sorted_wrt_mono_rel [rotated]) (auto intro!: index_of_mono node_ids_sorted(1) simp: node_ids_set)

lemma dict_ok: "rels_ok (intern_rels es ([], []))" "set (fst (intern_rels es ([], []))) = e_rel ` set es"
  using intern_rels_ok [of "([], [])" es] by (simp_all add: rels_ok_def)

lemma csr_rebuild_eq:
  assumes "length (scan db) < 2 ^ 30"
  shows "csr_rebuild scan db = Some (csr_of (sort_key e_from (scan db)))"
proof -
  define es where "es = sort_key e_from (scan db)"
  define ns where "ns = node_ids es"
  define F where "F = sources ns es"
  define st where "st = intern_rels es ([], [])"
  let ?g = "index_of ns" and ?ix = "map_of (index_nodes ns)" and ?r = "\<lambda>r. the (map_of (snd st) r)"
  have len: "length es < 2 ^ 30" "length es < 2 ^ 31" "length F = length es" using assms by (simp_all add: es_def F_def sources_def)
  have n: "length ns < 2 ^ 31" using node_ids_length [of es] len(1) by (simp add: ns_def)
  note ns = node_ids_sorted [of es, folded ns_def] node_ids_set [of es, folded ns_def]
  have in_ns: "e_from e \<in> set ns" "e_to e \<in> set ns" if "e \<in> set es" for e using that by (auto simp: ns(3))
  note st = dict_ok [of es, folded st_def]
  have rx: "map_of (snd st) (e_rel e) = Some (?r (e_rel e))" if "e \<in> set es" for e
    using rels_ok_dom [OF st(1), of "e_rel e"] st(2) that by auto
  have srt: "sorted F" unfolding F_def ns_def by (rule sources_sorted) (simp add: es_def)
  have ix: "?ix (e_from e) = Some (int (?g (e_from e)))" "?ix (e_to e) = Some (int (?g (e_to e)))" "?g (e_from e) < length ns"
    if "e \<in> set es" for e
    using in_ns [OF that] index_nodes_of [OF ns(2) n] index_of_nth by auto
  obtain q where q: "csr_count ?ix es (replicate (length ns + 1) 0) = Some q" "length q = length ns + 1"
    "\<forall>k < length ns + 1. q ! k = (case k of 0 \<Rightarrow> 0 | Suc j \<Rightarrow> int (count_list F j))"
  proof -
    have a: "\<forall>e \<in> set es. ?ix (e_from e) = Some (int (?g (e_from e))) \<and> Suc (?g (e_from e)) < length (replicate (length ns + 1) (0::int))"
      using ix by simp
    have b: "\<forall>k < length (replicate (length ns + 1) (0::int)). 0 \<le> replicate (length ns + 1) (0::int) ! k \<and>
        replicate (length ns + 1) 0 ! k + int (length es) < 2 ^ 31"
      using len(2) by (simp del: replicate_Suc)
    have c: "length (replicate (length ns + 1) (0::int)) < 2 ^ 31"
      using node_ids_length [of es] len(1) by (simp add: ns_def)
    obtain q where q: "csr_count ?ix es (replicate (length ns + 1) 0) = Some q" "length q = length (replicate (length ns + 1) (0::int))"
      "\<forall>k < length (replicate (length ns + 1) (0::int)). q ! k = replicate (length ns + 1) 0 ! k +
         (case k of 0 \<Rightarrow> 0 | Suc j \<Rightarrow> int (count_list (map (?g \<circ> e_from) es) j))"
      using csr_count_ok [OF a b c] by blast
    show thesis by (rule that [OF q(1)]) (unfold F_def sources_def, use q(2,3) in \<open>simp_all del: replicate_Suc\<close>)
  qed
  have ptr: "csr_cumsum (length ns) q = map (\<lambda>i. int (below F i)) [0..<length ns + 1]"
  proof (rule nth_equalityI)
    have "length F < 2 ^ 31" using len by simp
    note cs = csr_cumsum_ok [of q F "length ns", unfolded q(2), OF q(3) this]
    show "length (csr_cumsum (length ns) q) = length (map (\<lambda>i. int (below F i)) [0..<length ns + 1])" using cs by simp
    fix i assume "i < length (csr_cumsum (length ns) q)"
    then show "csr_cumsum (length ns) q ! i = map (\<lambda>i. int (below F i)) [0..<length ns + 1] ! i" using cs by (simp del: upt_Suc)
  qed
  have init: "\<lparr>a_cur = csr_cumsum (length ns) q, a_indices = replicate (length es) 0, a_weights = replicate (length es) (Fin False 0),
      a_rels = replicate (length es) 0\<rparr> = filled ?g ?r (length ns + 1) es 0"
    by (simp add: filled_def Let_def ptr F_def sources_def)
  have "csr_fill ?ix (map_of (snd st)) (drop 0 es) (filled ?g ?r (length ns + 1) es 0) = Some (filled ?g ?r (length ns + 1) es (length es))"
  proof (rule csr_fill_ok)
    show "sorted (map (?g \<circ> e_from) es)" using srt by (simp add: F_def sources_def)
    show "length ns + 1 < 2 ^ 31" using node_ids_length [of es] len(1) by (simp add: ns_def)
    show "\<forall>e \<in> set es. ?ix (e_from e) = Some (int (?g (e_from e))) \<and> ?ix (e_to e) = Some (int (?g (e_to e))) \<and>
        map_of (snd st) (e_rel e) = Some (?r (e_rel e)) \<and> ?g (e_from e) < length ns + 1"
      using ix rx by (metis add.commute less_Suc_eq plus_1_eq_Suc)
  qed (use len in simp_all)
  then have "csr_fill ?ix (map_of (snd st)) es
      \<lparr>a_cur = csr_cumsum (length ns) q, a_indices = replicate (length es) 0, a_weights = replicate (length es) (Fin False 0),
       a_rels = replicate (length es) 0\<rparr> = Some (filled ?g ?r (length ns + 1) es (length es))" by (simp only: init drop_0)
  then show ?thesis
    unfolding csr_rebuild_def csr_of_def Let_def es_def [symmetric] ns_def [symmetric] st_def [symmetric] F_def [symmetric]
    by (simp only: split_beta q(1) option.case ptr) (simp add: filled_def Let_def comp_def del: upt_Suc)
qed

text \<open>The slice between two offsets holds the edges of one node.\<close>

lemma slice_of_node:
  assumes "sorted (map f es)"
  shows "slice es (below (map f es) i) (below (map f es) (Suc i)) = filter (\<lambda>e. f e = i) es"
proof -
  have l: "below (map f es) i = length (filter (\<lambda>e. f e < i) es)" "count_list (map f es) i = length (filter (\<lambda>e. f e = i) es)"
    by (simp_all add: below_def filter_map comp_def) (induction es; simp)
  have "slice (filter (\<lambda>e. f e < i) es @ filter (\<lambda>e. f e = i) es @ filter (\<lambda>e. i < f e) es)
      (below (map f es) i) (below (map f es) (Suc i)) = filter (\<lambda>e. f e = i) es"
    by (simp add: below_Suc l slice_def)
  then show ?thesis using sorted_partition [OF assms, of i] by simp
qed

lemma slice_map: "slice (map h xs) i j = map h (slice xs i j)"
  by (simp add: slice_def take_map drop_map)

lemma nodes_small: "length es < 2 ^ 30 \<Longrightarrow> length (node_ids es) < 2 ^ 31"
  using node_ids_length [of es] by simp

lemma csr_of_index:
  "length es < 2 ^ 30 \<Longrightarrow>
   brain_to_csr (csr_of es) v = (if v \<in> set (node_ids es) then Some (int (index_of (node_ids es) v)) else None)"
  using index_nodes_of [OF node_ids_sorted(2) nodes_small] by (simp add: brain_to_csr_def csr_of_def Let_def)

lemma csr_of_reverse:
  "length es < 2 ^ 30 \<Longrightarrow> v \<in> set (node_ids es) \<Longrightarrow> csr_to_brain (csr_of es) (int (index_of (node_ids es) v)) = Some v"
  using index_of_nth [of v "node_ids es"] nodes_small [of es] usize_small [of "index_of (node_ids es) v"]
  by (simp add: csr_to_brain_def csr_of_def Let_def)

lemma csr_of_neighbors:
  assumes small: "length es < 2 ^ 30" and by_from: "sorted (map e_from es)" and "v \<in> set (node_ids es)"
  shows "csr_neighbors (csr_of es) (int (index_of (node_ids es) v)) =
    Some (map (int \<circ> index_of (node_ids es) \<circ> e_to) (filter (\<lambda>e. e_from e = v) es))"
proof -
  define ns where "ns = node_ids es"
  define F where "F = sources ns es"
  let ?i = "index_of ns v"
  have i: "?i < length ns" "ns ! ?i = v" using index_of_nth assms(3) by (simp_all add: ns_def)
  have wrap: "usize_of_i32 (int (below F j)) = below F j" for j
    using below_le [of F j] small by (intro usize_small) (simp add: F_def sources_def)
  have "below F ?i \<le> below F (Suc ?i)" "below F (Suc ?i) \<le> length es"
    using below_le [of F "Suc ?i"] by (simp_all add: below_Suc F_def sources_def)
  moreover have "slice es (below F ?i) (below F (Suc ?i)) = filter (\<lambda>e. (index_of ns \<circ> e_from) e = ?i) es"
    using slice_of_node [of "index_of ns \<circ> e_from" es ?i] sources_sorted [OF by_from] by (simp add: F_def ns_def sources_def)
  moreover have "filter (\<lambda>e. (index_of ns \<circ> e_from) e = ?i) es = filter (\<lambda>e. e_from e = v) es"
  proof (rule filter_cong [OF refl])
    fix e assume "e \<in> set es"
    then have "e_from e \<in> set ns" by (simp add: ns_def node_ids_set)
    then show "((index_of ns \<circ> e_from) e = ?i) = (e_from e = v)" using index_of_nth i by (metis comp_apply)
  qed
  moreover have "usize_of_i32 (int ?i) = ?i" using i nodes_small [OF small] by (intro usize_small) (simp add: ns_def)
  ultimately show ?thesis
    using i(1) unfolding ns_def [symmetric]
    by (simp add: csr_neighbors_def csr_of_def Let_def slice_map nth_append wrap ns_def [symmetric] F_def [symmetric] del: upt_Suc)
qed

lemma csr_of_targets:
  "length es < 2 ^ 30 \<Longrightarrow>
   map (csr_to_brain (csr_of es)) (map (int \<circ> index_of (node_ids es) \<circ> e_to) (filter (\<lambda>e. e_from e = v) es)) =
     map (Some \<circ> e_to) (filter (\<lambda>e. e_from e = v) es)"
  by (auto simp: csr_of_reverse node_ids_set)

text \<open>The relation of an edge is looked up at its dictionary position modulo 256.\<close>

lemma csr_of_rel:
  assumes "k < length es" "j < length (rel_dict (csr_of es))" "rel_dict (csr_of es) ! j = e_rel (es ! k)"
  shows "csr_rel (csr_of es) k = Some (rel_dict (csr_of es) ! (j mod 256))"
proof -
  note st = dict_ok [of es]
  have "map_of (snd (intern_rels es ([], []))) (e_rel (es ! k)) = Some (j mod 256)"
    using st(1) assms(2,3) unfolding rels_ok_def csr_of_def Let_def by auto
  moreover have "j mod 256 < length (rel_dict (csr_of es))" using assms(2) mod_less_eq_dividend [of j 256] by linarith
  ultimately show ?thesis using assms(1) by (simp add: csr_rel_def csr_of_def Let_def)
qed

lemma csr_rel_wraps:
  assumes "k < length es" "256 \<le> j" "j < length (rel_dict (csr_of es))" "rel_dict (csr_of es) ! j = e_rel (es ! k)"
  shows "\<exists>r. csr_rel (csr_of es) k = Some r \<and> r \<noteq> e_rel (es ! k)"
proof -
  have "distinct (rel_dict (csr_of es))" using dict_ok(1) [of es] by (simp add: csr_of_def Let_def rels_ok_def)
  moreover have "j mod 256 \<noteq> j" "j mod 256 < length (rel_dict (csr_of es))"
    using assms(2,3) mod_less_divisor [of 256 j] by linarith+
  ultimately have "rel_dict (csr_of es) ! (j mod 256) \<noteq> rel_dict (csr_of es) ! j" using assms(3) by (simp add: nth_eq_iff_index_eq)
  then show ?thesis using csr_of_rel [OF assms(1,3,4)] assms(4) by simp
qed

lemma csr_of_rel_exact:
  assumes "k < length es" "card (e_rel ` set es) \<le> 256"
  shows "csr_rel (csr_of es) k = Some (e_rel (es ! k))"
proof -
  have d: "distinct (rel_dict (csr_of es))" "set (rel_dict (csr_of es)) = e_rel ` set es"
    using dict_ok [of es] by (simp_all add: csr_of_def Let_def rels_ok_def)
  have "length (rel_dict (csr_of es)) \<le> 256" using d assms(2) distinct_card by fastforce
  moreover have "e_rel (es ! k) \<in> set (rel_dict (csr_of es))" using d(2) assms(1) by simp
  then obtain j where j: "j < length (rel_dict (csr_of es))" "rel_dict (csr_of es) ! j = e_rel (es ! k)"
    by (auto simp: in_set_conv_nth)
  ultimately show ?thesis using csr_of_rel [OF assms(1) j] by simp
qed

text \<open>The rows of a node, at the offsets of its slice.\<close>

lemma csr_of_slots:
  assumes small: "length es < 2 ^ 30" and by_from: "sorted (map e_from es)" and v: "v \<in> set (node_ids es)"
  defines "rows \<equiv> filter (\<lambda>e. e_from e = v) es"
  shows "\<exists>s. indptr (csr_of es) ! index_of (node_ids es) v = int s \<and> s + length rows \<le> length es \<and> (\<forall>k < length rows. es ! (s + k) = rows ! k)"
proof -
  define ns where "ns = node_ids es"
  define F where "F = sources ns es"
  let ?i = "index_of ns v"
  have i: "?i < length ns" "ns ! ?i = v" using index_of_nth v by (simp_all add: ns_def)
  have "filter (\<lambda>e. (index_of ns \<circ> e_from) e = ?i) es = rows" unfolding rows_def
  proof (rule filter_cong [OF refl])
    fix e assume "e \<in> set es"
    then have "e_from e \<in> set ns" by (simp add: ns_def node_ids_set)
    then show "((index_of ns \<circ> e_from) e = ?i) = (e_from e = v)" using index_of_nth i by (metis comp_apply)
  qed
  then have sl: "slice es (below F ?i) (below F (Suc ?i)) = rows"
    using slice_of_node [of "index_of ns \<circ> e_from" es ?i] sources_sorted [OF by_from] by (simp add: F_def ns_def sources_def)
  have le: "below F (Suc ?i) \<le> length es" using below_le [of F "Suc ?i"] by (simp add: F_def sources_def)
  have len: "length rows = below F (Suc ?i) - below F ?i" using sl le by (auto simp: slice_def)
  have "es ! (below F ?i + k) = rows ! k" if "k < length rows" for k
    using that le by (auto simp: sl [symmetric] slice_def)
  moreover have "indptr (csr_of es) ! ?i = int (below F ?i)"
    using i(1) unfolding ns_def F_def by (simp add: csr_of_def Let_def nth_append del: upt_Suc)
  moreover have "below F ?i \<le> below F (Suc ?i)" by (simp add: below_Suc)
  ultimately show ?thesis using le len unfolding ns_def [symmetric] by (intro exI [of _ "below F ?i"]) simp
qed

text \<open>C27. For a table of fewer than $2^{30}$ edges, and in whatever order SQLite delivers the rows of a node, the construction succeeds, and
  the cache says what the table says: it knows exactly the nodes of the table, and the slots of a node hold its rows, each
  once: the targets, at the same offsets the weights rounded to \<^verbatim>\<open>f32\<close>, and, when the table has at most 256 relations, the relation names.\<close>

theorem csr_rebuild_exact:
  assumes "length db < 2 ^ 30" and scan: "mset (scan db) = mset db"
  shows "\<exists>g. csr_rebuild scan db = Some g \<and> csr_n_edges g = edge_count db \<and>
    csr_n_nodes g = card (e_from ` set db \<union> e_to ` set db) \<and>
    (\<forall>v. brain_to_csr g v \<noteq> None \<longleftrightarrow> v \<in> e_from ` set db \<union> e_to ` set db) \<and>
    (\<forall>v i. brain_to_csr g v = Some i \<longrightarrow> csr_to_brain g i = Some v \<and>
       (\<exists>rows ts s. mset rows = mset (filter (\<lambda>e. e_from e = v) db) \<and> indptr g ! usize_of_i32 i = int s \<and>
          csr_neighbors g i = Some ts \<and> map (csr_to_brain g) ts = map (Some \<circ> e_to) rows \<and>
          (\<forall>k < length rows. csr_weight g (s + k) = Some (b64_to_f32 (row_weight (rows ! k))) \<and>
             (card (e_rel ` set db) \<le> 256 \<longrightarrow> csr_rel g (s + k) = Some (e_rel (rows ! k))))))"
proof -
  define es where "es = sort_key e_from (scan db)"
  define g where "g = csr_of es"
  have m: "mset es = mset db" using scan by (simp add: es_def)
  have es: "set es = set db" "length es = length db" using m mset_eq_setD mset_eq_length by blast+
  have sm: "length es < 2 ^ 30" "sorted (map e_from es)" using assms(1) es by (simp_all add: es_def)
  have g: "csr_rebuild scan db = Some g" using csr_rebuild_eq [of scan db] sm(1) by (simp add: g_def es_def)
  note ns = node_ids_set [of es, unfolded es(1)]
  have nn: "csr_n_nodes g = card (e_from ` set db \<union> e_to ` set db)"
    using distinct_card [OF node_ids_sorted(2) [of es]] ns by (simp add: csr_n_nodes_def g_def csr_of_def Let_def)
  have w: "csr_weight g k = Some (b64_to_f32 (row_weight (es ! k)))" if "k < length es" for k
    using that by (simp add: csr_weight_def g_def csr_of_def Let_def)
  have r: "csr_rel g k = Some (e_rel (es ! k))" if "k < length es" "card (e_rel ` set db) \<le> 256" for k
    using csr_of_rel_exact [of k es] that es by (simp add: g_def)
  have nodes: "csr_to_brain g i = Some v \<and> (\<exists>rows ts s. mset rows = mset (filter (\<lambda>e. e_from e = v) db) \<and> indptr g ! usize_of_i32 i = int s \<and>
      csr_neighbors g i = Some ts \<and> map (csr_to_brain g) ts = map (Some \<circ> e_to) rows \<and>
      (\<forall>k < length rows. csr_weight g (s + k) = Some (b64_to_f32 (row_weight (rows ! k))) \<and>
         (card (e_rel ` set db) \<le> 256 \<longrightarrow> csr_rel g (s + k) = Some (e_rel (rows ! k)))))" if b: "brain_to_csr g v = Some i" for v i
  proof -
    have v: "v \<in> set (node_ids es)" "i = int (index_of (node_ids es) v)"
      using b csr_of_index [OF sm(1), of v] by (auto simp: g_def split: if_splits)
    let ?rows = "filter (\<lambda>e. e_from e = v) es"
    obtain s where s: "indptr g ! index_of (node_ids es) v = int s" "s + length ?rows \<le> length es" "\<forall>k < length ?rows. es ! (s + k) = ?rows ! k"
      using csr_of_slots [OF sm v(1)] unfolding g_def by blast
    have 1: "usize_of_i32 i = index_of (node_ids es) v"
      using index_of_nth(1) [OF v(1)] nodes_small [OF sm(1)] usize_small [of "index_of (node_ids es) v"] v(2) by simp
    have 2: "mset ?rows = mset (filter (\<lambda>e. e_from e = v) db)" using m by (simp add: mset_filter)
    have 3: "\<forall>k < length ?rows. csr_weight g (s + k) = Some (b64_to_f32 (row_weight (?rows ! k))) \<and>
        (card (e_rel ` set db) \<le> 256 \<longrightarrow> csr_rel g (s + k) = Some (e_rel (?rows ! k)))"
    proof (intro allI impI conjI)
      fix k assume k: "k < length ?rows"
      then have "s + k < length es" using s(2) by linarith
      then show "csr_weight g (s + k) = Some (b64_to_f32 (row_weight (?rows ! k)))" "card (e_rel ` set db) \<le> 256 \<Longrightarrow> csr_rel g (s + k) = Some (e_rel (?rows ! k))"
        using w r s(3) k by simp_all
    qed
    have 4: "csr_to_brain g i = Some v" using csr_of_reverse [OF sm(1) v(1)] by (simp add: g_def v(2))
    have 5: "csr_neighbors g i = Some (map (int \<circ> index_of (node_ids es) \<circ> e_to) ?rows)"
      using csr_of_neighbors [OF sm v(1)] by (simp add: g_def v(2))
    have 6: "map (csr_to_brain g) (map (int \<circ> index_of (node_ids es) \<circ> e_to) ?rows) = map (Some \<circ> e_to) ?rows"
      using csr_of_targets [OF sm(1), of v] by (simp add: g_def)
    have 7: "indptr g ! usize_of_i32 i = int s" using s(1) by (simp only: 1)
    show ?thesis using 2 3 4 5 6 7 by blast
  qed
  have dom: "brain_to_csr g v \<noteq> None \<longleftrightarrow> v \<in> e_from ` set db \<union> e_to ` set db" for v
    using csr_of_index [OF sm(1), of v] by (simp add: g_def ns)
  have ne: "csr_n_edges g = edge_count db" by (simp add: csr_n_edges_def edge_count_def g_def csr_of_def Let_def es(2))
  show ?thesis using g ne nn nodes dom by blast
qed

theorem csr_rebuild_exact_witness:
  "\<exists>g i. csr_rebuild rev [mk_edge 1 2 b64_one, mk_edge 1 3 b64_zero] = Some g \<and> csr_n_edges g = 2 \<and> brain_to_csr g 1 = Some i \<and>
    (\<exists>ts. csr_neighbors g i = Some ts \<and> mset (map (csr_to_brain g) ts) = {#Some 2, Some 3#})"
proof -
  let ?db = "[mk_edge 1 2 b64_one, mk_edge 1 3 b64_zero]"
  obtain g where g: "csr_rebuild rev ?db = Some g" "csr_n_edges g = 2" "brain_to_csr g 1 \<noteq> None"
      and n: "\<And>v i. brain_to_csr g v = Some i \<Longrightarrow> \<exists>rows ts. mset rows = mset (filter (\<lambda>e. e_from e = v) ?db) \<and>
        csr_neighbors g i = Some ts \<and> map (csr_to_brain g) ts = map (Some \<circ> e_to) rows"
  proof -
    obtain g where "csr_rebuild rev ?db = Some g" "csr_n_edges g = edge_count ?db" "brain_to_csr g 1 \<noteq> None"
        "\<forall>v i. brain_to_csr g v = Some i \<longrightarrow> (\<exists>rows ts. mset rows = mset (filter (\<lambda>e. e_from e = v) ?db) \<and>
          csr_neighbors g i = Some ts \<and> map (csr_to_brain g) ts = map (Some \<circ> e_to) rows)"
      using csr_rebuild_exact [of ?db rev] by (simp add: mk_edge_def del: filter.simps) blast
    then show thesis using that [of g] by (simp add: edge_count_def)
  qed
  obtain i where i: "brain_to_csr g 1 = Some i" using g(3) by blast
  obtain rows ts where r: "mset rows = mset (filter (\<lambda>e. e_from e = 1) ?db)" "csr_neighbors g i = Some ts"
      "map (csr_to_brain g) ts = map (Some \<circ> e_to) rows" using n [OF i] by blast
  have "mset (map (csr_to_brain g) ts) = image_mset (Some \<circ> e_to) (mset rows)" unfolding r(3) by simp
  then have "mset (map (csr_to_brain g) ts) = {#Some 2, Some 3#}" unfolding r(1) by (simp add: mk_edge_def)
  then show ?thesis using g i r(2) by blast
qed

text \<open>A rebuilt or invalidated cache gives the graph of the current table; otherwise the cache keeps the
  graph it was built with.\<close>

lemma cache_current:
  assumes "length (scan db) < 2 ^ 30"
  shows "get_or_build scan db (invalidate c) = Some (csr_of (sort_key e_from (scan db)), Some (csr_of (sort_key e_from (scan db))))"
    "cache_rebuild scan db c = Some (Some (csr_of (sort_key e_from (scan db))))"
    "get_or_build scan db (Some g) = Some (g, Some g)"
  by (simp_all add: get_or_build_def invalidate_def cache_rebuild_def csr_rebuild_eq [of scan db, OF assms])

end
