(* ===== verification/Utf8_Facts.thy ===== *)
theory Utf8_Facts
  imports Rust_Text
begin

text \<open>
  UTF-8 encoding determines the text, and an ASCII separator byte occurs in it only where the text has
  that character. Both are what keys built from separated fields rest on.
\<close>

definition scalars :: "rstr \<Rightarrow> bool" where
  "scalars s \<longleftrightarrow> (\<forall>c \<in> set s. c < 1114112)"

text \<open>The encoding as numbers.\<close>

definition utf8_nats :: "rchar \<Rightarrow> nat list" where
  "utf8_nats c =
     (if c < 128 then [c]
      else if c < 2048 then [192 + c div 64, 128 + c mod 64]
      else if c < 65536 then [224 + c div 4096, 128 + c div 64 mod 64, 128 + c mod 64]
      else [240 + c div 262144, 128 + c div 4096 mod 64, 128 + c div 64 mod 64, 128 + c mod 64])"

lemma unat_byte: "n < 256 \<Longrightarrow> unat (word_of_nat n :: byte) = n"
  by (simp add: unat_of_nat)

lemma utf8_char_nats: "c < 1114112 \<Longrightarrow> map unat (utf8_char c) = utf8_nats c"
proof -
  assume c: "c < 1114112"
  have "192 + c div 64 < 256" if "c < 2048" using that by (simp add: less_mult_imp_div_less)
  moreover have "224 + c div 4096 < 256" if "c < 65536" using less_mult_imp_div_less [of c 16 4096] that by simp
  moreover have "240 + c div 262144 < 256" using less_mult_imp_div_less [of c 5 262144] c by simp
  moreover have "128 + x mod 64 < 256" for x :: nat using mod_less_divisor [of 64 x] by linarith
  ultimately show ?thesis unfolding utf8_char_def utf8_nats_def
    by (simp add: unat_byte del: of_nat_add)
qed

lemma digits_eq: fixes c d :: nat assumes "c div k = d div k" "c mod k = d mod k" shows "c = d"
  using assms by (metis div_mult_mod_eq)

lemma utf8_nats_prefix:
  assumes "c < 1114112" "d < 1114112" "utf8_nats c @ r = utf8_nats d @ s"
  shows "c = d \<and> r = s"
proof -
  have b: "x < 2048 \<Longrightarrow> x div 64 < 32" "x < 65536 \<Longrightarrow> x div 4096 < 16" "x < 1114112 \<Longrightarrow> x div 262144 < 5" for x :: nat
    by (simp_all add: less_mult_imp_div_less)
  have two: "x = y" if "x div 4096 = y div 4096" "x div 64 mod 64 = y div 64 mod 64" "x mod 64 = y mod 64" for x y :: nat
  proof -
    have "x div 64 div 64 = y div 64 div 64" using that(1) by (simp add: div_mult2_eq [symmetric])
    then have "x div 64 = y div 64" using that(2) digits_eq by blast
    then show ?thesis using that(3) digits_eq by blast
  qed
  have three: "x = y" if "x div 262144 = y div 262144" "x div 4096 mod 64 = y div 4096 mod 64"
      "x div 64 mod 64 = y div 64 mod 64" "x mod 64 = y mod 64" for x y :: nat
  proof -
    have "x div 4096 div 64 = y div 4096 div 64" using that(1) by (simp add: div_mult2_eq [symmetric])
    then have "x div 4096 = y div 4096" using that(2) digits_eq by blast
    then show ?thesis using that(3,4) two by blast
  qed
  show ?thesis
    using assms b [of c] b [of d] unfolding utf8_nats_def
    by (auto split: if_splits intro: digits_eq two three)
qed

lemma utf8_char_prefix:
  assumes "c < 1114112" "d < 1114112" "utf8_char c @ r = utf8_char d @ s"
  shows "c = d \<and> r = s"
proof -
  have "utf8_nats c @ map unat r = utf8_nats d @ map unat s"
    using arg_cong [OF assms(3), of "map unat"] utf8_char_nats assms(1,2) by simp
  then have "c = d" using utf8_nats_prefix [OF assms(1,2)] by blast
  with assms(3) show ?thesis by simp
qed

lemma utf8_char_nonempty: "utf8_char c \<noteq> []"
  by (simp add: utf8_char_def)

lemma utf8_inj: "scalars s \<Longrightarrow> scalars t \<Longrightarrow> utf8 s = utf8 t \<Longrightarrow> s = t"
proof (induction s arbitrary: t)
  case Nil
  then show ?case by (cases t) (auto simp: utf8_def utf8_char_nonempty)
next
  case (Cons c s)
  then obtain d t' where t: "t = d # t'" by (cases t) (auto simp: utf8_def utf8_char_nonempty)
  have "utf8_char c @ utf8 s = utf8_char d @ utf8 t'" using Cons.prems(3) by (simp add: t utf8_def)
  then have "c = d \<and> utf8 s = utf8 t'" using Cons.prems(1,2) by (intro utf8_char_prefix) (auto simp: t scalars_def)
  then show ?case using Cons by (auto simp: t scalars_def)
qed

text \<open>An ASCII byte in the encoding is that character of the text.\<close>

lemma utf8_ascii_byte:
  assumes "scalars s" "k < 128"
  shows "word_of_nat k \<in> set (utf8 s) \<longleftrightarrow> k \<in> set s"
proof -
  have "word_of_nat k \<in> set (utf8_char c) \<longleftrightarrow> c = k" if "c < 1114112" for c
  proof -
    have "word_of_nat k \<in> set (utf8_char c) \<longleftrightarrow> k \<in> set (map unat (utf8_char c))"
    proof
      assume "word_of_nat k \<in> set (utf8_char c)"
      then have "unat (word_of_nat k :: byte) \<in> unat ` set (utf8_char c)" by (rule imageI)
      then show "k \<in> set (map unat (utf8_char c))" using unat_byte [of k] assms(2) by simp
    qed auto
    also have "\<dots> \<longleftrightarrow> c = k" unfolding utf8_char_nats [OF that] using assms(2) by (auto simp: utf8_nats_def)
    finally show ?thesis .
  qed
  then show ?thesis using assms(1) by (auto simp: utf8_def scalars_def)
qed

lemma separated_eq: "c \<notin> set x \<Longrightarrow> c \<notin> set y \<Longrightarrow> x @ c # r = y @ c # s \<Longrightarrow> x = y \<and> r = s"
proof (induction x arbitrary: y)
  case Nil
  then show ?case by (cases y) auto
next
  case (Cons a x)
  then show ?case by (cases y) auto
qed

end
