(* ===== verification/Event_Log.thy ===== *)
theory Event_Log
  imports Utf8_Facts Float64 "HOL-Library.Multiset"
begin

text \<open>
  The event log of \<^verbatim>\<open>crates/synapse-ultra/src/events.rs\<close> with the tables and triggers of
  \<^verbatim>\<open>schema.rs\<close>: events deduplicated by a BLAKE3 key, decisions whose trigger fills the decision
  graph, token costs and sessions. Tables are row lists; \<^verbatim>\<open>AUTOINCREMENT\<close> ids are one more than the
  largest id ever used. BLAKE3, zstd, JSON and the FTS5 matcher are arguments. The ids of sessions,
  nodes and edges and the columns for valid and transaction time are not read by this code and are
  left out. SQLite stores a NaN as NULL, which a \<^verbatim>\<open>NOT NULL\<close> column refuses.
\<close>

section \<open>Data\<close>

datatype event_kind =
    SessionStart | SessionEnd | ToolCall | ToolResult | Decision | FileWrite | FileRead | Message | Error
  | Feedback | Custom rstr

fun kind_as_str :: "event_kind \<Rightarrow> rstr" where
  "kind_as_str SessionStart = lit ''session_start''"
| "kind_as_str SessionEnd = lit ''session_end''"
| "kind_as_str ToolCall = lit ''tool_call''"
| "kind_as_str ToolResult = lit ''tool_result''"
| "kind_as_str Decision = lit ''decision''"
| "kind_as_str FileWrite = lit ''file_write''"
| "kind_as_str FileRead = lit ''file_read''"
| "kind_as_str Message = lit ''message''"
| "kind_as_str Error = lit ''error''"
| "kind_as_str Feedback = lit ''feedback''"
| "kind_as_str (Custom s) = s"

definition kind_from_str :: "rstr \<Rightarrow> event_kind" where
  "kind_from_str s =
     (if s = lit ''session_start'' then SessionStart
      else if s = lit ''session_end'' then SessionEnd
      else if s = lit ''tool_call'' then ToolCall
      else if s = lit ''tool_result'' then ToolResult
      else if s = lit ''decision'' then Decision
      else if s = lit ''file_write'' then FileWrite
      else if s = lit ''file_read'' then FileRead
      else if s = lit ''message'' then Message
      else if s = lit ''error'' then Error
      else if s = lit ''feedback'' then Feedback
      else Custom s)"

record 'j ultra_lib =
  u_blake3 :: "bytes \<Rightarrow> bytes"
  u_json :: "'j \<Rightarrow> rstr"
  u_zstd :: "bytes \<Rightarrow> bytes option"

record 'j event =
  ev_ts :: int
  ev_session :: "rstr option"
  ev_agent :: rstr
  ev_kind :: rstr
  ev_uri :: "rstr option"
  ev_content :: "rstr option"
  ev_meta :: "'j option"

definition event_now :: "int \<Rightarrow> rstr \<Rightarrow> event_kind \<Rightarrow> 'j event" where
  "event_now now agent kind = \<lparr>ev_ts = now, ev_session = None, ev_agent = agent, ev_kind = kind_as_str kind,
     ev_uri = None, ev_content = None, ev_meta = None\<rparr>"

record event_row =
  v_id :: int
  v_ts :: int
  v_session :: "rstr option"
  v_agent :: rstr
  v_kind :: rstr
  v_uri :: "rstr option"
  v_content :: "rstr option"
  v_zst :: "bytes option"
  v_blake3 :: bytes
  v_meta :: "rstr option"

record session_row =
  ss_id :: rstr
  ss_agent :: rstr
  ss_started :: int
  ss_ended :: "int option"

record decision_row =
  dc_id :: int
  dc_ts :: int
  dc_session :: "rstr option"
  dc_agent :: rstr
  dc_uri :: rstr
  dc_rationale :: "rstr option"
  dc_source :: "rstr option"
  dc_target :: "rstr option"
  dc_blake3 :: bytes
  dc_meta :: "rstr option"

record token_row =
  tk_id :: int
  tk_ts :: int
  tk_session :: "rstr option"
  tk_agent :: rstr
  tk_model :: rstr
  tk_input :: int
  tk_output :: int
  tk_cache_read :: int
  tk_cache_write :: int
  tk_cost :: b64
  tk_meta :: "rstr option"

record node_row =
  n_uri :: rstr
  n_kind :: rstr
  n_title :: "rstr option"
  n_first :: int
  n_last :: int

record link_row =
  l_from :: rstr
  l_to :: rstr
  l_rel :: rstr
  l_weight :: b64
  l_ts :: int
  l_session :: "rstr option"
  l_agent :: "rstr option"

record ultra_db =
  sessions :: "session_row list"
  events :: "event_row list"
  events_seq :: int
  events_fts :: "(int \<times> rstr) list"
  decisions :: "decision_row list"
  decisions_seq :: int
  token_costs :: "token_row list"
  tokens_seq :: int
  nodes :: "node_row list"
  links :: "link_row list"

datatype ultra_error = UltraSql | EventParse | UltraIo

text \<open>The tables right after the migration.\<close>

definition ultra_migrate :: ultra_db where
  "ultra_migrate = \<lparr>sessions = [], events = [], events_seq = 0, events_fts = [], decisions = [], decisions_seq = 0,
     token_costs = [], tokens_seq = 0, nodes = [], links = []\<rparr>"

section \<open>Events\<close>

definition opt_str :: "rstr option \<Rightarrow> bytes" where
  "opt_str x = (case x of None \<Rightarrow> [] | Some s \<Rightarrow> utf8 s)"

definition dedup_input :: "'j event \<Rightarrow> bytes" where
  "dedup_input e = opt_str (ev_session e) @ [0x1f] @ utf8 (ev_agent e) @ [0x1f] @ utf8 (ev_kind e) @ [0x1f] @
     opt_str (ev_uri e) @ [0x1f] @ opt_str (ev_content e)"

definition dedup_key :: "'j ultra_lib \<Rightarrow> 'j event \<Rightarrow> bytes" where
  "dedup_key L e = u_blake3 L (dedup_input e)"

text \<open>\<^verbatim>\<open>INSERT INTO sessions ... ON CONFLICT(session_id) DO UPDATE SET ended_at\<close>.\<close>

definition upsert_session :: "rstr option \<Rightarrow> rstr \<Rightarrow> int \<Rightarrow> ultra_db \<Rightarrow> ultra_db" where
  "upsert_session sid agent ts db =
     (case sid of None \<Rightarrow> db
      | Some s \<Rightarrow> db\<lparr>sessions :=
          (if s \<in> ss_id ` set (sessions db)
           then map (\<lambda>r. if ss_id r = s then r\<lparr>ss_ended := Some ts\<rparr> else r) (sessions db)
           else sessions db @ [\<lparr>ss_id = s, ss_agent = agent, ss_started = ts, ss_ended = None\<rparr>])\<rparr>)"

text \<open>Contents above one kilobyte are compressed; the text column is then empty.\<close>

definition store_content :: "'j ultra_lib \<Rightarrow> rstr option \<Rightarrow> rstr option \<times> bytes option" where
  "store_content L content =
     (case content of None \<Rightarrow> (None, None)
      | Some c \<Rightarrow> if 1024 < str_len c
          then (case u_zstd L (utf8 c) of Some blob \<Rightarrow> (None, Some blob) | None \<Rightarrow> (Some c, None))
          else (Some c, None))"

definition find_event :: "bytes \<Rightarrow> ultra_db \<Rightarrow> int option" where
  "find_event h db = map_option v_id (find (\<lambda>v. v_blake3 v = h) (events db))"

text \<open>The insertion and the FTS trigger \<^verbatim>\<open>trg_events_ai_fts\<close>.\<close>

definition insert_event :: "'j ultra_lib \<Rightarrow> 'j event \<Rightarrow> ultra_db \<Rightarrow> int \<times> ultra_db" where
  "insert_event L e db =
     (let i = events_seq db + 1; (content, zst) = store_content L (ev_content e) in
      (i, db\<lparr>events := events db @ [\<lparr>v_id = i, v_ts = ev_ts e, v_session = ev_session e, v_agent = ev_agent e,
              v_kind = ev_kind e, v_uri = ev_uri e, v_content = content, v_zst = zst, v_blake3 = dedup_key L e,
              v_meta = map_option (u_json L) (ev_meta e)\<rparr>],
            events_seq := i,
            events_fts := events_fts db @ (case content of None \<Rightarrow> [] | Some c \<Rightarrow> [(i, c)])\<rparr>))"

definition ingest_event :: "'j ultra_lib \<Rightarrow> 'j event \<Rightarrow> ultra_db \<Rightarrow> int \<times> ultra_db" where
  "ingest_event L e db =
     (case find_event (dedup_key L e) db of
        Some i \<Rightarrow> (i, db)
      | None \<Rightarrow> insert_event L e (upsert_session (ev_session e) (ev_agent e) (ev_ts e) db))"

fun ingest_loop :: "'j ultra_lib \<Rightarrow> 'j event list \<Rightarrow> nat \<Rightarrow> ultra_db \<Rightarrow> nat \<times> ultra_db" where
  "ingest_loop L [] inserted db = (inserted, db)"
| "ingest_loop L (e # es) inserted db =
     (case find_event (dedup_key L e) db of
        Some i \<Rightarrow> ingest_loop L es inserted db
      | None \<Rightarrow> ingest_loop L es (inserted + 1)
          (snd (insert_event L e (upsert_session (ev_session e) (ev_agent e) (ev_ts e) db))))"

definition ingest_events :: "'j ultra_lib \<Rightarrow> 'j event list \<Rightarrow> ultra_db \<Rightarrow> nat \<times> ultra_db" where
  "ingest_events L es db = (if es = [] then (0, db) else ingest_loop L es 0 db)"

text \<open>\<open>parse\<close> is \<^verbatim>\<open>serde_json::from_str\<close> for events.\<close>

definition ingest_event_json :: "'j ultra_lib \<Rightarrow> (rstr \<Rightarrow> 'j event option) \<Rightarrow> rstr \<Rightarrow> ultra_db \<Rightarrow>
    ultra_error + int \<times> ultra_db" where
  "ingest_event_json L parse json db =
     (case parse json of None \<Rightarrow> Inl EventParse | Some e \<Rightarrow> Inr (ingest_event L e db))"

fun jsonl_loop :: "'j ultra_lib \<Rightarrow> (rstr \<Rightarrow> 'j event option) \<Rightarrow> rstr list \<Rightarrow> nat \<Rightarrow> ultra_db \<Rightarrow>
    ultra_error + nat \<times> ultra_db" where
  "jsonl_loop L parse [] n db = Inr (n, db)"
| "jsonl_loop L parse (l # ls) n db =
     (let line = trim l in
      if line = [] \<or> hd line = 35 then jsonl_loop L parse ls n db
      else case ingest_event_json L parse line db of
        Inl e \<Rightarrow> Inl e
      | Inr (i, db') \<Rightarrow> jsonl_loop L parse ls (n + 1) db')"

text \<open>\<open>contents\<close> is the file, if it can be read. On an error the transaction is rolled back.\<close>

definition ingest_jsonl_file :: "'j ultra_lib \<Rightarrow> (rstr \<Rightarrow> 'j event option) \<Rightarrow> rstr option \<Rightarrow> ultra_db \<Rightarrow>
    (ultra_error + nat) \<times> ultra_db" where
  "ingest_jsonl_file L parse contents db =
     (case contents of None \<Rightarrow> (Inl UltraIo, db)
      | Some txt \<Rightarrow> (case jsonl_loop L parse (str_lines txt) 0 db of
           Inl e \<Rightarrow> (Inl e, db)
         | Inr (n, db') \<Rightarrow> (Inr n, db')))"

section \<open>Decisions and token costs\<close>

record 'j decision_input =
  di_ts :: int
  di_session :: "rstr option"
  di_agent :: rstr
  di_uri :: rstr
  di_rationale :: "rstr option"
  di_source :: "rstr option"
  di_target :: "rstr option"
  di_meta :: "'j option"

definition decision_new :: "int \<Rightarrow> rstr \<Rightarrow> rstr \<Rightarrow> 'j decision_input" where
  "decision_new ts agent uri = \<lparr>di_ts = ts, di_session = None, di_agent = agent, di_uri = uri, di_rationale = None,
     di_source = None, di_target = None, di_meta = None\<rparr>"

definition decision_key :: "'j ultra_lib \<Rightarrow> 'j decision_input \<Rightarrow> bytes" where
  "decision_key L d = u_blake3 L (utf8 (di_uri d) @ [0x1f] @ utf8 (di_agent d) @ [0x1f] @ opt_str (di_session d) @ [0x1f] @
     opt_str (di_rationale d) @ [0x1f] @ opt_str (di_source d) @ [0x1f] @ opt_str (di_target d))"

text \<open>\<^verbatim>\<open>INSERT OR IGNORE\<close> on the unique columns of the graph tables.\<close>

definition ignore_node :: "node_row \<Rightarrow> ultra_db \<Rightarrow> ultra_db" where
  "ignore_node n db = (if n_uri n \<in> n_uri ` set (nodes db) then db else db\<lparr>nodes := nodes db @ [n]\<rparr>)"

definition link_key :: "link_row \<Rightarrow> rstr \<times> rstr \<times> rstr" where
  "link_key l = (l_from l, l_to l, l_rel l)"

definition ignore_link :: "link_row \<Rightarrow> ultra_db \<Rightarrow> ultra_db" where
  "ignore_link l db = (if link_key l \<in> link_key ` set (links db) then db else db\<lparr>links := links db @ [l]\<rparr>)"

text \<open>The trigger \<^verbatim>\<open>trg_decision_to_graph\<close>.\<close>

definition decision_trigger :: "'j decision_input \<Rightarrow> ultra_db \<Rightarrow> ultra_db" where
  "decision_trigger d db =
     (case (di_source d, di_target d) of
        (Some src, Some tgt) \<Rightarrow>
          let db1 = ignore_node \<lparr>n_uri = di_uri d, n_kind = lit ''decision'', n_title = di_rationale d,
                      n_first = di_ts d, n_last = di_ts d\<rparr> db;
              db2 = ignore_node \<lparr>n_uri = src, n_kind = lit ''source'', n_title = None, n_first = di_ts d, n_last = di_ts d\<rparr> db1;
              db3 = ignore_node \<lparr>n_uri = tgt, n_kind = lit ''target'', n_title = None, n_first = di_ts d, n_last = di_ts d\<rparr> db2;
              db4 = ignore_link \<lparr>l_from = src, l_to = di_uri d, l_rel = lit ''caused'', l_weight = b64_one, l_ts = di_ts d,
                      l_session = di_session d, l_agent = Some (di_agent d)\<rparr> db3;
              db5 = ignore_link \<lparr>l_from = di_uri d, l_to = tgt, l_rel = lit ''derived_from'', l_weight = b64_one,
                      l_ts = di_ts d, l_session = di_session d, l_agent = Some (di_agent d)\<rparr> db4
          in db5\<lparr>nodes := map (\<lambda>n. if n_uri n \<in> {di_uri d, src, tgt} then n\<lparr>n_last := di_ts d\<rparr> else n) (nodes db5)\<rparr>
      | _ \<Rightarrow> db)"

definition insert_decision :: "'j ultra_lib \<Rightarrow> 'j decision_input \<Rightarrow> ultra_db \<Rightarrow> int \<times> ultra_db" where
  "insert_decision L d db =
     (let i = decisions_seq db + 1 in
      (i, decision_trigger d (db\<lparr>decisions := decisions db @ [\<lparr>dc_id = i, dc_ts = di_ts d, dc_session = di_session d,
            dc_agent = di_agent d, dc_uri = di_uri d, dc_rationale = di_rationale d, dc_source = di_source d,
            dc_target = di_target d, dc_blake3 = decision_key L d, dc_meta = map_option (u_json L) (di_meta d)\<rparr>],
          decisions_seq := i\<rparr>)))"

definition ingest_decision :: "'j ultra_lib \<Rightarrow> 'j decision_input \<Rightarrow> ultra_db \<Rightarrow> int \<times> ultra_db" where
  "ingest_decision L d db =
     (case find (\<lambda>r. dc_blake3 r = decision_key L d) (decisions db) of
        Some r \<Rightarrow> (dc_id r, db)
      | None \<Rightarrow> insert_decision L d (upsert_session (di_session d) (di_agent d) (di_ts d) db))"

record 'j token_input =
  ti_ts :: int
  ti_session :: "rstr option"
  ti_agent :: rstr
  ti_model :: rstr
  ti_input :: int
  ti_output :: int
  ti_cache_read :: int
  ti_cache_write :: int
  ti_cost :: b64
  ti_meta :: "'j option"

text \<open>The session row is written before the insertion can fail, and stays.\<close>

definition ingest_token_cost :: "'j ultra_lib \<Rightarrow> 'j token_input \<Rightarrow> ultra_db \<Rightarrow> (ultra_error + int) \<times> ultra_db" where
  "ingest_token_cost L t db =
     (let db1 = upsert_session (ti_session t) (ti_agent t) (ti_ts t) db; i = tokens_seq db1 + 1 in
      if ti_cost t = NaN64 then (Inl UltraSql, db1)
      else (Inr i, db1\<lparr>token_costs := token_costs db1 @ [\<lparr>tk_id = i, tk_ts = ti_ts t, tk_session = ti_session t,
              tk_agent = ti_agent t, tk_model = ti_model t, tk_input = ti_input t, tk_output = ti_output t,
              tk_cache_read = ti_cache_read t, tk_cache_write = ti_cache_write t, tk_cost = ti_cost t,
              tk_meta = map_option (u_json L) (ti_meta t)\<rparr>], tokens_seq := i\<rparr>))"

section \<open>Queries\<close>

record event_filter =
  ef_agent :: "rstr option"
  ef_session :: "rstr option"
  ef_kind :: "rstr option"
  ef_uri :: "rstr option"
  ef_since :: "int option"
  ef_until :: "int option"
  ef_limit :: "int option"

definition filter_new :: event_filter where
  "filter_new = \<lparr>ef_agent = None, ef_session = None, ef_kind = None, ef_uri = None, ef_since = None, ef_until = None,
     ef_limit = None\<rparr>"

definition filter_agent :: "rstr \<Rightarrow> event_filter \<Rightarrow> event_filter" where "filter_agent a f = f\<lparr>ef_agent := Some a\<rparr>"

definition filter_session :: "rstr \<Rightarrow> event_filter \<Rightarrow> event_filter" where "filter_session s f = f\<lparr>ef_session := Some s\<rparr>"

definition filter_kind :: "rstr \<Rightarrow> event_filter \<Rightarrow> event_filter" where "filter_kind k f = f\<lparr>ef_kind := Some k\<rparr>"

definition filter_since :: "int \<Rightarrow> event_filter \<Rightarrow> event_filter" where "filter_since t f = f\<lparr>ef_since := Some t\<rparr>"

definition filter_until :: "int \<Rightarrow> event_filter \<Rightarrow> event_filter" where "filter_until t f = f\<lparr>ef_until := Some t\<rparr>"

definition filter_limit :: "int \<Rightarrow> event_filter \<Rightarrow> event_filter" where "filter_limit n f = f\<lparr>ef_limit := Some n\<rparr>"

definition filter_uri :: "rstr \<Rightarrow> event_filter \<Rightarrow> event_filter" where "filter_uri u f = f\<lparr>ef_uri := Some u\<rparr>"

definition where_clause :: "event_filter \<Rightarrow> event_row \<Rightarrow> bool" where
  "where_clause f v \<longleftrightarrow>
     (case ef_agent f of None \<Rightarrow> True | Some a \<Rightarrow> v_agent v = a) \<and>
     (case ef_session f of None \<Rightarrow> True | Some s \<Rightarrow> v_session v = Some s) \<and>
     (case ef_kind f of None \<Rightarrow> True | Some k \<Rightarrow> v_kind v = k) \<and>
     (case ef_uri f of None \<Rightarrow> True | Some u \<Rightarrow> v_uri v = Some u) \<and>
     (case ef_since f of None \<Rightarrow> True | Some t \<Rightarrow> t \<le> v_ts v) \<and>
     (case ef_until f of None \<Rightarrow> True | Some t \<Rightarrow> v_ts v \<le> t)"

record event_out =
  o_id :: int
  o_ts :: int
  o_session :: "rstr option"
  o_agent :: rstr
  o_kind :: rstr
  o_uri :: "rstr option"
  o_content :: "rstr option"
  o_meta :: "rstr option"

definition to_out :: "event_row \<Rightarrow> event_out" where
  "to_out v = \<lparr>o_id = v_id v, o_ts = v_ts v, o_session = v_session v, o_agent = v_agent v, o_kind = v_kind v,
     o_uri = v_uri v, o_content = v_content v, o_meta = v_meta v\<rparr>"

definition query_limit :: "event_filter \<Rightarrow> nat" where
  "query_limit f = (case ef_limit f of Some n \<Rightarrow> nat (max n 1) | None \<Rightarrow> 1000)"

definition query_events :: "event_filter \<Rightarrow> ultra_db \<Rightarrow> event_out list" where
  "query_events f db = map to_out (take (query_limit f) (sort_key (\<lambda>v. - v_ts v) (filter (where_clause f) (events db))))"

text \<open>\<open>fts_match\<close> gives the rowids of the index entries that match, best first, or None for a query
  that does not parse.\<close>

definition search_events :: "(rstr \<Rightarrow> (int \<times> rstr) list \<Rightarrow> int list option) \<Rightarrow> rstr \<Rightarrow> int option \<Rightarrow> ultra_db \<Rightarrow>
    ultra_error + event_out list" where
  "search_events fts_match query limit db =
     (let n = min (max (case limit of None \<Rightarrow> 50 | Some k \<Rightarrow> k) 1) 1000 in
      case fts_match query (events_fts db) of
        None \<Rightarrow> Inl UltraSql
      | Some ids \<Rightarrow> Inr (map to_out (take (nat n)
          (concat (map (\<lambda>i. filter (\<lambda>v. v_id v = i) (events db)) ids)))))"

section \<open>Kinds\<close>

lemma kind_round_trip: "kind_as_str (kind_from_str s) = s"
  by (simp add: kind_from_str_def)

lemma lit_inj: "lit s = lit t \<longleftrightarrow> s = t"
  by (auto simp: lit_def inj_map_eq_map inj_def)

lemma kind_parse_print: "(\<forall>s. k \<noteq> Custom s) \<Longrightarrow> kind_from_str (kind_as_str k) = k"
  by (cases k) (simp_all add: kind_from_str_def lit_inj)

section \<open>Deduplication\<close>

text \<open>The part of an event that the key identifies: an absent field counts as an empty one.\<close>

definition event_identity :: "'j event \<Rightarrow> rstr list" where
  "event_identity e = [case ev_session e of None \<Rightarrow> [] | Some s \<Rightarrow> s, ev_agent e, ev_kind e,
     case ev_uri e of None \<Rightarrow> [] | Some u \<Rightarrow> u, case ev_content e of None \<Rightarrow> [] | Some c \<Rightarrow> c]"

definition event_fields_ok :: "'j event \<Rightarrow> bool" where
  "event_fields_ok e \<longleftrightarrow> (\<forall>s \<in> set (event_identity e). scalars s) \<and> (\<forall>s \<in> set (butlast (event_identity e)). 31 \<notin> set s)"

lemma dedup_input_identity:
  "dedup_input e = (case event_identity e of [a, b, c, d, f] \<Rightarrow>
     utf8 a @ 0x1f # utf8 b @ 0x1f # utf8 c @ 0x1f # utf8 d @ 0x1f # utf8 f | _ \<Rightarrow> [])"
  by (simp add: dedup_input_def event_identity_def opt_str_def utf8_def split: option.split)

text \<open>Events whose fields hold no unit separator and whose dedup inputs agree agree in session, agent,
  kind, uri and content, an absent field counting as an empty one: only a BLAKE3 collision can make the
  log drop a different event.\<close>

theorem dedup_key_sound:
  assumes "event_fields_ok e" "event_fields_ok f" "dedup_key L e = dedup_key L f"
  shows "event_identity e = event_identity f \<or> dedup_input e \<noteq> dedup_input f \<and> u_blake3 L (dedup_input e) = u_blake3 L (dedup_input f)"
proof (cases "dedup_input e = dedup_input f")
  case True
  have sep: "utf8 x @ 0x1f # r = utf8 y @ 0x1f # s \<Longrightarrow> scalars x \<Longrightarrow> scalars y \<Longrightarrow> 31 \<notin> set x \<Longrightarrow> 31 \<notin> set y \<Longrightarrow> x = y \<and> r = s"
    for x y r s
    using separated_eq [of "0x1f" "utf8 x" "utf8 y" r s] utf8_ascii_byte [of x 31] utf8_ascii_byte [of y 31] utf8_inj by auto
  obtain a b c d g where e: "event_identity e = [a, b, c, d, g]" by (simp add: event_identity_def)
  obtain a' b' c' d' g' where f: "event_identity f = [a', b', c', d', g']" by (simp add: event_identity_def)
  have ok: "\<forall>x \<in> {a, b, c, d, g, a', b', c', d', g'}. scalars x" "\<forall>x \<in> {a, b, c, d, a', b', c', d'}. 31 \<notin> set x"
    using assms(1,2) by (auto simp: event_fields_ok_def e f)
  from True have eq: "utf8 a @ 0x1f # utf8 b @ 0x1f # utf8 c @ 0x1f # utf8 d @ 0x1f # utf8 g =
      utf8 a' @ 0x1f # utf8 b' @ 0x1f # utf8 c' @ 0x1f # utf8 d' @ 0x1f # utf8 g'"
    by (simp add: dedup_input_identity e f)
  have 1: "a = a' \<and> utf8 b @ 0x1f # utf8 c @ 0x1f # utf8 d @ 0x1f # utf8 g = utf8 b' @ 0x1f # utf8 c' @ 0x1f # utf8 d' @ 0x1f # utf8 g'"
    by (rule sep [OF eq]) (use ok in auto)
  have 2: "b = b' \<and> utf8 c @ 0x1f # utf8 d @ 0x1f # utf8 g = utf8 c' @ 0x1f # utf8 d' @ 0x1f # utf8 g'"
    by (rule sep [OF conjunct2 [OF 1]]) (use ok in auto)
  have 3: "c = c' \<and> utf8 d @ 0x1f # utf8 g = utf8 d' @ 0x1f # utf8 g'"
    by (rule sep [OF conjunct2 [OF 2]]) (use ok in auto)
  have 4: "d = d' \<and> utf8 g = utf8 g'"
    by (rule sep [OF conjunct2 [OF 3]]) (use ok in auto)
  then have "g = g'" using ok(1) utf8_inj by blast
  then show ?thesis using 1 2 3 4 by (simp add: e f)
qed (use assms(3) in \<open>simp add: dedup_key_def\<close>)

text \<open>A separator inside a field moves the boundary.\<close>

lemma dedup_separator_collision:
  "dedup_input ((event_now t (lit ''a'') (Custom [31])) :: 'j event) =
   dedup_input ((event_now t (lit ''a'' @ [31]) (Custom [])) :: 'j event)"
  by (simp add: dedup_input_def event_now_def opt_str_def utf8_def utf8_char_def lit_def)

section \<open>Invariant of the log\<close>

definition fts_rows :: "event_row list \<Rightarrow> (int \<times> rstr) list" where
  "fts_rows vs = concat (map (\<lambda>v. case v_content v of None \<Rightarrow> [] | Some c \<Rightarrow> [(v_id v, c)]) vs)"

definition known_session :: "ultra_db \<Rightarrow> rstr option \<Rightarrow> bool" where
  "known_session db x \<longleftrightarrow> (case x of None \<Rightarrow> True | Some s \<Rightarrow> s \<in> ss_id ` set (sessions db))"

definition events_wf :: "ultra_db \<Rightarrow> bool" where
  "events_wf db \<longleftrightarrow> 0 \<le> events_seq db \<and> sorted_wrt (<) (map v_id (events db)) \<and>
     (\<forall>v \<in> set (events db). 0 < v_id v \<and> v_id v \<le> events_seq db \<and> known_session db (v_session v)) \<and>
     distinct (map v_blake3 (events db)) \<and> events_fts db = fts_rows (events db)"

definition sessions_wf :: "ultra_db \<Rightarrow> bool" where
  "sessions_wf db \<longleftrightarrow> distinct (map ss_id (sessions db))"

definition decisions_wf :: "ultra_db \<Rightarrow> bool" where
  "decisions_wf db \<longleftrightarrow> 0 \<le> decisions_seq db \<and> sorted_wrt (<) (map dc_id (decisions db)) \<and>
     (\<forall>d \<in> set (decisions db). 0 < dc_id d \<and> dc_id d \<le> decisions_seq db \<and> known_session db (dc_session d)) \<and>
     distinct (map dc_blake3 (decisions db))"

definition graph_wf :: "ultra_db \<Rightarrow> bool" where
  "graph_wf db \<longleftrightarrow> distinct (map n_uri (nodes db)) \<and> distinct (map link_key (links db)) \<and>
     (\<forall>l \<in> set (links db). l_from l \<in> n_uri ` set (nodes db) \<and> l_to l \<in> n_uri ` set (nodes db))"

text \<open>Every decision with a source and a target has its two edges in the graph.\<close>

definition decisions_linked :: "ultra_db \<Rightarrow> bool" where
  "decisions_linked db \<longleftrightarrow> (\<forall>d \<in> set (decisions db). \<forall>src tgt. dc_source d = Some src \<longrightarrow> dc_target d = Some tgt \<longrightarrow>
     (src, dc_uri d, lit ''caused'') \<in> link_key ` set (links db) \<and>
     (dc_uri d, tgt, lit ''derived_from'') \<in> link_key ` set (links db))"

definition ultra_wf :: "ultra_db \<Rightarrow> bool" where
  "ultra_wf db \<longleftrightarrow> events_wf db \<and> sessions_wf db \<and> decisions_wf db \<and> graph_wf db \<and> decisions_linked db"

lemma upsert_session_fields [simp]:
  "events (upsert_session x a t db) = events db" "events_seq (upsert_session x a t db) = events_seq db"
  "events_fts (upsert_session x a t db) = events_fts db" "decisions (upsert_session x a t db) = decisions db"
  "decisions_seq (upsert_session x a t db) = decisions_seq db" "nodes (upsert_session x a t db) = nodes db"
  "links (upsert_session x a t db) = links db" "token_costs (upsert_session x a t db) = token_costs db"
  "tokens_seq (upsert_session x a t db) = tokens_seq db"
  by (simp_all add: upsert_session_def split: option.split)

lemma ended_ids: "map ss_id (map (\<lambda>r. if ss_id r = s then r\<lparr>ss_ended := e\<rparr> else r) xs) = map ss_id xs"
  by simp

lemma upsert_session_id_list:
  "map ss_id (sessions (upsert_session x a t db)) = map ss_id (sessions db) @
     (case x of None \<Rightarrow> [] | Some s \<Rightarrow> if s \<in> ss_id ` set (sessions db) then [] else [s])"
  unfolding upsert_session_def by (auto simp only: ended_ids split: option.split if_split) simp_all

lemma upsert_session_ids:
  "ss_id ` set (sessions (upsert_session x a t db)) = ss_id ` set (sessions db) \<union> set_option x"
  using arg_cong [OF upsert_session_id_list [of x a t db], of set] by (auto split: option.splits if_splits)

lemma upsert_session_wf: "sessions_wf db \<Longrightarrow> sessions_wf (upsert_session x a t db)"
  unfolding sessions_wf_def upsert_session_id_list by (auto split: option.split)

lemma known_session_upsert:
  "known_session db y \<Longrightarrow> known_session (upsert_session x a t db) y" "known_session (upsert_session x a t db) x"
  by (auto simp: known_session_def upsert_session_ids split: option.splits)

lemma upsert_session_ultra_wf:
  assumes "ultra_wf db" shows "ultra_wf (upsert_session x a t db)"
  using assms upsert_session_wf [of db x a t] known_session_upsert(1) [of db _ x a t]
  unfolding ultra_wf_def events_wf_def decisions_wf_def graph_wf_def decisions_linked_def by simp

text \<open>The row that \<open>insert_event\<close> adds.\<close>

definition new_event :: "'j ultra_lib \<Rightarrow> 'j event \<Rightarrow> ultra_db \<Rightarrow> event_row" where
  "new_event L e db = \<lparr>v_id = events_seq db + 1, v_ts = ev_ts e, v_session = ev_session e, v_agent = ev_agent e,
     v_kind = ev_kind e, v_uri = ev_uri e, v_content = fst (store_content L (ev_content e)),
     v_zst = snd (store_content L (ev_content e)), v_blake3 = dedup_key L e, v_meta = map_option (u_json L) (ev_meta e)\<rparr>"

lemma insert_event_eq:
  "insert_event L e db = (events_seq db + 1, db\<lparr>events := events db @ [new_event L e db], events_seq := events_seq db + 1,
     events_fts := events_fts db @ fts_rows [new_event L e db]\<rparr>)"
  by (cases "store_content L (ev_content e)"; cases "fst (store_content L (ev_content e))")
    (simp_all add: insert_event_def new_event_def fts_rows_def Let_def)

lemma new_event_sel [simp]:
  "v_id (new_event L e db) = events_seq db + 1" "v_blake3 (new_event L e db) = dedup_key L e"
  "v_session (new_event L e db) = ev_session e"
  by (simp_all add: new_event_def)

lemma find_event_None: "find_event h db = None \<longleftrightarrow> h \<notin> v_blake3 ` set (events db)"
  by (auto simp: find_event_def find_None_iff)

lemma find_event_fresh: "find_event h (db\<lparr>sessions := x\<rparr>) = find_event h db"
  by (simp add: find_event_def)

lemma find_event_upsert [simp]: "find_event h (upsert_session x a t db) = find_event h db"
  by (simp add: find_event_def)

lemma known_session_cong: "sessions db' = sessions db \<Longrightarrow> known_session db' = known_session db"
  by (simp add: fun_eq_iff known_session_def split: option.split)

lemma insert_event_wf:
  assumes wf: "ultra_wf db" and new: "find_event (dedup_key L e) db = None" and s: "known_session db (ev_session e)"
  shows "ultra_wf (snd (insert_event L e db))"
proof -
  let ?db = "snd (insert_event L e db)"
  have k: "known_session ?db = known_session db" by (rule known_session_cong) (simp add: insert_event_eq)
  have "events_wf ?db"
    using wf new s unfolding ultra_wf_def events_wf_def k
    by (auto simp: insert_event_eq sorted_wrt_append find_event_None fts_rows_def)
  moreover have "decisions_wf ?db" using wf unfolding ultra_wf_def decisions_wf_def k by (simp add: insert_event_eq)
  ultimately show ?thesis
    using wf by (simp add: ultra_wf_def sessions_wf_def graph_wf_def decisions_linked_def insert_event_eq)
qed

lemma ingest_event_wf: "ultra_wf db \<Longrightarrow> ultra_wf (snd (ingest_event L e db))"
  using insert_event_wf [OF upsert_session_ultra_wf, of db L e "ev_session e" "ev_agent e" "ev_ts e"]
    known_session_upsert(2) [of "ev_session e" "ev_agent e" "ev_ts e" db]
  by (auto simp: ingest_event_def split: option.split)

text \<open>The batch is the loop of single ingestions.\<close>

lemma ingest_event_events:
  "events (snd (ingest_event L e db)) = events db @
     (if find_event (dedup_key L e) db = None then [new_event L e db] else [])"
proof (cases "find_event (dedup_key L e) db")
  case None
  have "new_event L e (upsert_session x a t db) = new_event L e db" for x a t by (simp add: new_event_def)
  then show ?thesis using None by (simp add: ingest_event_def insert_event_eq)
qed (simp add: ingest_event_def)

lemma ingest_loop_fold:
  "ingest_loop L es n db = (n + (length (events db') - length (events db)), db')"
  if "db' = fold (\<lambda>e d. snd (ingest_event L e d)) es db"
  using that
proof (induction es arbitrary: n db)
  case (Cons e es)
  let ?d = "snd (ingest_event L e db)"
  have db': "db' = fold (\<lambda>e d. snd (ingest_event L e d)) es ?d" using Cons.prems by simp
  have len: "length (events ?d) \<le> length (events (fold (\<lambda>e d. snd (ingest_event L e d)) xs ?d))" for xs
  proof (induction xs rule: rev_induct)
    case (snoc x xs)
    then show ?case by (simp add: ingest_event_events)
  qed simp
  note IH = Cons.IH [OF db']
  show ?case
  proof (cases "find_event (dedup_key L e) db")
    case None
    have "ingest_loop L (e # es) n db = ingest_loop L es (n + 1) ?d" using None by (simp add: ingest_event_def)
    moreover have "length (events ?d) = Suc (length (events db))" using ingest_event_events [of L e db] None by simp
    moreover have "length (events ?d) \<le> length (events db')" using len [of es] by (simp only: db' [symmetric])
    ultimately show ?thesis using IH [of "n + 1"] by simp
  next
    case (Some i)
    then show ?thesis using IH [of n] by (simp add: ingest_event_def)
  qed
qed simp

text \<open>C28. Ingesting an event appends one row with its fields when its key is new and otherwise changes nothing;
  either way the returned id is the row's, and ingesting the event again returns the same id and
  changes nothing. A batch has the effect of ingesting its events one by one and reports how many
  rows were added.\<close>

theorem ingest_exact:
  assumes "ultra_wf db"
  shows "(case ingest_event L e db of (i, db') \<Rightarrow>
      ultra_wf db' \<and> ingest_event L e db' = (i, db') \<and>
      events db' = events db @ (if dedup_key L e \<in> v_blake3 ` set (events db) then [] else [new_event L e db]) \<and>
      (\<exists>v \<in> set (events db'). v_id v = i \<and> v_blake3 v = dedup_key L e)) \<and>
    (case ingest_events L es db of (n, db') \<Rightarrow>
      db' = fold (\<lambda>e d. snd (ingest_event L e d)) es db \<and> n = length (events db') - length (events db))"
proof
  obtain i db' where r: "ingest_event L e db = (i, db')" by (cases "ingest_event L e db")
  have ev: "events db' = events db @ (if dedup_key L e \<in> v_blake3 ` set (events db) then [] else [new_event L e db])"
    using ingest_event_events [of L e db] r by (simp add: find_event_None)
  have fnd: "find_event (dedup_key L e) db' = Some i"
  proof (cases "find_event (dedup_key L e) db")
    case None
    then have "find (\<lambda>v. v_blake3 v = dedup_key L e) (events db) = None" by (simp add: find_event_def)
    moreover have "i = events_seq db + 1" using r None by (simp add: ingest_event_def insert_event_eq)
    moreover have "events db' = events db @ [new_event L e db]" using ingest_event_events [of L e db] r None by simp
    ultimately show ?thesis by (simp add: find_event_def find_append)
  next
    case (Some j)
    then show ?thesis using r by (simp add: ingest_event_def)
  qed
  then obtain v where "v \<in> set (events db')" "v_id v = i" "v_blake3 v = dedup_key L e"
    using nth_mem by (fastforce simp: find_event_def find_Some_iff)
  moreover have "ingest_event L e db' = (i, db')" by (simp add: ingest_event_def fnd)
  moreover have "ultra_wf db'" using ingest_event_wf [OF assms, of L e] r by simp
  ultimately show "case ingest_event L e db of (i, db') \<Rightarrow>
      ultra_wf db' \<and> ingest_event L e db' = (i, db') \<and>
      events db' = events db @ (if dedup_key L e \<in> v_blake3 ` set (events db) then [] else [new_event L e db]) \<and>
      (\<exists>v \<in> set (events db'). v_id v = i \<and> v_blake3 v = dedup_key L e)"
    using ev r by auto
  show "case ingest_events L es db of (n, db') \<Rightarrow>
      db' = fold (\<lambda>e d. snd (ingest_event L e d)) es db \<and> n = length (events db') - length (events db)"
    using ingest_loop_fold [OF refl, of L es 0 db] by (simp add: ingest_events_def)
qed

lemma ultra_migrate_wf: "ultra_wf ultra_migrate"
  by (simp add: ultra_wf_def events_wf_def sessions_wf_def decisions_wf_def graph_wf_def decisions_linked_def
      ultra_migrate_def fts_rows_def)

theorem ingest_exact_witness:
  "\<exists>i db'. ingest_event \<lparr>u_blake3 = \<lambda>b. b, u_json = \<lambda>_ :: nat. [], u_zstd = Some\<rparr> (event_now 5 (lit ''a'') Message) ultra_migrate
     = (i, db') \<and> ultra_wf db'"
  using ingest_exact [OF ultra_migrate_wf, of "\<lparr>u_blake3 = \<lambda>b. b, u_json = \<lambda>_ :: nat. [], u_zstd = Some\<rparr>"
      "event_now 5 (lit ''a'') Message" "[]"] by auto

definition lib_id :: "nat ultra_lib" where
  "lib_id = \<lparr>u_blake3 = \<lambda>b. b, u_json = \<lambda>_. [], u_zstd = Some\<rparr>"

theorem dedup_key_sound_witness:
  "event_identity (event_now 1 (lit ''a'') Message :: nat event) = event_identity (event_now 2 (lit ''a'') Message :: nat event)"
  using dedup_key_sound [of "event_now 1 (lit ''a'') Message" "event_now 2 (lit ''a'') Message" lib_id]
  by (auto simp: event_fields_ok_def event_identity_def event_now_def lit_def scalars_def dedup_key_def dedup_input_def lib_id_def)

section \<open>Files of events\<close>

text \<open>The lines of a file that hold an event.\<close>

definition payload_lines :: "rstr \<Rightarrow> rstr list" where
  "payload_lines txt = filter (\<lambda>l. l \<noteq> [] \<and> hd l \<noteq> 35) (map trim (str_lines txt))"

lemma jsonl_loop_exact:
  "jsonl_loop L parse ls n db =
     (let ps = map parse (filter (\<lambda>l. l \<noteq> [] \<and> hd l \<noteq> 35) (map trim ls)) in
      if None \<in> set ps then Inl EventParse
      else Inr (n + length ps, fold (\<lambda>e d. snd (ingest_event L e d)) (map the ps) db))"
  by (induction L parse ls n db rule: jsonl_loop.induct)
    (auto simp: Let_def ingest_event_json_def split: option.splits prod.splits)

text \<open>A file of events is ingested as a whole or not at all: a file that cannot be read or one
  line that does not parse gives an error and leaves the database as it was; otherwise the result is
  that of ingesting the events of its lines as a batch, blank lines and comments skipped, and the count
  is the number of these lines.\<close>

theorem jsonl_all_or_nothing:
  "ingest_jsonl_file L parse contents db =
     (case contents of None \<Rightarrow> (Inl UltraIo, db)
      | Some txt \<Rightarrow> let ps = map parse (payload_lines txt) in
          if None \<in> set ps then (Inl EventParse, db)
          else (Inr (length ps), snd (ingest_events L (map the ps) db)))"
  using ingest_loop_fold [OF refl, of L _ 0 db]
  by (auto simp: ingest_jsonl_file_def jsonl_loop_exact payload_lines_def Let_def ingest_events_def split: option.split)

section \<open>Decisions keep the graph\<close>

abbreviation node_uris :: "ultra_db \<Rightarrow> rstr set" where
  "node_uris db \<equiv> n_uri ` set (nodes db)"

abbreviation link_keys :: "ultra_db \<Rightarrow> (rstr \<times> rstr \<times> rstr) set" where
  "link_keys db \<equiv> link_key ` set (links db)"

lemma ignore_node_graph:
  "graph_wf db \<Longrightarrow> graph_wf (ignore_node n db)" "node_uris (ignore_node n db) = insert (n_uri n) (node_uris db)"
  "links (ignore_node n db) = links db"
  by (auto simp: ignore_node_def graph_wf_def)

lemma ignore_link_graph:
  "graph_wf db \<Longrightarrow> l_from l \<in> node_uris db \<Longrightarrow> l_to l \<in> node_uris db \<Longrightarrow> graph_wf (ignore_link l db)"
  "nodes (ignore_link l db) = nodes db" "link_keys (ignore_link l db) = insert (link_key l) (link_keys db)"
  by (auto simp: ignore_link_def graph_wf_def)

lemma touch_nodes_graph:
  "map n_uri (map (\<lambda>n. if n_uri n \<in> U then n\<lparr>n_last := t\<rparr> else n) ns) = map n_uri ns"
  by simp

lemma ignore_other [simp]:
  "events (ignore_node n db) = events db" "events_seq (ignore_node n db) = events_seq db" "events_fts (ignore_node n db) = events_fts db"
  "sessions (ignore_node n db) = sessions db" "decisions (ignore_node n db) = decisions db"
  "decisions_seq (ignore_node n db) = decisions_seq db"
  "events (ignore_link l db) = events db" "events_seq (ignore_link l db) = events_seq db" "events_fts (ignore_link l db) = events_fts db"
  "sessions (ignore_link l db) = sessions db" "decisions (ignore_link l db) = decisions db"
  "decisions_seq (ignore_link l db) = decisions_seq db"
  by (simp_all add: ignore_node_def ignore_link_def)

lemma decision_trigger_other [simp]:
  "events (decision_trigger d db) = events db" "events_seq (decision_trigger d db) = events_seq db"
  "events_fts (decision_trigger d db) = events_fts db" "sessions (decision_trigger d db) = sessions db"
  "decisions (decision_trigger d db) = decisions db" "decisions_seq (decision_trigger d db) = decisions_seq db"
  by (simp_all add: decision_trigger_def Let_def split: option.split)

lemma decision_trigger_graph:
  assumes "graph_wf db"
  shows "graph_wf (decision_trigger d db) \<and> link_keys db \<subseteq> link_keys (decision_trigger d db) \<and>
    (\<forall>src tgt. di_source d = Some src \<longrightarrow> di_target d = Some tgt \<longrightarrow>
       {(src, di_uri d, lit ''caused''), (di_uri d, tgt, lit ''derived_from'')} \<subseteq> link_keys (decision_trigger d db))"
proof (cases "\<exists>src tgt. di_source d = Some src \<and> di_target d = Some tgt")
  case True
  then obtain src tgt where st: "di_source d = Some src" "di_target d = Some tgt" by blast
  define db1 where "db1 = ignore_node \<lparr>n_uri = di_uri d, n_kind = lit ''decision'', n_title = di_rationale d, n_first = di_ts d, n_last = di_ts d\<rparr> db"
  define db2 where "db2 = ignore_node \<lparr>n_uri = src, n_kind = lit ''source'', n_title = None, n_first = di_ts d, n_last = di_ts d\<rparr> db1"
  define db3 where "db3 = ignore_node \<lparr>n_uri = tgt, n_kind = lit ''target'', n_title = None, n_first = di_ts d, n_last = di_ts d\<rparr> db2"
  define l4 where "l4 = \<lparr>l_from = src, l_to = di_uri d, l_rel = lit ''caused'', l_weight = b64_one, l_ts = di_ts d,
     l_session = di_session d, l_agent = Some (di_agent d)\<rparr>"
  define l5 where "l5 = \<lparr>l_from = di_uri d, l_to = tgt, l_rel = lit ''derived_from'', l_weight = b64_one, l_ts = di_ts d,
     l_session = di_session d, l_agent = Some (di_agent d)\<rparr>"
  define db5 where "db5 = ignore_link l5 (ignore_link l4 db3)"
  have t: "decision_trigger d db = db5\<lparr>nodes := map (\<lambda>n. if n_uri n \<in> {di_uri d, src, tgt} then n\<lparr>n_last := di_ts d\<rparr> else n) (nodes db5)\<rparr>"
    by (simp add: decision_trigger_def st Let_def db1_def db2_def db3_def db5_def l4_def l5_def)
  have g3: "graph_wf db3" "node_uris db3 = {tgt, src, di_uri d} \<union> node_uris db" "links db3 = links db"
    using assms by (simp_all add: db1_def db2_def db3_def ignore_node_graph)
  have g4: "graph_wf (ignore_link l4 db3)" using g3 by (intro ignore_link_graph) (simp_all add: l4_def)
  have g5: "graph_wf db5" unfolding db5_def by (intro ignore_link_graph g4) (simp_all add: l5_def ignore_link_graph g3)
  have k: "link_keys db5 = {(di_uri d, tgt, lit ''derived_from''), (src, di_uri d, lit ''caused'')} \<union> link_keys db"
  proof -
    have "link_key l4 = (src, di_uri d, lit ''caused'')" "link_key l5 = (di_uri d, tgt, lit ''derived_from'')"
      by (simp_all add: link_key_def l4_def l5_def)
    then show ?thesis by (simp add: db5_def ignore_link_graph g3(3))
  qed
  have n: "map n_uri (nodes (decision_trigger d db)) = map n_uri (nodes db5)" and ln: "links (decision_trigger d db) = links db5"
    unfolding t by simp_all
  have "node_uris (decision_trigger d db) = node_uris db5" using arg_cong [OF n, of set] by simp
  then have "graph_wf (decision_trigger d db)" using g5 unfolding graph_wf_def n ln by simp
  moreover note ln
  ultimately show ?thesis using k st by auto
qed (use assms in \<open>auto simp: decision_trigger_def split: option.splits\<close>)

lemma ingest_decision_wf:
  assumes "ultra_wf db" shows "ultra_wf (snd (ingest_decision L d db))"
proof (cases "find (\<lambda>r. dc_blake3 r = decision_key L d) (decisions db)")
  case None
  define db0 where "db0 = upsert_session (di_session d) (di_agent d) (di_ts d) db"
  define r where "r = \<lparr>dc_id = decisions_seq db0 + 1, dc_ts = di_ts d, dc_session = di_session d,
      dc_agent = di_agent d, dc_uri = di_uri d, dc_rationale = di_rationale d, dc_source = di_source d,
      dc_target = di_target d, dc_blake3 = decision_key L d, dc_meta = map_option (u_json L) (di_meta d)\<rparr>"
  define db1 where "db1 = db0\<lparr>decisions := decisions db0 @ [r], decisions_seq := decisions_seq db0 + 1\<rparr>"
  have wf: "ultra_wf db0" unfolding db0_def by (rule upsert_session_ultra_wf [OF assms])
  have e: "snd (ingest_decision L d db) = decision_trigger d db1"
    using None by (simp add: ingest_decision_def insert_decision_def db0_def db1_def r_def Let_def)
  have k: "known_session (decision_trigger d db1) = known_session db0" by (rule known_session_cong) (simp add: db1_def)
  have g: "graph_wf db1" using wf by (simp add: ultra_wf_def graph_wf_def db1_def)
  note tr = decision_trigger_graph [OF g, of d]
  have fresh: "decision_key L d \<notin> dc_blake3 ` set (decisions db0)" using None by (auto simp: db0_def find_None_iff)
  have "events_wf (decision_trigger d db1)" using wf unfolding ultra_wf_def events_wf_def k by (simp add: db1_def)
  moreover have "sessions_wf (decision_trigger d db1)" using wf by (simp add: ultra_wf_def sessions_wf_def db1_def)
  moreover have "decisions_wf (decision_trigger d db1)"
    using wf fresh known_session_upsert(2) [of "di_session d" "di_agent d" "di_ts d" db] unfolding ultra_wf_def decisions_wf_def k
    by (auto simp: db1_def r_def sorted_wrt_append db0_def [symmetric])
  moreover have "decisions_linked (decision_trigger d db1)"
    unfolding decisions_linked_def
  proof (intro ballI allI impI)
    fix x src tgt assume x: "x \<in> set (decisions (decision_trigger d db1))" "dc_source x = Some src" "dc_target x = Some tgt"
    show "(src, dc_uri x, lit ''caused'') \<in> link_keys (decision_trigger d db1) \<and>
        (dc_uri x, tgt, lit ''derived_from'') \<in> link_keys (decision_trigger d db1)"
    proof (cases "x = r")
      case True
      then show ?thesis using tr x by (auto simp: r_def)
    next
      case False
      then have "x \<in> set (decisions db0)" using x(1) by (simp add: db1_def)
      then have "(src, dc_uri x, lit ''caused'') \<in> link_keys db1 \<and> (dc_uri x, tgt, lit ''derived_from'') \<in> link_keys db1"
        using wf x unfolding ultra_wf_def decisions_linked_def by (simp add: db1_def)
      then show ?thesis using tr by blast
    qed
  qed
  ultimately show ?thesis using tr by (simp add: e ultra_wf_def)
qed (simp add: ingest_decision_def assms)

lemma ingest_token_cost_wf:
  assumes "ultra_wf db" shows "ultra_wf (snd (ingest_token_cost L t db))"
proof -
  define db1 where "db1 = upsert_session (ti_session t) (ti_agent t) (ti_ts t) db"
  have wf: "ultra_wf db1" unfolding db1_def by (rule upsert_session_ultra_wf [OF assms])
  have "ultra_wf (db1\<lparr>token_costs := x, tokens_seq := y\<rparr>)" for x y
    using wf known_session_cong [of "db1\<lparr>token_costs := x, tokens_seq := y\<rparr>" db1]
    unfolding ultra_wf_def events_wf_def sessions_wf_def decisions_wf_def graph_wf_def decisions_linked_def by simp
  then show ?thesis using wf by (simp add: ingest_token_cost_def Let_def db1_def [symmetric])
qed

section \<open>Queries\<close>

text \<open>A query returns rows of the log that satisfy every condition of the filter, newest first, at most the
  limit of them, and a matching row that is left out is not newer than any row returned.\<close>

theorem query_events_exact:
  "\<exists>vs rest. query_events f db = map to_out vs \<and> mset (vs @ rest) = mset (filter (where_clause f) (events db)) \<and>
     sorted_wrt (\<lambda>a b. v_ts b \<le> v_ts a) (vs @ rest) \<and>
     length vs = min (case ef_limit f of None \<Rightarrow> 1000 | Some n \<Rightarrow> nat (max n 1)) (length (filter (where_clause f) (events db)))"
proof -
  let ?s = "sort_key (\<lambda>v. - v_ts v) (filter (where_clause f) (events db))"
  have "sorted (map (\<lambda>v. - v_ts v) ?s)" by simp
  then have "sorted_wrt (\<lambda>a b. v_ts b \<le> v_ts a) ?s" by (simp add: sorted_map)
  then show ?thesis
    by (intro exI [of _ "take (query_limit f) ?s"] exI [of _ "drop (query_limit f) ?s"])
      (simp add: query_events_def query_limit_def split: option.split)
qed

text \<open>The text of a compressed event is never read back: queries give no content for it and the full-text
  index does not hold it.\<close>

lemma large_content_unreadable:
  assumes "ev_content e = Some c" "1024 < str_len c" "u_zstd L (utf8 c) = Some z" "find_event (dedup_key L e) db = None"
  shows "case ingest_event L e db of (i, db') \<Rightarrow>
    v_content (last (events db')) = None \<and> o_content (to_out (last (events db'))) = None \<and> events_fts db' = events_fts db"
  using assms by (simp add: ingest_event_def insert_event_eq new_event_def store_content_def to_out_def fts_rows_def)

end
