(* ===== verification/Decision_Graph.thy ===== *)
theory Decision_Graph
  imports Event_Log Hop_Layers "HOL-Library.List_Lexorder" "HOL-Library.Product_Lexorder"
begin

text \<open>
  The decision graph of \<^verbatim>\<open>crates/synapse-ultra/src/graph.rs\<close> over the tables of \<open>Event_Log\<close>: upserts of
  nodes and edges, lookups, and the breadth-first chains \<^verbatim>\<open>why\<close>, \<^verbatim>\<open>why_at\<close> and \<^verbatim>\<open>graph_expand\<close>. Uris are
  ordered by code points, which is the byte order of SQLite's \<^verbatim>\<open>BINARY\<close> collation. The loop of the
  chains is a partial function; that it ends is proved. The Graphviz export is left out.
\<close>

section \<open>Upserts and lookups\<close>

text \<open>\<^verbatim>\<open>title = COALESCE(?3, title)\<close>.\<close>

definition upsert_node :: "rstr \<Rightarrow> rstr \<Rightarrow> rstr option \<Rightarrow> int \<Rightarrow> ultra_db \<Rightarrow> ultra_db" where
  "upsert_node uri kind title ts db =
     (if uri \<in> node_uris db
      then db\<lparr>nodes := map (\<lambda>n. if n_uri n = uri
             then n\<lparr>n_last := ts, n_title := (case title of None \<Rightarrow> n_title n | Some t \<Rightarrow> Some t)\<rparr> else n) (nodes db)\<rparr>
      else db\<lparr>nodes := nodes db @ [\<lparr>n_uri = uri, n_kind = kind, n_title = title, n_first = ts, n_last = ts\<rparr>]\<rparr>)"

definition link_new :: "rstr \<Rightarrow> rstr \<Rightarrow> rstr \<Rightarrow> int \<Rightarrow> link_row" where
  "link_new from_uri to_uri rel ts = \<lparr>l_from = from_uri, l_to = to_uri, l_rel = rel, l_weight = b64_one, l_ts = ts,
     l_session = None, l_agent = None\<rparr>"

text \<open>A NaN weight breaks \<^verbatim>\<open>NOT NULL\<close>, a missing node the foreign key.\<close>

definition upsert_edge :: "link_row \<Rightarrow> ultra_db \<Rightarrow> ultra_error + ultra_db" where
  "upsert_edge e db =
     (if l_weight e = NaN64 then Inl UltraSql
      else if link_key e \<in> link_keys db
      then Inr (db\<lparr>links := map (\<lambda>l. if link_key l = link_key e then l\<lparr>l_weight := l_weight e, l_ts := l_ts e\<rparr> else l) (links db)\<rparr>)
      else if l_from e \<in> node_uris db \<and> l_to e \<in> node_uris db then Inr (db\<lparr>links := links db @ [e]\<rparr>)
      else Inl UltraSql)"

definition get_node :: "ultra_db \<Rightarrow> rstr \<Rightarrow> node_row option" where
  "get_node db uri = find (\<lambda>n. n_uri n = uri) (nodes db)"

definition edges_from :: "ultra_db \<Rightarrow> rstr \<Rightarrow> link_row list" where
  "edges_from db uri = sort_key l_ts (filter (\<lambda>l. l_from l = uri) (links db))"

definition edges_to :: "ultra_db \<Rightarrow> rstr \<Rightarrow> link_row list" where
  "edges_to db uri = sort_key l_ts (filter (\<lambda>l. l_to l = uri) (links db))"

definition graph_counts :: "ultra_db \<Rightarrow> nat \<times> nat" where
  "graph_counts db = (length (nodes db), length (links db))"

section \<open>Chains\<close>

record why_step =
  ws_uri :: rstr
  ws_kind :: rstr
  ws_depth :: int
  ws_path :: rstr

fun scan_rows :: "rstr \<Rightarrow> why_step \<Rightarrow> (rstr \<times> rstr) list \<Rightarrow> rstr list \<times> why_step list \<Rightarrow> rstr list \<times> why_step list" where
  "scan_rows arrow step [] st = st"
| "scan_rows arrow step ((uri, kind) # rs) (visited, next) =
     (if uri \<in> set visited then scan_rows arrow step rs (visited, next)
      else scan_rows arrow step rs (visited @ [uri],
        next @ [\<lparr>ws_uri = uri, ws_kind = kind, ws_depth = ws_depth step + 1, ws_path = ws_path step @ arrow @ uri\<rparr>]))"

fun scan_frontier :: "(rstr \<Rightarrow> (rstr \<times> rstr) list) \<Rightarrow> rstr \<Rightarrow> int \<Rightarrow> why_step list \<Rightarrow>
    rstr list \<times> why_step list \<Rightarrow> rstr list \<times> why_step list" where
  "scan_frontier rows arrow max_depth [] st = st"
| "scan_frontier rows arrow max_depth (step # fs) st =
     (if max_depth - 1 \<le> ws_depth step then scan_frontier rows arrow max_depth fs st
      else scan_frontier rows arrow max_depth fs (scan_rows arrow step (rows (ws_uri step)) st))"

partial_function (option) chain_loop :: "(rstr \<Rightarrow> (rstr \<times> rstr) list) \<Rightarrow> rstr \<Rightarrow> int \<Rightarrow> rstr list \<Rightarrow> why_step list \<Rightarrow>
    why_step list \<Rightarrow> why_step list option" where
  "chain_loop rows arrow max_depth visited frontier out =
     (if frontier = [] then Some out
      else case scan_frontier rows arrow max_depth frontier (visited, []) of
        (visited', next) \<Rightarrow> chain_loop rows arrow max_depth visited' next (out @ next))"

text \<open>The three chains share everything but the query for the next nodes and the arrow.\<close>

definition chain :: "(rstr \<Rightarrow> (rstr \<times> rstr) list) \<Rightarrow> rstr \<Rightarrow> ultra_db \<Rightarrow> rstr \<Rightarrow> int \<Rightarrow> why_step list option" where
  "chain rows arrow db uri max_depth =
     (if max_depth \<le> 0 then Some []
      else case get_node db uri of
        None \<Rightarrow> Some []
      | Some n \<Rightarrow>
          let anchor = \<lparr>ws_uri = n_uri n, ws_kind = n_kind n, ws_depth = 0, ws_path = n_uri n\<rparr> in
          map_option (sort_key (\<lambda>s. (ws_depth s, ws_uri s)))
            (chain_loop rows arrow max_depth [n_uri n] [anchor] [anchor]))"

definition causal_rels :: "rstr list" where
  "causal_rels = [lit ''caused'', lit ''derived_from'', lit ''depends_on'']"

text \<open>The join with \<^verbatim>\<open>graph_nodes\<close> adds the kind.\<close>

definition join_kind :: "ultra_db \<Rightarrow> (link_row \<Rightarrow> rstr) \<Rightarrow> link_row list \<Rightarrow> (rstr \<times> rstr) list" where
  "join_kind db endpoint ls =
     map (\<lambda>(l, n). (endpoint l, n_kind n))
       (sort_key (\<lambda>(l, n). endpoint l) (concat (map (\<lambda>l. map (Pair l) (filter (\<lambda>n. n_uri n = endpoint l) (nodes db))) ls)))"

definition cause_rows :: "ultra_db \<Rightarrow> rstr \<Rightarrow> (rstr \<times> rstr) list" where
  "cause_rows db uri = join_kind db l_from (filter (\<lambda>l. l_to l = uri \<and> l_rel l \<in> set causal_rels) (links db))"

definition cause_rows_at :: "ultra_db \<Rightarrow> int \<Rightarrow> rstr \<Rightarrow> (rstr \<times> rstr) list" where
  "cause_rows_at db at uri =
     join_kind db l_from (filter (\<lambda>l. l_to l = uri \<and> l_rel l \<in> set causal_rels \<and> l_ts l \<le> at) (links db))"

definition effect_rows :: "ultra_db \<Rightarrow> rstr \<Rightarrow> (rstr \<times> rstr) list" where
  "effect_rows db uri = join_kind db l_to (filter (\<lambda>l. l_from l = uri) (links db))"

definition why :: "ultra_db \<Rightarrow> rstr \<Rightarrow> int \<Rightarrow> why_step list option" where
  "why db uri max_depth = chain (cause_rows db) (lit '' <- '') db uri max_depth"

definition why_at :: "ultra_db \<Rightarrow> rstr \<Rightarrow> int \<Rightarrow> int \<Rightarrow> why_step list option" where
  "why_at db uri max_depth at = chain (cause_rows_at db at) (lit '' <- '') db uri max_depth"

definition graph_expand :: "ultra_db \<Rightarrow> rstr \<Rightarrow> int \<Rightarrow> why_step list option" where
  "graph_expand db uri max_depth = chain (effect_rows db) (lit '' -> '') db uri max_depth"

section \<open>Reachable databases\<close>

lemma upsert_node_uris:
  "map n_uri (nodes (upsert_node uri kind title ts db)) =
     map n_uri (nodes db) @ (if uri \<in> node_uris db then [] else [uri])"
  by (simp add: upsert_node_def)

lemma upsert_node_wf: assumes "ultra_wf db" shows "ultra_wf (upsert_node uri kind title ts db)"
proof -
  let ?db = "upsert_node uri kind title ts db"
  have o: "events ?db = events db" "events_seq ?db = events_seq db" "events_fts ?db = events_fts db" "sessions ?db = sessions db"
      "decisions ?db = decisions db" "decisions_seq ?db = decisions_seq db" "links ?db = links db"
    by (simp_all add: upsert_node_def)
  have k: "known_session ?db = known_session db" by (rule known_session_cong [OF o(4)])
  have u: "node_uris ?db = insert uri (node_uris db)" using arg_cong [OF upsert_node_uris [of uri kind title ts db], of set]
    by (auto split: if_splits)
  have "graph_wf ?db" using assms unfolding ultra_wf_def graph_wf_def upsert_node_uris u o by auto
  then show ?thesis
    using assms unfolding ultra_wf_def events_wf_def sessions_wf_def decisions_wf_def decisions_linked_def o k by blast
qed

lemma upsert_edge_keys:
  "map link_key (map (\<lambda>l. if link_key l = k then l\<lparr>l_weight := w, l_ts := t\<rparr> else l) ls) = map link_key ls"
  by (simp add: link_key_def)

lemma upsert_edge_wf:
  assumes "ultra_wf db" "upsert_edge e db = Inr db'"
  shows "ultra_wf db'"
proof -
  have o: "events db' = events db" "events_seq db' = events_seq db" "events_fts db' = events_fts db" "sessions db' = sessions db"
      "decisions db' = decisions db" "decisions_seq db' = decisions_seq db" "nodes db' = nodes db"
    using assms(2) by (auto simp: upsert_edge_def split: if_splits)
  have k: "known_session db' = known_session db" by (rule known_session_cong [OF o(4)])
  have keys: "map link_key (links db') = map link_key (links db) @ (if link_key e \<in> link_keys db then [] else [link_key e])"
    using assms(2) upsert_edge_keys [of "link_key e" "l_ts e" "l_weight e" "links db"] by (auto simp: upsert_edge_def split: if_splits)
  have ends: "\<forall>l \<in> set (links db'). l_from l \<in> node_uris db \<and> l_to l \<in> node_uris db"
    using assms unfolding ultra_wf_def graph_wf_def upsert_edge_def by (auto split: if_splits)
  have sub: "link_keys db \<subseteq> link_keys db'" using arg_cong [OF keys, of set] by auto
  have "graph_wf db'" using assms(1) ends unfolding ultra_wf_def graph_wf_def keys o by auto
  moreover have "decisions_linked db'" using assms(1) sub unfolding ultra_wf_def decisions_linked_def o by blast
  ultimately show ?thesis
    using assms(1) unfolding ultra_wf_def events_wf_def sessions_wf_def decisions_wf_def o k by blast
qed

inductive ultra_reach :: "'j ultra_lib \<Rightarrow> ultra_db \<Rightarrow> bool" for L where
  init: "ultra_reach L ultra_migrate"
| event: "ultra_reach L db \<Longrightarrow> ultra_reach L (snd (ingest_event L e db))"
| batch: "ultra_reach L db \<Longrightarrow> ultra_reach L (snd (ingest_events L es db))"
| jsonl: "ultra_reach L db \<Longrightarrow> ultra_reach L (snd (ingest_jsonl_file L parse contents db))"
| decision: "ultra_reach L db \<Longrightarrow> ultra_reach L (snd (ingest_decision L d db))"
| token: "ultra_reach L db \<Longrightarrow> ultra_reach L (snd (ingest_token_cost L t db))"
| node: "ultra_reach L db \<Longrightarrow> ultra_reach L (upsert_node uri kind title ts db)"
| link: "ultra_reach L db \<Longrightarrow> upsert_edge l db = Inr db' \<Longrightarrow> ultra_reach L db'"

lemma fold_ingest_wf: "ultra_wf db \<Longrightarrow> ultra_wf (fold (\<lambda>e d. snd (ingest_event L e d)) es db)"
  by (induction es arbitrary: db) (simp_all add: ingest_event_wf)

lemma jsonl_loop_wf: "ultra_wf db \<Longrightarrow> jsonl_loop L parse ls n db = Inr (m, db') \<Longrightarrow> ultra_wf db'"
proof (induction L parse ls n db rule: jsonl_loop.induct)
  case (2 L parse l ls n db)
  show ?case
  proof (cases "trim l = [] \<or> hd (trim l) = 35")
    case True
    then show ?thesis using 2 by (auto simp: Let_def)
  next
    case False
    obtain e where e: "parse (trim l) = Some e"
      using 2(4) False by (auto simp: Let_def ingest_event_json_def split: option.splits)
    have i: "ingest_event_json L parse (trim l) db = Inr (ingest_event L e db)" by (simp add: ingest_event_json_def e)
    obtain j d where j: "ingest_event L e db = (j, d)" by (cases "ingest_event L e db")
    have "ultra_wf d" using ingest_event_wf [OF 2(3), of L e] j by simp
    moreover have "jsonl_loop L parse ls (n + 1) d = Inr (m, db')" using 2(4) False i j by (simp add: Let_def)
    ultimately show ?thesis using 2(2) [OF refl False i [unfolded j] refl] by blast
  qed
qed simp

text \<open>C29. In every reachable database the event and decision keys are unique, every session referred to
  exists, the full-text index holds exactly the readable contents, the graph has unique nodes and edges
  whose ends exist, and every decision with a source and a target has its two edges.\<close>

theorem ultra_reachable_wf: "ultra_reach L db \<Longrightarrow> ultra_wf db"
proof (induction rule: ultra_reach.induct)
  case (batch db es)
  have "snd (ingest_events L es db) = fold (\<lambda>e d. snd (ingest_event L e d)) es db"
    using ingest_loop_fold [OF refl, of L es 0 db] by (simp add: ingest_events_def)
  then show ?case using fold_ingest_wf [OF batch.IH] by simp
next
  case (jsonl db parse contents)
  then show ?case using jsonl_loop_wf by (auto simp: ingest_jsonl_file_def split: option.splits sum.splits)
qed (simp_all add: ultra_migrate_wf ingest_event_wf ingest_decision_wf ingest_token_cost_wf upsert_node_wf upsert_edge_wf)

theorem ultra_reachable_wf_witness:
  "ultra_reach lib_id (snd (ingest_event lib_id (event_now 1 (lit ''a'') Message) ultra_migrate)) \<and>
   ultra_wf (snd (ingest_event lib_id (event_now 1 (lit ''a'') Message) ultra_migrate))"
  using ultra_reachable_wf [OF ultra_reach.event [OF ultra_reach.init, of lib_id "event_now 1 (lit ''a'') Message"]]
    ultra_reach.event [OF ultra_reach.init, of lib_id "event_now 1 (lit ''a'') Message"] by simp

section \<open>Chains are the layers of the graph\<close>

lemma scan_rows_scanned:
  "scanned ws_uri ws_depth (ws_depth step + 1) (fst ` set rs) st (scan_rows arrow step rs st)"
proof (induction arrow step rs st rule: scan_rows.induct)
  case (2 arrow step uri kind rs visited nxt)
  show ?case
  proof (cases "uri \<in> set visited")
    case True
    have "scanned ws_uri ws_depth (ws_depth step + 1) {uri} (visited, nxt) (visited, nxt)" using True by (simp add: scanned_seen)
    from scanned_trans [OF this 2(1) [OF True]] show ?thesis using True by simp
  next
    case False
    let ?h = "\<lparr>ws_uri = uri, ws_kind = kind, ws_depth = ws_depth step + 1, ws_path = ws_path step @ arrow @ uri\<rparr>"
    have "scanned ws_uri ws_depth (ws_depth step + 1) {uri} (visited, nxt) (visited @ [uri], nxt @ [?h])"
      using scanned_new [of ws_uri ?h visited ws_depth "ws_depth step + 1" nxt] False by simp
    from scanned_trans [OF this 2(2) [OF False]] show ?thesis using False by simp
  qed
qed (simp add: scanned_nothing)

lemma scan_frontier_scanned:
  assumes "\<forall>s \<in> set fs. ws_depth s = d" "d < max_depth - 1"
  shows "scanned ws_uri ws_depth (d + 1) (\<Union>x \<in> ws_uri ` set fs. fst ` set (rows x)) st
    (scan_frontier rows arrow max_depth fs st)"
  using assms(1)
proof (induction fs arbitrary: st)
  case (Cons f fs)
  have f: "ws_depth f = d" "\<not> max_depth - 1 \<le> ws_depth f" using Cons.prems assms(2) by simp_all
  let ?st = "scan_rows arrow f (rows (ws_uri f)) st"
  have "scanned ws_uri ws_depth (d + 1) (\<Union>x \<in> ws_uri ` set fs. fst ` set (rows x)) ?st (scan_frontier rows arrow max_depth fs ?st)"
    using Cons by simp
  from scanned_trans [OF scan_rows_scanned [of f "rows (ws_uri f)" st arrow, unfolded f(1)] this]
  show ?case using f(2) by simp
qed (simp add: scanned_nothing)

lemma scan_frontier_deep: "\<forall>s \<in> set fs. max_depth - 1 \<le> ws_depth s \<Longrightarrow> scan_frontier rows arrow max_depth fs st = st"
  by (induction fs) simp_all

definition step_depths :: "why_step list \<Rightarrow> (rstr \<times> nat) set" where
  "step_depths ss = (\<lambda>s. (ws_uri s, nat (ws_depth s))) ` set ss"

lemma chain_loop_nil: "chain_loop rows arrow max_depth visited [] out = Some out"
  by (simp add: chain_loop.simps [of rows arrow max_depth visited "[]" out])

lemma chain_loop_exact:
  assumes rows: "\<And>x. fst ` set (rows x) = step x"
  shows "int d + int n = max_depth - 1 \<Longrightarrow> set visited = within step u d \<Longrightarrow> ws_uri ` set frontier = layer step u d \<Longrightarrow>
    \<forall>s \<in> set frontier. ws_depth s = int d \<Longrightarrow> distinct (map ws_uri out) \<Longrightarrow> ws_uri ` set out \<subseteq> within step u d \<Longrightarrow>
    \<forall>s \<in> set out. 0 \<le> ws_depth s \<Longrightarrow>
    \<exists>out'. chain_loop rows arrow max_depth visited frontier out = Some out' \<and> distinct (map ws_uri out') \<and>
      (\<forall>s \<in> set out'. 0 \<le> ws_depth s) \<and>
      step_depths out' = step_depths out \<union> {(v, k). d < k \<and> k \<le> d + n \<and> v \<in> layer step u k}"
proof (induction n arbitrary: d visited frontier out)
  case 0
  have "scan_frontier rows arrow max_depth frontier (visited, []) = (visited, [])"
    by (rule scan_frontier_deep) (use 0 in auto)
  then have "chain_loop rows arrow max_depth visited frontier out = Some out"
    by (simp add: chain_loop.simps [of rows arrow max_depth visited frontier out]
        chain_loop_nil)
  then show ?case using 0 by auto
next
  case (Suc n)
  have N: "(\<Union>x \<in> ws_uri ` set frontier. fst ` set (rows x)) - set visited = layer step u (Suc d)"
    unfolding Suc.prems(2,3) rows by (rule layer_step)
  have "scanned ws_uri ws_depth (int d + 1) (\<Union>x \<in> ws_uri ` set frontier. fst ` set (rows x)) (visited, [])
      (scan_frontier rows arrow max_depth frontier (visited, []))"
    by (rule scan_frontier_scanned [OF Suc.prems(4)]) (use Suc.prems(1) in simp)
  then obtain new where new: "scan_frontier rows arrow max_depth frontier (visited, []) = (visited @ map ws_uri new, new)"
      "distinct (map ws_uri new)" "ws_uri ` set new = layer step u (Suc d)" "\<forall>s \<in> set new. ws_depth s = int (Suc d)"
    unfolding scanned_def using N by (auto simp: prod_eq_iff)
  show ?case
  proof (cases "frontier = []")
    case True
    then obtain d' where d: "d = Suc d'" using Suc.prems(3) by (cases d) auto
    have "layer step u k = {}" if "d < k" for k
      using layer_stable [of step u d' "k - d"] Suc.prems(3) True that by (simp add: d)
    then show ?thesis
      unfolding True chain_loop_nil using Suc.prems(5,7) by auto
  next
    case False
    have hd: "step_depths (out @ new) = step_depths out \<union> {(v, k). k = Suc d \<and> v \<in> layer step u (Suc d)}"
      using new(4) by (force simp: step_depths_def simp flip: new(3))
    have 1: "set (visited @ map ws_uri new) = within step u (Suc d)"
      using new(3) Suc.prems(2) within_layer_Suc [of step u d] by simp
    have 2: "distinct (map ws_uri (out @ new))"
      using Suc.prems(5,6) new(2,3) layer_disjoint [of step u d] by auto
    have 3: "ws_uri ` set (out @ new) \<subseteq> within step u (Suc d)"
      using Suc.prems(6) new(3) within_layer_Suc [of step u d] by (auto simp: image_Un)
    have 4: "\<forall>s \<in> set (out @ new). 0 \<le> ws_depth s" using Suc.prems(7) new(4) by auto
    have "int (Suc d) + int n = max_depth - 1" using Suc.prems(1) by simp
    from Suc.IH [OF this 1 new(3,4) 2 3 4] obtain out' where
      "chain_loop rows arrow max_depth (visited @ map ws_uri new) new (out @ new) = Some out'" "distinct (map ws_uri out')"
      "\<forall>s \<in> set out'. 0 \<le> ws_depth s"
      "step_depths out' = step_depths (out @ new) \<union> {(v, k). Suc d < k \<and> k \<le> Suc d + n \<and> v \<in> layer step u k}" by blast
    then show ?thesis
      using False unfolding layer_split
      by (simp add: chain_loop.simps [of rows arrow max_depth visited frontier out] new(1) hd Un_assoc)
  qed
qed

definition chain_spec :: "(rstr \<Rightarrow> rstr set) \<Rightarrow> ultra_db \<Rightarrow> rstr \<Rightarrow> int \<Rightarrow> why_step list \<Rightarrow> bool" where
  "chain_spec step db uri max_depth steps \<longleftrightarrow> distinct (map ws_uri steps) \<and>
     sorted (map (\<lambda>s. (ws_depth s, ws_uri s)) steps) \<and>
     step_depths steps = (if uri \<in> node_uris db then {(v, k). int k < max_depth \<and> v \<in> layer step uri k} else {})"

lemma chain_exact:
  assumes rows: "\<And>x. fst ` set (rows x) = step x"
  shows "\<exists>steps. chain rows arrow db uri max_depth = Some steps \<and> chain_spec step db uri max_depth steps"
proof (cases "max_depth \<le> 0 \<or> get_node db uri = None")
  case True
  have "chain rows arrow db uri max_depth = Some []" using True by (auto simp: chain_def)
  moreover have "\<not> int k < max_depth" if "uri \<in> node_uris db" for k
    using True that by (auto simp: get_node_def find_None_iff)
  ultimately show ?thesis by (auto simp: chain_spec_def step_depths_def)
next
  case False
  then obtain n where n: "get_node db uri = Some n" and m: "0 < max_depth" by auto
  have u: "n_uri n = uri" "uri \<in> node_uris db" using n nth_mem unfolding get_node_def find_Some_iff by (blast, force)
  let ?a = "\<lparr>ws_uri = uri, ws_kind = n_kind n, ws_depth = 0, ws_path = uri\<rparr>"
  obtain out where out: "chain_loop rows arrow max_depth [uri] [?a] [?a] = Some out" "distinct (map ws_uri out)"
      "\<forall>s \<in> set out. 0 \<le> ws_depth s"
      "step_depths out = step_depths [?a] \<union> {(v, k). 0 < k \<and> k \<le> 0 + nat (max_depth - 1) \<and> v \<in> layer step uri k}"
    using chain_loop_exact [where rows = rows and step = step and d = 0 and n = "nat (max_depth - 1)" and max_depth = max_depth and visited = "[uri]"
        and u = uri and frontier = "[?a]" and out = "[?a]" and arrow = arrow, OF rows] m by auto
  have "step_depths out = {(v, k). int k < max_depth \<and> v \<in> layer step uri k}"
    unfolding out(4) using m by (auto simp: step_depths_def) (metis gr0I layer_0 singletonD)+
  moreover have "step_depths (sort_key (\<lambda>s. (ws_depth s, ws_uri s)) out) = step_depths out"
    "distinct (map ws_uri (sort_key (\<lambda>s. (ws_depth s, ws_uri s)) out)) = distinct (map ws_uri out)"
    by (simp_all add: step_depths_def distinct_map)
  ultimately show ?thesis
    using n m u out(1,2) by (simp add: chain_def chain_spec_def)
qed

text \<open>The successors the queries give in a well-formed graph.\<close>

definition causes :: "ultra_db \<Rightarrow> (link_row \<Rightarrow> bool) \<Rightarrow> rstr \<Rightarrow> rstr set" where
  "causes db P uri = l_from ` {l \<in> set (links db). l_to l = uri \<and> l_rel l \<in> set causal_rels \<and> P l}"

definition effects :: "ultra_db \<Rightarrow> rstr \<Rightarrow> rstr set" where
  "effects db uri = l_to ` {l \<in> set (links db). l_from l = uri}"

lemma join_kind_set:
  assumes "\<forall>l \<in> set ls. endpoint l \<in> node_uris db"
  shows "fst ` set (join_kind db endpoint ls) = endpoint ` set ls"
proof -
  have "fst ` set (join_kind db endpoint ls) = (\<Union>l \<in> set ls. {endpoint l |n. n \<in> set (nodes db) \<and> n_uri n = endpoint l})"
    by (force simp: join_kind_def image_iff)
  also have "\<dots> = endpoint ` set ls" using assms by force
  finally show ?thesis .
qed

lemma cause_rows_set: "graph_wf db \<Longrightarrow> fst ` set (cause_rows db x) = causes db (\<lambda>_. True) x"
  unfolding cause_rows_def by (subst join_kind_set) (auto simp: graph_wf_def causes_def)

lemma cause_rows_at_set: "graph_wf db \<Longrightarrow> fst ` set (cause_rows_at db at x) = causes db (\<lambda>l. l_ts l \<le> at) x"
  unfolding cause_rows_at_def by (subst join_kind_set) (auto simp: graph_wf_def causes_def)

lemma effect_rows_set: "graph_wf db \<Longrightarrow> fst ` set (effect_rows db x) = effects db x"
  unfolding effect_rows_def by (subst join_kind_set) (auto simp: graph_wf_def effects_def)

text \<open>C30. The three chains end. Each lists, ordered by depth and uri and every node once, exactly the nodes
  whose distance from the start is below the depth limit, with that distance: against causal edges for
  \<^verbatim>\<open>why\<close>, against causal edges that existed at the given time for \<^verbatim>\<open>why_at\<close>, along all edges for
  \<^verbatim>\<open>graph_expand\<close>; for an unknown start they are empty.\<close>

theorem chains_exact:
  assumes "ultra_wf db"
  shows "(\<exists>steps. why db uri max_depth = Some steps \<and> chain_spec (causes db (\<lambda>_. True)) db uri max_depth steps) \<and>
    (\<exists>steps. why_at db uri max_depth at = Some steps \<and> chain_spec (causes db (\<lambda>l. l_ts l \<le> at)) db uri max_depth steps) \<and>
    (\<exists>steps. graph_expand db uri max_depth = Some steps \<and> chain_spec (effects db) db uri max_depth steps)"
proof -
  have g: "graph_wf db" using assms by (simp add: ultra_wf_def)
  show ?thesis
    unfolding why_def why_at_def graph_expand_def
    by (intro conjI chain_exact cause_rows_set [OF g] cause_rows_at_set [OF g] effect_rows_set [OF g])
qed

theorem chains_exact_witness:
  "\<exists>steps. why (upsert_node (lit ''u'') (lit ''file'') None 1 ultra_migrate) (lit ''u'') 3 = Some steps \<and> distinct (map ws_uri steps)"
  using chains_exact [OF upsert_node_wf [OF ultra_migrate_wf], of "lit ''u''" "lit ''file''" None 1 "lit ''u''" 3 0]
  by (auto simp: chain_spec_def)

end
