(* ===== verification/Text_Patterns.thy ===== *)
theory Text_Patterns
  imports Rust_Text
begin

text \<open>
  The pattern language of the \<^verbatim>\<open>regex\<close> crate as far as the compliance export uses it. A pattern denotes
  the positions at which a match from a given position can end; \<^verbatim>\<open>\b\<close> looks at the characters on both sides,
  so matching is relative to the whole text. The search itself is the crate's and an argument
  of its clients; what they rely on is its documented result, the leftmost matches from left to right, stated
  by \<open>leftmost\<close>. \<open>search_spans\<close> shows that a search with this result exists.
\<close>

section \<open>Patterns\<close>

datatype regex =
    Chars "rchar \<Rightarrow> bool" | Boundary | Nothing_More | Both regex regex | Either regex regex | Rep regex nat "nat option"

text \<open>\<open>Rep r lo hi\<close> is \<^verbatim>\<open>r{lo,hi}\<close>, without an upper bound when \<open>hi\<close> is None. Up to the length of the text
  repetitions are tried, as every repetition that counts takes a character.\<close>

definition is_boundary :: "(rchar \<Rightarrow> bool) \<Rightarrow> rstr \<Rightarrow> nat \<Rightarrow> bool" where
  "is_boundary word t i \<longleftrightarrow> (0 < i \<and> i \<le> length t \<and> word (t ! (i - 1))) \<noteq> (i < length t \<and> word (t ! i))"

fun rep_ends :: "(nat \<Rightarrow> nat list) \<Rightarrow> nat \<Rightarrow> nat \<Rightarrow> nat \<Rightarrow> nat list" where
  "rep_ends f 0 0 i = [i]"
| "rep_ends f 0 (Suc k) i = remdups (concat (map (rep_ends f 0 k) (f i)) @ [i])"
| "rep_ends f (Suc m) k i = remdups (concat (map (rep_ends f m k) (f i)))"

fun ends :: "(rchar \<Rightarrow> bool) \<Rightarrow> rstr \<Rightarrow> regex \<Rightarrow> nat \<Rightarrow> nat list" where
  "ends word t (Chars p) i = (if i < length t \<and> p (t ! i) then [i + 1] else [])"
| "ends word t Boundary i = (if is_boundary word t i then [i] else [])"
| "ends word t Nothing_More i = [i]"
| "ends word t (Both r s) i = remdups (concat (map (ends word t s) (ends word t r i)))"
| "ends word t (Either r s) i = ends word t r i @ ends word t s i"
| "ends word t (Rep r lo hi) i = rep_ends (ends word t r) lo (case hi of None \<Rightarrow> length t | Some h \<Rightarrow> h - lo) i"

definition one :: "rchar \<Rightarrow> regex" where
  "one c = Chars (\<lambda>x. x = c)"

definition optional :: "regex \<Rightarrow> regex" where
  "optional r = Rep r 0 (Some 1)"

definition exactly :: "nat \<Rightarrow> regex \<Rightarrow> regex" where
  "exactly n r = Rep r n (Some n)"

definition some_of :: "regex \<Rightarrow> regex" where
  "some_of r = Rep r 1 None"

fun in_order :: "regex list \<Rightarrow> regex" where
  "in_order [] = Nothing_More"
| "in_order [r] = r"
| "in_order (r # rs) = Both r (in_order rs)"

fun one_of :: "regex list \<Rightarrow> regex" where
  "one_of [] = Chars (\<lambda>_. False)"
| "one_of [r] = r"
| "one_of (r # rs) = Either r (one_of rs)"

definition word_of :: "rstr \<Rightarrow> regex" where
  "word_of s = in_order (map one s)"

section \<open>What a match takes\<close>

fun min_len :: "regex \<Rightarrow> nat" where
  "min_len (Chars p) = 1"
| "min_len Boundary = 0"
| "min_len Nothing_More = 0"
| "min_len (Both r s) = min_len r + min_len s"
| "min_len (Either r s) = min (min_len r) (min_len s)"
| "min_len (Rep r lo hi) = lo * min_len r"

text \<open>No match contains a character outside \<open>p\<close>; every match contains one inside \<open>p\<close>.\<close>

fun takes_only :: "(rchar \<Rightarrow> bool) \<Rightarrow> regex \<Rightarrow> bool" where
  "takes_only p (Chars q) \<longleftrightarrow> (\<forall>c. q c \<longrightarrow> p c)"
| "takes_only p Boundary \<longleftrightarrow> True"
| "takes_only p Nothing_More \<longleftrightarrow> True"
| "takes_only p (Both r s) \<longleftrightarrow> takes_only p r \<and> takes_only p s"
| "takes_only p (Either r s) \<longleftrightarrow> takes_only p r \<and> takes_only p s"
| "takes_only p (Rep r lo hi) \<longleftrightarrow> takes_only p r"

fun takes_some :: "(rchar \<Rightarrow> bool) \<Rightarrow> regex \<Rightarrow> bool" where
  "takes_some p (Chars q) \<longleftrightarrow> (\<forall>c. q c \<longrightarrow> p c)"
| "takes_some p Boundary \<longleftrightarrow> False"
| "takes_some p Nothing_More \<longleftrightarrow> False"
| "takes_some p (Both r s) \<longleftrightarrow> takes_some p r \<or> takes_some p s"
| "takes_some p (Either r s) \<longleftrightarrow> takes_some p r \<and> takes_some p s"
| "takes_some p (Rep r lo hi) \<longleftrightarrow> 0 < lo \<and> takes_some p r"

lemma rep_ends_closed:
  assumes "j \<in> set (rep_ends f m k i)" "\<And>i j. j \<in> set (f i) \<Longrightarrow> R i j" "\<And>i. R i i" "\<And>a b c. R a b \<Longrightarrow> R b c \<Longrightarrow> R a c"
  shows "R i j"
  using assms(1,2)
proof (induction f m k i arbitrary: j rule: rep_ends.induct)
  case (2 f k i)
  then show ?case using assms(3) assms(4) [of i] by fastforce
next
  case (3 f m k i)
  then show ?case using assms(4) [of i] by fastforce
qed (simp add: assms(3))

lemma rep_ends_length:
  assumes "j \<in> set (rep_ends f m k i)" "\<And>i j. j \<in> set (f i) \<Longrightarrow> i + l \<le> j"
  shows "i + m * l \<le> j"
  using assms
proof (induction f m k i arbitrary: j rule: rep_ends.induct)
  case (2 f k i)
  then show ?case by fastforce
next
  case (3 f m k i)
  then obtain x where "x \<in> set (f i)" "j \<in> set (rep_ends f m k x)" by auto
  then show ?case using 3(1) [of x j] 3(3) [of x i] 3(3) by fastforce
qed simp

lemma ends_length: "j \<in> set (ends word t r i) \<Longrightarrow> i + min_len r \<le> j"
proof (induction r arbitrary: i j)
  case (Both r s)
  then show ?case by fastforce
next
  case (Either r s)
  then show ?case by fastforce
next
  case (Rep r lo hi)
  then show ?case using rep_ends_length [of j "ends word t r" lo _ i "min_len r"] by fastforce
qed (auto split: if_splits)

lemma ends_within: "j \<in> set (ends word t r i) \<Longrightarrow> i \<le> length t \<Longrightarrow> j \<le> length t"
proof (induction r arbitrary: i j)
  case (Rep r lo hi)
  have "i \<le> length t \<longrightarrow> j \<le> length t"
    by (rule rep_ends_closed [where R = "\<lambda>i j. i \<le> length t \<longrightarrow> j \<le> length t"]) (use Rep in auto)
  then show ?case using Rep by simp
qed (auto split: if_splits)

lemma ends_takes_only:
  "j \<in> set (ends word t r i) \<Longrightarrow> takes_only p r \<Longrightarrow> i \<le> k \<Longrightarrow> k < j \<Longrightarrow> p (t ! k)"
proof (induction r arbitrary: i j)
  case (Chars q)
  then show ?case by (auto split: if_splits simp: le_less_Suc_eq)
next
  case (Both r s)
  then obtain x where "x \<in> set (ends word t r i)" "j \<in> set (ends word t s x)" by auto
  then show ?case using Both by (cases "k < x") auto
next
  case (Rep r lo hi)
  have "i \<le> k \<and> k < j \<longrightarrow> p (t ! k)"
  proof (rule rep_ends_closed [where R = "\<lambda>i j. i \<le> k \<and> k < j \<longrightarrow> p (t ! k)"])
    show "j \<in> set (rep_ends (ends word t r) lo (case hi of None \<Rightarrow> length t | Some h \<Rightarrow> h - lo) i)" using Rep.prems(1) by simp
  qed (use Rep in auto)
  then show ?case using Rep by blast
qed (auto split: if_splits)

lemma ends_takes_some:
  "j \<in> set (ends word t r i) \<Longrightarrow> takes_some p r \<Longrightarrow> \<exists>k. i \<le> k \<and> k < j \<and> p (t ! k)"
proof (induction r arbitrary: i j)
  case (Chars q)
  then show ?case by (auto split: if_splits)
next
  case (Both r s)
  then obtain x where x: "x \<in> set (ends word t r i)" "j \<in> set (ends word t s x)" by auto
  have "i \<le> x" "x \<le> j" using ends_length [OF x(1)] ends_length [OF x(2)] by simp_all
  from Both.prems(2) show ?case
  proof (cases "takes_some p r")
    case True
    then obtain k where "i \<le> k" "k < x" "p (t ! k)" using Both.IH(1) [OF x(1)] by auto
    then show ?thesis using \<open>x \<le> j\<close> by (intro exI [of _ k]) simp
  next
    case False
    then obtain k where "x \<le> k" "k < j" "p (t ! k)" using Both.IH(2) [OF x(2)] Both.prems(2) by auto
    then show ?thesis using \<open>i \<le> x\<close> by (intro exI [of _ k]) simp
  qed
next
  case (Rep r lo hi)
  then obtain m where lo: "lo = Suc m" by (cases lo) auto
  obtain x where x: "x \<in> set (ends word t r i)" and
    j: "j \<in> set (rep_ends (ends word t r) m (case hi of None \<Rightarrow> length t | Some h \<Rightarrow> h - Suc m) x)"
    using Rep.prems(1) by (auto simp: lo)
  have "x \<le> j" using rep_ends_length [OF j, of 0] ends_length by fastforce
  moreover obtain k where "i \<le> k" "k < x" "p (t ! k)" using Rep.IH [OF x] Rep.prems(2) by auto
  ultimately show ?case by (intro exI [of _ k]) simp
qed (auto split: if_splits)

section \<open>Searching\<close>

text \<open>The spans of the leftmost non-empty matches from position \<open>i\<close> on: each starts at the first
  position at which a match starts.\<close>

fun leftmost :: "(rchar \<Rightarrow> bool) \<Rightarrow> rstr \<Rightarrow> regex \<Rightarrow> nat \<Rightarrow> (nat \<times> nat) list \<Rightarrow> bool" where
  "leftmost word t r i [] \<longleftrightarrow> (\<forall>k \<in> {i..length t}. ends word t r k = [])"
| "leftmost word t r i ((a, b) # s) \<longleftrightarrow>
     i \<le> a \<and> a \<le> length t \<and> (\<forall>k \<in> {i..<a}. ends word t r k = []) \<and> b \<in> set (ends word t r a) \<and> a < b \<and> leftmost word t r b s"

text \<open>\<^verbatim>\<open>find_iter\<close> on patterns that match no empty text.\<close>

definition finder_ok :: "(rchar \<Rightarrow> bool) \<Rightarrow> (regex \<Rightarrow> rstr \<Rightarrow> (nat \<times> nat) list) \<Rightarrow> bool" where
  "finder_ok word finder \<longleftrightarrow> (\<forall>r t. 0 < min_len r \<longrightarrow> leftmost word t r 0 (finder r t))"

function search_spans :: "(rchar \<Rightarrow> bool) \<Rightarrow> rstr \<Rightarrow> regex \<Rightarrow> nat \<Rightarrow> (nat \<times> nat) list" where
  "search_spans word t r i =
     (if length t < i then []
      else case ends word t r i of
        [] \<Rightarrow> search_spans word t r (i + 1)
      | b # _ \<Rightarrow> (i, b) # search_spans word t r (max b (i + 1)))"
  by pat_completeness auto
termination
  by (relation "measure (\<lambda>(w, t, r, i). Suc (length t) - i)") auto

declare search_spans.simps [simp del]

lemma leftmost_skip: "ends word t r i = [] \<Longrightarrow> leftmost word t r (i + 1) s \<Longrightarrow> leftmost word t r i s"
proof (cases s)
  case Nil
  assume "ends word t r i = []" "leftmost word t r (i + 1) s"
  then show ?thesis using Nil le_eq_less_or_eq by fastforce
next
  case (Cons x s')
  assume "ends word t r i = []" "leftmost word t r (i + 1) s"
  then show ?thesis using Cons le_eq_less_or_eq by (cases x) fastforce
qed

lemma search_leftmost: "0 < min_len r \<Longrightarrow> leftmost word t r i (search_spans word t r i)"
proof (induction word t r i rule: search_spans.induct)
  case (1 word t r i)
  show ?case
  proof (cases "length t < i")
    case True
    then show ?thesis by (simp add: search_spans.simps)
  next
    case False
    show ?thesis
    proof (cases "ends word t r i")
      case Nil
      then show ?thesis using 1 False leftmost_skip [OF Nil] by (simp add: search_spans.simps [of word t r i])
    next
      case (Cons b bs)
      then have "i < b" using ends_length [of b word t r i] 1(3) by simp
      then have "max b (i + 1) = b" by simp
      then show ?thesis using 1(2) [OF False Cons 1(3)] Cons False \<open>i < b\<close> by (simp add: search_spans.simps [of word t r i])
    qed
  qed
qed

lemma search_finder_ok: "finder_ok word (\<lambda>r t. search_spans word t r 0)"
  by (simp add: finder_ok_def search_leftmost)

text \<open>Every match starts inside a span.\<close>

lemma leftmost_covers:
  "leftmost word t r i s \<Longrightarrow> i \<le> k \<Longrightarrow> k \<le> length t \<Longrightarrow> ends word t r k \<noteq> [] \<Longrightarrow> \<exists>(a, b) \<in> set s. a \<le> k \<and> k < b"
proof (induction s arbitrary: i)
  case (Cons x s)
  obtain a b where x: "x = (a, b)" by (cases x)
  show ?case
  proof (cases "k < b")
    case True
    have "a \<le> k" using Cons.prems x by (meson atLeastLessThan_iff leftmost.simps(2) not_le)
    then show ?thesis using True x by auto
  next
    case False
    then show ?thesis using Cons.IH [of b] Cons.prems x by auto
  qed
qed auto

lemma leftmost_Nil: "leftmost word t r 0 s \<Longrightarrow> s = [] \<longleftrightarrow> (\<forall>k \<le> length t. ends word t r k = [])"
proof
  assume l: "leftmost word t r 0 s" and e: "\<forall>k \<le> length t. ends word t r k = []"
  show "s = []"
  proof (rule ccontr)
    assume "s \<noteq> []"
    then obtain a b u where "s = (a, b) # u" by (cases s) auto
    then show False using l e by auto
  qed
qed auto

section \<open>Replacing\<close>

text \<open>\<^verbatim>\<open>replace_all\<close> with a replacement that holds no \<^verbatim>\<open>$\<close>.\<close>

fun replace_spans :: "rstr \<Rightarrow> rstr \<Rightarrow> nat \<Rightarrow> (nat \<times> nat) list \<Rightarrow> rstr" where
  "replace_spans t new i [] = drop i t"
| "replace_spans t new i ((a, b) # s) = slice t i a @ new @ replace_spans t new b s"

lemma drop_slice: "i \<le> a \<Longrightarrow> a \<le> length t \<Longrightarrow> drop i t = slice t i a @ drop a t"
  unfolding slice_def by (metis append_take_drop_id drop_drop le_add_diff_inverse2)

lemma slice_nth: "k < length (slice t a b) \<Longrightarrow> slice t a b ! k = t ! (a + k)"
  by (cases "a \<le> length t") (simp_all add: slice_def)

lemma slice_length: "b \<le> length t \<Longrightarrow> length (slice t a b) = b - a"
  by (simp add: slice_def)

end
