(* ===== verification/Compliance_Export.thy ===== *)
theory Compliance_Export
  imports Text_Patterns Doc_Store
begin

text \<open>
  The compliance export of \<^verbatim>\<open>crates/synapse-compliance/src/lib.rs\<close>: the masking of personal data by nine
  patterns, the export of the document table and its CSV and Markdown forms. The search for a pattern is
  the \<^verbatim>\<open>regex\<close> crate's and an argument (\<open>finder_ok\<close>), as are its Unicode tables for \<^verbatim>\<open>\d\<close> and \<^verbatim>\<open>\w\<close>, the agent that
  \<^verbatim>\<open>json_extract\<close> finds in a document's metadata, and the order in which a hash map is read. Counts are
  32-bit. The JSON form is serde's and left out.
\<close>

section \<open>Patterns\<close>

datatype pii_type =
    Email | Phone | Iban | CreditCard | TaxId | Passport | IpAddress | DateOfBirth | StreetAddress

fun pii_as_str :: "pii_type \<Rightarrow> rstr" where
  "pii_as_str Email = lit ''email''"
| "pii_as_str Phone = lit ''phone''"
| "pii_as_str Iban = lit ''iban''"
| "pii_as_str CreditCard = lit ''credit_card''"
| "pii_as_str TaxId = lit ''tax_id''"
| "pii_as_str Passport = lit ''passport''"
| "pii_as_str IpAddress = lit ''ip''"
| "pii_as_str DateOfBirth = lit ''dob''"
| "pii_as_str StreetAddress = lit ''address''"

text \<open>Unicode decimal digits and word characters.\<close>

record re_tables =
  u_digit :: "rchar \<Rightarrow> bool"
  u_word :: "rchar \<Rightarrow> bool"

definition re_upper :: regex where "re_upper = Chars is_ascii_uppercase"

definition re_space :: regex where "re_space = Chars is_whitespace"

definition email_pattern :: regex where
  "email_pattern = in_order [Boundary,
     some_of (Chars (\<lambda>c. is_ascii_alphanumeric c \<or> c \<in> set (lit ''._%+-''))), one 64,
     some_of (Chars (\<lambda>c. is_ascii_alphanumeric c \<or> c \<in> set (lit ''.-''))), one 46,
     Rep (Chars (\<lambda>c. is_ascii_uppercase c \<or> c = 124 \<or> is_ascii_lowercase c)) 2 None, Boundary]"

definition iban_pattern :: "regex \<Rightarrow> regex" where
  "iban_pattern d = in_order [Boundary, exactly 2 re_upper, exactly 2 d,
     Rep (Both (optional re_space) (Rep d 2 (Some 4))) 4 (Some 12), Boundary]"

definition phone_pattern :: "regex \<Rightarrow> regex" where
  "phone_pattern d =
     (let sep = optional (Chars (\<lambda>c. is_whitespace c \<or> c = 45 \<or> c = 47)) in
      in_order [Either (word_of (lit ''+49'')) (one 48), sep, Rep (Both d sep) 6 (Some 14), d])"

definition card_pattern :: "regex \<Rightarrow> regex" where
  "card_pattern d = in_order [Boundary, Rep (Both d (optional (Chars (\<lambda>c. c = 32 \<or> c = 45)))) 13 (Some 16), Boundary]"

definition tax_pattern :: "regex \<Rightarrow> regex" where
  "tax_pattern d = in_order [Boundary, exactly 2 d, optional (one 46), exactly 3 d, optional (one 46), exactly 3 d,
     optional (one 46), exactly 3 d, Boundary]"

definition passport_pattern :: "regex \<Rightarrow> regex" where
  "passport_pattern d = in_order [Boundary, exactly 2 re_upper, exactly 8 d, Boundary]"

definition octet :: "regex \<Rightarrow> regex" where
  "octet d = one_of [in_order [one 50, one 53, Chars (\<lambda>c. 48 \<le> c \<and> c \<le> 53)],
     in_order [one 50, Chars (\<lambda>c. 48 \<le> c \<and> c \<le> 52), d],
     in_order [optional (Chars (\<lambda>c. c = 48 \<or> c = 49)), d, optional d]]"

definition ip_pattern :: "regex \<Rightarrow> regex" where
  "ip_pattern d = in_order [Boundary, exactly 3 (Both (octet d) (one 46)), octet d, Boundary]"

definition dob_pattern :: "regex \<Rightarrow> regex" where
  "dob_pattern d = in_order [Boundary, Rep d 1 (Some 2), one 46, Rep d 1 (Some 2), one 46, Rep d 2 (Some 4), Boundary]"

definition street_pattern :: "regex \<Rightarrow> regex" where
  "street_pattern d = in_order [Boundary, Chars (\<lambda>c. is_ascii_uppercase c \<or> c \<in> {196, 214, 220}),
     some_of (Chars (\<lambda>c. is_ascii_lowercase c \<or> c \<in> {228, 246, 252, 223})),
     one_of (map word_of [lit ''stra'' @ [223] @ lit ''e'', lit ''weg'', lit ''gasse'', lit ''allee'', lit ''platz'']),
     some_of re_space, some_of d, Boundary]"

definition pii_rules :: "re_tables \<Rightarrow> (pii_type \<times> regex) list" where
  "pii_rules U = (let d = Chars (u_digit U) in
     [(Email, email_pattern), (Iban, iban_pattern d), (Phone, phone_pattern d), (CreditCard, card_pattern d),
      (TaxId, tax_pattern d), (Passport, passport_pattern d), (IpAddress, ip_pattern d), (DateOfBirth, dob_pattern d),
      (StreetAddress, street_pattern d)])"

section \<open>Masking\<close>

definition placeholder :: "pii_type \<Rightarrow> rstr" where
  "placeholder ty = lit ''[REDACTED:'' @ pii_as_str ty @ lit '']''"

definition u32_of :: "nat \<Rightarrow> nat" where
  "u32_of n = n mod 2 ^ 32"

type_synonym finder = "regex \<Rightarrow> rstr \<Rightarrow> (nat \<times> nat) list"

text \<open>The map of counts as an association list in the order of the rules.\<close>

fun mask_rule :: "finder \<Rightarrow> pii_type \<times> regex \<Rightarrow> rstr \<times> (pii_type \<times> nat) list \<Rightarrow> rstr \<times> (pii_type \<times> nat) list" where
  "mask_rule F (ty, r) (masked, counts) =
     (let spans = F r masked; n = u32_of (length spans) in
      if 0 < n then (replace_spans masked (placeholder ty) 0 spans, counts @ [(ty, n)]) else (masked, counts))"

definition pii_mask :: "re_tables \<Rightarrow> finder \<Rightarrow> rstr \<Rightarrow> rstr \<times> (pii_type \<times> nat) list" where
  "pii_mask U F txt = fold (mask_rule F) (pii_rules U) (txt, [])"

definition mask_str :: "re_tables \<Rightarrow> finder \<Rightarrow> rstr \<Rightarrow> rstr" where
  "mask_str U F txt = fst (pii_mask U F txt)"

section \<open>Export\<close>

record export_record =
  x_doc_id :: rstr
  x_agent :: rstr
  x_ts :: int
  x_content :: rstr
  x_counts :: "(rstr \<times> nat) list"
  x_source :: "rstr option"

record export_options =
  include_pii_counts :: bool
  include_agent :: bool
  include_source :: bool
  max_records :: nat

definition export_default :: export_options where
  "export_default = \<lparr>include_pii_counts = True, include_agent = True, include_source = False, max_records = 0\<rparr>"

definition export_record_of :: "re_tables \<Rightarrow> finder \<Rightarrow> (rstr \<Rightarrow> rstr option) \<Rightarrow> export_options \<Rightarrow> doc_row \<Rightarrow> export_record" where
  "export_record_of U F agent_of opts d =
     (case pii_mask U F (d_text d) of (masked, counts) \<Rightarrow>
       \<lparr>x_doc_id = show_int (d_id d),
        x_agent = (case Option.bind (d_meta d) agent_of of None \<Rightarrow> [] | Some a \<Rightarrow> a),
        x_ts = d_ts d, x_content = masked,
        x_counts = (if include_pii_counts opts then map (\<lambda>(k, v). (pii_as_str k, v)) counts else []),
        x_source = (if include_source opts then d_uri d else None)\<rparr>)"

definition export_memories :: "re_tables \<Rightarrow> finder \<Rightarrow> (rstr \<Rightarrow> rstr option) \<Rightarrow> export_options \<Rightarrow> store \<Rightarrow> export_record list" where
  "export_memories U F agent_of opts s =
     map (export_record_of U F agent_of opts)
       ((if 0 < max_records opts then take (max_records opts) else id) (sort_key d_ts (docs s)))"

section \<open>CSV and Markdown\<close>

definition csv_escape :: "rstr \<Rightarrow> rstr" where
  "csv_escape f =
     (if contains_char 44 f \<or> contains_char 34 f \<or> contains_char 10 f
      then [34] @ str_replace [34] [34, 34] f @ [34] else f)"

definition write_row :: "rstr list \<Rightarrow> rstr \<Rightarrow> rstr" where
  "write_row cells buf = buf @ join_with [44] (map csv_escape cells) @ [10]"

definition csv_header :: "rstr list" where
  "csv_header = [lit ''doc_id'', lit ''agent'', lit ''ts'', lit ''pii_types'', lit ''pii_total'', lit ''content_masked'']"

text \<open>\<open>iter\<close> is the order in which the map of counts is read.\<close>

definition pii_total :: "(rstr \<times> nat) list \<Rightarrow> nat" where
  "pii_total counts = u32_of (sum_list (map snd counts))"

definition csv_fields :: "((rstr \<times> nat) list \<Rightarrow> (rstr \<times> nat) list) \<Rightarrow> export_record \<Rightarrow> rstr list" where
  "csv_fields iter r =
     [x_doc_id r, x_agent r, show_int (x_ts r), join_with [44] (map fst (iter (x_counts r))),
      show_nat (pii_total (iter (x_counts r))), x_content r]"

definition to_csv :: "((rstr \<times> nat) list \<Rightarrow> (rstr \<times> nat) list) \<Rightarrow> export_record list \<Rightarrow> rstr" where
  "to_csv iter records = fold (\<lambda>r. write_row (csv_fields iter r)) records (write_row csv_header [])"

definition md_line :: "rstr \<Rightarrow> rstr" where "md_line s = s @ [10]"

definition md_record :: "((rstr \<times> nat) list \<Rightarrow> (rstr \<times> nat) list) \<Rightarrow> export_record \<Rightarrow> rstr" where
  "md_record iter r =
     md_line (lit ''## Record `'' @ x_doc_id r @ lit ''`'') @ [10] @
     md_line (lit ''- Agent: '' @ x_agent r) @ md_line (lit ''- Timestamp: '' @ show_int (x_ts r)) @
     (if x_counts r = [] then []
      else md_line (lit ''- PII detected:'') @
        concat (map (\<lambda>(t, c). md_line (lit ''  - '' @ t @ lit '': '' @ show_nat c)) (iter (x_counts r)))) @
     [10] @ md_line (lit ''### Content (masked)'') @ [10] @ md_line (lit ''```'') @ x_content r @
     [10] @ md_line (lit ''```'') @ [10]"

text \<open>\<open>now\<close> is the time of the report in RFC 3339.\<close>

definition to_markdown :: "((rstr \<times> nat) list \<Rightarrow> (rstr \<times> nat) list) \<Rightarrow> rstr \<Rightarrow> export_record list \<Rightarrow> rstr" where
  "to_markdown iter now records =
     md_line (lit ''# Synapse Memory Compliance Export'') @ [10] @ md_line (lit ''Generated: '' @ now) @ [10] @
     md_line (lit ''Total records: '' @ show_nat (length records)) @ [10] @
     md_line (lit ''Total PII detections: '' @
       show_nat (u32_of (sum_list (map (\<lambda>r. pii_total (iter (x_counts r))) records)))) @ [10] @
     md_line (lit ''---'') @ [10] @ concat (map (md_record iter) records)"

section \<open>What masking does\<close>

definition tables_ok :: "re_tables \<Rightarrow> bool" where
  "tables_ok U \<longleftrightarrow> (\<forall>c < 128. u_digit U c = is_ascii_digit c \<and> (u_word U c \<longleftrightarrow> is_ascii_alphanumeric c \<or> c = 95))"

text \<open>\<open>masked_as t u tys\<close>: \<open>u\<close> is \<open>t\<close> with disjoint non-empty parts replaced, from left to right by the
  placeholders of \<open>tys\<close>.\<close>

inductive masked_as :: "rstr \<Rightarrow> rstr \<Rightarrow> pii_type list \<Rightarrow> bool" where
  nil: "masked_as [] [] []"
| keep: "masked_as t u tys \<Longrightarrow> masked_as (c # t) (c # u) tys"
| hide: "s \<noteq> [] \<Longrightarrow> masked_as t u tys \<Longrightarrow> masked_as (s @ t) (placeholder ty @ u) (ty # tys)"

inductive_cases masked_as_NilE: "masked_as t [] tys"

lemma masked_as_refl: "masked_as t t []"
  by (induction t) (auto intro: masked_as.intros)

lemma masked_as_append: "masked_as t u tys \<Longrightarrow> masked_as t' u' tys' \<Longrightarrow> masked_as (t @ t') (u @ u') (tys @ tys')"
  by (induction rule: masked_as.induct) (auto intro: masked_as.intros)

lemma masked_as_length: "masked_as t u tys \<Longrightarrow> length tys \<le> length t"
  by (induction rule: masked_as.induct) (auto simp: Suc_le_eq add_strict_increasing)

definition open_text :: "rchar \<Rightarrow> bool" where
  "open_text c \<longleftrightarrow> c \<noteq> 91 \<and> c \<noteq> 93"

definition key_char :: "re_tables \<Rightarrow> rchar \<Rightarrow> bool" where
  "key_char U c \<longleftrightarrow> u_digit U c \<or> c = 64"

lemma lit_simps: "lit [] = []" "lit (c # s) = of_char c # lit s"
  by (simp_all add: lit_def)

lemma placeholder_shape:
  "\<exists>m. placeholder ty = 91 # m @ [93] \<and> 93 \<notin> set m"
  by (cases ty) (simp_all add: placeholder_def lit_simps)

lemma placeholder_no_key: "tables_ok U \<Longrightarrow> c \<in> set (placeholder ty) \<Longrightarrow> \<not> key_char U c"
  by (cases ty) (auto simp: placeholder_def lit_simps key_char_def tables_ok_def is_ascii_digit_def)

lemma pii_rules_shape:
  assumes "tables_ok U" "(ty, r) \<in> set (pii_rules U)"
  shows "0 < min_len r" "takes_only open_text r" "takes_some (key_char U) r"
proof -
  have d: "\<not> u_digit U 91" "\<not> u_digit U 93" "u_digit U 50"
    using assms(1) by (simp_all add: tables_ok_def is_ascii_digit_def)
  note defs = pii_rules_def Let_def email_pattern_def iban_pattern_def phone_pattern_def card_pattern_def tax_pattern_def
    passport_pattern_def ip_pattern_def octet_def dob_pattern_def street_pattern_def some_of_def exactly_def optional_def one_def
    re_upper_def re_space_def word_of_def lit_simps
  show "0 < min_len r" using assms(2) by (auto simp: defs)
  show "takes_only open_text r"
    using assms(2) by (auto simp: defs d is_ascii_alphanumeric_def is_ascii_digit_def is_ascii_uppercase_def
        is_ascii_lowercase_def is_whitespace_def open_text_def)
  show "takes_some (key_char U) r" using assms(2) by (auto simp: defs d key_char_def)
qed

text \<open>A part of the masked text without brackets and with a digit or an at sign is a part of the original.\<close>

lemma masked_as_prefix:
  "masked_as t u tys \<Longrightarrow> u = m @ q \<Longrightarrow> list_all open_text m \<Longrightarrow> \<exists>t'. t = m @ t' \<and> masked_as t' q tys"
proof (induction arbitrary: m rule: masked_as.induct)
  case (keep t u tys c)
  show ?case
  proof (cases m)
    case Nil
    then show ?thesis using keep masked_as.keep by auto
  next
    case (Cons d m')
    then show ?thesis using keep.IH [of m'] keep.prems by auto
  qed
next
  case (hide s t u tys ty)
  obtain p where "placeholder ty = 91 # p" using placeholder_shape [of ty] by auto
  then have "m = []" using hide.prems by (cases m) (auto simp: open_text_def)
  then show ?case using hide.hyps hide.prems masked_as.hide by auto
qed (auto intro: masked_as.nil)

lemma masked_as_split:
  assumes "tables_ok U"
  shows "masked_as t u tys \<Longrightarrow> u = p @ m @ q \<Longrightarrow> list_all open_text m \<Longrightarrow> list_ex (key_char U) m \<Longrightarrow>
    \<exists>t1 t2 tys1 tys2. t = t1 @ m @ t2 \<and> tys = tys1 @ tys2 \<and> masked_as t1 p tys1 \<and> masked_as t2 q tys2"
proof (induction arbitrary: p rule: masked_as.induct)
  case (keep t u tys c)
  show ?case
  proof (cases p)
    case Nil
    then obtain t' where "c # t = m @ t'" "masked_as t' q tys"
      using masked_as_prefix [OF masked_as.keep [OF keep.hyps, of c], of m q] keep.prems by auto
    then show ?thesis using Nil masked_as.nil by (intro exI [of _ "[]"] exI [of _ t'] exI [of _ tys]) auto
  next
    case (Cons d p')
    then obtain t1 t2 tys1 tys2 where "t = t1 @ m @ t2" "tys = tys1 @ tys2" "masked_as t1 p' tys1" "masked_as t2 q tys2"
      using keep.IH [of p'] keep.prems by auto
    then show ?thesis using Cons keep.prems(1) masked_as.keep
      by (intro exI [of _ "c # t1"] exI [of _ t2] exI [of _ tys1] exI [of _ tys2]) auto
  qed
next
  case (hide s t u tys ty)
  from hide.prems(1) obtain z where "placeholder ty = p @ z \<and> z @ u = m @ q \<or> placeholder ty @ z = p \<and> u = z @ m @ q"
    by (auto simp: append_eq_append_conv2)
  then show ?case
  proof
    assume a: "placeholder ty = p @ z \<and> z @ u = m @ q"
    obtain k where k: "k \<in> set m" "key_char U k" using hide.prems(3) by (auto simp: list_ex_iff)
    have nz: "k \<notin> set z" using a k(2) placeholder_no_key [OF assms, of k ty] by auto
    obtain w where w: "m = z @ w \<or> z = m @ w" using a by (auto simp: append_eq_append_conv2)
    then have m: "m = z @ w" using nz k(1) by auto
    have "z = []"
    proof (rule ccontr)
      assume "z \<noteq> []"
      obtain b where "placeholder ty = 91 # b @ [93]" using placeholder_shape [of ty] by auto
      then have "last (p @ z) = 93" using a by (metis last.simps last_snoc snoc_eq_iff_butlast append_is_Nil_conv not_Cons_self2)
      then have "93 \<in> set z" using \<open>z \<noteq> []\<close> by (metis last_appendR last_in_set)
      then show False using hide.prems(2) m by (auto simp: list_all_iff open_text_def)
    qed
    then have p: "p = placeholder ty" "u = m @ q" using a by auto
    obtain t' where "t = m @ t'" "masked_as t' q tys" using masked_as_prefix [OF hide.hyps(2) p(2) hide.prems(2)] by auto
    moreover have "masked_as s p [ty]" using masked_as.hide [OF hide.hyps(1) masked_as.nil, of ty] p(1) by simp
    ultimately show ?thesis by (intro exI [of _ s] exI [of _ t'] exI [of _ "[ty]"] exI [of _ tys]) auto
  next
    assume a: "placeholder ty @ z = p \<and> u = z @ m @ q"
    then obtain t1 t2 tys1 tys2 where "t = t1 @ m @ t2" "tys = tys1 @ tys2" "masked_as t1 z tys1" "masked_as t2 q tys2"
      using hide.IH [of z] hide.prems by auto
    then show ?thesis using a masked_as.hide [OF hide.hyps(1)]
      by (intro exI [of _ "s @ t1"] exI [of _ t2] exI [of _ "ty # tys1"] exI [of _ tys2]) auto
  qed
qed (auto simp: list_ex_iff)

text \<open>One rule hides further parts of the original.\<close>

definition hides :: "pii_type \<Rightarrow> nat \<Rightarrow> pii_type list \<Rightarrow> pii_type list \<Rightarrow> bool" where
  "hides ty n tys tys' \<longleftrightarrow> (\<forall>x. count_list tys' x = count_list tys x + (if x = ty then n else 0)) \<and> length tys' = length tys + n"

lemma count_list_append: "count_list (xs @ ys) x = count_list xs x + count_list ys x"
  by (induction xs) simp_all

lemma replace_spans_masked:
  assumes "tables_ok U" "(ty, r) \<in> set (pii_rules U)"
  shows "leftmost word u r i spans \<Longrightarrow> i \<le> length u \<Longrightarrow> masked_as t (drop i u) tys \<Longrightarrow>
    \<exists>tys'. masked_as t (replace_spans u (placeholder ty) i spans) tys' \<and> hides ty (length spans) tys tys'"
proof (induction spans arbitrary: i t tys)
  case Nil
  then show ?case by (auto simp: hides_def)
next
  case (Cons x spans)
  obtain a b where x: "x = (a, b)" by (cases x)
  have b: "b \<in> set (ends word u r a)" "i \<le> a" "a \<le> length u" "a < b" and l: "leftmost word u r b spans"
    using Cons.prems(1) x by auto
  have bu: "b \<le> length u" using ends_within [OF b(1) b(3)] .
  note shape = pii_rules_shape [OF assms]
  have len: "length (slice u a b) = b - a" using slice_length [OF bu] .
  have "list_all open_text (slice u a b)"
    using ends_takes_only [OF b(1) shape(2)] by (auto simp: list_all_length len slice_nth)
  moreover have "list_ex (key_char U) (slice u a b)"
  proof -
    obtain k where k: "a \<le> k" "k < b" "key_char U (u ! k)" using ends_takes_some [OF b(1) shape(3)] by auto
    then have "slice u a b ! (k - a) = u ! k" using len by (simp add: slice_nth)
    then show ?thesis using k len by (auto simp: list_ex_length intro: exI [of _ "k - a"])
  qed
  moreover have "drop i u = slice u i a @ slice u a b @ drop b u"
    using drop_slice [OF b(2,3)] drop_slice [of a b u] b(4) bu by simp
  ultimately obtain t1 t2 tys1 tys2 where s: "t = t1 @ slice u a b @ t2" "tys = tys1 @ tys2" "masked_as t1 (slice u i a) tys1"
      "masked_as t2 (drop b u) tys2"
    using masked_as_split [OF assms(1) Cons.prems(3)] by blast
  obtain tys' where r: "masked_as t2 (replace_spans u (placeholder ty) b spans) tys'" "hides ty (length spans) tys2 tys'"
    using Cons.IH [OF l bu s(4)] by auto
  have "slice u a b \<noteq> []" using len b(4) by auto
  then have "masked_as t (replace_spans u (placeholder ty) i (x # spans)) (tys1 @ ty # tys')"
    using masked_as_append [OF s(3) masked_as.hide [OF _ r(1)]] by (simp add: s(1) x)
  then show ?case using r(2) by (auto simp: hides_def s(2) count_list_append)
qed

lemma mask_rule_masked:
  assumes "tables_ok U" "finder_ok (u_word U) F" "(ty, r) \<in> set (pii_rules U)" "length t < 2 ^ 32" "masked_as t u tys"
  shows "\<exists>tys'. masked_as t (fst (mask_rule F (ty, r) (u, c))) tys' \<and> hides ty (length (F r u)) tys tys' \<and>
    snd (mask_rule F (ty, r) (u, c)) = c @ (if F r u = [] then [] else [(ty, length (F r u))])"
proof -
  have "leftmost (u_word U) u r 0 (F r u)" using assms(2) pii_rules_shape(1) [OF assms(1,3)] by (simp add: finder_ok_def)
  then obtain tys' where m: "masked_as t (replace_spans u (placeholder ty) 0 (F r u)) tys'" "hides ty (length (F r u)) tys tys'"
    using replace_spans_masked [OF assms(1,3), of "u_word U" u 0 "F r u" t tys] assms(5) by auto
  have "u32_of (length (F r u)) = length (F r u)"
    using m(2) masked_as_length [OF m(1)] assms(4) by (simp add: u32_of_def hides_def)
  then show ?thesis using m by (intro exI [of _ tys']) (auto simp: Let_def)
qed

definition counts_of :: "(pii_type \<times> nat) list \<Rightarrow> pii_type list \<Rightarrow> bool" where
  "counts_of counts tys \<longleftrightarrow> (\<forall>ty n. (ty, n) \<in> set counts \<longleftrightarrow> n = count_list tys ty \<and> 0 < n)"

lemma mask_rules_masked:
  assumes "tables_ok U" "finder_ok (u_word U) F" "length t < 2 ^ 32"
  shows "set rs \<subseteq> set (pii_rules U) \<Longrightarrow> distinct (map fst rs) \<Longrightarrow> masked_as t u tys \<Longrightarrow> counts_of c tys \<Longrightarrow>
    (\<forall>ty \<in> fst ` set rs. count_list tys ty = 0) \<Longrightarrow>
    \<exists>tys'. masked_as t (fst (fold (mask_rule F) rs (u, c))) tys' \<and> counts_of (snd (fold (mask_rule F) rs (u, c))) tys'"
proof (induction rs arbitrary: u c tys)
  case (Cons x rs)
  obtain ty r where x: "x = (ty, r)" by (cases x)
  obtain u' c' where s: "mask_rule F (ty, r) (u, c) = (u', c')" by (cases "mask_rule F (ty, r) (u, c)")
  obtain tys' where m: "masked_as t u' tys'" "hides ty (length (F r u)) tys tys'"
      "c' = c @ (if F r u = [] then [] else [(ty, length (F r u))])"
    using mask_rule_masked [OF assms(1,2) _ assms(3) Cons.prems(3), of ty r c] Cons.prems(1) x s by auto
  have z: "count_list tys ty = 0" using Cons.prems(5) x by simp
  have "counts_of c' tys'"
    using Cons.prems(4) z unfolding counts_of_def m(3) using m(2) by (auto simp: hides_def)
  moreover have "\<forall>y \<in> fst ` set rs. count_list tys' y = 0"
    using Cons.prems(2,5) m(2) x by (auto simp: hides_def)
  ultimately show ?case using Cons.IH [OF _ _ m(1)] Cons.prems(1,2) s x by simp
qed auto

lemma masked_as_nothing: "masked_as t u [] \<Longrightarrow> u = t"
  by (induction t u "[] :: pii_type list" rule: masked_as.induct) auto

lemma fold_mask_counts: "\<exists>more. snd (fold (mask_rule F) rs (u, c)) = c @ more"
proof (induction rs arbitrary: u c)
  case (Cons x rs)
  obtain ty r where x: "x = (ty, r)" by (cases x)
  obtain u' c' where s: "mask_rule F (ty, r) (u, c) = (u', c')" by (cases "mask_rule F (ty, r) (u, c)")
  then have "\<exists>m. c' = c @ m" by (auto simp: Let_def split: if_splits)
  then show ?case using Cons [of u' c'] s x by auto
qed auto

lemma fold_mask_nothing:
  "snd (fold (mask_rule F) rs (u, [])) = [] \<longleftrightarrow> (\<forall>(ty, r) \<in> set rs. u32_of (length (F r u)) = 0)"
proof (induction rs arbitrary: u)
  case (Cons x rs)
  obtain ty r where x: "x = (ty, r)" by (cases x)
  show ?case
  proof (cases "u32_of (length (F r u)) = 0")
    case True
    then show ?thesis using Cons [of u] x by (simp add: Let_def)
  next
    case False
    then show ?thesis
      using fold_mask_counts [of F rs "replace_spans u (placeholder ty) 0 (F r u)" "[(ty, u32_of (length (F r u)))]"] x
      by (auto simp: Let_def)
  qed
qed simp

lemma rules_distinct: "distinct (map fst (pii_rules U))"
  by (simp add: pii_rules_def Let_def)

lemma finder_length:
  assumes "finder_ok (u_word U) F" "tables_ok U" "(ty, r) \<in> set (pii_rules U)"
  shows "length (F r t) \<le> length t"
proof -
  have "leftmost (u_word U) t r 0 (F r t)" using assms(1) pii_rules_shape(1) [OF assms(2,3)] by (simp add: finder_ok_def)
  then obtain tys' where "masked_as t (replace_spans t (placeholder ty) 0 (F r t)) tys'" "hides ty (length (F r t)) [] tys'"
    using replace_spans_masked [OF assms(2,3), of "u_word U" t 0 "F r t" t "[]"] masked_as_refl by auto
  then show ?thesis using masked_as_length by (fastforce simp: hides_def)
qed

definition rule_matches :: "re_tables \<Rightarrow> regex \<Rightarrow> rstr \<Rightarrow> bool" where
  "rule_matches U r t \<longleftrightarrow> (\<exists>k \<le> length t. ends (u_word U) t r k \<noteq> [])"

lemma rule_spans_none:
  assumes "tables_ok U" "finder_ok (u_word U) F" "length t < 2 ^ 32" "(ty, r) \<in> set (pii_rules U)"
  shows "u32_of (length (F r t)) = 0 \<longleftrightarrow> \<not> rule_matches U r t"
proof -
  have "leftmost (u_word U) t r 0 (F r t)" using assms(2) pii_rules_shape(1) [OF assms(1,4)] by (simp add: finder_ok_def)
  then have "F r t = [] \<longleftrightarrow> \<not> rule_matches U r t" using leftmost_Nil unfolding rule_matches_def by blast
  then show ?thesis using finder_length [OF assms(2,1,4), of t] assms(3) by (simp add: u32_of_def)
qed

lemma mask_counts_none:
  assumes "tables_ok U" "finder_ok (u_word U) F" "length t < 2 ^ 32"
  shows "snd (pii_mask U F t) = [] \<longleftrightarrow> (\<nexists>ty r. (ty, r) \<in> set (pii_rules U) \<and> rule_matches U r t)"
  using fold_mask_nothing [of F "pii_rules U" t] rule_spans_none [OF assms] unfolding pii_mask_def by fastforce

text \<open>C31. Masking a text replaces disjoint non-empty parts of it by the placeholders of their types and keeps
  everything else in order; the counts reported are the numbers of placeholders of each type, no placeholder
  is ever damaged by a later rule, and the text is left alone exactly when no rule matches it.\<close>

theorem mask_exact:
  assumes "tables_ok U" "finder_ok (u_word U) F" "length t < 2 ^ 32"
  shows "\<exists>tys. masked_as t (fst (pii_mask U F t)) tys \<and> counts_of (snd (pii_mask U F t)) tys \<and>
    (tys = [] \<longleftrightarrow> (\<nexists>ty r. (ty, r) \<in> set (pii_rules U) \<and> rule_matches U r t))"
proof -
  have "counts_of [] []" by (auto simp: counts_of_def)
  then obtain tys where m: "masked_as t (fst (pii_mask U F t)) tys" "counts_of (snd (pii_mask U F t)) tys"
    using mask_rules_masked [OF assms, of "pii_rules U" t "[]" "[]"] rules_distinct masked_as_refl unfolding pii_mask_def by auto
  have c: "(x, n) \<in> set (snd (pii_mask U F t)) \<longleftrightarrow> n = count_list tys x \<and> 0 < n" for x n
    using m(2) by (simp add: counts_of_def)
  have "tys = [] \<longleftrightarrow> snd (pii_mask U F t) = []"
  proof
    assume "snd (pii_mask U F t) = []"
    then have "\<not> 0 < count_list tys x" for x using c [of x "count_list tys x"] by simp
    then show "tys = []" by (metis count_list_0_iff gr0I list.set_intros(1) neq_Nil_conv)
  next
    assume "tys = []"
    then have "(x, n) \<notin> set (snd (pii_mask U F t))" for x n using c [of x n] by auto
    then show "snd (pii_mask U F t) = []" by (metis list.set_intros(1) neq_Nil_conv surj_pair)
  qed
  then show ?thesis using m mask_counts_none [OF assms] by blast
qed

section \<open>Concrete tables\<close>

definition latin_tables :: re_tables where
  "latin_tables = \<lparr>u_digit = is_ascii_digit,
     u_word = (\<lambda>c. is_ascii_alphanumeric c \<or> c = 95 \<or> c \<in> {196, 214, 220, 228, 246, 252, 223})\<rparr>"

lemma latin_tables_ok: "tables_ok latin_tables"
  by (simp add: tables_ok_def latin_tables_def)

definition latin_finder :: finder where
  "latin_finder r t = search_spans (u_word latin_tables) t r 0"

lemma latin_finder_ok: "finder_ok (u_word latin_tables) latin_finder"
  using search_finder_ok [of "u_word latin_tables"] unfolding finder_ok_def latin_finder_def by blast

theorem mask_exact_witness:
  "\<exists>tys. masked_as (lit ''call 0301234567'') (fst (pii_mask latin_tables latin_finder (lit ''call 0301234567''))) tys \<and>
     counts_of (snd (pii_mask latin_tables latin_finder (lit ''call 0301234567''))) tys \<and> length (lit ''call 0301234567'') < 2 ^ 32"
  using mask_exact [OF latin_tables_ok latin_finder_ok, of "lit ''call 0301234567''"] by (auto simp: lit_def)


text \<open>An address with an umlaut is not recognised, whatever the search, and stays in the export.\<close>

definition umlaut_mail :: rstr where
  "umlaut_mail = lit ''m'' @ [252] @ lit ''ller@example.de''"

lemma umlaut_email_kept:
  assumes "finder_ok (u_word latin_tables) F"
  shows "pii_mask latin_tables F umlaut_mail = (umlaut_mail, [])"
proof -
  have "list_all (\<lambda>(ty, r). list_all (\<lambda>k. ends (u_word latin_tables) umlaut_mail r k = []) [0..<Suc (length umlaut_mail)])
      (pii_rules latin_tables)"
    by code_simp
  then have no: "\<not> rule_matches latin_tables r umlaut_mail" if "(ty, r) \<in> set (pii_rules latin_tables)" for ty r
    using that by (fastforce simp: list_all_iff rule_matches_def)
  have len: "length umlaut_mail < 2 ^ 32" by (simp add: umlaut_mail_def lit_def)
  have z: "u32_of (length (F r umlaut_mail)) = 0" if "(ty, r) \<in> set (pii_rules latin_tables)" for ty r
    using rule_spans_none [OF latin_tables_ok assms len that] no [OF that] by blast
  have "fold (mask_rule F) rs (umlaut_mail, []) = (umlaut_mail, [])" if "set rs \<subseteq> set (pii_rules latin_tables)" for rs
    using that z by (induction rs) (auto simp: Let_def)
  then show ?thesis by (simp add: pii_mask_def)
qed

text \<open>The telephone rule runs before the card rule and hides only the end of a card number.\<close>

lemma card_number_kept:
  "pii_mask latin_tables latin_finder (lit ''5555 5555 0555 4444'') = (lit ''5555 5555 [REDACTED:phone]'', [(Phone, 1)])"
proof -
  let ?t = "lit ''5555 5555 0555 4444''" and ?u = "lit ''5555 5555 [REDACTED:phone]''" and ?d = "Chars (u_digit latin_tables)"
  have "latin_finder email_pattern ?t = []" by code_simp
  moreover have "latin_finder (iban_pattern ?d) ?t = []" by code_simp
  moreover have "latin_finder (phone_pattern ?d) ?t = [(10, 19)]" by code_simp
  moreover have "replace_spans ?t (placeholder Phone) 0 [(10, 19)] = ?u" by code_simp
  moreover have "latin_finder (card_pattern ?d) ?u = []" by code_simp
  moreover have "latin_finder (tax_pattern ?d) ?u = []" by code_simp
  moreover have "latin_finder (passport_pattern ?d) ?u = []" by code_simp
  moreover have "latin_finder (ip_pattern ?d) ?u = []" by code_simp
  moreover have "latin_finder (dob_pattern ?d) ?u = []" by code_simp
  moreover have "latin_finder (street_pattern ?d) ?u = []" by code_simp
  ultimately show ?thesis by (simp add: pii_mask_def pii_rules_def Let_def u32_of_def)
qed

text \<open>The option \<^verbatim>\<open>include_agent\<close> is never read.\<close>

lemma include_agent_ignored:
  "export_memories U F agent_of (opts\<lparr>include_agent := b\<rparr>) s = export_memories U F agent_of opts s"
  by (simp add: export_memories_def export_record_of_def split: prod.split)

section \<open>Reading the CSV back\<close>

text \<open>A reader after RFC 4180: a field that starts with a quote ends at the next single quote, a doubled quote
  stands for one; any other field ends at a comma or a line feed.\<close>

fun unquote :: "rstr \<Rightarrow> rstr \<times> rstr" where
  "unquote [] = ([], [])"
| "unquote (c # s) =
     (if c \<noteq> 34 then (case unquote s of (f, r) \<Rightarrow> (c # f, r))
      else (case s of [] \<Rightarrow> ([], [])
            | d # s' \<Rightarrow> if d = 34 then (case unquote s' of (f, r) \<Rightarrow> (34 # f, r)) else ([], s)))"

definition csv_sep :: "rchar \<Rightarrow> bool" where
  "csv_sep c \<longleftrightarrow> c = 44 \<or> c = 10"

definition read_field :: "rstr \<Rightarrow> rstr \<times> rstr" where
  "read_field s = (if s \<noteq> [] \<and> hd s = 34 then unquote (tl s) else (takeWhile (\<lambda>c. \<not> csv_sep c) s, dropWhile (\<lambda>c. \<not> csv_sep c) s))"

lemma unquote_length: "length (snd (unquote s)) \<le> length s"
proof (induction s rule: unquote.induct)
  case (2 c s)
  show ?case
  proof (cases "c = 34")
    case True
    then show ?thesis using 2(2) by (cases s) (auto split: prod.splits)
  next
    case False
    then show ?thesis using 2(1) by (auto split: prod.splits)
  qed
qed simp

lemma read_field_length: "length (snd (read_field s)) \<le> length s"
  using unquote_length [of "tl s"] by (auto simp: read_field_def length_dropWhile_le)

lemma read_field_rest: "(f, c # r) = read_field s \<Longrightarrow> length r < length s"
  using read_field_length [of s] by (metis Suc_le_lessD length_Cons snd_conv)

function csv_read :: "rstr \<Rightarrow> rstr list \<Rightarrow> rstr list list" where
  "csv_read s row =
     (if s = [] then []
      else case read_field s of (f, r) \<Rightarrow>
        case r of [] \<Rightarrow> [row @ [f]]
        | c # r' \<Rightarrow> if c = 44 then csv_read r' (row @ [f]) else (row @ [f]) # csv_read r' [])"
  by pat_completeness auto
termination
  by (relation "measure (\<lambda>(s, row). length s)") (auto dest: read_field_rest)

declare csv_read.simps [simp del]

lemma str_replace_quote: "str_replace [34] [34, 34] (c # s) = (if c = 34 then [34, 34] else [c]) @ str_replace [34] [34, 34] s"
  by (simp add: starts_with_def)

lemma unquote_replace: "c \<noteq> 34 \<Longrightarrow> unquote (str_replace [34] [34, 34] f @ 34 # c # s) = (f, c # s)"
  by (induction f) (simp_all add: str_replace_quote del: str_replace.simps(2))

lemma takeWhile_field: "list_all (\<lambda>c. \<not> csv_sep c) f \<Longrightarrow> csv_sep c \<Longrightarrow>
    takeWhile (\<lambda>c. \<not> csv_sep c) (f @ c # s) = f \<and> dropWhile (\<lambda>c. \<not> csv_sep c) (f @ c # s) = c # s"
  by (induction f) simp_all

lemma read_field_escape:
  assumes "csv_sep c"
  shows "read_field (csv_escape f @ c # s) = (f, c # s)"
proof (cases "contains_char 44 f \<or> contains_char 34 f \<or> contains_char 10 f")
  case True
  then show ?thesis using unquote_replace [of c f s] assms by (auto simp: csv_escape_def read_field_def csv_sep_def)
next
  case False
  then have "list_all (\<lambda>c. \<not> csv_sep c) f" "f = [] \<or> hd f \<noteq> 34"
    by (auto simp: list_all_iff csv_sep_def contains_char_def) (metis hd_in_set)
  then show ?thesis using takeWhile_field [of f c s] False assms
    by (cases f) (auto simp: csv_escape_def read_field_def csv_sep_def)
qed

lemma csv_read_row:
  "cells \<noteq> [] \<Longrightarrow> csv_read (join_with [44] (map csv_escape cells) @ 10 # s) row = (row @ cells) # csv_read s []"
proof (induction cells arbitrary: row rule: induct_list012)
  case (2 f)
  then show ?case using read_field_escape [of 10 f s]
    by (subst csv_read.simps) (simp add: csv_sep_def)
next
  case (3 f g cells)
  let ?rest = "join_with [44] (map csv_escape (g # cells)) @ 10 # s"
  have "csv_read (csv_escape f @ 44 # ?rest) row = csv_read ?rest (row @ [f])"
    using read_field_escape [of 44 f ?rest] by (subst csv_read.simps) (simp add: csv_sep_def)
  then show ?case using 3(2) [of "row @ [f]"] by simp
qed simp

lemma fold_write_rows:
  "\<forall>r \<in> set rows. r \<noteq> [] \<Longrightarrow> fold write_row rows buf = buf @ concat (map (\<lambda>r. join_with [44] (map csv_escape r) @ [10]) rows)"
  by (induction rows arbitrary: buf) (simp_all add: write_row_def)

lemma csv_read_rows:
  "\<forall>r \<in> set rows. r \<noteq> [] \<Longrightarrow> csv_read (concat (map (\<lambda>r. join_with [44] (map csv_escape r) @ [10]) rows)) [] = rows"
proof (induction rows)
  case Nil
  then show ?case by (simp add: csv_read.simps)
next
  case (Cons r rows)
  then show ?case using csv_read_row [of r _ "[]"] by simp
qed

text \<open>The CSV export is read back field by field: the header, then one row per record with its fields as
  they were, whatever commas, quotes and line feeds they hold.\<close>

theorem csv_round_trip: "csv_read (to_csv iter records) [] = csv_header # map (csv_fields iter) records"
proof -
  have "to_csv iter records = fold write_row (csv_header # map (csv_fields iter) records) []"
    by (simp add: to_csv_def fold_map comp_def)
  also have "\<dots> = concat (map (\<lambda>r. join_with [44] (map csv_escape r) @ [10]) (csv_header # map (csv_fields iter) records))"
    using fold_write_rows [of "csv_header # map (csv_fields iter) records" "[]"] by (simp add: csv_header_def csv_fields_def)
  finally show ?thesis
    using csv_read_rows [of "csv_header # map (csv_fields iter) records"] by (simp add: csv_header_def csv_fields_def)
qed

end
