(* ===== verification/Meta_Loop.thy ===== *)
theory Meta_Loop
  imports Float64 Rust_Text
begin

text \<open>
  The routing bandit of \<^verbatim>\<open>crates/synapse-meta/src/lib.rs\<close>: the rules with their win and loss counts, the choice
  of a rule and of a model, the configuration file and the loop that keeps it. Counters are 32- and 64-bit words. TOML is an
  argument; the random draws are arguments, \<^verbatim>\<open>powi\<close>, whose precision is not specified, too. The disk
  holds the configuration file and its temporary file; what an operation of the file system does when it
  fails is given by a fault.
\<close>

section \<open>Data\<close>

datatype task_shape = BulkRead | Code | Synthesis | Council | OtherShape rstr

fun shape_as_str :: "task_shape \<Rightarrow> rstr" where
  "shape_as_str BulkRead = lit ''bulk_read''"
| "shape_as_str Code = lit ''code''"
| "shape_as_str Synthesis = lit ''synthesis''"
| "shape_as_str Council = lit ''council''"
| "shape_as_str (OtherShape s) = s"

definition shape_from_str :: "rstr \<Rightarrow> task_shape" where
  "shape_from_str s =
     (if s = lit ''bulk_read'' then BulkRead else if s = lit ''code'' then Code
      else if s = lit ''synthesis'' then Synthesis else if s = lit ''council'' then Council else OtherShape s)"

record routing_rule =
  rr_shape :: rstr
  rr_model :: rstr
  rr_cli :: rstr
  rr_stdin :: rstr
  rr_min_tokens :: u64
  rr_wins :: u32
  rr_losses :: u32

record router_config =
  rc_rules :: "routing_rule list"
  rc_fallback_model :: rstr
  rc_fallback_cli :: rstr
  rc_threshold :: u64
  rc_updated :: int

definition default_compaction_threshold :: u64 where
  "default_compaction_threshold = 120000"

definition config_default :: router_config where
  "config_default = \<lparr>rc_rules =
     [\<lparr>rr_shape = lit ''bulk_read'', rr_model = lit ''kimi'', rr_cli = lit ''kimi'', rr_stdin = lit ''file'',
        rr_min_tokens = 100000, rr_wins = 1, rr_losses = 1\<rparr>,
      \<lparr>rr_shape = lit ''code'', rr_model = lit ''codex'', rr_cli = lit ''codex'', rr_stdin = lit ''pipe'',
        rr_min_tokens = 0, rr_wins = 1, rr_losses = 1\<rparr>,
      \<lparr>rr_shape = lit ''synthesis'', rr_model = lit ''cascade'', rr_cli = lit ''claude'', rr_stdin = lit ''pipe'',
        rr_min_tokens = 0, rr_wins = 1, rr_losses = 1\<rparr>],
     rc_fallback_model = lit ''cascade'', rc_fallback_cli = lit ''claude'',
     rc_threshold = default_compaction_threshold, rc_updated = 0\<rparr>"

section \<open>Rules\<close>

text \<open>\<^verbatim>\<open>Iterator::max_by_key\<close>: the last of the largest.\<close>

definition last_max_by_key :: "('a \<Rightarrow> 'k::linorder) \<Rightarrow> 'a list \<Rightarrow> 'a option" where
  "last_max_by_key key xs =
     fold (\<lambda>x best. case best of None \<Rightarrow> Some x | Some b \<Rightarrow> if key b \<le> key x then Some x else Some b) xs None"

definition match_rule :: "router_config \<Rightarrow> task_shape \<Rightarrow> u64 \<Rightarrow> routing_rule option" where
  "match_rule cfg shape token_count =
     last_max_by_key rr_wins (filter (\<lambda>r. rr_shape r = shape_as_str shape \<and> rr_min_tokens r \<le> token_count) (rc_rules cfg))"

fun bump_rule :: "rstr \<Rightarrow> rstr \<Rightarrow> bool \<Rightarrow> routing_rule list \<Rightarrow> routing_rule list option" where
  "bump_rule shape model success [] = None"
| "bump_rule shape model success (r # rs) =
     (if rr_shape r = shape \<and> rr_model r = model
      then Some ((if success then r\<lparr>rr_wins := rr_wins r + 1\<rparr> else r\<lparr>rr_losses := rr_losses r + 1\<rparr>) # rs)
      else map_option (\<lambda>rs'. r # rs') (bump_rule shape model success rs))"

definition config_record_outcome :: "task_shape \<Rightarrow> rstr \<Rightarrow> bool \<Rightarrow> router_config \<Rightarrow> router_config" where
  "config_record_outcome shape model success cfg =
     (case bump_rule (shape_as_str shape) model success (rc_rules cfg) of
        Some rs \<Rightarrow> cfg\<lparr>rc_rules := rs\<rparr>
      | None \<Rightarrow> cfg\<lparr>rc_rules := rc_rules cfg @ [\<lparr>rr_shape = shape_as_str shape, rr_model = model, rr_cli = model,
          rr_stdin = lit ''pipe'', rr_min_tokens = 0, rr_wins = (if success then 2 else 1),
          rr_losses = (if success then 1 else 2)\<rparr>]\<rparr>)"

section \<open>Sampling\<close>

definition b64_half :: b64 where "b64_half = Fin64 False (2 ^ 1073)"

definition b64_two :: b64 where "b64_two = Fin64 False (2 ^ 1075)"

definition sample_score :: "(b64 \<Rightarrow> nat \<Rightarrow> b64) \<Rightarrow> routing_rule \<Rightarrow> b64 \<Rightarrow> b64" where
  "sample_score powi' r u =
     (let alpha = b64_of_nat (unat (rr_wins r)); beta = b64_of_nat (unat (rr_losses r)); total = b64_add alpha beta in
      if b64_gt total b64_zero
      then let mean = b64_div alpha total;
               variance = b64_div (b64_mul alpha beta) (b64_mul (powi' total 2) (b64_add total b64_one));
               std = b64_sqrt variance
           in b64_add mean (b64_mul (b64_mul std (b64_sub u b64_half)) b64_two)
      else b64_half)"

fun sample_best :: "(b64 \<Rightarrow> nat \<Rightarrow> b64) \<Rightarrow> (nat \<Rightarrow> b64) \<Rightarrow> nat \<Rightarrow> routing_rule list \<Rightarrow> (routing_rule \<times> b64) option \<Rightarrow>
    (routing_rule \<times> b64) option" where
  "sample_best powi' draw i [] best = best"
| "sample_best powi' draw i (r # rs) best =
     (let s = sample_score powi' r (draw i) in
      sample_best powi' draw (Suc i) rs
        (case best of None \<Rightarrow> Some (r, s) | Some (b, t) \<Rightarrow> if b64_gt s t then Some (r, s) else Some (b, t)))"

definition sample_model :: "(b64 \<Rightarrow> nat \<Rightarrow> b64) \<Rightarrow> (nat \<Rightarrow> b64) \<Rightarrow> task_shape \<Rightarrow> router_config \<Rightarrow> rstr" where
  "sample_model powi' draw shape cfg =
     (let candidates = filter (\<lambda>r. rr_shape r = shape_as_str shape) (rc_rules cfg) in
      if candidates = [] then rc_fallback_model cfg
      else case sample_best powi' draw 0 candidates None of Some (r, s) \<Rightarrow> rr_model r | None \<Rightarrow> rc_fallback_model cfg)"

definition total_wins :: "router_config \<Rightarrow> u32" where
  "total_wins cfg = sum_list (map rr_wins (rc_rules cfg))"

definition total_losses :: "router_config \<Rightarrow> u32" where
  "total_losses cfg = sum_list (map rr_losses (rc_rules cfg))"

definition success_rate :: "router_config \<Rightarrow> b64" where
  "success_rate cfg =
     (let w = b64_of_nat (unat (total_wins cfg)); l = b64_of_nat (unat (total_losses cfg)); s = b64_add w l in
      if b64_key s = Some 0 then b64_zero else b64_div w s)"

section \<open>The configuration file\<close>

record toml_lib =
  toml_text :: "router_config \<Rightarrow> rstr option"
  toml_read :: "rstr \<Rightarrow> router_config option"

definition toml_ok :: "toml_lib \<Rightarrow> bool" where
  "toml_ok L \<longleftrightarrow> (\<forall>c txt. toml_text L c = Some txt \<longrightarrow> toml_read L txt = Some c)"

datatype meta_error = MetaIo | TomlSerialize | TomlDeserialize

record meta_disk =
  main_file :: "rstr option"
  tmp_file :: "rstr option"

text \<open>A failing write leaves some contents, or none, in the temporary file.\<close>

datatype io_fault = NoFault | WriteFault "rstr option" | RenameFault

definition config_load :: "toml_lib \<Rightarrow> bool \<Rightarrow> meta_disk \<Rightarrow> meta_error + router_config" where
  "config_load L readable d =
     (case main_file d of None \<Rightarrow> Inr config_default
      | Some txt \<Rightarrow> if \<not> readable then Inl MetaIo
          else (case toml_read L txt of None \<Rightarrow> Inl TomlDeserialize | Some c \<Rightarrow> Inr c))"

definition config_save :: "toml_lib \<Rightarrow> io_fault \<Rightarrow> router_config \<Rightarrow> meta_disk \<Rightarrow> (meta_error + unit) \<times> meta_disk" where
  "config_save L fault cfg d =
     (case toml_text L cfg of None \<Rightarrow> (Inl TomlSerialize, d)
      | Some txt \<Rightarrow> (case fault of
           WriteFault left \<Rightarrow> (Inl MetaIo, d\<lparr>tmp_file := left\<rparr>)
         | RenameFault \<Rightarrow> (Inl MetaIo, d\<lparr>tmp_file := Some txt\<rparr>)
         | NoFault \<Rightarrow> (Inr (), d\<lparr>main_file := Some txt, tmp_file := None\<rparr>)))"

section \<open>The loop\<close>

record meta_loop =
  ml_config :: router_config
  ml_last_tick :: int
  ml_ticks :: u64

record tick_report =
  tr_number :: u64
  tr_persisted :: bool
  tr_compaction :: bool
  tr_docs :: u64

definition meta_new :: "toml_lib \<Rightarrow> bool \<Rightarrow> meta_disk \<Rightarrow> meta_error + meta_loop" where
  "meta_new L readable d =
     (case config_load L readable d of Inl e \<Rightarrow> Inl e
      | Inr cfg \<Rightarrow> Inr \<lparr>ml_config = cfg, ml_last_tick = 0, ml_ticks = 0\<rparr>)"

definition meta_persist :: "toml_lib \<Rightarrow> io_fault \<Rightarrow> meta_loop \<Rightarrow> meta_disk \<Rightarrow> (meta_error + unit) \<times> meta_disk" where
  "meta_persist L fault m d = config_save L fault (ml_config m) d"

definition meta_record_outcome :: "toml_lib \<Rightarrow> io_fault \<Rightarrow> int \<Rightarrow> task_shape \<Rightarrow> rstr \<Rightarrow> bool \<Rightarrow> meta_loop \<Rightarrow> meta_disk \<Rightarrow>
    (meta_error + unit) \<times> meta_loop \<times> meta_disk" where
  "meta_record_outcome L fault now shape model success m d =
     (let m' = m\<lparr>ml_config := (config_record_outcome shape model success (ml_config m))\<lparr>rc_updated := now\<rparr>\<rparr>;
          (res, d') = meta_persist L fault m' d
      in (res, m', d'))"

definition meta_sample_model :: "(b64 \<Rightarrow> nat \<Rightarrow> b64) \<Rightarrow> (nat \<Rightarrow> b64) \<Rightarrow> task_shape \<Rightarrow> meta_loop \<Rightarrow> rstr" where
  "meta_sample_model powi' draw shape m = sample_model powi' draw shape (ml_config m)"

definition meta_tick :: "toml_lib \<Rightarrow> io_fault \<Rightarrow> int \<Rightarrow> u64 \<Rightarrow> meta_loop \<Rightarrow> meta_disk \<Rightarrow> tick_report \<times> meta_loop \<times> meta_disk" where
  "meta_tick L fault now docs_count m d =
     (let cfg = (ml_config m)\<lparr>rc_updated := now\<rparr>;
          compaction = rc_threshold cfg < docs_count;
          (res, d') = config_save L fault cfg d;
          n = ml_ticks m + 1
      in (\<lparr>tr_number = n, tr_persisted = (res = Inr ()), tr_compaction = compaction,
            tr_docs = (if compaction then docs_count else 0)\<rparr>,
          m\<lparr>ml_config := cfg, ml_last_tick := now, ml_ticks := n\<rparr>, d'))"

definition last_tick_age_secs :: "int \<Rightarrow> meta_loop \<Rightarrow> int" where
  "last_tick_age_secs now m = (now - ml_last_tick m + 2 ^ 63) mod 2 ^ 64 - 2 ^ 63"

record health_status =
  hs_ticks :: u64
  hs_age :: int
  hs_wins :: u32
  hs_losses :: u32
  hs_rate :: b64
  hs_rules :: nat
  hs_threshold :: u64

definition meta_health :: "int \<Rightarrow> meta_loop \<Rightarrow> health_status" where
  "meta_health now m = (let cfg = ml_config m in
     \<lparr>hs_ticks = ml_ticks m, hs_age = last_tick_age_secs now m, hs_wins = total_wins cfg, hs_losses = total_losses cfg,
      hs_rate = success_rate cfg, hs_rules = length (rc_rules cfg), hs_threshold = rc_threshold cfg\<rparr>)"

section \<open>Choices\<close>

lemma fold_max_by_key:
  "fold (\<lambda>x best. case best of None \<Rightarrow> Some x | Some b \<Rightarrow> if key b \<le> key x then Some x else Some b) xs (Some b) = Some m \<Longrightarrow>
    m \<in> insert b (set xs) \<and> key b \<le> key m \<and> (\<forall>x \<in> set xs. key x \<le> (key m :: 'k::linorder))"
proof (induction xs arbitrary: b)
  case (Cons x xs)
  show ?case
  proof (cases "key b \<le> key x")
    case True
    then show ?thesis using Cons by fastforce
  next
    case False
    then show ?thesis using Cons by fastforce
  qed
qed auto

lemma fold_max_Some:
  "\<exists>m. fold (\<lambda>x best. case best of None \<Rightarrow> Some x | Some b \<Rightarrow> if key b \<le> key x then Some x else Some b) xs (Some b) = Some m"
  by (induction xs arbitrary: b) auto

lemma last_max_best:
  "last_max_by_key key xs = Some m \<Longrightarrow> m \<in> set xs \<and> (\<forall>x \<in> set xs. key x \<le> key m)"
proof (cases xs)
  case (Cons a ys)
  assume "last_max_by_key key xs = Some m"
  then show ?thesis using fold_max_by_key [of key ys a m] Cons by (auto simp: last_max_by_key_def)
qed (simp add: last_max_by_key_def)

lemma last_max_None: "last_max_by_key key xs = None \<longleftrightarrow> xs = []"
proof (cases xs)
  case (Cons a ys)
  then show ?thesis using fold_max_Some [of key ys a] by (auto simp: last_max_by_key_def)
qed (simp add: last_max_by_key_def)

lemma sample_best_in:
  "sample_best powi' draw i rs best = Some (r, s) \<Longrightarrow> r \<in> set rs \<or> (\<exists>t. best = Some (r, t))"
  by (induction powi' draw i rs best rule: sample_best.induct) (auto simp: Let_def split: option.splits if_splits)

lemma sample_best_Some: "best \<noteq> None \<or> rs \<noteq> [] \<Longrightarrow> sample_best powi' draw i rs best \<noteq> None"
  by (induction powi' draw i rs best rule: sample_best.induct) (auto simp: Let_def split: option.splits if_splits)

lemma sample_model_in:
  "sample_model powi' draw shape cfg \<in>
     (let models = rr_model ` {r \<in> set (rc_rules cfg). rr_shape r = shape_as_str shape}
      in if models = {} then {rc_fallback_model cfg} else models)"
proof (cases "filter (\<lambda>r. rr_shape r = shape_as_str shape) (rc_rules cfg) = []")
  case True
  then show ?thesis by (auto simp: sample_model_def Let_def filter_empty_conv)
next
  case False
  then obtain r s where b: "sample_best powi' draw 0 (filter (\<lambda>r. rr_shape r = shape_as_str shape) (rc_rules cfg)) None = Some (r, s)"
    using sample_best_Some [of None "filter (\<lambda>r. rr_shape r = shape_as_str shape) (rc_rules cfg)" powi' draw 0] by auto
  then show ?thesis using False sample_best_in [OF b] by (auto simp: sample_model_def Let_def)
qed

text \<open>A rule is matched when there is one for the shape with its token minimum reached; it has the most
  wins among these. The sampled model is one of the models ruled for the shape, whatever the random draws, and the
  fallback exactly when there is none.\<close>

theorem routing_choice_exact:
  "(case match_rule cfg shape n of
      None \<Rightarrow> \<forall>r \<in> set (rc_rules cfg). rr_shape r = shape_as_str shape \<longrightarrow> n < rr_min_tokens r
    | Some m \<Rightarrow> m \<in> set (rc_rules cfg) \<and> rr_shape m = shape_as_str shape \<and> rr_min_tokens m \<le> n \<and>
        (\<forall>r \<in> set (rc_rules cfg). rr_shape r = shape_as_str shape \<and> rr_min_tokens r \<le> n \<longrightarrow> rr_wins r \<le> rr_wins m)) \<and>
   sample_model powi' draw shape cfg \<in>
     (let models = rr_model ` {r \<in> set (rc_rules cfg). rr_shape r = shape_as_str shape}
      in if models = {} then {rc_fallback_model cfg} else models)"
proof
  let ?rs = "filter (\<lambda>r. rr_shape r = shape_as_str shape \<and> rr_min_tokens r \<le> n) (rc_rules cfg)"
  show "case match_rule cfg shape n of
      None \<Rightarrow> \<forall>r \<in> set (rc_rules cfg). rr_shape r = shape_as_str shape \<longrightarrow> n < rr_min_tokens r
    | Some m \<Rightarrow> m \<in> set (rc_rules cfg) \<and> rr_shape m = shape_as_str shape \<and> rr_min_tokens m \<le> n \<and>
        (\<forall>r \<in> set (rc_rules cfg). rr_shape r = shape_as_str shape \<and> rr_min_tokens r \<le> n \<longrightarrow> rr_wins r \<le> rr_wins m)"
  proof (cases "match_rule cfg shape n")
    case None
    then have "?rs = []" using last_max_None [of rr_wins ?rs] by (simp add: match_rule_def)
    then show ?thesis using None by (auto simp: filter_empty_conv not_le)
  next
    case (Some m)
    then have "m \<in> set ?rs \<and> (\<forall>r \<in> set ?rs. rr_wins r \<le> rr_wins m)"
      using last_max_best [of rr_wins ?rs m] by (simp add: match_rule_def)
    then show ?thesis using Some by simp
  qed
qed (rule sample_model_in)

theorem routing_choice_exact_witness:
  "\<exists>m. match_rule config_default Code 5 = Some m \<and> rr_model m = lit ''codex''"
proof -
  have neq: "lit ''bulk_read'' \<noteq> lit ''code''" "lit ''synthesis'' \<noteq> lit ''code''" by (simp_all add: lit_def)
  show ?thesis
    using routing_choice_exact [of config_default Code 5 "\<lambda>x _. x" "\<lambda>_. b64_zero"] neq
    by (auto simp: config_default_def split: option.splits)
qed

section \<open>Outcomes\<close>

text \<open>The counts of a shape and a model, and what an outcome does to them: the specification of the bandit.\<close>

type_synonym tally = "rstr \<times> rstr \<Rightarrow> (u32 \<times> u32) option"

definition rule_tally :: "router_config \<Rightarrow> tally" where
  "rule_tally cfg k = map_option (\<lambda>r. (rr_wins r, rr_losses r)) (find (\<lambda>r. (rr_shape r, rr_model r) = k) (rc_rules cfg))"

definition tally_outcome :: "rstr \<times> rstr \<Rightarrow> bool \<Rightarrow> tally \<Rightarrow> tally" where
  "tally_outcome k success t =
     (let (w, l) = (case t k of None \<Rightarrow> (1, 1) | Some p \<Rightarrow> p) in t(k \<mapsto> (if success then (w + 1, l) else (w, l + 1))))"

lemma bump_rule_find:
  "(case bump_rule s m ok rs of
      None \<Rightarrow> find (\<lambda>r. (rr_shape r, rr_model r) = (s, m)) rs = None
    | Some rs' \<Rightarrow> (\<exists>r. find (\<lambda>r. (rr_shape r, rr_model r) = (s, m)) rs = Some r \<and>
        find (\<lambda>r. (rr_shape r, rr_model r) = (s, m)) rs' =
          Some (if ok then r\<lparr>rr_wins := rr_wins r + 1\<rparr> else r\<lparr>rr_losses := rr_losses r + 1\<rparr>)) \<and>
        (\<forall>k. k \<noteq> (s, m) \<longrightarrow> find (\<lambda>r. (rr_shape r, rr_model r) = k) rs' = find (\<lambda>r. (rr_shape r, rr_model r) = k) rs))"
  by (cases ok; induction rs) (auto split: option.splits)

lemma find_append_tally: "find P (xs @ ys) = (case find P xs of None \<Rightarrow> find P ys | Some x \<Rightarrow> Some x)"
  by (induction xs) simp_all

lemma record_outcome_tally:
  "rule_tally (config_record_outcome shape model ok cfg) = tally_outcome (shape_as_str shape, model) ok (rule_tally cfg)"
proof
  fix k :: "rstr \<times> rstr"
  obtain a b where k: "k = (a, b)" by (cases k)
  let ?k = "(shape_as_str shape, model)"
  show "rule_tally (config_record_outcome shape model ok cfg) k = tally_outcome ?k ok (rule_tally cfg) k"
    using bump_rule_find [where s = "shape_as_str shape" and m = model and ok = ok and rs = "rc_rules cfg"]
    by (cases "k = ?k"; cases "bump_rule (shape_as_str shape) model ok (rc_rules cfg)")
      (auto simp: k config_record_outcome_def rule_tally_def tally_outcome_def find_append_tally Let_def split: option.splits prod.splits)
qed

text \<open>C32. Recording outcomes refines counting: after any sequence of outcomes the counters of a shape and a model
  that occur in it are its counters before, one win and one loss if it had none, plus the numbers of its
  successes and failures modulo 2^32, and all other counters are unchanged.\<close>

theorem outcomes_counted:
  "rule_tally (fold (\<lambda>(shape, model, ok). config_record_outcome shape model ok) os cfg) k =
     (let mine = filter (\<lambda>(shape, model, ok). (shape_as_str shape, model) = k) os;
          (w, l) = (case rule_tally cfg k of None \<Rightarrow> (1, 1) | Some p \<Rightarrow> p)
      in if mine = [] then rule_tally cfg k
         else Some (w + of_nat (length (filter (\<lambda>(shape, model, ok). ok) mine)),
                    l + of_nat (length (filter (\<lambda>(shape, model, ok). \<not> ok) mine))))"
proof (induction os arbitrary: cfg)
  case (Cons x os)
  obtain shape model ok where x: "x = (shape, model, ok)" by (cases x)
  obtain w l where wl: "(case rule_tally cfg k of None \<Rightarrow> (1, 1) | Some p \<Rightarrow> p) = (w, l)"
    by (cases "case rule_tally cfg k of None \<Rightarrow> (1, 1) | Some p \<Rightarrow> p")
  show ?case
  proof (cases "(shape_as_str shape, model) = k")
    case True
    then have "rule_tally (config_record_outcome shape model ok cfg) k = Some (if ok then (w + 1, l) else (w, l + 1))"
      using wl by (simp add: record_outcome_tally tally_outcome_def Let_def)
    then show ?thesis using True wl Cons [of "config_record_outcome shape model ok cfg"]
      by (cases ok) (auto simp: x Let_def algebra_simps simp del: filter_filter)
  next
    case False
    then have "rule_tally (config_record_outcome shape model ok cfg) k = rule_tally cfg k"
      by (auto simp: record_outcome_tally tally_outcome_def Let_def split: prod.split)
    then show ?thesis using False wl Cons [of "config_record_outcome shape model ok cfg"] by (auto simp: x Let_def simp del: filter_filter)
  qed
qed (simp add: Let_def split: prod.split)

section \<open>Persistence\<close>

lemma config_save_exact:
  assumes "toml_ok L"
  shows "case config_save L fault cfg d of (res, d') \<Rightarrow>
    (if res = Inr () then config_load L True d' = Inr cfg \<and> tmp_file d' = None else main_file d' = main_file d)"
  using assms by (auto simp: config_save_def config_load_def toml_ok_def split: option.splits io_fault.splits)

text \<open>The configuration file is replaced as a whole or not at all: when recording an outcome or a tick reports
  that it was saved, loading the file gives the configuration in memory, and otherwise the file is as it was, so
  that a later start loads the last configuration saved.\<close>

theorem saves_are_atomic:
  assumes "toml_ok L"
  shows "(case meta_record_outcome L fault now shape model ok m d of (res, m', d') \<Rightarrow>
      if res = Inr () then config_load L True d' = Inr (ml_config m') else main_file d' = main_file d) \<and>
    (case meta_tick L fault now docs_count m d of (report, m', d') \<Rightarrow>
      (if tr_persisted report then config_load L True d' = Inr (ml_config m') else main_file d' = main_file d) \<and>
      rc_rules (ml_config m') = rc_rules (ml_config m) \<and> tr_number report = ml_ticks m + 1)"
  using config_save_exact [OF assms, where fault = fault and d = d]
  by (force simp: meta_record_outcome_def meta_tick_def meta_persist_def Let_def split: prod.splits if_splits)

definition toml_plain :: toml_lib where
  "toml_plain = \<lparr>toml_text = (\<lambda>c. if c = config_default\<lparr>rc_updated := 7\<rparr> then Some [1] else None),
     toml_read = (\<lambda>txt. if txt = [1] then Some (config_default\<lparr>rc_updated := 7\<rparr>) else None)\<rparr>"

theorem saves_are_atomic_witness:
  "toml_ok toml_plain \<and>
   (case meta_tick toml_plain NoFault 7 0 \<lparr>ml_config = config_default, ml_last_tick = 0, ml_ticks = 0\<rparr>
       \<lparr>main_file = None, tmp_file = None\<rparr> of (report, m', d') \<Rightarrow>
     if tr_persisted report then config_load toml_plain True d' = Inr (ml_config m') else main_file d' = None)"
proof -
  have ok: "toml_ok toml_plain" by (simp add: toml_ok_def toml_plain_def)
  show ?thesis
    using ok saves_are_atomic [OF ok, where fault = NoFault and now = 7 and docs_count = 0 and d = "\<lparr>main_file = None, tmp_file = None\<rparr>" and
        m = "\<lparr>ml_config = config_default, ml_last_tick = 0, ml_ticks = 0\<rparr>"]
    by (auto split: prod.splits if_splits)
qed

end
