(* ===== verification/Task_Router.thy ===== *)
theory Task_Router
  imports Meta_Loop
begin

text \<open>
  The task router of \<^verbatim>\<open>crates/synapse-router/src/lib.rs\<close>: it builds a request, hands the context to a command
  line tool as an argument or through a temporary file, waits with a time limit and returns what the tool
  printed. The operating system is an argument: what creating and writing the file, starting the tool and waiting
  for it give. The state is the temporary files that exist and the tools still running. The elapsed time is left out.
\<close>

section \<open>Requests\<close>

datatype cli_target = Kimi | Codex | Cascade | CustomCli rstr

fun cli_as_str :: "cli_target \<Rightarrow> rstr" where
  "cli_as_str Kimi = lit ''kimi''"
| "cli_as_str Codex = lit ''codex''"
| "cli_as_str Cascade = lit ''claude''"
| "cli_as_str (CustomCli s) = s"

definition cli_from_str :: "rstr \<Rightarrow> cli_target" where
  "cli_from_str s =
     (if s = lit ''kimi'' then Kimi else if s = lit ''codex'' then Codex
      else if s = lit ''claude'' \<or> s = lit ''cascade'' then Cascade else CustomCli s)"

record routing_request =
  rq_prompt :: rstr
  rq_context :: rstr
  rq_tokens :: nat
  rq_cli :: cli_target
  rq_stdin :: rstr
  rq_timeout :: nat

definition request_default :: routing_request where
  "request_default = \<lparr>rq_prompt = [], rq_context = [], rq_tokens = 0, rq_cli = Cascade, rq_stdin = lit ''pipe'', rq_timeout = 300\<rparr>"

definition router_tokens :: "rstr \<Rightarrow> nat" where
  "router_tokens txt = (str_len txt + 3) div 4"

definition FILE_REDIRECT_THRESHOLD :: nat where
  "FILE_REDIRECT_THRESHOLD = 100000"

definition build_request :: "rstr \<Rightarrow> rstr \<Rightarrow> cli_target \<Rightarrow> routing_request" where
  "build_request prompt ctxt cli =
     (let tokens = router_tokens (prompt @ [10, 10] @ ctxt) in
      \<lparr>rq_prompt = prompt, rq_context = ctxt, rq_tokens = tokens, rq_cli = cli,
       rq_stdin = (if FILE_REDIRECT_THRESHOLD < tokens then lit ''file'' else lit ''pipe''), rq_timeout = 300\<rparr>)"

section \<open>Routing\<close>

record routing_result =
  rs_cli :: rstr
  rs_stdout :: rstr
  rs_stderr :: rstr
  rs_code :: "int option"
  rs_tokens :: nat
  rs_file_used :: bool
  rs_temp_path :: "rstr option"

definition result_success :: "routing_result \<Rightarrow> bool" where
  "result_success r \<longleftrightarrow> rs_code r = Some 0"

datatype router_error = TempFileError | RouterIo | CliNotFound rstr | WaitFailed | Timeout nat

datatype spawn_outcome = Spawned | SpawnNotFound | SpawnIo

datatype wait_outcome = Exited bytes bytes "int option" | WaitError | TimedOut

text \<open>What the system does for one request: the path of a fresh file, the bytes written before a failure (None: all
  are), the start, the end, whether the file can be removed, and \<^verbatim>\<open>from_utf8_lossy\<close>.\<close>

record os_run =
  os_temp :: "rstr option"
  os_write_fails :: "bytes option"
  os_spawn :: spawn_outcome
  os_wait :: wait_outcome
  os_remove_ok :: bool
  os_lossy :: "bytes \<Rightarrow> rstr"

record router_state =
  temp_files :: "(rstr \<times> bytes) list"
  commands :: "rstr list list"
  running :: "rstr list list"

definition use_file :: "routing_request \<Rightarrow> bool" where
  "use_file req \<longleftrightarrow> rq_stdin req = lit ''file'' \<and> FILE_REDIRECT_THRESHOLD < rq_tokens req"

text \<open>Starts the command and waits for it; \<open>tmp\<close> is the temporary file, if one is used.\<close>

definition run_command :: "os_run \<Rightarrow> routing_request \<Rightarrow> rstr option \<Rightarrow> rstr list \<Rightarrow> router_state \<Rightarrow>
    (router_error + routing_result) \<times> router_state" where
  "run_command os req tmp cmd st =
     (case os_spawn os of
        SpawnNotFound \<Rightarrow> (Inl (CliNotFound (cli_as_str (rq_cli req))), st)
      | SpawnIo \<Rightarrow> (Inl RouterIo, st)
      | Spawned \<Rightarrow>
          let st1 = st\<lparr>commands := commands st @ [cmd]\<rparr> in
          (case os_wait os of
             WaitError \<Rightarrow> (Inl WaitFailed, st1)
           | TimedOut \<Rightarrow> (Inl (Timeout (rq_timeout req)), st1\<lparr>running := running st1 @ [cmd]\<rparr>)
           | Exited out err code \<Rightarrow>
               (Inr \<lparr>rs_cli = cli_as_str (rq_cli req), rs_stdout = os_lossy os out, rs_stderr = os_lossy os err, rs_code = code,
                     rs_tokens = rq_tokens req, rs_file_used = use_file req, rs_temp_path = tmp\<rparr>,
                (case tmp of None \<Rightarrow> st1
                 | Some p \<Rightarrow> if os_remove_ok os then st1\<lparr>temp_files := filter (\<lambda>(q, c). q \<noteq> p) (temp_files st1)\<rparr> else st1))))"

definition route :: "os_run \<Rightarrow> routing_request \<Rightarrow> router_state \<Rightarrow> (router_error + routing_result) \<times> router_state" where
  "route os req st =
     (let cmd = [cli_as_str (rq_cli req), lit ''--prompt'', rq_prompt req] in
      if use_file req
      then (case os_temp os of
           None \<Rightarrow> (Inl TempFileError, st)
         | Some p \<Rightarrow> (case os_write_fails os of
              Some part \<Rightarrow> (Inl RouterIo, st\<lparr>temp_files := (p, part) # temp_files st\<rparr>)
            | None \<Rightarrow> run_command os req (Some p) (cmd @ [lit ''--context-file'', p])
                 (st\<lparr>temp_files := (p, utf8 (rq_context req)) # temp_files st\<rparr>)))
      else run_command os req None (cmd @ [lit ''--context'', rq_context req]) st)"

text \<open>\<open>on_chunk\<close> receives the whole output once.\<close>

definition route_with_stream :: "os_run \<Rightarrow> routing_request \<Rightarrow> (rstr \<Rightarrow> 'c \<Rightarrow> 'c) \<Rightarrow> 'c \<Rightarrow> router_state \<Rightarrow>
    (router_error + routing_result) \<times> 'c \<times> router_state" where
  "route_with_stream os req on_chunk c st =
     (case route os req st of
        (Inl e, st') \<Rightarrow> (Inl e, c, st')
      | (Inr r, st') \<Rightarrow> (Inr r, on_chunk (rs_stdout r) c, st'))"

section \<open>What a request leaves behind\<close>

lemma build_request_strategy: "use_file (build_request p c cli) \<longleftrightarrow> 400000 < str_len (p @ [10, 10] @ c)"
  by (auto simp: use_file_def build_request_def Let_def FILE_REDIRECT_THRESHOLD_def router_tokens_def lit_def)

text \<open>The state keeps nothing of a request.\<close>

definition clean :: "router_state \<Rightarrow> router_state \<Rightarrow> bool" where
  "clean st st' \<longleftrightarrow> temp_files st' = temp_files st \<and> running st' = running st"

text \<open>A request runs one tool at most, with the prompt and the context or the path of a fresh file that holds
  it; when it returns a result the tool has exited, no process is left, and the temporary file is gone unless it could
  not be removed. When it fails, a temporary file that was created stays, and after a timeout the tool keeps running.\<close>

theorem route_exact:
  assumes "os_temp os = Some p" "p \<notin> fst ` set (temp_files st)"
  shows "case route os req st of
     (Inr r, st') \<Rightarrow> (\<exists>out err. os_wait os = Exited out err (rs_code r)) \<and> running st' = running st \<and>
        (clean st st' \<longleftrightarrow> \<not> use_file req \<or> os_remove_ok os) \<and>
        (\<exists>cmd. commands st' = commands st @ [cmd] \<and> take 3 cmd = [cli_as_str (rq_cli req), lit ''--prompt'', rq_prompt req] \<and>
           drop 3 cmd = (if use_file req then [lit ''--context-file'', p] else [lit ''--context'', rq_context req]))
   | (Inl e, st') \<Rightarrow>
        (use_file req \<longrightarrow> p \<in> fst ` set (temp_files st')) \<and>
        (clean st st' \<longleftrightarrow> \<not> use_file req \<and> e \<noteq> Timeout (rq_timeout req)) \<and>
        length (running st') = length (running st) + (if e = Timeout (rq_timeout req) then 1 else 0)"
proof -
  have f: "filter (\<lambda>(q, c). q \<noteq> p) (temp_files st) = temp_files st"
    using assms(2) by (induction "temp_files st") (auto simp: filter_id_conv image_iff)
  show ?thesis
    using assms(1) f
    by (auto simp: route_def run_command_def clean_def Let_def split: spawn_outcome.split wait_outcome.split option.split)
qed

definition os_ok :: os_run where
  "os_ok = \<lparr>os_temp = Some (lit ''/tmp/a''), os_write_fails = None, os_spawn = Spawned, os_wait = TimedOut, os_remove_ok = True,
     os_lossy = map unat\<rparr>"

theorem route_exact_witness:
  "\<exists>st'. route os_ok \<lparr>rq_prompt = lit ''p'', rq_context = lit ''secret'', rq_tokens = 100001, rq_cli = Kimi,
        rq_stdin = lit ''file'', rq_timeout = 300\<rparr> \<lparr>temp_files = [], commands = [], running = []\<rparr> = (Inl (Timeout 300), st') \<and>
     lit ''/tmp/a'' \<in> fst ` set (temp_files st') \<and> length (running st') = 1"
  using route_exact [of os_ok "lit ''/tmp/a''" "\<lparr>temp_files = [], commands = [], running = []\<rparr>"
      "\<lparr>rq_prompt = lit ''p'', rq_context = lit ''secret'', rq_tokens = 100001, rq_cli = Kimi,
        rq_stdin = lit ''file'', rq_timeout = 300\<rparr>"]
  by (simp add: os_ok_def route_def run_command_def use_file_def FILE_REDIRECT_THRESHOLD_def)

end
