(* ===== verification/Corpus_Text.thy ===== *)
theory Corpus_Text
  imports Utf8_Facts
begin

text \<open>
  The text handling of the corpus, \<^verbatim>\<open>crates/synapse-core/src/corpus.rs\<close>: chunks with their byte spans,
  transcripts, video ids, HTML and feed items. A position in a string is the list of characters from it on. Decoding of HTML
  entities and the hash are arguments.
\<close>

section \<open>Searching and splitting\<close>

text \<open>\<^verbatim>\<open>str::find\<close>, counted in characters.\<close>

fun find_sub :: "rstr \<Rightarrow> rstr \<Rightarrow> nat option" where
  "find_sub p [] = (if p = [] then Some 0 else None)"
| "find_sub p (c # s) = (if starts_with p (c # s) then Some 0 else map_option Suc (find_sub p s))"

definition split_once :: "rstr \<Rightarrow> rstr \<Rightarrow> (rstr \<times> rstr) option" where
  "split_once p s = map_option (\<lambda>k. (take k s, drop (k + length p) s)) (find_sub p s)"

definition strip_prefix_str :: "rstr \<Rightarrow> rstr \<Rightarrow> rstr option" where
  "strip_prefix_str p s = (if starts_with p s then Some (drop (length p) s) else None)"

text \<open>\<^verbatim>\<open>split("\n\n")\<close>.\<close>

fun split_paragraphs :: "rstr \<Rightarrow> rstr list" where
  "split_paragraphs [] = [[]]"
| "split_paragraphs (c # s) =
     (case s of d # s' \<Rightarrow>
        if c = 10 \<and> d = 10 then [] # split_paragraphs s'
        else (case split_paragraphs s of w # ws \<Rightarrow> (c # w) # ws | [] \<Rightarrow> [[c]])
      | [] \<Rightarrow> [[c]])"

declare split_paragraphs.simps(2) [simp del]

definition collapse_ws :: "rstr \<Rightarrow> rstr" where
  "collapse_ws raw = join_with [32] (split_whitespace raw)"

section \<open>Chunks\<close>

fun chunk_loop :: "nat \<Rightarrow> rstr list \<Rightarrow> (rstr \<times> nat \<times> nat) list" where
  "chunk_loop cursor [] = []"
| "chunk_loop cursor (raw # rs) =
     (if list_all is_whitespace raw \<or> trim raw = [] then chunk_loop (cursor + str_len raw + 2) rs
      else let start = cursor + str_len (takeWhile is_whitespace raw)
           in (trim raw, start, start + str_len (trim raw)) # chunk_loop (cursor + str_len raw + 2) rs)"

definition chunks_with_spans :: "rstr \<Rightarrow> (rstr \<times> nat \<times> nat) list" where
  "chunks_with_spans txt =
     (let chunks = chunk_loop 0 (split_paragraphs txt) in
      if chunks = [] \<and> trim txt \<noteq> [] then [(trim txt, 0, str_len (trim txt))] else chunks)"

section \<open>Transcripts and video ids\<close>

definition is_transcript_timecode :: "rstr \<Rightarrow> bool" where
  "is_transcript_timecode l \<longleftrightarrow> contains_str (lit ''-->'') l \<or>
     (8 \<le> str_len l \<and> byte_get l 2 = Some 58 \<and> byte_get l 5 = Some 58)"

definition transcript_noise :: "rstr \<Rightarrow> bool" where
  "transcript_noise l \<longleftrightarrow> l = [] \<or> l = lit ''WEBVTT'' \<or> starts_with (lit ''NOTE'') l \<or> starts_with (lit ''STYLE'') l \<or>
     starts_with (lit ''Kind:'') l \<or> starts_with (lit ''Language:'') l \<or> list_all is_ascii_digit l \<or> is_transcript_timecode l"

definition clean_transcript_text :: "rstr \<Rightarrow> rstr" where
  "clean_transcript_text raw = join_with [10, 10] (filter (\<lambda>l. \<not> transcript_noise l) (map trim (str_lines raw)))"

definition is_youtube_id :: "rstr \<Rightarrow> bool" where
  "is_youtube_id raw \<longleftrightarrow> str_len raw = 11 \<and> list_all (\<lambda>c. is_ascii_alphanumeric c \<or> c = 95 \<or> c = 45) raw"

definition query_param :: "rstr \<Rightarrow> rstr \<Rightarrow> rstr option" where
  "query_param query key =
     (case filter (\<lambda>p. case split_once [61] p of Some (k, v) \<Rightarrow> k = key | None \<Rightarrow> False) (split_on (\<lambda>c. c = 38) query) of
        [] \<Rightarrow> None
      | p # ps \<Rightarrow> map_option snd (split_once [61] p))"

definition or_else :: "'a option \<Rightarrow> 'a option \<Rightarrow> 'a option" where
  "or_else a b = (case a of None \<Rightarrow> b | Some x \<Rightarrow> Some x)"

text \<open>\<^verbatim>\<open>split(['?', '/', '#']).next()\<close>.\<close>

definition first_segment :: "rstr \<Rightarrow> rstr" where
  "first_segment s = hd (split_on (\<lambda>c. c = 63 \<or> c = 47 \<or> c = 35) s)"

definition youtube_video_id :: "rstr \<Rightarrow> rstr option" where
  "youtube_video_id input =
     (let trimmed = trim input in
      if is_youtube_id trimmed then Some trimmed
      else case split_once (lit ''://'') trimmed of
        None \<Rightarrow> None
      | Some (scheme, after_scheme) \<Rightarrow>
          let (host0, path_query) = (case split_once [47] after_scheme of Some p \<Rightarrow> p | None \<Rightarrow> (after_scheme, []));
              host = (case strip_prefix_str (lit ''www.'') host0 of Some h \<Rightarrow> h | None \<Rightarrow> host0)
          in if host = lit ''youtu.be''
             then let i = first_segment path_query in if is_youtube_id i then Some i else None
             else if host = lit ''youtube.com'' \<or> ends_with (lit ''.youtube.com'') host
             then let query = (case split_once [63] path_query of Some (_, q) \<Rightarrow> q | None \<Rightarrow> []) in
                  or_else
                    (case query_param query (lit ''v'') of
                       Some i \<Rightarrow> if is_youtube_id i then Some i else None
                     | None \<Rightarrow> None)
                  (case strip_prefix_str (lit ''shorts/'') path_query of
                     Some r \<Rightarrow> let i = first_segment r in if is_youtube_id i then Some i else None
                   | None \<Rightarrow> None)
             else None)"

section \<open>HTML\<close>

datatype skip_until = NoSkip | SkipScript | SkipStyle

fun end_tag :: "skip_until \<Rightarrow> rstr" where
  "end_tag SkipScript = lit ''</script>''"
| "end_tag SkipStyle = lit ''</style>''"
| "end_tag NoSkip = lit ''>''"

lemma end_tag_Nil [simp]: "end_tag skip \<noteq> []"
  by (cases skip) (simp_all add: lit_def)

text \<open>\<^verbatim>\<open>lower_ascii_slice(html, i, 24)\<close>: empty when fewer than 24 bytes are left or the 24th is inside a
  character.\<close>

definition lower_slice :: "rstr \<Rightarrow> rstr" where
  "lower_slice rest = to_ascii_lowercase (case byte_take 24 rest of Some s \<Rightarrow> s | None \<Rightarrow> [])"

definition tag_skip :: "rstr \<Rightarrow> skip_until" where
  "tag_skip rest = (let t = lower_slice rest in
     if starts_with (lit ''<script'') t then SkipScript else if starts_with (lit ''<style'') t then SkipStyle else NoSkip)"

function strip_html :: "skip_until \<Rightarrow> rstr \<Rightarrow> rstr" where
  "strip_html skip rest =
     (if rest = [] then []
      else if skip \<noteq> NoSkip then
        (case find_sub (end_tag skip) (to_ascii_lowercase rest) of
           Some k \<Rightarrow> strip_html NoSkip (drop (k + length (end_tag skip)) rest)
         | None \<Rightarrow> [])
      else if starts_with (lit ''<!--'') rest then
        (case find_sub (lit ''-->'') rest of Some k \<Rightarrow> 32 # strip_html NoSkip (drop (k + 3) rest) | None \<Rightarrow> [])
      else if hd rest = 60 then
        (case find_sub [62] rest of Some k \<Rightarrow> 32 # strip_html (tag_skip rest) (drop (k + 1) rest) | None \<Rightarrow> [])
      else hd rest # strip_html NoSkip (tl rest))"
  by pat_completeness auto
termination
  by (relation "measure (\<lambda>(skip, rest). length rest)") (auto simp: neq_Nil_conv diff_less_Suc intro!: diff_less)

declare strip_html.simps [simp del]

definition html_to_text :: "(rstr \<Rightarrow> rstr option) \<Rightarrow> rstr \<Rightarrow> rstr" where
  "html_to_text decode html =
     (let out = strip_html NoSkip html in collapse_ws (case decode out of Some d \<Rightarrow> d | None \<Rightarrow> out))"

definition extract_title_from_html :: "(rstr \<Rightarrow> rstr option) \<Rightarrow> rstr \<Rightarrow> rstr option" where
  "extract_title_from_html decode html =
     (let lower = to_ascii_lowercase html in
      case find_sub (lit ''<title'') lower of None \<Rightarrow> None
      | Some start \<Rightarrow> (case find_sub [62] (drop start lower) of None \<Rightarrow> None
          | Some e \<Rightarrow> let open_end = e + start + 1 in
              (case find_sub (lit ''</title>'') (drop open_end lower) of None \<Rightarrow> None
               | Some c \<Rightarrow> let raw = trim (slice html open_end (c + open_end)) in
                   if raw = [] then None
                   else Some (collapse_ws (case decode raw of Some d \<Rightarrow> d | None \<Rightarrow> raw)))))"

section \<open>Feed items\<close>

record rss_item =
  ri_title :: rstr
  ri_link :: rstr
  ri_guid :: rstr
  ri_description :: rstr
  ri_content :: rstr

definition rss_default :: rss_item where
  "rss_default = \<lparr>ri_title = [], ri_link = [], ri_guid = [], ri_description = [], ri_content = []\<rparr>"

definition first_non_empty :: "rstr list \<Rightarrow> rstr option" where
  "first_non_empty vs = find (\<lambda>v. v \<noteq> []) (map trim vs)"

text \<open>\<open>hash_hex\<close> is BLAKE3 in hexadecimal.\<close>

definition into_doc :: "(bytes \<Rightarrow> rstr) \<Rightarrow> rstr \<Rightarrow> rss_item \<Rightarrow> (rstr \<times> rstr \<times> rstr) option" where
  "into_doc hash_hex source_uri item =
     (case first_non_empty [ri_content item, ri_description item] of None \<Rightarrow> None
      | Some body \<Rightarrow>
          let title = (case first_non_empty [ri_title item, ri_link item, ri_guid item] of Some t \<Rightarrow> t | None \<Rightarrow> lit ''untitled'');
              external_id = (case first_non_empty [ri_guid item, ri_link item] of Some e \<Rightarrow> e
                | None \<Rightarrow> source_uri @ [35] @ hash_hex (utf8 (title @ [10] @ body)));
              txt = (if trim (ri_title item) = [] then body else trim (ri_title item) @ [10, 10] @ body)
          in Some (external_id, title, txt))"

datatype rss_field = FTitle | FLink | FGuid | FDescription | FContent

definition rss_field_name :: "bytes \<Rightarrow> rss_field option" where
  "rss_field_name raw =
     (if raw = as_bytes ''title'' then Some FTitle else if raw = as_bytes ''link'' then Some FLink
      else if raw = as_bytes ''guid'' then Some FGuid else if raw = as_bytes ''description'' then Some FDescription
      else if raw = as_bytes ''content:encoded'' \<or> raw = as_bytes ''encoded'' then Some FContent else None)"

definition append_slot :: "rstr \<Rightarrow> rstr \<Rightarrow> rstr" where
  "append_slot txt slot = (if slot \<noteq> [] \<and> trim txt \<noteq> [] then slot @ [32] else slot) @ trim txt"

fun append_rss_text :: "rss_field \<Rightarrow> rstr \<Rightarrow> rss_item \<Rightarrow> rss_item" where
  "append_rss_text FTitle txt i = i\<lparr>ri_title := append_slot txt (ri_title i)\<rparr>"
| "append_rss_text FLink txt i = i\<lparr>ri_link := append_slot txt (ri_link i)\<rparr>"
| "append_rss_text FGuid txt i = i\<lparr>ri_guid := append_slot txt (ri_guid i)\<rparr>"
| "append_rss_text FDescription txt i = i\<lparr>ri_description := append_slot txt (ri_description i)\<rparr>"
| "append_rss_text FContent txt i = i\<lparr>ri_content := append_slot txt (ri_content i)\<rparr>"

section \<open>Routing by content\<close>

definition normalized_content_type :: "rstr option \<Rightarrow> rstr" where
  "normalized_content_type ct =
     to_ascii_lowercase (trim (case ct of None \<Rightarrow> [] | Some s \<Rightarrow> hd (split_on (\<lambda>c. c = 59) s)))"

text \<open>\<open>lossy\<close> is \<^verbatim>\<open>String::from_utf8_lossy\<close>.\<close>

definition looks_like_rss :: "(bytes \<Rightarrow> rstr) \<Rightarrow> bytes \<Rightarrow> bool" where
  "looks_like_rss lossy bs = (let p = to_ascii_lowercase (lossy (take 512 bs)) in
     contains_str (lit ''<rss'') p \<or> contains_str (lit ''<feed'') p)"

definition looks_like_html :: "(bytes \<Rightarrow> rstr) \<Rightarrow> bytes \<Rightarrow> bool" where
  "looks_like_html lossy bs = (let p = to_ascii_lowercase (lossy (take 512 bs)) in
     contains_str (lit ''<!doctype html'') p \<or> contains_str (lit ''<html'') p)"

section \<open>Chunks are the text\<close>

lemma split_paragraphs_not_Nil [simp]: "split_paragraphs s \<noteq> []"
proof (cases s)
  case (Cons c t)
  then show ?thesis by (subst Cons, subst split_paragraphs.simps) (simp split: list.split)
qed simp

lemma split_paragraphs_join: "join_with [10, 10] (split_paragraphs s) = s"
proof (induction s rule: split_paragraphs.induct)
  case (2 c s)
  show ?case
  proof (cases s)
    case (Cons d s')
    show ?thesis
    proof (cases "c = 10 \<and> d = 10")
      case True
      obtain w ws where "split_paragraphs s' = w # ws" by (cases "split_paragraphs s'") auto
      then show ?thesis using True 2(1) [OF Cons True] Cons by (simp add: split_paragraphs.simps)
    next
      case False
      obtain w ws where w: "split_paragraphs s = w # ws" by (cases "split_paragraphs s") auto
      have "join_with [10, 10] (split_paragraphs s) = s" using 2(2) [OF Cons False] Cons by simp
      then have "join_with [10, 10] ((c # w) # ws) = c # s" using w by (cases ws) auto
      moreover have "split_paragraphs (c # s) = (c # w) # ws" using Cons False w by (subst split_paragraphs.simps) (auto simp del: split_paragraphs.simps)
      ultimately show ?thesis by simp
    qed
  qed (simp add: split_paragraphs.simps)
qed simp

lemma str_len_append: "str_len (a @ b) = str_len a + str_len b"
  by (simp add: str_len_def utf8_def)

lemma trim_parts:
  "\<exists>q. raw = takeWhile is_whitespace raw @ trim raw @ q \<and> list_all is_whitespace q"
proof -
  let ?m = "dropWhile is_whitespace raw"
  have "?m = rev (dropWhile is_whitespace (rev ?m)) @ rev (takeWhile is_whitespace (rev ?m))"
    by (metis rev_append rev_rev_ident takeWhile_dropWhile_id)
  moreover have "trim raw = rev (dropWhile is_whitespace (rev ?m))" by (simp add: trim_def trim_start_def)
  ultimately have "raw = takeWhile is_whitespace raw @ trim raw @ rev (takeWhile is_whitespace (rev ?m))"
    by (metis takeWhile_dropWhile_id)
  moreover have "list_all is_whitespace (rev (takeWhile is_whitespace (rev ?m)))"
    by (auto simp: list_all_iff dest: set_takeWhileD)
  ultimately show ?thesis by blast
qed

lemma trim_empty: "trim raw = [] \<longleftrightarrow> list_all is_whitespace raw"
proof
  assume "trim raw = []"
  then show "list_all is_whitespace raw"
    using trim_parts [of raw] by (metis append_Nil list_all_append list_all_iff set_takeWhileD)
next
  assume "list_all is_whitespace raw"
  then show "trim raw = []" by (auto simp: trim_def trim_start_def dropWhile_eq_Nil_conv list_all_iff dest: set_dropWhileD)
qed

text \<open>A chunk is a part of the text, at the bytes of its span.\<close>

definition at_span :: "rstr \<Rightarrow> rstr \<times> nat \<times> nat \<Rightarrow> bool" where
  "at_span txt c = (case c of (s, a, b) \<Rightarrow> \<exists>p q. txt = p @ s @ q \<and> a = str_len p \<and> b = str_len (p @ s))"

definition visible :: "rstr \<Rightarrow> rstr" where
  "visible s = filter (\<lambda>c. \<not> is_whitespace c) s"

lemma visible_append: "visible (a @ b) = visible a @ visible b"
  by (simp add: visible_def)

lemma visible_blank: "list_all is_whitespace s \<Longrightarrow> visible s = []"
  by (simp add: visible_def list_all_iff filter_empty_conv)

lemma trim_visible: "visible (trim raw) = visible raw"
proof -
  obtain q where "raw = takeWhile is_whitespace raw @ trim raw @ q" "list_all is_whitespace q" using trim_parts by blast
  moreover have "list_all is_whitespace (takeWhile is_whitespace raw)" by (auto simp: list_all_iff dest: set_takeWhileD)
  ultimately show ?thesis by (metis append.right_neutral append_Nil visible_append visible_blank)
qed

lemma chunk_loop_exact:
  "txt = p @ join_with [10, 10] raws \<Longrightarrow> cursor = str_len p \<Longrightarrow>
    (\<forall>c \<in> set (chunk_loop cursor raws). at_span txt c \<and> fst c \<noteq> [] \<and> cursor \<le> fst (snd c)) \<and>
    sorted_wrt (\<lambda>c d. snd (snd c) \<le> fst (snd d)) (chunk_loop cursor raws) \<and>
    visible (concat (map fst (chunk_loop cursor raws))) = visible (join_with [10, 10] raws)"
proof (induction raws arbitrary: p cursor)
  case (Cons raw raws)
  define next_cursor where "next_cursor = cursor + str_len raw + 2"
  have nl: "str_len [10, 10] = 2" by simp
  have vis_nl: "visible ([10, 10] @ y) = visible y" for y by (simp add: visible_def is_whitespace_def)
  have join: "join_with [10, 10] (raw # raws) = raw @ (if raws = [] then [] else [10, 10] @ join_with [10, 10] raws)"
    by (cases raws) auto
  have rest: "(\<forall>c \<in> set (chunk_loop next_cursor raws). at_span txt c \<and> fst c \<noteq> [] \<and> next_cursor \<le> fst (snd c)) \<and>
      sorted_wrt (\<lambda>c d. snd (snd c) \<le> fst (snd d)) (chunk_loop next_cursor raws) \<and>
      visible (concat (map fst (chunk_loop next_cursor raws))) = visible (join_with [10, 10] raws)"
  proof (cases "raws = []")
    case True
    then show ?thesis by (simp add: visible_def)
  next
    case False
    have "txt = (p @ raw @ [10, 10]) @ join_with [10, 10] raws" using Cons.prems(1) join False by simp
    moreover have "next_cursor = str_len (p @ raw @ [10, 10])"
      using Cons.prems(2) nl by (simp only: next_cursor_def str_len_append)
    ultimately show ?thesis by (rule Cons.IH)
  qed
  have vis_join: "visible (join_with [10, 10] (raw # raws)) = visible raw @ visible (join_with [10, 10] raws)"
    using join vis_nl [of "join_with [10, 10] raws"] by (cases "raws = []") (simp_all add: visible_append visible_def)
  show ?case
  proof (cases "trim raw = []")
    case True
    then have "visible raw = []" using visible_blank trim_empty by blast
    then show ?thesis using True rest vis_join trim_empty [of raw] by (force simp: next_cursor_def)
  next
    case False
    obtain q where q: "raw = takeWhile is_whitespace raw @ trim raw @ q" using trim_parts by blast
    define start where "start = cursor + str_len (takeWhile is_whitespace raw)"
    have eq: "chunk_loop cursor (raw # raws) = (trim raw, start, start + str_len (trim raw)) # chunk_loop next_cursor raws"
      using False trim_empty [of raw] by (simp add: start_def next_cursor_def Let_def)
    have len: "str_len raw = str_len (takeWhile is_whitespace raw) + str_len (trim raw) + str_len q"
      using arg_cong [OF q, of str_len] by (simp add: str_len_append)
    have "txt = (p @ takeWhile is_whitespace raw) @ trim raw @ q @ (if raws = [] then [] else [10, 10] @ join_with [10, 10] raws)"
      using Cons.prems(1) join q by (metis append.assoc)
    then have "at_span txt (trim raw, start, start + str_len (trim raw))"
      unfolding at_span_def start_def using Cons.prems(2)
      by (intro case_prodI exI [of _ "p @ takeWhile is_whitespace raw"] exI conjI) (simp_all add: str_len_append)
    moreover have "start + str_len (trim raw) \<le> next_cursor" using len by (simp add: start_def next_cursor_def)
    ultimately show ?thesis using rest False vis_join trim_visible [of raw] unfolding eq
      by (auto simp: start_def next_cursor_def visible_append)
  qed
qed (simp add: visible_def)

text \<open>The chunks of a text are non-empty parts of it, each at the byte span recorded with it; the spans do
  not overlap and ascend, and together the chunks hold every character of the text that is not white space, in order.\<close>

theorem chunk_spans_exact:
  "(\<forall>c \<in> set (chunks_with_spans txt). at_span txt c \<and> fst c \<noteq> []) \<and>
   sorted_wrt (\<lambda>c d. snd (snd c) \<le> fst (snd d)) (chunks_with_spans txt) \<and>
   visible (concat (map fst (chunks_with_spans txt))) = visible txt"
proof -
  let ?cs = "chunk_loop 0 (split_paragraphs txt)"
  have l: "(\<forall>c \<in> set ?cs. at_span txt c \<and> fst c \<noteq> [] \<and> 0 \<le> fst (snd c)) \<and>
      sorted_wrt (\<lambda>c d. snd (snd c) \<le> fst (snd d)) ?cs \<and> visible (concat (map fst ?cs)) = visible txt"
    using chunk_loop_exact [of "txt" "[]" "split_paragraphs txt" 0] by (simp add: split_paragraphs_join str_len_def utf8_def)
  have "chunks_with_spans txt = ?cs"
  proof (cases "?cs = []")
    case True
    then have "list_all is_whitespace txt" using l by (metis concat.simps(1) filter.simps(1) filter_empty_conv list.map(1) list_all_iff visible_def)
    then have "trim txt = []" using trim_empty by blast
    then show ?thesis by (simp add: chunks_with_spans_def)
  qed (simp add: chunks_with_spans_def)
  then show ?thesis using l by simp
qed

theorem chunk_spans_exact_witness:
  "length (chunks_with_spans (lit ''a'' @ [10, 10, 32, 228])) = 2 \<and>
   (\<forall>c \<in> set (chunks_with_spans (lit ''a'' @ [10, 10, 32, 228])). at_span (lit ''a'' @ [10, 10, 32, 228]) c)"
  using chunk_spans_exact [of "lit ''a'' @ [10, 10, 32, 228]"]
  by (simp add: lit_def chunks_with_spans_def split_paragraphs.simps is_whitespace_def trim_def trim_start_def)

section \<open>Video ids and HTML\<close>

lemma youtube_video_id_valid: "youtube_video_id input = Some i \<Longrightarrow> is_youtube_id i"
  by (auto simp: youtube_video_id_def or_else_def Let_def split: if_splits option.splits prod.splits)

lemma strip_html_no_tag: "60 \<notin> set (strip_html skip rest)"
proof (induction skip rest rule: strip_html.induct)
  case (1 skip rest)
  then show ?case by (subst strip_html.simps) (auto split: option.split)
qed

text \<open>A script that starts in the last 24 bytes is not recognised: its text is taken for the text of the page.\<close>

lemma short_script_kept: "html_to_text (\<lambda>s. None) (lit ''<script>steal()</script>'') = []"
  "html_to_text (\<lambda>s. None) (lit ''<script>steal</script>'') = lit ''steal''"
  by code_simp+

end
