(* ===== verification/Corpus_Store.thy ===== *)
theory Corpus_Store
  imports Corpus_Text Doc_Store
begin

text \<open>
  The tables of the corpus, \<^verbatim>\<open>crates/synapse-core/src/corpus.rs\<close>: sources and their synchronisation, documents,
  chunks with their full-text and vector rows, promotions, and the operations that fill them from feeds, transcripts,
  pages and the document store. Tables are row lists in id order. The libraries are the fields of \<open>corpus_lib\<close>: BLAKE3,
  UTF-8 decoding, HTML entities, the XML reader, the PDF extractor, by how much an upsert that finds its row
  advances the id sequence, and whether a row of the vector table can be replaced. Statements of the connection fail
  only on constraints; the source row is written before anything that can fail and stays.
\<close>

section \<open>Data\<close>

datatype source_kind = Rss | Youtube | Pdf | Web | TextSource

fun source_kind_str :: "source_kind \<Rightarrow> rstr" where
  "source_kind_str Rss = lit ''rss''"
| "source_kind_str Youtube = lit ''youtube''"
| "source_kind_str Pdf = lit ''pdf''"
| "source_kind_str Web = lit ''web''"
| "source_kind_str TextSource = lit ''text''"

datatype corpus_error = CorpusFormat | CorpusOther | CorpusNotFound | CorpusSql | CorpusDim nat

definition source_kind_from_str :: "rstr \<Rightarrow> corpus_error + source_kind" where
  "source_kind_from_str raw =
     (if raw = lit ''rss'' then Inr Rss else if raw = lit ''youtube'' then Inr Youtube else if raw = lit ''pdf'' then Inr Pdf
      else if raw = lit ''web'' then Inr Web else if raw = lit ''text'' then Inr TextSource else Inl CorpusFormat)"

datatype promotion_kind = FactPromotion | DecisionPromotion

fun promotion_kind_str :: "promotion_kind \<Rightarrow> rstr" where
  "promotion_kind_str FactPromotion = lit ''fact''"
| "promotion_kind_str DecisionPromotion = lit ''decision''"

datatype xml_event = XStart bytes | XText "rstr option" | XCData "rstr option" | XEnd bytes | XOther | XError

record corpus_lib =
  c_hash :: "bytes \<Rightarrow> bytes"
  c_hash_hex :: "bytes \<Rightarrow> rstr"
  c_utf8 :: "bytes \<Rightarrow> rstr option"
  c_lossy :: "bytes \<Rightarrow> rstr"
  c_entities :: "rstr \<Rightarrow> rstr option"
  c_xml :: "rstr \<Rightarrow> xml_event list"
  c_pdf :: "bytes \<Rightarrow> rstr option"
  c_gap :: nat
  c_vec_replace :: bool

record corpus_source =
  cs_id :: int
  cs_kind :: rstr
  cs_uri :: rstr
  cs_title :: "rstr option"
  cs_created :: int
  cs_last_sync :: "int option"
  cs_interval :: "int option"
  cs_enabled :: bool

record corpus_document =
  cd_id :: int
  cd_source :: int
  cd_external :: rstr
  cd_title :: rstr
  cd_uri :: rstr
  cd_published :: "int option"
  cd_hash :: bytes
  cd_created :: int

record corpus_chunk =
  cc_id :: int
  cc_document :: int
  cc_ordinal :: nat
  cc_text :: rstr
  cc_start :: nat
  cc_end :: nat

record promotion_row =
  pr_id :: int
  pr_chunk :: int
  pr_kind :: rstr
  pr_rationale :: rstr
  pr_status :: rstr
  pr_verifier :: "rstr option"
  pr_created :: int
  pr_verified :: "int option"

record corpus_db =
  corpus_sources :: "corpus_source list"
  sources_seq :: int
  corpus_documents :: "corpus_document list"
  documents_seq :: int
  corpus_chunks :: "corpus_chunk list"
  chunks_seq :: int
  chunks_fts :: "(int \<times> rstr) list"
  corpus_vec :: "(int \<times> embedding) list"
  corpus_promotions :: "promotion_row list"
  promotions_seq :: int
  corpus_fk :: bool

definition corpus_migrate :: "bool \<Rightarrow> corpus_db" where
  "corpus_migrate fk = \<lparr>corpus_sources = [], sources_seq = 0, corpus_documents = [], documents_seq = 0, corpus_chunks = [],
     chunks_seq = 0, chunks_fts = [], corpus_vec = [], corpus_promotions = [], promotions_seq = 0, corpus_fk = fk\<rparr>"

record corpus_request =
  nq_kind :: source_kind
  nq_source_uri :: rstr
  nq_external :: rstr
  nq_title :: rstr
  nq_text :: rstr
  nq_published :: "int option"

section \<open>Sources\<close>

abbreviation source_key :: "corpus_source \<Rightarrow> rstr \<times> rstr" where
  "source_key s \<equiv> (cs_kind s, cs_uri s)"

text \<open>\<^verbatim>\<open>INSERT ... ON CONFLICT(kind, uri) DO UPDATE\<close> with the update \<open>u\<close>, and the id of the row.\<close>

definition upsert_source :: "corpus_lib \<Rightarrow> corpus_source \<Rightarrow> (corpus_source \<Rightarrow> corpus_source) \<Rightarrow> corpus_db \<Rightarrow> int \<times> corpus_db" where
  "upsert_source L s u db =
     (case find (\<lambda>r. source_key r = source_key s) (corpus_sources db) of
        Some r \<Rightarrow> (cs_id r, db\<lparr>corpus_sources := map (\<lambda>x. if source_key x = source_key s then u x else x) (corpus_sources db),
                             sources_seq := sources_seq db + int (c_gap L)\<rparr>)
      | None \<Rightarrow> let i = sources_seq db + 1 in
          (i, db\<lparr>corpus_sources := corpus_sources db @ [s\<lparr>cs_id := i\<rparr>], sources_seq := i\<rparr>))"

definition upsert_corpus_sync_source :: "corpus_lib \<Rightarrow> int \<Rightarrow> source_kind \<Rightarrow> rstr \<Rightarrow> rstr option \<Rightarrow> int \<Rightarrow> corpus_db \<Rightarrow>
    corpus_error + int \<times> corpus_db" where
  "upsert_corpus_sync_source L now kind uri title interval db =
     (if interval \<le> 0 then Inl CorpusOther
      else Inr (upsert_source L
        \<lparr>cs_id = 0, cs_kind = source_kind_str kind, cs_uri = uri, cs_title = title, cs_created = now, cs_last_sync = None,
         cs_interval = Some interval, cs_enabled = True\<rparr>
        (\<lambda>x. x\<lparr>cs_title := title, cs_interval := Some interval, cs_enabled := True\<rparr>) db))"

record sync_source =
  sy_id :: int
  sy_kind :: source_kind
  sy_uri :: rstr
  sy_title :: "rstr option"
  sy_interval :: int
  sy_last :: "int option"

definition is_due :: "int \<Rightarrow> corpus_source \<Rightarrow> bool" where
  "is_due now s \<longleftrightarrow> cs_enabled s \<and>
     (case cs_interval s of None \<Rightarrow> False
      | Some i \<Rightarrow> (case cs_last_sync s of None \<Rightarrow> True | Some l \<Rightarrow> l + i \<le> now))"

fun read_sources :: "corpus_source list \<Rightarrow> corpus_error + sync_source list" where
  "read_sources [] = Inr []"
| "read_sources (s # ss) =
     (case source_kind_from_str (cs_kind s) of Inl e \<Rightarrow> Inl e
      | Inr k \<Rightarrow> (case read_sources ss of Inl e \<Rightarrow> Inl e
          | Inr out \<Rightarrow> Inr (\<lparr>sy_id = cs_id s, sy_kind = k, sy_uri = cs_uri s, sy_title = cs_title s,
              sy_interval = the (cs_interval s), sy_last = cs_last_sync s\<rparr> # out)))"

definition due_corpus_sync_sources :: "int \<Rightarrow> nat \<Rightarrow> corpus_db \<Rightarrow> corpus_error + sync_source list" where
  "due_corpus_sync_sources now limit db =
     (if limit = 0 then Inr []
      else read_sources (take limit
        (sort_key (\<lambda>s. (case cs_last_sync s of None \<Rightarrow> 0 | Some l \<Rightarrow> l)) (filter (is_due now) (corpus_sources db)))))"

definition mark_corpus_source_synced :: "int \<Rightarrow> int \<Rightarrow> corpus_db \<Rightarrow> corpus_error + corpus_db" where
  "mark_corpus_source_synced sid ts db =
     (if sid \<notin> cs_id ` set (corpus_sources db) then Inl CorpusNotFound
      else Inr (db\<lparr>corpus_sources := map (\<lambda>s. if cs_id s = sid then s\<lparr>cs_last_sync := Some ts\<rparr> else s) (corpus_sources db)\<rparr>))"

section \<open>Documents\<close>

text \<open>The chunk rows of a new document, and the trigger that indexes them.\<close>

definition chunk_rows :: "int \<Rightarrow> int \<Rightarrow> rstr \<Rightarrow> corpus_chunk list" where
  "chunk_rows doc seq txt =
     map (\<lambda>(n, s, a, b). \<lparr>cc_id = seq + int n + 1, cc_document = doc, cc_ordinal = n, cc_text = s, cc_start = a, cc_end = b\<rparr>)
       (enumerate 0 (chunks_with_spans txt))"

definition insert_document :: "corpus_lib \<Rightarrow> int \<Rightarrow> int \<Rightarrow> corpus_request \<Rightarrow> corpus_db \<Rightarrow> int \<times> corpus_db" where
  "insert_document L now source_id q db =
     (let i = documents_seq db + 1; rows = chunk_rows i (chunks_seq db) (nq_text q) in
      (i, db\<lparr>corpus_documents := corpus_documents db @ [\<lparr>cd_id = i, cd_source = source_id, cd_external = nq_external q,
                cd_title = nq_title q, cd_uri = nq_source_uri q, cd_published = nq_published q,
                cd_hash = c_hash L (utf8 (nq_text q)), cd_created = now\<rparr>],
            documents_seq := i,
            corpus_chunks := corpus_chunks db @ rows, chunks_seq := chunks_seq db + int (length rows),
            chunks_fts := chunks_fts db @ map (\<lambda>c. (cc_id c, cc_text c)) rows\<rparr>))"

definition put_corpus_document :: "corpus_lib \<Rightarrow> int \<Rightarrow> corpus_request \<Rightarrow> corpus_db \<Rightarrow> corpus_error + int \<times> corpus_db" where
  "put_corpus_document L now q db =
     (if trim (nq_text q) = [] then Inl CorpusOther
      else case upsert_source L
          \<lparr>cs_id = 0, cs_kind = source_kind_str (nq_kind q), cs_uri = nq_source_uri q, cs_title = Some (nq_title q),
           cs_created = now, cs_last_sync = None, cs_interval = None, cs_enabled = True\<rparr>
          (\<lambda>x. x\<lparr>cs_title := Some (nq_title q)\<rparr>) db of
        (sid, db1) \<Rightarrow>
          (case find (\<lambda>d. cd_source d = sid \<and> cd_external d = nq_external q) (corpus_documents db1) of
             Some d \<Rightarrow> Inr (cd_id d, db1)
           | None \<Rightarrow> Inr (insert_document L now sid q db1)))"

definition ingest_youtube_transcript :: "corpus_lib \<Rightarrow> int \<Rightarrow> rstr \<Rightarrow> rstr \<Rightarrow> rstr \<Rightarrow> rstr \<Rightarrow> corpus_db \<Rightarrow>
    corpus_error + int \<times> corpus_db" where
  "ingest_youtube_transcript L now uri video_id title transcript db =
     (let t = clean_transcript_text transcript in
      if trim t = [] then Inl CorpusOther
      else put_corpus_document L now \<lparr>nq_kind = Youtube, nq_source_uri = uri, nq_external = video_id, nq_title = title,
             nq_text = t, nq_published = None\<rparr> db)"

definition ingest_web_html :: "corpus_lib \<Rightarrow> int \<Rightarrow> rstr \<Rightarrow> rstr option \<Rightarrow> rstr \<Rightarrow> corpus_db \<Rightarrow> corpus_error + int \<times> corpus_db" where
  "ingest_web_html L now uri title html db =
     (let t = html_to_text (c_entities L) html in
      if trim t = [] then Inl CorpusOther
      else let fallback = extract_title_from_html (c_entities L) html;
               given = (case title of Some s \<Rightarrow> if trim s = [] then None else Some (trim s) | None \<Rightarrow> None);
               title' = (case or_else given fallback of Some s \<Rightarrow> s | None \<Rightarrow> uri)
           in put_corpus_document L now \<lparr>nq_kind = Web, nq_source_uri = uri, nq_external = uri, nq_title = title',
                nq_text = t, nq_published = None\<rparr> db)"

definition ingest_pdf_bytes :: "corpus_lib \<Rightarrow> int \<Rightarrow> rstr \<Rightarrow> rstr \<Rightarrow> bytes \<Rightarrow> corpus_db \<Rightarrow> corpus_error + int \<times> corpus_db" where
  "ingest_pdf_bytes L now uri title bs db =
     (case c_pdf L bs of None \<Rightarrow> Inl CorpusFormat
      | Some t \<Rightarrow> if trim t = [] then Inl CorpusOther
          else put_corpus_document L now \<lparr>nq_kind = Pdf, nq_source_uri = uri, nq_external = uri, nq_title = title,
                 nq_text = t, nq_published = None\<rparr> db)"

text \<open>The reader's events, up to the end of the file; the documents before an error stay.\<close>

record rss_state =
  in_item :: bool
  cur_field :: "rss_field option"
  cur_item :: rss_item
  imported :: "int list"

fun rss_loop :: "corpus_lib \<Rightarrow> int \<Rightarrow> rstr \<Rightarrow> xml_event list \<Rightarrow> rss_state \<Rightarrow> corpus_db \<Rightarrow> (corpus_error + int list) \<times> corpus_db" where
  "rss_loop L now uri [] st db = (Inr (imported st), db)"
| "rss_loop L now uri (XStart name # es) st db =
     rss_loop L now uri es
       (if name = as_bytes ''item'' then st\<lparr>in_item := True, cur_field := None, cur_item := rss_default\<rparr>
        else if in_item st then st\<lparr>cur_field := rss_field_name name\<rparr> else st) db"
| "rss_loop L now uri (XText t # es) st db =
     (case (in_item st, cur_field st, t) of
        (True, Some f, None) \<Rightarrow> (Inl CorpusFormat, db)
      | (True, Some f, Some s) \<Rightarrow> rss_loop L now uri es (st\<lparr>cur_item := append_rss_text f s (cur_item st)\<rparr>) db
      | _ \<Rightarrow> rss_loop L now uri es st db)"
| "rss_loop L now uri (XCData t # es) st db =
     (case (in_item st, cur_field st, t) of
        (True, Some f, None) \<Rightarrow> (Inl CorpusFormat, db)
      | (True, Some f, Some s) \<Rightarrow> rss_loop L now uri es (st\<lparr>cur_item := append_rss_text f s (cur_item st)\<rparr>) db
      | _ \<Rightarrow> rss_loop L now uri es st db)"
| "rss_loop L now uri (XEnd name # es) st db =
     (if name = as_bytes ''item'' \<and> in_item st then
        (case into_doc (c_hash_hex L) uri (cur_item st) of
           None \<Rightarrow> rss_loop L now uri es (st\<lparr>in_item := False, cur_field := None, cur_item := rss_default\<rparr>) db
         | Some (ext, title, t) \<Rightarrow>
             (case put_corpus_document L now \<lparr>nq_kind = Rss, nq_source_uri = uri, nq_external = ext, nq_title = title,
                     nq_text = t, nq_published = None\<rparr> db of
                Inl e \<Rightarrow> (Inl e, db)
              | Inr (i, db') \<Rightarrow> rss_loop L now uri es
                  (st\<lparr>in_item := False, cur_field := None, cur_item := rss_default, imported := imported st @ [i]\<rparr>) db'))
      else rss_loop L now uri es
        (if in_item st \<and> rss_field_name name = cur_field st then st\<lparr>cur_field := None\<rparr> else st) db)"
| "rss_loop L now uri (XOther # es) st db = rss_loop L now uri es st db"
| "rss_loop L now uri (XError # es) st db = (Inl CorpusFormat, db)"

definition ingest_rss_xml :: "corpus_lib \<Rightarrow> int \<Rightarrow> rstr \<Rightarrow> rstr \<Rightarrow> corpus_db \<Rightarrow> (corpus_error + int list) \<times> corpus_db" where
  "ingest_rss_xml L now uri xml db =
     rss_loop L now uri (c_xml L xml) \<lparr>in_item = False, cur_field = None, cur_item = rss_default, imported = []\<rparr> db"

definition one_id :: "corpus_db \<Rightarrow> corpus_error + int \<times> corpus_db \<Rightarrow> (corpus_error + int list) \<times> corpus_db" where
  "one_id db r = (case r of Inl e \<Rightarrow> (Inl e, db) | Inr (i, db') \<Rightarrow> (Inr [i], db'))"

definition ingest_fetched_document :: "corpus_lib \<Rightarrow> int \<Rightarrow> rstr \<Rightarrow> rstr option \<Rightarrow> rstr option \<Rightarrow> bytes \<Rightarrow> corpus_db \<Rightarrow>
    (corpus_error + int list) \<times> corpus_db" where
  "ingest_fetched_document L now uri content_type title bs db =
     (if bs = [] then (Inl CorpusOther, db)
      else let ct = normalized_content_type content_type in
        if contains_str (lit ''rss'') ct \<or> contains_str (lit ''atom'') ct \<or> ends_with (lit ''+xml'') ct \<or>
           (contains_str (lit ''xml'') ct \<and> looks_like_rss (c_lossy L) bs) \<or> looks_like_rss (c_lossy L) bs
        then (case c_utf8 L bs of None \<Rightarrow> (Inl CorpusFormat, db) | Some xml \<Rightarrow> ingest_rss_xml L now uri xml db)
        else if ct = lit ''application/pdf'' \<or> ends_with (lit ''.pdf'') (to_ascii_lowercase uri)
        then one_id db (ingest_pdf_bytes L now uri (case title of Some t \<Rightarrow> t | None \<Rightarrow> uri) bs db)
        else if ct = lit ''text/html'' \<or> ct = lit ''application/xhtml+xml'' \<or> looks_like_html (c_lossy L) bs
        then (case c_utf8 L bs of None \<Rightarrow> (Inl CorpusFormat, db)
              | Some html \<Rightarrow> one_id db (ingest_web_html L now uri title html db))
        else (case c_utf8 L bs of None \<Rightarrow> (Inl CorpusFormat, db)
              | Some t \<Rightarrow> one_id db (put_corpus_document L now \<lparr>nq_kind = TextSource, nq_source_uri = uri, nq_external = uri,
                  nq_title = (case title of Some s \<Rightarrow> s | None \<Rightarrow> uri), nq_text = t, nq_published = None\<rparr> db)))"

text \<open>The newest documents of the store; a time stamp beyond 9999999999 is in milliseconds.\<close>

definition import_request :: "doc_row \<Rightarrow> corpus_request" where
  "import_request d = \<lparr>nq_kind = TextSource,
     nq_source_uri = (case d_uri d of Some u \<Rightarrow> u | None \<Rightarrow> lit ''synapse:doc:'' @ show_int (d_id d)),
     nq_external = lit ''synapse-doc:'' @ show_int (d_id d),
     nq_title = (case d_title d of Some t \<Rightarrow> if trim t = [] then lit ''Synapse doc '' @ show_int (d_id d) else t
                 | None \<Rightarrow> lit ''Synapse doc '' @ show_int (d_id d)),
     nq_text = d_text d,
     nq_published = Some (if 9999999999 < d_ts d then d_ts d div 1000 else d_ts d)\<rparr>"

fun import_loop :: "corpus_lib \<Rightarrow> int \<Rightarrow> doc_row list \<Rightarrow> int list \<Rightarrow> corpus_db \<Rightarrow> (corpus_error + int list) \<times> corpus_db" where
  "import_loop L now [] ids db = (Inr ids, db)"
| "import_loop L now (d # ds) ids db =
     (if trim (d_text d) = [] then import_loop L now ds ids db
      else case put_corpus_document L now (import_request d) db of
        Inl e \<Rightarrow> (Inl e, db)
      | Inr (i, db') \<Rightarrow> import_loop L now ds (ids @ [i]) db')"

definition import_synapse_docs_to_corpus :: "corpus_lib \<Rightarrow> int \<Rightarrow> nat \<Rightarrow> store \<Rightarrow> corpus_db \<Rightarrow> (corpus_error + int list) \<times> corpus_db" where
  "import_synapse_docs_to_corpus L now limit s db =
     (if limit = 0 then (Inr [], db)
      else import_loop L now (take limit (sort_key (\<lambda>d. - d_ts d) (sort_key (\<lambda>d. - d_id d) (docs s)))) [] db)"

section \<open>Vectors and promotions\<close>

definition set_corpus_chunk_embedding :: "corpus_lib \<Rightarrow> int \<Rightarrow> embedding \<Rightarrow> corpus_db \<Rightarrow> corpus_error + corpus_db" where
  "set_corpus_chunk_embedding L i e db =
     (if length e \<noteq> EMBED_DIM then Inl (CorpusDim (length e))
      else if i \<in> fst ` set (corpus_vec db) \<and> \<not> c_vec_replace L then Inl CorpusSql
      else Inr (db\<lparr>corpus_vec := filter (\<lambda>(j, _). j \<noteq> i) (corpus_vec db) @ [(i, e)]\<rparr>))"

definition queue_promotion :: "int \<Rightarrow> int \<Rightarrow> promotion_kind \<Rightarrow> rstr \<Rightarrow> corpus_db \<Rightarrow> corpus_error + int \<times> corpus_db" where
  "queue_promotion now chunk kind rationale db =
     (if corpus_fk db \<and> chunk \<notin> cc_id ` set (corpus_chunks db) then Inl CorpusSql
      else let i = promotions_seq db + 1 in
        Inr (i, db\<lparr>corpus_promotions := corpus_promotions db @ [\<lparr>pr_id = i, pr_chunk = chunk, pr_kind = promotion_kind_str kind,
              pr_rationale = rationale, pr_status = lit ''pending'', pr_verifier = None, pr_created = now, pr_verified = None\<rparr>],
              promotions_seq := i\<rparr>))"

abbreviation is_pending :: "int \<Rightarrow> promotion_row \<Rightarrow> bool" where
  "is_pending i p \<equiv> pr_id p = i \<and> pr_status p = lit ''pending''"

definition verify_promotion :: "int \<Rightarrow> int \<Rightarrow> rstr \<Rightarrow> corpus_db \<Rightarrow> corpus_error + corpus_db" where
  "verify_promotion now i verifier db =
     (if \<not> list_ex (is_pending i) (corpus_promotions db) then Inl CorpusNotFound
      else Inr (db\<lparr>corpus_promotions := map (\<lambda>p. if is_pending i p
          then p\<lparr>pr_status := lit ''verified'', pr_verifier := Some verifier, pr_verified := Some now\<rparr> else p) (corpus_promotions db)\<rparr>))"

definition ready_promotions :: "corpus_db \<Rightarrow> int list" where
  "ready_promotions db = map pr_id (sort_key (\<lambda>p. case pr_verified p of Some t \<Rightarrow> t | None \<Rightarrow> 0)
     (filter (\<lambda>p. pr_status p = lit ''verified'') (corpus_promotions db)))"

section \<open>Invariant\<close>

definition sources_ok :: "corpus_db \<Rightarrow> bool" where
  "sources_ok db \<longleftrightarrow> distinct (map source_key (corpus_sources db)) \<and> distinct (map cs_id (corpus_sources db)) \<and>
     (\<forall>s \<in> set (corpus_sources db). cs_id s \<le> sources_seq db \<and> (\<exists>k. cs_kind s = source_kind_str k))"

definition documents_ok :: "corpus_db \<Rightarrow> bool" where
  "documents_ok db \<longleftrightarrow> distinct (map cd_id (corpus_documents db)) \<and>
     distinct (map (\<lambda>d. (cd_source d, cd_external d)) (corpus_documents db)) \<and>
     (\<forall>d \<in> set (corpus_documents db). cd_id d \<le> documents_seq db \<and> cd_source d \<in> cs_id ` set (corpus_sources db))"

abbreviation chunk_part :: "corpus_chunk \<Rightarrow> nat \<times> rstr \<times> nat \<times> nat" where
  "chunk_part c \<equiv> (cc_ordinal c, cc_text c, cc_start c, cc_end c)"

definition chunks_of :: "corpus_db \<Rightarrow> int \<Rightarrow> corpus_chunk list" where
  "chunks_of db i = filter (\<lambda>c. cc_document c = i) (corpus_chunks db)"

definition chunks_ok :: "corpus_lib \<Rightarrow> corpus_db \<Rightarrow> bool" where
  "chunks_ok L db \<longleftrightarrow> distinct (map cc_id (corpus_chunks db)) \<and>
     (\<forall>c \<in> set (corpus_chunks db). cc_id c \<le> chunks_seq db \<and> cc_document c \<in> cd_id ` set (corpus_documents db)) \<and>
     (\<forall>d \<in> set (corpus_documents db). \<exists>t. trim t \<noteq> [] \<and> cd_hash d = c_hash L (utf8 t) \<and>
        map chunk_part (chunks_of db (cd_id d)) = enumerate 0 (chunks_with_spans t)) \<and>
     chunks_fts db = map (\<lambda>c. (cc_id c, cc_text c)) (corpus_chunks db)"

fun promotion_ok :: "promotion_row \<Rightarrow> bool" where
  "promotion_ok p \<longleftrightarrow> (pr_status p = lit ''pending'' \<and> pr_verifier p = None \<and> pr_verified p = None) \<or>
     (pr_status p = lit ''verified'' \<and> pr_verifier p \<noteq> None \<and> pr_verified p \<noteq> None)"

definition promotions_ok :: "corpus_db \<Rightarrow> bool" where
  "promotions_ok db \<longleftrightarrow> distinct (map pr_id (corpus_promotions db)) \<and>
     (\<forall>p \<in> set (corpus_promotions db). pr_id p \<le> promotions_seq db \<and> promotion_ok p \<and>
        (corpus_fk db \<longrightarrow> pr_chunk p \<in> cc_id ` set (corpus_chunks db)))"

definition corpus_wf :: "corpus_lib \<Rightarrow> corpus_db \<Rightarrow> bool" where
  "corpus_wf L db \<longleftrightarrow> sources_ok db \<and> documents_ok db \<and> chunks_ok L db \<and> promotions_ok db"

lemma corpus_migrate_wf: "corpus_wf L (corpus_migrate fk)"
  by (simp add: corpus_wf_def sources_ok_def documents_ok_def chunks_ok_def promotions_ok_def corpus_migrate_def)

text \<open>Which tables an operation leaves alone.\<close>

definition same_rest :: "corpus_db \<Rightarrow> corpus_db \<Rightarrow> bool" where
  "same_rest db db' \<longleftrightarrow> corpus_documents db' = corpus_documents db \<and> documents_seq db' = documents_seq db \<and>
     corpus_chunks db' = corpus_chunks db \<and> chunks_seq db' = chunks_seq db \<and> chunks_fts db' = chunks_fts db \<and>
     corpus_promotions db' = corpus_promotions db \<and> promotions_seq db' = promotions_seq db \<and> corpus_fk db' = corpus_fk db"

lemma wf_sources_change:
  assumes "corpus_wf L db" "sources_ok db'" "same_rest db db'" "cs_id ` set (corpus_sources db) \<subseteq> cs_id ` set (corpus_sources db')"
  shows "corpus_wf L db'"
  using assms unfolding corpus_wf_def documents_ok_def chunks_ok_def promotions_ok_def same_rest_def chunks_of_def
  by (simp; blast)

lemma map_same_keys:
  assumes "\<And>x. source_key (u x) = source_key x" "\<And>x. cs_id (u x) = cs_id x"
  shows "map source_key (map (\<lambda>x. if P x then u x else x) xs) = map source_key xs"
    "map cs_id (map (\<lambda>x. if P x then u x else x) xs) = map cs_id xs"
  using assms by simp_all

lemma upsert_source_wf:
  assumes wf: "corpus_wf L db" and keep: "\<And>x. source_key (u x) = source_key x" "\<And>x. cs_id (u x) = cs_id x"
    and kind: "\<exists>k. cs_kind s = source_kind_str k" and r: "upsert_source L s u db = (i, db')"
  shows "corpus_wf L db'" "i \<in> cs_id ` set (corpus_sources db')" "same_rest db db'" "corpus_vec db' = corpus_vec db"
    "\<exists>x \<in> set (corpus_sources db'). cs_id x = i \<and> source_key x = source_key s"
proof -
  have so: "sources_ok db" using wf by (simp add: corpus_wf_def)
  show rest: "same_rest db db'" "corpus_vec db' = corpus_vec db"
    using r by (auto simp: upsert_source_def same_rest_def Let_def split: option.splits)
  have *: "sources_ok db' \<and> cs_id ` set (corpus_sources db) \<subseteq> cs_id ` set (corpus_sources db') \<and>
      (\<exists>x \<in> set (corpus_sources db'). cs_id x = i \<and> source_key x = source_key s)"
  proof (cases "find (\<lambda>r. source_key r = source_key s) (corpus_sources db)")
    case None
    then have new: "source_key s \<notin> source_key ` set (corpus_sources db)" by (force simp: find_None_iff)
    have db': "corpus_sources db' = corpus_sources db @ [s\<lparr>cs_id := i\<rparr>]" "sources_seq db' = i" "i = sources_seq db + 1"
      using r None by (auto simp: upsert_source_def Let_def)
    have "i \<notin> cs_id ` set (corpus_sources db)" using so db'(3) by (force simp: sources_ok_def)
    then show ?thesis using so new kind db' by (force simp: sources_ok_def)
  next
    case (Some x)
    then have x: "x \<in> set (corpus_sources db)" "source_key x = source_key s" by (auto simp: find_Some_iff in_set_conv_nth)
    define f where "f = (\<lambda>x. if source_key x = source_key s then u x else x)"
    have f: "source_key (f y) = source_key y" "cs_id (f y) = cs_id y" for y using keep by (auto simp: f_def)
    have db': "corpus_sources db' = map f (corpus_sources db)" "sources_seq db \<le> sources_seq db'" "i = cs_id x"
      using r Some by (auto simp: upsert_source_def f_def)
    have m: "map source_key (corpus_sources db') = map source_key (corpus_sources db)" "map cs_id (corpus_sources db') = map cs_id (corpus_sources db)"
      using f by (simp_all add: db'(1))
    have k: "cs_kind (f y) = cs_kind y" for y using f(1) [of y] by simp
    have "sources_ok db'" unfolding sources_ok_def m using so db' f(2) k by (force simp: sources_ok_def)
    moreover have "cs_id ` set (corpus_sources db') = cs_id ` set (corpus_sources db)" using arg_cong [OF m(2), of set] by simp
    moreover have "f x \<in> set (corpus_sources db')" "cs_id (f x) = i" "source_key (f x) = source_key s"
      using x f db' by auto
    ultimately show ?thesis by blast
  qed
  then show "corpus_wf L db'" using wf_sources_change [OF wf _ rest(1)] by blast
  show "\<exists>x \<in> set (corpus_sources db'). cs_id x = i \<and> source_key x = source_key s" using * by blast
  then show "i \<in> cs_id ` set (corpus_sources db')" by blast
qed

lemma chunk_rows_parts:
  "map chunk_part (chunk_rows i q t) = enumerate 0 (chunks_with_spans t)"
  "map cc_id (chunk_rows i q t) = map (\<lambda>n. q + int n + 1) [0..<length (chunks_with_spans t)]"
  "c \<in> set (chunk_rows i q t) \<Longrightarrow> cc_document c = i"
  by (auto simp: chunk_rows_def comp_def case_prod_beta enumerate_eq_zip map_fst_zip
      intro: nth_equalityI)

lemma insert_document_wf:
  assumes wf: "corpus_wf L db" and src: "sid \<in> cs_id ` set (corpus_sources db)" and nb: "trim (nq_text q) \<noteq> []"
    and new: "(sid, nq_external q) \<notin> (\<lambda>d. (cd_source d, cd_external d)) ` set (corpus_documents db)"
    and r: "insert_document L now sid q db = (i, db')"
  shows "corpus_wf L db'" "map chunk_part (chunks_of db' i) = enumerate 0 (chunks_with_spans (nq_text q))"
    "i \<notin> cd_id ` set (corpus_documents db)" "j \<noteq> i \<Longrightarrow> chunks_of db' j = chunks_of db j"
proof -
  define rows where "rows = chunk_rows i (chunks_seq db) (nq_text q)"
  have i: "i = documents_seq db + 1" using r by (simp add: insert_document_def Let_def)
  have db': "corpus_documents db' = corpus_documents db @ [\<lparr>cd_id = i, cd_source = sid, cd_external = nq_external q,
        cd_title = nq_title q, cd_uri = nq_source_uri q, cd_published = nq_published q, cd_hash = c_hash L (utf8 (nq_text q)), cd_created = now\<rparr>]"
      "documents_seq db' = i" "corpus_chunks db' = corpus_chunks db @ rows" "chunks_seq db' = chunks_seq db + int (length rows)"
      "chunks_fts db' = chunks_fts db @ map (\<lambda>c. (cc_id c, cc_text c)) rows" "corpus_sources db' = corpus_sources db"
      "sources_seq db' = sources_seq db" "corpus_promotions db' = corpus_promotions db" "promotions_seq db' = promotions_seq db" "corpus_fk db' = corpus_fk db"
    using r by (auto simp: insert_document_def Let_def rows_def)
  have parts: "map chunk_part rows = enumerate 0 (chunks_with_spans (nq_text q))" by (simp add: rows_def chunk_rows_parts(1))
  have ids: "map cc_id rows = map (\<lambda>n. chunks_seq db + int n + 1) [0..<length rows]"
    using chunk_rows_parts(2) [of i "chunks_seq db" "nq_text q"] arg_cong [OF parts, of length] by (simp add: rows_def)
  have docs: "\<forall>c \<in> set rows. cc_document c = i" using chunk_rows_parts(3) rows_def by blast
  have ok: "documents_ok db" "chunks_ok L db" using wf by (simp_all add: corpus_wf_def)
  show fresh: "i \<notin> cd_id ` set (corpus_documents db)" using ok(1) i by (force simp: documents_ok_def)
  have old: "\<forall>c \<in> set (corpus_chunks db). cc_document c \<noteq> i" using ok(2) fresh by (auto simp: chunks_ok_def)
  show mine: "map chunk_part (chunks_of db' i) = enumerate 0 (chunks_with_spans (nq_text q))"
    using docs old parts by (simp add: chunks_of_def db'(3) filter_id_conv filter_empty_conv)
  show other: "chunks_of db' j = chunks_of db j" if "j \<noteq> i" for j
    using docs that by (auto simp: chunks_of_def db'(3) filter_empty_conv)
  have "documents_ok db'" using ok(1) fresh new src i by (force simp: documents_ok_def db')
  moreover have "chunks_ok L db'"
    unfolding chunks_ok_def
  proof (intro conjI)
    have "distinct (map cc_id rows)" by (simp add: ids distinct_map inj_on_def)
    moreover have "set (map cc_id rows) \<inter> set (map cc_id (corpus_chunks db)) = {}"
      unfolding ids using ok(2) by (force simp: chunks_ok_def)
    ultimately show "distinct (map cc_id (corpus_chunks db'))" using ok(2) by (simp add: chunks_ok_def db'(3)) blast
    have "\<forall>c \<in> set rows. cc_id c \<le> chunks_seq db + int (length rows)"
    proof
      fix c assume "c \<in> set rows"
      then have "cc_id c \<in> set (map cc_id rows)" by simp
      then show "cc_id c \<le> chunks_seq db + int (length rows)" unfolding ids by auto
    qed
    then show "\<forall>c \<in> set (corpus_chunks db'). cc_id c \<le> chunks_seq db' \<and> cc_document c \<in> cd_id ` set (corpus_documents db')"
      using ok(2) docs by (force simp: chunks_ok_def db')
    show "chunks_fts db' = map (\<lambda>c. (cc_id c, cc_text c)) (corpus_chunks db')" using ok(2) by (simp add: chunks_ok_def db')
    show "\<forall>d \<in> set (corpus_documents db'). \<exists>t. trim t \<noteq> [] \<and> cd_hash d = c_hash L (utf8 t) \<and>
        map chunk_part (chunks_of db' (cd_id d)) = enumerate 0 (chunks_with_spans t)"
    proof
      fix d assume d: "d \<in> set (corpus_documents db')"
      show "\<exists>t. trim t \<noteq> [] \<and> cd_hash d = c_hash L (utf8 t) \<and> map chunk_part (chunks_of db' (cd_id d)) = enumerate 0 (chunks_with_spans t)"
      proof (cases "d \<in> set (corpus_documents db)")
        case True
        then have "cd_id d \<noteq> i" using fresh by blast
        then show ?thesis using True ok(2) other [of "cd_id d"] by (auto simp: chunks_ok_def)
      next
        case False
        then have "cd_id d = i" "cd_hash d = c_hash L (utf8 (nq_text q))" using d by (auto simp: db'(1))
        then show ?thesis using mine nb by auto
      qed
    qed
  qed
  ultimately show "corpus_wf L db'" using wf by (force simp: corpus_wf_def sources_ok_def promotions_ok_def db')
qed

definition put_source :: "int \<Rightarrow> corpus_request \<Rightarrow> corpus_source" where
  "put_source now q = \<lparr>cs_id = 0, cs_kind = source_kind_str (nq_kind q), cs_uri = nq_source_uri q, cs_title = Some (nq_title q),
     cs_created = now, cs_last_sync = None, cs_interval = None, cs_enabled = True\<rparr>"

lemma put_cases:
  assumes wf: "corpus_wf L db" and nb: "trim (nq_text q) \<noteq> []"
  obtains sid db1 where "upsert_source L (put_source now q) (\<lambda>x. x\<lparr>cs_title := Some (nq_title q)\<rparr>) db = (sid, db1)"
    "corpus_wf L db1" "same_rest db db1" "sid \<in> cs_id ` set (corpus_sources db1)"
    "put_corpus_document L now q db =
      (case find (\<lambda>d. cd_source d = sid \<and> cd_external d = nq_external q) (corpus_documents db) of
         Some d \<Rightarrow> Inr (cd_id d, db1) | None \<Rightarrow> Inr (insert_document L now sid q db1))"
proof -
  obtain sid db1 where u: "upsert_source L (put_source now q) (\<lambda>x. x\<lparr>cs_title := Some (nq_title q)\<rparr>) db = (sid, db1)"
    by (cases "upsert_source L (put_source now q) (\<lambda>x. x\<lparr>cs_title := Some (nq_title q)\<rparr>) db")
  have k: "\<exists>k. cs_kind (put_source now q) = source_kind_str k" by (auto simp: put_source_def)
  note w = upsert_source_wf [OF wf _ _ k u, simplified]
  have "corpus_documents db1 = corpus_documents db" using w(3) by (simp add: same_rest_def)
  then show ?thesis
    using that [OF u w(1,3,2)] u nb by (simp add: put_corpus_document_def put_source_def)
qed


lemma put_corpus_wf:
  assumes wf: "corpus_wf L db" and r: "put_corpus_document L now q db = Inr (i, db')"
  shows "corpus_wf L db'"
proof -
  have nb: "trim (nq_text q) \<noteq> []" using r by (auto simp: put_corpus_document_def split: if_splits)
  obtain sid db1 where "upsert_source L (put_source now q) (\<lambda>x. x\<lparr>cs_title := Some (nq_title q)\<rparr>) db = (sid, db1)" and
    u: "corpus_wf L db1" "same_rest db db1" "sid \<in> cs_id ` set (corpus_sources db1)"
    "put_corpus_document L now q db =
      (case find (\<lambda>d. cd_source d = sid \<and> cd_external d = nq_external q) (corpus_documents db) of
         Some d \<Rightarrow> Inr (cd_id d, db1) | None \<Rightarrow> Inr (insert_document L now sid q db1))"
    by (rule put_cases [OF wf nb, where now = now])
  show ?thesis
  proof (cases "find (\<lambda>d. cd_source d = sid \<and> cd_external d = nq_external q) (corpus_documents db)")
    case None
    then have "(sid, nq_external q) \<notin> (\<lambda>d. (cd_source d, cd_external d)) ` set (corpus_documents db1)"
      using u(2) by (force simp: find_None_iff same_rest_def)
    moreover have "insert_document L now sid q db1 = (i, db')" using r u(4) None by simp
    ultimately show ?thesis using insert_document_wf(1) [OF u(1,3) nb] by blast
  next
    case (Some d)
    then show ?thesis using r u(1,4) by simp
  qed
qed

lemma rss_loop_wf: "corpus_wf L db \<Longrightarrow> corpus_wf L (snd (rss_loop L now uri es st db))"
  by (induction L now uri es st db rule: rss_loop.induct)
    (auto simp: Let_def put_corpus_wf split: option.splits sum.splits prod.splits bool.splits)

lemma import_loop_wf: "corpus_wf L db \<Longrightarrow> corpus_wf L (snd (import_loop L now ds ids db))"
  by (induction L now ds ids db rule: import_loop.induct) (auto simp: put_corpus_wf split: sum.splits prod.splits)

lemma one_id_wf: "corpus_wf L db \<Longrightarrow> (\<And>i db'. r = Inr (i, db') \<Longrightarrow> corpus_wf L db') \<Longrightarrow> corpus_wf L (snd (one_id db r))"
  by (auto simp: one_id_def split: sum.split)

lemma ingest_wf:
  assumes "corpus_wf L db"
  shows "ingest_web_html L now uri title html db = Inr (i, db') \<Longrightarrow> corpus_wf L db'"
    "ingest_pdf_bytes L now uri t bs db = Inr (i, db') \<Longrightarrow> corpus_wf L db'"
    "ingest_youtube_transcript L now uri v t tr db = Inr (i, db') \<Longrightarrow> corpus_wf L db'"
    "corpus_wf L (snd (ingest_rss_xml L now uri xml db))"
proof -
  show "ingest_web_html L now uri title html db = Inr (i, db') \<Longrightarrow> corpus_wf L db'"
  proof (cases "trim (html_to_text (c_entities L) html) = []")
    case False
    assume "ingest_web_html L now uri title html db = Inr (i, db')"
    then show ?thesis unfolding ingest_web_html_def Let_def if_not_P [OF False] by (rule put_corpus_wf [OF assms])
  qed (simp add: ingest_web_html_def)
  show "ingest_pdf_bytes L now uri t bs db = Inr (i, db') \<Longrightarrow> corpus_wf L db'"
    unfolding ingest_pdf_bytes_def by (auto simp: put_corpus_wf [OF assms] split: option.splits if_splits)
  show "ingest_youtube_transcript L now uri v t tr db = Inr (i, db') \<Longrightarrow> corpus_wf L db'"
    unfolding ingest_youtube_transcript_def Let_def by (auto simp: put_corpus_wf [OF assms] split: if_splits)
  show "corpus_wf L (snd (ingest_rss_xml L now uri xml db))" unfolding ingest_rss_xml_def by (rule rss_loop_wf [OF assms])
qed

lemma ingest_fetched_wf: "corpus_wf L db \<Longrightarrow> corpus_wf L (snd (ingest_fetched_document L now uri ct title bs db))"
  unfolding ingest_fetched_document_def Let_def
  by (auto intro!: one_id_wf intro: ingest_wf put_corpus_wf split: option.split)

lemma sync_source_wf:
  assumes "corpus_wf L db" "upsert_corpus_sync_source L now kind uri title interval db = Inr (i, db')"
  shows "corpus_wf L db'"
proof -
  let ?s = "\<lparr>cs_id = 0, cs_kind = source_kind_str kind, cs_uri = uri, cs_title = title, cs_created = now, cs_last_sync = None,
         cs_interval = Some interval, cs_enabled = True\<rparr>"
  have u: "upsert_source L ?s (\<lambda>x. x\<lparr>cs_title := title, cs_interval := Some interval, cs_enabled := True\<rparr>) db = (i, db')"
    using assms(2) by (simp add: upsert_corpus_sync_source_def split: if_splits)
  have k: "\<exists>k. cs_kind ?s = source_kind_str k" by auto
  show ?thesis by (rule upsert_source_wf(1) [OF assms(1) _ _ k u]) simp_all
qed

lemma mark_synced_wf:
  assumes wf: "corpus_wf L db" and r: "mark_corpus_source_synced sid ts db = Inr db'"
  shows "corpus_wf L db'"
proof -
  define f where "f = (\<lambda>s :: corpus_source. if cs_id s = sid then s\<lparr>cs_last_sync := Some ts\<rparr> else s)"
  have f: "source_key (f s) = source_key s" "cs_id (f s) = cs_id s" "cs_kind (f s) = cs_kind s" for s by (simp_all add: f_def)
  have db': "db' = db\<lparr>corpus_sources := map f (corpus_sources db)\<rparr>"
    using r by (simp add: mark_corpus_source_synced_def f_def split: if_splits)
  have "sources_ok db'" using wf f(2,3) f(1) [simplified] by (simp add: corpus_wf_def sources_ok_def db' comp_def)
  then show ?thesis by (rule wf_sources_change [OF wf]) (auto simp: db' same_rest_def f image_iff)
qed

lemma set_embedding_wf:
  assumes wf: "corpus_wf L db" and r: "set_corpus_chunk_embedding L i e db = Inr db'"
  shows "corpus_wf L db'"
proof -
  obtain v where db': "db' = db\<lparr>corpus_vec := v\<rparr>" using r by (auto simp: set_corpus_chunk_embedding_def split: if_splits)
  have "sources_ok db'" using wf by (simp add: corpus_wf_def sources_ok_def db')
  then show ?thesis by (rule wf_sources_change [OF wf]) (simp_all add: db' same_rest_def)
qed

lemma wf_promotions_change:
  assumes "corpus_wf L db" "promotions_ok db'" "corpus_sources db' = corpus_sources db" "sources_seq db' = sources_seq db"
    "corpus_documents db' = corpus_documents db" "documents_seq db' = documents_seq db" "corpus_chunks db' = corpus_chunks db"
    "chunks_seq db' = chunks_seq db" "chunks_fts db' = chunks_fts db"
  shows "corpus_wf L db'"
  using assms unfolding corpus_wf_def sources_ok_def documents_ok_def chunks_ok_def chunks_of_def by simp

lemma queue_promotion_wf:
  assumes wf: "corpus_wf L db" and r: "queue_promotion now c k why db = Inr (i, db')"
  shows "corpus_wf L db'"
proof -
  define row where "row = \<lparr>pr_id = i, pr_chunk = c, pr_kind = promotion_kind_str k, pr_rationale = why, pr_status = lit ''pending'',
      pr_verifier = None, pr_created = now, pr_verified = None\<rparr>"
  have p: "promotions_ok db" using wf by (simp add: corpus_wf_def)
  have db': "db' = db\<lparr>corpus_promotions := corpus_promotions db @ [row], promotions_seq := i\<rparr>" "i = promotions_seq db + 1"
    "corpus_fk db \<longrightarrow> c \<in> cc_id ` set (corpus_chunks db)"
    using r by (auto simp: queue_promotion_def row_def Let_def split: if_splits)
  have "i \<notin> pr_id ` set (corpus_promotions db)" using p db'(2) by (force simp: promotions_ok_def)
  then have "promotions_ok db'" using p db'(2,3) by (auto simp: promotions_ok_def db'(1) row_def)
  then show ?thesis by (rule wf_promotions_change [OF wf]) (simp_all add: db'(1))
qed

lemma verify_promotion_wf:
  assumes wf: "corpus_wf L db" and r: "verify_promotion now i v db = Inr db'"
  shows "corpus_wf L db'"
proof -
  define f where "f = (\<lambda>p :: promotion_row. if is_pending i p then p\<lparr>pr_status := lit ''verified'', pr_verifier := Some v, pr_verified := Some now\<rparr> else p)"
  have p: "promotions_ok db" using wf by (simp add: corpus_wf_def)
  have db': "db' = db\<lparr>corpus_promotions := map f (corpus_promotions db)\<rparr>"
    using r by (auto simp: verify_promotion_def f_def split: if_splits)
  have f: "pr_id (f x) = pr_id x" "pr_chunk (f x) = pr_chunk x" "promotion_ok x \<Longrightarrow> promotion_ok (f x)" for x by (auto simp: f_def)
  have "promotions_ok db'" using p f unfolding promotions_ok_def db' by (simp add: comp_def del: promotion_ok.simps)
  then show ?thesis by (rule wf_promotions_change [OF wf]) (simp_all add: db')
qed

section \<open>Reachable corpora\<close>

inductive corpus_reach :: "corpus_lib \<Rightarrow> corpus_db \<Rightarrow> bool" for L where
  init: "corpus_reach L (corpus_migrate fk)"
| put: "corpus_reach L db \<Longrightarrow> put_corpus_document L now q db = Inr (i, db') \<Longrightarrow> corpus_reach L db'"
| rss: "corpus_reach L db \<Longrightarrow> corpus_reach L (snd (ingest_rss_xml L now uri xml db))"
| youtube: "corpus_reach L db \<Longrightarrow> ingest_youtube_transcript L now uri v t tr db = Inr (i, db') \<Longrightarrow> corpus_reach L db'"
| fetched: "corpus_reach L db \<Longrightarrow> corpus_reach L (snd (ingest_fetched_document L now uri ct title bs db))"
| imported: "corpus_reach L db \<Longrightarrow> corpus_reach L (snd (import_synapse_docs_to_corpus L now limit s db))"
| sync: "corpus_reach L db \<Longrightarrow> upsert_corpus_sync_source L now kind uri title interval db = Inr (i, db') \<Longrightarrow> corpus_reach L db'"
| synced: "corpus_reach L db \<Longrightarrow> mark_corpus_source_synced sid ts db = Inr db' \<Longrightarrow> corpus_reach L db'"
| embedding: "corpus_reach L db \<Longrightarrow> set_corpus_chunk_embedding L j e db = Inr db' \<Longrightarrow> corpus_reach L db'"
| queue: "corpus_reach L db \<Longrightarrow> queue_promotion now c k why db = Inr (i, db') \<Longrightarrow> corpus_reach L db'"
| verify: "corpus_reach L db \<Longrightarrow> verify_promotion now i v db = Inr db' \<Longrightarrow> corpus_reach L db'"

text \<open>C33. In every corpus reachable by its operations sources are unique by kind and address, documents by source and
  external id, every document has exactly the chunks of a text with its hash, numbered in order, the
  full-text index holds exactly the chunks, and promotions are pending without a verifier or verified with one.\<close>

theorem corpus_reachable_wf: "corpus_reach L db \<Longrightarrow> corpus_wf L db"
proof (induction rule: corpus_reach.induct)
  case (imported db now limit s)
  then show ?case by (simp add: import_synapse_docs_to_corpus_def import_loop_wf)
qed (auto intro: corpus_migrate_wf put_corpus_wf ingest_wf(4) ingest_wf(3) ingest_fetched_wf sync_source_wf mark_synced_wf set_embedding_wf
    queue_promotion_wf verify_promotion_wf)

definition corpus_plain :: corpus_lib where
  "corpus_plain = \<lparr>c_hash = (\<lambda>b. b), c_hash_hex = map unat, c_utf8 = (\<lambda>b. Some (map unat b)), c_lossy = map unat, c_entities = Some,
     c_xml = (\<lambda>_. []), c_pdf = (\<lambda>_. None), c_gap = 0, c_vec_replace = True\<rparr>"

theorem corpus_reachable_wf_witness:
  "\<exists>db. corpus_reach corpus_plain db \<and> corpus_wf corpus_plain db \<and> length (corpus_chunks db) = 1"
proof -
  let ?q = "\<lparr>nq_kind = Web, nq_source_uri = [], nq_external = [], nq_title = [], nq_text = lit ''a'', nq_published = None\<rparr>"
  obtain i db where p: "put_corpus_document corpus_plain 0 ?q (corpus_migrate True) = Inr (i, db)" "length (corpus_chunks db) = 1"
    by (auto simp: put_corpus_document_def upsert_source_def insert_document_def chunk_rows_def corpus_migrate_def chunks_with_spans_def
        lit_def trim_def trim_start_def is_whitespace_def split_paragraphs.simps Let_def)
  have r: "corpus_reach corpus_plain db" by (rule corpus_reach.put [OF corpus_reach.init p(1)])
  show ?thesis using r corpus_reachable_wf [OF r] p(2) by blast
qed

section \<open>Documents and promotions\<close>






lemma pending_iff:
  assumes "promotions_ok db" "p \<in> set (corpus_promotions db)"
  shows "pr_status p = lit ''pending'' \<longleftrightarrow> pr_verified p = None" "pr_status p = lit ''verified'' \<longleftrightarrow> pr_verified p \<noteq> None"
  using assms by (auto simp: promotions_ok_def lit_def)

lemma ready_set: "set (ready_promotions db) = pr_id ` {p \<in> set (corpus_promotions db). pr_status p = lit ''verified''}"
  by (auto simp: ready_promotions_def)

lemma queue_promotion_ready: "queue_promotion now c k why db = Inr (i, db') \<Longrightarrow> ready_promotions db' = ready_promotions db"
  by (auto simp: queue_promotion_def ready_promotions_def Let_def lit_def split: if_splits)

lemma verify_promotion_ready:
  assumes ok: "promotions_ok db" and r: "verify_promotion now j v db = Inr db'"
  shows "j \<notin> set (ready_promotions db)" "set (ready_promotions db') = insert j (set (ready_promotions db))"
    "verify_promotion now' j v' db' = Inl CorpusNotFound"
proof -
  have ne: "lit ''pending'' \<noteq> lit ''verified''" by (simp add: lit_def)
  obtain p where p: "p \<in> set (corpus_promotions db)" "is_pending j p"
    using r by (auto simp: verify_promotion_def list_ex_iff split: if_splits)
  define f where "f = (\<lambda>p :: promotion_row. if is_pending j p
      then p\<lparr>pr_status := lit ''verified'', pr_verifier := Some v, pr_verified := Some now\<rparr> else p)"
  have db': "corpus_promotions db' = map f (corpus_promotions db)"
    using r by (auto simp: verify_promotion_def f_def split: if_splits)
  have f: "pr_id (f x) = pr_id x" "pr_status (f x) = lit ''verified'' \<longleftrightarrow> is_pending j x \<or> pr_status x = lit ''verified''"
      "\<not> is_pending j (f x)" for x
    using ne by (auto simp: f_def)
  have inj: "inj_on pr_id (set (corpus_promotions db))" using ok by (simp add: promotions_ok_def distinct_map)
  have only: "x = p" if "x \<in> set (corpus_promotions db)" "pr_id x = j" for x
    using inj_onD [OF inj _ that(1) p(1)] that(2) p(2) by simp
  show "j \<notin> set (ready_promotions db)" using only p ne by (auto simp: ready_set)
  have "set (ready_promotions db') = pr_id ` {x \<in> set (corpus_promotions db). is_pending j x \<or> pr_status x = lit ''verified''}"
    unfolding ready_set db' set_map Compr_image_eq image_image f ..
  also have "\<dots> = insert j (set (ready_promotions db))" unfolding ready_set using p by blast
  finally show "set (ready_promotions db') = insert j (set (ready_promotions db))" .
  show "verify_promotion now' j v' db' = Inl CorpusNotFound" using f(3) by (simp add: verify_promotion_def db' list_ex_iff)
qed

text \<open>A promotion is ready exactly when it is verified: queueing one adds none to the ready list, verifying succeeds
  for a pending one only and adds exactly it, and a second verification is refused.\<close>

theorem promotion_gate:
  assumes "corpus_wf L db"
  shows "set (ready_promotions db) = pr_id ` {p \<in> set (corpus_promotions db). pr_verified p \<noteq> None} \<and>
    (case queue_promotion now c k why db of
       Inl e \<Rightarrow> e = CorpusSql \<and> corpus_fk db \<and> c \<notin> cc_id ` set (corpus_chunks db)
     | Inr (i, db') \<Rightarrow> i \<notin> pr_id ` set (corpus_promotions db) \<and> ready_promotions db' = ready_promotions db) \<and>
    (case verify_promotion now' j v db of
       Inl e \<Rightarrow> e = CorpusNotFound \<and> (\<nexists>p. p \<in> set (corpus_promotions db) \<and> pr_id p = j \<and> pr_verified p = None)
     | Inr db' \<Rightarrow> j \<notin> set (ready_promotions db) \<and> set (ready_promotions db') = insert j (set (ready_promotions db)) \<and>
         verify_promotion now'' j v' db' = Inl CorpusNotFound)"
proof (intro conjI)
  have ok: "promotions_ok db" using assms by (simp add: corpus_wf_def)
  show "set (ready_promotions db) = pr_id ` {p \<in> set (corpus_promotions db). pr_verified p \<noteq> None}"
    using pending_iff(2) [OF ok] by (auto simp: ready_set)
  have "promotions_seq db + 1 \<notin> pr_id ` set (corpus_promotions db)" using ok by (force simp: promotions_ok_def)
  then show "case queue_promotion now c k why db of
       Inl e \<Rightarrow> e = CorpusSql \<and> corpus_fk db \<and> c \<notin> cc_id ` set (corpus_chunks db)
     | Inr (i, db') \<Rightarrow> i \<notin> pr_id ` set (corpus_promotions db) \<and> ready_promotions db' = ready_promotions db"
    using queue_promotion_ready [of now c k why db] by (auto simp: queue_promotion_def Let_def split: sum.split)
  show "case verify_promotion now' j v db of
       Inl e \<Rightarrow> e = CorpusNotFound \<and> (\<nexists>p. p \<in> set (corpus_promotions db) \<and> pr_id p = j \<and> pr_verified p = None)
     | Inr db' \<Rightarrow> j \<notin> set (ready_promotions db) \<and> set (ready_promotions db') = insert j (set (ready_promotions db)) \<and>
         verify_promotion now'' j v' db' = Inl CorpusNotFound"
  proof (cases "verify_promotion now' j v db")
    case (Inl e)
    then show ?thesis using pending_iff(1) [OF ok] by (auto simp: verify_promotion_def list_ex_iff split: if_splits)
  next
    case (Inr db')
    then show ?thesis using verify_promotion_ready [OF ok Inr] by simp
  qed
qed

theorem promotion_gate_witness:
  "\<exists>db. corpus_wf corpus_plain db \<and> set (ready_promotions db) = {1}"
proof -
  obtain i db1 where q: "queue_promotion 0 7 FactPromotion [] (corpus_migrate False) = Inr (i, db1)"
    by (simp add: queue_promotion_def corpus_migrate_def Let_def)
  have i: "i = 1" "ready_promotions db1 = []" using q by (auto simp: queue_promotion_def corpus_migrate_def Let_def ready_promotions_def lit_def)
  have w: "corpus_wf corpus_plain db1" by (rule queue_promotion_wf [OF corpus_migrate_wf q])
  obtain db2 where v: "verify_promotion 5 1 [] db1 = Inr db2" using q by (auto simp: queue_promotion_def corpus_migrate_def Let_def verify_promotion_def)
  have "set (ready_promotions db2) = {1}"
    using promotion_gate [OF w, where now = 0 and c = 0 and k = FactPromotion and why = "[]" and now' = 5 and j = 1 and v = "[]"] i v by simp
  then show ?thesis using verify_promotion_wf [OF w v] by blast
qed

end
