(* ===== verification/Corpus_Search.thy ===== *)
theory Corpus_Search
  imports Corpus_Store Float64
begin

text \<open>
  Search and evaluation over the corpus, \<^verbatim>\<open>crates/synapse-core/src/corpus.rs\<close>: the full-text and the vector
  leg, their fusion by reciprocal ranks, the fetch of the hits, the diversification, gold questions from stored chunks,
  the metrics and the gate. \<open>search_lib\<close> holds what SQLite and the Unicode tables do: the matches of a full-text
  query in rank order, the nearest vectors, the alphabetic characters and lower case. A hash map is a map, a hash set a set.
  The scores that are sorted are sums of reciprocal ranks and never NaN.
\<close>

section \<open>Query and tokens\<close>

record search_lib =
  s_uni :: "rchar \<Rightarrow> bool"
  s_lower :: "rstr \<Rightarrow> rstr"
  s_match :: "rstr \<Rightarrow> (int \<times> rstr) list \<Rightarrow> corpus_error + int list"
  s_knn :: "embedding \<Rightarrow> (int \<times> embedding) list \<Rightarrow> int \<Rightarrow> int list option"

definition word_tokens :: "search_lib \<Rightarrow> rstr \<Rightarrow> rstr list" where
  "word_tokens S raw =
     map (\<lambda>t. s_lower S (filter (\<lambda>c. is_alphanumeric (s_uni S) c \<or> c = 95 \<or> c = 45) t)) (split_whitespace raw)"

definition fts5_query :: "search_lib \<Rightarrow> rstr \<Rightarrow> rstr option" where
  "fts5_query S raw =
     (let tokens = take 16 (filter (\<lambda>t. 1 < str_len t) (word_tokens S raw)) in
      if tokens = [] then None
      else Some (join_with (lit '' OR '') (map (\<lambda>t. [34] @ str_replace [34] [34, 34] t @ [34]) tokens)))"

definition mmr_tokens :: "search_lib \<Rightarrow> rstr \<Rightarrow> rstr set" where
  "mmr_tokens S txt = set (filter (\<lambda>t. 1 < str_len t) (word_tokens S txt))"

section \<open>Legs and fusion\<close>

record corpus_hit =
  ch_chunk :: int
  ch_document :: int
  ch_title :: rstr
  ch_text :: rstr
  ch_score :: b64

definition as_i64 :: "nat \<Rightarrow> int" where
  "as_i64 n = (if n < 2 ^ 63 then int n else int n - 2 ^ 64)"

definition sql_limit :: "int \<Rightarrow> 'a list \<Rightarrow> 'a list" where
  "sql_limit k xs = (if k < 0 then xs else take (nat k) xs)"

definition candidate_k :: "nat \<Rightarrow> nat" where
  "candidate_k top_k = max (top_k * 3 mod 2 ^ 64) ((top_k + 8) mod 2 ^ 64)"

definition lexical_leg :: "search_lib \<Rightarrow> rstr \<Rightarrow> nat \<Rightarrow> corpus_db \<Rightarrow> corpus_error + int list" where
  "lexical_leg S query top_k db =
     (case fts5_query S query of None \<Rightarrow> Inr []
      | Some m \<Rightarrow> (case s_match S m (chunks_fts db) of Inl e \<Rightarrow> Inl e
          | Inr ids \<Rightarrow> Inr (sql_limit (as_i64 (candidate_k top_k)) (filter (\<lambda>i. i \<in> cc_id ` set (corpus_chunks db)) ids))))"

definition vector_leg :: "search_lib \<Rightarrow> embedding option \<Rightarrow> nat \<Rightarrow> corpus_db \<Rightarrow> corpus_error + int list" where
  "vector_leg S emb top_k db =
     (case emb of None \<Rightarrow> Inr []
      | Some e \<Rightarrow> if length e \<noteq> EMBED_DIM then Inl (CorpusDim (length e))
          else Inr (case s_knn S e (corpus_vec db) (as_i64 (candidate_k top_k)) of Some ids \<Rightarrow> ids | None \<Rightarrow> []))"

definition rrf_score :: "nat \<Rightarrow> b64" where
  "rrf_score rank = b64_div b64_one (b64_add (b64_add (b64_of_nat 60) (b64_of_nat rank)) b64_one)"

definition bump_score :: "nat \<Rightarrow> int \<Rightarrow> (int \<rightharpoonup> b64) \<Rightarrow> (int \<rightharpoonup> b64)" where
  "bump_score rank i m = m(i \<mapsto> (case m i of Some s \<Rightarrow> b64_add s (rrf_score rank) | None \<Rightarrow> rrf_score rank))"

definition add_leg :: "int list \<Rightarrow> (int \<rightharpoonup> b64) \<times> int list \<Rightarrow> (int \<rightharpoonup> b64) \<times> int list" where
  "add_leg ids st = fold (\<lambda>(rank, i) (m, order). (bump_score rank i m, order @ [i])) (enumerate 0 ids) st"

abbreviation score_of :: "(int \<rightharpoonup> b64) \<Rightarrow> int \<Rightarrow> b64" where
  "score_of m i \<equiv> (case m i of Some s \<Rightarrow> s | None \<Rightarrow> b64_zero)"

fun fetch_hits :: "corpus_db \<Rightarrow> (int \<rightharpoonup> b64) \<Rightarrow> int set \<Rightarrow> int list \<Rightarrow> corpus_error + corpus_hit list" where
  "fetch_hits db m seen [] = Inr []"
| "fetch_hits db m seen (i # ids) =
     (if i \<in> seen then fetch_hits db m seen ids
      else case find (\<lambda>c. cc_id c = i) (corpus_chunks db) of None \<Rightarrow> Inl CorpusSql
        | Some c \<Rightarrow> (case find (\<lambda>d. cd_id d = cc_document c) (corpus_documents db) of None \<Rightarrow> Inl CorpusSql
            | Some d \<Rightarrow> (case fetch_hits db m (insert i seen) ids of Inl e \<Rightarrow> Inl e
                | Inr hs \<Rightarrow> Inr (\<lparr>ch_chunk = cc_id c, ch_document = cc_document c, ch_title = cd_title d, ch_text = cc_text c,
                    ch_score = score_of m i\<rparr> # hs))))"

section \<open>Diversification\<close>

definition token_jaccard :: "rstr set \<Rightarrow> rstr set \<Rightarrow> b64" where
  "token_jaccard a b =
     (if a = {} \<and> b = {} then b64_zero
      else let i = b64_of_nat (card (a \<inter> b)); u = b64_of_nat (card (a \<union> b)) in
        if b64_partial_cmp u b64_zero = Some Equal then b64_zero else b64_div i u)"

text \<open>\<^verbatim>\<open>0.72_f64\<close> and \<^verbatim>\<open>f64::EPSILON\<close>.\<close>

definition mmr_lambda :: b64 where
  "mmr_lambda = Fin64 False (3242591731706757 * 2 ^ 1022)"

definition f64_epsilon :: b64 where
  "f64_epsilon = Fin64 False (2 ^ 1022)"

fun b64_abs :: "b64 \<Rightarrow> b64" where
  "b64_abs (Fin64 s m) = Fin64 False m"
| "b64_abs (Inf64 s) = Inf64 False"
| "b64_abs NaN64 = NaN64"

definition mmr_score :: "b64 \<Rightarrow> rstr set list \<Rightarrow> nat list \<Rightarrow> nat \<Rightarrow> b64 \<Rightarrow> b64" where
  "mmr_score max_score tokens selected idx s =
     (let relevance = (if b64_gt max_score b64_zero then b64_div s max_score else b64_zero);
          similarity = fold (\<lambda>j acc. b64_max acc (token_jaccard (tokens ! idx) (tokens ! j))) selected b64_zero
      in b64_sub (b64_mul mmr_lambda relevance) (b64_mul (b64_sub b64_one mmr_lambda) similarity))"

definition mmr_step :: "corpus_hit list \<Rightarrow> b64 \<Rightarrow> rstr set list \<Rightarrow> nat list \<Rightarrow> nat \<times> corpus_hit \<Rightarrow> (nat \<times> b64) option \<Rightarrow> (nat \<times> b64) option" where
  "mmr_step hits max_score tokens selected x best =
     (if fst x \<in> set selected then best
      else let s = mmr_score max_score tokens selected (fst x) (ch_score (snd x)) in
        case best of None \<Rightarrow> Some (fst x, s)
        | Some (bi, bs) \<Rightarrow>
            if b64_gt s bs \<or> (b64_gt f64_epsilon (b64_abs (b64_sub s bs)) \<and> b64_gt (ch_score (snd x)) (ch_score (hits ! bi)))
            then Some (fst x, s) else best)"

definition mmr_pick :: "corpus_hit list \<Rightarrow> b64 \<Rightarrow> rstr set list \<Rightarrow> nat list \<Rightarrow> nat option" where
  "mmr_pick hits max_score tokens selected =
     map_option fst (fold (mmr_step hits max_score tokens selected) (enumerate 0 hits) None)"

fun mmr_loop :: "nat \<Rightarrow> corpus_hit list \<Rightarrow> b64 \<Rightarrow> rstr set list \<Rightarrow> nat list \<Rightarrow> nat list" where
  "mmr_loop 0 hits max_score tokens selected = selected"
| "mmr_loop (Suc n) hits max_score tokens selected =
     (case mmr_pick hits max_score tokens selected of None \<Rightarrow> selected
      | Some i \<Rightarrow> mmr_loop n hits max_score tokens (selected @ [i]))"

definition mmr_diversify :: "search_lib \<Rightarrow> corpus_hit list \<Rightarrow> nat \<Rightarrow> corpus_hit list" where
  "mmr_diversify S hits top_k =
     (if length hits \<le> top_k then hits
      else map ((!) hits) (mmr_loop top_k hits (fold (\<lambda>h acc. b64_max acc (ch_score h)) hits b64_zero)
             (map (\<lambda>h. mmr_tokens S (ch_text h)) hits) []))"

definition search_corpus :: "search_lib \<Rightarrow> rstr \<Rightarrow> embedding option \<Rightarrow> nat \<Rightarrow>
    (rstr \<Rightarrow> corpus_hit list \<Rightarrow> corpus_hit list) option \<Rightarrow> corpus_db \<Rightarrow> corpus_error + corpus_hit list" where
  "search_corpus S query emb top_k reranker db =
     (if top_k = 0 then Inr []
      else case lexical_leg S query top_k db of Inl e \<Rightarrow> Inl e
        | Inr lx \<Rightarrow> (case vector_leg S emb top_k db of Inl e \<Rightarrow> Inl e
            | Inr vx \<Rightarrow>
                let (m, order) = add_leg vx (add_leg lx (Map.empty, []));
                    order = remdups_adj (sort_key (\<lambda>i. - the (b64_key (score_of m i))) order)
                in case fetch_hits db m {} order of Inl e \<Rightarrow> Inl e
                   | Inr hits \<Rightarrow> Inr (mmr_diversify S (case reranker of Some r \<Rightarrow> r query hits | None \<Rightarrow> hits) top_k)))"

section \<open>Gold questions and metrics\<close>

definition gold_stopwords :: "rstr list" where
  "gold_stopwords = map lit [''about'', ''after'', ''before'', ''from'', ''into'', ''need'', ''needs'', ''that'', ''the'', ''then'',
     ''this'', ''with'']"

definition gold_candidate_query :: "search_lib \<Rightarrow> rstr \<Rightarrow> rstr \<Rightarrow> int \<Rightarrow> rstr" where
  "gold_candidate_query S title txt chunk =
     (let tokens = take 8 (filter (\<lambda>t. 2 < str_len t \<and> t \<notin> set gold_stopwords) (word_tokens S txt)) in
      if tokens \<noteq> [] then join_with [32] tokens
      else if collapse_ws title \<noteq> [] then collapse_ws title
      else lit ''corpus chunk '' @ show_int chunk)"

record gold_question =
  gq_query :: rstr
  gq_relevant :: "int list"

record gold_candidate =
  gc_query :: rstr
  gc_relevant :: "int list"
  gc_title :: rstr
  gc_uri :: rstr
  gc_preview :: rstr

definition chunk_documents :: "corpus_db \<Rightarrow> (corpus_chunk \<times> corpus_document) list" where
  "chunk_documents db = concat (map (\<lambda>c. map (\<lambda>d. (c, d)) (filter (\<lambda>d. cd_id d = cc_document c) (corpus_documents db))) (corpus_chunks db))"

definition gold_candidates_from_corpus :: "search_lib \<Rightarrow> nat \<Rightarrow> corpus_db \<Rightarrow> gold_candidate list" where
  "gold_candidates_from_corpus S limit db =
     (if limit = 0 then []
      else map (\<lambda>(c, d). \<lparr>gc_query = gold_candidate_query S (cd_title d) (cc_text c) (cc_id c), gc_relevant = [cc_id c],
               gc_title = cd_title d, gc_uri = cd_uri d, gc_preview = take 240 (cc_text c)\<rparr>)
        (sql_limit (as_i64 limit)
          (sort_key (\<lambda>(c, d). - (case cd_published d of Some t \<Rightarrow> t | None \<Rightarrow> cd_created d))
            (sort_key (\<lambda>(c, d). - cd_id d) (sort_key (\<lambda>(c, d). cc_ordinal c) (chunk_documents db))))))"

fun rank_gold_questions :: "search_lib \<Rightarrow> corpus_db \<Rightarrow> gold_question list \<Rightarrow> nat \<Rightarrow> corpus_error + int list list" where
  "rank_gold_questions S db [] limit = Inr []"
| "rank_gold_questions S db (q # qs) limit =
     (case search_corpus S (gq_query q) None limit None db of Inl e \<Rightarrow> Inl e
      | Inr hits \<Rightarrow> (case rank_gold_questions S db qs limit of Inl e \<Rightarrow> Inl e
          | Inr rs \<Rightarrow> Inr (map ch_chunk hits # rs)))"

record eval_report =
  recall_at_5 :: b64
  mrr :: b64
  false_recall_rate :: b64

record eval_state =
  recall_hits :: nat
  reciprocal_sum :: b64
  false_returned :: nat
  returned :: nat

definition first_relevant :: "int list \<Rightarrow> int list \<Rightarrow> nat option" where
  "first_relevant relevant ranked = map_option fst (find (\<lambda>(_, i). i \<in> set relevant) (enumerate 0 ranked))"

definition eval_step :: "gold_question \<times> int list \<Rightarrow> eval_state \<Rightarrow> eval_state" where
  "eval_step x st =
     (let rel = gq_relevant (fst x); ranked = snd x; top5 = take 5 ranked in
      \<lparr>recall_hits = (if list_ex (\<lambda>i. i \<in> set rel) top5 then recall_hits st + 1 else recall_hits st),
       reciprocal_sum = (case first_relevant rel ranked of
           Some r \<Rightarrow> b64_add (reciprocal_sum st) (b64_div b64_one (b64_add (b64_of_nat r) b64_one))
         | None \<Rightarrow> reciprocal_sum st),
       false_returned = false_returned st + length (filter (\<lambda>i. i \<notin> set rel) top5),
       returned = returned st + length top5\<rparr>)"

definition evaluate_rankings :: "gold_question list \<Rightarrow> int list list \<Rightarrow> corpus_error + eval_report" where
  "evaluate_rankings gold rankings =
     (if length gold \<noteq> length rankings then Inl CorpusOther
      else if gold = [] then Inr \<lparr>recall_at_5 = b64_zero, mrr = b64_zero, false_recall_rate = b64_zero\<rparr>
      else let st = fold eval_step (zip gold rankings) \<lparr>recall_hits = 0, reciprocal_sum = b64_zero, false_returned = 0, returned = 0\<rparr> in
        Inr \<lparr>recall_at_5 = b64_div (b64_of_nat (recall_hits st)) (b64_of_nat (length gold)),
             mrr = b64_div (reciprocal_sum st) (b64_of_nat (length gold)),
             false_recall_rate = (if returned st = 0 then b64_zero
               else b64_div (b64_of_nat (false_returned st)) (b64_of_nat (returned st)))\<rparr>)"

record eval_gate_report =
  passed :: bool
  gate_baseline :: eval_report
  gate_candidate :: eval_report
  recall_delta :: b64
  mrr_delta :: b64
  false_recall_delta :: b64
  gate_min_gold :: nat
  gate_gold_count :: nat

definition evaluate_rankings_gate :: "gold_question list \<Rightarrow> int list list \<Rightarrow> int list list \<Rightarrow> nat \<Rightarrow> corpus_error + eval_gate_report" where
  "evaluate_rankings_gate gold base cand min_gold =
     (if length gold < min_gold then Inl CorpusOther
      else case evaluate_rankings gold base of Inl e \<Rightarrow> Inl e
        | Inr b \<Rightarrow> (case evaluate_rankings gold cand of Inl e \<Rightarrow> Inl e
            | Inr c \<Rightarrow>
                let dr = b64_sub (recall_at_5 c) (recall_at_5 b); dm = b64_sub (mrr c) (mrr b);
                    df = b64_sub (false_recall_rate c) (false_recall_rate b)
                in Inr \<lparr>passed = (b64_gt dr b64_zero \<and> b64_gt dm b64_zero \<and> b64_gt b64_zero df), gate_baseline = b, gate_candidate = c,
                     recall_delta = dr, mrr_delta = dm, false_recall_delta = df, gate_min_gold = min_gold, gate_gold_count = length gold\<rparr>))"

record eval_bootstrap =
  eb_candidates :: "gold_candidate list"
  eb_gold :: "gold_question list"
  eb_rankings :: "int list list"
  eb_baseline :: eval_report
  eb_min_gold :: nat
  eb_gold_count :: nat

definition bootstrap_eval_from_corpus :: "search_lib \<Rightarrow> nat \<Rightarrow> nat \<Rightarrow> nat \<Rightarrow> corpus_db \<Rightarrow> corpus_error + eval_bootstrap" where
  "bootstrap_eval_from_corpus S candidate_limit min_gold ranking_limit db =
     (let candidates = gold_candidates_from_corpus S candidate_limit db in
      if length candidates < min_gold then Inl CorpusOther
      else let gold = map (\<lambda>c. \<lparr>gq_query = gc_query c, gq_relevant = gc_relevant c\<rparr>) candidates in
        case rank_gold_questions S db gold ranking_limit of Inl e \<Rightarrow> Inl e
        | Inr rankings \<Rightarrow> (case evaluate_rankings gold rankings of Inl e \<Rightarrow> Inl e
            | Inr r \<Rightarrow> Inr \<lparr>eb_candidates = candidates, eb_gold = gold, eb_rankings = rankings, eb_baseline = r, eb_min_gold = min_gold,
                eb_gold_count = length gold\<rparr>))"

section \<open>Fusion\<close>

text \<open>What SQLite promises: a query gives each row once.\<close>

definition search_lib_ok :: "search_lib \<Rightarrow> bool" where
  "search_lib_ok S \<longleftrightarrow>
     (\<forall>q rows ids. s_match S q rows = Inr ids \<longrightarrow> distinct ids \<and> set ids \<subseteq> fst ` set rows) \<and>
     (\<forall>e rows k ids. s_knn S e rows k = Some ids \<longrightarrow> distinct ids \<and> set ids \<subseteq> fst ` set rows)"

fun rank_from :: "nat \<Rightarrow> int list \<Rightarrow> int \<Rightarrow> nat option" where
  "rank_from n [] i = None"
| "rank_from n (x # xs) i = (if x = i then Some n else rank_from (Suc n) xs i)"

text \<open>The score a chunk should have: the sum of its reciprocal ranks.\<close>

definition fused :: "int list \<Rightarrow> int list \<Rightarrow> int \<Rightarrow> b64" where
  "fused lx vx i =
     (case rank_from 0 lx i of
        Some a \<Rightarrow> (case rank_from 0 vx i of Some b \<Rightarrow> b64_add (rrf_score a) (rrf_score b) | None \<Rightarrow> rrf_score a)
      | None \<Rightarrow> (case rank_from 0 vx i of Some b \<Rightarrow> rrf_score b | None \<Rightarrow> b64_zero))"

lemma rank_from_None: "rank_from n xs i = None \<longleftrightarrow> i \<notin> set xs"
  by (induction xs arbitrary: n) auto

lemma add_leg_from:
  "distinct ids \<Longrightarrow> fold (\<lambda>(rank, i) (m, order). (bump_score rank i m, order @ [i])) (enumerate n ids) (m, order) =
     ((\<lambda>i. case rank_from n ids i of None \<Rightarrow> m i
        | Some r \<Rightarrow> Some (case m i of Some s \<Rightarrow> b64_add s (rrf_score r) | None \<Rightarrow> rrf_score r)), order @ ids)"
proof (induction ids arbitrary: n m order)
  case (Cons x ids)
  have "rank_from (Suc n) ids x = None" using Cons.prems by (simp add: rank_from_None)
  then show ?case using Cons by (auto simp: bump_score_def fun_eq_iff split: option.split)
qed (simp add: fun_eq_iff)

lemma add_legs:
  assumes "distinct lx" "distinct vx"
  shows "\<exists>m. add_leg vx (add_leg lx (Map.empty, [])) = (m, lx @ vx) \<and> (\<forall>i. score_of m i = fused lx vx i)"
  using assms by (auto simp: add_leg_def add_leg_from fused_def split: option.split)

lemma rrf_nonneg: "b64_nonneg (rrf_score r)"
proof -
  have n: "b64_nonneg (b64_of_nat k)" for k by (simp add: b64_of_nat_def b64_round_def Let_def)
  have "b64_nonneg (b64_add (b64_add (b64_of_nat 60) (b64_of_nat r)) b64_one)"
    by (intro b64_add_nonneg n) (simp add: b64_one_def)
  then show ?thesis
    unfolding rrf_score_def b64_one_def
    by (cases "b64_add (b64_add (b64_of_nat 60) (b64_of_nat r)) (Fin64 False b64_unit)") (auto simp: Let_def b64_unit_def)
qed

lemma fused_key: "b64_key (fused lx vx i) \<noteq> None"
proof -
  have "b64_nonneg (fused lx vx i)" by (auto simp: fused_def rrf_nonneg b64_add_nonneg split: option.split)
  then show ?thesis by (cases "fused lx vx i") auto
qed

section \<open>Hits\<close>

definition hit_ok :: "corpus_db \<Rightarrow> (int \<Rightarrow> b64) \<Rightarrow> corpus_hit \<Rightarrow> bool" where
  "hit_ok db score h \<longleftrightarrow> ch_score h = score (ch_chunk h) \<and>
     (\<exists>c \<in> set (corpus_chunks db). \<exists>d \<in> set (corpus_documents db). cc_id c = ch_chunk h \<and> cc_document c = cd_id d \<and>
        ch_document h = cd_id d \<and> ch_title h = cd_title d \<and> ch_text h = cc_text c)"

lemma fetch_hits_ok:
  assumes wf: "corpus_wf L db" and sub: "set ids \<subseteq> cc_id ` set (corpus_chunks db)"
  shows "\<exists>hs. fetch_hits db m seen ids = Inr hs \<and> distinct (map ch_chunk hs) \<and> ch_chunk ` set hs = set ids - seen \<and>
    (\<forall>h \<in> set hs. hit_ok db (score_of m) h) \<and> (sorted (map k ids) \<longrightarrow> sorted (map (\<lambda>h. k (ch_chunk h)) hs))"
  using sub
proof (induction ids arbitrary: seen)
  case (Cons i ids)
  show ?case
  proof (cases "i \<in> seen")
    case True
    have "set ids \<subseteq> cc_id ` set (corpus_chunks db)" using Cons.prems by simp
    from Cons.IH [OF this, of seen] True show ?thesis by auto
  next
    case False
    obtain c where c: "find (\<lambda>c. cc_id c = i) (corpus_chunks db) = Some c" "c \<in> set (corpus_chunks db)" "cc_id c = i"
      using Cons.prems by (cases "find (\<lambda>c. cc_id c = i) (corpus_chunks db)") (auto simp: find_None_iff find_Some_iff)
    have "cc_document c \<in> cd_id ` set (corpus_documents db)" using wf c(2) by (simp add: corpus_wf_def chunks_ok_def)
    then obtain d where d: "find (\<lambda>d. cd_id d = cc_document c) (corpus_documents db) = Some d" "d \<in> set (corpus_documents db)" "cd_id d = cc_document c"
      by (cases "find (\<lambda>d. cd_id d = cc_document c) (corpus_documents db)") (auto simp: find_None_iff find_Some_iff)
    obtain hs where hs: "fetch_hits db m (insert i seen) ids = Inr hs" "distinct (map ch_chunk hs)" "ch_chunk ` set hs = set ids - insert i seen"
        "\<forall>h \<in> set hs. hit_ok db (score_of m) h" "sorted (map k ids) \<longrightarrow> sorted (map (\<lambda>h. k (ch_chunk h)) hs)"
      using Cons.IH [of "insert i seen"] Cons.prems by auto
    let ?h = "\<lparr>ch_chunk = cc_id c, ch_document = cc_document c, ch_title = cd_title d, ch_text = cc_text c, ch_score = score_of m i\<rparr>"
    have r: "fetch_hits db m seen (i # ids) = Inr (?h # hs)" using False c(1) d(1) hs(1) by simp
    have "hit_ok db (score_of m) ?h" unfolding hit_ok_def using c(2,3) d(2,3) by (intro conjI bexI [of _ c] bexI [of _ d]) simp_all
    moreover have "\<forall>h \<in> set hs. ch_chunk h \<in> set ids" using hs(3) by blast
    then have "sorted (map k (i # ids)) \<longrightarrow> sorted (map (\<lambda>h. k (ch_chunk h)) (?h # hs))" using hs(5) c(3) by auto
    moreover have "cc_id c \<notin> ch_chunk ` set hs" using hs(3) c(3) by simp
    moreover have "ch_chunk ` set (?h # hs) = set (i # ids) - seen" using hs(3) c(3) False by auto
    ultimately show ?thesis unfolding r using hs(2,4) by auto
  qed
qed simp

lemma fetch_hits_orphan:
  "j \<in> set ids \<Longrightarrow> j \<notin> seen \<Longrightarrow> j \<notin> cc_id ` set (corpus_chunks db) \<Longrightarrow> fetch_hits db m seen ids = Inl CorpusSql"
proof (induction ids arbitrary: seen)
  case (Cons i ids)
  then show ?case by (cases "i = j") (force simp: find_Some_iff split: option.split)+
qed simp

lemma fold_step_pick:
  fixes xs :: "(nat \<times> corpus_hit) list"
  shows "(case fold (mmr_step hits mx tokens sel) xs b of
     None \<Rightarrow> b = None \<and> fst ` set xs \<subseteq> set sel
   | Some (i, s) \<Rightarrow> i \<in> fst ` set xs - set sel \<or> (\<exists>t. b = Some (i, t)))"
proof (induction xs arbitrary: b)
  case (Cons x xs)
  show ?case
  proof (cases "fst x \<in> set sel")
    case True
    then show ?thesis using Cons [of b] by (auto simp: mmr_step_def split: option.splits)
  next
    case False
    then have "\<exists>i s. mmr_step hits mx tokens sel x b = Some (i, s) \<and> (i = fst x \<or> b = Some (i, s))"
      by (cases b) (auto simp: mmr_step_def Let_def)
    then obtain i s where st: "mmr_step hits mx tokens sel x b = Some (i, s)" "i = fst x \<or> b = Some (i, s)" by blast
    show ?thesis using Cons [of "Some (i, s)"] False st by (auto split: option.splits)
  qed
qed (simp split: option.split)

lemma mmr_pick_cases:
  "mmr_pick hits mx tokens sel = Some i \<Longrightarrow> i < length hits \<and> i \<notin> set sel"
  "mmr_pick hits mx tokens sel = None \<Longrightarrow> {..<length hits} \<subseteq> set sel"
proof -
  have s: "fst ` set (enumerate 0 hits) = {..<length hits}" by (simp add: set_map [symmetric] atLeast0LessThan del: set_map)
  note f = fold_step_pick [where hits = hits and mx = mx and tokens = tokens and sel = sel and xs = "enumerate 0 hits" and b = None]
  show "mmr_pick hits mx tokens sel = Some i \<Longrightarrow> i < length hits \<and> i \<notin> set sel" using f s by (auto simp: mmr_pick_def)
  show "mmr_pick hits mx tokens sel = None \<Longrightarrow> {..<length hits} \<subseteq> set sel" using f s by (auto simp: mmr_pick_def)
qed

lemma mmr_loop_selects:
  assumes "distinct sel" "set sel \<subseteq> {..<length hits}"
  shows "distinct (mmr_loop n hits mx tokens sel) \<and> set (mmr_loop n hits mx tokens sel) \<subseteq> {..<length hits} \<and>
    length (mmr_loop n hits mx tokens sel) = min (length sel + n) (length hits)"
  using assms
proof (induction n arbitrary: sel)
  case 0
  then have "length sel \<le> length hits" using card_mono [of "{..<length hits}" "set sel"] by (simp add: distinct_card)
  then show ?case using 0 by simp
next
  case (Suc n)
  show ?case
  proof (cases "mmr_pick hits mx tokens sel")
    case None
    then have "set sel = {..<length hits}" using mmr_pick_cases(2) Suc.prems(2) by blast
    then have "length sel = length hits" using distinct_card [OF Suc.prems(1)] by simp
    then show ?thesis using None Suc.prems by simp
  next
    case (Some i)
    then have "i < length hits" "i \<notin> set sel" using mmr_pick_cases(1) by blast+
    then have "distinct (sel @ [i])" "set (sel @ [i]) \<subseteq> {..<length hits}" using Suc.prems by auto
    from Suc.IH [OF this] show ?thesis using Some by simp
  qed
qed

lemma mmr_diversify_selects:
  assumes "distinct (map ch_chunk hits)"
  shows "set (mmr_diversify S hits k) \<subseteq> set hits" "length (mmr_diversify S hits k) = min k (length hits)"
    "distinct (map ch_chunk (mmr_diversify S hits k))"
proof -
  define sel where "sel = mmr_loop k hits (fold (\<lambda>h acc. b64_max acc (ch_score h)) hits b64_zero) (map (\<lambda>h. mmr_tokens S (ch_text h)) hits) []"
  have sel: "distinct sel" "set sel \<subseteq> {..<length hits}" "length sel = min k (length hits)"
    using mmr_loop_selects [of "[]" hits k] by (auto simp: sel_def)
  have "inj_on ((!) (map ch_chunk hits)) (set sel)"
  proof (rule inj_onI)
    fix x y assume "x \<in> set sel" "y \<in> set sel" "map ch_chunk hits ! x = map ch_chunk hits ! y"
    then show "x = y" using nth_eq_iff_index_eq [OF assms, of x y] sel(2) by auto
  qed
  then have "distinct (map ((!) (map ch_chunk hits)) sel)" using sel(1) by (simp add: distinct_map)
  moreover have "map ((!) (map ch_chunk hits)) sel = map ch_chunk (map ((!) hits) sel)" using sel(2) by auto
  ultimately have "distinct (map ch_chunk (map ((!) hits) sel))" by simp
  then show "distinct (map ch_chunk (mmr_diversify S hits k))"
    unfolding mmr_diversify_def sel_def [symmetric] using assms by (simp del: map_map)
  show "set (mmr_diversify S hits k) \<subseteq> set hits" using sel(2) by (auto simp: mmr_diversify_def sel_def)
  show "length (mmr_diversify S hits k) = min k (length hits)" using sel(3) by (simp add: mmr_diversify_def sel_def)
qed

lemma sorted_map_remdups_adj: "sorted (map f xs) \<Longrightarrow> sorted (map f (remdups_adj xs))"
  by (induction xs rule: remdups_adj.induct) auto

lemma legs_ok:
  assumes wf: "corpus_wf L db" and vec_ids: "fst ` set (corpus_vec db) \<subseteq> cc_id ` set (corpus_chunks db)" and ok: "search_lib_ok S"
  shows "lexical_leg S query k db = Inr lx \<Longrightarrow> distinct lx \<and> set lx \<subseteq> cc_id ` set (corpus_chunks db)"
    "vector_leg S emb k db = Inr vx \<Longrightarrow> distinct vx \<and> set vx \<subseteq> cc_id ` set (corpus_chunks db)"
proof -
  show "lexical_leg S query k db = Inr lx \<Longrightarrow> distinct lx \<and> set lx \<subseteq> cc_id ` set (corpus_chunks db)"
    using ok set_take_subset [of _ "filter (\<lambda>i. i \<in> cc_id ` set (corpus_chunks db)) ids" for ids]
    by (fastforce simp: lexical_leg_def search_lib_ok_def sql_limit_def split: option.splits sum.splits if_splits dest!: in_set_takeD)
  show "vector_leg S emb k db = Inr vx \<Longrightarrow> distinct vx \<and> set vx \<subseteq> cc_id ` set (corpus_chunks db)"
    using ok vec_ids by (fastforce simp: vector_leg_def search_lib_ok_def split: option.splits if_splits)
qed

lemma search_corpus_found:
  assumes wf: "corpus_wf L db" and vec_ids: "fst ` set (corpus_vec db) \<subseteq> cc_id ` set (corpus_chunks db)" and ok: "search_lib_ok S"
    and lx: "lexical_leg S query k db = Inr lx" and vx: "vector_leg S emb k db = Inr vx" and k: "0 < k"
  shows "\<exists>hits. distinct (map ch_chunk hits) \<and> ch_chunk ` set hits = set lx \<union> set vx \<and> (\<forall>h \<in> set hits. hit_ok db (fused lx vx) h) \<and>
    sorted_wrt (\<lambda>a b. b64_le (ch_score b) (ch_score a)) hits \<and>
    (\<forall>reranker. search_corpus S query emb k reranker db = Inr (mmr_diversify S (case reranker of Some r \<Rightarrow> r query hits | None \<Rightarrow> hits) k))"
proof -
  have l: "distinct lx" "set lx \<subseteq> cc_id ` set (corpus_chunks db)" and v: "distinct vx" "set vx \<subseteq> cc_id ` set (corpus_chunks db)"
    using legs_ok [OF wf vec_ids ok] lx vx by blast+
  obtain m where m: "add_leg vx (add_leg lx (Map.empty, [])) = (m, lx @ vx)" "\<forall>i. score_of m i = fused lx vx i"
    using add_legs [OF l(1) v(1)] by blast
  define key where "key = (\<lambda>i. - the (b64_key (score_of m i)))"
  define order where "order = remdups_adj (sort_key key (lx @ vx))"
  have set_order: "set order = set lx \<union> set vx" by (simp add: order_def)
  have "sorted (map key order)" unfolding order_def by (rule sorted_map_remdups_adj) simp
  then obtain hits where h: "fetch_hits db m {} order = Inr hits" "distinct (map ch_chunk hits)" "ch_chunk ` set hits = set order"
      "\<forall>x \<in> set hits. hit_ok db (score_of m) x" "sorted (map (\<lambda>x. key (ch_chunk x)) hits)"
    using fetch_hits_ok [OF wf, of order m "{}" key] l(2) v(2) set_order by auto
  have r: "search_corpus S query emb k reranker db = Inr (mmr_diversify S (case reranker of Some r \<Rightarrow> r query hits | None \<Rightarrow> hits) k)" for reranker
    using k lx vx m(1) h(1) by (simp add: search_corpus_def key_def order_def)
  have hok: "\<forall>x \<in> set hits. hit_ok db (fused lx vx) x" using h(4) m(2) by (simp add: hit_ok_def)
  have le: "b64_le (fused lx vx j) (fused lx vx i) \<longleftrightarrow> key i \<le> key j" for i j
    using fused_key [of lx vx i] fused_key [of lx vx j] m(2) by (auto simp: b64_le_def key_def)
  have "sorted_wrt (\<lambda>a b. b64_le (ch_score b) (ch_score a)) hits"
    using h(5) hok unfolding sorted_map by (elim sorted_wrt_mono_rel [rotated]) (auto simp: hit_ok_def le)
  then show ?thesis using h(2,3) set_order hok r by blast
qed

lemma mmr_diversify_positions:
  "\<exists>sel. distinct sel \<and> set sel \<subseteq> {..<length hits} \<and> length sel = min k (length hits) \<and> mmr_diversify S hits k = map ((!) hits) sel"
proof (cases "length hits \<le> k")
  case True
  then show ?thesis by (intro exI [of _ "[0..<length hits]"]) (auto simp: mmr_diversify_def map_nth)
next
  case False
  then show ?thesis using mmr_loop_selects [of "[]" hits k] by (auto simp: mmr_diversify_def)
qed

text \<open>C35. When every vector belongs to a chunk, a search answers as follows. Asked for no hits it returns none; an error of the lexical
  or of the vector leg is its error. Otherwise the chunks found by one of the legs are fetched, each once, with text, document,
  title and the sum of its reciprocal ranks, in descending order of that score; the reranker, if there is one, may put any list in
  their place; and the result is that list when it has at most as many hits as asked for, and otherwise exactly so many of its positions.\<close>

theorem search_corpus_exact:
  assumes wf: "corpus_wf L db" and vec_ids: "fst ` set (corpus_vec db) \<subseteq> cc_id ` set (corpus_chunks db)" and ok: "search_lib_ok S"
  shows "if k = 0 then search_corpus S query emb k reranker db = Inr []
    else case lexical_leg S query k db of Inl e \<Rightarrow> search_corpus S query emb k reranker db = Inl e
    | Inr lx \<Rightarrow> (case vector_leg S emb k db of Inl e \<Rightarrow> search_corpus S query emb k reranker db = Inl e
        | Inr vx \<Rightarrow> \<exists>found candidates hits sel. distinct (map ch_chunk found) \<and> ch_chunk ` set found = set lx \<union> set vx \<and>
            (\<forall>h \<in> set found. hit_ok db (fused lx vx) h) \<and> sorted_wrt (\<lambda>a b. b64_le (ch_score b) (ch_score a)) found \<and>
            candidates = (case reranker of None \<Rightarrow> found | Some r \<Rightarrow> r query found) \<and>
            search_corpus S query emb k reranker db = Inr hits \<and>
            distinct sel \<and> set sel \<subseteq> {..<length candidates} \<and> length sel = min k (length candidates) \<and> hits = map ((!) candidates) sel \<and>
            (length candidates \<le> k \<longrightarrow> hits = candidates))"
proof (cases "k = 0")
  case True
  then show ?thesis by (simp add: search_corpus_def)
next
  case k: False
  show ?thesis
  proof (cases "\<exists>lx vx. lexical_leg S query k db = Inr lx \<and> vector_leg S emb k db = Inr vx")
    case False
    then show ?thesis using k by (auto simp: search_corpus_def split: sum.splits)
  next
    case True
    then obtain lx vx where lx: "lexical_leg S query k db = Inr lx" and vx: "vector_leg S emb k db = Inr vx" by blast
    obtain found where f: "distinct (map ch_chunk found)" "ch_chunk ` set found = set lx \<union> set vx" "\<forall>h \<in> set found. hit_ok db (fused lx vx) h"
        "sorted_wrt (\<lambda>a b. b64_le (ch_score b) (ch_score a)) found"
        "\<And>reranker. search_corpus S query emb k reranker db = Inr (mmr_diversify S (case reranker of Some r \<Rightarrow> r query found | None \<Rightarrow> found) k)"
      using search_corpus_found [OF wf vec_ids ok lx vx] k by blast
    define candidates where "candidates = (case reranker of None \<Rightarrow> found | Some r \<Rightarrow> r query found)"
    obtain sel where sel: "distinct sel" "set sel \<subseteq> {..<length candidates}" "length sel = min k (length candidates)"
        "mmr_diversify S candidates k = map ((!) candidates) sel"
      using mmr_diversify_positions by blast
    have "search_corpus S query emb k reranker db = Inr (map ((!) candidates) sel)"
      using f(5) [of reranker] sel(4) by (simp add: candidates_def split: option.splits)
    moreover have "map ((!) candidates) sel = candidates" if "length candidates \<le> k"
      using sel(4) that by (simp add: mmr_diversify_def)
    ultimately show ?thesis unfolding lx vx sum.case if_not_P [OF k] using f(1-4) sel(1-3) candidates_def by blast
  qed
qed

text \<open>One vector that belongs to no chunk, which \<^verbatim>\<open>set_corpus_chunk_embedding\<close> accepts, fails every search that
  finds it.\<close>

lemma orphan_vector_fails_search:
  assumes lex: "lexical_leg S query k db = Inr lx" and vec: "vector_leg S emb k db = Inr vx" and k: "0 < k"
    and j: "j \<in> set vx" "j \<notin> cc_id ` set (corpus_chunks db)"
  shows "search_corpus S query emb k r db = Inl CorpusSql"
proof -
  have o: "snd (add_leg ids st) = snd st @ ids" for ids st
  proof -
    have "snd (fold (\<lambda>(rank, i) (m, order). (bump_score rank i m, order @ [i])) (enumerate n ids) st) = snd st @ ids" for n
      by (induction ids arbitrary: n st) (auto split: prod.split)
    then show ?thesis by (simp add: add_leg_def)
  qed
  obtain m where m: "add_leg vx (add_leg lx (Map.empty, [])) = (m, lx @ vx)"
    using o [of vx "add_leg lx (Map.empty, [])"] o [of lx "(Map.empty, [])"] by (metis append_Nil prod.collapse snd_conv)
  have "fetch_hits db m {} (remdups_adj (sort_key (\<lambda>i. - the (b64_key (score_of m i))) (lx @ vx))) = Inl CorpusSql"
    using j by (intro fetch_hits_orphan [of j]) auto
  then show ?thesis using lex vec k m by (simp add: search_corpus_def)
qed

definition search_plain :: search_lib where
  "search_plain = \<lparr>s_uni = (\<lambda>_. False), s_lower = to_ascii_lowercase, s_match = (\<lambda>q rows. Inr (remdups (map fst rows))),
     s_knn = (\<lambda>e rows k. Some (remdups (map fst rows)))\<rparr>"

lemma search_plain_ok: "search_lib_ok search_plain"
  by (simp add: search_lib_ok_def search_plain_def)

theorem search_corpus_exact_witness:
  "\<exists>db. corpus_wf corpus_plain db \<and>
    (\<exists>hits. search_corpus search_plain (lit ''ab'') None 5 None db = Inr hits \<and> length hits = 1)"
proof -
  let ?q = "\<lparr>nq_kind = Web, nq_source_uri = [], nq_external = [], nq_title = [], nq_text = lit ''a'', nq_published = None\<rparr>"
  obtain i db where p: "put_corpus_document corpus_plain 0 ?q (corpus_migrate True) = Inr (i, db)"
      "map cc_id (corpus_chunks db) = [1]" "chunks_fts db = [(1, lit ''a'')]" "corpus_vec db = []"
    by (auto simp: put_corpus_document_def upsert_source_def insert_document_def chunk_rows_def corpus_migrate_def chunks_with_spans_def
        lit_def trim_def trim_start_def is_whitespace_def split_paragraphs.simps Let_def)
  have ids: "cc_id ` set (corpus_chunks db) = {1}" using arg_cong [OF p(2), of set] by simp
  have q: "fts5_query search_plain (lit ''ab'') \<noteq> None"
    by (simp add: fts5_query_def word_tokens_def search_plain_def split_whitespace_def lit_def is_whitespace_def is_alphanumeric_def
        is_ascii_alphanumeric_def is_ascii_lowercase_def to_ascii_lowercase_def str_len_def utf8_def utf8_char_def ascii_lower_def
        is_ascii_uppercase_def)
  have k: "as_i64 (candidate_k 5) = 15" by (simp add: as_i64_def candidate_k_def)
  have l: "lexical_leg search_plain (lit ''ab'') 5 db = Inr [1]"
    using q ids by (auto simp: lexical_leg_def p(3) k sql_limit_def search_plain_def)
  have w: "corpus_wf corpus_plain db" by (rule put_corpus_wf [OF corpus_migrate_wf p(1)])
  have v: "vector_leg search_plain None 5 db = Inr []" by (simp add: vector_leg_def)
  have vi: "fst ` set (corpus_vec db) \<subseteq> cc_id ` set (corpus_chunks db)" by (simp add: p(4))
  obtain found hits where "distinct (map ch_chunk found)" "ch_chunk ` set found = {1}" "search_corpus search_plain (lit ''ab'') None 5 None db = Inr hits"
      "length found \<le> 5 \<longrightarrow> hits = found"
    using search_corpus_exact [OF w vi search_plain_ok, where k = 5 and query = "lit ''ab''" and emb = None and reranker = None] unfolding l v by auto
  moreover then have "length found = 1" using distinct_card [of "map ch_chunk found"] by simp
  ultimately show ?thesis using w by auto
qed

section \<open>Metrics\<close>

lemma b64_unit_less: "b64_unit < b64_limit"
  unfolding b64_unit_def b64_limit_def by (rule power_strict_increasing) simp_all

lemma b64_unit_pos: "0 < b64_unit"
  by (simp add: b64_unit_def)

lemma b64_div_unit:
  assumes "m \<le> n" "0 < n"
  shows "\<exists>r \<le> b64_unit. b64_div (Fin64 False m) (Fin64 False n) = Fin64 False r"
proof -
  obtain e where e: "b64_unit = 2 ^ e" using b64_unit_def by blast
  define k where "k = bit_len (m * b64_unit div n) - 53"
  have "m * b64_unit div n \<le> n * b64_unit div n" using assms(1) by (intro div_le_mono) simp
  also have "n * b64_unit div n = 2 ^ e" using assms(2) e by simp
  also have "(2::nat) ^ e < 2 ^ Suc e" by simp
  finally have "bit_len (m * b64_unit div n) \<le> Suc e" by (rule bit_len_le)
  then have "k \<le> e" by (simp add: k_def)
  then have u: "b64_unit = 2 ^ (e - k) * 2 ^ k" by (simp add: e flip: power_add)
  have "m * b64_unit \<le> n * b64_unit" using assms(1) by simp
  also have "\<dots> = 2 ^ (e - k) * (n * 2 ^ k)" by (simp add: u)
  finally have "round_even (m * b64_unit) (n * 2 ^ k) \<le> 2 ^ (e - k)" using assms(2) by (intro round_even_le) simp_all
  then have "round_even (m * b64_unit) (n * 2 ^ k) * 2 ^ k \<le> b64_unit" by (simp add: u)
  then show ?thesis using assms(2) b64_unit_less by (auto simp: Let_def simp flip: k_def)
qed

lemma round_mag_pos:
  assumes "0 < n" shows "0 < round_mag 53 n"
proof -
  have "round_mag 53 1 \<le> round_mag 53 n" using assms by (intro round_mag_mono) simp_all
  then show ?thesis using round_mag_exact [of 1 53 0] by simp
qed

lemma b64_of_nat_fin:
  assumes "n < 2 ^ 1000" shows "b64_of_nat n = Fin64 False (round_mag 53 (n * b64_unit))"
proof -
  have "n * b64_unit < 2 ^ (1000 + 1074)" using assms unfolding b64_unit_def power_add by simp
  then have b: "bit_len (n * b64_unit) \<le> 2074" using bit_len_le [of "n * b64_unit" 2074] by simp
  have "round_mag 53 (n * b64_unit) \<le> 2 ^ (53 + (bit_len (n * b64_unit) - 53))" by (rule round_mag_upper)
  also have "(2::nat) ^ (53 + (bit_len (n * b64_unit) - 53)) < b64_limit"
    unfolding b64_limit_def using b by (intro power_strict_increasing) simp_all
  finally show ?thesis by (simp add: b64_of_nat_def b64_round_def Let_def)
qed

lemma round_mag_units: "n < 2 ^ 53 \<Longrightarrow> round_mag 53 (n * b64_unit) = n * b64_unit"
  unfolding b64_unit_def by (rule round_mag_exact)

lemma b64_unit_exact: "round_mag 53 b64_unit = b64_unit"
  using round_mag_units [of 1] by simp

definition in_unit :: "b64 \<Rightarrow> bool" where
  "in_unit x \<longleftrightarrow> (\<exists>r \<le> b64_unit. x = Fin64 False r)"

lemma in_unit_bounds: "in_unit x \<Longrightarrow> b64_le b64_zero x \<and> b64_le x b64_one"
  by (auto simp: in_unit_def b64_le_def b64_one_def signed_def)

lemma ratio_in_unit: "a \<le> b \<Longrightarrow> 0 < b \<Longrightarrow> b < 2 ^ 1000 \<Longrightarrow> in_unit (b64_div (b64_of_nat a) (b64_of_nat b))"
  unfolding in_unit_def
  by (simp only: b64_of_nat_fin [OF le_less_trans] b64_of_nat_fin)
    (intro b64_div_unit round_mag_mono round_mag_pos, simp_all add: b64_unit_pos)

lemma reciprocal_in_unit: "in_unit (b64_div b64_one (b64_add (b64_of_nat r) b64_one))"
proof (cases "b64_of_nat r")
  case (Fin64 t m)
  then have t: "t = False" by (auto simp: b64_of_nat_def b64_round_def Let_def split: if_splits)
  have "b64_unit \<le> round_mag 53 (m + b64_unit)" using round_mag_mono [of b64_unit "m + b64_unit" 53] b64_unit_exact by simp
  moreover then have "0 < round_mag 53 (m + b64_unit)" using b64_unit_pos by (rule less_le_trans [rotated])
  ultimately show ?thesis
    using b64_div_unit [of b64_unit "round_mag 53 (m + b64_unit)"] unfolding Fin64 t b64_one_def b64_add_fin in_unit_def
    by (simp add: b64_round_def Let_def del: b64_div.simps(1))
next
  case (Inf64 t)
  then have "t = False" by (auto simp: b64_of_nat_def b64_round_def Let_def split: if_splits)
  then show ?thesis by (simp add: Inf64 b64_one_def in_unit_def)
qed (auto simp: b64_of_nat_def b64_round_def Let_def split: if_splits)

definition eval_inv :: "nat \<Rightarrow> eval_state \<Rightarrow> bool" where
  "eval_inv n st \<longleftrightarrow> recall_hits st \<le> n \<and> false_returned st \<le> returned st \<and> returned st \<le> 5 * n \<and>
     (\<exists>s \<le> n * b64_unit. reciprocal_sum st = Fin64 False s)"

lemma eval_sum_step:
  assumes "s \<le> n * b64_unit" "in_unit x" "Suc n < 2 ^ 53"
  shows "\<exists>t \<le> Suc n * b64_unit. b64_add (Fin64 False s) x = Fin64 False t"
proof -
  obtain r where r: "x = Fin64 False r" "r \<le> b64_unit" using assms(2) by (auto simp: in_unit_def)
  have "round_mag 53 (s + r) \<le> round_mag 53 (Suc n * b64_unit)" using assms(1) r(2) by (intro round_mag_mono) simp_all
  then have le: "round_mag 53 (s + r) \<le> Suc n * b64_unit" using round_mag_units [OF assms(3)] by simp
  have "Suc n < 2 ^ 1000" by (rule less_trans [OF assms(3)]) (rule power_strict_increasing, simp_all)
  then have "Fin64 False (round_mag 53 (Suc n * b64_unit)) = b64_round False (Suc n * b64_unit)"
    using b64_of_nat_fin [of "Suc n"] by (simp add: b64_of_nat_def)
  then have "Suc n * b64_unit < b64_limit"
    using round_mag_units [OF assms(3)] by (simp add: b64_round_def Let_def split: if_splits)
  then have "b64_add (Fin64 False s) x = Fin64 False (round_mag 53 (s + r))"
    using le unfolding r(1) b64_add_fin by (simp add: b64_round_def Let_def)
  then show ?thesis using le by blast
qed

lemma eval_step_inv: assumes "eval_inv n st" "Suc n < 2 ^ 53" shows "eval_inv (Suc n) (eval_step x st)"
proof -
  obtain s where s: "s \<le> n * b64_unit" "reciprocal_sum st = Fin64 False s" using assms(1) by (auto simp: eval_inv_def)
  have "\<exists>t \<le> Suc n * b64_unit. reciprocal_sum (eval_step x st) = Fin64 False t"
    using eval_sum_step [OF s(1) reciprocal_in_unit assms(2)] s
    by (cases "first_relevant (gq_relevant (fst x)) (snd x)") (auto simp: eval_step_def Let_def intro: trans_le_add2)
  moreover have "recall_hits (eval_step x st) \<le> Suc n" "returned (eval_step x st) \<le> 5 * Suc n"
    using assms(1) by (auto simp: eval_inv_def eval_step_def Let_def)
  moreover have "false_returned (eval_step x st) \<le> returned (eval_step x st)"
    using assms(1) length_filter_le [of _ "take 5 (snd x)"] by (simp add: eval_inv_def eval_step_def Let_def add_mono)
  ultimately show ?thesis by (simp add: eval_inv_def)
qed

lemma eval_fold_inv: "eval_inv n st \<Longrightarrow> n + length xs < 2 ^ 53 \<Longrightarrow> eval_inv (n + length xs) (fold eval_step xs st)"
proof (induction xs arbitrary: n st)
  case (Cons x xs)
  then show ?case using Cons.IH [OF eval_step_inv [OF Cons.prems(1)], of x] by simp
qed simp

lemma evaluate_in_unit:
  assumes r: "evaluate_rankings gold rankings = Inr e" and n: "length gold < 2 ^ 53"
  shows "in_unit (recall_at_5 e) \<and> in_unit (mrr e) \<and> in_unit (false_recall_rate e)"
proof (cases "gold = []")
  case True
  then show ?thesis using r by (auto simp: evaluate_rankings_def in_unit_def split: if_splits)
next
  case False
  define st where "st = fold eval_step (zip gold rankings) \<lparr>recall_hits = 0, reciprocal_sum = b64_zero, false_returned = 0, returned = 0\<rparr>"
  have l: "length gold = length rankings" using r by (simp add: evaluate_rankings_def split: if_splits)
  have e: "e = \<lparr>recall_at_5 = b64_div (b64_of_nat (recall_hits st)) (b64_of_nat (length gold)),
        mrr = b64_div (reciprocal_sum st) (b64_of_nat (length gold)),
        false_recall_rate = (if returned st = 0 then b64_zero else b64_div (b64_of_nat (false_returned st)) (b64_of_nat (returned st)))\<rparr>"
    using r l False unfolding evaluate_rankings_def st_def by (simp only: Let_def if_False not_not sum.inject simp_thms if_True)
  have i: "eval_inv (length gold) st"
    using eval_fold_inv [of 0 "\<lparr>recall_hits = 0, reciprocal_sum = b64_zero, false_returned = 0, returned = 0\<rparr>" "zip gold rankings"] l n
    by (simp add: eval_inv_def st_def)
  have big: "length gold < 2 ^ 1000" "5 * length gold < 2 ^ 1000"
    using n by (auto intro: less_trans [OF _ power_strict_increasing])
  have pos: "0 < length gold" using False by simp
  obtain s where s: "s \<le> length gold * b64_unit" "reciprocal_sum st = Fin64 False s" using i by (auto simp: eval_inv_def)
  have "in_unit (b64_div (reciprocal_sum st) (b64_of_nat (length gold)))"
    unfolding s(2) b64_of_nat_fin [OF big(1)] round_mag_units [OF n] in_unit_def
    using s(1) pos b64_unit_pos by (intro b64_div_unit) simp_all
  moreover have "in_unit (b64_div (b64_of_nat (recall_hits st)) (b64_of_nat (length gold)))"
    using i pos big(1) by (intro ratio_in_unit) (simp_all add: eval_inv_def)
  moreover have "in_unit (b64_div (b64_of_nat (false_returned st)) (b64_of_nat (returned st)))" if "returned st \<noteq> 0"
    using i that big(2) by (intro ratio_in_unit) (simp_all add: eval_inv_def)
  ultimately show ?thesis by (simp add: e in_unit_def)
qed

lemma b64_sub_sign:
  assumes "in_unit x" "in_unit y"
  shows "b64_gt (b64_sub x y) b64_zero \<longleftrightarrow> b64_gt x y" "b64_gt b64_zero (b64_sub x y) \<longleftrightarrow> b64_gt y x"
proof -
  obtain a b where ab: "x = Fin64 False a" "y = Fin64 False b" using assms by (auto simp: in_unit_def)
  have p: "b64_key (b64_round t n) = Some (signed t k) \<Longrightarrow> 0 < n \<Longrightarrow> 0 < k" for t n k
    using round_mag_pos [of n] by (auto simp: b64_round_def signed_def Let_def split: if_splits)
  have "\<exists>k. b64_key (b64_round t n) = Some (signed t k)" for t n by (auto simp: b64_round_def Let_def)
  then obtain k where k: "b64_key (b64_round (a < b) (nat \<bar>int a - int b\<bar>)) = Some (signed (a < b) k)" by blast
  have c: "b64_sub x y = (if a = b then b64_zero else b64_round (a < b) (nat \<bar>int a - int b\<bar>))"
    by (auto simp: ab b64_sub_def signed_def Let_def)
  show "b64_gt (b64_sub x y) b64_zero \<longleftrightarrow> b64_gt x y" "b64_gt b64_zero (b64_sub x y) \<longleftrightarrow> b64_gt y x"
    unfolding c using p [OF k] k by (auto simp: b64_gt_def ab signed_def split: if_splits)
qed

text \<open>C36. The metrics of a ranking lie between 0 and 1, and the gate passes a candidate exactly when there are enough
  gold questions and it finds more of them in the top five, ranks the first relevant chunk higher on average and
  returns a smaller share of irrelevant chunks than the baseline, in spite of the rounding of the differences.\<close>

theorem evaluation_gate_exact:
  assumes "length gold < 2 ^ 53"
  shows "case evaluate_rankings_gate gold base cand min_gold of
      Inl e \<Rightarrow> e = CorpusOther \<and> (length gold < min_gold \<or> length base \<noteq> length gold \<or> length cand \<noteq> length gold)
    | Inr r \<Rightarrow> min_gold \<le> length gold \<and>
        evaluate_rankings gold base = Inr (gate_baseline r) \<and> evaluate_rankings gold cand = Inr (gate_candidate r) \<and>
        (\<forall>e \<in> {gate_baseline r, gate_candidate r}. \<forall>x \<in> {recall_at_5 e, mrr e, false_recall_rate e}.
           b64_le b64_zero x \<and> b64_le x b64_one) \<and>
        (passed r \<longleftrightarrow> b64_gt (recall_at_5 (gate_candidate r)) (recall_at_5 (gate_baseline r)) \<and>
           b64_gt (mrr (gate_candidate r)) (mrr (gate_baseline r)) \<and>
           b64_gt (false_recall_rate (gate_baseline r)) (false_recall_rate (gate_candidate r)))"
proof (cases "evaluate_rankings_gate gold base cand min_gold")
  case (Inl e)
  then show ?thesis
    by (auto simp: evaluate_rankings_gate_def evaluate_rankings_def Let_def split: if_splits sum.splits)
next
  case (Inr r)
  then obtain b c where bc: "min_gold \<le> length gold" "evaluate_rankings gold base = Inr b" "evaluate_rankings gold cand = Inr c"
      "gate_baseline r = b" "gate_candidate r = c"
      "passed r = (b64_gt (b64_sub (recall_at_5 c) (recall_at_5 b)) b64_zero \<and> b64_gt (b64_sub (mrr c) (mrr b)) b64_zero \<and>
         b64_gt b64_zero (b64_sub (false_recall_rate c) (false_recall_rate b)))"
    by (auto simp: evaluate_rankings_gate_def Let_def split: if_splits sum.splits)
  have u: "in_unit (recall_at_5 b) \<and> in_unit (mrr b) \<and> in_unit (false_recall_rate b)"
      "in_unit (recall_at_5 c) \<and> in_unit (mrr c) \<and> in_unit (false_recall_rate c)"
    using evaluate_in_unit [OF _ assms] bc(2,3) by blast+
  show ?thesis using Inr bc u by (simp add: in_unit_bounds b64_sub_sign)
qed

theorem evaluation_gate_exact_witness:
  "case evaluate_rankings_gate [] [] [] 0 of Inl e \<Rightarrow> False | Inr r \<Rightarrow> \<not> passed r"
  using evaluation_gate_exact [where gold = "[]" and base = "[]" and cand = "[]" and min_gold = 0] by (auto simp: b64_gt_def evaluate_rankings_def split: sum.splits option.splits)

end
