(* ===== verification/Float32_Order.thy ===== *)
theory Float32_Order
  imports Float32
begin

text \<open>
  Order and sums of \<^verbatim>\<open>f32\<close> scores: \<^verbatim>\<open>f32::max\<close>, the comparisons, and that adding a number that is not
  negative is monotone and never decreases a score, in spite of rounding.
\<close>

definition f32_max :: "f32 \<Rightarrow> f32 \<Rightarrow> f32" where
  "f32_max x y =
     (case (f32_key x, f32_key y) of (None, _) \<Rightarrow> y | (_, None) \<Rightarrow> x | (Some a, Some b) \<Rightarrow> if a \<le> b then y else x)"

definition f32_gt :: "f32 \<Rightarrow> f32 \<Rightarrow> bool" where
  "f32_gt x y = (case (f32_key x, f32_key y) of (Some a, Some b) \<Rightarrow> b < a | _ \<Rightarrow> False)"

definition f32_le :: "f32 \<Rightarrow> f32 \<Rightarrow> bool" where
  "f32_le x y = (case (f32_key x, f32_key y) of (Some a, Some b) \<Rightarrow> a \<le> b | _ \<Rightarrow> False)"

abbreviation f32_zero :: f32 where
  "f32_zero \<equiv> Fin False 0"

section \<open>Scores\<close>

text \<open>A weight is a finite number that is not negative; a score is such a number or infinity, with 24 significant bits.\<close>

definition is_weight :: "f32 \<Rightarrow> bool" where
  "is_weight x \<longleftrightarrow> (\<exists>m. x = Fin False m)"

definition is_gain :: "f32 \<Rightarrow> bool" where
  "is_gain x \<longleftrightarrow> x = Inf False \<or> (\<exists>m. x = Fin False m)"

definition is_score :: "f32 \<Rightarrow> bool" where
  "is_score x \<longleftrightarrow> x = Inf False \<or> (\<exists>m. x = Fin False m \<and> f32_mag m = m \<and> m < 2 ^ 277)"

lemma is_score_zero [simp]: "is_score f32_zero"
  by (simp add: is_score_def)

lemma mul_gain: "is_weight x \<Longrightarrow> is_weight y \<Longrightarrow> is_gain (f32_mul x y)"
proof -
  have "f32_round False a b = Inf False \<or> (\<exists>m. f32_round False a b = Fin False m)" for a b
    unfolding f32_round_def Let_def by (auto split: if_split)
  then show "is_weight x \<Longrightarrow> is_weight y \<Longrightarrow> is_gain (f32_mul x y)" unfolding is_weight_def is_gain_def by (elim exE) simp
qed

definition f32_fit :: "nat \<Rightarrow> f32" where
  "f32_fit n = f32_round False n 1"

lemma f32_fit_cases: "f32_fit n = (if 2 ^ 277 \<le> f32_mag n then Inf False else Fin False (f32_mag n))"
  unfolding f32_fit_def by (rule f32_round_mag)

lemma f32_fit_score: "is_score (f32_fit n)"
  by (simp add: is_score_def f32_fit_cases round_mag_idem)

lemma f32_add_fin: "f32_add (Fin False m) (Fin False n) = f32_fit (m + n)"
proof (cases "m + n = 0")
  case False
  then have "nat \<bar>signed False m + signed False n\<bar> = m + n" "signed False m + signed False n > 0" by (auto simp: signed_def)
  then show ?thesis unfolding f32_fit_def f32_add.simps(1) Let_def by simp
qed (simp add: f32_fit_cases signed_def)

declare f32_add.simps(1) [simp del]

lemma add_score: "is_score x \<Longrightarrow> is_gain z \<Longrightarrow> is_score (f32_add x z)"
proof -
  assume a: "is_score x" "is_gain z"
  consider "f32_add x z = Inf False" | m n where "x = Fin False m" "z = Fin False n" using a by (auto simp: is_score_def is_gain_def)
  then show ?thesis by cases (simp add: is_score_def, simp add: f32_add_fin f32_fit_score)
qed

lemma f32_fit_mono: "m \<le> n \<Longrightarrow> f32_le (f32_fit m) (f32_fit n)"
  using f32_mag_mono [of m n] by (simp add: f32_fit_cases f32_le_def signed_def)

lemma add_mono_score: "is_score x \<Longrightarrow> is_score y \<Longrightarrow> is_gain z \<Longrightarrow> f32_le x y \<Longrightarrow> f32_le (f32_add x z) (f32_add y z)"
proof -
  assume a: "is_score x" "is_score y" "is_gain z" "f32_le x y"
  have top: "f32_le v (Inf False)" if "is_score v" for v using that by (auto simp: is_score_def f32_le_def signed_def)
  consider "y = Inf False" | "z = Inf False" | m n k where "x = Fin False m" "y = Fin False n" "z = Fin False k" "m \<le> n"
    using a by (auto simp: is_score_def is_gain_def f32_le_def signed_def)
  then show ?thesis
  proof cases
    case 1
    then have "f32_add y z = Inf False" using a(3) by (auto simp: is_gain_def)
    then show ?thesis using top [OF add_score [OF a(1,3)]] by simp
  next
    case 2
    then have "f32_add y z = Inf False" using a(2) by (auto simp: is_score_def)
    then show ?thesis using top [OF add_score [OF a(1,3)]] by simp
  next
    case 3
    then show ?thesis by (simp add: f32_add_fin f32_fit_mono)
  qed
qed

lemma add_increases_score: "is_score x \<Longrightarrow> is_gain z \<Longrightarrow> f32_le x (f32_add x z)"
proof -
  assume a: "is_score x" "is_gain z"
  consider "x = Inf False" | "x \<noteq> Inf False" "z = Inf False" | m k where "x = Fin False m" "f32_mag m = m" "m < 2 ^ 277" "z = Fin False k"
    using a by (auto simp: is_score_def is_gain_def)
  then show ?thesis
  proof cases
    case 3
    have "f32_fit m = x" using 3 by (simp add: f32_fit_cases)
    then show ?thesis using f32_fit_mono [of m "m + k"] 3 by (simp add: f32_add_fin)
  qed (use a in \<open>auto simp: is_gain_def is_score_def f32_le_def signed_def\<close>)
qed

lemma score_le_trans: "f32_le x y \<Longrightarrow> f32_le y z \<Longrightarrow> f32_le x z"
  by (auto simp: f32_le_def split: option.splits)

end
