(* ===== verification/Splade.thy ===== *)
theory Splade
  imports Float32_Order Rust_Text "HOL-Library.Multiset"
begin

text \<open>
  The sparse retrieval of \<^verbatim>\<open>crates/synapse-splade\<close>: the stand-in encoder, the SQLite inverted index and the in-memory
  block-max index. A sparse vector, a hash map from terms to weights, is the list of its entries in the order in which the
  map iterates, with distinct terms. The order in which a score map iterates is the argument \<open>iter\<close>, any arrangement of its keys:
  every hash map has its own, and since the entries are then sorted by score it also stands for the order in which a stable or an
  unstable sort leaves equal scores. The order in which the unstable sort leaves query terms of equal bounds is the argument \<open>perm\<close>. The
  logarithm is an argument. \<^verbatim>\<open>BinaryHeap\<close> is the sorted list of its entries; an entry keeps the score beside
  its bits. Document ids are stored in SQLite as signed and read back as unsigned integers of the same bits.
\<close>

type_synonym sparse_vec = "(u32 \<times> f32) list"
type_synonym posting = "u64 \<times> f32"

text \<open>\<^verbatim>\<open>f32::to_bits\<close>.\<close>

fun f32_to_bits :: "f32 \<Rightarrow> nat" where
  "f32_to_bits (Fin s m) = (if s then 2 ^ 31 else 0) + (bit_len m - 24) * 2 ^ 23 + m div 2 ^ (bit_len m - 24)"
| "f32_to_bits (Inf s) = (if s then 2 ^ 31 else 0) + 255 * 2 ^ 23"
| "f32_to_bits NaN = 2143289344"

section \<open>Encoder\<close>

definition VOCAB_SIZE :: u64 where
  "VOCAB_SIZE = 30522"

definition TOP_K :: nat where
  "TOP_K = 64"

definition text_seed :: "rstr \<Rightarrow> u64" where
  "text_seed txt = fold (\<lambda>b acc. acc * 6364136223846793005 + (ucast b + 1442695040888963407)) (utf8 txt) 0xcafebabedeadbeef"

definition word_seed :: "u64 \<Rightarrow> rstr \<Rightarrow> u64" where
  "word_seed seed w = fold (\<lambda>b acc. acc * 2862933555777941757 + (ucast b + 1)) (utf8 w) seed"

definition put_max :: "u32 \<Rightarrow> f32 \<Rightarrow> sparse_vec \<Rightarrow> sparse_vec" where
  "put_max t w m = (case map_of m t of None \<Rightarrow> m @ [(t, f32_max f32_zero w)]
     | Some v \<Rightarrow> map (\<lambda>(u, x). if u = t then (u, f32_max x w) else (u, x)) m)"

definition expand_token :: "(f32 \<Rightarrow> f32) \<Rightarrow> f32 \<Rightarrow> nat \<Rightarrow> u64 \<Rightarrow> sparse_vec \<Rightarrow> sparse_vec" where
  "expand_token ln_f scale top_k sj m =
     (if top_k \<le> length m then m
      else let s = sj * 6364136223846793005 + 1442695040888963407;
               tok = ucast (s mod VOCAB_SIZE);
               w_raw = f32_div (f32_of_nat (unat (drop_bit 32 s) mod 2 ^ 32)) (f32_of_nat (2 ^ 32 - 1));
               w = f32_mul (ln_f (f32_add (f32_of_nat 1) w_raw)) scale
           in put_max tok w m)"

definition dummy_sparse :: "(f32 \<Rightarrow> f32) \<Rightarrow> rstr \<Rightarrow> nat \<Rightarrow> f32 \<Rightarrow> sparse_vec" where
  "dummy_sparse ln_f txt top_k scale =
     (let seed = text_seed txt;
          seeds = concat (map (\<lambda>w. map (\<lambda>j. word_seed seed w + of_nat j * 0x9e3779b97f4a7c15) [0..<4]) (split_whitespace txt));
          m = fold (expand_token ln_f scale top_k) seeds []
      in if m = [] then [(ucast seed mod ucast VOCAB_SIZE, f32_mul scale (Fin False (2 ^ 148)))] else m)"

definition encode :: "(f32 \<Rightarrow> f32) \<Rightarrow> f32 \<Rightarrow> rstr \<Rightarrow> sparse_vec" where
  "encode ln_f weight_scale txt = dummy_sparse ln_f txt TOP_K weight_scale"

section \<open>SQLite index\<close>

record posting_row =
  po_term :: u32
  po_doc :: u64
  po_weight :: f32

text \<open>A NaN is stored as NULL, which the column refuses; the transaction is rolled back.\<close>

definition splade_add_doc :: "u64 \<Rightarrow> sparse_vec \<Rightarrow> posting_row list \<Rightarrow> posting_row list option" where
  "splade_add_doc d sparse rows =
     (if list_ex (\<lambda>(t, w). w = NaN) sparse then None
      else Some (filter (\<lambda>r. po_doc r \<noteq> d) rows @ map (\<lambda>(t, w). \<lparr>po_term = t, po_doc = d, po_weight = w\<rparr>) sparse))"

abbreviation score_map :: "(u64 \<rightharpoonup> f32) \<Rightarrow> u64 \<Rightarrow> f32" where
  "score_map m d \<equiv> (case m d of Some s \<Rightarrow> s | None \<Rightarrow> f32_zero)"

definition add_posting :: "f32 \<Rightarrow> posting \<Rightarrow> (u64 \<rightharpoonup> f32) \<Rightarrow> (u64 \<rightharpoonup> f32)" where
  "add_posting qw p m = m(fst p \<mapsto> f32_add (score_map m (fst p)) (f32_mul qw (snd p)))"

definition term_postings :: "posting_row list \<Rightarrow> u32 \<Rightarrow> posting list" where
  "term_postings rows t = map (\<lambda>r. (po_doc r, po_weight r)) (filter (\<lambda>r. po_term r = t) rows)"

definition splade_scores :: "posting_row list \<Rightarrow> sparse_vec \<Rightarrow> (u64 \<rightharpoonup> f32)" where
  "splade_scores rows query = fold (\<lambda>(t, qw) m. fold (add_posting qw) (term_postings rows t) m) query Map.empty"

text \<open>The scores in descending order, without those beyond the limit. The entries of the map come as \<open>iter\<close> gives them.\<close>

definition ranked :: "((u64 \<rightharpoonup> f32) \<Rightarrow> u64 list) \<Rightarrow> nat \<Rightarrow> (u64 \<rightharpoonup> f32) \<Rightarrow> posting list" where
  "ranked iter k m = take k (sort_key (\<lambda>p. - the (f32_key (snd p))) (map (\<lambda>d. (d, score_map m d)) (iter m)))"

text \<open>\<^verbatim>\<open>partial_cmp(..).unwrap()\<close> panics on a NaN: None.\<close>

definition splade_search :: "((u64 \<rightharpoonup> f32) \<Rightarrow> u64 list) \<Rightarrow> sparse_vec \<Rightarrow> nat \<Rightarrow> posting_row list \<Rightarrow> posting list option" where
  "splade_search iter query top_k rows =
     (if query = [] \<or> top_k = 0 then Some []
      else let m = splade_scores rows query in
        if 1 < length (iter m) \<and> list_ex (\<lambda>d. m d = Some NaN) (iter m) then None else Some (ranked iter top_k m))"

definition splade_doc_count :: "posting_row list \<Rightarrow> nat" where
  "splade_doc_count rows = card (po_doc ` set rows)"

section \<open>Block-max index\<close>

record block =
  bl_max :: f32
  bl_postings :: "posting list"

definition from_postings :: "posting list \<Rightarrow> block" where
  "from_postings ps = (let ps' = sort_key fst ps in
     \<lparr>bl_max = fold (\<lambda>p acc. f32_max acc (snd p)) ps' f32_zero, bl_postings = ps'\<rparr>)"

record bmp_index =
  bm_terms :: "u32 \<rightharpoonup> block list"
  bm_pending :: "u32 \<rightharpoonup> posting list"
  bm_block_size :: nat
  bm_doc_count :: u64

abbreviation entry :: "('a \<rightharpoonup> 'b list) \<Rightarrow> 'a \<Rightarrow> 'b list" where
  "entry m t \<equiv> (case m t of Some xs \<Rightarrow> xs | None \<Rightarrow> [])"

definition bmp_new :: "nat \<Rightarrow> bmp_index option" where
  "bmp_new block_size = (if 0 < block_size
     then Some \<lparr>bm_terms = Map.empty, bm_pending = Map.empty, bm_block_size = block_size, bm_doc_count = 0\<rparr> else None)"

definition add_term :: "u64 \<Rightarrow> u32 \<times> f32 \<Rightarrow> bmp_index \<Rightarrow> bmp_index" where
  "add_term d tw x =
     (let t = fst tw; buf = entry (bm_pending x) t @ [(d, snd tw)] in
      if bm_block_size x \<le> length buf
      then x\<lparr>bm_pending := (bm_pending x)(t \<mapsto> []), bm_terms := (bm_terms x)(t \<mapsto> entry (bm_terms x) t @ [from_postings buf])\<rparr>
      else x\<lparr>bm_pending := (bm_pending x)(t \<mapsto> buf)\<rparr>)"

definition bmp_add_doc :: "u64 \<Rightarrow> sparse_vec \<Rightarrow> bmp_index \<Rightarrow> bmp_index" where
  "bmp_add_doc d sparse x = fold (add_term d) sparse (x\<lparr>bm_doc_count := bm_doc_count x + 1\<rparr>)"

definition bmp_flush :: "bmp_index \<Rightarrow> bmp_index" where
  "bmp_flush x = x\<lparr>bm_pending := Map.empty,
     bm_terms := (\<lambda>t. if entry (bm_pending x) t = [] then bm_terms x t
        else Some (entry (bm_terms x) t @ [from_postings (entry (bm_pending x) t)]))\<rparr>"

definition query_terms :: "((u32 \<times> f32 \<times> f32) list \<Rightarrow> (u32 \<times> f32 \<times> f32) list) \<Rightarrow> bmp_index \<Rightarrow> sparse_vec \<Rightarrow> (u32 \<times> f32 \<times> f32) list" where
  "query_terms perm x query =
     sort_key (\<lambda>(t, qw, ub). - the (f32_key ub))
       (perm (List.map_filter (\<lambda>(t, qw). map_option (\<lambda>bs. (t, qw, f32_mul qw (fold (\<lambda>b acc. f32_max acc (bl_max b)) bs f32_zero))) (bm_terms x t)) query))"

definition suffix_max :: "(u32 \<times> f32 \<times> f32) list \<Rightarrow> f32" where
  "suffix_max ts = foldr (\<lambda>(t, qw, ub) acc. f32_add acc ub) ts f32_zero"

type_synonym heap_entry = "f32 \<times> u64"

definition heap_key :: "heap_entry \<Rightarrow> nat \<times> u64" where
  "heap_key e = (f32_to_bits (fst e), snd e)"

text \<open>The entry is inserted before the larger ones; the minimum is the head.\<close>

fun heap_push :: "heap_entry \<Rightarrow> heap_entry list \<Rightarrow> heap_entry list" where
  "heap_push e [] = [e]"
| "heap_push e (x # xs) =
     (if fst (heap_key e) < fst (heap_key x) \<or> fst (heap_key e) = fst (heap_key x) \<and> snd (heap_key e) \<le> snd (heap_key x)
      then e # x # xs else x # heap_push e xs)"

definition heap_min :: "heap_entry list \<Rightarrow> f32" where
  "heap_min h = (case h of [] \<Rightarrow> f32_zero | e # _ \<Rightarrow> fst e)"

definition offer :: "nat \<Rightarrow> f32 \<Rightarrow> u64 \<Rightarrow> heap_entry list \<Rightarrow> heap_entry list" where
  "offer k s d h =
     (if length h < k then heap_push (s, d) h
      else if f32_gt s (heap_min h) then (let h' = heap_push (s, d) h in drop (length h' - k * 4) h')
      else h)"

type_synonym bmp_state = "(u64 \<rightharpoonup> f32) \<times> heap_entry list"

definition score_posting :: "nat \<Rightarrow> f32 \<Rightarrow> posting \<Rightarrow> bmp_state \<Rightarrow> bmp_state" where
  "score_posting k qw p st =
     (let m = add_posting qw p (fst st) in (m, offer k (score_map m (fst p)) (fst p) (snd st)))"

definition score_block :: "nat \<Rightarrow> f32 \<Rightarrow> f32 \<Rightarrow> block \<Rightarrow> bmp_state \<Rightarrow> bmp_state" where
  "score_block k qw remaining b st =
     (if k \<le> length (snd st) \<and> f32_le (f32_add (f32_mul qw (bl_max b)) remaining) (heap_min (snd st)) then st
      else fold (score_posting k qw) (bl_postings b) st)"

fun score_terms :: "nat \<Rightarrow> bmp_index \<Rightarrow> (u32 \<times> f32 \<times> f32) list \<Rightarrow> bmp_state \<Rightarrow> bmp_state" where
  "score_terms k x [] st = st"
| "score_terms k x ((t, qw, ub) # ts) st =
     score_terms k x ts (fold (score_block k qw (suffix_max ts)) (entry (bm_terms x) t) st)"

definition search_topk :: "((u32 \<times> f32 \<times> f32) list \<Rightarrow> (u32 \<times> f32 \<times> f32) list) \<Rightarrow> ((u64 \<rightharpoonup> f32) \<Rightarrow> u64 list) \<Rightarrow> sparse_vec \<Rightarrow> nat \<Rightarrow> bmp_index \<Rightarrow> posting list" where
  "search_topk perm iter query k x =
     (if query = [] \<or> k = 0 then []
      else ranked iter k (fst (score_terms k x (query_terms perm x query) (Map.empty, []))))"

section \<open>Accumulation\<close>



text \<open>The postings of a term in the order of the documents, and the scores they give.\<close>

definition postings_of :: "(u64 \<times> sparse_vec) list \<Rightarrow> u32 \<Rightarrow> posting list" where
  "postings_of ds t = List.map_filter (\<lambda>(d, v). map_option (\<lambda>w. (d, w)) (map_of v t)) ds"




lemma postings_of_append: "postings_of (ds @ es) t = postings_of ds t @ postings_of es t"
  by (simp add: postings_of_def List.map_filter_def)


section \<open>The indexes hold the documents\<close>

definition docs_ok :: "(u64 \<times> sparse_vec) list \<Rightarrow> bool" where
  "docs_ok ds \<longleftrightarrow> distinct (map fst ds) \<and> (\<forall>(d, v) \<in> set ds. distinct (map fst v) \<and> (\<forall>(t, w) \<in> set v. is_weight w))"

definition splade_build :: "(u64 \<times> sparse_vec) list \<Rightarrow> posting_row list option" where
  "splade_build ds = fold (\<lambda>(d, v) r. Option.bind r (splade_add_doc d v)) ds (Some [])"

definition bmp_docs :: "(u64 \<times> sparse_vec) list \<Rightarrow> bmp_index \<Rightarrow> bmp_index" where
  "bmp_docs ds x = fold (\<lambda>(d, v). bmp_add_doc d v) ds x"

definition bmp_build :: "nat \<Rightarrow> (u64 \<times> sparse_vec) list \<Rightarrow> bmp_index option" where
  "bmp_build n ds = map_option (\<lambda>x. bmp_flush (bmp_docs ds x)) (bmp_new n)"

lemma term_postings_vector:
  "distinct (map fst v) \<Longrightarrow> term_postings (map (\<lambda>(t, w). \<lparr>po_term = t, po_doc = d, po_weight = w\<rparr>) v) t = postings_of [(d, v)] t"
proof (induction v)
  case (Cons x v)
  obtain u w where x: "x = (u, w)" by (cases x)
  have "term_postings (map (\<lambda>(t, w). \<lparr>po_term = t, po_doc = d, po_weight = w\<rparr>) v) t = postings_of [(d, v)] t" using Cons by simp
  moreover have "map_of v u = None" using Cons.prems x by (simp add: map_of_eq_None_iff)
  ultimately show ?case by (auto simp: x term_postings_def postings_of_def map_filter_simps split: option.splits)
qed (simp add: term_postings_def postings_of_def map_filter_simps)

lemma splade_build_rows:
  "docs_ok ds \<Longrightarrow> \<exists>rows. splade_build ds = Some rows \<and> po_doc ` set rows \<subseteq> fst ` set ds \<and> (\<forall>t. term_postings rows t = postings_of ds t)"
proof (induction ds rule: rev_induct)
  case (snoc x ds)
  obtain d v where x: "x = (d, v)" by (cases x)
  have "docs_ok ds" using snoc.prems by (auto simp: docs_ok_def)
  then obtain rows where r: "splade_build ds = Some rows" "po_doc ` set rows \<subseteq> fst ` set ds" "\<forall>t. term_postings rows t = postings_of ds t"
    using snoc.IH by blast
  have v: "distinct (map fst v)" "\<forall>(t, w) \<in> set v. w \<noteq> NaN" "d \<notin> fst ` set ds"
    using snoc.prems by (auto simp: docs_ok_def x is_weight_def)
  then have "filter (\<lambda>r. po_doc r \<noteq> d) rows = rows" using r(2) by (auto simp: filter_id_conv)
  moreover have "\<not> list_ex (\<lambda>(t, w). w = NaN) v" using v(2) by (auto simp: list_ex_iff)
  ultimately have "splade_build (ds @ [x]) = Some (rows @ map (\<lambda>(t, w). \<lparr>po_term = t, po_doc = d, po_weight = w\<rparr>) v)"
    using r(1) by (simp add: splade_build_def x splade_add_doc_def)
  moreover have "term_postings (rows @ xs) t = term_postings rows t @ term_postings xs t" for xs t by (simp add: term_postings_def)
  ultimately show ?case using r(2,3) term_postings_vector [OF v(1)] by (auto simp: postings_of_append x)
qed (simp add: splade_build_def term_postings_def postings_of_def map_filter_simps)







section \<open>Pruning\<close>












section \<open>Search\<close>














definition iter_list :: "(u64 \<rightharpoonup> f32) \<Rightarrow> u64 list" where
  "iter_list m = (if finite (dom m) then sorted_list_of_set (dom m) else [])"


definition small_docs :: "(u64 \<times> sparse_vec) list" where
  "small_docs = [(1, [(1, Fin False 5), (2, Fin False 2)]), (2, [(1, Fin False 6)])]"

definition small_query :: sparse_vec where
  "small_query = [(1, Fin False f32_unit), (2, Fin False f32_unit)]"

lemma small_docs_ok: "docs_ok small_docs"
  by (simp add: docs_ok_def small_docs_def is_weight_def)




text \<open>The bound of a block leaves out what its documents have already collected. Document 1 has the weights 5 and 2, document 2
  the weight 6: of the two the first has the larger sum, but for one result the block of the second term is
  skipped and document 2 is returned.\<close>

lemma small_round: "n < 2 ^ 24 \<Longrightarrow> f32_round s (n * f32_unit) f32_unit = Fin s n" "n < 2 ^ 24 \<Longrightarrow> f32_round s n 1 = Fin s n"
proof -
  assume n: "n < 2 ^ 24"
  have u: "0 < f32_unit" by (simp add: f32_unit_def)
  have b: "bit_len n - 24 = 0" using bit_len_le [OF n] by simp
  have l: "\<not> 2 ^ 277 \<le> n" using n by (simp add: less_trans)
  show "f32_round s (n * f32_unit) f32_unit = Fin s n" using u b l round_even_exact [OF u, of n] by (simp add: f32_round_def)
  show "f32_round s n 1 = Fin s n" using b l round_even_exact [of 1 n] by (simp add: f32_round_def)
qed

lemma small_add: "m + n < 2 ^ 24 \<Longrightarrow> f32_add (Fin False m) (Fin False n) = Fin False (m + n)"
  unfolding f32_add_fin f32_fit_def by (rule small_round(2))

lemma small_mul: "n < 2 ^ 24 \<Longrightarrow> f32_mul (Fin False f32_unit) (Fin False n) = Fin False n"
  using small_round(1) [of n False] by (simp add: mult.commute)

lemma iter_two: "dom m = {1, 2} \<Longrightarrow> iter_list m = [1, 2 :: u64]"
proof -
  assume d: "dom m = {1, 2}"
  have "sorted_list_of_set {1, 2 :: u64} = [1, 2]" by (rule sorted_distinct_set_unique) simp_all
  then show ?thesis by (simp add: iter_list_def d)
qed

lemma small_bmp:
  "\<exists>x. bmp_build 128 small_docs = Some x \<and> bm_terms x 1 = Some [\<lparr>bl_max = Fin False 6, bl_postings = [(1, Fin False 5), (2, Fin False 6)]\<rparr>] \<and>
     bm_terms x 2 = Some [\<lparr>bl_max = Fin False 2, bl_postings = [(1, Fin False 2)]\<rparr>]"
  by (simp add: bmp_build_def bmp_new_def small_docs_def bmp_docs_def bmp_add_doc_def add_term_def bmp_flush_def from_postings_def Let_def
      f32_max_def signed_def)

lemma block_max_misses_best:
  "\<exists>x rows. bmp_build 128 small_docs = Some x \<and> splade_build small_docs = Some rows \<and>
     search_topk id iter_list small_query 1 x = [(2, Fin False 6)] \<and> splade_search iter_list small_query 1 rows = Some [(1, Fin False 7)]"
proof -
  obtain x where x: "bmp_build 128 small_docs = Some x" "bm_terms x 1 = Some [\<lparr>bl_max = Fin False 6, bl_postings = [(1, Fin False 5), (2, Fin False 6)]\<rparr>]"
      "bm_terms x 2 = Some [\<lparr>bl_max = Fin False 2, bl_postings = [(1, Fin False 2)]\<rparr>]" using small_bmp by blast
  obtain rows where r: "splade_build small_docs = Some rows" "\<forall>t. term_postings rows t = postings_of small_docs t"
    using splade_build_rows [OF small_docs_ok] by blast
  have t: "query_terms id x small_query = [(1, Fin False f32_unit, Fin False 6), (2, Fin False f32_unit, Fin False 2)]"
    by (simp add: query_terms_def small_query_def map_filter_simps x(2,3) f32_max_def signed_def small_mul del: f32_mul.simps)
  have "fst (score_terms 1 x (query_terms id x small_query) (Map.empty, [])) = [1 \<mapsto> Fin False 5, 2 \<mapsto> Fin False 6]"
    unfolding t
    by (simp add: x(2,3) score_block_def score_posting_def add_posting_def offer_def heap_min_def heap_key_def f32_gt_def f32_le_def signed_def
        small_mul small_add suffix_max_def Let_def bit_len.simps del: f32_mul.simps)
  moreover have "ranked iter_list 1 [1 \<mapsto> Fin False 5, 2 \<mapsto> Fin False 6] = [(2, Fin False 6)]"
    by (simp add: ranked_def iter_two insert_commute signed_def)
  ultimately have s: "search_topk id iter_list small_query 1 x = [(2, Fin False 6)]" by (simp add: search_topk_def small_query_def)
  have "splade_scores rows small_query = [1 \<mapsto> Fin False 7, 2 \<mapsto> Fin False 6]"
    unfolding splade_scores_def r(2) [rule_format]
    by (simp add: small_query_def postings_of_def small_docs_def map_filter_simps add_posting_def small_mul small_add fun_eq_iff del: f32_mul.simps)
  moreover have "ranked iter_list 1 [1 \<mapsto> Fin False 7, 2 \<mapsto> Fin False 6] = [(1, Fin False 7)]"
    by (simp add: ranked_def iter_two insert_commute signed_def)
  ultimately have "splade_search iter_list small_query 1 rows = Some [(1, Fin False 7)]"
    by (simp add: splade_search_def small_query_def iter_two insert_commute)
  then show ?thesis using x(1) r(1) s by blast
qed

text \<open>The seeds of a word in two texts are equal only if the texts have the same seed: the stand-in encoder gives the same word other
  terms in every text.\<close>

lemma word_seed_inj: "word_seed s w = word_seed s' w \<longleftrightarrow> s = s'"
proof -
  have inv: "(2862933555777941757 :: u64) * 16133697096952638549 = 1" by simp
  have one: "a * 2862933555777941757 + c = b * 2862933555777941757 + c \<longleftrightarrow> a = b" for a b c :: u64
  proof
    assume "a * 2862933555777941757 + c = b * 2862933555777941757 + c"
    then have "a * (2862933555777941757 * 16133697096952638549) = b * (2862933555777941757 * 16133697096952638549)"
      by (simp only: add_right_cancel mult.assoc [symmetric])
    then show "a = b" unfolding inv by simp
  qed simp
  have "fold (\<lambda>b acc. acc * 2862933555777941757 + (ucast b + 1)) bs s = fold (\<lambda>b acc. acc * 2862933555777941757 + (ucast b + 1)) bs s' \<longleftrightarrow> s = s'"
    for bs :: bytes and s s' :: u64
    by (induction bs arbitrary: s s') (simp_all only: fold_simps one id_apply)
  then show ?thesis by (simp only: word_seed_def)
qed

end
