(* ===== verification/Vector_Search.thy ===== *)
theory Vector_Search
  imports Doc_Store Edge_Graph Float32_Order
begin

text \<open>
  Vector and hybrid search of the store, \<^verbatim>\<open>crates/synapse-core/src/db.rs\<close>: the fusion of two hit lists, the search in
  the vector cache with its fall-backs, the filtered searches and the automatic edges between similar documents. The
  arguments \<open>vec_lib\<close> are the kernels: the exact and the cascaded search of the cache and the
  nearest rows of the vector table with their distances. \<open>perm\<close> is what the unstable sorts do to equal
  keys: they sort some permutation of the list. Scores are computed as on targets without NEON.
\<close>

section \<open>Fusion\<close>

fun f32_to_b64 :: "f32 \<Rightarrow> b64" where
  "f32_to_b64 (Float32.Fin s m) = Fin64 s (m * 2 ^ 925)"
| "f32_to_b64 (Inf s) = Inf64 s"
| "f32_to_b64 Float32.NaN = NaN64"

definition rrf32 :: "nat \<Rightarrow> f32" where
  "rrf32 i = f32_div (f32_of_nat 1) (f32_add (f32_of_nat 60) (f32_of_nat (i + 1)))"

text \<open>An id with its score, the index of the hit and the list it is in; the second list is marked True.\<close>

type_synonym rrf_pair = "int \<times> f32 \<times> nat \<times> bool"

definition rrf_pairs :: "bool \<Rightarrow> ('j, 'c) hit list \<Rightarrow> rrf_pair list" where
  "rrf_pairs tag hs = map (\<lambda>(i, h). (h_id h, rrf32 i, i, tag)) (enumerate 0 hs)"

function merge_runs :: "rrf_pair list \<Rightarrow> rrf_pair list" where
  "merge_runs [] = []"
| "merge_runs (p # ps) =
     (fst p, fold (\<lambda>q s. f32_add s (fst (snd q))) (takeWhile (\<lambda>q. fst q = fst p) ps) (fst (snd p)), snd (snd p))
       # merge_runs (dropWhile (\<lambda>q. fst q = fst p) ps)"
  by pat_completeness auto
termination
  by (relation "measure length") (auto simp: le_imp_less_Suc length_dropWhile_le)

text \<open>None is the panic of \<^verbatim>\<open>select_nth_unstable_by\<close> at index \<open>k - 1\<close> for a limit of 0. A slot is taken once.\<close>

definition rrf_merge_neon :: "(rrf_pair list \<Rightarrow> rrf_pair list) \<Rightarrow> ('j, b64) hit list \<Rightarrow> ('j, b64) hit list \<Rightarrow> nat \<Rightarrow> ('j, b64) hit list option" where
  "rrf_merge_neon perm lx vx limit =
     (if lx = [] \<and> vx = [] then Some []
      else let merged = merge_runs (sort_key fst (perm (rrf_pairs False lx @ rrf_pairs True vx)));
               k = min limit (length merged)
           in if k < length merged \<and> k = 0 then None
              else Some (map (\<lambda>(_, s, i, t). (if t then vx ! i else lx ! i)\<lparr>h_score := f32_to_b64 s\<rparr>)
                     (take k (sort_key (\<lambda>p. - the (f32_key (fst (snd p)))) (perm merged)))))"

definition rrf_merge_batch :: "(rrf_pair list \<Rightarrow> rrf_pair list) \<Rightarrow> (('j, b64) hit list \<times> ('j, b64) hit list) list \<Rightarrow> nat \<Rightarrow> ('j, b64) hit list list option" where
  "rrf_merge_batch perm queries limit = those (map (\<lambda>(lx, vx). rrf_merge_neon perm lx vx limit) queries)"

section \<open>Vector search\<close>

record vec_lib =
  k_search :: "(int \<times> embedding) list \<Rightarrow> embedding \<Rightarrow> nat \<Rightarrow> (int \<times> f32) list"
  k_cascade :: "(int \<times> embedding) list \<Rightarrow> embedding \<Rightarrow> nat \<Rightarrow> nat \<Rightarrow> (int \<times> f32) list"
  k_table :: "(int \<times> embedding) list \<Rightarrow> embedding \<Rightarrow> nat \<Rightarrow> (int \<times> b64) list option"

definition usize :: "nat \<Rightarrow> nat" where
  "usize n = n mod 2 ^ 64"

definition dist_score :: "b64 \<Rightarrow> b64" where
  "dist_score d = b64_div b64_one (b64_add b64_one d)"

text \<open>One hit for each id that has a row, also when an id comes twice: the row is taken from the map.\<close>

fun hydrate_by_dist :: "'j store_lib \<Rightarrow> doc_row list \<Rightarrow> (int \<times> b64) list \<Rightarrow> ('j, b64) hit list" where
  "hydrate_by_dist L rows [] = []"
| "hydrate_by_dist L rows ((i, d) # ps) =
     (case find (\<lambda>r. d_id r = i) rows of
        None \<Rightarrow> hydrate_by_dist L rows ps
      | Some r \<Rightarrow> hit_of L (dist_score d) r # hydrate_by_dist L (filter (\<lambda>r. d_id r \<noteq> i) rows) ps)"

abbreviation as_b64_dist :: "(int \<times> f32) list \<Rightarrow> (int \<times> b64) list" where
  "as_b64_dist ps \<equiv> map (\<lambda>(i, d). (i, f32_to_b64 d)) ps"

definition hydrate_hits_by_id_dist :: "'j store_lib \<Rightarrow> store \<Rightarrow> (int \<times> f32) list \<Rightarrow> ('j, b64) hit list" where
  "hydrate_hits_by_id_dist L s ps = hydrate_by_dist L (docs s) (as_b64_dist ps)"

definition cascade_search :: "vec_lib \<Rightarrow> nat \<Rightarrow> (int \<times> embedding) list \<Rightarrow> embedding \<Rightarrow> nat \<Rightarrow> (int \<times> f32) list" where
  "cascade_search K bound c emb limit =
     (let binary_k = min bound (length c) in
      if binary_k < length c then k_cascade K c emb limit binary_k else k_search K c emb limit)"

definition cache_search :: "vec_lib \<Rightarrow> (int \<times> embedding) list option \<Rightarrow> embedding \<Rightarrow> nat \<Rightarrow> (int \<times> f32) list" where
  "cache_search K cache emb limit =
     (case cache of Some c \<Rightarrow> if c = [] then [] else cascade_search K (max 4096 (usize (limit * 64))) c emb limit | None \<Rightarrow> [])"

text \<open>The rows of the vector table that have a document.\<close>

definition table_search :: "'j store_lib \<Rightarrow> vec_lib \<Rightarrow> embedding \<Rightarrow> nat \<Rightarrow> store \<Rightarrow> store_error + ('j, b64) hit list" where
  "table_search L K emb k s =
     (case k_table K (docs_vec s) emb k of None \<Rightarrow> Inl Sqlite
      | Some ps \<Rightarrow> Inr (List.map_filter (\<lambda>(i, d). map_option (hit_of L (dist_score d)) (find (\<lambda>r. d_id r = i) (docs s))) ps))"

definition search_vec :: "'j store_lib \<Rightarrow> vec_lib \<Rightarrow> embedding \<Rightarrow> nat \<Rightarrow> store \<Rightarrow> (store_error + ('j, b64) hit list) \<times> store" where
  "search_vec L K emb limit s =
     (if length emb \<noteq> EMBED_DIM then (Inl (DimMismatch (length emb)), s)
      else let fast = cache_search K (turbo s) emb limit in
        if fast \<noteq> [] then (Inr (hydrate_hits_by_id_dist L s fast), s)
        else let s1 = warm_turbo s; slow = cache_search K (turbo s1) emb limit in
          if slow \<noteq> [] then (Inr (hydrate_hits_by_id_dist L s1 slow), s1)
          else (table_search L K emb limit s1, s1))"

datatype search_backend = Cascade | UsearchHnsw | BinaryFirst

fun backend_bound :: "search_backend \<Rightarrow> nat \<Rightarrow> nat" where
  "backend_bound Cascade limit = max 4096 (usize (limit * 64))"
| "backend_bound BinaryFirst limit = max (usize (limit * 16)) 64"
| "backend_bound UsearchHnsw limit = max 2048 (usize (limit * 32))"

definition search_vec_with_backend :: "'j store_lib \<Rightarrow> vec_lib \<Rightarrow> embedding \<Rightarrow> nat \<Rightarrow> search_backend \<Rightarrow> store \<Rightarrow>
    (store_error + ('j, b64) hit list) \<times> store" where
  "search_vec_with_backend L K emb limit backend s =
     (let ps = (case turbo s of Some c \<Rightarrow> if c = [] then [] else cascade_search K (backend_bound backend limit) c emb limit | None \<Rightarrow> []) in
      if ps \<noteq> [] then (Inr (hydrate_hits_by_id_dist L s ps), s) else search_vec L K emb limit s)"

definition search_vec_exact :: "'j store_lib \<Rightarrow> vec_lib \<Rightarrow> embedding \<Rightarrow> nat \<Rightarrow> store \<Rightarrow> (store_error + ('j, b64) hit list) \<times> store" where
  "search_vec_exact L K emb limit s =
     (if length emb \<noteq> EMBED_DIM then (Inl (DimMismatch (length emb)), s)
      else let ps = (case turbo s of Some c \<Rightarrow> if c = [] then [] else k_search K c emb limit | None \<Rightarrow> []) in
        if ps \<noteq> [] then (Inr (hydrate_hits_by_id_dist L s ps), s) else search_vec L K emb limit s)"

definition search_vec_oversampled :: "'j store_lib \<Rightarrow> vec_lib \<Rightarrow> embedding \<Rightarrow> nat \<Rightarrow> store \<Rightarrow> store_error + ('j, b64) hit list" where
  "search_vec_oversampled L K emb k s =
     (if length emb \<noteq> EMBED_DIM then Inl (DimMismatch (length emb)) else table_search L K emb k s)"

section \<open>Hybrid and filtered search\<close>

type_synonym lex_engine = "(int \<times> rstr) list \<Rightarrow> rstr \<Rightarrow> nat \<Rightarrow> (int \<times> b64) list option"

abbreviation or_default :: "'e + 'a list \<Rightarrow> 'a list" where
  "or_default r \<equiv> (case r of Inr xs \<Rightarrow> xs | Inl _ \<Rightarrow> [])"

datatype 'a search_result = Found 'a | SearchError store_error | NeedsEmbedding | SearchPanic

definition found_or_panic :: "'a option \<Rightarrow> 'a search_result" where
  "found_or_panic r = (case r of Some x \<Rightarrow> Found x | None \<Rightarrow> SearchPanic)"

definition found_or_error :: "store_error + 'a \<Rightarrow> 'a search_result" where
  "found_or_error r = (case r of Inr x \<Rightarrow> Found x | Inl e \<Rightarrow> SearchError e)"

definition search_hybrid :: "'j store_lib \<Rightarrow> vec_lib \<Rightarrow> lex_engine \<Rightarrow> (rrf_pair list \<Rightarrow> rrf_pair list) \<Rightarrow> rstr \<Rightarrow> embedding \<Rightarrow> nat \<Rightarrow>
    store \<Rightarrow> ('j, b64) hit list search_result \<times> store" where
  "search_hybrid L K engine perm q emb limit s =
     (let k = usize (limit * 3); (lx, s1) = search_lex L engine q k s; (vx, s2) = search_vec L K emb k s1 in
      (found_or_panic (rrf_merge_neon perm (or_default lx) (or_default vx) limit), s2))"

definition store_search :: "'j store_lib \<Rightarrow> vec_lib \<Rightarrow> lex_engine \<Rightarrow> (rrf_pair list \<Rightarrow> rrf_pair list) \<Rightarrow> rstr \<Rightarrow> search_mode \<Rightarrow>
    embedding option \<Rightarrow> nat \<Rightarrow> store \<Rightarrow> ('j, b64) hit list search_result \<times> store" where
  "store_search L K engine perm q mode emb limit s =
     (case mode of
        LexMode \<Rightarrow> (case search_lex L engine q limit s of (r, s1) \<Rightarrow> (found_or_error r, s1))
      | VecMode \<Rightarrow> (case emb of None \<Rightarrow> (NeedsEmbedding, s)
          | Some e \<Rightarrow> (case search_vec L K e limit s of (r, s1) \<Rightarrow> (found_or_error r, s1)))
      | HybridMode \<Rightarrow> (case emb of None \<Rightarrow> (NeedsEmbedding, s) | Some e \<Rightarrow> search_hybrid L K engine perm q e limit s))"

text \<open>The decimal constants as \<^verbatim>\<open>f64\<close>: the nearest multiples of a power of two.\<close>

definition b64_const :: "nat \<Rightarrow> nat \<Rightarrow> b64" where
  "b64_const m e = Fin64 False (m * 2 ^ (1074 - e))"

definition b64_min :: "b64 \<Rightarrow> b64 \<Rightarrow> b64" where
  "b64_min x y = (if x = NaN64 then y else if y = NaN64 then x else if b64_le x y then x else y)"

definition sel_floor :: b64 where "sel_floor = b64_const 5764607523034235 59"

fun estimated_selectivity :: "'j predicate \<Rightarrow> b64" where
  "estimated_selectivity (PEq _ _) = b64_const 1 1"
| "estimated_selectivity (PNe _ _) = b64_const 8106479329266893 53"
| "estimated_selectivity (PLt _ _) = b64_const 5404319552844595 54"
| "estimated_selectivity (PGt _ _) = b64_const 5404319552844595 54"
| "estimated_selectivity (PLte _ _) = b64_const 3152519739159347 53"
| "estimated_selectivity (PGte _ _) = b64_const 3152519739159347 53"
| "estimated_selectivity (PIn _ vs) = b64_min (b64_mul (b64_of_nat (length vs)) (b64_const 3602879701896397 54)) (b64_const 8106479329266893 53)"
| "estimated_selectivity (PAnd ps) = b64_max (fold (\<lambda>p acc. b64_mul acc (estimated_selectivity p)) ps b64_one) sel_floor"
| "estimated_selectivity (POr ps) =
     b64_min (b64_sub b64_one (fold (\<lambda>p acc. b64_mul acc (b64_sub b64_one (estimated_selectivity p))) ps b64_one)) (b64_const 8917127262193582 53)"
| "estimated_selectivity (PNot p) = b64_max (b64_sub b64_one (estimated_selectivity p)) sel_floor"

text \<open>\<^verbatim>\<open>ceil() as usize\<close>, which saturates.\<close>

fun b64_ceil_usize :: "b64 \<Rightarrow> nat" where
  "b64_ceil_usize (Fin64 s m) = (if s then 0 else min ((m + b64_unit - 1) div b64_unit) (2 ^ 64 - 1))"
| "b64_ceil_usize (Inf64 s) = (if s then 0 else 2 ^ 64 - 1)"
| "b64_ceil_usize NaN64 = 0"

record 'j search_options =
  so_filter :: "'j predicate option"
  so_ef :: "nat option"

definition ef_mult :: "'j search_options \<Rightarrow> 'j predicate \<Rightarrow> nat" where
  "ef_mult opts p =
     (case so_ef opts of Some n \<Rightarrow> n
      | None \<Rightarrow> max 2 (min 32 (b64_ceil_usize (b64_div b64_one (b64_max (estimated_selectivity p) sel_floor)))))"

definition oversample_k :: "'j search_options \<Rightarrow> 'j predicate \<Rightarrow> nat \<Rightarrow> nat" where
  "oversample_k opts p limit = max (usize (limit * ef_mult opts p)) (usize (limit + 1))"

definition search_vec_filtered :: "'j store_lib \<Rightarrow> 'j json_access \<Rightarrow> vec_lib \<Rightarrow> embedding \<Rightarrow> nat \<Rightarrow> 'j search_options \<Rightarrow> store \<Rightarrow>
    (store_error + ('j, b64) hit list) \<times> store" where
  "search_vec_filtered L A K emb limit opts s =
     (case so_filter opts of None \<Rightarrow> search_vec L K emb limit s
      | Some p \<Rightarrow> (case search_vec_oversampled L K emb (oversample_k opts p limit) s of Inl e \<Rightarrow> (Inl e, s)
          | Inr hs \<Rightarrow> (Inr (Doc_Store.filter_hits_by_meta L A hs p limit s), s)))"

definition search_hybrid_filtered :: "'j store_lib \<Rightarrow> 'j json_access \<Rightarrow> vec_lib \<Rightarrow> lex_engine \<Rightarrow> (rrf_pair list \<Rightarrow> rrf_pair list) \<Rightarrow> rstr \<Rightarrow>
    embedding \<Rightarrow> nat \<Rightarrow> 'j search_options \<Rightarrow> store \<Rightarrow> ('j, b64) hit list search_result \<times> store" where
  "search_hybrid_filtered L A K engine perm q emb limit opts s =
     (case so_filter opts of None \<Rightarrow> search_hybrid L K engine perm q emb limit s
      | Some p \<Rightarrow>
          let k = oversample_k opts p limit; (lx, s1) = search_lex L engine q k s in
          case search_vec_oversampled L K emb k s1 of Inl e \<Rightarrow> (SearchError e, s1)
          | Inr vx \<Rightarrow> (case rrf_merge_neon perm (or_default lx) vx k of None \<Rightarrow> (SearchPanic, s1)
              | Some hs \<Rightarrow> (Found (Doc_Store.filter_hits_by_meta L A hs p limit s1), s1)))"

definition search_with_options :: "'j store_lib \<Rightarrow> 'j json_access \<Rightarrow> vec_lib \<Rightarrow> lex_engine \<Rightarrow> (rrf_pair list \<Rightarrow> rrf_pair list) \<Rightarrow> rstr \<Rightarrow>
    search_mode \<Rightarrow> embedding option \<Rightarrow> nat \<Rightarrow> 'j search_options \<Rightarrow> store \<Rightarrow> ('j, b64) hit list search_result \<times> store" where
  "search_with_options L A K engine perm q mode emb limit opts s =
     (case so_filter opts of None \<Rightarrow> store_search L K engine perm q mode emb limit s
      | Some p \<Rightarrow> (case mode of
          LexMode \<Rightarrow> (case search_lex L engine q (usize (limit * ef_mult opts p)) s of
             (Inl e, s1) \<Rightarrow> (SearchError e, s1)
           | (Inr hs, s1) \<Rightarrow> (Found (Doc_Store.filter_hits_by_meta L A hs p limit s1), s1))
        | VecMode \<Rightarrow> (case emb of None \<Rightarrow> (NeedsEmbedding, s)
            | Some e \<Rightarrow> (case search_vec_filtered L A K e limit opts s of (r, s1) \<Rightarrow> (found_or_error r, s1)))
        | HybridMode \<Rightarrow> (case emb of None \<Rightarrow> (NeedsEmbedding, s)
            | Some e \<Rightarrow> search_hybrid_filtered L A K engine perm q e limit opts s)))"

section \<open>Automatic edges\<close>

fun take_neighbors :: "int \<Rightarrow> nat \<Rightarrow> nat \<Rightarrow> ('j, b64) hit list \<Rightarrow> (int \<times> b64) list \<Rightarrow> (int \<times> b64) list" where
  "take_neighbors new_id k rank [] out = out"
| "take_neighbors new_id k rank (h # hs) out =
     (if h_id h = new_id then take_neighbors new_id k (Suc rank) hs out
      else let out' = out @ [(h_id h, b64_div b64_one (b64_add b64_one (b64_of_nat rank)))] in
        if k \<le> length out' then out' else take_neighbors new_id k (Suc rank) hs out')"

definition similar_neighbors :: "'j store_lib \<Rightarrow> vec_lib \<Rightarrow> int \<Rightarrow> embedding \<Rightarrow> nat \<Rightarrow> store \<Rightarrow> (int \<times> b64) list \<times> store" where
  "similar_neighbors L K new_id emb k s =
     (case search_vec_exact L K emb (usize (k + 1)) s of (r, s1) \<Rightarrow> (take_neighbors new_id k 0 (or_default r) [], s1))"

definition relate_similar :: "int \<Rightarrow> (int \<times> b64) list \<Rightarrow> edge_db \<Rightarrow> nat \<times> edge_db" where
  "relate_similar new_id ns db =
     (length ns, fold (\<lambda>(t, w) d. relate t new_id (lit ''similar'') w None (relate new_id t (lit ''similar'') w None d)) ns db)"

definition auto_relate :: "'j store_lib \<Rightarrow> vec_lib \<Rightarrow> int \<Rightarrow> embedding \<Rightarrow> nat \<Rightarrow> b64 \<Rightarrow> store \<Rightarrow> edge_db \<Rightarrow> nat \<times> store \<times> edge_db" where
  "auto_relate L K new_id emb k min_sim s db =
     (case similar_neighbors L K new_id emb k s of (ns, s1) \<Rightarrow>
        (case relate_similar new_id ns db of (n, db') \<Rightarrow> (n, s1, db')))"

section \<open>Fused scores\<close>

lemma f32_add_commute: "f32_add x y = f32_add y x"
  by (cases x; cases y) (simp_all add: f32_add.simps(1) Let_def add.commute conj_commute)

lemma rrf32_gain: "is_gain (rrf32 i)"
proof -
  have n: "is_gain (f32_of_nat n)" for n using f32_fit_score [of "n * f32_unit"] by (auto simp: f32_of_nat_def f32_fit_def is_score_def is_gain_def)
  have s: "is_score (f32_of_nat n)" for n using f32_fit_score [of "n * f32_unit"] by (simp add: f32_of_nat_def f32_fit_def)
  have a: "is_score (f32_add (f32_of_nat 60) (f32_of_nat (i + 1)))" by (rule add_score [OF s n])
  have one: "f32_of_nat 1 = Float32.Fin False f32_unit" using f32_of_nat_exact [of 1] by simp
  have r: "f32_round False u v = Inf False \<or> (\<exists>m. f32_round False u v = Float32.Fin False m)" for u v
    unfolding f32_round_def Let_def by (auto split: if_split)
  have "is_gain (f32_div (Float32.Fin False f32_unit) y)" if "is_score y" for y
  proof (cases y)
    case (Fin t m)
    then have "t = False" using that by (simp add: is_score_def)
    then show ?thesis using r [of "f32_unit * f32_unit" m] Fin by (auto simp: is_gain_def f32_unit_def)
  qed (use that in \<open>auto simp: is_score_def is_gain_def\<close>)
  then show ?thesis using a unfolding rrf32_def one by blast
qed

lemma gain_key: "is_gain x \<Longrightarrow> f32_key x \<noteq> None"
  by (auto simp: is_gain_def)

lemma gain_add:
  assumes "is_gain x" "is_gain y" shows "is_gain (f32_add x y)"
proof -
  consider "f32_add x y = Inf False" | m n where "x = Float32.Fin False m" "y = Float32.Fin False n"
    using assms unfolding is_gain_def by (elim disjE exE) simp_all
  then show ?thesis
  proof cases
    case 2
    then show ?thesis unfolding 2 f32_add_fin f32_fit_cases is_gain_def by (simp split: if_split)
  qed (simp add: is_gain_def)
qed

definition position :: "('j, 'c) hit list \<Rightarrow> int \<Rightarrow> nat option" where
  "position hs i = map_option fst (find (\<lambda>p. h_id (snd p) = i) (enumerate 0 hs))"

text \<open>The score of an id: the sum of its reciprocal ranks in the two lists.\<close>

definition fused32 :: "('j, b64) hit list \<Rightarrow> ('j, b64) hit list \<Rightarrow> int \<Rightarrow> f32" where
  "fused32 lx vx i =
     (case (position lx i, position vx i) of
        (Some a, Some b) \<Rightarrow> f32_add (rrf32 a) (rrf32 b) | (Some a, None) \<Rightarrow> rrf32 a | (None, Some b) \<Rightarrow> rrf32 b
      | (None, None) \<Rightarrow> Float32.Fin False 0)"

lemma fused32_key: "f32_key (fused32 lx vx i) \<noteq> None"
proof (rule gain_key)
  have "is_gain (Float32.Fin False 0)" by (simp add: is_gain_def)
  then show "is_gain (fused32 lx vx i)" by (simp add: fused32_def rrf32_gain gain_add split: option.split)
qed

text \<open>The entries of an id in one list.\<close>

lemma set_enumerate_snd: "p \<in> set (enumerate n xs) \<Longrightarrow> snd p \<in> set xs"
  by (cases p) (auto simp: enumerate_eq_zip dest: set_zip_rightD)

lemma pairs_of_id:
  assumes "distinct (map h_id hs)"
  shows "filter (\<lambda>p. fst p = i) (rrf_pairs t hs) = (case position hs i of Some a \<Rightarrow> [(i, rrf32 a, a, t)] | None \<Rightarrow> [])"
proof -
  have "filter (\<lambda>p. fst p = i) (map (\<lambda>(k, h). (h_id h, rrf32 k, k, t)) (enumerate n hs)) =
      (case map_option fst (find (\<lambda>p. h_id (snd p) = i) (enumerate n hs)) of Some a \<Rightarrow> [(i, rrf32 a, a, t)] | None \<Rightarrow> [])" for n
    using assms
  proof (induction hs arbitrary: n)
    case (Cons h hs)
    show ?case
    proof (cases "h_id h = i")
      case True
      then have "i \<notin> h_id ` set hs" using Cons.prems by simp
      then have "\<forall>x \<in> set hs. h_id x \<noteq> i" by blast
      then have "filter (\<lambda>p. fst p = i) (map (\<lambda>(k, h). (h_id h, rrf32 k, k, t)) (enumerate (Suc n) hs)) = []"
        using set_enumerate_snd by (fastforce simp: filter_empty_conv)
      then show ?thesis using True by simp
    next
      case False
      then show ?thesis using Cons by simp
    qed
  qed simp
  then show ?thesis by (simp add: rrf_pairs_def position_def)
qed

lemma find_in_set: "find P xs = Some x \<Longrightarrow> x \<in> set xs \<and> P x"
  by (induction xs) (auto split: if_splits)

lemma position_Some:
  assumes "position hs i = Some a" shows "a < length hs" "h_id (hs ! a) = i"
proof -
  obtain h where h: "find (\<lambda>p. h_id (snd p) = i) (enumerate 0 hs) = Some (a, h)" using assms by (auto simp: position_def)
  then have "(a, h) \<in> set (enumerate 0 hs)" "h_id h = i" using find_in_set [OF h] by auto
  then show "a < length hs" "h_id (hs ! a) = i" by (auto simp: in_set_enumerate_eq)
qed

lemma position_None: "position hs i = None \<longleftrightarrow> i \<notin> h_id ` set hs"
proof -
  have "snd ` set (enumerate 0 hs) = set hs" by (metis set_map map_snd_enumerate)
  moreover have "position hs i = None \<longleftrightarrow> i \<notin> h_id ` snd ` set (enumerate 0 hs)" unfolding position_def option.map_disc_iff find_None_iff by blast
  ultimately show ?thesis by simp
qed

section \<open>Runs\<close>

fun run_entry :: "rrf_pair list \<Rightarrow> rrf_pair" where
  "run_entry (p # ps) = (fst p, fold (\<lambda>q s. f32_add s (fst (snd q))) ps (fst (snd p)), snd (snd p))"
| "run_entry [] = undefined"

lemma merge_runs_entries:
  assumes "sorted (map fst ps)"
  shows "distinct (map fst (merge_runs ps)) \<and> fst ` set (merge_runs ps) = fst ` set ps \<and>
    (\<forall>x \<in> set (merge_runs ps). x = run_entry (filter (\<lambda>q. fst q = fst x) ps))"
  using assms
proof (induction ps rule: merge_runs.induct)
  case (2 p ps)
  let ?d = "dropWhile (\<lambda>q. fst q = fst p) ps" and ?t = "takeWhile (\<lambda>q. fst q = fst p) ps"
  have split: "ps = ?t @ ?d" by simp
  have t: "\<forall>q \<in> set ?t. fst q = fst p" by (auto dest: set_takeWhileD)
  have sd: "sorted (map fst ?d)" "\<forall>q \<in> set ps. fst p \<le> fst q" using "2.prems" by (auto simp: sorted_map intro: sorted_wrt_dropWhile)
  have d: "\<forall>q \<in> set ?d. fst q \<noteq> fst p"
  proof (cases ?d)
    case (Cons y ys)
    then have "fst y \<noteq> fst p" using hd_dropWhile [of "\<lambda>q. fst q = fst p" ps] by simp
    moreover have "fst p \<le> fst y" "\<forall>q \<in> set ys. fst y \<le> fst q" using sd Cons set_dropWhileD [of y "\<lambda>q. fst q = fst p" ps] by auto
    ultimately show ?thesis using Cons by fastforce
  next
    case Nil
    then show ?thesis by (simp only: list.set ball_empty)
  qed
  have IH: "distinct (map fst (merge_runs ?d))" "fst ` set (merge_runs ?d) = fst ` set ?d"
      "\<forall>x \<in> set (merge_runs ?d). x = run_entry (filter (\<lambda>q. fst q = fst x) ?d)" using "2.IH" sd(1) by blast+
  have "filter (\<lambda>q. fst q = fst p) ?t = ?t" "filter (\<lambda>q. fst q = fst p) ?d = []" using filter_True [OF t] filter_False [OF d] by blast+
  then have "filter (\<lambda>q. fst q = fst p) (?t @ ?d) = ?t" by (simp only: filter_append append_Nil2)
  then have ft: "filter (\<lambda>q. fst q = fst p) ps = ?t" by (simp only: takeWhile_dropWhile_id)
  have fd: "filter (\<lambda>q. fst q = fst x) (p # ps) = filter (\<lambda>q. fst q = fst x) ?d" if "x \<in> set (merge_runs ?d)" for x
  proof -
    have "fst x \<in> fst ` set ?d" using that IH(2) by blast
    then obtain q where q: "q \<in> set ?d" "fst x = fst q" by blast
    then have ne: "fst p \<noteq> fst x" using d [rule_format, OF q(1)] by metis
    have "\<forall>q \<in> set ?t. fst q \<noteq> fst x"
    proof
      fix r assume "r \<in> set ?t"
      then show "fst r \<noteq> fst x" using ne t [rule_format, of r] by metis
    qed
    then have "filter (\<lambda>q. fst q = fst x) (?t @ ?d) = filter (\<lambda>q. fst q = fst x) ?d" using filter_False [of ?t] by (simp only: filter_append append_Nil)
    then show ?thesis using ne by (simp only: takeWhile_dropWhile_id filter.simps if_False)
  qed
  have "fst p \<notin> fst ` set (merge_runs ?d)"
  proof
    assume "fst p \<in> fst ` set (merge_runs ?d)"
    then obtain q where "q \<in> set ?d" "fst q = fst p" unfolding IH(2) by (rule imageE) metis
    then show False using d by blast
  qed
  moreover have "fst ` set (p # ps) = insert (fst p) (fst ` set ?d)" 
  proof -
    have "set ps = set ?t \<union> set ?d" by (metis split set_append)
    moreover have "fst ` set ?t \<subseteq> {fst p}" using t by blast
    ultimately show ?thesis unfolding list.set image_insert by (simp only: image_Un) blast
  qed
  moreover have "run_entry (filter (\<lambda>q. fst q = fst p) (p # ps)) =
      (fst p, fold (\<lambda>q s. f32_add s (fst (snd q))) ?t (fst (snd p)), snd (snd p))" using ft by simp
  ultimately show ?case using IH fd by simp
qed simp

section \<open>The fusion is exact\<close>

lemma mset_pair: "mset ps = {#x, y#} \<Longrightarrow> ps = [x, y] \<or> ps = [y, x]"
proof -
  assume a: "mset ps = {#x, y#}"
  then have "length ps = 2" by (metis size_mset size_add_mset size_empty numeral_2_eq_2)
  then obtain u v where uv: "ps = [u, v]" by (auto simp: numeral_2_eq_2 length_Suc_conv)
  then show ?thesis using a by (auto simp: add_eq_conv_ex)
qed

lemma run_of_entries:
  assumes "mset ps = mset (xs @ ys)" "xs = [] \<or> xs = [(i, u, a, False)]" "ys = [] \<or> ys = [(i, v, b, True)]" "xs @ ys \<noteq> []"
  shows "fst (snd (run_entry ps)) = (if ys = [] then u else if xs = [] then v else f32_add u v)"
    and "xs \<noteq> [] \<and> snd (snd (run_entry ps)) = (a, False) \<or> ys \<noteq> [] \<and> snd (snd (run_entry ps)) = (b, True)"
proof -
  consider "ps = [(i, u, a, False)]" "ys = []" "xs \<noteq> []" | "ps = [(i, v, b, True)]" "xs = []" "ys \<noteq> []"
    | "ps = [(i, u, a, False), (i, v, b, True)] \<or> ps = [(i, v, b, True), (i, u, a, False)]" "xs \<noteq> []" "ys \<noteq> []"
    using assms mset_pair [of ps "(i, u, a, False)" "(i, v, b, True)"] by (elim disjE) simp_all
  then show "fst (snd (run_entry ps)) = (if ys = [] then u else if xs = [] then v else f32_add u v)"
    and "xs \<noteq> [] \<and> snd (snd (run_entry ps)) = (a, False) \<or> ys \<noteq> [] \<and> snd (snd (run_entry ps)) = (b, True)"
    by (cases; auto simp: f32_add_commute)+
qed

definition fused_runs :: "(rrf_pair list \<Rightarrow> rrf_pair list) \<Rightarrow> ('j, b64) hit list \<Rightarrow> ('j, b64) hit list \<Rightarrow> rrf_pair list" where
  "fused_runs perm lx vx = merge_runs (sort_key fst (perm (rrf_pairs False lx @ rrf_pairs True vx)))"

abbreviation slot :: "('j, b64) hit list \<Rightarrow> ('j, b64) hit list \<Rightarrow> rrf_pair \<Rightarrow> ('j, b64) hit" where
  "slot lx vx p \<equiv> (if snd (snd (snd p)) then vx ! fst (snd (snd p)) else lx ! fst (snd (snd p)))"

lemma fst_rrf_pairs: "fst ` set (rrf_pairs t hs) = h_id ` set hs"
proof -
  have "map fst (map (\<lambda>(i, h). (h_id h, rrf32 i, i, t)) (enumerate n hs)) = map h_id hs" for n by (induction hs arbitrary: n) simp_all
  then have "map fst (rrf_pairs t hs) = map h_id hs" by (simp only: rrf_pairs_def)
  then show ?thesis by (metis set_map)
qed

lemma fused_runs_entries:
  assumes perm: "\<And>ps. mset (perm ps) = mset ps" and dx: "distinct (map h_id lx)" "distinct (map h_id vx)"
  shows "distinct (map fst (fused_runs perm lx vx))" and "fst ` set (fused_runs perm lx vx) = h_id ` (set lx \<union> set vx)"
    and "x \<in> set (fused_runs perm lx vx) \<Longrightarrow> fst (snd x) = fused32 lx vx (fst x)"
    and "x \<in> set (fused_runs perm lx vx) \<Longrightarrow> h_id (slot lx vx x) = fst x \<and> slot lx vx x \<in> set lx \<union> set vx"
proof -
  let ?all = "rrf_pairs False lx @ rrf_pairs True vx"
  let ?srt = "sort_key fst (perm ?all)"
  have ms: "mset ?srt = mset ?all" using perm by simp
  have E: "distinct (map fst (merge_runs ?srt)) \<and> fst ` set (merge_runs ?srt) = fst ` set ?srt \<and>
    (\<forall>x \<in> set (merge_runs ?srt). x = run_entry (filter (\<lambda>q. fst q = fst x) ?srt))" by (rule merge_runs_entries) simp
  show "distinct (map fst (fused_runs perm lx vx))" using E by (simp add: fused_runs_def)
  have st: "set ?srt = set ?all" using mset_eq_setD [OF ms] .
  show ids: "fst ` set (fused_runs perm lx vx) = h_id ` (set lx \<union> set vx)"
    using E st by (simp add: fused_runs_def image_Un fst_rrf_pairs)
  assume x: "x \<in> set (fused_runs perm lx vx)"
  let ?i = "fst x" and ?f = "filter (\<lambda>q. fst q = fst x) ?srt"
  let ?xs = "filter (\<lambda>q. fst q = fst x) (rrf_pairs False lx)" and ?ys = "filter (\<lambda>q. fst q = fst x) (rrf_pairs True vx)"
  have r: "x = run_entry ?f" using E x by (simp add: fused_runs_def)
  have mf: "mset ?f = mset (?xs @ ?ys)" using arg_cong [OF ms, of "filter_mset (\<lambda>q. fst q = fst x)"] by simp
  let ?a = "the (position lx ?i)" and ?b = "the (position vx ?i)"
  have xs: "?xs = [] \<or> ?xs = [(?i, rrf32 ?a, ?a, False)]" and ys: "?ys = [] \<or> ?ys = [(?i, rrf32 ?b, ?b, True)]"
    by (simp_all add: pairs_of_id dx split: option.split)
  have "?i \<in> h_id ` (set lx \<union> set vx)" using ids x by blast
  then have ne: "?xs @ ?ys \<noteq> []" using position_None [of lx ?i] position_None [of vx ?i]
    by (auto simp: pairs_of_id dx split: option.split)
  note run = run_of_entries [OF mf xs ys ne]
  have nx: "?xs = [] \<longleftrightarrow> position lx ?i = None" and ny: "?ys = [] \<longleftrightarrow> position vx ?i = None"
    by (simp_all add: pairs_of_id dx split: option.split)
  have nn: "position lx ?i \<noteq> None \<or> position vx ?i \<noteq> None" using ne nx ny by auto
  have "fst (snd x) = (if position vx ?i = None then rrf32 ?a else if position lx ?i = None then rrf32 ?b else f32_add (rrf32 ?a) (rrf32 ?b))"
    using run(1) r nx ny by metis
  then show "fst (snd x) = fused32 lx vx (fst x)" using nn by (auto simp: fused32_def split: option.split)
  have "position lx ?i \<noteq> None \<and> snd (snd x) = (?a, False) \<or> position vx ?i \<noteq> None \<and> snd (snd x) = (?b, True)"
    using run(2) r nx ny by metis
  then show "h_id (slot lx vx x) = fst x \<and> slot lx vx x \<in> set lx \<union> set vx" by (auto simp: position_Some)
qed

abbreviation fused_rank :: "('j, b64) hit list \<Rightarrow> ('j, b64) hit list \<Rightarrow> int \<Rightarrow> int" where
  "fused_rank lx vx i \<equiv> the (f32_key (fused32 lx vx i))"

lemma take_drop_sorted: "sorted (map f xs) \<Longrightarrow> x \<in> set (take k xs) \<Longrightarrow> y \<in> set (drop k xs) \<Longrightarrow> f x \<le> f y"
proof -
  assume a: "sorted (map f xs)" "x \<in> set (take k xs)" "y \<in> set (drop k xs)"
  have "sorted (map f (take k xs @ drop k xs))" using a(1) by simp
  then show ?thesis using a(2,3) unfolding map_append sorted_append by simp
qed

text \<open>
  C38. Fusing a lexical and a vector result, neither with an id twice, with a positive limit returns, whatever the
  unstable sorts do with equal keys: one hit for each id, as many as the limit and the ids of both lists allow, each of
  them a hit of one of the lists whose score is the sum of the reciprocal ranks of its id, in order of that score, and
  no id left out has a higher score than one that is returned.
\<close>

theorem rrf_merge_exact:
  assumes perm: "\<And>ps. mset (perm ps) = mset ps" and dx: "distinct (map h_id lx)" "distinct (map h_id vx)" and "0 < limit"
  shows "\<exists>out. rrf_merge_neon perm lx vx limit = Some out \<and> distinct (map h_id out) \<and>
     length out = min limit (card (h_id ` (set lx \<union> set vx))) \<and>
     (\<forall>h \<in> set out. \<exists>g \<in> set lx \<union> set vx. h = g\<lparr>h_score := f32_to_b64 (fused32 lx vx (h_id g))\<rparr>) \<and>
     sorted (map (\<lambda>h. - fused_rank lx vx (h_id h)) out) \<and>
     (\<forall>i \<in> h_id ` (set lx \<union> set vx) - h_id ` set out. \<forall>h \<in> set out. fused_rank lx vx i \<le> fused_rank lx vx (h_id h))"
proof -
  note E = fused_runs_entries [OF perm dx]
  define M where "M = fused_runs perm lx vx"
  define S where "S = sort_key (\<lambda>p. - the (f32_key (fst (snd p)))) (perm M)"
  define give where "give = (\<lambda>p. (slot lx vx p)\<lparr>h_score := f32_to_b64 (fst (snd p))\<rparr>)"
  define k where "k = min limit (length M)"
  have ms: "mset S = mset M" using perm by (simp add: S_def)
  then have st: "set S = set M" by (rule mset_eq_setD)
  have "mset (map fst S) = mset (map fst M)" using ms by simp
  then have dS: "distinct (map fst S)" using E(1) mset_eq_imp_distinct_iff unfolding M_def by blast
  have len: "length S = length M" using ms by (metis size_mset)
  have card: "length M = card (h_id ` (set lx \<union> set vx))" using distinct_card [OF E(1)] E(2) by (simp add: M_def)
  have id: "h_id (give p) = fst p" and sc: "- the (f32_key (fst (snd p))) = - fused_rank lx vx (fst p)" if "p \<in> set S" for p
    using that E(3,4) [of p] st by (simp_all add: give_def M_def)
  have "\<not> (k < length M \<and> k = 0)" using assms(4) by (simp add: k_def min_def)
  moreover have "rrf_merge_neon perm lx vx limit = (if lx = [] \<and> vx = [] then Some [] else if k < length M \<and> k = 0 then None else Some (map give (take k S)))"
    by (simp only: rrf_merge_neon_def fused_runs_def [symmetric] Let_def M_def k_def S_def give_def case_prod_beta')
  moreover have "S = []" if "lx = []" "vx = []" using E(2) st that by (simp add: M_def)
  ultimately have run: "rrf_merge_neon perm lx vx limit = Some (map give (take k S))" by auto
  have ids: "map h_id (map give (take k S)) = take k (map fst S)" using id in_set_takeD by (fastforce simp: take_map)
  have srt: "sorted (map (\<lambda>p. - fused_rank lx vx (fst p)) S)"
  proof -
    have "map (\<lambda>p. - fused_rank lx vx (fst p)) S = map (\<lambda>p. - the (f32_key (fst (snd p)))) S" using sc by (intro map_cong refl) (rule sym)
    then show ?thesis by (simp only: S_def sorted_sort_key)
  qed
  show ?thesis
  proof (intro exI [of _ "map give (take k S)"] conjI ballI)
    show "rrf_merge_neon perm lx vx limit = Some (map give (take k S))" by (rule run)
    show "distinct (map h_id (map give (take k S)))" unfolding ids using dS by simp
    show "length (map give (take k S)) = min limit (card (h_id ` (set lx \<union> set vx)))" using len card by (simp add: k_def)
    show "\<exists>g \<in> set lx \<union> set vx. h = g\<lparr>h_score := f32_to_b64 (fused32 lx vx (h_id g))\<rparr>" if "h \<in> set (map give (take k S))" for h
    proof -
      obtain p where p: "p \<in> set M" "h = give p" using \<open>h \<in> _\<close> st by (auto dest: in_set_takeD)
      then show ?thesis using E(3,4) [of p] by (intro bexI [of _ "slot lx vx p"]) (simp_all add: give_def M_def)
    qed
    have "map (\<lambda>h. - fused_rank lx vx (h_id h)) (map give (take k S)) = take k (map (\<lambda>p. - fused_rank lx vx (fst p)) S)"
      using id in_set_takeD by (fastforce simp: take_map)
    then show "sorted (map (\<lambda>h. - fused_rank lx vx (h_id h)) (map give (take k S)))" using srt by (simp only: sorted_wrt_take)
    fix i h assume i: "i \<in> h_id ` (set lx \<union> set vx) - h_id ` set (map give (take k S))" and h: "h \<in> set (map give (take k S))"
    obtain p where p: "p \<in> set (take k S)" "h = give p" using h by auto
    have "i \<in> fst ` set S" using i unfolding st M_def E(2) by blast
    then obtain q where q: "q \<in> set S" "fst q = i" by blast
    have "h_id (give q) \<notin> h_id ` set (map give (take k S))" using i q(2) id [OF q(1)] by simp
    then have "q \<notin> set (take k S)" by (metis imageI list.set_map)
    then have "q \<in> set (drop k S)" using q(1) by (metis Un_iff append_take_drop_id set_append)
    then have "fused_rank lx vx (fst q) \<le> fused_rank lx vx (fst p)" using take_drop_sorted [OF srt p(1)] by fastforce
    then show "fused_rank lx vx i \<le> fused_rank lx vx (h_id h)" using q(2) id [OF in_set_takeD [OF p(1)]] p(2) by simp
  qed
qed

definition sample_hit :: "int \<Rightarrow> (nat, b64) hit" where
  "sample_hit i = \<lparr>h_id = i, h_uri = None, h_title = None, h_text = [], h_score = b64_one, h_meta = None, h_ts = None\<rparr>"

text \<open>Two documents that both searches find, and one that only the vector search finds.\<close>

theorem rrf_merge_exact_witness:
  "\<exists>out. rrf_merge_neon (\<lambda>ps. ps) [sample_hit 1, sample_hit 2] [sample_hit 2, sample_hit 3, sample_hit 1] 2 = Some out \<and> length out = 2 \<and>
     distinct (map h_id out)"
proof -
  let ?l = "[sample_hit 1, sample_hit 2]" and ?v = "[sample_hit 2, sample_hit 3, sample_hit 1]"
  have id: "h_id (sample_hit i) = i" for i by (simp add: sample_hit_def)
  have "h_id ` (set ?l \<union> set ?v) = {1, 2, 3}" by (auto simp: id)
  then have c: "min 2 (card (h_id ` (set ?l \<union> set ?v))) = 2" by simp
  have d: "distinct (map h_id ?l)" "distinct (map h_id ?v)" by (simp_all add: id)
  obtain out where "rrf_merge_neon (\<lambda>ps. ps) ?l ?v 2 = Some out" "distinct (map h_id out)" "length out = min 2 (card (h_id ` (set ?l \<union> set ?v)))"
    using rrf_merge_exact [of "\<lambda>ps. ps" ?l ?v 2, OF refl d zero_less_numeral] by blast
  then show ?thesis unfolding c by blast
qed

text \<open>A limit of zero with any hit at all panics.\<close>

lemma rrf_merge_zero_panics:
  assumes "\<And>ps. mset (perm ps) = mset ps" "distinct (map h_id lx)" "distinct (map h_id vx)" "lx \<noteq> [] \<or> vx \<noteq> []"
  shows "rrf_merge_neon perm lx vx 0 = None"
proof -
  have "fused_runs perm lx vx \<noteq> []" using fused_runs_entries(2) [OF assms(1-3)] assms(4) by auto
  then have "merge_runs (sort_key fst (perm (rrf_pairs False lx @ rrf_pairs True vx))) \<noteq> []" by (simp add: fused_runs_def)
  then show ?thesis using assms(4) by (auto simp: rrf_merge_neon_def Let_def)
qed

text \<open>The links of a new document do not depend on the threshold.\<close>

lemma auto_relate_ignores_threshold: "auto_relate L K new_id emb k t s db = auto_relate L K new_id emb k u s db"
  by (simp add: auto_relate_def)

lemma take_neighbors_excludes: "i \<in> fst ` set (take_neighbors new_id k r hs out) \<Longrightarrow> i \<in> fst ` set out \<or> i \<in> h_id ` set hs \<and> i \<noteq> new_id"
proof (induction hs arbitrary: r out)
  case (Cons h hs)
  show ?case
  proof (cases "h_id h = new_id \<or> k \<le> Suc (length out)")
    case True
    then show ?thesis using Cons by (auto simp: Let_def split: if_splits)
  next
    case False
    let ?w = "b64_div b64_one (b64_add b64_one (b64_of_nat r))"
    have "take_neighbors new_id k r (h # hs) out = take_neighbors new_id k (Suc r) hs (out @ [(h_id h, ?w)])" using False by (simp add: Let_def)
    then have "i \<in> fst ` set (out @ [(h_id h, ?w)]) \<or> i \<in> h_id ` set hs \<and> i \<noteq> new_id" using Cons.prems Cons.IH by metis
    then show ?thesis using False by auto
  qed
qed simp

text \<open>A document is never linked to itself.\<close>

lemma similar_neighbors_others: "new_id \<notin> fst ` set (fst (similar_neighbors L K new_id emb k s))"
proof (cases "search_vec_exact L K emb (usize (k + 1)) s")
  case (Pair r s1)
  then show ?thesis using take_neighbors_excludes [of new_id new_id k 0 "or_default r" "[]"] by (auto simp: similar_neighbors_def)
qed

end
