(* ===== verification/Daemon_Guards.thy ===== *)
theory Daemon_Guards
  imports Doc_Store Utf8_Facts Vector_Search
begin

unbundle bit_operations_syntax

text \<open>
  The checks of the daemon (\<^verbatim>\<open>crates/synapsed/src/main.rs\<close>) on what clients send, and its live queries
  (\<^verbatim>\<open>crates/synapsed/src/livequery.rs\<close>): tokens, the bounds of a write, keys, tenant names, paths of snapshots, the
  authorizer of raw SQL, the ranking of scoped hits, and the filter and the origin of subscribers. Paths are lists
  of components; the file system is an argument.
\<close>

section \<open>Tokens\<close>

definition subtle_eq :: "rstr \<Rightarrow> rstr \<Rightarrow> bool" where
  "subtle_eq a b =
     (if str_len a \<noteq> str_len b then False
      else fold (\<lambda>(x, y) acc. acc OR (x XOR y)) (zip (utf8 a) (utf8 b)) (0 :: byte) = 0)"

definition hex_digit :: "nat \<Rightarrow> rchar" where
  "hex_digit n = (if n < 10 then 48 + n else 87 + n)"

definition hex_token :: "bytes \<Rightarrow> rstr" where
  "hex_token bs = concat (map (\<lambda>b. [hex_digit (unat b div 16), hex_digit (unat b mod 16)]) bs)"

text \<open>\<open>api_key\<close> is the environment variable, \<open>stored\<close> the contents of the token file, and \<open>fresh\<close> the 32 random bytes
  written to it; None where the variable, the file or the right to write it is missing.\<close>

definition resolve_auth_token :: "rstr option \<Rightarrow> rstr option \<Rightarrow> bytes option \<Rightarrow> rstr option" where
  "resolve_auth_token api_key stored fresh =
     (case api_key of
        Some k \<Rightarrow> if k \<noteq> [] then Some k else (case stored of
            Some t \<Rightarrow> if trim t \<noteq> [] then Some (trim t) else map_option hex_token fresh
          | None \<Rightarrow> map_option hex_token fresh)
      | None \<Rightarrow> (case stored of
            Some t \<Rightarrow> if trim t \<noteq> [] then Some (trim t) else map_option hex_token fresh
          | None \<Rightarrow> map_option hex_token fresh))"

section \<open>Bounds and names\<close>

definition MAX_TITLE_BYTES :: nat where "MAX_TITLE_BYTES = 8 * 1024"
definition MAX_URI_BYTES :: nat where "MAX_URI_BYTES = 2 * 1024"
definition MAX_META_BYTES :: nat where "MAX_META_BYTES = 256 * 1024"

record 'j put_req =
  p_title :: "rstr option"
  p_uri :: "rstr option"
  p_text :: rstr
  p_meta :: "'j option"
  p_embed :: bool
  p_embedding :: "embedding option"

definition into_request :: "'j put_req \<Rightarrow> embedding option \<Rightarrow> 'j put_request" where
  "into_request p emb = \<lparr>r_uri = p_uri p, r_title = p_title p, r_text = p_text p, r_meta = p_meta p, r_embedding = emb\<rparr>"

datatype put_bound = TextTooLarge nat | TitleTooLarge nat | UriTooLarge nat | MetaTooLarge

definition longer_than :: "nat \<Rightarrow> rstr option \<Rightarrow> bool" where
  "longer_than n s = (case s of None \<Rightarrow> False | Some t \<Rightarrow> n < str_len t)"

definition check_put_bounds :: "'j store_lib \<Rightarrow> nat \<Rightarrow> 'j put_req \<Rightarrow> put_bound option" where
  "check_put_bounds L max_put_bytes p =
     (if max_put_bytes < str_len (p_text p) then Some (TextTooLarge (str_len (p_text p)))
      else if longer_than MAX_TITLE_BYTES (p_title p) then Some (TitleTooLarge (str_len (the (p_title p))))
      else if longer_than MAX_URI_BYTES (p_uri p) then Some (UriTooLarge (str_len (the (p_uri p))))
      else if longer_than MAX_META_BYTES (map_option (json_text L) (p_meta p)) then Some MetaTooLarge
      else None)"

datatype key_error = KeyEmpty | KeyChars

definition sanitize_meta_key :: "rstr \<Rightarrow> key_error + rstr" where
  "sanitize_meta_key key =
     (let trimmed = trim key in
      if trimmed = [] then Inl KeyEmpty
      else if \<not> list_all word_char trimmed then Inl KeyChars
      else Inr trimmed)"

definition tenant_name_ok :: "rstr \<Rightarrow> bool" where
  "tenant_name_ok name = list_all (\<lambda>c. is_ascii_alphanumeric c \<or> c = 95 \<or> c = 45) name"

definition tenant_path :: "rstr \<Rightarrow> rstr \<Rightarrow> rstr" where
  "tenant_path home name = home @ lit ''/.synapse/tenants/'' @ name @ lit ''.db''"

section \<open>The authorizer of raw SQL\<close>

datatype auth_action = SelectStmt | ReadColumn | CallFunction | RecursiveQuery | TransactionStmt | Attach rstr | Detach rstr | OtherAction

fun sql_authorized :: "auth_action \<Rightarrow> bool" where
  "sql_authorized (Attach filename) =
     (starts_with (lit ''file:'') filename \<and> contains_str (lit ''mode=ro'') filename \<and>
      contains_str (lit ''/.synapse/tenants/'') filename)"
| "sql_authorized (Detach name) = (name = lit ''tenant'')"
| "sql_authorized OtherAction = False"
| "sql_authorized _ = True"

section \<open>Paths of snapshots\<close>

text \<open>A path: whether it starts at the root, and its components. \<^verbatim>\<open>.\<close> is a component only at the start of a relative path.\<close>

type_synonym fpath = "bool \<times> rstr list"

abbreviation dot :: rstr where "dot \<equiv> lit ''.''"
abbreviation dotdot :: rstr where "dotdot \<equiv> lit ''..''"

definition path_of :: "rstr \<Rightarrow> fpath" where
  "path_of s =
     (let cs = filter (\<lambda>c. c \<noteq> []) (split_on (\<lambda>c. c = 47) s) in
      if starts_with [47] s then (True, filter (\<lambda>c. c \<noteq> dot) cs)
      else (False, case cs of [] \<Rightarrow> [] | c # rest \<Rightarrow> c # filter (\<lambda>c. c \<noteq> dot) rest))"

definition path_join :: "fpath \<Rightarrow> fpath \<Rightarrow> fpath" where
  "path_join b p =
     (if fst p then p else if b = (False, []) then p else (fst b, snd b @ filter (\<lambda>c. c \<noteq> dot) (snd p)))"

definition path_parent :: "fpath \<Rightarrow> fpath option" where
  "path_parent p = (if snd p = [] then None else Some (fst p, butlast (snd p)))"

definition path_file_name :: "fpath \<Rightarrow> rstr option" where
  "path_file_name p = (if snd p = [] \<or> last (snd p) = dotdot \<or> last (snd p) = dot then None else Some (last (snd p)))"

text \<open>\<^verbatim>\<open>Path::starts_with\<close>, by components, the root being one.\<close>

definition path_within :: "fpath \<Rightarrow> fpath \<Rightarrow> bool" where
  "path_within b p \<longleftrightarrow> (fst b \<longrightarrow> fst p) \<and> (\<not> fst b \<and> snd b \<noteq> [] \<longrightarrow> \<not> fst p) \<and> take (length (snd b)) (snd p) = snd b"

record snap_fs =
  canonicalize :: "fpath \<Rightarrow> fpath option"
  path_exists :: "fpath \<Rightarrow> bool"

datatype snap_error = Uncanonical | EscapesBySymlink | NoParent | OutsideSnapDir | NoFileName

definition sanitize_snap_path :: "snap_fs \<Rightarrow> fpath \<Rightarrow> rstr \<Rightarrow> snap_error + fpath" where
  "sanitize_snap_path fs base out =
     (let absolute = path_join base (path_of out);
          canon_base = (case canonicalize fs base of Some b \<Rightarrow> b | None \<Rightarrow> base) in
      if path_exists fs absolute then
        (case canonicalize fs absolute of None \<Rightarrow> Inl Uncanonical
         | Some canon \<Rightarrow> if path_within canon_base canon then Inr canon else Inl EscapesBySymlink)
      else (case path_parent absolute of None \<Rightarrow> Inl NoParent
         | Some parent \<Rightarrow>
             let canon_parent = (case canonicalize fs parent of Some p \<Rightarrow> p | None \<Rightarrow> parent) in
             if \<not> path_within canon_base canon_parent then Inl OutsideSnapDir
             else (case path_file_name absolute of None \<Rightarrow> Inl NoFileName
                   | Some fname \<Rightarrow> Inr (fst canon_parent, snd canon_parent @ [fname]))))"

section \<open>Queries and ranking\<close>

definition daemon_match_query :: "rstr \<Rightarrow> rstr option" where
  "daemon_match_query q =
     (let trimmed = trim q in
      if trimmed = [] then None
      else if list_all (\<lambda>c. word_char c \<or> is_ascii_whitespace c) trimmed then Some trimmed
      else let tokens = scan_tokens trimmed [] [] in
        if tokens = [] then None else Some (join_with (lit '' OR '') (map quote_token tokens)))"

definition fts5_loose_match_query :: "rstr \<Rightarrow> rstr option" where
  "fts5_loose_match_query q =
     (let tokens = scan_tokens (trim q) [] [] in
      if tokens = [] then None else Some (join_with (lit '' OR '') (map quote_token tokens)))"

text \<open>More than one word with a letter or digit; the loop returns at the second.\<close>

definition should_rank_lex_with_bm25 :: "rstr \<Rightarrow> bool" where
  "should_rank_lex_with_bm25 q \<longleftrightarrow> 1 < length (filter (list_ex is_ascii_alphanumeric) (split_whitespace q))"

text \<open>The set \<^verbatim>\<open>seen\<close> holds the terms collected so far.\<close>

fun scan_terms :: "rstr \<Rightarrow> rstr \<Rightarrow> rstr list \<Rightarrow> rstr list" where
  "scan_terms [] token terms =
     (if 1 < str_len token \<and> length terms < 16 \<and> token \<notin> set terms then terms @ [token] else terms)"
| "scan_terms (c # cs) token terms =
     (let (token', terms') =
        if word_char c then (token @ [ascii_lower c], terms)
        else if 1 < str_len token \<and> token \<notin> set terms then ([], terms @ [token])
        else ([], terms)
      in if 16 \<le> length terms' then scan_terms [] token' terms' else scan_terms cs token' terms')"

definition scope_terms :: "rstr \<Rightarrow> rstr list" where
  "scope_terms q = scan_terms q [] []"

definition scoped_hit_score :: "rstr \<Rightarrow> rstr list \<Rightarrow> ('j, b64) hit \<Rightarrow> b64" where
  "scoped_hit_score q terms h =
     (let blob = to_ascii_lowercase ((case h_title h of Some t \<Rightarrow> t | None \<Rightarrow> []) @ lit '' '' @
                   (case h_uri h of Some u \<Rightarrow> u | None \<Rightarrow> []) @ lit '' '' @ h_text h);
          exact = (if contains_str (to_ascii_lowercase q) blob then b64_of_nat 1000 else Fin64 False 0);
          overlap = b64_of_nat (length (filter (\<lambda>t. contains_str t blob) terms))
      in b64_add (b64_add exact (b64_mul overlap (b64_of_nat 10))) (h_score h))"

fun first_of_each :: "int list \<Rightarrow> ('j, 'c) hit list \<Rightarrow> ('j, 'c) hit list" where
  "first_of_each seen [] = []"
| "first_of_each seen (h # hs) =
     (if h_id h \<in> set seen then first_of_each seen hs else h # first_of_each (h_id h # seen) hs)"

text \<open>The order key of a score that is a number; the order of the code is not defined on others.\<close>

definition score_key :: "b64 \<Rightarrow> int" where
  "score_key x = (case b64_key x of Some k \<Rightarrow> k | None \<Rightarrow> 0)"

definition rank_scoped_hits :: "rstr \<Rightarrow> ('j, b64) hit list \<Rightarrow> nat \<Rightarrow> ('j, b64) hit list" where
  "rank_scoped_hits q hits limit =
     (let terms = scope_terms q in
      take limit (sort_key (\<lambda>h. - score_key (scoped_hit_score q terms h)) (first_of_each [] hits)))"

section \<open>Truncated embeddings\<close>

text \<open>An \<^verbatim>\<open>f32\<close> from its bits and back, and its square root.\<close>

definition f32_of_bits :: "u32 \<Rightarrow> f32" where
  "f32_of_bits w =
     (let s = (2 ^ 31 \<le> unat w); e = unat w div 2 ^ 23 mod 256; f = unat w mod 2 ^ 23 in
      if e = 255 then (if f = 0 then Inf s else Float32.NaN)
      else Float32.Fin s (if e = 0 then f else (2 ^ 23 + f) * 2 ^ (e - 1)))"

fun f32_to_bits :: "f32 \<Rightarrow> u32" where
  "f32_to_bits (Float32.Fin s m) =
     word_of_nat ((if s then 2 ^ 31 else 0) +
       (if m < 2 ^ 23 then m else let e = bit_len m - 23 in e * 2 ^ 23 + (m div 2 ^ (e - 1) - 2 ^ 23)))"
| "f32_to_bits (Inf s) = word_of_nat ((if s then 2 ^ 31 else 0) + 255 * 2 ^ 23)"
| "f32_to_bits Float32.NaN = word_of_nat (255 * 2 ^ 23 + 2 ^ 22)"

fun f32_sqrt :: "f32 \<Rightarrow> f32" where
  "f32_sqrt (Float32.Fin s m) =
     (if m = 0 then Float32.Fin s 0 else if s then Float32.NaN
      else let x = m * f32_unit; k = bit_len (isqrt x) - 24; q = isqrt x div 2 ^ k; half = ((2 * q + 1) * 2 ^ k) ^ 2
           in Float32.Fin False ((if half < 4 * x \<or> half = 4 * x \<and> odd q then q + 1 else q) * 2 ^ k))"
| "f32_sqrt (Inf s) = (if s then Float32.NaN else Inf False)"
| "f32_sqrt Float32.NaN = Float32.NaN"

text \<open>The constant \<^verbatim>\<open>1e-10\<close>.\<close>

definition tiny_norm :: f32 where
  "tiny_norm = f32_div (f32_of_nat 1) (f32_of_nat 10000000000)"

definition l2_norm :: "embedding \<Rightarrow> f32" where
  "l2_norm v = f32_sqrt (fold (\<lambda>x acc. f32_add acc (f32_mul (f32_of_bits x) (f32_of_bits x))) v f32_zero)"

definition truncate_embedding :: "nat option \<Rightarrow> embedding \<Rightarrow> embedding" where
  "truncate_embedding want v =
     (case want of
        Some d \<Rightarrow> if d < length v \<and> 0 < d then
            let t = take d v; n = l2_norm t in
            if f32_gt n tiny_norm then map (\<lambda>x. f32_to_bits (f32_div (f32_of_bits x) n)) t else t
          else v
      | None \<Rightarrow> v)"

section \<open>Live queries\<close>

record live_event =
  v_op :: rstr
  v_id :: int
  v_title :: "rstr option"
  v_uri :: "rstr option"
  v_ts :: int

record subscribe_filter =
  f_contains :: "rstr option"
  f_prefix :: "rstr option"

text \<open>\<open>lower\<close> is \<^verbatim>\<open>str::to_lowercase\<close>, which uses the Unicode tables.\<close>

definition matches_filter :: "(rstr \<Rightarrow> rstr) \<Rightarrow> live_event \<Rightarrow> subscribe_filter \<Rightarrow> bool" where
  "matches_filter lower ev f \<longleftrightarrow>
     (case f_contains f of None \<Rightarrow> True
      | Some c \<Rightarrow> (case v_title ev of None \<Rightarrow> False | Some t \<Rightarrow> contains_str (lower c) (lower t))) \<and>
     (case f_prefix f of None \<Rightarrow> True
      | Some p \<Rightarrow> (case v_uri ev of None \<Rightarrow> False | Some u \<Rightarrow> starts_with p u))"

datatype ws_result = Unauthorized | OriginRejected | Upgraded

text \<open>\<open>authorization\<close> and \<open>origin\<close> are header values, \<open>token_param\<close> the query parameter.\<close>

definition given_token :: "rstr option \<Rightarrow> rstr option \<Rightarrow> rstr option" where
  "given_token authorization token_param =
     (case authorization of
        Some v \<Rightarrow> if starts_with (lit ''Bearer '') v then Some (drop 7 v) else token_param
      | None \<Rightarrow> token_param)"

fun after_last_scheme :: "rstr \<Rightarrow> rstr option" where
  "after_last_scheme [] = None"
| "after_last_scheme (c # s) =
     (case after_last_scheme s of Some r \<Rightarrow> Some r
      | None \<Rightarrow> if starts_with (lit ''://'') (c # s) then Some (drop 3 (c # s)) else None)"

definition origin_host :: "rstr \<Rightarrow> rstr" where
  "origin_host origin =
     takeWhile (\<lambda>c. c \<noteq> 58) (case after_last_scheme origin of Some r \<Rightarrow> r | None \<Rightarrow> origin)"

definition loopback_host :: "rstr \<Rightarrow> bool" where
  "loopback_host host \<longleftrightarrow> host \<in> {lit ''localhost'', lit ''127.0.0.1'', lit ''::1'', lit ''[::1]''}"

definition ws_handler :: "rstr option \<Rightarrow> rstr option \<Rightarrow> rstr option \<Rightarrow> rstr option \<Rightarrow> ws_result" where
  "ws_handler expected authorization token_param origin =
     (if (case expected of None \<Rightarrow> False
          | Some k \<Rightarrow> (case given_token authorization token_param of None \<Rightarrow> True | Some g \<Rightarrow> \<not> subtle_eq g k)) then Unauthorized
      else (case origin of
          Some host \<Rightarrow> if loopback_host (origin_host host) then Upgraded else OriginRejected
        | None \<Rightarrow> Upgraded))"

text \<open>The loop of a subscriber over what the channel and the client bring, in the order \<^verbatim>\<open>select!\<close> takes them. An event
  comes with whether sending it works. The result lists what was sent and says whether the loop ended.\<close>

datatype live_input = Event live_event bool | Lagged nat | ChannelClosed | ClientClosed | ClientMessage

fun live_loop :: "(rstr \<Rightarrow> rstr) \<Rightarrow> subscribe_filter \<Rightarrow> live_input list \<Rightarrow> live_event list \<times> bool" where
  "live_loop lower f [] = ([], False)"
| "live_loop lower f (Event ev sent # xs) =
     (if \<not> matches_filter lower ev f then live_loop lower f xs
      else if sent then (case live_loop lower f xs of (out, fin) \<Rightarrow> (ev # out, fin))
      else ([], True))"
| "live_loop lower f (Lagged n # xs) = live_loop lower f xs"
| "live_loop lower f (ClientMessage # xs) = live_loop lower f xs"
| "live_loop lower f (ChannelClosed # xs) = ([], True)"
| "live_loop lower f (ClientClosed # xs) = ([], True)"

section \<open>Tokens are compared exactly\<close>

lemma fold_or_xor: "fold (\<lambda>(x, y) acc. acc OR (x XOR y)) ps acc = (0 :: byte) \<longleftrightarrow> acc = 0 \<and> (\<forall>(x, y) \<in> set ps. x = y)"
proof (induction ps arbitrary: acc)
  case (Cons p ps)
  obtain x y where p: "p = (x, y)" by (cases p)
  have "(acc OR (x XOR y) = 0) = (acc = 0 \<and> x = y)" by (metis bit.xor_self or.right_neutral or_eq_0_iff xor.left_commute xor.right_neutral)
  then show ?case using Cons p by auto
qed simp

lemma subtle_eq_bytes: "subtle_eq a b \<longleftrightarrow> utf8 a = utf8 b"
  by (auto simp: subtle_eq_def str_len_def fold_or_xor list_eq_iff_zip_eq)

lemma subtle_eq_iff: "scalars a \<Longrightarrow> scalars b \<Longrightarrow> subtle_eq a b \<longleftrightarrow> a = b"
  using utf8_inj subtle_eq_bytes by metis

lemma ws_needs_token:
  assumes "ws_handler (Some k) authorization token_param origin = Upgraded"
  shows "\<exists>g. given_token authorization token_param = Some g \<and> utf8 g = utf8 k"
  using assms by (auto simp: ws_handler_def subtle_eq_bytes split: option.splits if_splits)

text \<open>The host is cut at the first colon, so the IPv6 names of the loopback are never accepted.\<close>

lemma ipv6_loopback_rejected:
  assumes "ws_handler expected authorization token_param (Some origin) = Upgraded"
  shows "origin_host origin = lit ''localhost'' \<or> origin_host origin = lit ''127.0.0.1''"
proof -
  have "58 \<notin> set (origin_host origin)" unfolding origin_host_def by (metis (full_types) set_takeWhileD)
  moreover have "loopback_host (origin_host origin)" using assms by (auto simp: ws_handler_def split: option.splits if_splits)
  moreover have "58 \<in> set (lit ''::1'')" "58 \<in> set (lit ''[::1]'')" by (simp_all add: lit_def)
  ultimately show ?thesis unfolding loopback_host_def by (metis insertE singletonD)
qed

section \<open>Keys and names\<close>

lemma sanitize_meta_key_word: "sanitize_meta_key key = Inr k \<Longrightarrow> k \<noteq> [] \<and> list_all word_char k \<and> k = trim key"
  by (auto simp: sanitize_meta_key_def Let_def split: if_splits)

text \<open>A name that passes stays in the directory of tenants.\<close>

lemma tenant_name_flat: "tenant_name_ok name \<Longrightarrow> 47 \<notin> set name \<and> 46 \<notin> set name"
  by (auto simp: tenant_name_ok_def list_all_iff is_ascii_alphanumeric_def is_ascii_digit_def is_ascii_uppercase_def is_ascii_lowercase_def)

text \<open>The authorizer looks for the directory anywhere in the name, so it lets any database file be attached.\<close>

lemma attach_anywhere:
  "sql_authorized (Attach (lit ''file:'' @ path @ lit ''?mode=ro&x=/.synapse/tenants/''))"
proof -
  let ?f = "lit ''file:'' @ path @ lit ''?mode=ro&x=/.synapse/tenants/''"
  have "lit ''?mode=ro&x=/.synapse/tenants/'' = lit ''?'' @ lit ''mode=ro'' @ lit ''&x='' @ lit ''/.synapse/tenants/''" by (simp add: lit_def)
  then have "?f = (lit ''file:'' @ path @ lit ''?'') @ lit ''mode=ro'' @ (lit ''&x='' @ lit ''/.synapse/tenants/'')"
      "?f = (lit ''file:'' @ path @ lit ''?'' @ lit ''mode=ro'' @ lit ''&x='') @ lit ''/.synapse/tenants/'' @ []" by simp_all
  then have "sublist (lit ''mode=ro'') ?f" "sublist (lit ''/.synapse/tenants/'') ?f" by (metis sublist_appendI)+
  then show ?thesis by (simp add: contains_str_sublist starts_with_def)
qed

lemma daemon_query_agrees: "daemon_match_query q = fts5_match_query q"
  by (simp add: daemon_match_query_def fts5_match_query_def)

section \<open>Scoped ranking\<close>

lemma first_of_each_set: "set (first_of_each seen hs) \<subseteq> set hs" "set (map h_id (first_of_each seen hs)) \<inter> set seen = {}"
  "distinct (map h_id (first_of_each seen hs))" "h_id ` set (first_of_each seen hs) = h_id ` set hs - set seen"
proof (induction hs arbitrary: seen)
  case (Cons h hs)
  { case 1 show ?case using Cons(1) by auto }
  { case 2 show ?case using Cons(2) [of seen] Cons(2) [of "h_id h # seen"] by auto }
  { case 3 show ?case using Cons(3) [of seen] Cons(3) [of "h_id h # seen"] Cons(2) [of "h_id h # seen"] by auto }
  { case 4 show ?case using Cons(4) [of seen] Cons(4) [of "h_id h # seen"] by auto }
qed simp_all

lemma rank_scoped_exact:
  "set (rank_scoped_hits q hs limit) \<subseteq> set hs" "distinct (map h_id (rank_scoped_hits q hs limit))"
  "length (rank_scoped_hits q hs limit) = min limit (card (h_id ` set hs))"
  "sorted (map (\<lambda>h. - score_key (scoped_hit_score q (scope_terms q) h)) (rank_scoped_hits q hs limit))"
proof -
  let ?u = "first_of_each [] hs" and ?f = "\<lambda>h. - score_key (scoped_hit_score q (scope_terms q) h)"
  show "set (rank_scoped_hits q hs limit) \<subseteq> set hs"
    using first_of_each_set(1) [of "[]" hs] set_take_subset [of limit "sort_key ?f ?u"] by (simp add: rank_scoped_hits_def Let_def)
  have ms: "mset (map h_id (sort_key ?f ?u)) = mset (map h_id ?u)" by simp
  have d: "distinct (map h_id (sort_key ?f ?u))" using mset_eq_imp_distinct_iff [OF ms] first_of_each_set(3) [of "[]" hs] by blast
  then show "distinct (map h_id (rank_scoped_hits q hs limit))" unfolding rank_scoped_hits_def Let_def take_map [symmetric] by (rule distinct_take)
  have "length ?u = card (h_id ` set hs)" using distinct_card [OF first_of_each_set(3) [of "[]" hs]] first_of_each_set(4) [of "[]" hs] by simp
  then show "length (rank_scoped_hits q hs limit) = min limit (card (h_id ` set hs))" by (simp add: rank_scoped_hits_def Let_def)
  have "sorted (map ?f (sort_key ?f ?u))" by simp
  then show "sorted (map ?f (rank_scoped_hits q hs limit))" unfolding rank_scoped_hits_def Let_def take_map [symmetric] by (rule sorted_wrt_take)
qed

section \<open>Snapshots stay in their directory\<close>

text \<open>What \<^verbatim>\<open>canonicalize\<close> returns: an absolute path without \<^verbatim>\<open>..\<close>.\<close>

definition snap_fs_ok :: "snap_fs \<Rightarrow> bool" where
  "snap_fs_ok fs \<longleftrightarrow> (\<forall>p q. canonicalize fs p = Some q \<longrightarrow> fst q \<and> dotdot \<notin> set (snd q) \<and> dot \<notin> set (snd q))"

lemma path_within_snoc: "path_within b p \<Longrightarrow> path_within b (fst p, snd p @ [f])"
proof -
  assume w: "path_within b p"
  then have "length (snd b) \<le> length (snd p)" unfolding path_within_def by (metis length_take min.cobounded1)
  then show ?thesis using w by (simp add: path_within_def)
qed

text \<open>
  When the snapshot directory exists, a path that is accepted for a snapshot is inside it: its components start with
  those of the canonical directory, and it has no \<^verbatim>\<open>..\<close> unless its own directory does not exist, so that no file can
  be created there.
\<close>

theorem snap_path_confined:
  assumes "snap_fs_ok fs" "canonicalize fs base = Some b" "sanitize_snap_path fs base out = Inr p"
  shows "path_within b p \<and> (dotdot \<in> set (snd p) \<longrightarrow> canonicalize fs (fst p, butlast (snd p)) = None)"
proof (cases "path_exists fs (path_join base (path_of out))")
  case True
  then have "path_within b p" "canonicalize fs (path_join base (path_of out)) = Some p"
    using assms(2,3) by (auto simp: sanitize_snap_path_def Let_def split: option.splits if_splits)
  then show ?thesis using assms(1) unfolding snap_fs_ok_def by metis
next
  case False
  let ?a = "path_join base (path_of out)"
  obtain q f where q: "path_parent ?a = Some q" and f: "path_file_name ?a = Some f"
    using assms(3) False by (auto simp: sanitize_snap_path_def Let_def split: option.splits if_splits)
  let ?c = "case canonicalize fs q of Some p \<Rightarrow> p | None \<Rightarrow> q"
  have p: "p = (fst ?c, snd ?c @ [f])" and w: "path_within b ?c"
    using assms(2,3) False q f by (auto simp: sanitize_snap_path_def Let_def split: option.splits if_splits)
  have "f \<noteq> dotdot" using f by (auto simp: path_file_name_def split: if_splits)
  then have "canonicalize fs ?c = None" if "dotdot \<in> set (snd p)"
    using that assms(1) unfolding p snap_fs_ok_def by (cases "canonicalize fs q") auto
  then show ?thesis using path_within_snoc [OF w] unfolding p by simp
qed

definition sample_fs :: snap_fs where
  "sample_fs = \<lparr>canonicalize = (\<lambda>p. if p = (True, [lit ''snaps'']) then Some p else None), path_exists = (\<lambda>p. p = (True, [lit ''snaps'']))\<rparr>"

theorem snap_path_confined_witness:
  "sanitize_snap_path sample_fs (True, [lit ''snaps'']) (lit ''new.pack'') = Inr (True, [lit ''snaps'', lit ''new.pack'']) \<and>
   path_within (True, [lit ''snaps'']) (True, [lit ''snaps'', lit ''new.pack''])"
proof -
  have ok: "snap_fs_ok sample_fs" by (auto simp: snap_fs_ok_def sample_fs_def lit_def split: if_splits)
  have b: "canonicalize sample_fs (True, [lit ''snaps'']) = Some (True, [lit ''snaps''])" by (simp add: sample_fs_def)
  have r: "sanitize_snap_path sample_fs (True, [lit ''snaps'']) (lit ''new.pack'') = Inr (True, [lit ''snaps'', lit ''new.pack''])"
    by (simp add: sanitize_snap_path_def sample_fs_def path_of_def path_join_def path_parent_def path_file_name_def path_within_def lit_def starts_with_def)
  show ?thesis using snap_path_confined [OF ok b r] r by blast
qed

text \<open>With a base that is the empty path, as for a database file named without a directory, nothing is refused.\<close>

lemma empty_base_accepts_all:
  assumes "canonicalize fs (False, []) = None" "path_exists fs (path_of out)" "canonicalize fs (path_of out) = Some q"
  shows "sanitize_snap_path fs (False, []) out = Inr q"
proof -
  have "path_join (False, []) (path_of out) = path_of out" by (simp add: path_join_def)
  then show ?thesis using assms by (simp add: sanitize_snap_path_def path_within_def)
qed

section \<open>Subscribers\<close>

text \<open>A loop that has not ended has sent exactly the events that match, in order.\<close>

lemma live_loop_exact:
  "live_loop lower f xs = (out, False) \<Longrightarrow> out = List.map_filter (\<lambda>x. case x of Event ev _ \<Rightarrow> if matches_filter lower ev f then Some ev else None | _ \<Rightarrow> None) xs"
  by (induction lower f xs arbitrary: out rule: live_loop.induct) (auto simp: List.map_filter_def split: if_splits prod.splits)

end
