(* ===== verification/Daemon.thy ===== *)
theory Daemon
  imports Daemon_Guards Audit_Trail "HOL-Library.AList"
begin

text \<open>
  The daemon, \<^verbatim>\<open>crates/synapsed/src/main.rs\<close> with \<^verbatim>\<open>proto.rs\<close>: its state with the store, the audit trail
  in the same database, the lifted vector index and the caches; one definition for each operation behind a request; the
  dispatcher; and the loop of a connection over its frames. A handler runs to its end before the next one starts.
  The mutex of the store is not reentrant: \<open>dm_held\<close> says that it is locked, and locking it then never returns
  (\<open>Blocked\<close>). A record of arguments holds the embedder, the kernels, the engines, the file system and the configuration.
\<close>

section \<open>State and arguments\<close>

record db_fingerprint =
  fp_m :: "int option"
  fp_l :: nat
  fp_wm :: "int option"
  fp_wl :: nat

text \<open>What the clocks and the file system show during one operation: \<^verbatim>\<open>now_ms\<close> for each row of a batch, the time of the memory
  layer and of each audit row, the seconds of an event, the monotonic clock, a latency, the files of the database, and whether FTS5 refuses to remove a row.\<close>

record moment =
  t_ms :: "nat \<Rightarrow> int"
  t_mem :: int
  t_audit :: "nat \<Rightarrow> int"
  t_secs :: int
  t_instant :: int
  t_latency :: nat
  t_fp :: db_fingerprint
  t_fts_fails :: bool

record 'j daemon =
  dm_store :: store
  dm_trail :: audit_db
  dm_held :: bool
  dm_hot :: "(int \<times> embedding) list option"
  dm_sql :: bool
  dm_tenant :: "rstr option"
  dm_cache :: "(rstr \<times> ('j, b64) hit list) list"
  dm_seen :: "db_fingerprint option"
  dm_stats :: "(int \<times> int \<times> int \<times> int) option"
  dm_embeds :: "(rstr \<times> embedding) list"
  dm_events :: "live_event list"
  dm_written :: "fpath list"

datatype sql_value = SNull | SInt int | SReal b64 | SText rstr | SBlob nat

text \<open>The cases \<^verbatim>\<open>serde_json::Value\<close> is taken apart into, a number with its integer and its float value.\<close>

datatype json_view = VNull | VBool bool | VNumber "int option" "b64 option" | VString rstr | VOther rstr

datatype json_cell = CNull | CInt int | CReal b64 | CString rstr

record 'j daemon_env =
  e_lib :: "'j store_lib"
  e_vec :: vec_lib
  e_lex :: lex_engine
  e_perm :: "rrf_pair list \<Rightarrow> rrf_pair list"
  e_embed :: "rstr \<Rightarrow> embedding option"
  e_embed_batch :: "rstr list \<Rightarrow> embedding list option"
  e_rerank :: "rstr \<Rightarrow> ('j, b64) hit list \<Rightarrow> nat \<Rightarrow> ('j, b64) hit list option"
  e_merge :: "bytes \<Rightarrow> bytes \<Rightarrow> bytes option"
  e_key :: "bytes \<Rightarrow> (bytes \<Rightarrow> bytes \<Rightarrow> bool) option"
  e_fts5 :: "(int \<times> rstr option \<times> rstr) list \<Rightarrow> rstr \<Rightarrow> (int \<times> b64) list option"
  e_scope :: "rstr \<Rightarrow> rstr \<Rightarrow> rstr \<Rightarrow> bool"
  e_fs :: snap_fs
  e_snap_dir :: fpath
  e_export :: "fpath \<Rightarrow> int \<Rightarrow> bool"
  e_merge_packs :: "fpath \<Rightarrow> fpath \<Rightarrow> int \<Rightarrow> bool"
  e_file_exists :: "rstr \<Rightarrow> bool"
  e_attach :: "rstr \<Rightarrow> bool"
  e_home :: rstr
  e_query :: "store \<Rightarrow> rstr option \<Rightarrow> rstr \<Rightarrow> sql_value list \<Rightarrow> (rstr list \<times> sql_value list list) option"
  e_view :: "'j \<Rightarrow> json_view"
  e_json :: "json_cell \<Rightarrow> 'j"
  e_token :: "rstr option"
  e_max_put :: nat
  e_stats_ttl :: int
  e_fast_off :: bool

definition MAX_SEARCH_LIMIT :: nat where "MAX_SEARCH_LIMIT = 1000"
definition QUERY_CACHE_MAX :: nat where "QUERY_CACHE_MAX = 4096"
definition EMBED_CACHE_MAX :: nat where "EMBED_CACHE_MAX = 4096"
definition SEARCH_SNIPPET_CHARS :: nat where "SEARCH_SNIPPET_CHARS = 512"
definition MAX_SQL_ROWS :: nat where "MAX_SQL_ROWS = 10000"
definition MAX_FRAME :: nat where "MAX_FRAME = 256 * 1024 * 1024"

datatype daemon_error =
    OutOfBounds put_bound | StoreFailed store_error | EmbedFailed | SqlFailed | NoSqlConn | NoEmbedding | BadScopeKey key_error
  | BadSnapPath snap_error | ExportFailed | BadKeyLength | BadKey | RerankFailed | BadTenant | TenantMissing | AttachFailed
  | RowCap | AuthRequired | InvalidToken

section \<open>Handlers that may block\<close>

datatype ('j, 'a) run = Val 'a "'j daemon" | Bad daemon_error "'j daemon" | Blocked "'j daemon" | Panicked "'j daemon"

fun run_bind :: "('j, 'a) run \<Rightarrow> ('a \<Rightarrow> 'j daemon \<Rightarrow> ('j, 'b) run) \<Rightarrow> ('j, 'b) run" where
  "run_bind (Val x d) f = f x d"
| "run_bind (Bad e d) f = Bad e d"
| "run_bind (Blocked d) f = Blocked d"
| "run_bind (Panicked d) f = Panicked d"

definition with_store :: "'j daemon \<Rightarrow> (store \<Rightarrow> ('j, 'a) run) \<Rightarrow> ('j, 'a) run" where
  "with_store d f = (if dm_held d then Blocked d else f (dm_store d))"

abbreviation digest :: "'j daemon_env \<Rightarrow> bytes \<Rightarrow> bytes" where
  "digest E \<equiv> blake3 (e_lib E)"

text \<open>The audit trail stores the bytes of its strings.\<close>

definition byte_string :: "rstr \<Rightarrow> string" where
  "byte_string s = map (\<lambda>b. char_of (unat b)) (utf8 s)"

definition append_event :: "'j daemon_env \<Rightarrow> int \<Rightarrow> audit_action \<Rightarrow> rstr \<Rightarrow> 'j daemon \<Rightarrow> ('j, unit) run" where
  "append_event E now action target d =
     (case audit_append (digest E) now (dm_trail d) ''daemon'' action (byte_string target) None None of
        Inl APanic \<Rightarrow> Panicked d | Inl _ \<Rightarrow> Val () d | Inr (i, db) \<Rightarrow> Val () (d\<lparr>dm_trail := db\<rparr>))"

definition audit :: "'j daemon_env \<Rightarrow> moment \<Rightarrow> audit_action \<Rightarrow> rstr \<Rightarrow> 'j daemon \<Rightarrow> ('j, unit) run" where
  "audit E t action target d = with_store d (\<lambda>_. append_event E (t_audit t 0) action target d)"

fun append_ids :: "'j daemon_env \<Rightarrow> moment \<Rightarrow> rstr \<Rightarrow> nat \<Rightarrow> int list \<Rightarrow> 'j daemon \<Rightarrow> ('j, unit) run" where
  "append_ids E t label n [] d = Val () d"
| "append_ids E t label n (i # is) d =
     run_bind (append_event E (t_audit t n) ActWrite (label @ show_int i) d) (\<lambda>_. append_ids E t label (Suc n) is)"

definition audit_ids :: "'j daemon_env \<Rightarrow> moment \<Rightarrow> rstr \<Rightarrow> int list \<Rightarrow> 'j daemon \<Rightarrow> ('j, unit) run" where
  "audit_ids E t label ids d = with_store d (\<lambda>_. append_ids E t label 0 ids d)"

section \<open>Caches\<close>

definition mode_cache_tag :: "search_mode \<Rightarrow> rstr" where
  "mode_cache_tag mode = (case mode of LexMode \<Rightarrow> lit ''lex'' | VecMode \<Rightarrow> lit ''vec'' | HybridMode \<Rightarrow> lit ''hybrid'')"

definition search_cache_key :: "search_mode \<Rightarrow> rstr \<Rightarrow> nat \<Rightarrow> bool \<Rightarrow> rstr" where
  "search_cache_key mode q limit embed_query =
     mode_cache_tag mode @ [58] @ show_nat (max limit 1) @ [58] @ show_nat (if embed_query then 1 else 0) @ [58] @ q"

definition clear_query_cache :: "'j daemon \<Rightarrow> 'j daemon" where
  "clear_query_cache d = d\<lparr>dm_cache := []\<rparr>"

definition get_cached_hits :: "moment \<Rightarrow> search_mode \<Rightarrow> rstr \<Rightarrow> nat \<Rightarrow> bool \<Rightarrow> 'j daemon \<Rightarrow> ('j, b64) hit list option \<times> 'j daemon" where
  "get_cached_hits t mode q limit embed_query d =
     (if dm_seen d \<noteq> Some (t_fp t) then (None, clear_query_cache (d\<lparr>dm_seen := Some (t_fp t)\<rparr>))
      else (map_of (dm_cache d) (search_cache_key mode q limit embed_query), d))"

definition put_cached_hits :: "search_mode \<Rightarrow> rstr \<Rightarrow> nat \<Rightarrow> bool \<Rightarrow> ('j, b64) hit list \<Rightarrow> 'j daemon \<Rightarrow> 'j daemon" where
  "put_cached_hits mode q limit embed_query hits d =
     (let cache = (if QUERY_CACHE_MAX \<le> length (dm_cache d) then [] else dm_cache d) in
      d\<lparr>dm_cache := AList.update (search_cache_key mode q limit embed_query) hits cache\<rparr>)"

definition get_cached_embedding :: "rstr \<Rightarrow> 'j daemon \<Rightarrow> embedding option" where
  "get_cached_embedding q d = map_of (dm_embeds d) q"

definition put_cached_embedding :: "rstr \<Rightarrow> embedding \<Rightarrow> 'j daemon \<Rightarrow> 'j daemon" where
  "put_cached_embedding q v d =
     (let cache = (if EMBED_CACHE_MAX \<le> length (dm_embeds d) then [] else dm_embeds d) in d\<lparr>dm_embeds := AList.update q v cache\<rparr>)"

fun count_put :: "int \<times> bool \<Rightarrow> int \<times> int \<times> int \<Rightarrow> int \<times> int \<times> int" where
  "count_put (i, has_vec) (n, v, m) = (if m < i then (n + 1, v + of_bool has_vec, i) else (n, v, m))"

definition adjust_stats_cache_after_put :: "moment \<Rightarrow> int \<Rightarrow> bool \<Rightarrow> 'j daemon \<Rightarrow> 'j daemon" where
  "adjust_stats_cache_after_put t i has_vec d =
     (case dm_stats d of None \<Rightarrow> d | Some (_, nvm) \<Rightarrow> d\<lparr>dm_stats := Some (t_instant t, count_put (i, has_vec) nvm)\<rparr>)"

definition adjust_stats_cache_after_batch :: "moment \<Rightarrow> int list \<Rightarrow> 'j put_request list \<Rightarrow> 'j daemon \<Rightarrow> 'j daemon" where
  "adjust_stats_cache_after_batch t ids reqs d =
     (case dm_stats d of None \<Rightarrow> d
      | Some (_, nvm) \<Rightarrow> d\<lparr>dm_stats := Some (t_instant t, fold count_put (zip ids (map (\<lambda>r. r_embedding r \<noteq> None) reqs)) nvm)\<rparr>)"

section \<open>Writing\<close>

definition update_lifted_ndarray :: "int \<Rightarrow> embedding option \<Rightarrow> 'j daemon \<Rightarrow> 'j daemon" where
  "update_lifted_ndarray i emb d =
     (case (emb, dm_hot d) of (Some e, Some c) \<Rightarrow> d\<lparr>dm_hot := add_row i e c\<rparr> | _ \<Rightarrow> d)"

definition put_one :: "'j daemon_env \<Rightarrow> moment \<Rightarrow> 'j put_req \<Rightarrow> 'j daemon \<Rightarrow> ('j, int) run" where
  "put_one E t p d =
     (case check_put_bounds (e_lib E) (e_max_put E) p of Some b \<Rightarrow> Bad (OutOfBounds b) d
      | None \<Rightarrow>
          (case (case p_embedding p of Some v \<Rightarrow> Some (Some v)
                 | None \<Rightarrow> if p_embed p then map_option Some (e_embed E (p_text p)) else Some None) of
             None \<Rightarrow> Bad EmbedFailed d
           | Some emb \<Rightarrow> with_store d (\<lambda>s.
               (case put (e_lib E) (t_ms t 0) (t_mem t) (into_request p emb) s of
                  Inl e \<Rightarrow> Bad (StoreFailed e) d
                | Inr (i, s') \<Rightarrow> Val i (clear_query_cache (update_lifted_ndarray i emb
                    (adjust_stats_cache_after_put t i (emb \<noteq> None) (d\<lparr>dm_store := s'\<rparr>)))))))) "

text \<open>The embeddings of a batch: the given ones, and for the requests that ask for one the embedder's, which embeds all texts when
  any asks. None is a batch that is shorter than the texts, where indexing panics.\<close>

definition batch_requests :: "embedding list \<Rightarrow> 'j put_req list \<Rightarrow> 'j put_request list option" where
  "batch_requests vs ps =
     those (map (\<lambda>(n, p). case p_embedding p of Some v \<Rightarrow> Some (into_request p (Some v))
        | None \<Rightarrow> if p_embed p then (if n < length vs then Some (into_request p (Some (vs ! n))) else None)
                  else Some (into_request p None)) (enumerate 0 ps))"

definition daemon_put_batch :: "'j daemon_env \<Rightarrow> moment \<Rightarrow> 'j put_req list \<Rightarrow> 'j daemon \<Rightarrow> ('j, int list) run" where
  "daemon_put_batch E t ps d =
     (case List.map_filter (check_put_bounds (e_lib E) (e_max_put E)) ps of b # _ \<Rightarrow> Bad (OutOfBounds b) d
      | [] \<Rightarrow>
          (case (if list_ex (\<lambda>p. p_embed p \<and> p_embedding p = None) ps then e_embed_batch E (map p_text ps) else Some []) of
             None \<Rightarrow> Bad EmbedFailed d
           | Some vs \<Rightarrow>
               (case batch_requests vs ps of None \<Rightarrow> Panicked d
                | Some reqs \<Rightarrow> with_store d (\<lambda>s.
                    (case put_batch (e_lib E) (t_ms t) (t_mem t) reqs s of
                       Inl e \<Rightarrow> Bad (StoreFailed e) d
                     | Inr (ids, s') \<Rightarrow> Val ids (clear_query_cache (fold (\<lambda>(i, r). update_lifted_ndarray i (r_embedding r)) (zip ids reqs)
                         (adjust_stats_cache_after_batch t ids reqs (d\<lparr>dm_store := s'\<rparr>)))))))))"

section \<open>Searching on the read-only connection\<close>

definition snippet_hit :: "b64 \<Rightarrow> doc_row \<Rightarrow> ('j, b64) hit" where
  "snippet_hit score r = \<lparr>h_id = d_id r, h_uri = d_uri r, h_title = d_title r, h_text = take SEARCH_SNIPPET_CHARS (d_text r),
     h_score = score, h_meta = None, h_ts = None\<rparr>"

text \<open>The matches joined with their documents that satisfy \<open>P\<close>, by \<^verbatim>\<open>bm25\<close> or in the order of the index.\<close>

definition lex_rows :: "bool \<Rightarrow> (doc_row \<Rightarrow> bool) \<Rightarrow> (int \<times> b64) list \<Rightarrow> store \<Rightarrow> ('j, b64) hit list" where
  "lex_rows use_bm25 P ms s =
     List.map_filter (\<lambda>(i, raw). map_option (snippet_hit (if use_bm25 then b64_neg raw else Fin64 False 0))
         (find (\<lambda>r. d_id r = i \<and> P r) (docs s)))
       (if use_bm25 then sort_key (\<lambda>m. score_key (snd m)) ms else ms)"

definition fast_lex_from_state :: "'j daemon_env \<Rightarrow> rstr \<Rightarrow> nat \<Rightarrow> 'j daemon \<Rightarrow> daemon_error + ('j, b64) hit list option" where
  "fast_lex_from_state E q limit d =
     (case daemon_match_query q of None \<Rightarrow> Inr (Some [])
      | Some fts_query \<Rightarrow> if \<not> dm_sql d then Inr None
          else (case e_fts5 E (docs_fts (dm_store d)) fts_query of None \<Rightarrow> Inl SqlFailed
                | Some ms \<Rightarrow> Inr (Some (take limit (lex_rows (should_rank_lex_with_bm25 q) (\<lambda>_. True) ms (dm_store d))))))"

fun hydrate_snippets :: "doc_row list \<Rightarrow> (int \<times> b64) list \<Rightarrow> ('j, b64) hit list" where
  "hydrate_snippets rows [] = []"
| "hydrate_snippets rows ((i, far) # ps) =
     (case find (\<lambda>r. d_id r = i) rows of
        None \<Rightarrow> hydrate_snippets rows ps
      | Some r \<Rightarrow> snippet_hit (dist_score far) r # hydrate_snippets (filter (\<lambda>r. d_id r \<noteq> i) rows) ps)"

definition hydrate_pairs_from_state :: "(int \<times> f32) list \<Rightarrow> 'j daemon \<Rightarrow> daemon_error + ('j, b64) hit list" where
  "hydrate_pairs_from_state ps d =
     (if ps = [] then Inr [] else if \<not> dm_sql d then Inl NoSqlConn
      else Inr (hydrate_snippets (docs (dm_store d)) (as_b64_dist ps)))"

definition hot_search :: "vec_lib \<Rightarrow> embedding \<Rightarrow> nat \<Rightarrow> 'j daemon \<Rightarrow> (int \<times> f32) list option" where
  "hot_search K emb limit d =
     (case dm_hot d of None \<Rightarrow> None
      | Some c \<Rightarrow> if c = [] then None else Some (cascade_search K (max 4096 (usize (limit * 64))) c emb limit))"

definition fast_vec_from_state :: "'j daemon_env \<Rightarrow> embedding \<Rightarrow> nat \<Rightarrow> 'j daemon \<Rightarrow> daemon_error + ('j, b64) hit list option" where
  "fast_vec_from_state E emb limit d =
     (case hot_search (e_vec E) emb limit d of None \<Rightarrow> Inr None
      | Some ps \<Rightarrow> if ps = [] then Inr None
          else (case hydrate_pairs_from_state ps d of Inl e \<Rightarrow> Inl e | Inr hs \<Rightarrow> Inr (Some hs)))"

abbreviation or_empty :: "'a list option \<Rightarrow> 'a list" where
  "or_empty x \<equiv> (case x of None \<Rightarrow> [] | Some xs \<Rightarrow> xs)"

datatype 'j fast_result = FastError daemon_error | FastNone | FastHits "('j, b64) hit list" | FastPanic

definition fast_of :: "daemon_error + ('j, b64) hit list option \<Rightarrow> 'j fast_result" where
  "fast_of r = (case r of Inl e \<Rightarrow> FastError e | Inr None \<Rightarrow> FastNone | Inr (Some hs) \<Rightarrow> FastHits hs)"

definition fuse_fast :: "(rrf_pair list \<Rightarrow> rrf_pair list) \<Rightarrow> ('j, b64) hit list \<Rightarrow> ('j, b64) hit list \<Rightarrow> nat \<Rightarrow> 'j fast_result" where
  "fuse_fast perm lx vx limit =
     (if lx = [] \<and> vx = [] then FastNone
      else (case rrf_merge_neon perm lx vx limit of None \<Rightarrow> FastPanic | Some hs \<Rightarrow> FastHits hs))"

text \<open>\<^verbatim>\<open>saturating_mul\<close> does not saturate here: the limit is at most a thousand.\<close>

definition fast_search_from_state :: "'j daemon_env \<Rightarrow> search_mode \<Rightarrow> rstr \<Rightarrow> embedding option \<Rightarrow> nat \<Rightarrow> 'j daemon \<Rightarrow> 'j fast_result" where
  "fast_search_from_state E mode q emb limit0 d =
     (if e_fast_off E then FastNone
      else let limit = max limit0 1; k = max (min (limit * 3) (2 ^ 64 - 1)) limit in
        (case mode of
           LexMode \<Rightarrow> fast_of (fast_lex_from_state E q limit d)
         | VecMode \<Rightarrow> (case emb of None \<Rightarrow> FastNone | Some v \<Rightarrow> fast_of (fast_vec_from_state E v limit d))
         | HybridMode \<Rightarrow> (case emb of None \<Rightarrow> FastNone
             | Some v \<Rightarrow>
                 (case fast_lex_from_state E q k d of Inl e \<Rightarrow> FastError e
                  | Inr lx \<Rightarrow> (case fast_vec_from_state E v k d of Inl e \<Rightarrow> FastError e
                      | Inr vx \<Rightarrow> fuse_fast (e_perm E) (or_empty lx) (or_empty vx) limit)))))"

section \<open>Searching\<close>

fun b64_f64 :: "b64 \<Rightarrow> f64" where
  "b64_f64 (Fin64 s m) = Memory_Layer.Fin ((if s then -1 else 1) * of_nat m / 2 ^ 1074)"
| "b64_f64 (Inf64 s) = (if s then NegInf else PosInf)"
| "b64_f64 NaN64 = Memory_Layer.NaN"

definition log_hits :: "'j daemon_env \<Rightarrow> moment \<Rightarrow> rstr \<Rightarrow> search_mode \<Rightarrow> ('j, b64) hit list \<Rightarrow> store \<Rightarrow> store" where
  "log_hits E t q mode hs s =
     log_query (e_lib E) (t_ms t 0) q mode (t_latency t) (length hs)
       (b64_f64 (case hs of [] \<Rightarrow> Fin64 False 0 | h # _ \<Rightarrow> h_score h)) s"

definition query_embedding :: "'j daemon_env \<Rightarrow> rstr \<Rightarrow> bool \<Rightarrow> 'j daemon \<Rightarrow> ('j, embedding option) run" where
  "query_embedding E q embed_query d =
     (if \<not> embed_query then Val None d
      else (case get_cached_embedding q d of
          Some v \<Rightarrow> Val (Some v) d
        | None \<Rightarrow> (case e_embed E q of None \<Rightarrow> Bad EmbedFailed d | Some v \<Rightarrow> Val (Some v) (put_cached_embedding q v d))))"

definition search_store :: "'j daemon_env \<Rightarrow> moment \<Rightarrow> search_mode \<Rightarrow> rstr \<Rightarrow> embedding option \<Rightarrow> nat \<Rightarrow> 'j daemon \<Rightarrow>
    ('j, ('j, b64) hit list) run" where
  "search_store E t mode q emb limit d =
     with_store d (\<lambda>s.
       (case store_search (e_lib E) (e_vec E) (e_lex E) (e_perm E) q mode emb limit s of
          (Found hs, s') \<Rightarrow> Val hs (d\<lparr>dm_store := log_hits E t q mode hs s'\<rparr>)
        | (SearchError e, s') \<Rightarrow> Bad (StoreFailed e) (d\<lparr>dm_store := s'\<rparr>)
        | (NeedsEmbedding, s') \<Rightarrow> Bad NoEmbedding (d\<lparr>dm_store := s'\<rparr>)
        | (SearchPanic, s') \<Rightarrow> Panicked (d\<lparr>dm_store := s'\<rparr>)))"

definition daemon_search :: "'j daemon_env \<Rightarrow> moment \<Rightarrow> search_mode \<Rightarrow> rstr \<Rightarrow> nat \<Rightarrow> bool \<Rightarrow> 'j daemon \<Rightarrow> ('j, ('j, b64) hit list) run" where
  "daemon_search E t mode q limit0 embed_query d =
     (let limit = max 1 (min MAX_SEARCH_LIMIT limit0) in
      case get_cached_hits t mode q limit embed_query d of
        (Some hits, d1) \<Rightarrow> Val hits d1
      | (None, d1) \<Rightarrow>
          run_bind (query_embedding E q embed_query d1) (\<lambda>emb d2.
            run_bind
              (case fast_search_from_state E mode q emb limit d2 of
                 FastError e \<Rightarrow> Bad e d2
               | FastPanic \<Rightarrow> Panicked d2
               | FastHits hs \<Rightarrow> with_store d2 (\<lambda>s. Val hs (d2\<lparr>dm_store := log_hits E t q mode hs s\<rparr>))
               | FastNone \<Rightarrow> search_store E t mode q emb limit d2)
              (\<lambda>hs d3. Val hs (put_cached_hits mode q limit embed_query hs d3))))"

definition in_scope :: "'j daemon_env \<Rightarrow> rstr \<Rightarrow> rstr \<Rightarrow> doc_row \<Rightarrow> bool" where
  "in_scope E key v r = (case d_meta r of None \<Rightarrow> False | Some m \<Rightarrow> e_scope E m key v)"

definition scoped_lex_from_state :: "'j daemon_env \<Rightarrow> rstr \<Rightarrow> rstr \<Rightarrow> rstr \<Rightarrow> nat \<Rightarrow> 'j daemon \<Rightarrow> daemon_error + ('j, b64) hit list" where
  "scoped_lex_from_state E q key v limit d =
     (if \<not> dm_sql d then Inl NoSqlConn
      else (case fts5_loose_match_query q of
          Some fts_query \<Rightarrow> (case e_fts5 E (docs_fts (dm_store d)) fts_query of None \<Rightarrow> Inl SqlFailed
              | Some ms \<Rightarrow> Inr (take limit (lex_rows (should_rank_lex_with_bm25 q) (in_scope E key v) ms (dm_store d))))
        | None \<Rightarrow> Inr (map (snippet_hit (Fin64 False 0)) (take limit (sort_key (\<lambda>r. - d_ts r)
            (sort_key (\<lambda>r. - d_id r) (filter (in_scope E key v) (docs (dm_store d)))))))))"

definition filter_hits_by_scope :: "'j daemon_env \<Rightarrow> ('j, b64) hit list \<Rightarrow> rstr \<Rightarrow> rstr \<Rightarrow> 'j daemon \<Rightarrow> daemon_error + ('j, b64) hit list" where
  "filter_hits_by_scope E hits key v d =
     (if hits = [] then Inr [] else if \<not> dm_sql d then Inl NoSqlConn
      else let scoped_ids = d_id ` set (filter (in_scope E key v) (docs (dm_store d))) in Inr (filter (\<lambda>h. h_id h \<in> scoped_ids) hits))"

definition run_of :: "'j daemon \<Rightarrow> daemon_error + 'a \<Rightarrow> ('j, 'a) run" where
  "run_of d r = (case r of Inl e \<Rightarrow> Bad e d | Inr x \<Rightarrow> Val x d)"

definition search_scoped :: "'j daemon_env \<Rightarrow> moment \<Rightarrow> search_mode \<Rightarrow> rstr \<Rightarrow> nat \<Rightarrow> bool \<Rightarrow> rstr \<Rightarrow> rstr \<Rightarrow> nat option \<Rightarrow> 'j daemon \<Rightarrow>
    ('j, ('j, b64) hit list) run" where
  "search_scoped E t mode q limit0 embed_query scope_key scope_value candidate_limit d =
     (let limit = max 1 (min MAX_SEARCH_LIMIT limit0);
          fetch_k = min (max (case candidate_limit of Some n \<Rightarrow> n | None \<Rightarrow> min (limit * 10) (2 ^ 64 - 1)) limit) (MAX_SEARCH_LIMIT * 10) in
      case sanitize_meta_key scope_key of Inl e \<Rightarrow> Bad (BadScopeKey e) d
      | Inr key \<Rightarrow>
          run_bind (run_of d (scoped_lex_from_state E q key scope_value fetch_k d)) (\<lambda>candidates d1.
            run_bind
              (if length candidates < limit \<and> mode \<noteq> LexMode then
                 run_bind (daemon_search E t mode q fetch_k embed_query d1) (\<lambda>global d2.
                   run_bind (run_of d2 (filter_hits_by_scope E global key scope_value d2)) (\<lambda>filtered d3. Val (candidates @ filtered) d3))
               else Val candidates d1)
              (\<lambda>hits d4. Val (rank_scoped_hits q hits limit) d4)))"

section \<open>Requests\<close>

record batch_search_item =
  b_mode :: search_mode
  b_q :: rstr
  b_limit :: nat
  b_embed :: bool

datatype 'j request =
    Ping | Put "'j put_req" | PutBatch "'j put_req list" | Search search_mode rstr nat bool
  | SearchScoped search_mode rstr nat bool "rstr option" rstr "nat option"
  | Stats | Snap rstr int | Shutdown | Merge int bytes | Delete int | Timeline nat nat | Verify int bytes
  | Embed rstr "nat option" | SearchVec embedding nat | Rerank rstr "('j, b64) hit list" nat | SnapMerge rstr rstr int
  | BatchSearch "batch_search_item list" | Sql rstr "'j list" | Transaction "'j put_req list" | Auth rstr | UseTenant rstr

datatype 'j response =
    Pong | RId int | RIds "int list" | RHits "('j, b64) hit list" | RDocs "'j doc list" | RStats int int | ROk | RErr daemon_error
  | REmbed embedding | RBatchHits "('j, b64) hit list list" | RRows "rstr list" "'j list list"

datatype 'j outcome = Answer "'j response" "'j daemon" | Hang "'j daemon" | Crash "'j daemon" | Exit "'j daemon"

fun answer :: "('a \<Rightarrow> 'j response) \<Rightarrow> ('j, 'a) run \<Rightarrow> 'j outcome" where
  "answer f (Val x d) = Answer (f x) d"
| "answer f (Bad e d) = Answer (RErr e) d"
| "answer f (Blocked d) = Hang d"
| "answer f (Panicked d) = Crash d"

definition emit :: "rstr \<Rightarrow> moment \<Rightarrow> int \<times> rstr option \<times> rstr option \<Rightarrow> 'j daemon \<Rightarrow> 'j daemon" where
  "emit op t x d = (case x of (i, title, uri) \<Rightarrow>
     d\<lparr>dm_events := dm_events d @ [\<lparr>v_op = op, v_id = i, v_title = title, v_uri = uri, v_ts = t_secs t\<rparr>]\<rparr>)"

definition handle_put :: "'j daemon_env \<Rightarrow> moment \<Rightarrow> 'j put_req \<Rightarrow> 'j daemon \<Rightarrow> ('j, int) run" where
  "handle_put E t p d =
     run_bind (put_one E t p d) (\<lambda>i d1.
       run_bind (audit E t ActWrite (lit ''doc:'' @ show_int i) d1) (\<lambda>_ d2.
         Val i (emit (lit ''Put'') t (i, p_title p, p_uri p) d2)))"

definition handle_put_batch :: "'j daemon_env \<Rightarrow> moment \<Rightarrow> 'j put_req list \<Rightarrow> 'j daemon \<Rightarrow> ('j, int list) run" where
  "handle_put_batch E t ps d =
     run_bind (daemon_put_batch E t ps d) (\<lambda>ids d1.
       let d2 = fold (emit (lit ''PutBatch'') t) (zip ids (map (\<lambda>p. (p_title p, p_uri p)) ps)) d1 in
       run_bind (audit_ids E t (lit ''doc:'') ids d2) (\<lambda>_ d3. Val ids d3))"

definition handle_transaction :: "'j daemon_env \<Rightarrow> moment \<Rightarrow> 'j put_req list \<Rightarrow> 'j daemon \<Rightarrow> ('j, int list) run" where
  "handle_transaction E t ps d =
     run_bind (daemon_put_batch E t ps d) (\<lambda>ids d1. run_bind (audit_ids E t (lit ''tx-doc:'') ids d1) (\<lambda>_ d2. Val ids d2))"

definition current_max_doc_id :: "'j daemon \<Rightarrow> daemon_error + int" where
  "current_max_doc_id d = (if dm_sql d then Inr (max_id (dm_store d)) else Inl NoSqlConn)"

definition fresh_stats :: "moment \<Rightarrow> 'j daemon \<Rightarrow> ('j, int \<times> int) run" where
  "fresh_stats t d =
     with_store d (\<lambda>s. let n = int (fst (stats s)); v = int (snd (stats s)); m = (case current_max_doc_id d of Inr m \<Rightarrow> m | Inl _ \<Rightarrow> n) in
       Val (n, v) (d\<lparr>dm_stats := Some (t_instant t, n, v, m)\<rparr>))"

definition handle_stats :: "'j daemon_env \<Rightarrow> moment \<Rightarrow> 'j daemon \<Rightarrow> ('j, int \<times> int) run" where
  "handle_stats E t d =
     (case dm_stats d of
        Some (since, n, v, _) \<Rightarrow> if t_instant t - since < e_stats_ttl E then Val (n, v) d else fresh_stats t d
      | None \<Rightarrow> fresh_stats t d)"

text \<open>The guard of the mutex is a temporary of the scrutinee and lives until the end of the \<^verbatim>\<open>match\<close>.\<close>

definition handle_merge :: "'j daemon_env \<Rightarrow> moment \<Rightarrow> int \<Rightarrow> bytes \<Rightarrow> 'j daemon \<Rightarrow> ('j, unit) run" where
  "handle_merge E t i incoming d =
     with_store d (\<lambda>s.
       (case merge_crdt (e_merge E) (t_fts_fails t) i incoming s of
          Inl e \<Rightarrow> Bad (StoreFailed e) d
        | Inr s' \<Rightarrow> run_bind (audit E t ActWrite (lit ''merge:'' @ show_int i) (d\<lparr>dm_store := s', dm_held := True\<rparr>))
            (\<lambda>_ d1. Val () ((clear_query_cache d1)\<lparr>dm_held := False\<rparr>))))"

definition handle_delete :: "'j daemon_env \<Rightarrow> moment \<Rightarrow> int \<Rightarrow> 'j daemon \<Rightarrow> ('j, unit) run" where
  "handle_delete E t i d =
     with_store d (\<lambda>s.
       (case delete (t_fts_fails t) i s of
          Inl e \<Rightarrow> Bad (StoreFailed e) d
        | Inr (_, s') \<Rightarrow> run_bind (audit E t ActDelete (lit ''doc:'' @ show_int i) (d\<lparr>dm_store := s', dm_held := True\<rparr>))
            (\<lambda>_ d1. Val () ((clear_query_cache d1)\<lparr>dm_held := False\<rparr>))))"

definition handle_verify :: "'j daemon_env \<Rightarrow> int \<Rightarrow> bytes \<Rightarrow> 'j daemon \<Rightarrow> ('j, unit) run" where
  "handle_verify E i vk d =
     (if length vk \<noteq> 32 then Bad BadKeyLength d
      else (case e_key E vk of None \<Rightarrow> Bad BadKey d
        | Some check \<Rightarrow> with_store d (\<lambda>s. case verify (e_lib E) check i s of Inl e \<Rightarrow> Bad (StoreFailed e) d | Inr u \<Rightarrow> Val u d)))"

definition handle_snap :: "'j daemon_env \<Rightarrow> rstr \<Rightarrow> int \<Rightarrow> 'j daemon \<Rightarrow> ('j, unit) run" where
  "handle_snap E out level d =
     (case sanitize_snap_path (e_fs E) (e_snap_dir E) out of Inl e \<Rightarrow> Bad (BadSnapPath e) d
      | Inr resolved \<Rightarrow> if e_export E resolved level then Val () (d\<lparr>dm_written := dm_written d @ [resolved]\<rparr>) else Bad ExportFailed d)"

text \<open>\<open>e_merge_packs\<close> is the export of the database to a temporary pack followed by the merge; the temporary pack is removed.\<close>

definition handle_snap_merge :: "'j daemon_env \<Rightarrow> moment \<Rightarrow> rstr \<Rightarrow> rstr \<Rightarrow> int \<Rightarrow> 'j daemon \<Rightarrow> ('j, unit) run" where
  "handle_snap_merge E t snapshot_path out_path level d =
     (case sanitize_snap_path (e_fs E) (e_snap_dir E) snapshot_path of Inl e \<Rightarrow> Bad (BadSnapPath e) d
      | Inr snap_in \<Rightarrow> (case sanitize_snap_path (e_fs E) (e_snap_dir E) out_path of Inl e \<Rightarrow> Bad (BadSnapPath e) d
          | Inr snap_out \<Rightarrow>
              if e_merge_packs E snap_in snap_out level
              then audit E t ActWrite (lit ''snapmerge:'' @ snapshot_path) (d\<lparr>dm_written := dm_written d @ [snap_out]\<rparr>)
              else Bad ExportFailed d))"

definition handle_search_vec :: "'j daemon_env \<Rightarrow> embedding \<Rightarrow> nat \<Rightarrow> 'j daemon \<Rightarrow> ('j, ('j, b64) hit list) run" where
  "handle_search_vec E emb limit0 d =
     (let limit = min limit0 MAX_SEARCH_LIMIT in
      case hot_search (e_vec E) emb limit d of
        Some ps \<Rightarrow> run_of d (hydrate_pairs_from_state ps d)
      | None \<Rightarrow> with_store d (\<lambda>s.
          (case store_search (e_lib E) (e_vec E) (e_lex E) (e_perm E) [] VecMode (Some emb) limit s of
             (Found hs, s') \<Rightarrow> Val hs (d\<lparr>dm_store := s'\<rparr>)
           | (SearchError e, s') \<Rightarrow> Bad (StoreFailed e) (d\<lparr>dm_store := s'\<rparr>)
           | (NeedsEmbedding, s') \<Rightarrow> Bad NoEmbedding (d\<lparr>dm_store := s'\<rparr>)
           | (SearchPanic, s') \<Rightarrow> Panicked (d\<lparr>dm_store := s'\<rparr>))))"

fun handle_batch_search :: "'j daemon_env \<Rightarrow> (nat \<Rightarrow> moment) \<Rightarrow> nat \<Rightarrow> batch_search_item list \<Rightarrow> 'j daemon \<Rightarrow>
    ('j, ('j, b64) hit list list) run" where
  "handle_batch_search E ts n [] d = Val [] d"
| "handle_batch_search E ts n (b # bs) d =
     run_bind (case daemon_search E (ts n) (b_mode b) (b_q b) (b_limit b) (b_embed b) d of Bad e d1 \<Rightarrow> Val [] d1 | r \<Rightarrow> r)
       (\<lambda>hits d1. run_bind (handle_batch_search E ts (Suc n) bs d1) (\<lambda>rest d2. Val (hits # rest) d2))"

definition handle_use_tenant :: "'j daemon_env \<Rightarrow> rstr \<Rightarrow> 'j daemon \<Rightarrow> ('j, unit) run" where
  "handle_use_tenant E name d =
     (if \<not> tenant_name_ok name then Bad BadTenant d
      else let path = tenant_path (e_home E) name in
        if \<not> e_file_exists E path then Bad TenantMissing d
        else if \<not> dm_sql d then Val () d
        else if e_attach E (lit ''file:'' @ path @ lit ''?mode=ro'') then Val () (d\<lparr>dm_tenant := Some path\<rparr>)
        else Bad AttachFailed (d\<lparr>dm_tenant := None\<rparr>))"

definition handle_auth :: "'j daemon_env \<Rightarrow> rstr \<Rightarrow> 'j response" where
  "handle_auth E token = (case e_token E of Some k \<Rightarrow> if subtle_eq token k then ROk else RErr InvalidToken | None \<Rightarrow> ROk)"

definition sql_param :: "json_view \<Rightarrow> sql_value" where
  "sql_param v = (case v of VNull \<Rightarrow> SNull | VBool b \<Rightarrow> SInt (of_bool b)
     | VNumber i f \<Rightarrow> (case i of Some n \<Rightarrow> SInt n | None \<Rightarrow> (case f of Some x \<Rightarrow> SReal x | None \<Rightarrow> SNull))
     | VString s \<Rightarrow> SText s | VOther s \<Rightarrow> SText s)"

fun sql_cell :: "sql_value \<Rightarrow> json_cell" where
  "sql_cell SNull = CNull"
| "sql_cell (SInt i) = CInt i"
| "sql_cell (SReal x) = CReal x"
| "sql_cell (SText s) = CString s"
| "sql_cell (SBlob n) = CString (lit ''<blob:'' @ show_nat n @ lit ''b>'')"

definition handle_sql :: "'j daemon_env \<Rightarrow> rstr \<Rightarrow> 'j list \<Rightarrow> 'j daemon \<Rightarrow> ('j, rstr list \<times> 'j list list) run" where
  "handle_sql E q ps d =
     (if \<not> dm_sql d then Bad NoSqlConn d
      else (case e_query E (dm_store d) (dm_tenant d) q (map (\<lambda>p. sql_param (e_view E p)) ps) of
          None \<Rightarrow> Bad SqlFailed d
        | Some (cols, rows) \<Rightarrow> if MAX_SQL_ROWS < length rows then Bad RowCap d
            else Val (cols, map (map (\<lambda>c. e_json E (sql_cell c))) rows) d))"

fun dispatch :: "'j daemon_env \<Rightarrow> (nat \<Rightarrow> moment) \<Rightarrow> 'j request \<Rightarrow> 'j daemon \<Rightarrow> 'j outcome" where
  "dispatch E ts Ping d = Answer Pong d"
| "dispatch E ts (Put p) d = answer RId (handle_put E (ts 0) p d)"
| "dispatch E ts (PutBatch ps) d = answer RIds (handle_put_batch E (ts 0) ps d)"
| "dispatch E ts (Search mode q limit embed_query) d = answer RHits (daemon_search E (ts 0) mode q limit embed_query d)"
| "dispatch E ts (SearchScoped mode q limit embed_query key v cand) d =
     answer RHits (search_scoped E (ts 0) mode q limit embed_query (case key of Some k \<Rightarrow> k | None \<Rightarrow> lit ''scope'') v cand d)"
| "dispatch E ts Stats d = answer (\<lambda>(n, v). RStats n v) (handle_stats E (ts 0) d)"
| "dispatch E ts (Snap out level) d = answer (\<lambda>_. ROk) (handle_snap E out level d)"
| "dispatch E ts Shutdown d = Exit d"
| "dispatch E ts (Merge i st) d = answer (\<lambda>_. ROk) (handle_merge E (ts 0) i st d)"
| "dispatch E ts (Delete i) d = answer (\<lambda>_. ROk) (handle_delete E (ts 0) i d)"
| "dispatch E ts (Timeline limit offset) d = answer RDocs (with_store d (\<lambda>s. Val (timeline (e_lib E) limit offset s) d))"
| "dispatch E ts (Verify i vk) d = answer (\<lambda>_. ROk) (handle_verify E i vk d)"
| "dispatch E ts (Embed txt want) d =
     (case e_embed E txt of None \<Rightarrow> Answer (RErr EmbedFailed) d | Some v \<Rightarrow> Answer (REmbed (truncate_embedding want v)) d)"
| "dispatch E ts (SearchVec emb limit) d = answer RHits (handle_search_vec E emb limit d)"
| "dispatch E ts (Rerank q cs top_k) d =
     (case e_rerank E q cs top_k of None \<Rightarrow> Answer (RErr RerankFailed) d | Some hs \<Rightarrow> Answer (RHits hs) d)"
| "dispatch E ts (SnapMerge a b level) d = answer (\<lambda>_. ROk) (handle_snap_merge E (ts 0) a b level d)"
| "dispatch E ts (BatchSearch items) d = answer RBatchHits (handle_batch_search E ts 0 items d)"
| "dispatch E ts (UseTenant name) d = answer (\<lambda>_. ROk) (handle_use_tenant E name d)"
| "dispatch E ts (Auth token) d = Answer (handle_auth E token) d"
| "dispatch E ts (Transaction ps) d = answer RIds (handle_transaction E (ts 0) ps d)"
| "dispatch E ts (Sql q ps) d = answer (\<lambda>(cols, rows). RRows cols rows) (handle_sql E q ps d)"

section \<open>Connections\<close>

datatype frame_result = NoFrame | BadLength nat | CutFrame | Frame bytes bytes

text \<open>The length as a little-endian \<^verbatim>\<open>u32\<close>, then the body. The stream may end, or stay silent for a minute, before a length.\<close>

definition read_frame :: "bytes \<Rightarrow> frame_result" where
  "read_frame inp =
     (case read_exact 4 inp of None \<Rightarrow> NoFrame
      | Some (h, rest) \<Rightarrow> let n = le_nat h in
          if n = 0 \<or> MAX_FRAME < n then BadLength n
          else (case read_exact n rest of None \<Rightarrow> CutFrame | Some (body, rest') \<Rightarrow> Frame body rest'))"

definition write_frame :: "bytes \<Rightarrow> bytes" where
  "write_frame body = u32_le (word_of_nat (length body)) @ body"

fun open_request :: "'j request \<Rightarrow> bool" where
  "open_request Ping = True"
| "open_request Stats = True"
| "open_request (Auth _) = True"
| "open_request _ = False"

fun is_auth :: "'j request \<Rightarrow> bool" where
  "is_auth (Auth _) = True"
| "is_auth _ = False"

text \<open>One request of a session; the new value of the flag goes with the outcome.\<close>

definition session_request :: "'j daemon_env \<Rightarrow> (nat \<Rightarrow> moment) \<Rightarrow> bool \<Rightarrow> 'j request \<Rightarrow> 'j daemon \<Rightarrow> bool \<times> 'j outcome" where
  "session_request E ts authed req d =
     (if authed then (True, dispatch E ts req d)
      else if \<not> open_request req then (False, Answer (RErr AuthRequired) d)
      else let r = dispatch E ts req d in
        (is_auth req \<and> (case r of Answer resp _ \<Rightarrow> resp = ROk | _ \<Rightarrow> False), r))"

datatype conn_end = StreamEnded | BadFrame nat | ReadFailed | DecodeFailed | Hung | Crashed | Exited

lemma read_frame_shorter: "read_frame inp = Frame body rest \<Longrightarrow> length rest < length inp"
  by (auto simp: read_frame_def Let_def dest!: read_exact_SomeD split: option.splits if_splits)

text \<open>\<open>decode\<close> is the deserialiser of requests. The result: what was answered, how the loop ended, and the state.\<close>

function conn_loop :: "'j daemon_env \<Rightarrow> (bytes \<Rightarrow> 'j request option) \<Rightarrow> (nat \<Rightarrow> nat \<Rightarrow> moment) \<Rightarrow> nat \<Rightarrow> bool \<Rightarrow> bytes \<Rightarrow> 'j daemon \<Rightarrow>
    'j response list \<times> conn_end \<times> 'j daemon" where
  "conn_loop E decode ts n authed inp d =
     (case read_frame inp of
        NoFrame \<Rightarrow> ([], StreamEnded, d)
      | BadLength k \<Rightarrow> ([], BadFrame k, d)
      | CutFrame \<Rightarrow> ([], ReadFailed, d)
      | Frame body rest \<Rightarrow>
          (case decode body of None \<Rightarrow> ([], DecodeFailed, d)
           | Some req \<Rightarrow>
               (case session_request E (ts n) authed req d of
                  (authed', Answer resp d') \<Rightarrow>
                    (case conn_loop E decode ts (Suc n) authed' rest d' of (out, fin, d'') \<Rightarrow> (resp # out, fin, d''))
                | (_, Hang d') \<Rightarrow> ([], Hung, d')
                | (_, Crash d') \<Rightarrow> ([], Crashed, d')
                | (_, Exit d') \<Rightarrow> ([], Exited, d'))))"
  by pat_completeness auto

termination
  by (relation "measure (\<lambda>(E, decode, ts, n, authed, inp, d). length inp)") (auto dest: read_frame_shorter)

declare conn_loop.simps [simp del]

definition handle_conn :: "'j daemon_env \<Rightarrow> (bytes \<Rightarrow> 'j request option) \<Rightarrow> (nat \<Rightarrow> nat \<Rightarrow> moment) \<Rightarrow> bytes \<Rightarrow> 'j daemon \<Rightarrow>
    'j response list \<times> conn_end \<times> 'j daemon" where
  "handle_conn E decode ts inp d = conn_loop E decode ts 0 (e_token E = None) inp d"

text \<open>The background build of the lifted index: it reads the vectors, and installs what it read later.\<close>

definition turbo_warm_read :: "'j daemon \<Rightarrow> (int \<times> embedding) list option" where
  "turbo_warm_read d = (let rows = sort_key fst (docs_vec (dm_store d)) in if rows = [] then None else Some rows)"

definition turbo_warm_install :: "(int \<times> embedding) list option \<Rightarrow> 'j daemon \<Rightarrow> 'j daemon" where
  "turbo_warm_install built d = (case built of None \<Rightarrow> d | Some rows \<Rightarrow> d\<lparr>dm_hot := Some rows\<rparr>)"

definition daemon_start :: "store \<Rightarrow> audit_db option \<Rightarrow> bool \<Rightarrow> 'j daemon" where
  "daemon_start s trail sql =
     \<lparr>dm_store = s, dm_trail = audit_init_schema trail, dm_held = False, dm_hot = None, dm_sql = sql, dm_tenant = None, dm_cache = [],
      dm_seen = None, dm_stats = None, dm_embeds = [], dm_events = [], dm_written = []\<rparr>"

end
