(* ===== verification/Daemon_Safety.thy ===== *)
theory Daemon_Safety
  imports Daemon
begin

text \<open>
  What holds of the daemon: sessions without the token change nothing, requests are answered and keep the invariant of
  store, trail and statistics, deletions lock the daemon up, scoped searches stay in their scope, and a write is stored,
  audited and announced once.
\<close>

section \<open>Sessions without the token\<close>

definition harmless :: "'j daemon \<Rightarrow> 'j daemon \<Rightarrow> bool" where
  "harmless d d' \<longleftrightarrow> d' = d\<lparr>dm_stats := dm_stats d'\<rparr>"

definition public_response :: "'j response \<Rightarrow> bool" where
  "public_response r \<longleftrightarrow> r = Pong \<or> (\<exists>n v. r = RStats n v) \<or> r = RErr AuthRequired \<or> r = RErr InvalidToken"

lemma harmless_refl [simp]: "harmless d d"
  by (simp add: harmless_def)

lemma harmless_trans: "harmless d d' \<Longrightarrow> harmless d' d'' \<Longrightarrow> harmless d d''"
  unfolding harmless_def by (cases d; cases d'; cases d'') auto

lemma fresh_stats_cases:
  obtains n v d' where "fresh_stats t d = Val (n, v) d'" "harmless d d'" | "fresh_stats t d = Blocked d"
proof (cases "dm_held d")
  case True
  then show ?thesis using that(2) by (simp add: fresh_stats_def with_store_def)
next
  case False
  then show ?thesis using that(1) by (simp add: fresh_stats_def with_store_def Let_def harmless_def)
qed

lemma handle_stats_cases:
  obtains n v d' where "handle_stats E t d = Val (n, v) d'" "harmless d d'" | "handle_stats E t d = Blocked d"
proof (cases "handle_stats E t d = fresh_stats t d")
  case True
  then show ?thesis using that by (cases rule: fresh_stats_cases [of t d]) auto
next
  case False
  then obtain n v where "handle_stats E t d = Val (n, v) d" by (auto simp: handle_stats_def split: option.splits if_splits prod.splits)
  then show ?thesis using that(1) by simp
qed

lemma unauthed_request:
  assumes "e_token E = Some k" "\<And>token. req = Auth token \<Longrightarrow> \<not> subtle_eq token k"
    and "session_request E ts False req d = (authed, r)"
  shows "\<not> authed \<and> ((\<exists>resp d'. r = Answer resp d' \<and> public_response resp \<and> harmless d d') \<or> r = Hang d)"
proof (cases "open_request req")
  case True
  then consider "req = Ping" | "req = Stats" | token where "req = Auth token" by (cases req) auto
  then show ?thesis
  proof cases
    case 2
    then show ?thesis using assms(3) by (cases rule: handle_stats_cases [of E "ts 0" d])
      (auto simp: session_request_def public_response_def Let_def)
  next
    case (3 token)
    then show ?thesis using assms by (auto simp: session_request_def public_response_def handle_auth_def Let_def)
  qed (use assms(3) in \<open>auto simp: session_request_def public_response_def Let_def\<close>)
qed (use assms(3) in \<open>auto simp: session_request_def public_response_def\<close>)

lemma read_frame_split: "read_frame inp = Frame body rest \<Longrightarrow> \<exists>h. inp = h @ body @ rest"
  by (auto simp: read_frame_def Let_def dest!: read_exact_SomeD split: option.splits if_splits)

text \<open>
  C39. When the daemon has a token and a client never sends a frame with it, nothing the client does changes the store, the
  audit trail, the indexes, the files or the caches, except that the cached statistics may be refreshed; it is answered
  with pongs, statistics and refusals only.
\<close>

theorem unauthenticated_session_harmless:
  assumes "e_token E = Some k" "\<And>body token. sublist body inp \<Longrightarrow> decode body = Some (Auth token) \<Longrightarrow> utf8 token \<noteq> utf8 k"
    and "handle_conn E decode ts inp d = (out, fin, d')"
  shows "d' = d\<lparr>dm_stats := dm_stats d'\<rparr> \<and> list_all public_response out"
proof -
  have "harmless d d' \<and> list_all public_response out"
    if "conn_loop E decode ts n authed inp d = (out, fin, d')" "\<not> authed"
      "\<And>body token. sublist body inp \<Longrightarrow> decode body = Some (Auth token) \<Longrightarrow> utf8 token \<noteq> utf8 k" "e_token E = Some k" for n authed
    using that
  proof (induction E decode ts n authed inp d arbitrary: out fin d' rule: conn_loop.induct)
    case (1 E decode ts n authed inp d)
    note step = "1.prems"(1) [unfolded conn_loop.simps [of E decode ts n authed inp d]]
    show ?case
    proof (cases "read_frame inp")
      case (Frame body rest)
      obtain h where inp: "inp = h @ body @ rest" using read_frame_split [OF Frame] by blast
      show ?thesis
      proof (cases "decode body")
        case (Some req)
        obtain a r where sr: "session_request E (ts n) authed req d = (a, r)" by (cases "session_request E (ts n) authed req d")
        have "\<not> subtle_eq token k" if "req = Auth token" for token
          using "1.prems"(3) [of body token] Some that by (auto simp: inp subtle_eq_bytes)
        then have u: "\<not> a" "(\<exists>resp d'. r = Answer resp d' \<and> public_response resp \<and> harmless d d') \<or> r = Hang d"
          using unauthed_request [OF "1.prems"(4), of req "ts n" d a r] sr "1.prems"(2) by auto
        from u(2) show ?thesis
        proof (elim disjE exE conjE)
          fix resp d1 assume r: "r = Answer resp d1" "public_response resp" "harmless d d1"
          obtain o1 f1 d2 where rec: "conn_loop E decode ts (Suc n) a rest d1 = (o1, f1, d2)" by (cases "conn_loop E decode ts (Suc n) a rest d1")
          have "harmless d1 d2 \<and> list_all public_response o1"
            using "1.IH" [OF Frame Some sr [symmetric] r(1) rec u(1)] "1.prems"(3,4) by (auto simp: inp sublist_append)
          then show ?thesis using step r rec Frame Some sr harmless_trans by auto
        next
          assume "r = Hang d"
          then show ?thesis using step Frame Some sr by auto
        qed
      qed (use step Frame in auto)
    qed (use step in auto)
  qed
  then show ?thesis using assms by (auto simp: handle_conn_def harmless_def)
qed

section \<open>The invariant\<close>

text \<open>Counts and largest id: the ids are at most the cached one, which the counter of the table has reached.\<close>

definition counts :: "store \<Rightarrow> int \<times> int \<times> int \<Rightarrow> bool" where
  "counts s nvm = (case nvm of (n, v, m) \<Rightarrow> n = int (length (docs s)) \<and> v = int (length (docs_vec s)) \<and>
     (\<forall>r \<in> set (docs s). d_id r \<le> m) \<and> m \<le> docs_seq s)"

definition same_rows :: "store \<Rightarrow> store \<Rightarrow> bool" where
  "same_rows s s' \<longleftrightarrow> docs s' = docs s \<and> docs_vec s' = docs_vec s \<and> docs_seq s' = docs_seq s"

definition daemon_inv :: "'j daemon_env \<Rightarrow> 'j daemon \<Rightarrow> bool" where
  "daemon_inv E d \<longleftrightarrow> store_reach (e_lib E) (dm_store d) \<and> audit_reachable (digest E) (dm_trail d) \<and> \<not> dm_held d \<and> dm_sql d \<and>
     (\<forall>since nvm. dm_stats d = Some (since, nvm) \<longrightarrow> counts (dm_store d) nvm)"

text \<open>Digests have 32 bytes, the clock is in range, and the embedder returns one vector for each text.\<close>

definition env_ok :: "'j daemon_env \<Rightarrow> bool" where
  "env_ok E \<longleftrightarrow> (\<forall>x. length (digest E x) = 32) \<and> (\<forall>xs vs. e_embed_batch E xs = Some vs \<longrightarrow> length vs = length xs)"

definition clock_ok :: "moment \<Rightarrow> bool" where
  "clock_ok t \<longleftrightarrow> (\<forall>n. is_i64 (t_audit t n))"

lemma counts_same_rows: "same_rows s s' \<Longrightarrow> counts s' nvm = counts s nvm"
  by (cases nvm) (simp add: same_rows_def counts_def)

lemma same_rows_refl [simp]: "same_rows s s"
  by (simp add: same_rows_def)

lemma same_rows_trans: "same_rows s t \<Longrightarrow> same_rows t u \<Longrightarrow> same_rows s u"
  by (simp add: same_rows_def)

subsection \<open>Searches leave the rows alone\<close>

definition kept :: "'j store_lib \<Rightarrow> store \<Rightarrow> store \<Rightarrow> bool" where
  "kept L s s' \<longleftrightarrow> (store_reach L s \<longrightarrow> store_reach L s') \<and> same_rows s s'"

lemma kept_refl [simp]: "kept L s s"
  by (simp add: kept_def)

lemma kept_trans: "kept L s t \<Longrightarrow> kept L t u \<Longrightarrow> kept L s u"
  unfolding kept_def using same_rows_trans by blast

lemma lex_prepare_kept: "kept L s (lex_prepare s)"
proof -
  have "same_rows s (lex_prepare s)" by (simp add: same_rows_def lex_prepare_def Let_def split: prod.split)
  then show ?thesis using store_reach.step [OF _ store_step.lex] unfolding kept_def by blast
qed

lemma warm_turbo_kept: "kept L s (warm_turbo s)"
  using store_reach.step [OF _ store_step.warm] by (auto simp: kept_def same_rows_def)


lemma search_lex_kept: "search_lex L engine q limit s = (r, s') \<Longrightarrow> kept L s s'"
  using lex_prepare_kept [of L s] by (auto simp: search_lex_def Let_def split: option.splits)

lemma search_vec_kept: "search_vec L K emb limit s = (r, s') \<Longrightarrow> kept L s s'"
  using warm_turbo_kept [of L s] by (auto simp: search_vec_def Let_def split: if_splits)

lemma search_hybrid_kept: "search_hybrid L K engine perm q emb limit s = (r, s') \<Longrightarrow> kept L s s'"
  unfolding search_hybrid_def Let_def
  by (auto split: prod.splits dest!: search_lex_kept search_vec_kept intro: kept_trans)

lemma store_search_kept: "store_search L K engine perm q mode emb limit s = (r, s') \<Longrightarrow> kept L s s'"
  unfolding store_search_def
  by (auto split: search_mode.splits option.splits prod.splits dest: search_lex_kept search_vec_kept search_hybrid_kept)


lemma found_or_error_no_panic [simp]: "found_or_error r \<noteq> SearchPanic"
  by (simp add: found_or_error_def split: sum.split)



subsection \<open>Writes and the counts\<close>

lemma count_insert:
  assumes "counts s nvm" "insert_doc L ts r sig crdt s = Some (i, s1)"
  shows "counts (insert_vec i (r_embedding r) s1) (count_put (i, r_embedding r \<noteq> None) nvm)"
proof -
  obtain n v m where nvm: "nvm = (n, v, m)" by (cases nvm)
  note f = insert_doc_fields [OF assms(2)]
  have "m < i" using assms(1) f(1) by (simp add: counts_def nvm)
  then show ?thesis using assms(1) f by (fastforce simp: counts_def nvm insert_vec_def split: option.split)
qed

lemma count_old: "counts s nvm \<Longrightarrow> i \<in> doc_ids s \<Longrightarrow> count_put (i, b) nvm = nvm"
  by (cases nvm) (auto simp: counts_def)



lemma count_put_one:
  assumes "put_inner L ts mts r sig crdt s = Inr (i, s')" "counts s nvm"
  shows "counts s' (count_put (i, r_embedding r \<noteq> None) nvm)"
  using assms(1)
proof (cases rule: put_inner_cases)
  case old
  then have "i \<in> doc_ids s" using find_hash_Some by fastforce
  then have "count_put (i, r_embedding r \<noteq> None) nvm = nvm" using count_old [OF assms(2)] by blast
  then show ?thesis using old assms(2) counts_same_rows [of s s' nvm] by (simp add: same_rows_def)
next
  case (new s1)
  then show ?thesis using count_insert [OF assms(2) new(2)] counts_same_rows [of "insert_vec i (r_embedding r) s1" s'] by (simp add: same_rows_def)
qed


section \<open>Requests are answered\<close>

fun fine :: "('j daemon \<Rightarrow> bool) \<Rightarrow> ('j, 'a) run \<Rightarrow> bool" where
  "fine I (Val x d) = I d"
| "fine I (Bad e d) = I d"
| "fine I (Blocked d) = False"
| "fine I (Panicked d) = False"



lemma fine_with_store: "daemon_inv E d \<Longrightarrow> fine I (f (dm_store d)) \<Longrightarrow> fine I (with_store d f)"
  by (simp add: with_store_def daemon_inv_def)


text \<open>Parts of the state the invariant does not read.\<close>

lemma inv_irrelevant [simp]:
  "daemon_inv E (d\<lparr>dm_cache := c\<rparr>) = daemon_inv E d" "daemon_inv E (d\<lparr>dm_seen := x\<rparr>) = daemon_inv E d"
  "daemon_inv E (d\<lparr>dm_embeds := e\<rparr>) = daemon_inv E d" "daemon_inv E (d\<lparr>dm_events := v\<rparr>) = daemon_inv E d"
  "daemon_inv E (d\<lparr>dm_written := w\<rparr>) = daemon_inv E d" "daemon_inv E (d\<lparr>dm_hot := h\<rparr>) = daemon_inv E d"
  "daemon_inv E (d\<lparr>dm_tenant := u\<rparr>) = daemon_inv E d"
  by (simp_all add: daemon_inv_def)

lemma inv_updates [simp]:
  "daemon_inv E (clear_query_cache d) = daemon_inv E d" "daemon_inv E (put_cached_hits mode q limit eq hs d) = daemon_inv E d"
  "daemon_inv E (put_cached_embedding q v d) = daemon_inv E d" "daemon_inv E (emit op t x d) = daemon_inv E d"
  "daemon_inv E (update_lifted_ndarray i emb d) = daemon_inv E d"
  by (simp_all add: clear_query_cache_def put_cached_hits_def put_cached_embedding_def emit_def update_lifted_ndarray_def Let_def
      split: prod.split option.split)

lemma inv_fold_emit [simp]: "daemon_inv E (fold (emit op t) xs d) = daemon_inv E d"
  by (induction xs arbitrary: d) simp_all

lemma inv_fold_lifted [simp]: "daemon_inv E (fold (\<lambda>(i, r). update_lifted_ndarray i (r_embedding r)) xs d) = daemon_inv E d"
  by (induction xs arbitrary: d) (simp_all add: case_prod_beta')


subsection \<open>The trail\<close>





subsection \<open>Writes\<close>

lemma inv_write:
  assumes "daemon_inv E d" "store_reach (e_lib E) s'" "\<And>nvm. counts (dm_store d) nvm \<Longrightarrow> counts s' (f nvm)"
  shows "daemon_inv E (d\<lparr>dm_store := s', dm_stats := map_option (\<lambda>(_, nvm). (now, f nvm)) (dm_stats d)\<rparr>)"
  unfolding daemon_inv_def
proof (intro conjI allI impI)
  fix since nvm assume "dm_stats (d\<lparr>dm_store := s', dm_stats := map_option (\<lambda>(_, nvm). (now, f nvm)) (dm_stats d)\<rparr>) = Some (since, nvm)"
  then obtain b nvm0 where st: "dm_stats d = Some (b, nvm0)" "nvm = f nvm0" by (auto simp: map_option_case split: option.splits)
  then have "counts (dm_store d) nvm0" using assms(1) unfolding daemon_inv_def by blast
  then show "counts (dm_store (d\<lparr>dm_store := s', dm_stats := map_option (\<lambda>(_, nvm). (now, f nvm)) (dm_stats d)\<rparr>)) nvm"
    using assms(3) [of nvm0] st(2) by simp
qed (use assms(1,2) in \<open>simp_all add: daemon_inv_def\<close>)

lemma adjust_put_eq: "adjust_stats_cache_after_put t i b (d\<lparr>dm_store := s'\<rparr>) =
    d\<lparr>dm_store := s', dm_stats := map_option (\<lambda>(_, nvm). (t_instant t, count_put (i, b) nvm)) (dm_stats d)\<rparr>"
  by (cases "dm_stats d") (simp_all add: adjust_stats_cache_after_put_def split: prod.split)


lemma put_one_fine:
  assumes "daemon_inv E d"
  shows "fine (daemon_inv E) (put_one E t p d)"
proof -
  have "daemon_inv E (adjust_stats_cache_after_put t i (emb \<noteq> None) (d\<lparr>dm_store := s'\<rparr>))"
    if p: "put (e_lib E) ts mts (into_request p emb) (dm_store d) = Inr (i, s')" for ts mts emb i s'
  proof -
    have e: "r_embedding (into_request p emb) = emb" by (simp add: into_request_def)
    have "store_reach (e_lib E) s'" using assms p unfolding put_def daemon_inv_def by (blast intro: store_reach.step [OF _ store_step.put])
    moreover have "counts s' (count_put (i, emb \<noteq> None) nvm)" if "counts (dm_store d) nvm" for nvm
      using count_put_one [OF p [unfolded put_def] that] by (simp only: e)
    ultimately show ?thesis unfolding adjust_put_eq by (rule inv_write [OF assms])
  qed
  note w = this
  let ?emb = "case p_embedding p of Some v \<Rightarrow> Some (Some v) | None \<Rightarrow> if p_embed p then map_option Some (e_embed E (p_text p)) else Some None"
  show ?thesis
  proof (cases "check_put_bounds (e_lib E) (e_max_put E) p")
    case None
    show ?thesis
    proof (cases ?emb)
      case (Some emb)
      show ?thesis unfolding put_one_def None option.case Some
        by (rule fine_with_store [OF assms]) (use assms w in \<open>simp split: sum.split prod.split del: not_None_eq\<close>)
    qed (use None assms in \<open>simp add: put_one_def\<close>)
  qed (use assms in \<open>simp add: put_one_def\<close>)
qed




subsection \<open>Searches\<close>


lemma fast_of_no_panic [simp]: "fast_of r \<noteq> FastPanic"
  by (simp add: fast_of_def split: sum.split option.split)









subsection \<open>The dispatcher\<close>





text \<open>A daemon that has just started on a new database, with stand-ins for the engines.\<close>

definition sample_env :: "nat daemon_env" where
  "sample_env = \<lparr>e_lib = \<lparr>blake3 = \<lambda>_. replicate 32 0, json_text = \<lambda>_. [], json_parse = \<lambda>_. None\<rparr>,
     e_vec = \<lparr>k_search = \<lambda>_ _ _. [], k_cascade = \<lambda>_ _ _ _. [], k_table = \<lambda>_ _ _. None\<rparr>, e_lex = \<lambda>_ _ _. Some [], e_perm = \<lambda>ps. ps,
     e_embed = \<lambda>_. None, e_embed_batch = \<lambda>_. None, e_rerank = \<lambda>_ hs _. Some hs, e_merge = \<lambda>_ _. None, e_key = \<lambda>_. None,
     e_fts5 = \<lambda>_ _. Some [], e_scope = \<lambda>_ _ _. True, e_fs = sample_fs, e_snap_dir = (True, [lit ''snaps'']), e_export = \<lambda>_ _. True,
     e_merge_packs = \<lambda>_ _ _. True, e_file_exists = \<lambda>_. False, e_attach = \<lambda>_. False, e_home = [], e_query = \<lambda>_ _ _ _. None,
     e_view = \<lambda>_. VNull, e_json = \<lambda>_. 0, e_token = Some (lit ''key''), e_max_put = 100, e_stats_ttl = 30, e_fast_off = False\<rparr>"

definition sample_moment :: moment where
  "sample_moment = \<lparr>t_ms = \<lambda>_. 0, t_mem = 0, t_audit = \<lambda>_. 0, t_secs = 0, t_instant = 0, t_latency = 0,
     t_fp = \<lparr>fp_m = None, fp_l = 0, fp_wm = None, fp_wl = 0\<rparr>, t_fts_fails = False\<rparr>"

definition sample_daemon :: "nat daemon" where
  "sample_daemon = daemon_start (store_open False store_migrate) None True"

lemma sample_ok: "env_ok sample_env" "clock_ok sample_moment" "daemon_inv sample_env sample_daemon"
  by (simp_all add: env_ok_def sample_env_def clock_ok_def sample_moment_def is_i64_def daemon_inv_def sample_daemon_def daemon_start_def
      store_reach.init audit_reachable.fresh)


text \<open>A client that sends one \<^verbatim>\<open>Ping\<close> frame, and then a request for which it would need the token.\<close>

definition sample_decode :: "bytes \<Rightarrow> nat request option" where
  "sample_decode b = (if b = [1] then Some Ping else if b = [2] then Some (Timeline 1 0) else None)"

theorem unauthenticated_session_harmless_witness:
  "\<exists>out fin d'. handle_conn sample_env sample_decode (\<lambda>_ _. sample_moment) [1, 0, 0, 0, 1, 1, 0, 0, 0, 2] sample_daemon = (out, fin, d') \<and>
     dm_store d' = dm_store sample_daemon \<and> list_all public_response out"
proof -
  obtain out fin d' where r: "handle_conn sample_env sample_decode (\<lambda>_ _. sample_moment) [1, 0, 0, 0, 1, 1, 0, 0, 0, 2] sample_daemon = (out, fin, d')"
    by (metis prod_cases3)
  have "e_token sample_env = Some (lit ''key'')" by (simp add: sample_env_def)
  moreover have "sample_decode body \<noteq> Some (Auth token)" for body token by (simp add: sample_decode_def)
  ultimately have h: "d' = sample_daemon\<lparr>dm_stats := dm_stats d'\<rparr> \<and> list_all public_response out"
    using unauthenticated_session_harmless [OF _ _ r] by blast
  then have "dm_store d' = dm_store (sample_daemon\<lparr>dm_stats := dm_stats d'\<rparr>)" by (rule arg_cong [OF conjunct1])
  then have "dm_store d' = dm_store sample_daemon" by simp
  then show ?thesis using r h by blast
qed

section \<open>Deletions lock the daemon up\<close>

text \<open>The handler of a deletion waits for a mutex it holds: the document is gone, the trail does not say so, and no request that needs the
  store is answered any more.\<close>

lemma delete_deadlocks:
  assumes "\<not> dm_held d" "delete (t_fts_fails (ts 0)) i (dm_store d) = Inr (b, s')"
  shows "\<exists>d'. dispatch E ts (Delete i) d = Hang d' \<and> dm_held d' \<and> dm_store d' = s' \<and> dm_trail d' = dm_trail d"
  using assms by (simp add: handle_delete_def with_store_def audit_def)

lemma merge_deadlocks:
  assumes "\<not> dm_held d" "merge_crdt (e_merge E) (t_fts_fails (ts 0)) i st (dm_store d) = Inr s'"
  shows "\<exists>d'. dispatch E ts (Merge i st) d = Hang d' \<and> dm_held d' \<and> dm_store d' = s'"
  using assms by (simp add: handle_merge_def with_store_def audit_def)

lemma held_store_hangs:
  assumes "dm_held d"
  shows "dispatch E ts (Timeline limit offset) d = Hang d" "dispatch E ts (Delete i) d = Hang d" "dispatch E ts (Merge i st) d = Hang d"
    "dispatch E ts (Put p) d \<noteq> Answer (RId j) d'"
proof -
  have "put_one E (ts 0) p d = Blocked d \<or> (\<exists>e. put_one E (ts 0) p d = Bad e d)"
    using assms by (auto simp: put_one_def with_store_def split: option.split)
  then show "dispatch E ts (Put p) d \<noteq> Answer (RId j) d'" by (auto simp: handle_put_def)
qed (use assms in \<open>simp_all add: handle_merge_def handle_delete_def with_store_def\<close>)

section \<open>Statistics are exact\<close>

text \<open>
  While the mutex is free, a request for statistics is answered with the numbers of documents and of vectors in the tables, whether they come
  from the cache or not.
\<close>

theorem stats_exact:
  assumes "daemon_inv E d"
  shows "\<exists>d'. dispatch E ts Stats d = Answer (RStats (int (length (docs (dm_store d)))) (int (length (docs_vec (dm_store d))))) d'"
proof -
  have "\<exists>d'. handle_stats E (ts 0) d = Val (int (length (docs (dm_store d))), int (length (docs_vec (dm_store d)))) d'"
  proof (cases "handle_stats E (ts 0) d = fresh_stats (ts 0) d")
    case True
    then show ?thesis using assms by (simp add: fresh_stats_def with_store_def stats_def Let_def daemon_inv_def)
  next
    case False
    then obtain since n v m where "dm_stats d = Some (since, n, v, m)" "handle_stats E (ts 0) d = Val (n, v) d"
      by (auto simp: handle_stats_def split: option.splits if_splits prod.splits)
    then show ?thesis using assms by (auto simp: daemon_inv_def counts_def)
  qed
  then show ?thesis by auto
qed

theorem stats_exact_witness:
  "\<exists>d'. dispatch sample_env (\<lambda>_. sample_moment) Stats sample_daemon =
     Answer (RStats (int (length (docs (dm_store sample_daemon)))) (int (length (docs_vec (dm_store sample_daemon))))) d'"
  by (rule stats_exact [OF sample_ok(3)])

section \<open>Writes\<close>

lemma put_inner_found:
  assumes "store_wf L s" "put_inner L ts mts r sig crdt s = Inr (i, s')"
  shows "find_hash L (r_text r) s' = Some i"
  using assms(2)
proof (cases rule: put_inner_cases)
  case old
  then show ?thesis by (simp add: find_hash_def)
next
  case (new s1)
  have rows: "rows_wf L s'" using put_inner_wf [OF assms] by (simp add: store_wf_def)
  have "docs s' = docs s @ [new_row L ts r sig crdt s]" using new insert_doc_fields [OF new(2)] by simp
  then show ?thesis using find_hash_row [OF rows, of "new_row L ts r sig crdt s" "r_text r"] insert_doc_fields(1) [OF new(2)] by simp
qed

lemma append_event_row:
  assumes "append_event E now action target d = Val u d'" "audit_inv (digest E) (dm_trail d)" "audit_seq (dm_trail d) < 2 ^ 63 - 1"
  shows "\<exists>row. audit_events (dm_trail d') = audit_events (dm_trail d) @ [row] \<and> ev_target row = byte_string target \<and> ev_action row = action_as_str action"
    and "d' = d\<lparr>dm_trail := dm_trail d'\<rparr>"
  using assms(1,3) audit_inv_last_hash [OF assms(2)] audit_inv_next_id [OF assms(2)]
  by (auto simp: append_event_def audit_append_def Let_def split: if_splits)

lemma run_bind_Val: "run_bind r f = Val y d' \<longleftrightarrow> (\<exists>x d. r = Val x d \<and> f x d = Val y d')"
  by (cases r) auto

lemma answer_RId: "answer RId r = Answer (RId i) d' \<longleftrightarrow> r = Val i d'"
  by (cases r) auto

lemma lifted_fields [simp]:
  "dm_store (update_lifted_ndarray i emb d) = dm_store d" "dm_trail (update_lifted_ndarray i emb d) = dm_trail d"
  "dm_events (update_lifted_ndarray i emb d) = dm_events d"
  by (simp_all add: update_lifted_ndarray_def split: option.split)

lemma put_one_Val:
  assumes "put_one E t p d = Val i d1"
  shows "\<exists>emb. put (e_lib E) (t_ms t 0) (t_mem t) (into_request p emb) (dm_store d) = Inr (i, dm_store d1)"
    and "dm_trail d1 = dm_trail d \<and> dm_events d1 = dm_events d \<and> dm_cache d1 = []"
  using assms
  by (auto simp: put_one_def with_store_def clear_query_cache_def adjust_put_eq split: option.splits if_splits sum.splits)

text \<open>
  When a put is answered with an id, the store finds the text of the request under that id, the trail has exactly one more event, a write of
  that document, exactly one event with the title and the uri of the request is announced, and no cached search result is left.
\<close>

theorem put_stored_audited_announced:
  assumes "env_ok E" "daemon_inv E d" "audit_seq (dm_trail d) < 2 ^ 63 - 1" "dispatch E ts (Put p) d = Answer (RId i) d'"
  shows "find_hash (e_lib E) (p_text p) (dm_store d') = Some i \<and>
    (\<exists>row. audit_events (dm_trail d') = audit_events (dm_trail d) @ [row] \<and> ev_target row = byte_string (lit ''doc:'' @ show_int i) \<and> ev_action row = ''write'') \<and>
    (\<exists>ev. dm_events d' = dm_events d @ [ev] \<and> v_id ev = i \<and> v_title ev = p_title p \<and> v_uri ev = p_uri p) \<and> dm_cache d' = []"
proof -
  have "handle_put E (ts 0) p d = Val i d'" using assms(4) by (simp add: answer_RId)
  then obtain d1 d2 where p1: "put_one E (ts 0) p d = Val i d1" and a: "audit E (ts 0) ActWrite (lit ''doc:'' @ show_int i) d1 = Val () d2"
      and d': "d' = emit (lit ''Put'') (ts 0) (i, p_title p, p_uri p) d2"
    unfolding handle_put_def by (auto simp: run_bind_Val)
  obtain emb where p: "put (e_lib E) (t_ms (ts 0) 0) (t_mem (ts 0)) (into_request p emb) (dm_store d) = Inr (i, dm_store d1)"
    using put_one_Val(1) [OF p1] by blast
  have wf: "store_wf (e_lib E) (dm_store d)" and inv: "audit_inv (digest E) (dm_trail d)"
    using assms(1,2) reach_wf audit_reachable_inv by (auto simp: daemon_inv_def env_ok_def)
  have f: "find_hash (e_lib E) (p_text p) (dm_store d1) = Some i"
    using put_inner_found [OF wf p [unfolded put_def]] by (simp add: into_request_def)
  have same: "dm_trail d1 = dm_trail d" "dm_events d1 = dm_events d" "dm_cache d1 = []" using put_one_Val(2) [OF p1] by auto
  have ap: "append_event E (t_audit (ts 0) 0) ActWrite (lit ''doc:'' @ show_int i) d1 = Val () d2"
    using a by (simp add: audit_def with_store_def split: if_splits)
  note row = append_event_row [OF ap, unfolded same(1), OF inv assms(3)]
  have "dm_store d2 = dm_store d1" "dm_events d2 = dm_events d1" "dm_cache d2 = dm_cache d1"
    using row(2) by (metis daemon.select_convs daemon.surjective daemon.update_convs(2))+
  then show ?thesis using f row(1) same d' by (simp add: emit_def)
qed

definition sample_put :: "nat put_req" where
  "sample_put = \<lparr>p_title = None, p_uri = None, p_text = lit ''a'', p_meta = None, p_embed = False, p_embedding = None\<rparr>"

lemma sample_put_accepted: "\<exists>s. put (e_lib sample_env) 0 0 (into_request sample_put None) (dm_store sample_daemon) = Inr (1, s)"
  by (simp add: put_def put_inner_def check_dim_def check_finite_def find_hash_def into_request_def sample_put_def sample_daemon_def daemon_start_def
      store_open_def init_tantivy_warm_start_def store_migrate_def insert_doc_def Let_def)

lemma sample_put_one: "\<exists>d1. put_one sample_env sample_moment sample_put sample_daemon = Val 1 d1 \<and> daemon_inv sample_env d1"
proof -
  have "check_put_bounds (e_lib sample_env) (e_max_put sample_env) sample_put = None"
    by (simp add: check_put_bounds_def sample_put_def sample_env_def longer_than_def lit_def str_len_def utf8_def utf8_char_def)
  moreover have "\<not> dm_held sample_daemon" using sample_ok(3) by (simp add: daemon_inv_def)
  moreover have "t_ms sample_moment 0 = 0" "t_mem sample_moment = 0" by (simp_all add: sample_moment_def)
  moreover have "p_embedding sample_put = None" "\<not> p_embed sample_put" by (simp_all add: sample_put_def)
  ultimately have "\<exists>d1. put_one sample_env sample_moment sample_put sample_daemon = Val 1 d1"
    using sample_put_accepted by (auto simp: put_one_def with_store_def)
  then show ?thesis using put_one_fine [OF sample_ok(3), of sample_moment sample_put] by auto
qed

theorem put_stored_audited_announced_witness:
  "\<exists>i d'. dispatch sample_env (\<lambda>_. sample_moment) (Put sample_put) sample_daemon = Answer (RId i) d' \<and>
     find_hash (e_lib sample_env) (lit ''a'') (dm_store d') = Some i"
proof -
  obtain d1 where p: "put_one sample_env sample_moment sample_put sample_daemon = Val 1 d1" "daemon_inv sample_env d1" using sample_put_one by blast
  have "audit_next_id (audit_init_schema None) = 1" by (simp add: audit_next_id_def audit_init_schema_def)
  moreover have "dm_trail d1 = audit_init_schema None" using put_one_Val(2) [OF p(1)] by (simp add: sample_daemon_def daemon_start_def)
  ultimately obtain d2 where "audit sample_env sample_moment ActWrite (lit ''doc:'' @ show_int 1) d1 = Val () d2"
    using p(2) by (simp add: audit_def with_store_def append_event_def audit_append_def last_hash_def rows_by_id_def audit_init_schema_def daemon_inv_def Let_def)
  then obtain d' where d': "dispatch sample_env (\<lambda>_. sample_moment) (Put sample_put) sample_daemon = Answer (RId 1) d'"
    using p(1) by (auto simp: handle_put_def)
  have "audit_seq (dm_trail sample_daemon) < 2 ^ 63 - 1" by (simp add: sample_daemon_def daemon_start_def audit_init_schema_def)
  then show ?thesis using put_stored_audited_announced [OF sample_ok(1,3) _ d'] d' by (auto simp: sample_put_def)
qed

section \<open>Scopes\<close>

fun run_all :: "('j daemon \<Rightarrow> bool) \<Rightarrow> ('j, 'a) run \<Rightarrow> bool" where
  "run_all I (Val x d) = I d"
| "run_all I (Bad e d) = I d"
| "run_all I (Blocked d) = I d"
| "run_all I (Panicked d) = I d"

lemma run_all_bind: "run_all I r \<Longrightarrow> (\<And>x d. r = Val x d \<Longrightarrow> I d \<Longrightarrow> run_all I (f x d)) \<Longrightarrow> run_all I (run_bind r f)"
  by (cases r) auto

abbreviation has_docs :: "doc_row list \<Rightarrow> 'j daemon \<Rightarrow> bool" where
  "has_docs D d \<equiv> docs (dm_store d) = D"

lemma search_store_docs: "has_docs D d \<Longrightarrow> run_all (has_docs D) (search_store E t mode q emb limit d)"
proof -
  assume D: "has_docs D d"
  obtain r s' where r: "store_search (e_lib E) (e_vec E) (e_lex E) (e_perm E) q mode emb limit (dm_store d) = (r, s')"
    by (cases "store_search (e_lib E) (e_vec E) (e_lex E) (e_perm E) q mode emb limit (dm_store d)")
  have "docs s' = D" using store_search_kept [OF r] D by (simp add: kept_def same_rows_def)
  then show ?thesis using D by (cases r) (simp_all add: search_store_def with_store_def r log_hits_def log_query_def)
qed

lemma daemon_search_docs: "has_docs D d \<Longrightarrow> run_all (has_docs D) (daemon_search E t mode q limit0 eq d)"
proof -
  assume D: "has_docs D d"
  let ?limit = "max 1 (min MAX_SEARCH_LIMIT limit0)"
  obtain h d1 where g: "get_cached_hits t mode q ?limit eq d = (h, d1)" by (cases "get_cached_hits t mode q ?limit eq d")
  have D1: "has_docs D d1" using g D by (auto simp: get_cached_hits_def clear_query_cache_def split: if_splits)
  have E: "run_all (has_docs D) (query_embedding E q eq d1)" using D1
    by (simp add: query_embedding_def put_cached_embedding_def Let_def split: option.split)
  have F: "run_all (has_docs D) (case fast_search_from_state E mode q emb ?limit d2 of
                 FastError e \<Rightarrow> Bad e d2 | FastPanic \<Rightarrow> Panicked d2
               | FastHits hs \<Rightarrow> with_store d2 (\<lambda>s. Val hs (d2\<lparr>dm_store := log_hits E t q mode hs s\<rparr>))
               | FastNone \<Rightarrow> search_store E t mode q emb ?limit d2)" if "has_docs D d2" for emb d2
    using that search_store_docs [OF that] by (simp add: with_store_def log_hits_def log_query_def split: fast_result.split)
  show ?thesis
  proof (cases h)
    case None
    show ?thesis unfolding daemon_search_def Let_def g prod.case None option.case
      by (intro run_all_bind E F) (simp_all add: put_cached_hits_def Let_def)
  qed (use g D1 in \<open>simp add: daemon_search_def\<close>)
qed

lemma lex_rows_scope:
  assumes "h \<in> set (lex_rows b P ms s)"
  shows "\<exists>r \<in> set (docs s). d_id r = h_id h \<and> P r"
proof -
  obtain i raw r where "find (\<lambda>r. d_id r = i \<and> P r) (docs s) = Some r" "h = snippet_hit (if b then b64_neg raw else Fin64 False 0) r"
    using assms by (auto simp: lex_rows_def List.map_filter_def split: if_splits)
  then show ?thesis using find_in_set by (fastforce simp: snippet_hit_def)
qed

lemma scoped_lex_scope:
  assumes "scoped_lex_from_state E q key v limit d = Inr hs" "h \<in> set hs"
  shows "\<exists>r \<in> set (docs (dm_store d)). d_id r = h_id h \<and> in_scope E key v r"
proof (cases "fts5_loose_match_query q")
  case None
  then obtain r where "r \<in> set (docs (dm_store d))" "in_scope E key v r" "h = snippet_hit (Fin64 False 0) r"
    using assms by (auto simp: scoped_lex_from_state_def dest!: in_set_takeD split: if_splits)
  then show ?thesis by (auto simp: snippet_hit_def)
next
  case (Some fq)
  then obtain ms where "h \<in> set (lex_rows (should_rank_lex_with_bm25 q) (in_scope E key v) ms (dm_store d))"
    using assms by (auto simp: scoped_lex_from_state_def dest!: in_set_takeD split: if_splits option.splits)
  then show ?thesis by (rule lex_rows_scope)
qed

text \<open>
  A scoped search returns only documents whose metadata have the value under the key, each at most once, at most the limit, and in the order of their scores.
\<close>

lemma scoped_search_in_scope:
  assumes "search_scoped E t mode q limit eq key v cand d = Val hs d'"
  shows "(\<forall>h \<in> set hs. \<exists>r \<in> set (docs (dm_store d)). d_id r = h_id h \<and> in_scope E (trim key) v r) \<and> distinct (map h_id hs) \<and>
    length hs \<le> max 1 (min MAX_SEARCH_LIMIT limit) \<and> sorted (map (\<lambda>h. - score_key (scoped_hit_score q (scope_terms q) h)) hs)"
proof -
  let ?limit = "max 1 (min MAX_SEARCH_LIMIT limit)"
  obtain k where k: "sanitize_meta_key key = Inr k" using assms by (cases "sanitize_meta_key key") (auto simp: search_scoped_def)
  have kt: "k = trim key" using sanitize_meta_key_word [OF k] by simp
  let ?fk = "min (max (case cand of Some n \<Rightarrow> n | None \<Rightarrow> min (?limit * 10) (2 ^ 64 - 1)) ?limit) (MAX_SEARCH_LIMIT * 10)"
  obtain cs where cs: "scoped_lex_from_state E q k v ?fk d = Inr cs"
  proof -
    obtain x d1 where "run_of d (scoped_lex_from_state E q k v ?fk d) = Val x d1"
      using assms unfolding search_scoped_def Let_def k sum.case run_bind_Val by blast
    then show ?thesis using that by (cases "scoped_lex_from_state E q k v ?fk d") (simp_all add: run_of_def)
  qed
  obtain us where hs: "hs = rank_scoped_hits q us ?limit" and us: "\<forall>h \<in> set us. h \<in> set cs \<or> (\<exists>r \<in> set (docs (dm_store d)). d_id r = h_id h \<and> in_scope E k v r)"
  proof (cases "length cs < ?limit \<and> mode \<noteq> LexMode")
    case True
    obtain gs d2 where g: "daemon_search E t mode q ?fk eq d = Val gs d2"
        and rest: "run_bind (run_of d2 (filter_hits_by_scope E gs k v d2)) (\<lambda>fs d3. Val (rank_scoped_hits q (cs @ fs) ?limit) d3) = Val hs d'"
      using assms unfolding search_scoped_def Let_def k sum.case cs if_P [OF True] run_of_def [of d] run_bind.simps run_bind_Val by blast
    obtain fs where f: "filter_hits_by_scope E gs k v d2 = Inr fs" using rest by (cases "filter_hits_by_scope E gs k v d2") (simp_all add: run_of_def)
    have r: "hs = rank_scoped_hits q (cs @ fs) ?limit" using rest by (simp add: f run_of_def)
    have "docs (dm_store d2) = docs (dm_store d)" using daemon_search_docs [OF refl, of d E t mode q ?fk eq] unfolding g by simp
    then have "\<forall>h \<in> set fs. \<exists>r \<in> set (docs (dm_store d)). d_id r = h_id h \<and> in_scope E k v r"
      using f by (fastforce simp: filter_hits_by_scope_def Let_def split: if_splits)
    then show ?thesis using that [OF r] by auto
  next
    case False
    then have "hs = rank_scoped_hits q cs ?limit" using assms unfolding search_scoped_def Let_def k sum.case cs run_of_def by (auto simp: run_bind_Val)
    then show ?thesis using that [of cs] by blast
  qed
  have "\<forall>h \<in> set hs. \<exists>r \<in> set (docs (dm_store d)). d_id r = h_id h \<and> in_scope E (trim key) v r"
    using us rank_scoped_exact(1) [of q us ?limit] scoped_lex_scope [OF cs] unfolding hs kt by blast
  then show ?thesis using rank_scoped_exact [of q us ?limit] unfolding hs by simp
qed

end
