(* ===== verification/Spec2Isabelle.thy ===== *)
theory Spec2Isabelle
  imports Audit_Trail Access_Control Context_Pack Synx_Container Synx_Edges Provenance Datalog Temporal Tags Memory_Clusters
    Doc_Store Brain_Pack Csr_Graph Decision_Graph Compliance_Export Task_Router Corpus_Search Splade Vector_Search Daemon_Safety
begin

text \<open>
  \<^bold>\<open>Verification of synapse-memory.\<close>

  The program is a long-term memory for coding agents: a library over one SQLite file
  (\<^verbatim>\<open>crates/synapse-core\<close>), with crates around it that keep an audit trail, sign provenance, restrict
  access, walk graphs, pack retrieved texts into a token budget, and log what agents do. A daemon
  (\<^verbatim>\<open>crates/synapsed\<close>) serves one store to its clients; the command line and the tool server call the crates too. This
  development models the core crates and the daemon and proves what they promise; it covers the code under \<^verbatim>\<open>crates/\<close>.

  \<^bold>\<open>How the parts interact.\<close> A document enters through \<^verbatim>\<open>Store::put\<close> (\<open>Doc_Store\<close>), which deduplicates
  by hash, writes the row, the FTS5 row and the vector, and keeps the in-memory vector cache in step. The
  typed memories (\<open>Memory_Layer\<close>) live in tables beside it and are promoted from raw documents;
  \<open>Memory_Clusters\<close> groups them for consolidation. A query is cleaned (\<open>Lexical_Index\<close>), may be narrowed
  to a period found in its wording (\<open>Temporal\<close>), is answered by the lexical index, by vectors or by both fused
  (\<open>Vector_Search\<close>), and what it retrieves is packed (\<open>Context_Pack\<close>). Sparse vectors have indexes of their own
  (\<open>Splade\<close>). Longer sources are cut into chunks (\<open>Corpus_Text\<close>), stored and synchronised (\<open>Corpus_Store\<close>) and searched
  (\<open>Corpus_Search\<close>). A store
  is exported to a \<^verbatim>\<open>.synx\<close> container (\<open>Synx_Format\<close>, \<open>Synx_Container\<close>, \<open>Synx_Edges\<close>) or to a signed backup
  pack (\<open>Brain_Pack\<close>). Every mutation can be recorded in the audit trail (\<open>Audit_Trail\<close>), every document
  signed into a lineage (\<open>Provenance\<close>), every operation guarded by a role (\<open>Access_Control\<close>). The edge table
  (\<open>Edge_Graph\<close>), its compressed cache (\<open>Csr_Graph\<close>) and the Datalog engine (\<open>Datalog\<close>) answer graph questions. The
  extension layer logs events and decisions (\<open>Event_Log\<close>), derives a decision graph from them
  (\<open>Decision_Graph\<close>) and tags documents (\<open>Tags\<close>); exports mask personal data (\<open>Compliance_Export\<close>), tasks are routed to
  models (\<open>Task_Router\<close>) and the routing learns from outcomes (\<open>Meta_Loop\<close>). The daemon checks what clients send
  (\<open>Daemon_Guards\<close>), dispatches requests to the store, the trail, the caches and the live queries (\<open>Daemon\<close>), and is
  proved safe in \<open>Daemon_Safety\<close>.

  \<^bold>\<open>Shared theories.\<close>
  \<^item> \<open>Synapse_Prelude\<close>: bytes, little-endian integers, exact reads; the locales \<open>stream_codec\<close> (a reader that
    takes back what a writer wrote, in front of any rest) and \<open>keyed_store\<close> (a table addressed by key).
  \<^item> \<open>Hash_Links\<close>: the locale \<open>hash_linked\<close> of sequences in which each item commits to the digest of the one
    before. The audit trail and the provenance chain are its interpretations.
  \<^item> \<open>Rust_Text\<close>, \<open>Utf8_Facts\<close>: \<^verbatim>\<open>str\<close> as lists of scalar values with the library functions the crates
    call; UTF-8 lengths, injectivity and separators.
  \<^item> \<open>Text_Patterns\<close>: the pattern language of the \<^verbatim>\<open>regex\<close> crate as far as the masking uses it.
  \<^item> \<open>Float32\<close>, \<open>Float32_Order\<close>, \<open>Float64\<close>: IEEE binary32 and binary64 with round-to-even, infinities and NaN, by exact
    integer arithmetic; addition is monotone, which the path costs need.
  \<^item> \<open>Hop_Layers\<close>: the layers of a breadth-first search.

  \<^bold>\<open>Which theory models which code, and what it shows.\<close>
  \<^item> \<open>Audit_Trail\<close>, \<^verbatim>\<open>synapse-audit/src/lib.rs\<close>: the table \<^verbatim>\<open>audit_events\<close> is a row list. Every reachable trail
    verifies; the newest hash commits to the whole trail up to collisions; range queries are exact;
    bytes moved between fields and removed newest events are not noticed.
  \<^item> \<open>Access_Control\<close>, \<^verbatim>\<open>synapse-rbac/src/lib.rs\<close>: spaces, members, roles and the role cache. Reachable
    databases are well-formed, grants and revocations change one entry, the cached check agrees with the
    uncached one (locale \<open>role_decision\<close>, which extends \<open>keyed_store\<close>).
  \<^item> \<open>Context_Pack\<close>, \<^verbatim>\<open>synapse-pack/src/lib.rs\<close>: tiers, SimHash deduplication, ordering, the budget. The
    pack never exceeds the budget, every text in it is a verbatim part of its candidate, every
    candidate is accounted for once.
  \<^item> \<open>Synx_Format\<close>, \<open>Synx_Container\<close>, \<open>Synx_Edges\<close>, \<^verbatim>\<open>synapse-core/src/synx/\<close>: header, footer, chunks,
    manifest, the append-only writer, the file reader and the mapped reader, export of a store, and the temporal
    edges. What is written is read back; the two readers agree; the current version of a document is found along the
    first valid supersession edges.
  \<^item> \<open>Provenance\<close>, \<^verbatim>\<open>synapse-provenance/src/lib.rs\<close>: signed documents verify, and a chain verifies exactly
    when it is a lineage of signed parents.
  \<^item> \<open>Datalog\<close>, \<open>Edge_Graph\<close>, \<open>Csr_Graph\<close>, \<^verbatim>\<open>synapse-graph/src/{datalog,lib,csr}.rs\<close>: semi-naive evaluation
    computes the least model; the shortest path is optimal; the traversal reports exactly the nodes in reach;
    the compressed cache answers as the table does, in whatever order SQLite delivers the rows of a node.
  \<^item> \<open>Temporal\<close>, \<^verbatim>\<open>synapse-core/src/temporal.rs\<close>: days and civil dates are inverse, time stamps round-trip, every
    cue gives whole days, the periods contain the present.
  \<^item> \<open>Memory_Layer\<close>, \<open>Memory_Clusters\<close>, \<^verbatim>\<open>synapse-core/src/sota.rs\<close>: promotion and supersession, the multi-hop
    search equals reachability, clusters are the connected components of the similarity.
  \<^item> \<open>Lexical_Index\<close>, \<open>Doc_Store\<close>, \<^verbatim>\<open>synapse-fts/src/lib.rs\<close>, \<^verbatim>\<open>synapse-core/src/db.rs\<close>: all writing operations of the
    store with the index and the vector cache. Reachable stores are well-formed and keep a memory and a queue entry for exactly
    the stored documents; put, batch, deferred put and delete do exactly what they promise, the failure of a delete that removes
    its FTS row twice included; a lexical search finds what it indexes.
  \<^item> \<open>Vector_Search\<close>, the vector and hybrid searches of \<^verbatim>\<open>synapse-core/src/db.rs\<close>: the rank fusion returns the best sums of
    reciprocal ranks whatever the unstable sorts do. The kernels are arguments; the NEON scores are not modelled.
  \<^item> \<open>Corpus_Text\<close>, \<open>Corpus_Store\<close>, \<open>Corpus_Search\<close>, \<^verbatim>\<open>synapse-core/src/corpus.rs\<close>: chunks and their spans, sources, ingestion,
    promotions, the two legs, diversification, and the evaluation gate. Reachable corpora are well-formed; a put stores
    exactly the chunks of a new document; a search fetches exactly what its legs find; the gate decides as its
    metrics say.
  \<^item> \<open>Splade\<close>, \<^verbatim>\<open>synapse-splade/src/\<close>: the stand-in encoder and the two indexes. The block-max index never overrates a document
    and agrees with the SQLite index when all postings fit; a lemma shows that its pruning loses documents otherwise.
  \<^item> \<open>Brain_Pack\<close>, \<^verbatim>\<open>synapse-core/src/{snap,sign,brainpack}.rs\<close>: packs round-trip, a signed import accepts
    exactly what the key signed, the merge keeps the newest of each document.
  \<^item> \<open>Tags\<close>, \<open>Event_Log\<close>, \<open>Decision_Graph\<close>, \<^verbatim>\<open>synapse-ultra/src/{tags,events,schema,graph}.rs\<close>: the tag operations
    refine a relation (locale \<open>relation_store\<close>); reachable databases are well-formed; a batch keeps the first
    event of every key; the chains of causes are exact.
  \<^item> \<open>Compliance_Export\<close>, \<open>Task_Router\<close>, \<open>Meta_Loop\<close>, \<^verbatim>\<open>synapse-{compliance,router,meta}/src/lib.rs\<close>: the masking replaces
    disjoint spans and counts them; a request runs one tool at most; outcomes are counted modulo the counter width.
  \<^item> \<open>Daemon_Guards\<close>, \<open>Daemon\<close>, \<open>Daemon_Safety\<close>, \<^verbatim>\<open>synapsed/src/{main,proto,livequery}.rs\<close>: tokens, bounds, keys, snapshot paths,
    the SQL authorizer and the origin of subscribers; the state, one definition for each request, and the loop over the frames of a
    connection. A client without the token changes nothing and learns nothing but statistics; a daemon whose mutex is free answers every
    request and keeps its invariant, except a shutdown and a delete or merge that succeeds, which wait for a mutex that their own
    handler holds; cached statistics are exact; a put is stored, audited and announced.

  \<^bold>\<open>Conventions.\<close> SQL tables are row lists in rowid order, transactions return either the new database or an
  error and the old one. BLAKE3, Ed25519, zstd, age, JSON, base64, the clock, random seeds, Unicode tables, FTS5
  and tantivy matching are arguments, with the documented laws they must satisfy as named predicates
  (\<open>..._ok\<close>); each is satisfied by a concrete function in a witness. Panics and errors are constructors of result
  types. Integers have their width where it matters: offsets and lengths of the containers, the 32-bit
  offsets of the compressed graph and its 8-bit relation numbers. A NaN bound to SQLite is stored as NULL.

  \<^bold>\<open>Termination.\<close> Loops over lists are structural recursion. Loops that end for a reason the code does not
  state are partial functions into an option, or functions with fuel, and the theorems show that they
  return: the semi-naive fixpoint (finitely many facts), Dijkstra's search (each settled edge is pushed once),
  the breadth-first chains (visited nodes), the union-find roots (acyclic forest), the multi-hop search and the edge
  resolution (bounded by the number of rows), the frames of a connection (each shortens the input).

  \<^bold>\<open>Not modelled.\<close> Distance kernels and the native vector indexes (arguments of the searches), embedding
  models, rerankers, media, GPU backends and language bindings (external libraries and hardware), federation, sharding and
  synchronisation (networks), the freshness guard, the Cypher subset and the graph algorithms, the learning and decay crates (statistics in
  floating point), late-interaction retrieval, spaces, the command line and the tool server (input and output around the crates above),
  start-up, sockets and concurrency of the daemon (its handlers run one after the other), encryption at rest
  (external ciphers), and \<^verbatim>\<open>vendor/synapse-db\<close> (vendored). The manifest lists them one by one.
\<close>

end
